(* ===== verification/Prelude370.thy ===== *)
theory Prelude370
  imports Main "HOL-Library.Word"
begin

section \<open>Prelude: machine words, byte strings and shared lemmas\<close>

text \<open>
  What every component of the development shares: the names of the machine types, the
  lemma collections the component proofs draw on, and the generic facts about words and
  lists that the library does not have in this form.

  A C \<^verbatim>\<open>unsigned\<close> is a \<open>32 word\<close>, an \<^verbatim>\<open>unsigned long long\<close> a \<open>64 word\<close> and an
  \<^verbatim>\<open>unsigned char\<close> an \<open>8 word\<close>; \<open>+\<close>, \<open>-\<close>, \<open>*\<close> wrap as in C, \<^verbatim>\<open>x << n\<close> is
  \<open>push_bit n x\<close> and \<^verbatim>\<open>x >> n\<close> is \<open>drop_bit n x\<close>. A buffer is a list of bytes; a buffer
  that is only ever written at its cursor is the list of the bytes written so far.
\<close>

unbundle bit_operations_syntax

type_synonym byte = "8 word"
type_synonym u32 = "32 word"
type_synonym u64 = "64 word"
type_synonym bytes = "byte list"

named_theorems unat_ops \<open>the value of a word operation as arithmetic on \<open>nat\<close>\<close>
named_theorems be_simps \<open>big-endian field access\<close>

subsection \<open>Words as natural numbers\<close>

lemma word_unat_eqI: "unat v = unat w \<Longrightarrow> v = w"
  for v w :: "'a::len word"
  by (rule unsigned_word_eqI)

lemma unat_take_bit [unat_ops]: "unat (take_bit n w) = unat w mod 2 ^ n"
  for w :: "'a::len word"
  by (simp only: unsigned_take_bit_eq) (simp add: take_bit_eq_mod)

lemma unat_push_bit [unat_ops]: "unat (push_bit n w) = unat w * 2 ^ n mod 2 ^ LENGTH('a)"
  for w :: "'a::len word"
  by (simp only: unsigned_push_bit_eq) (simp add: take_bit_eq_mod push_bit_eq_mult)

lemma unat_drop_bit [unat_ops]: "unat (drop_bit n w) = unat w div 2 ^ n"
  for w :: "'a::len word"
  by (simp only: unat_drop_bit_eq) (simp add: drop_bit_eq_div)

lemma unat_ucast [unat_ops]: "unat (ucast w :: 'b::len word) = unat w mod 2 ^ LENGTH('b)"
  for w :: "'a::len word"
  by (simp add: unsigned_ucast_eq take_bit_eq_mod)

lemma unat_and_mask [unat_ops]: "unat (w AND mask n) = unat w mod 2 ^ n"
  for w :: "'a::len word"
  by (simp only: unat_take_bit flip: take_bit_eq_mask)

lemma unat_or_disjoint:
  fixes a b :: "'a::len word"
  assumes "a AND b = 0" shows "unat (a OR b) = unat a + unat b"
proof -
  have "unat a AND unat b = 0"
    using assms by (metis unsigned_and_eq unsigned_0)
  then have "unat a + unat b = unat a OR unat b"
    by (rule disjunctive_add_eq_or)
  then show ?thesis by (simp add: unsigned_or_eq)
qed

lemma unat_uminus [unat_ops]: "unat (- w) = (if w = 0 then 0 else 2 ^ LENGTH('a) - unat w)"
  for w :: "'a::len word"
  using unat_sub_if' [of 0 w] by (auto simp: unat_eq_0)

lemma unat_not [unat_ops]: "unat (NOT w) = 2 ^ LENGTH('a) - 1 - unat w"
  for w :: "'a::len word"
proof -
  have "NOT w = - 1 - w" by (simp add: not_eq_complement)
  moreover have "unat (- 1 - w) = unat (- 1 :: 'a word) - unat w"
    by (rule unat_sub) simp
  ultimately show ?thesis by (simp add: unsigned_minus_1_eq_mask mask_eq_exp_minus_1)
qed

lemma bit_iff_unat: "bit w n \<longleftrightarrow> odd (unat w div 2 ^ n)"
  for w :: "'a::len word"
proof -
  have "bit (unat w) n \<longleftrightarrow> bit w n" by (simp add: bit_unsigned_iff)
  then show ?thesis by (simp add: bit_iff_odd)
qed

lemma unat_lt_u32: "unat (w :: u32) < 4294967296"
  using unsigned_less [of w] by simp

lemma unat_lt_u64: "unat (w :: u64) < 18446744073709551616"
  using unsigned_less [of w] by simp

lemma unat_lt_byte: "unat (w :: byte) < 256"
  using unsigned_less [of w] by simp

lemma sint_cases: "sint x = (if uint x < 2 ^ (LENGTH('a) - 1) then uint x else uint x - 2 ^ LENGTH('a))"
  for x :: "'a::len word"
proof -
  obtain n where n: "LENGTH('a) = Suc n" by (metis len_not_eq_0 not0_implies_Suc)
  then have lt: "unat x < 2 * 2 ^ n" using unsigned_less [of x] by simp
  then have "unat x div 2 ^ n < 2" by (rule less_mult_imp_div_less)
  then have "unat x div 2 ^ n = 0 \<or> unat x div 2 ^ n = 1" by linarith
  then have "bit x n \<longleftrightarrow> \<not> unat x < 2 ^ n"
    by (auto simp: bit_iff_unat div_eq_0_iff)
  then have "bit (uint x) n \<longleftrightarrow> \<not> uint x < 2 ^ n"
    by (simp add: bit_uint_iff n nat_less_iff flip: nat_uint_eq)
  moreover have "take_bit (Suc n) (uint x) = uint x"
    using uint_lt2p [of x] by (simp add: take_bit_int_eq_self_iff n)
  ultimately show ?thesis
    by (simp add: sint_uint signed_take_bit_eq_take_bit_minus n)
qed

lemma top_mask_0_iff: "x AND NOT (mask n) = 0 \<longleftrightarrow> unat x < 2 ^ n" for x :: "'a::len word"
proof -
  have "x AND NOT (mask n) = 0 \<longleftrightarrow> take_bit n x = x"
    by (auto simp: bit_eq_iff bit_simps dest: bit_imp_le_length)
  also have "\<dots> \<longleftrightarrow> unat x mod 2 ^ n = unat x"
    by (metis unat_take_bit word_unat_eqI)
  also have "\<dots> \<longleftrightarrow> unat x < 2 ^ n" by (metis mod_less mod_less_divisor zero_less_numeral zero_less_power)
  finally show ?thesis .
qed

lemma pow_split: "n \<le> k \<Longrightarrow> (a :: nat) ^ k = a ^ (k - n) * a ^ n"
  by (simp flip: power_add)

lemma mod_shift_add:
  fixes x y :: nat
  assumes "y < 2 ^ n" shows "(x * 2 ^ n + y) mod 2 ^ (n + m) = x mod 2 ^ m * 2 ^ n + y"
proof -
  have "(x * 2 ^ n + y) div 2 ^ n = x" "(x * 2 ^ n + y) mod 2 ^ n = y" using assms by simp_all
  then show ?thesis by (simp add: power_add mod_mult2_eq)
qed

text \<open>A field shifted up and a field below it do not overlap, so \<^verbatim>\<open>|\<close> joins them as a sum.\<close>

lemma push_and_low_disjoint:
  fixes a b :: "'a::len word"
  assumes "unat b < 2 ^ n" shows "push_bit n a AND b = 0"
proof (rule bit_eqI)
  fix k
  have "b = take_bit n b"
    using assms by (intro word_unat_eqI) (simp add: unat_take_bit)
  then have "bit b k \<Longrightarrow> k < n"
    by (metis bit_take_bit_iff)
  then show "bit (push_bit n a AND b) k \<longleftrightarrow> bit (0 :: 'a word) k"
    by (auto simp: bit_and_iff bit_push_bit_iff)
qed

lemma unat_push_or_low [unat_ops]:
  fixes a b :: "'a::len word"
  assumes "unat b < 2 ^ n"
  shows "unat (push_bit n a OR b) = unat a * 2 ^ n mod 2 ^ LENGTH('a) + unat b"
  using assms by (simp only: unat_or_disjoint [OF push_and_low_disjoint] unat_push_bit)

lemma unat_low_or_push [unat_ops]:
  fixes a b :: "'a::len word"
  assumes "unat b < 2 ^ n"
  shows "unat (b OR push_bit n a) = unat a * 2 ^ n mod 2 ^ LENGTH('a) + unat b"
  using unat_push_or_low [OF assms, of a] by (simp add: or.commute)

end
