(* ===== verification/Runtime_Dw.thy ===== *)
theory Runtime_Dw
  imports Prelude370
begin

section \<open>Double words on 32-bit halves\<close>

text \<open>
  The union \<^verbatim>\<open>dw_t\<close> every runtime helper of \<^verbatim>\<open>runtime/src\<close> declares: a 64-bit value seen as
  two 32-bit halves. Writing \<^verbatim>\<open>v.u\<close> (or \<^verbatim>\<open>v.s\<close>, the same bits) is \<open>dw_of\<close>, reading it back
  is \<open>dw_u\<close>. The two's-complement negation that \<^verbatim>\<open>negate\<close>, \<^verbatim>\<open>neg64\<close> and \<^verbatim>\<open>__negdi2\<close> share is
  here as well.
\<close>

record dw_t =
  hi :: u32
  lo :: u32

definition dw_of :: "u64 \<Rightarrow> dw_t" where
  "dw_of x = \<lparr>hi = ucast (drop_bit 32 x), lo = ucast x\<rparr>"

definition dw_u :: "dw_t \<Rightarrow> u64" where
  "dw_u v = word_cat (hi v) (lo v)"

definition dw_nat :: "dw_t \<Rightarrow> nat" where
  "dw_nat v = unat (hi v) * 2 ^ 32 + unat (lo v)"

lemma unat_dw_u: "unat (dw_u v) = dw_nat v"
proof -
  have "unat (ucast (hi v) :: u64) = unat (hi v)"
    by (simp add: unat_ucast less_trans [OF unat_lt_u32])
  moreover have "unat (ucast (lo v) :: u64) = unat (lo v)"
    by (simp add: unat_ucast less_trans [OF unat_lt_u32])
  moreover have "unat (hi v) * 2 ^ 32 < 2 ^ 64"
    using unat_lt_u32 [of "hi v"] by simp
  ultimately show ?thesis
    using unat_lt_u32 [of "lo v"]
    by (simp add: dw_u_def dw_nat_def word_cat_eq_push_bit_or unat_push_or_low)
qed

lemma dw_nat_of: "dw_nat (dw_of x) = unat x"
proof -
  have "unat x div 2 ^ 32 < 2 ^ 32"
    using unat_lt_u64 [of x] by (simp add: less_mult_imp_div_less)
  then show ?thesis
    by (simp add: dw_nat_def dw_of_def unat_ucast unat_drop_bit)
qed

lemma dw_u_of [simp]: "dw_u (dw_of x) = x"
  by (rule word_unat_eqI) (simp add: unat_dw_u dw_nat_of)

lemma dw_of_u [simp]: "dw_of (dw_u v) = v"
proof -
  have "ucast (drop_bit 32 (dw_u v)) = hi v" "ucast (dw_u v) = lo v"
    by (rule word_unat_eqI,
        simp add: unat_dw_u dw_nat_def unat_ucast unat_drop_bit unat_lt_u32)+
  then show ?thesis by (simp add: dw_of_def)
qed

lemma dw_nat_lt: "dw_nat v < 2 ^ 64"
  using unat_lt_u64 [of "dw_u v"] by (simp add: unat_dw_u)

lemma dw_u_inject [simp]: "dw_u v = dw_u w \<longleftrightarrow> v = w"
  by (metis dw_of_u)

lemma dw_nat_inject: "dw_nat v = dw_nat w \<longleftrightarrow> v = w"
  by (metis dw_u_inject unat_dw_u word_unat_eqI)

lemma dw_u_eqI: "dw_nat v = unat x \<Longrightarrow> dw_u v = x"
  by (rule word_unat_eqI) (simp add: unat_dw_u)

lemma dw_zero_iff: "hi v = 0 \<and> lo v = 0 \<longleftrightarrow> dw_u v = 0"
proof -
  have "dw_nat v = 0 \<longleftrightarrow> hi v = 0 \<and> lo v = 0"
    by (simp add: dw_nat_def unat_eq_0)
  then show ?thesis by (simp add: unat_eq_0 flip: unat_dw_u)
qed

subsection \<open>Two's-complement negation\<close>

definition negate :: "dw_t \<Rightarrow> dw_t" where
  "negate v = (let l = NOT (lo v) + 1 in
     v\<lparr>lo := l, hi := NOT (hi v) + (if l = 0 then 1 else 0)\<rparr>)"

lemma not_plus_1: "NOT x + 1 = - x" for x :: "'a::len word"
  by (simp add: not_eq_complement)

lemma negate_u: "dw_u (negate v) = - dw_u v"
proof (rule dw_u_eqI)
  have minus: "unat (- dw_u v) = (if dw_nat v = 0 then 0 else 2 ^ 64 - dw_nat v)"
    by (simp add: unat_uminus unat_eq_0 flip: unat_dw_u)
  have "hi v \<noteq> 0 \<Longrightarrow> 0 < unat (hi v)" by (simp add: unat_gt_0)
  then show "dw_nat (negate v) = unat (- dw_u v)"
    using unat_lt_u32 [of "hi v"] unat_lt_u32 [of "lo v"]
    unfolding minus
    by (auto simp: negate_def Let_def not_plus_1 dw_nat_def unat_uminus unat_not
        unat_word_ariths(1) unat_eq_0 Suc_diff_le [symmetric] diff_mult_distrib)
qed

text \<open>The sign test \<^verbatim>\<open>v.w.hi & 0x80000000\<close> is the sign of the 64-bit value.\<close>

definition neg_bit :: "dw_t \<Rightarrow> bool" where
  "neg_bit v \<longleftrightarrow> hi v AND 0x80000000 \<noteq> 0"

lemma and_top_bit: "x AND 0x80000000 \<noteq> 0 \<longleftrightarrow> 2 ^ 31 \<le> unat x" for x :: u32
proof -
  have "x AND 0x80000000 \<noteq> 0 \<longleftrightarrow> bit x 31"
    using and_exp_eq_0_iff_not_bit [of x 31] by simp
  also have "\<dots> \<longleftrightarrow> odd (unat x div 2 ^ 31)"
    by (rule bit_iff_unat)
  also have "\<dots> \<longleftrightarrow> 2 ^ 31 \<le> unat x"
  proof -
    have "unat x div 2 ^ 31 < 2" using unat_lt_u32 [of x] by (simp add: less_mult_imp_div_less)
    then have "unat x div 2 ^ 31 = 0 \<or> unat x div 2 ^ 31 = 1" by linarith
    then show ?thesis by (auto simp: div_eq_0_iff)
  qed
  finally show ?thesis .
qed

lemmas sint_u64 = sint_cases [where 'a=64, simplified]
lemmas sint_u32 = sint_cases [where 'a=32, simplified]

lemma int_dw_nat: "int (dw_nat v) = uint (dw_u v)"
  by (simp flip: unat_dw_u)

lemma uint_dw: "uint (dw_u v) = uint (hi v) * 2 ^ 32 + uint (lo v)"
  by (simp add: dw_nat_def flip: int_dw_nat)

lemma sint_dw: "sint (dw_u v) = sint (hi v) * 2 ^ 32 + uint (lo v)"
proof -
  have "0 \<le> l \<Longrightarrow> l < 2 ^ 32 \<Longrightarrow> h * 2 ^ 32 + l < 2 ^ 63 \<longleftrightarrow> h < 2 ^ 31" for h l :: int
    by auto
  from this [of "uint (lo v)" "uint (hi v)"] show ?thesis
    using uint_lt2p [of "lo v"] by (simp add: sint_u64 sint_u32 uint_dw)
qed

lemma neg_bit_iff: "neg_bit v \<longleftrightarrow> sint (dw_u v) < 0"
proof -
  have "neg_bit v \<longleftrightarrow> 2 ^ 63 \<le> dw_nat v"
    using unat_lt_u32 [of "hi v"] unat_lt_u32 [of "lo v"]
    unfolding neg_bit_def and_top_bit dw_nat_def by auto
  also have "\<dots> \<longleftrightarrow> 2 ^ 63 \<le> uint (dw_u v)"
    by (simp flip: int_dw_nat)
  finally show ?thesis using uint_lt2p [of "dw_u v"] by (auto simp: sint_u64)
qed

text \<open>The magnitude a signed helper works on: the value itself, or its negation.\<close>

definition mag :: "dw_t \<Rightarrow> dw_t" where
  "mag v = (if neg_bit v then negate v else v)"

lemma dw_nat_mag: "int (dw_nat (mag v)) = \<bar>sint (dw_u v)\<bar>"
proof (cases "neg_bit v")
  case True
  then have neg: "sint (dw_u v) < 0" by (simp add: neg_bit_iff)
  then have "dw_u v \<noteq> 0" by auto
  then have "uint (- dw_u v) = 2 ^ 64 - uint (dw_u v)"
    using uint_word_ariths(4) [of "dw_u v"] uint_lt2p [of "dw_u v"]
    by (simp add: zmod_zminus1_eq_if uint_0_iff)
  then show ?thesis
    using True neg by (auto simp: int_dw_nat mag_def negate_u sint_u64)
next
  case False
  then have "0 \<le> sint (dw_u v)" by (simp add: neg_bit_iff)
  moreover from this have "sint (dw_u v) = uint (dw_u v)"
    using uint_lt2p [of "dw_u v"] by (auto simp: sint_u64 split: if_splits)
  ultimately show ?thesis using False by (simp add: mag_def int_dw_nat)
qed

subsection \<open>Addition and subtraction with carry\<close>

lemma dw_add:
  "dw_u \<lparr>hi = hi x + hi y + (if lo x + lo y < lo x then 1 else 0), lo = lo x + lo y\<rparr> = dw_u x + dw_u y"
    (is "dw_u \<lparr>hi = ?h, lo = ?l\<rparr> = _")
proof (rule dw_u_eqI)
  define c :: nat where "c = (if lo x + lo y < lo x then 1 else 0)"
  have lo: "unat (lo x) + unat (lo y) = c * 2 ^ 32 + unat ?l"
    using unat_plus_if' [of "lo x" "lo y"] unat_lt_u32 [of "lo y"]
    by (auto simp: c_def word_less_nat_alt split: if_splits)
  have "unat ?h = (unat (hi x) + unat (hi y) + c) mod 2 ^ 32"
    by (simp add: unat_word_ariths(1) c_def mod_simps)
  then have "dw_nat \<lparr>hi = ?h, lo = ?l\<rparr> = ((unat (hi x) + unat (hi y) + c) * 2 ^ 32 + unat ?l) mod 2 ^ 64"
    using mod_shift_add [of "unat ?l" 32 "unat (hi x) + unat (hi y) + c" 32] unat_lt_u32 [of ?l]
    by (simp add: dw_nat_def)
  also have "(unat (hi x) + unat (hi y) + c) * 2 ^ 32 + unat ?l = dw_nat x + dw_nat y"
    using lo by (simp add: dw_nat_def algebra_simps)
  also have "(dw_nat x + dw_nat y) mod 2 ^ 64 = unat (dw_u x + dw_u y)"
    by (simp add: unat_word_ariths(1) unat_dw_u)
  finally show "dw_nat \<lparr>hi = ?h, lo = ?l\<rparr> = unat (dw_u x + dw_u y)" .
qed

lemma dw_subtract:
  "dw_u \<lparr>hi = hi x - hi y - (if lo x < lo y then 1 else 0), lo = lo x - lo y\<rparr> = dw_u x - dw_u y"
    (is "dw_u ?d = _")
proof -
  have "lo x < lo x - lo y \<longleftrightarrow> lo x < lo y"
    using unat_sub_if' [of "lo x" "lo y"] unat_lt_u32 [of "lo y"]
    by (auto simp: word_less_nat_alt split: if_splits)
  then have "dw_u x = dw_u ?d + dw_u y"
    using dw_add [of ?d y] by (cases x) (simp add: algebra_simps)
  then show ?thesis by simp
qed

end
