(* ===== verification/Runtime_Arith.thy ===== *)
theory Runtime_Arith
  imports Runtime_Dw
begin

section \<open>The long long multiply and divide helpers\<close>

text \<open>
  \<^verbatim>\<open>runtime/src/@@muldi3.c\<close> and \<^verbatim>\<open>runtime/src/@@divdi3.c\<close>: the libgcc entry points cc370
  emits calls to, written on 32-bit halves only. The multiply is proved to be the 64-bit
  product, the restoring division loop to be Euclidean division, and the four entry points
  to be C's unsigned and truncating signed division, with the S0C9 abend on a zero divisor
  as an error value.
\<close>

subsection \<open>Multiply\<close>

definition mul32 :: "u32 \<Rightarrow> u32 \<Rightarrow> u32 \<times> u32" where
  "mul32 a b =
    (let a0 = a AND 0xFFFF; a1 = drop_bit 16 a;
         b0 = b AND 0xFFFF; b1 = drop_bit 16 b;
         p00 = a0 * b0; p01 = a0 * b1; p10 = a1 * b0; p11 = a1 * b1;
         mid = drop_bit 16 p00 + (p01 AND 0xFFFF) + (p10 AND 0xFFFF);
         l = (p00 AND 0xFFFF) OR push_bit 16 mid;
         h = p11 + drop_bit 16 p01 + drop_bit 16 p10 + drop_bit 16 mid
     in (h, l))"

definition muldi3 :: "u64 \<Rightarrow> u64 \<Rightarrow> u64" where
  "muldi3 a b =
    (let x = dw_of a; y = dw_of b; (rhi, rlo) = mul32 (lo x) (lo y);
         rhi = rhi + (lo x * hi y + hi x * lo y)
     in dw_u \<lparr>hi = rhi, lo = rlo\<rparr>)"

lemma and_FFFF: "unat (x AND 0xFFFF) = unat x mod 2 ^ 16" for x :: u32
  using unat_and_mask [of x 16] by (simp add: mask_eq_exp_minus_1)

lemma mult_lt_32: "(x :: nat) < 2 ^ 16 \<Longrightarrow> y < 2 ^ 16 \<Longrightarrow> x * y < 2 ^ 32"
  using mult_strict_mono [of x "2 ^ 16" y "2 ^ 16"] by simp

lemma unat_mul_16:
  fixes x y :: u32
  assumes "unat x < 2 ^ 16" "unat y < 2 ^ 16"
  shows "unat (x * y) = unat x * unat y"
  using mult_lt_32 [OF assms] by (simp add: unat_word_ariths)

text \<open>The schoolbook identity behind \<^verbatim>\<open>mul32\<close>, on natural numbers.\<close>

lemma school_sum:
  fixes s p :: nat
  assumes "p = p1 * 65536 + p0" "q = q1 * 65536 + q0" "r = r1 * 65536 + r0" "mid = p1 + q0 + r0"
  shows "s * 4294967296 + (q + r) * 65536 + p
    = (s + q1 + r1) * 4294967296 + mid * 65536 + p0"
  using assms by (simp add: algebra_simps)

lemma school_mul:
  fixes a0 a1 b0 b1 :: nat
  defines "mid \<equiv> a0 * b0 div 2 ^ 16 + a0 * b1 mod 2 ^ 16 + a1 * b0 mod 2 ^ 16"
  shows "(a1 * b1 + a0 * b1 div 2 ^ 16 + a1 * b0 div 2 ^ 16 + mid div 2 ^ 16) * 2 ^ 32
     + (a0 * b0 mod 2 ^ 16 + mid mod 2 ^ 16 * 2 ^ 16)
     = (a1 * 2 ^ 16 + a0) * (b1 * 2 ^ 16 + b0)"
proof -
  have split: "x = x div 65536 * 65536 + x mod 65536" for x :: nat by simp
  define p q r where "p = a0 * b0" and "q = a0 * b1" and "r = a1 * b0"
  note mid_def = mid_def [folded this]
  define s where "s = a1 * b1"
  have mid: "mid = p div 65536 + q mod 65536 + r mod 65536" by (simp add: mid_def)
  have "(a1 * 2 ^ 16 + a0) * (b1 * 2 ^ 16 + b0) = s * 4294967296 + (q + r) * 65536 + p"
    by (simp add: p_def q_def r_def s_def algebra_simps)
  also have "\<dots> = (s + q div 65536 + r div 65536) * 4294967296 + mid * 65536 + p mod 65536"
    by (rule school_sum [OF split split split mid])
  also have "mid * 65536 = mid div 65536 * 4294967296 + mid mod 65536 * 65536"
    using split [of mid] by linarith
  finally show ?thesis by (simp add: p_def q_def r_def s_def algebra_simps)
qed

lemma mul32_exact:
  assumes "mul32 a b = (h, l)"
  shows "unat h * 2 ^ 32 + unat l = unat a * unat b"
proof -
  define a0 a1 b0 b1 where "a0 = unat a mod 2 ^ 16" and "a1 = unat a div 2 ^ 16"
    and "b0 = unat b mod 2 ^ 16" and "b1 = unat b div 2 ^ 16"
  note parts = this
  have lt: "a0 < 2 ^ 16" "b0 < 2 ^ 16" "a1 < 2 ^ 16" "b1 < 2 ^ 16"
    using unat_lt_u32 [of a] unat_lt_u32 [of b]
    by (simp_all add: parts less_mult_imp_div_less)
  define A0 A1 B0 B1 where "A0 = a AND 0xFFFF" and "A1 = drop_bit 16 a"
    and "B0 = b AND 0xFFFF" and "B1 = drop_bit 16 b"
  note words = this
  have W: "unat A0 = a0" "unat A1 = a1" "unat B0 = b0" "unat B1 = b1"
    by (simp_all add: words parts and_FFFF unat_drop_bit)
  have P: "unat (A0 * B0) = a0 * b0" "unat (A0 * B1) = a0 * b1"
    "unat (A1 * B0) = a1 * b0" "unat (A1 * B1) = a1 * b1"
    using W lt by (simp_all add: unat_mul_16)
  define mid where "mid = a0 * b0 div 2 ^ 16 + a0 * b1 mod 2 ^ 16 + a1 * b0 mod 2 ^ 16"
  define MID where "MID = drop_bit 16 (A0 * B0) + (A0 * B1 AND 0xFFFF) + (A1 * B0 AND 0xFFFF)"
  have "a0 * b0 div 2 ^ 16 < 2 ^ 16"
    using mult_lt_32 [OF lt(1,2)] by (simp add: less_mult_imp_div_less)
  moreover have "a0 * b1 mod 2 ^ 16 < 2 ^ 16" "a1 * b0 mod 2 ^ 16 < 2 ^ 16" by simp_all
  ultimately have "mid < 3 * 2 ^ 16" unfolding mid_def by linarith
  then have M: "unat MID = mid"
    by (simp add: MID_def mid_def unat_word_ariths(1) unat_drop_bit and_FFFF P)
  have lh: "l = (A0 * B0 AND 0xFFFF) OR push_bit 16 MID"
    "h = A1 * B1 + drop_bit 16 (A0 * B1) + drop_bit 16 (A1 * B0) + drop_bit 16 MID"
    using assms by (simp_all add: mul32_def Let_def words MID_def)
  have l: "unat l = a0 * b0 mod 2 ^ 16 + mid mod 2 ^ 16 * 2 ^ 16"
    using mod_mult_mult2 [of mid "2 ^ 16" "2 ^ 16"]
    by (simp add: lh unat_low_or_push and_FFFF P M)
  define H where "H = a1 * b1 + a0 * b1 div 2 ^ 16 + a1 * b0 div 2 ^ 16 + mid div 2 ^ 16"
  have HL: "H * 2 ^ 32 + unat l = unat a * unat b"
    using school_mul [of a1 b1 a0 b0] by (simp add: H_def l mid_def parts)
  have "unat a * unat b < 2 ^ 32 * 2 ^ 32"
    using unat_lt_u32 [of a] unat_lt_u32 [of b] by (intro mult_strict_mono) simp_all
  then have "H < 2 ^ 32" using HL by simp
  moreover have "unat h = H mod 2 ^ 32"
    by (simp add: lh unat_word_ariths(1) unat_drop_bit P M H_def mod_simps)
  ultimately show ?thesis using HL by simp
qed

lemma muldi3_eq: "muldi3 a b = a * b"
proof -
  obtain h l where m: "mul32 (lo (dw_of a)) (lo (dw_of b)) = (h, l)" by fastforce
  define x y where "x = dw_of a" and "y = dw_of b"
  define c where "c = unat (lo x) * unat (hi y) + unat (hi x) * unat (lo y)"
  have hl: "unat h * 2 ^ 32 + unat l = unat (lo x) * unat (lo y)"
    using mul32_exact [OF m] by (simp add: x_def y_def)
  have ab: "unat a = unat (hi x) * 2 ^ 32 + unat (lo x)"
    "unat b = unat (hi y) * 2 ^ 32 + unat (lo y)"
    using dw_nat_of [of a] dw_nat_of [of b] by (simp_all add: dw_nat_def x_def y_def)
  have "unat (h + (lo x * hi y + hi x * lo y)) = (unat h + c) mod 2 ^ 32"
    by (simp add: unat_word_ariths c_def mod_simps)
  then have "dw_nat \<lparr>hi = h + (lo x * hi y + hi x * lo y), lo = l\<rparr>
      = ((unat h + c) * 2 ^ 32 + unat l) mod 2 ^ 64"
    using mod_shift_add [of "unat l" 32 "unat h + c" 32] unat_lt_u32 [of l]
    by (simp add: dw_nat_def)
  also have "(unat h + c) * 2 ^ 32 + unat l + unat (hi x) * unat (hi y) * 2 ^ 64 = unat a * unat b"
    using hl by (simp add: ab c_def algebra_simps)
  then have "((unat h + c) * 2 ^ 32 + unat l) mod 2 ^ 64 = unat (a * b)"
    by (simp add: unat_word_ariths) (metis mod_mult_self1)
  finally show ?thesis
    using m by (simp add: muldi3_def Let_def dw_u_eqI x_def y_def)
qed

subsection \<open>Divide and remainder\<close>

text \<open>The only abend a divide helper raises: the fixed-point divide exception.\<close>

datatype abend = S0C9

definition divide_by_zero :: "abend + u32" where
  "divide_by_zero = Inl S0C9"

record div_state =
  dv_h :: u32
  dv_l :: u32
  dv_nh :: u32
  dv_nl :: u32
  dv_xh :: u32
  dv_xl :: u32

text \<open>One round of the restoring loop, and the loop itself on the number of rounds left.\<close>

definition udivmod_round :: "u32 \<Rightarrow> u32 \<Rightarrow> div_state \<Rightarrow> div_state" where
  "udivmod_round dh dl s =
    (let h = push_bit 1 (dv_h s) OR drop_bit 31 (dv_l s);
         l = push_bit 1 (dv_l s) OR drop_bit 31 (dv_nh s);
         nh = push_bit 1 (dv_nh s) OR drop_bit 31 (dv_nl s);
         nl = push_bit 1 (dv_nl s);
         xh = push_bit 1 (dv_xh s) OR drop_bit 31 (dv_xl s);
         xl = push_bit 1 (dv_xl s)
     in if h > dh \<or> (h = dh \<and> l \<ge> dl)
        then \<lparr>dv_h = h - (dh + (if l < dl then 1 else 0)), dv_l = l - dl,
              dv_nh = nh, dv_nl = nl, dv_xh = xh, dv_xl = xl OR 1\<rparr>
        else \<lparr>dv_h = h, dv_l = l, dv_nh = nh, dv_nl = nl, dv_xh = xh, dv_xl = xl\<rparr>)"

fun udivmod_loop :: "nat \<Rightarrow> u32 \<Rightarrow> u32 \<Rightarrow> div_state \<Rightarrow> div_state" where
  "udivmod_loop 0 dh dl s = s"
| "udivmod_loop (Suc i) dh dl s = udivmod_loop i dh dl (udivmod_round dh dl s)"

definition udivmod :: "dw_t \<Rightarrow> dw_t \<Rightarrow> dw_t \<times> dw_t" where
  "udivmod n d =
    (if hi n = 0 \<and> hi d = 0
     then let ql = lo n div lo d in
       (\<lparr>hi = 0, lo = ql\<rparr>, \<lparr>hi = 0, lo = lo n - ql * lo d\<rparr>)
     else let s = udivmod_loop 64 (hi d) (lo d)
            \<lparr>dv_h = 0, dv_l = 0, dv_nh = hi n, dv_nl = lo n, dv_xh = 0, dv_xl = 0\<rparr> in
       (\<lparr>hi = dv_xh s, lo = dv_xl s\<rparr>, \<lparr>hi = dv_h s, lo = dv_l s\<rparr>))"

definition udivdi3 :: "u64 \<Rightarrow> u64 \<Rightarrow> abend + u64" where
  "udivdi3 a b =
    (let n = dw_of a; d = dw_of b in
     if hi d = 0 \<and> lo d = 0 then map_sum id (\<lambda>z. dw_u \<lparr>hi = 0, lo = z\<rparr>) divide_by_zero
     else let (q, r) = udivmod n d in Inr (dw_u q))"

definition umoddi3 :: "u64 \<Rightarrow> u64 \<Rightarrow> abend + u64" where
  "umoddi3 a b =
    (let n = dw_of a; d = dw_of b in
     if hi d = 0 \<and> lo d = 0 then map_sum id (\<lambda>z. dw_u \<lparr>hi = 0, lo = z\<rparr>) divide_by_zero
     else let (q, r) = udivmod n d in Inr (dw_u r))"

definition divdi3 :: "u64 \<Rightarrow> u64 \<Rightarrow> abend + u64" where
  "divdi3 a b =
    (let n = dw_of a; d = dw_of b; negative = False in
     if hi d = 0 \<and> lo d = 0 then map_sum id (\<lambda>z. dw_u \<lparr>hi = 0, lo = z\<rparr>) divide_by_zero
     else
       let (n, negative) = (if neg_bit n then (negate n, \<not> negative) else (n, negative));
           (d, negative) = (if neg_bit d then (negate d, \<not> negative) else (d, negative));
           (q, r) = udivmod n d;
           q = (if negative then negate q else q)
       in Inr (dw_u q))"

definition moddi3 :: "u64 \<Rightarrow> u64 \<Rightarrow> abend + u64" where
  "moddi3 a b =
    (let n = dw_of a; d = dw_of b; negative = False in
     if hi d = 0 \<and> lo d = 0 then map_sum id (\<lambda>z. dw_u \<lparr>hi = 0, lo = z\<rparr>) divide_by_zero
     else
       let (n, negative) = (if neg_bit n then (negate n, True) else (n, negative));
           d = (if neg_bit d then negate d else d);
           (q, r) = udivmod n d;
           r = (if negative then negate r else r)
       in Inr (dw_u r))"

text \<open>A round read on natural numbers: the three shift chains, and the trial subtraction.\<close>

lemma unat_shl1_carry:
  fixes x c :: u32
  shows "unat (push_bit 1 x OR drop_bit 31 c) = unat x * 2 mod 2 ^ 32 + unat c div 2 ^ 31"
proof -
  have "unat (drop_bit 31 c) < 2 ^ 1"
    using unat_lt_u32 [of c] by (simp add: unat_drop_bit less_mult_imp_div_less)
  from unat_push_or_low [OF this] show ?thesis by (simp add: unat_drop_bit)
qed

lemma double_mod: "x * 2 mod 2 ^ Suc n = (x mod 2 ^ n) * 2" for x :: nat
  by (simp only: power_Suc2 mod_mult_mult2)

lemma shl1_pair:
  fixes h l :: nat
  assumes "h < 2 ^ 32" "l < 2 ^ 32" "c < 2"
  shows "(h * 2 mod 2 ^ 32 + l div 2 ^ 31) * 2 ^ 32 + (l * 2 mod 2 ^ 32 + c)
    = ((h * 2 ^ 32 + l) * 2 + c) mod 2 ^ 64"
proof -
  obtain h1 h0 where h: "h = h1 * 2 ^ 31 + h0" "h0 < 2 ^ 31" "h mod 2 ^ 31 = h0"
    using that [of "h div 2 ^ 31" "h mod 2 ^ 31"] by simp
  obtain l1 l0 where l: "l = l1 * 2 ^ 31 + l0" "l0 < 2 ^ 31" "l mod 2 ^ 31 = l0" "l div 2 ^ 31 = l1"
    using that [of "l div 2 ^ 31" "l mod 2 ^ 31"] by simp
  have "l1 < 2" using assms(2) l(1) by simp
  have "(h * 2 ^ 32 + l) * 2 + c = h1 * 2 ^ 64 + ((h0 * 2 + l1) * 2 ^ 32 + (l0 * 2 + c))"
    by (simp add: h(1) l(1))
  also have "\<dots> mod 2 ^ 64 = (h0 * 2 + l1) * 2 ^ 32 + (l0 * 2 + c)"
    using \<open>l1 < 2\<close> h(2) l(2) assms(3) by simp
  finally show ?thesis
    using double_mod [of h 31] double_mod [of l 31] h(3) l(3,4) by simp
qed

text \<open>The three registers of the loop as 64-bit numbers.\<close>

definition dv_rem :: "div_state \<Rightarrow> nat" where
  "dv_rem s = dw_nat \<lparr>hi = dv_h s, lo = dv_l s\<rparr>"

definition dv_num :: "div_state \<Rightarrow> nat" where
  "dv_num s = dw_nat \<lparr>hi = dv_nh s, lo = dv_nl s\<rparr>"

definition dv_quo :: "div_state \<Rightarrow> nat" where
  "dv_quo s = dw_nat \<lparr>hi = dv_xh s, lo = dv_xl s\<rparr>"

lemmas dv_defs = dv_rem_def dv_num_def dv_quo_def dw_nat_def

lemma dw_le_iff:
  "(h > dh \<or> (h = dh \<and> l \<ge> dl)) \<longleftrightarrow> dw_nat \<lparr>hi = dh, lo = dl\<rparr> \<le> dw_nat \<lparr>hi = h, lo = l\<rparr>"
  using unat_lt_u32 [of l] unat_lt_u32 [of dl]
  by (cases "unat h" "unat dh" rule: linorder_cases)
     (auto simp: dw_nat_def word_less_nat_alt word_le_nat_alt dest: word_unat_eqI)

lemma dw_sub:
  assumes "dw_nat \<lparr>hi = dh, lo = dl\<rparr> \<le> dw_nat \<lparr>hi = h, lo = l\<rparr>"
  shows "dw_nat \<lparr>hi = h - (dh + (if l < dl then 1 else 0)), lo = l - dl\<rparr>
    = dw_nat \<lparr>hi = h, lo = l\<rparr> - dw_nat \<lparr>hi = dh, lo = dl\<rparr>"
proof (cases "l < dl")
  case True
  then have "dh < h" using assms dw_le_iff [of dh h dl l] by auto
  then have "unat (dh + 1) = unat dh + 1"
    using unat_lt_u32 [of h] by (simp add: unat_word_ariths(1) word_less_nat_alt)
  then have "unat (h - (dh + 1)) = unat h - unat dh - 1"
    using \<open>dh < h\<close> by (subst unat_sub) (simp_all add: word_le_nat_alt word_less_nat_alt)
  moreover have "unat (l - dl) = 2 ^ 32 + unat l - unat dl"
    using True by (simp add: unat_sub_if' word_less_nat_alt)
  ultimately show ?thesis
    using True \<open>dh < h\<close> unat_lt_u32 [of dl]
    by (simp add: dw_nat_def word_less_nat_alt diff_mult_distrib)
next
  case False
  then have "dh \<le> h" using assms dw_le_iff [of dh h dl l] by auto
  then show ?thesis
    using False by (simp add: dw_nat_def unat_sub not_less word_le_nat_alt word_less_nat_alt
        diff_mult_distrib)
qed

lemma dw_shl1:
  assumes "unat c < 2"
  shows "dw_nat \<lparr>hi = push_bit 1 h OR drop_bit 31 l, lo = push_bit 1 l OR c\<rparr>
    = (dw_nat \<lparr>hi = h, lo = l\<rparr> * 2 + unat c) mod 2 ^ 64"
  using shl1_pair [of "unat h" "unat l" "unat c"] assms unat_push_or_low [of c 1 l]
    unat_lt_u32 [of h] unat_lt_u32 [of l]
  by (simp add: dw_nat_def unat_shl1_carry del: One_nat_def push_bit_Suc)

lemma carry_lt: "unat (drop_bit 31 c) < 2" for c :: u32
  using unat_lt_u32 [of c] by (simp add: unat_drop_bit less_mult_imp_div_less)

lemma carry_top: "unat (drop_bit 31 h) = dw_nat \<lparr>hi = h, lo = l\<rparr> div 2 ^ 63"
proof -
  have "(unat h * 2 ^ 32 + unat l) div 2 ^ 32 = unat h"
    using unat_lt_u32 [of l] by simp
  then show ?thesis
    using div_mult2_eq [of "unat h * 2 ^ 32 + unat l" "2 ^ 32" "2 ^ 31"]
    by (simp add: dw_nat_def unat_drop_bit)
qed

lemma round_effect:
  fixes s :: div_state and dh dl :: u32
  assumes rem: "dv_rem s < 2 ^ 63"
  defines "D \<equiv> dw_nat \<lparr>hi = dh, lo = dl\<rparr>"
  defines "m \<equiv> dv_rem s * 2 + dv_num s div 2 ^ 63"
  shows "dv_rem (udivmod_round dh dl s) = (if D \<le> m then m - D else m)"
    and "dv_num (udivmod_round dh dl s) = dv_num s * 2 mod 2 ^ 64"
    and "dv_quo (udivmod_round dh dl s) = (dv_quo s * 2 + (if D \<le> m then 1 else 0)) mod 2 ^ 64"
proof -
  define h l where "h = push_bit 1 (dv_h s) OR drop_bit 31 (dv_l s)"
    and "l = push_bit 1 (dv_l s) OR drop_bit 31 (dv_nh s)"
  have c: "unat (drop_bit 31 (dv_nh s)) = dv_num s div 2 ^ 63"
    unfolding dv_num_def by (rule carry_top)
  have "m < 2 ^ 64"
    using rem carry_lt [of "dv_nh s"] unfolding m_def c by simp
  then have hl: "dw_nat \<lparr>hi = h, lo = l\<rparr> = m"
    using dw_shl1 [OF carry_lt [of "dv_nh s"], of "dv_h s" "dv_l s"]
    by (simp add: h_def l_def m_def c dv_rem_def)
  have test: "(h > dh \<or> (h = dh \<and> l \<ge> dl)) \<longleftrightarrow> D \<le> m"
    unfolding dw_le_iff hl D_def ..
  show "dv_rem (udivmod_round dh dl s) = (if D \<le> m then m - D else m)"
    using dw_sub [of dh dl h l] hl
    by (simp add: udivmod_round_def Let_def test dv_rem_def D_def
        flip: h_def l_def del: One_nat_def push_bit_Suc)
  show "dv_num (udivmod_round dh dl s) = dv_num s * 2 mod 2 ^ 64"
    using dw_shl1 [of 0 "dv_nh s" "dv_nl s"]
    by (simp add: udivmod_round_def Let_def dv_num_def del: One_nat_def push_bit_Suc)
  show "dv_quo (udivmod_round dh dl s) = (dv_quo s * 2 + (if D \<le> m then 1 else 0)) mod 2 ^ 64"
    using dw_shl1 [of 0 "dv_xh s" "dv_xl s"] dw_shl1 [of 1 "dv_xh s" "dv_xl s"]
    by (simp add: udivmod_round_def Let_def test dv_quo_def
        flip: h_def l_def del: One_nat_def push_bit_Suc)
qed

text \<open>
  After \<open>i\<close> rounds the registers hold the quotient and remainder of the dividend's top \<open>i\<close>
  bits; the remainder before the last round is below \<open>2 ^ 63\<close>, so the shift loses nothing.
\<close>

lemma double_div_mod:
  fixes P D c :: nat
  assumes "0 < D"
  defines "m \<equiv> P mod D * 2 + c"
  assumes "c < 2"
  shows "(P * 2 + c) mod D = (if D \<le> m then m - D else m)"
    and "(P * 2 + c) div D = P div D * 2 + (if D \<le> m then 1 else 0)"
proof -
  have P: "P * 2 + c = P div D * 2 * D + m"
  proof -
    have "(u * D + v) * 2 = u * 2 * D + v * 2" for u v by (simp add: algebra_simps)
    from this [of "P div D" "P mod D"] show ?thesis by (simp add: m_def)
  qed
  have "P mod D < D" using assms(1) by simp
  then have "m < D + D" using assms(3) unfolding m_def by linarith
  then have "m mod D = (if D \<le> m then m - D else m)" "m div D = (if D \<le> m then 1 else 0)"
    using assms(1) by (auto simp: le_mod_geq le_div_geq)
  then show "(P * 2 + c) mod D = (if D \<le> m then m - D else m)"
    "(P * 2 + c) div D = P div D * 2 + (if D \<le> m then 1 else 0)"
    unfolding P using assms(1) by simp_all
qed

lemma top_bits_step:
  fixes n :: nat
  assumes "i + Suc k = 64"
  shows "n div 2 ^ k = n div 2 ^ Suc k * 2 + n * 2 ^ i mod 2 ^ 64 div 2 ^ 63"
proof -
  have "n * 2 ^ i mod 2 ^ 64 div 2 ^ 63 = (n mod 2 ^ Suc k) * 2 ^ i div (2 ^ k * 2 ^ i)"
  proof -
    have kk: "64 = Suc k + i" "63 = k + i" using assms by simp_all
    have "(2 :: nat) ^ 64 = 2 ^ Suc k * 2 ^ i" "(2 :: nat) ^ 63 = 2 ^ k * 2 ^ i"
      using kk by (simp_all only: flip: power_add)
    then show ?thesis by (simp only: mod_mult_mult2)
  qed
  also have "\<dots> = n mod 2 ^ Suc k div 2 ^ k" by simp
  also have "\<dots> = n div 2 ^ k mod 2"
    unfolding power_Suc2 mod_mult2_eq by simp
  finally show ?thesis unfolding power_Suc2 div_mult2_eq by simp
qed

lemma loop_inv:
  assumes "0 < D" "D = dw_nat \<lparr>hi = dh, lo = dl\<rparr>" "n < 2 ^ 64"
    and "i + k = 64" "dv_rem s = n div 2 ^ k mod D" "dv_quo s = n div 2 ^ k div D"
    and "dv_num s = n * 2 ^ i mod 2 ^ 64"
  shows "dv_rem (udivmod_loop k dh dl s) = n mod D \<and> dv_quo (udivmod_loop k dh dl s) = n div D"
  using assms(4-7)
proof (induction k arbitrary: s i)
  case (Suc k)
  define P c where "P = n div 2 ^ Suc k" and "c = dv_num s div 2 ^ 63"
  have "n < 2 ^ 63 * 2 ^ Suc k"
    using assms(3) by (rule less_le_trans) simp
  then have P: "P < 2 ^ 63" unfolding P_def by (rule less_mult_imp_div_less)
  then have small: "dv_rem s < 2 ^ 63"
    using Suc.prems(2) le_less_trans [OF mod_less_eq_dividend [of P D]] by (simp add: P_def)
  have c2: "c < 2"
    unfolding c_def dv_num_def using dw_nat_lt by (simp add: less_mult_imp_div_less)
  have step: "n div 2 ^ k = P * 2 + c"
    using top_bits_step [OF Suc.prems(1), of n] Suc.prems(4) by (simp add: P_def c_def)
  have fits: "P div D * 2 + 1 < 2 ^ 64" using P le_less_trans [OF div_le_dividend [of P D] P] by simp
  note eff = round_effect [OF small, of dh dl, folded assms(2) c_def]
  show ?case
    unfolding udivmod_loop.simps
  proof (rule Suc.IH [of "Suc i"])
    show "dv_rem (udivmod_round dh dl s) = n div 2 ^ k mod D"
      using eff(1) double_div_mod(1) [OF assms(1) c2, of P] Suc.prems(2)
      by (simp add: step P_def)
    show "dv_quo (udivmod_round dh dl s) = n div 2 ^ k div D"
      using eff(3) double_div_mod(2) [OF assms(1) c2, of P] Suc.prems(2,3) fits
      by (simp add: step P_def)
    show "dv_num (udivmod_round dh dl s) = n * 2 ^ Suc i mod 2 ^ 64"
      using eff(2) Suc.prems(4) by (simp add: mod_simps ac_simps)
  qed (use Suc.prems(1) in simp)
qed (simp add: assms)

lemma udivmod_correct:
  assumes "dw_u d \<noteq> 0" and u: "udivmod n d = (q, r)"
  shows "dw_nat q = dw_nat n div dw_nat d \<and> dw_nat r = dw_nat n mod dw_nat d"
proof (cases "hi n = 0 \<and> hi d = 0")
  case True
  then show ?thesis
    using u by (auto simp: udivmod_def Let_def dw_nat_def unat_div unat_mod minus_div_mult_eq_mod)
next
  case False
  define s where "s = udivmod_loop 64 (hi d) (lo d)
    \<lparr>dv_h = 0, dv_l = 0, dv_nh = hi n, dv_nl = lo n, dv_xh = 0, dv_xl = 0\<rparr>"
  have "dv_rem s = dw_nat n mod dw_nat d \<and> dv_quo s = dw_nat n div dw_nat d"
    unfolding s_def
  proof (rule loop_inv [of "dw_nat d" _ _ _ 0])
    show "0 < dw_nat d" using assms(1) by (simp add: unat_gt_0 flip: unat_dw_u)
  qed (use dw_nat_lt [of n] in \<open>simp_all add: dv_defs\<close>)
  then show ?thesis
    using u False by (auto simp: udivmod_def Let_def dv_rem_def dv_quo_def s_def)
qed

lemma zero_divisor_iff: "hi (dw_of b) = 0 \<and> lo (dw_of b) = 0 \<longleftrightarrow> b = 0"
  using dw_zero_iff [of "dw_of b"] by simp

lemma udivdi3_eq: "udivdi3 a b = (if b = 0 then Inl S0C9 else Inr (a div b))"
proof (cases "b = 0")
  case False
  obtain q r where qr: "udivmod (dw_of a) (dw_of b) = (q, r)" by fastforce
  have "dw_u q = a div b"
    using udivmod_correct [OF _ qr] False by (intro dw_u_eqI) (simp add: dw_nat_of unat_div)
  then show ?thesis
    using False qr unfolding udivdi3_def Let_def zero_divisor_iff by simp
qed (simp add: udivdi3_def Let_def zero_divisor_iff divide_by_zero_def)

lemma umoddi3_eq: "umoddi3 a b = (if b = 0 then Inl S0C9 else Inr (a mod b))"
proof (cases "b = 0")
  case False
  obtain q r where qr: "udivmod (dw_of a) (dw_of b) = (q, r)" by fastforce
  have "dw_u r = a mod b"
    using udivmod_correct [OF _ qr] False by (intro dw_u_eqI) (simp add: dw_nat_of unat_mod)
  then show ?thesis
    using False qr unfolding umoddi3_def Let_def zero_divisor_iff by simp
qed (simp add: umoddi3_def Let_def zero_divisor_iff divide_by_zero_def)

text \<open>The signed entry points divide the magnitudes and fix the sign.\<close>

definition trunc_div :: "int \<Rightarrow> int \<Rightarrow> int" where
  "trunc_div a b = sgn a * sgn b * (\<bar>a\<bar> div \<bar>b\<bar>)"

definition trunc_mod :: "int \<Rightarrow> int \<Rightarrow> int" where
  "trunc_mod a b = sgn a * (\<bar>a\<bar> mod \<bar>b\<bar>)"

lemma trunc_div_mod: "trunc_div a b * b + trunc_mod a b = a"
proof -
  have b: "\<bar>b\<bar> = sgn b * b" by (simp add: abs_sgn mult.commute)
  have "trunc_div a b * b + trunc_mod a b = sgn a * (\<bar>a\<bar> div \<bar>b\<bar> * \<bar>b\<bar> + \<bar>a\<bar> mod \<bar>b\<bar>)"
    unfolding trunc_div_def trunc_mod_def distrib_left by (subst (4) b) (simp only: ac_simps)
  also have "\<dots> = a" by (simp only: div_mult_mod_eq) (simp add: sgn_mult_abs)
  finally show ?thesis .
qed

lemma dw_u_of_int: "dw_u v = word_of_int (int (dw_nat v))"
  by (simp add: int_dw_nat)

lemma udivmod_mag:
  assumes "b \<noteq> 0" "udivmod (mag (dw_of a)) (mag (dw_of b)) = (q, r)"
  shows "dw_u q = word_of_int (\<bar>sint a\<bar> div \<bar>sint b\<bar>)"
    and "dw_u r = word_of_int (\<bar>sint a\<bar> mod \<bar>sint b\<bar>)"
proof -
  have m: "int (dw_nat (mag (dw_of x))) = \<bar>sint x\<bar>" for x
    using dw_nat_mag [of "dw_of x"] by simp
  have "sint b \<noteq> 0" using assms(1) by (simp add: signed_eq_0_iff)
  then have "dw_u (mag (dw_of b)) \<noteq> 0"
    using m [of b] int_dw_nat [of "mag (dw_of b)"] by auto
  from udivmod_correct [OF this assms(2)]
  show "dw_u q = word_of_int (\<bar>sint a\<bar> div \<bar>sint b\<bar>)"
    and "dw_u r = word_of_int (\<bar>sint a\<bar> mod \<bar>sint b\<bar>)"
    by (simp_all only: dw_u_of_int zdiv_int zmod_int m)
qed

lemma divdi3_eq: "divdi3 a b =
  (if b = 0 then Inl S0C9 else Inr (word_of_int (trunc_div (sint a) (sint b))))"
proof (cases "b = 0")
  case False
  obtain q r where qr: "udivmod (mag (dw_of a)) (mag (dw_of b)) = (q, r)" by fastforce
  have neg: "neg_bit (dw_of x) \<longleftrightarrow> sint x < 0" for x by (simp add: neg_bit_iff)
  have "sint b \<noteq> 0" using False by (simp add: signed_eq_0_iff)
  have "divdi3 a b = Inr (dw_u (if (sint a < 0) \<noteq> (sint b < 0) then negate q else q))"
    using False qr unfolding divdi3_def Let_def zero_divisor_iff
    by (auto simp: mag_def neg)
  then show ?thesis
    using False \<open>sint b \<noteq> 0\<close> udivmod_mag(1) [OF False qr]
    by (auto simp: negate_u trunc_div_def sgn_if)
qed (simp add: divdi3_def Let_def zero_divisor_iff divide_by_zero_def)

lemma moddi3_eq: "moddi3 a b =
  (if b = 0 then Inl S0C9 else Inr (word_of_int (trunc_mod (sint a) (sint b))))"
proof (cases "b = 0")
  case False
  obtain q r where qr: "udivmod (mag (dw_of a)) (mag (dw_of b)) = (q, r)" by fastforce
  have neg: "neg_bit (dw_of x) \<longleftrightarrow> sint x < 0" for x by (simp add: neg_bit_iff)
  have "moddi3 a b = Inr (dw_u (if sint a < 0 then negate r else r))"
    using False qr unfolding moddi3_def Let_def zero_divisor_iff
    by (auto simp: mag_def neg)
  then show ?thesis
    using False udivmod_mag(2) [OF False qr]
    by (auto simp: negate_u trunc_mod_def sgn_if)
qed (simp add: moddi3_def Let_def zero_divisor_iff divide_by_zero_def)

subsection \<open>Properties\<close>

text \<open>
  The multiply helper, built from 16-bit partial products on halves, returns the low 64 bits
  of the product, for signed and unsigned operands alike.
\<close>

theorem muldi3_is_product:
  "muldi3 a b = a * b \<and> muldi3 a b = word_of_int (sint a * sint b) \<and> unat (muldi3 a b) = unat a * unat b mod 2 ^ 64"
  by (simp add: muldi3_eq unat_word_ariths(2))

text \<open>
  C38. The restoring division loop: for a non-zero divisor, \<^verbatim>\<open>udivmod\<close> returns the Euclidean
  quotient and remainder of the two double words, on the one-divide path and on the 64-round path.
\<close>

theorem udivmod_euclid:
  assumes "dw_nat d \<noteq> 0"
  shows "dw_nat (fst (udivmod n d)) * dw_nat d + dw_nat (snd (udivmod n d)) = dw_nat n
    \<and> dw_nat (snd (udivmod n d)) < dw_nat d"
proof -
  obtain q r where qr: "udivmod n d = (q, r)" by fastforce
  have "dw_u d \<noteq> 0" using assms unat_dw_u [of d] by auto
  from udivmod_correct [OF this qr] assms show ?thesis by (simp add: qr)
qed

theorem udivmod_euclid_witness:
  "dw_nat (fst (udivmod \<lparr>hi = 1, lo = 0\<rparr> \<lparr>hi = 0, lo = 10\<rparr>)) * 10
    + dw_nat (snd (udivmod \<lparr>hi = 1, lo = 0\<rparr> \<lparr>hi = 0, lo = 10\<rparr>)) = 2 ^ 32
   \<and> dw_nat (snd (udivmod \<lparr>hi = 1, lo = 0\<rparr> \<lparr>hi = 0, lo = 10\<rparr>)) < 10"
  using udivmod_euclid [of "\<lparr>hi = 0, lo = 10\<rparr>" "\<lparr>hi = 1, lo = 0\<rparr>"] by (simp add: dw_nat_def)

text \<open>
  The four divide entry points are C's division: unsigned quotient and remainder, signed
  quotient truncated toward zero and remainder with the dividend's sign, with
  \<^verbatim>\<open>LLONG_MIN / -1\<close> wrapping to \<^verbatim>\<open>LLONG_MIN\<close>; a zero divisor abends S0C9 in all four and nothing
  else does.
\<close>

theorem division_entry_points:
  "udivdi3 a b = (if b = 0 then Inl S0C9 else Inr (a div b))
   \<and> umoddi3 a b = (if b = 0 then Inl S0C9 else Inr (a mod b))
   \<and> divdi3 a b = (if b = 0 then Inl S0C9 else Inr (word_of_int (trunc_div (sint a) (sint b))))
   \<and> moddi3 a b = (if b = 0 then Inl S0C9 else Inr (word_of_int (trunc_mod (sint a) (sint b))))
   \<and> trunc_div (sint a) (sint b) * sint b + trunc_mod (sint a) (sint b) = sint a"
  by (simp add: udivdi3_eq umoddi3_eq divdi3_eq moddi3_eq trunc_div_mod)

end
