(* ===== verification/Runtime_Bits.thy ===== *)
theory Runtime_Bits
  imports Runtime_Dw
begin

section \<open>Compare, negate and the bit-counting helpers\<close>

text \<open>
  \<^verbatim>\<open>runtime/src/@@cmpdi2.c\<close>, \<^verbatim>\<open>@@negdi2.c\<close>, \<^verbatim>\<open>@@ffssi2.c\<close> and \<^verbatim>\<open>@@bitops.c\<close>. Counts are
  C \<^verbatim>\<open>int\<close>s between 0 and 64 and are natural numbers here. The binary-search counters are
  proved against the position of the lowest or highest set bit, the loop of \<^verbatim>\<open>__ffssi2\<close> to end
  at that position, and the SWAR population count against the number of set bits.
\<close>

subsection \<open>Compare and negate\<close>

definition cmpdi2 :: "u64 \<Rightarrow> u64 \<Rightarrow> nat" where
  "cmpdi2 a b =
    (let x = dw_of a; y = dw_of b in
     if sint (hi x) < sint (hi y) then 0
     else if sint (hi x) > sint (hi y) then 2
     else if lo x < lo y then 0
     else if lo x > lo y then 2
     else 1)"

definition negdi2 :: "u64 \<Rightarrow> u64" where
  "negdi2 a =
    (let v = dw_of a;
         v = v\<lparr>lo := NOT (lo v) + 1\<rparr>;
         v = v\<lparr>hi := NOT (hi v) + (if lo v = 0 then 1 else 0)\<rparr>
     in dw_u v)"

lemma negdi2_eq: "negdi2 a = - a"
proof -
  have "negdi2 a = dw_u (negate (dw_of a))"
    by (simp add: negdi2_def negate_def Let_def)
  then show ?thesis by (simp add: negate_u)
qed

lemma pair_less_iff:
  fixes h h' l l' :: int
  assumes "0 \<le> l" "l < 2 ^ 32" "0 \<le> l'" "l' < 2 ^ 32"
  shows "h * 2 ^ 32 + l < h' * 2 ^ 32 + l' \<longleftrightarrow> h < h' \<or> h = h' \<and> l < l'"
  using assms by (cases h h' rule: linorder_cases) auto

lemma cmpdi2_eq: "cmpdi2 a b = (if sint a < sint b then 0 else if sint a = sint b then 1 else 2)"
proof -
  have *: "sint x = sint (hi (dw_of x)) * 2 ^ 32 + uint (lo (dw_of x))" for x
    using sint_dw [of "dw_of x"] by simp
  have less: "sint x < sint y \<longleftrightarrow> sint (hi (dw_of x)) < sint (hi (dw_of y)) \<or>
      sint (hi (dw_of x)) = sint (hi (dw_of y)) \<and> lo (dw_of x) < lo (dw_of y)" for x y
    unfolding * [of x] * [of y] word_less_alt
    using uint_lt2p [of "lo (dw_of x)"] uint_lt2p [of "lo (dw_of y)"]
    by (intro pair_less_iff) simp_all
  have eq: "sint a = sint b \<longleftrightarrow> \<not> sint a < sint b \<and> \<not> sint b < sint a" by linarith
  show ?thesis
    unfolding cmpdi2_def Let_def eq unfolding less by auto
qed

subsection \<open>Trailing zeros and find-first-set\<close>

definition ctzsi2 :: "u32 \<Rightarrow> nat" where
  "ctzsi2 x =
    (if x = 0 then 32
     else
       let (n, x) = (0, x);
           (n, x) = (if x AND 0x0000FFFF = 0 then (n + 16, drop_bit 16 x) else (n, x));
           (n, x) = (if x AND 0x000000FF = 0 then (n + 8, drop_bit 8 x) else (n, x));
           (n, x) = (if x AND 0x0000000F = 0 then (n + 4, drop_bit 4 x) else (n, x));
           (n, x) = (if x AND 0x00000003 = 0 then (n + 2, drop_bit 2 x) else (n, x))
       in if x AND 0x00000001 = 0 then n + 1 else n)"

definition ctzdi2 :: "u64 \<Rightarrow> nat" where
  "ctzdi2 x = (let v = dw_of x in if lo v \<noteq> 0 then ctzsi2 (lo v) else 32 + ctzsi2 (hi v))"

definition ffsdi2 :: "u64 \<Rightarrow> nat" where
  "ffsdi2 x =
    (let v = dw_of x in
     if lo v \<noteq> 0 then 1 + ctzsi2 (lo v)
     else if hi v \<noteq> 0 then 33 + ctzsi2 (hi v)
     else 0)"

text \<open>
  The loop of \<^verbatim>\<open>__ffssi2\<close> shifts until the low bit is set; on a zero operand it would never end,
  so its model is partial and the entry point's early return is what makes it total.
\<close>

partial_function (option) ffssi2_loop :: "u32 \<Rightarrow> nat \<Rightarrow> nat option" where
  [code]: "ffssi2_loop u n = (if u AND 1 = 0 then ffssi2_loop (drop_bit 1 u) (n + 1) else Some n)"

definition ffssi2 :: "u32 \<Rightarrow> nat option" where
  "ffssi2 a = (if a = 0 then Some 0 else ffssi2_loop a 1)"

text \<open>\<open>lowest_bit x n\<close>: bit \<open>n\<close> is the lowest set bit of \<open>x\<close>.\<close>

definition lowest_bit :: "'a::len word \<Rightarrow> nat \<Rightarrow> bool" where
  "lowest_bit x n \<longleftrightarrow> bit x n \<and> (\<forall>j<n. \<not> bit x j)"

lemma lowest_bit_unique: "lowest_bit x n \<Longrightarrow> lowest_bit x m \<Longrightarrow> n = m"
  unfolding lowest_bit_def by (metis linorder_neqE_nat)

lemma lowest_bit_drop:
  assumes "x AND mask k = 0" shows "lowest_bit (drop_bit k x) n \<longleftrightarrow> lowest_bit x (n + k)"
proof -
  have low: "\<not> bit x j" if "j < k" for j
  proof
    assume "bit x j"
    then have "bit (x AND mask k) j" using that by (auto simp: bit_simps dest: bit_imp_le_length)
    then show False using assms by simp
  qed
  show ?thesis
    unfolding lowest_bit_def bit_drop_bit_eq comp_def
  proof (intro conj_cong)
    show "bit x (k + n) = bit x (n + k)" by (simp add: add.commute)
    have "(\<forall>j<n + k. \<not> bit x j) \<longleftrightarrow> (\<forall>j. k \<le> j \<longrightarrow> j < n + k \<longrightarrow> \<not> bit x j)"
      using low by (meson not_less)
    also have "\<dots> \<longleftrightarrow> (\<forall>j<n. \<not> bit x (k + j))"
      by (metis add.commute le_Suc_ex nat_add_left_cancel_less le_add1)
    finally show "(\<forall>j<n. \<not> bit x (k + j)) = (\<forall>j<n + k. \<not> bit x j)" ..
  qed
qed

lemma and_mask_0_iff: "x AND mask k = 0 \<longleftrightarrow> (\<forall>j<k. \<not> bit x j)" for x :: "'a::len word"
  by (auto simp: bit_eq_iff bit_simps dest: bit_imp_le_length)

lemma and_1_0_iff: "x AND 1 = 0 \<longleftrightarrow> \<not> bit x 0" for x :: "'a::len word"
  using and_mask_0_iff [of x 1] by (simp add: less_Suc_eq)

lemma ctz_halve:
  fixes x :: "'a::len word"
  assumes "x AND mask (k + k) \<noteq> 0" "x AND mask k = 0"
  shows "drop_bit k x AND mask k \<noteq> 0"
proof -
  obtain j where j: "j < k + k" "bit x j" using assms(1) by (auto simp: and_mask_0_iff)
  then have "k \<le> j" using assms(2) by (metis and_mask_0_iff not_less)
  then have "j - k < k \<and> bit (drop_bit k x) (j - k)" using j by (simp add: bit_drop_bit_eq)
  then show ?thesis by (auto simp: and_mask_0_iff)
qed

text \<open>One halving step of the search: \<open>n\<close> bits were skipped, the next \<open>2 * k\<close> are not all zero.\<close>

definition ctz_inv :: "u32 \<Rightarrow> nat \<Rightarrow> nat \<times> u32 \<Rightarrow> bool" where
  "ctz_inv x0 k s \<longleftrightarrow> (case s of (n, x) \<Rightarrow>
     x AND mask k \<noteq> 0 \<and> (\<forall>m. lowest_bit x m \<longrightarrow> lowest_bit x0 (m + n)))"

lemma ctz_step:
  assumes "ctz_inv x0 k2 s" "k2 = k + k"
  shows "ctz_inv x0 k (case s of (n, x) \<Rightarrow> if x AND mask k = 0 then (n + k, drop_bit k x) else (n, x))"
  using assms ctz_halve [of "snd s" k]
  by (cases s) (auto simp: ctz_inv_def lowest_bit_drop ac_simps)

lemma masks32:
  "(0xFFFF :: u32) = mask 16" "(0xFF :: u32) = mask 8" "(0xF :: u32) = mask 4"
  "(3 :: u32) = mask 2" "(1 :: u32) = mask 1"
  by (simp_all add: mask_eq_exp_minus_1)

lemma mask_full: "x AND mask LENGTH('a) = x" for x :: "'a::len word"
  by (auto simp: bit_eq_iff bit_simps dest: bit_imp_le_length)

lemma ctzsi2_lowest:
  assumes "x \<noteq> 0" shows "lowest_bit x (ctzsi2 x)"
proof -
  obtain n16 x16 where e16: "(if x AND 0xFFFF = 0 then (0 + 16 :: nat, drop_bit 16 x) else (0, x)) = (n16, x16)"
    by (rule prod.exhaust)
  obtain n8 x8 where e8: "(if x16 AND 0xFF = 0 then (n16 + 8, drop_bit 8 x16) else (n16, x16)) = (n8, x8)"
    by (rule prod.exhaust)
  obtain n4 x4 where e4: "(if x8 AND 0xF = 0 then (n8 + 4, drop_bit 4 x8) else (n8, x8)) = (n4, x4)"
    by (rule prod.exhaust)
  obtain n2 x2 where e2: "(if x4 AND 3 = 0 then (n4 + 2, drop_bit 2 x4) else (n4, x4)) = (n2, x2)"
    by (rule prod.exhaust)
  obtain n1 x1 where e1: "(if x2 AND 1 = 0 then (n2 + 1, drop_bit 1 x2) else (n2, x2)) = (n1, x1)"
    by (rule prod.exhaust)
  have "ctz_inv x 32 (0, x)"
    using assms mask_full [where 'a=32] by (simp add: ctz_inv_def)
  from ctz_step [OF this, of 16] have "ctz_inv x 16 (n16, x16)"
    unfolding prod.case masks32 [symmetric] e16 by simp
  from ctz_step [OF this, of 8] have "ctz_inv x 8 (n8, x8)"
    unfolding prod.case masks32 [symmetric] e8 by simp
  from ctz_step [OF this, of 4] have "ctz_inv x 4 (n4, x4)"
    unfolding prod.case masks32 [symmetric] e4 by simp
  from ctz_step [OF this, of 2] have "ctz_inv x 2 (n2, x2)"
    unfolding prod.case masks32 [symmetric] e2 by simp
  from ctz_step [OF this, of 1] have "ctz_inv x 1 (n1, x1)"
    unfolding prod.case masks32 [symmetric] e1 by simp
  then have "bit x1 0" "\<forall>m. lowest_bit x1 m \<longrightarrow> lowest_bit x (m + n1)"
    by (simp_all add: ctz_inv_def and_1_0_iff)
  from this(2) [rule_format, of 0] this(1) have "lowest_bit x n1" by (simp add: lowest_bit_def)
  moreover have "ctzsi2 x = (if x2 AND 1 = 0 then n2 + 1 else n2)"
    using assms unfolding ctzsi2_def by (simp only: Let_def prod.case e16 e8 e4 e2 if_False)
  then have "ctzsi2 x = n1" using e1 by (auto split: if_splits)
  ultimately show ?thesis by simp
qed

lemma bit_dw_u: "bit (dw_u v) n \<longleftrightarrow> (if n < 32 then bit (lo v) n else bit (hi v) (n - 32))"
  by (auto simp: dw_u_def word_cat_eq_push_bit_or bit_simps dest: bit_imp_le_length)

lemma lowest_bit_dw:
  "lowest_bit (lo v) n \<Longrightarrow> lowest_bit (dw_u v) n"
  "lo v = 0 \<Longrightarrow> lowest_bit (hi v) n \<Longrightarrow> lowest_bit (dw_u v) (32 + n)"
  by (auto simp: lowest_bit_def bit_dw_u dest: bit_imp_le_length)

lemma ctzdi2_lowest: "lowest_bit x (ctzdi2 x)" if "x \<noteq> 0"
proof -
  have "hi (dw_of x) \<noteq> 0 \<or> lo (dw_of x) \<noteq> 0" using that dw_zero_iff [of "dw_of x"] by auto
  then show ?thesis
    using lowest_bit_dw [of "dw_of x"] ctzsi2_lowest by (auto simp: ctzdi2_def Let_def)
qed

lemma ffsdi2_lowest: "ffsdi2 x = (if x = 0 then 0 else ctzdi2 x + 1)"
  using dw_zero_iff [of "dw_of x"] by (auto simp: ffsdi2_def ctzdi2_def Let_def)

lemma dw_of_0: "dw_of 0 = \<lparr>hi = 0, lo = 0\<rparr>"
  by (simp add: dw_of_def)

lemma ffssi2_loop_lowest: "lowest_bit u k \<Longrightarrow> ffssi2_loop u n = Some (n + k)"
proof (induction k arbitrary: u n)
  case 0
  then have "u AND 1 \<noteq> 0" by (simp add: and_1_0_iff lowest_bit_def)
  then show ?case by (subst ffssi2_loop.simps) simp
next
  case (Suc k)
  then have "u AND 1 = 0" by (simp add: and_1_0_iff lowest_bit_def)
  moreover from this have "lowest_bit (drop_bit 1 u) k"
    using Suc.prems lowest_bit_drop [of u 1 k] by simp
  ultimately show ?case
    using Suc.IH [of "drop_bit 1 u" "n + 1"] by (subst ffssi2_loop.simps) simp
qed

lemma ffssi2_lowest: "ffssi2 a = Some (if a = 0 then 0 else ctzsi2 a + 1)"
  using ffssi2_loop_lowest [OF ctzsi2_lowest, of a 1] by (simp add: ffssi2_def)

subsection \<open>Leading zeros\<close>

definition clzsi2 :: "u32 \<Rightarrow> nat" where
  "clzsi2 x =
    (if x = 0 then 32
     else
       let (n, x) = (0, x);
           (n, x) = (if x AND 0xFFFF0000 = 0 then (n + 16, push_bit 16 x) else (n, x));
           (n, x) = (if x AND 0xFF000000 = 0 then (n + 8, push_bit 8 x) else (n, x));
           (n, x) = (if x AND 0xF0000000 = 0 then (n + 4, push_bit 4 x) else (n, x));
           (n, x) = (if x AND 0xC0000000 = 0 then (n + 2, push_bit 2 x) else (n, x))
       in if x AND 0x80000000 = 0 then n + 1 else n)"

definition clzdi2 :: "u64 \<Rightarrow> nat" where
  "clzdi2 x = (let v = dw_of x in if hi v \<noteq> 0 then clzsi2 (hi v) else 32 + clzsi2 (lo v))"

text \<open>\<open>clz_inv\<close>: \<open>n\<close> leading zeros were shifted out without losing a bit, the top \<open>k\<close> bits are not all zero.\<close>

definition clz_inv :: "u32 \<Rightarrow> nat \<Rightarrow> nat \<times> u32 \<Rightarrow> bool" where
  "clz_inv x0 k s \<longleftrightarrow> (case s of (n, x) \<Rightarrow> unat x = unat x0 * 2 ^ n \<and> 2 ^ 32 \<le> unat x * 2 ^ k)"

lemma clz_step:
  assumes "clz_inv x0 k2 s" "k2 = k + k" "k \<le> 32"
  shows "clz_inv x0 k (case s of (n, x) \<Rightarrow>
    if x AND NOT (mask (32 - k)) = 0 then (n + k, push_bit k x) else (n, x))"
proof (cases s)
  case (Pair n x)
  have k: "(2 :: nat) ^ 32 = 2 ^ (32 - k) * 2 ^ k" using assms(3) by (simp flip: power_add)
  show ?thesis
  proof (cases "unat x < 2 ^ (32 - k)")
    case True
    then have "unat x * 2 ^ k < 2 ^ 32" unfolding k by simp
    then show ?thesis
      using assms(1,2) True
      by (auto simp: Pair clz_inv_def top_mask_0_iff unat_push_bit power_add mult.assoc)
  next
    case False
    then have "2 ^ 32 \<le> unat x * 2 ^ k" unfolding k by simp
    then show ?thesis
      using assms(1) False by (simp add: Pair clz_inv_def top_mask_0_iff)
  qed
qed

lemma top_masks32:
  "(0xFFFF0000 :: u32) = NOT (mask (32 - 16))" "(0xFF000000 :: u32) = NOT (mask (32 - 8))"
  "(0xF0000000 :: u32) = NOT (mask (32 - 4))" "(0xC0000000 :: u32) = NOT (mask (32 - 2))"
  "(0x80000000 :: u32) = NOT (mask (32 - 1))"
  by (simp_all add: mask_eq_exp_minus_1)

lemma clzsi2_highest:
  assumes "x \<noteq> 0" shows "2 ^ 31 \<le> unat x * 2 ^ clzsi2 x \<and> unat x * 2 ^ clzsi2 x < 2 ^ 32"
proof -
  obtain n16 x16 where e16: "(if x AND 0xFFFF0000 = 0 then (0 + 16 :: nat, push_bit 16 x) else (0, x)) = (n16, x16)"
    by (rule prod.exhaust)
  obtain n8 x8 where e8: "(if x16 AND 0xFF000000 = 0 then (n16 + 8, push_bit 8 x16) else (n16, x16)) = (n8, x8)"
    by (rule prod.exhaust)
  obtain n4 x4 where e4: "(if x8 AND 0xF0000000 = 0 then (n8 + 4, push_bit 4 x8) else (n8, x8)) = (n4, x4)"
    by (rule prod.exhaust)
  obtain n2 x2 where e2: "(if x4 AND 0xC0000000 = 0 then (n4 + 2, push_bit 2 x4) else (n4, x4)) = (n2, x2)"
    by (rule prod.exhaust)
  obtain n1 x1 where e1: "(if x2 AND 0x80000000 = 0 then (n2 + 1, push_bit 1 x2) else (n2, x2)) = (n1, x1)"
    by (rule prod.exhaust)
  have "0 < unat x" using assms by (simp add: unat_gt_0)
  then have "clz_inv x 32 (0, x)" by (simp add: clz_inv_def)
  from clz_step [OF this, of 16] have "clz_inv x 16 (n16, x16)"
    unfolding prod.case top_masks32 [symmetric] e16 by simp
  from clz_step [OF this, of 8] have "clz_inv x 8 (n8, x8)"
    unfolding prod.case top_masks32 [symmetric] e8 by simp
  from clz_step [OF this, of 4] have "clz_inv x 4 (n4, x4)"
    unfolding prod.case top_masks32 [symmetric] e4 by simp
  from clz_step [OF this, of 2] have "clz_inv x 2 (n2, x2)"
    unfolding prod.case top_masks32 [symmetric] e2 by simp
  from clz_step [OF this, of 1] have "clz_inv x 1 (n1, x1)"
    unfolding prod.case top_masks32 [symmetric] e1 by simp
  then have "unat x1 = unat x * 2 ^ n1 \<and> 2 ^ 31 \<le> unat x1" by (simp add: clz_inv_def)
  moreover have "clzsi2 x = (if x2 AND 0x80000000 = 0 then n2 + 1 else n2)"
    using assms unfolding clzsi2_def by (simp only: Let_def prod.case e16 e8 e4 e2 if_False)
  then have "clzsi2 x = n1" using e1 by (auto split: if_splits)
  ultimately show ?thesis using unat_lt_u32 [of x1] by simp
qed

lemma clzdi2_highest:
  assumes "x \<noteq> 0" shows "2 ^ 63 \<le> unat x * 2 ^ clzdi2 x \<and> unat x * 2 ^ clzdi2 x < 2 ^ 64"
proof -
  have x: "unat x = unat (hi (dw_of x)) * 2 ^ 32 + unat (lo (dw_of x))"
    using dw_nat_of [of x] by (simp add: dw_nat_def)
  show ?thesis
  proof (cases "hi (dw_of x) = 0")
    case True
    then have "lo (dw_of x) \<noteq> 0" using assms dw_zero_iff [of "dw_of x"] by auto
    from clzsi2_highest [OF this] show ?thesis
      using True by (simp add: x clzdi2_def Let_def power_add)
  next
    case False
    define h l k where "h = unat (hi (dw_of x))" and "l = unat (lo (dw_of x))"
      and "k = clzsi2 (hi (dw_of x))"
    have hk: "2 ^ 31 \<le> h * 2 ^ k" "h * 2 ^ k < 2 ^ 32"
      using clzsi2_highest [OF False] by (simp_all add: h_def k_def)
    have l: "l < 2 ^ 32" using unat_lt_u32 by (simp add: l_def)
    have "1 \<le> h" using False by (simp add: h_def unat_gt_0 Suc_le_eq)
    then have "2 ^ k < (2 :: nat) ^ 32" using hk(2) by (metis le_less_trans mult_1 mult_le_mono1)
    then have k: "k < 32" by (simp only: power_strict_increasing_iff)
    then have p: "(2 :: nat) ^ 32 = 2 ^ (32 - k) * 2 ^ k" by (simp flip: power_add)
    then have "h < 2 ^ (32 - k)" using hk(2) unfolding p by simp
    then have "Suc h \<le> 2 ^ (32 - k)" by simp
    then have "Suc h * 2 ^ k \<le> 2 ^ 32" unfolding p by (rule mult_le_mono1)
    then have "Suc h * 2 ^ k * 2 ^ 32 \<le> 2 ^ 64" by simp
    moreover have "(h * 2 ^ 32 + l) * 2 ^ k < Suc h * 2 ^ k * 2 ^ 32"
      using l by (simp add: algebra_simps)
    ultimately have "(h * 2 ^ 32 + l) * 2 ^ k < 2 ^ 64" by (rule less_le_trans [rotated])
    moreover have "2 ^ 63 \<le> (h * 2 ^ 32 + l) * 2 ^ k"
      using hk(1) by (simp add: algebra_simps)
    moreover have "unat x * 2 ^ clzdi2 x = (h * 2 ^ 32 + l) * 2 ^ k"
      using False by (simp add: x h_def l_def k_def clzdi2_def Let_def)
    ultimately show ?thesis by simp
  qed
qed

subsection \<open>Parity\<close>

definition partsi :: "u32 \<Rightarrow> nat" where
  "partsi x =
    (let x = x XOR drop_bit 16 x;
         x = x XOR drop_bit 8 x;
         x = x XOR drop_bit 4 x;
         x = x XOR drop_bit 2 x;
         x = x XOR drop_bit 1 x
     in unat (x AND 1))"

definition partdi :: "u64 \<Rightarrow> nat" where
  "partdi x = (let v = dw_of x in partsi (hi v XOR lo v))"

text \<open>The specification of the counting helpers: how many of the bits below \<open>n\<close> are set.\<close>

primrec count_below :: "nat \<Rightarrow> (nat \<Rightarrow> bool) \<Rightarrow> nat" where
  "count_below 0 p = 0"
| "count_below (Suc n) p = count_below n p + (if p n then 1 else 0)"

definition popcount :: "'a::len word \<Rightarrow> nat" where
  "popcount x = count_below LENGTH('a) (bit x)"

lemma count_below_card: "count_below n p = card {i. i < n \<and> p i}"
proof (induction n)
  case (Suc n)
  have "{i. i < Suc n \<and> p i} = (if p n then insert n {i. i < n \<and> p i} else {i. i < n \<and> p i})"
    by (auto simp: less_Suc_eq)
  then show ?case using Suc by simp
qed simp

lemma popcount_card: "popcount x = card {i. bit x i}"
proof -
  have "{i. i < LENGTH('a) \<and> bit x i} = {i. bit x i}" by (auto dest: bit_imp_le_length)
  then show ?thesis by (simp add: popcount_def count_below_card)
qed

lemma count_below_add: "count_below (h + m) p = count_below h p + count_below m (\<lambda>i. p (h + i))"
  by (induction m) simp_all

lemma count_below_cong: "(\<And>i. i < n \<Longrightarrow> p i = q i) \<Longrightarrow> count_below n p = count_below n q"
  by (induction n) simp_all

lemma odd_count_xor:
  "odd (count_below h (\<lambda>i. p i \<noteq> q i)) \<longleftrightarrow> odd (count_below h p + count_below h q)"
  by (induction h) auto

lemma parity_fold:
  fixes x :: "'a::len word"
  assumes "k = h + h"
  shows "odd (count_below h (bit (x XOR drop_bit h x))) \<longleftrightarrow> odd (count_below k (bit x))"
proof -
  have "bit (x XOR drop_bit h x) = (\<lambda>i. bit x i \<noteq> bit x (h + i))"
    by (simp add: fun_eq_iff bit_simps)
  then show ?thesis by (simp only: odd_count_xor count_below_add assms)
qed

lemma partsi_odd: "partsi x = popcount x mod 2"
proof -
  define x1 where "x1 = x XOR drop_bit 16 x"
  define x2 where "x2 = x1 XOR drop_bit 8 x1"
  define x3 where "x3 = x2 XOR drop_bit 4 x2"
  define x4 where "x4 = x3 XOR drop_bit 2 x3"
  define x5 where "x5 = x4 XOR drop_bit 1 x4"
  have "odd (popcount x) \<longleftrightarrow> odd (count_below 16 (bit x1))"
    unfolding x1_def popcount_def by (subst parity_fold [OF refl]) simp
  also have "\<dots> \<longleftrightarrow> odd (count_below 8 (bit x2))"
    unfolding x2_def by (rule parity_fold [symmetric]) simp
  also have "\<dots> \<longleftrightarrow> odd (count_below 4 (bit x3))"
    unfolding x3_def by (rule parity_fold [symmetric]) simp
  also have "\<dots> \<longleftrightarrow> odd (count_below 2 (bit x4))"
    unfolding x4_def by (rule parity_fold [symmetric]) simp
  also have "\<dots> \<longleftrightarrow> odd (count_below 1 (bit x5))"
    unfolding x5_def by (rule parity_fold [symmetric]) simp
  also have "\<dots> \<longleftrightarrow> bit x5 0" by simp
  finally have "odd (popcount x) \<longleftrightarrow> bit x5 0" .
  moreover have "partsi x = unat (x5 AND 1)"
    by (simp add: partsi_def Let_def x1_def x2_def x3_def x4_def x5_def)
  moreover have "unat (y AND 1) = of_bool (bit y 0)" for y :: u32
    by (cases "bit y 0") (simp_all add: and_one_eq bit_0 mod_2_eq_odd)
  ultimately show ?thesis by (simp add: mod_2_eq_odd)
qed

lemma popcount_dw: "popcount (dw_u v) = popcount (lo v) + popcount (hi v)"
proof -
  have "popcount (dw_u v) = count_below (32 + 32) (bit (dw_u v))" by (simp add: popcount_def)
  also have "\<dots> = count_below 32 (bit (lo v)) + count_below 32 (bit (hi v))"
    unfolding count_below_add
    by (intro arg_cong2 [where f="(+)"] count_below_cong) (simp_all add: bit_dw_u)
  finally show ?thesis by (simp add: popcount_def)
qed

lemma partdi_odd: "partdi x = popcount x mod 2"
proof -
  have "odd (popcount (h XOR l)) \<longleftrightarrow> odd (popcount h + popcount l)" for h l :: u32
  proof -
    have "bit (h XOR l) = (\<lambda>i. bit h i \<noteq> bit l i)"
      by (simp add: fun_eq_iff bit_simps)
    then show ?thesis by (simp only: popcount_def odd_count_xor)
  qed
  then have "odd (popcount (hi v XOR lo v)) \<longleftrightarrow> odd (popcount (dw_u v))" for v :: dw_t
    by (simp only: popcount_dw add.commute)
  from this [of "dw_of x"] show ?thesis
    by (simp add: partdi_def Let_def partsi_odd mod_2_eq_odd)
qed

subsection \<open>Population count\<close>

definition popcsi :: "u32 \<Rightarrow> nat" where
  "popcsi x =
    (let x = x - (drop_bit 1 x AND 0x55555555);
         x = (x AND 0x33333333) + (drop_bit 2 x AND 0x33333333);
         x = (x + drop_bit 4 x) AND 0x0F0F0F0F
     in unat ((x + drop_bit 8 x + drop_bit 16 x + drop_bit 24 x) AND 0x3F))"

definition popcdi :: "u64 \<Rightarrow> nat" where
  "popcdi x = (let v = dw_of x in popcsi (hi v) + popcsi (lo v))"

text \<open>The number a list of hexadecimal digits stands for, least significant first.\<close>

fun nib :: "nat list \<Rightarrow> nat" where
  "nib [] = 0"
| "nib (a # r) = a + 16 * nib r"

definition nibs :: "nat list \<Rightarrow> bool" where
  "nibs xs \<longleftrightarrow> (\<forall>a\<in>set xs. a < 16)"

lemma nibs_simps [simp]: "nibs []" "nibs (a # r) \<longleftrightarrow> a < 16 \<and> nibs r"
  by (simp_all add: nibs_def)

lemma nib_lt: "nibs xs \<Longrightarrow> nib xs < 16 ^ length xs"
  by (induction xs) auto

lemma nib_exists: "n < 16 ^ k \<Longrightarrow> \<exists>xs. length xs = k \<and> nibs xs \<and> nib xs = n"
proof (induction k arbitrary: n)
  case (Suc k)
  then have "n div 16 < 16 ^ k" by (simp add: less_mult_imp_div_less)
  from Suc.IH [OF this] obtain xs where "length xs = k" "nibs xs" "nib xs = n div 16" by auto
  then show ?case by (intro exI [of _ "n mod 16 # xs"]) simp
qed simp

lemma nat_and_split: "p AND q = (p mod 16 AND q mod 16) + 16 * (p div 16 AND q div 16)" for p q :: nat
proof -
  have "(p AND q) mod 16 = p mod 16 AND q mod 16"
    using take_bit_and [of 4 p q] by (simp add: take_bit_eq_mod)
  moreover have "(p AND q) div 16 = p div 16 AND q div 16"
    using drop_bit_and [of 4 p q] by (simp add: drop_bit_eq_div)
  ultimately show ?thesis by (metis add.commute mult_div_mod_eq)
qed

lemma nib_and:
  fixes a c x y :: nat
  assumes "a < 16" "c < 16"
  shows "(a + 16 * x) AND (c + 16 * y) = (a AND c) + 16 * (x AND y)"
  using assms by (subst nat_and_split) simp

lemma nib_and_list:
  "nibs xs \<Longrightarrow> nibs ys \<Longrightarrow> length xs = length ys \<Longrightarrow> nib xs AND nib ys = nib (map2 (AND) xs ys)"
proof (induction xs arbitrary: ys)
  case (Cons a r)
  then show ?case by (cases ys) (simp_all add: nib_and)
qed simp

text \<open>Facts about one hexadecimal digit, by going through all sixteen.\<close>

lemma nib_cases: "a < 16 \<Longrightarrow> a \<in> {0, 1, 2, 3, 4, 5, 6, 7, 8, 9, 10, 11, 12, 13, 14, 15}" for a :: nat
  by (auto simp: less_Suc_eq numeral_eq_Suc)

lemma nib_half:
  fixes a x m :: nat
  assumes "a < 16" shows "((a + 16 * x) div 2) AND (5 + 16 * m) = (a div 2 AND 5) + 16 * (x div 2 AND m)"
proof -
  have "(a + 16 * (2 * y + r)) div 2 = a div 2 + 8 * r + 16 * y" for y r
    using div_mult_self2 [of 2 a "8 * r + 16 * y"] by (simp add: algebra_simps)
  from this [of "x div 2" "x mod 2"]
  have "(a + 16 * x) div 2 = (a div 2 + 8 * (x mod 2)) + 16 * (x div 2)" by simp
  moreover have "a div 2 + 8 * (x mod 2) < 16" using assms by linarith
  moreover have "(a div 2 + 8 * (x mod 2)) AND 5 = a div 2 AND 5"
  proof -
    have "\<forall>a\<in>{0 :: nat, 1, 2, 3, 4, 5, 6, 7, 8, 9, 10, 11, 12, 13, 14, 15}. \<forall>r\<in>{0, 1}.
      (a div 2 + 8 * r) AND 5 = a div 2 AND 5" by code_simp
    from bspec [OF bspec [OF this nib_cases [OF assms]], of "x mod 2"]
    show ?thesis by fastforce
  qed
  ultimately show ?thesis by (simp add: nib_and)
qed

lemma nib_quarter:
  fixes a x m :: nat
  assumes "a < 16" shows "((a + 16 * x) div 4) AND (3 + 16 * m) = (a div 4 AND 3) + 16 * (x div 4 AND m)"
proof -
  have "(a + 16 * (4 * y + r)) div 4 = a div 4 + 4 * r + 16 * y" for y r
    using div_mult_self2 [of 4 a "4 * r + 16 * y"] by (simp add: algebra_simps)
  from this [of "x div 4" "x mod 4"]
  have "(a + 16 * x) div 4 = (a div 4 + 4 * (x mod 4)) + 16 * (x div 4)" by simp
  moreover have "a div 4 + 4 * (x mod 4) < 16" using assms by linarith
  moreover have "(a div 4 + 4 * (x mod 4)) AND 3 = a div 4 AND 3"
    using take_bit_eq_mask [of 2 "a div 4 + 4 * (x mod 4)"] take_bit_eq_mask [of 2 "a div 4"]
    by (simp add: take_bit_eq_mod mask_eq_exp_minus_1)
  ultimately show ?thesis by (simp add: nib_and)
qed

definition pair_count :: "nat \<Rightarrow> nat" where
  "pair_count a = a - (a div 2 AND 5)"

definition nib_count :: "nat \<Rightarrow> nat" where
  "nib_count a = (pair_count a AND 3) + (pair_count a div 4 AND 3)"

lemma pair_count_facts:
  assumes "a < 16"
  shows "a div 2 AND 5 \<le> a" "pair_count a < 16" "nib_count a \<le> 4"
    "nib_count a = count_below 4 (\<lambda>i. odd (a div 2 ^ i))"
proof -
  have "\<forall>a\<in>{0 :: nat, 1, 2, 3, 4, 5, 6, 7, 8, 9, 10, 11, 12, 13, 14, 15}.
    a div 2 AND 5 \<le> a \<and> pair_count a < 16 \<and> nib_count a \<le> 4 \<and>
    nib_count a = count_below 4 (\<lambda>i. odd (a div 2 ^ i))"
    by code_simp
  then show "a div 2 AND 5 \<le> a" "pair_count a < 16" "nib_count a \<le> 4"
    "nib_count a = count_below 4 (\<lambda>i. odd (a div 2 ^ i))"
    using nib_cases [OF assms] by blast+
qed

lemma swar_pairs:
  "nibs xs \<Longrightarrow> nib xs div 2 AND nib (replicate (length xs) 5) = nib (map (\<lambda>a. a div 2 AND 5) xs)"
  by (induction xs) (simp_all add: nib_half)

lemma swar_low:
  "nibs xs \<Longrightarrow> nib xs AND nib (replicate (length xs) 3) = nib (map (\<lambda>a. a AND 3) xs)"
  by (induction xs) (simp_all add: nib_and)

lemma swar_high:
  "nibs xs \<Longrightarrow> nib xs div 4 AND nib (replicate (length xs) 3) = nib (map (\<lambda>a. a div 4 AND 3) xs)"
  by (induction xs) (simp_all add: nib_quarter)

lemma swar_sub:
  "nibs xs \<Longrightarrow> nib (map (\<lambda>a. a div 2 AND 5) xs) \<le> nib xs \<and>
    nib xs - nib (map (\<lambda>a. a div 2 AND 5) xs) = nib (map pair_count xs)"
  by (induction xs) (auto simp: pair_count_def dest: pair_count_facts(1))

lemma nib_map_add: "nib (map f xs) + nib (map g xs) = nib (map (\<lambda>a. f a + g a) xs)"
  by (induction xs) simp_all

lemma nib_bits:
  "nibs xs \<Longrightarrow> count_below (4 * length xs) (\<lambda>i. odd (nib xs div 2 ^ i)) = sum_list (map nib_count xs)"
proof (induction xs)
  case (Cons a r)
  have "(a + 16 * nib r) div 2 ^ (4 + i) = nib r div 2 ^ i" for i
    using Cons.prems by (simp add: power_add div_mult2_eq)
  moreover have "odd ((a + 16 * nib r) div 2 ^ i) \<longleftrightarrow> odd (a div 2 ^ i)" if "i < 4" for i
  proof -
    have "(a + 2 ^ i * (2 * z)) div 2 ^ i = a div 2 ^ i + 2 * z" for z by simp
    moreover have "\<exists>z. 16 * nib r = 2 ^ i * (2 * z)"
    proof -
      have "i \<in> {0, 1, 2, 3}" using that by auto
      then show ?thesis by auto
    qed
    ultimately show ?thesis by (metis even_add dvd_triv_left)
  qed
  then have "count_below 4 (\<lambda>i. odd ((a + 16 * nib r) div 2 ^ i)) = nib_count a"
    using Cons.prems by (simp add: pair_count_facts(4) cong: count_below_cong)
  ultimately show ?case
    using Cons count_below_add [of 4 "4 * length r"] by simp
qed simp

lemma replicate_8: "replicate 8 a = [a, a, a, a, a, a, a, a]"
  by (simp add: numeral_eq_Suc)

lemma nib_masks:
  "(0x55555555 :: nat) = nib (replicate 8 5)" "(0x33333333 :: nat) = nib (replicate 8 3)"
  by (simp_all add: replicate_8)

lemma swar_nibbles:
  fixes x :: u32
  assumes "unat x = nib xs" "nibs xs" "length xs = 8"
  defines "y \<equiv> x - (drop_bit 1 x AND 0x55555555)"
  shows "unat ((y AND 0x33333333) + (drop_bit 2 y AND 0x33333333)) = nib (map nib_count xs)"
proof -
  have "unat (drop_bit 1 x AND 0x55555555) = nib xs div 2 AND 0x55555555"
    by (simp add: unsigned_and_eq unat_drop_bit assms(1))
  also have "\<dots> = nib (map (\<lambda>a. a div 2 AND 5) xs)"
    using swar_pairs [OF assms(2)] by (simp only: nib_masks assms(3))
  finally have sub: "unat (drop_bit 1 x AND 0x55555555) = nib (map (\<lambda>a. a div 2 AND 5) xs)" .
  have y: "unat y = nib (map pair_count xs)"
    unfolding y_def using swar_sub [OF assms(2)]
    by (subst unat_sub) (simp_all only: word_le_nat_alt sub assms(1))
  let ?ys = "map pair_count xs"
  have ys: "nibs ?ys" "length ?ys = 8"
    using assms(2,3) by (auto simp: nibs_def intro: pair_count_facts(2))
  have "unat (y AND 0x33333333) = nib ?ys AND 0x33333333"
    by (simp add: unsigned_and_eq y)
  moreover have "unat (drop_bit 2 y AND 0x33333333) = nib ?ys div 4 AND 0x33333333"
    by (simp add: unsigned_and_eq unat_drop_bit y)
  ultimately have "unat (y AND 0x33333333) + unat (drop_bit 2 y AND 0x33333333) = nib (map nib_count xs)"
    using swar_low [OF ys(1)] swar_high [OF ys(1)]
    by (simp only: nib_masks ys(2) nib_map_add) (simp add: nib_count_def [abs_def] comp_def)
  moreover have "nibs (map nib_count xs)"
    using assms(2) by (auto simp: nibs_def dest!: pair_count_facts(3))
  from nib_lt [OF this] have "nib (map nib_count xs) < 2 ^ 32" by (simp add: assms(3))
  ultimately show ?thesis by (simp add: unat_word_ariths(1))
qed

lemma swar_gather:
  fixes y :: u32
  assumes "unat y = nib [a, b, c, d, e, f, g, h]" "\<forall>n\<in>{a, b, c, d, e, f, g, h}. n \<le> 4"
  defines "z \<equiv> (y + drop_bit 4 y) AND 0x0F0F0F0F"
  shows "unat ((z + drop_bit 8 z + drop_bit 16 z + drop_bit 24 z) AND 0x3F) = a + b + c + d + e + f + g + h"
proof -
  have f: "n AND 15 = n" if "n < 16" for n :: nat
    using take_bit_eq_mask [of 4 n] that by (simp add: take_bit_eq_mod mask_eq_exp_minus_1)
  have y4: "unat (drop_bit 4 y) = nib [b, c, d, e, f, g, h]"
  proof -
    have "(a + 16 * r) div 16 = r" for r using assms(2) by simp
    then show ?thesis by (simp only: unat_drop_bit assms(1) nib.simps(2) [of a]) simp
  qed
  have "unat y + unat (drop_bit 4 y) = nib [a + b, b + c, c + d, d + e, e + f, f + g, g + h, h]"
    by (simp only: y4 assms(1)) simp
  moreover have fits: "nibs [a + b, b + c, c + d, d + e, e + f, f + g, g + h, h]"
    using assms(2) by auto
  from nib_lt [OF this] have "nib [a + b, b + c, c + d, d + e, e + f, f + g, g + h, h] < 2 ^ 32" by simp
  ultimately have "unat (y + drop_bit 4 y) = nib [a + b, b + c, c + d, d + e, e + f, f + g, g + h, h]"
    by (simp add: unat_word_ariths(1))
  then have "unat z = nib [a + b, b + c, c + d, d + e, e + f, f + g, g + h, h] AND nib [15, 0, 15, 0, 15, 0, 15, 0]"
    unfolding z_def unsigned_and_eq by simp
  also have "\<dots> = nib (map2 (AND) [a + b, b + c, c + d, d + e, e + f, f + g, g + h, h] [15, 0, 15, 0, 15, 0, 15, 0])"
    by (rule nib_and_list) (use fits in simp_all)
  also have "\<dots> = nib [a + b, 0, c + d, 0, e + f, 0, g + h, 0]"
    using assms(2) by (simp add: f)
  finally have z: "unat z = (a + b) + 256 * ((c + d) + 256 * ((e + f) + 256 * (g + h)))" by simp
  have small: "a + b < 256" "c + d < 256" "e + f < 256" "g + h < 256" using assms(2) by auto
  define t where "t = ((c + d) + 256 * ((e + f) + 256 * (g + h))) + ((e + f) + 256 * (g + h)) + (g + h)"
  have z8: "unat (drop_bit 8 z) = (c + d) + 256 * ((e + f) + 256 * (g + h))"
    using small by (simp add: unat_drop_bit z)
  have z16: "unat (drop_bit 16 z) = (e + f) + 256 * (g + h)"
    using unat_drop_bit [of 8 "drop_bit 8 z"] small by (simp add: z8)
  have z24: "unat (drop_bit 24 z) = g + h"
    using unat_drop_bit [of 8 "drop_bit 16 z"] small by (simp add: z16)
  have "unat z + unat (drop_bit 8 z) + unat (drop_bit 16 z) + unat (drop_bit 24 z)
      = (a + b + c + d + e + f + g + h) + 64 * (4 * t)"
    unfolding z z8 z16 z24 t_def by simp
  moreover have le: "a \<le> 4" "b \<le> 4" "c \<le> 4" "d \<le> 4" "e \<le> 4" "f \<le> 4" "g \<le> 4" "h \<le> 4"
    using assms(2) by auto
  ultimately have "unat (z + drop_bit 8 z + drop_bit 16 z + drop_bit 24 z)
      = (a + b + c + d + e + f + g + h) + 64 * (4 * t)"
    unfolding t_def by (simp add: unat_word_ariths(1))
  moreover have "((a + b + c + d + e + f + g + h) + 64 * (4 * t)) mod 64 = a + b + c + d + e + f + g + h"
    using le by (simp only: mod_mult_self2) simp
  ultimately show ?thesis
    using unat_and_mask [of "z + drop_bit 8 z + drop_bit 16 z + drop_bit 24 z" 6]
    by (simp only: mask_eq_exp_minus_1) simp
qed

lemma popcsi_eq: "popcsi x = popcount x"
proof -
  have "unat x < 16 ^ 8" using unat_lt_u32 [of x] by simp
  then obtain xs where xs: "length xs = 8" "nibs xs" "nib xs = unat x" using nib_exists by blast
  then obtain a b c d e f g h where abc: "xs = [a, b, c, d, e, f, g, h]"
    by (auto simp: numeral_eq_Suc length_Suc_conv simp del: nib.simps nibs_simps)
  define y where "y = x - (drop_bit 1 x AND 0x55555555)"
  have "unat ((y AND 0x33333333) + (drop_bit 2 y AND 0x33333333))
      = nib [nib_count a, nib_count b, nib_count c, nib_count d,
             nib_count e, nib_count f, nib_count g, nib_count h]"
    using swar_nibbles [OF xs(3) [symmetric] xs(2,1)] by (simp add: y_def abc)
  note gather = swar_gather [OF this]
  have "\<forall>n\<in>{nib_count a, nib_count b, nib_count c, nib_count d,
             nib_count e, nib_count f, nib_count g, nib_count h}. n \<le> 4"
    using xs(2) pair_count_facts(3) by (simp add: abc)
  from gather [OF this] have "popcsi x = sum_list (map nib_count xs)"
    unfolding popcsi_def Let_def y_def [symmetric] by (simp only: abc) simp
  also have "\<dots> = popcount x"
    using nib_bits [OF xs(2)] xs(1,3) by (simp add: popcount_def bit_iff_unat [abs_def])
  finally show ?thesis .
qed

lemma popcdi_eq: "popcdi x = popcount x"
  using popcount_dw [of "dw_of x"] by (simp add: popcdi_def Let_def popcsi_eq)

subsection \<open>Properties\<close>

text \<open>
  \<^verbatim>\<open>__cmpdi2\<close> returns 0, 1 or 2 as the first operand is below, equal to or above the second as
  signed 64-bit numbers, and \<^verbatim>\<open>__negdi2\<close> is two's-complement negation.
\<close>

theorem cmp_neg_contract:
  "cmpdi2 a b = (if sint a < sint b then 0 else if sint a = sint b then 1 else 2) \<and> negdi2 a = - a"
  by (simp add: cmpdi2_eq negdi2_eq)

text \<open>
  The trailing-zero and find-first-set helpers: \<^verbatim>\<open>ctz\<close> is the index of the lowest set bit, or
  the operand width for 0; \<^verbatim>\<open>ffs\<close> is that index plus one, or 0; the loop of \<^verbatim>\<open>__ffssi2\<close> always
  ends.
\<close>

theorem ctz_ffs_contract:
  "(if x = 0 then ctzsi2 x = 32 else lowest_bit x (ctzsi2 x))
   \<and> (if y = 0 then ctzdi2 y = 64 else lowest_bit y (ctzdi2 y))
   \<and> ffssi2 x = Some (if x = 0 then 0 else ctzsi2 x + 1)
   \<and> ffsdi2 y = (if y = 0 then 0 else ctzdi2 y + 1)"
proof -
  have "ctzdi2 0 = 64" by (simp add: ctzdi2_def ctzsi2_def dw_of_0)
  then show ?thesis
    using ctzsi2_lowest [of x] ctzdi2_lowest [of y] ffssi2_lowest [of x] ffsdi2_lowest [of y]
    by (simp add: ctzsi2_def)
qed

text \<open>
  The leading-zero helpers: shifting the operand left by \<^verbatim>\<open>clz\<close> brings its highest set bit to
  the top without losing it; 0 gives the operand width.
\<close>

theorem clz_contract:
  "(if x = 0 then clzsi2 x = 32 else 2 ^ 31 \<le> unat x * 2 ^ clzsi2 x \<and> unat x * 2 ^ clzsi2 x < 2 ^ 32)
   \<and> (if y = 0 then clzdi2 y = 64 else 2 ^ 63 \<le> unat y * 2 ^ clzdi2 y \<and> unat y * 2 ^ clzdi2 y < 2 ^ 64)"
proof -
  have "clzdi2 0 = 64" by (simp add: clzdi2_def clzsi2_def dw_of_0)
  then show ?thesis
    using clzsi2_highest [of x] clzdi2_highest [of y] by (simp add: clzsi2_def)
qed

text \<open>
  The SWAR population count and the folding parity count the set bits of their operand:
  all of them, in both widths.
\<close>

theorem popcount_parity_contract:
  "popcsi x = card {i. bit x i} \<and> popcdi y = card {i. bit y i}
   \<and> partsi x = card {i. bit x i} mod 2 \<and> partdi y = card {i. bit y i} mod 2"
  by (simp add: popcsi_eq popcdi_eq partsi_odd partdi_odd popcount_card)

end
