(* ===== verification/Runtime_Trapv.thy ===== *)
theory Runtime_Trapv
  imports Runtime_Arith
begin

section \<open>The -ftrapv helpers\<close>

text \<open>
  \<^verbatim>\<open>runtime/src/@@trapv.c\<close>: signed arithmetic that calls \<^verbatim>\<open>abort()\<close> on overflow. \<^verbatim>\<open>abort\<close> does
  not return, so a helper's result is \<open>None\<close> where it calls it. Each helper is proved to abort
  exactly when the mathematical result does not fit, and to return that result otherwise.
\<close>

definition addvdi3 :: "u64 \<Rightarrow> u64 \<Rightarrow> u64 option" where
  "addvdi3 a b =
    (let x = dw_of a; y = dw_of b;
         rlo = lo x + lo y;
         rhi = hi x + hi y + (if rlo < lo x then 1 else 0)
     in if NOT (hi x XOR hi y) AND (hi x XOR rhi) AND 0x80000000 \<noteq> 0 then None
        else Some (dw_u \<lparr>hi = rhi, lo = rlo\<rparr>))"

definition subvdi3 :: "u64 \<Rightarrow> u64 \<Rightarrow> u64 option" where
  "subvdi3 a b =
    (let x = dw_of a; y = dw_of b;
         rlo = lo x - lo y;
         rhi = hi x - hi y - (if lo x < lo y then 1 else 0)
     in if (hi x XOR hi y) AND (hi x XOR rhi) AND 0x80000000 \<noteq> 0 then None
        else Some (dw_u \<lparr>hi = rhi, lo = rlo\<rparr>))"

definition negvdi2 :: "u64 \<Rightarrow> u64 option" where
  "negvdi2 a =
    (let x = dw_of a in
     if hi x = 0x80000000 \<and> lo x = 0 then None else Some (dw_u (negate x)))"

definition mulvsi3 :: "u32 \<Rightarrow> u32 \<Rightarrow> u32 option" where
  "mulvsi3 a b =
    (let ua = (if sint a < 0 then 0 - a else a);
         ub = (if sint b < 0 then 0 - b else b);
         neg = (if (sint a < 0) \<noteq> (sint b < 0) then 1 else 0);
         (h, l) = mul32 ua ub
     in if h \<noteq> 0 \<or> l > 0x7FFFFFFF + neg then None
        else Some (if neg \<noteq> 0 then 0 - l else l))"

definition mulvdi3 :: "u64 \<Rightarrow> u64 \<Rightarrow> u64 option" where
  "mulvdi3 a b =
    (let x = dw_of a; y = dw_of b;
         neg = (hi x XOR hi y) AND 0x80000000 \<noteq> 0;
         x = (if hi x AND 0x80000000 \<noteq> 0 then negate x else x);
         y = (if hi y AND 0x80000000 \<noteq> 0 then negate y else y)
     in if hi x \<noteq> 0 \<and> hi y \<noteq> 0 then None
        else
          let (rhi, rlo) = mul32 (lo x) (lo y);
              (ch, cl) = (if hi x \<noteq> 0 then mul32 (hi x) (lo y) else mul32 (lo x) (hi y))
          in if ch \<noteq> 0 then None
             else
               let h = rhi + cl in
               if h < cl then None
               else
                 let l = rlo in
                 if h AND 0x80000000 \<noteq> 0 \<and> \<not> (neg \<and> h = 0x80000000 \<and> l = 0) then None
                 else Some (dw_u (if neg then negate \<lparr>hi = h, lo = rlo\<rparr> else \<lparr>hi = h, lo = rlo\<rparr>)))"

text \<open>The range of a \<^verbatim>\<open>long long\<close> and of an \<^verbatim>\<open>int\<close>.\<close>

definition fits64 :: "int \<Rightarrow> bool" where
  "fits64 z \<longleftrightarrow> - (2 ^ 63) \<le> z \<and> z < 2 ^ 63"

definition fits32 :: "int \<Rightarrow> bool" where
  "fits32 z \<longleftrightarrow> - (2 ^ 31) \<le> z \<and> z < 2 ^ 31"

lemma sint_of_int64: "fits64 z \<Longrightarrow> sint (word_of_int z :: u64) = z"
  by (simp add: fits64_def sint_sbintrunc' signed_take_bit_int_eq_self)

lemma sint_of_int32: "fits32 z \<Longrightarrow> sint (word_of_int z :: u32) = z"
  by (simp add: fits32_def sint_sbintrunc' signed_take_bit_int_eq_self)

lemma fits64_sint: "fits64 (sint x)" for x :: u64
  using sint_ge [of x] sint_lt [of x] by (simp add: fits64_def)

lemma word_of_int_shift64: "word_of_int (z + 2 ^ 64) = (word_of_int z :: u64)"
  by (simp add: word_of_int_eq_iff take_bit_eq_mod)

text \<open>The sign of a wrapped sum or difference tells whether it fitted.\<close>

lemma wrapped_sign:
  fixes z :: int
  assumes "- (2 ^ 64) \<le> z" "z < 2 ^ 64"
  shows "sint (word_of_int z :: u64) =
    (if z < - (2 ^ 63) then z + 2 ^ 64 else if z < 2 ^ 63 then z else z - 2 ^ 64)"
proof -
  consider "z < - (2 ^ 63)" | "- (2 ^ 63) \<le> z" "z < 2 ^ 63" | "2 ^ 63 \<le> z" by linarith
  then show ?thesis
  proof cases
    case 1
    then have "fits64 (z + 2 ^ 64)" using assms by (simp add: fits64_def)
    from sint_of_int64 [OF this] show ?thesis using 1 by (simp only: word_of_int_shift64) simp
  next
    case 2
    then show ?thesis using sint_of_int64 [of z] by (simp add: fits64_def)
  next
    case 3
    then have "fits64 (z - 2 ^ 64)" using assms by (simp add: fits64_def)
    from sint_of_int64 [OF this] have "sint (word_of_int z :: u64) = z - 2 ^ 64"
      using word_of_int_shift64 [of "z - 2 ^ 64"] by (simp only: diff_add_cancel)
    then show ?thesis using 3 by simp
  qed
qed

lemma sign_bit: "h AND 0x80000000 \<noteq> 0 \<longleftrightarrow> bit h 31" for h :: u32
  using and_exp_eq_0_iff_not_bit [of h 31] by simp

lemma bit_sign: "bit (hi v) 31 \<longleftrightarrow> sint (dw_u v) < 0"
  using neg_bit_iff [of v] by (simp add: neg_bit_def sign_bit)

lemma sign_tests:
  fixes x y r :: u32
  shows "NOT (x XOR y) AND (x XOR r) AND 0x80000000 \<noteq> 0 \<longleftrightarrow> bit x 31 = bit y 31 \<and> bit x 31 \<noteq> bit r 31"
    and "(x XOR y) AND (x XOR r) AND 0x80000000 \<noteq> 0 \<longleftrightarrow> bit x 31 \<noteq> bit y 31 \<and> bit x 31 \<noteq> bit r 31"
    and "(x XOR y) AND 0x80000000 \<noteq> 0 \<longleftrightarrow> bit x 31 \<noteq> bit y 31"
  using sign_bit [of "NOT (x XOR y) AND (x XOR r)"] sign_bit [of "(x XOR y) AND (x XOR r)"]
    sign_bit [of "x XOR y"]
  by (simp_all add: bit_simps and.assoc)

lemma addvdi3_eq: "addvdi3 a b =
  (let z = sint a + sint b in if fits64 z then Some (word_of_int z) else None)"
proof -
  define r where "r = \<lparr>hi = hi (dw_of a) + hi (dw_of b)
      + (if lo (dw_of a) + lo (dw_of b) < lo (dw_of a) then 1 else 0), lo = lo (dw_of a) + lo (dw_of b)\<rparr>"
  have r: "dw_u r = word_of_int (sint a + sint b)"
    using dw_add [of "dw_of a" "dw_of b"] by (simp add: r_def)
  have "addvdi3 a b = (if (sint a < 0 \<longleftrightarrow> sint b < 0) \<and> (sint a < 0) \<noteq> (sint (dw_u r) < 0) then None else Some (dw_u r))"
  proof -
    have "addvdi3 a b = (if bit (hi (dw_of a)) 31 = bit (hi (dw_of b)) 31
        \<and> bit (hi (dw_of a)) 31 \<noteq> bit (hi r) 31 then None else Some (dw_u r))"
      unfolding addvdi3_def Let_def sign_tests r_def by simp
    then show ?thesis unfolding bit_sign by simp
  qed
  then show ?thesis
    using wrapped_sign [of "sint a + sint b"] fits64_sint [of a] fits64_sint [of b]
    by (auto simp: r fits64_def Let_def)
qed

lemma subvdi3_eq: "subvdi3 a b =
  (let z = sint a - sint b in if fits64 z then Some (word_of_int z) else None)"
proof -
  define r where "r = \<lparr>hi = hi (dw_of a) - hi (dw_of b)
      - (if lo (dw_of a) < lo (dw_of b) then 1 else 0), lo = lo (dw_of a) - lo (dw_of b)\<rparr>"
  have r: "dw_u r = word_of_int (sint a - sint b)"
    using dw_subtract [of "dw_of a" "dw_of b"] by (simp add: r_def)
  have "subvdi3 a b = (if (sint a < 0) \<noteq> (sint b < 0) \<and> (sint a < 0) \<noteq> (sint (dw_u r) < 0) then None else Some (dw_u r))"
  proof -
    have "subvdi3 a b = (if bit (hi (dw_of a)) 31 \<noteq> bit (hi (dw_of b)) 31
        \<and> bit (hi (dw_of a)) 31 \<noteq> bit (hi r) 31 then None else Some (dw_u r))"
      unfolding subvdi3_def Let_def sign_tests r_def by simp
    then show ?thesis unfolding bit_sign by simp
  qed
  then show ?thesis
    using wrapped_sign [of "sint a - sint b"] fits64_sint [of a] fits64_sint [of b]
    by (auto simp: r fits64_def Let_def)
qed

lemma negvdi2_eq: "negvdi2 a =
  (let z = - sint a in if fits64 z then Some (word_of_int z) else None)"
proof -
  have "dw_of 0x8000000000000000 = \<lparr>hi = 0x80000000, lo = 0\<rparr>"
  proof -
    have "dw_u \<lparr>hi = 0x80000000, lo = 0\<rparr> = 0x8000000000000000"
      by (rule dw_u_eqI) (simp add: dw_nat_def)
    from arg_cong [OF this, of dw_of] show ?thesis by (simp only: dw_of_u)
  qed
  then have "hi (dw_of a) = 0x80000000 \<and> lo (dw_of a) = 0 \<longleftrightarrow> dw_of a = dw_of 0x8000000000000000"
    by (cases "dw_of a") simp
  also have "\<dots> \<longleftrightarrow> a = 0x8000000000000000" by (metis dw_u_of)
  also have "\<dots> \<longleftrightarrow> sint a = - (2 ^ 63)"
  proof -
    have "sint (0x8000000000000000 :: u64) = - (2 ^ 63)" by (simp add: sint_u64)
    then show ?thesis by (metis signed_word_eqI)
  qed
  finally have "hi (dw_of a) = 0x80000000 \<and> lo (dw_of a) = 0 \<longleftrightarrow> sint a = - (2 ^ 63)" .
  moreover have "fits64 (- sint a) \<longleftrightarrow> sint a \<noteq> - (2 ^ 63)"
    using fits64_sint [of a] by (auto simp: fits64_def)
  ultimately show ?thesis
    by (simp add: negvdi2_def Let_def negate_u)
qed

subsection \<open>Multiplication\<close>

lemma uint_mag32: "uint (if sint a < 0 then 0 - a else a) = \<bar>sint a\<bar>" for a :: u32
proof (cases "sint a < 0")
  case True
  then have "uint (- a) = 2 ^ 32 - uint a"
    using uint_word_ariths(4) [of a] uint_lt2p [of a]
    by (auto simp: zmod_zminus1_eq_if uint_0_iff)
  then show ?thesis using True by (auto simp: sint_u32)
next
  case False
  moreover have "uint a < 2 ^ 32" using uint_lt2p [of a] by simp
  ultimately show ?thesis by (auto simp: sint_u32 split: if_splits)
qed

lemma signed_product: "(x :: int) * y = (if (x < 0) \<noteq> (y < 0) then - (\<bar>x\<bar> * \<bar>y\<bar>) else \<bar>x\<bar> * \<bar>y\<bar>)"
  by (auto simp: abs_if)

lemma pair_exceeds:
  fixes h l m :: int
  assumes "0 \<le> h" "0 \<le> l" "m < 2 ^ 32"
  shows "h \<noteq> 0 \<or> l > m \<longleftrightarrow> h * 2 ^ 32 + l > m"
  using assms by (cases "h = 0") auto

lemma mulvsi3_eq: "mulvsi3 a b =
  (let z = sint a * sint b in if fits32 z then Some (word_of_int z) else None)"
proof -
  define ua ub where "ua = (if sint a < 0 then 0 - a else a)" and "ub = (if sint b < 0 then 0 - b else b)"
  define ng where "ng \<longleftrightarrow> (sint a < 0) \<noteq> (sint b < 0)"
  obtain h l where hl: "mul32 ua ub = (h, l)" by fastforce
  define P where "P = \<bar>sint a\<bar> * \<bar>sint b\<bar>"
  have P: "uint h * 2 ^ 32 + uint l = P"
  proof -
    have "int (unat h * 2 ^ 32 + unat l) = int (unat ua * unat ub)"
      using mul32_exact [OF hl] by simp
    then show ?thesis
      using uint_mag32 [of a] uint_mag32 [of b] by (simp add: P_def ua_def ub_def)
  qed
  have prod: "sint a * sint b = (if ng then - P else P)" and P0: "0 \<le> P"
    using signed_product [of "sint a" "sint b"] by (simp_all add: P_def ng_def)
  define M where "M = (if ng then 2 ^ 31 else 2 ^ 31 - 1 :: int)"
  have M: "uint (0x7FFFFFFF + (if ng then 1 else 0) :: u32) = M" by (simp add: M_def)
  have "h \<noteq> 0 \<or> l > 0x7FFFFFFF + (if ng then 1 else 0) \<longleftrightarrow> uint h \<noteq> 0 \<or> uint l > M"
    by (simp only: word_less_alt M uint_0_iff)
  also have "\<dots> \<longleftrightarrow> uint h * 2 ^ 32 + uint l > M"
    by (rule pair_exceeds) (simp_all add: M_def)
  also have "\<dots> \<longleftrightarrow> \<not> fits32 (sint a * sint b)"
    using P0 unfolding P prod by (auto simp: fits32_def M_def)
  finally have big: "h \<noteq> 0 \<or> l > 0x7FFFFFFF + (if ng then 1 else 0) \<longleftrightarrow> \<not> fits32 (sint a * sint b)" .
  have "word_of_int (sint a * sint b) = (if ng then 0 - l else l)" if "fits32 (sint a * sint b)"
  proof -
    have "h = 0" using big that by blast
    then have "P = uint l" using P by simp
    then show ?thesis unfolding prod by simp
  qed
  moreover have "mulvsi3 a b = (if h \<noteq> 0 \<or> l > 0x7FFFFFFF + (if ng then 1 else 0) then None
      else Some (if ng then 0 - l else l))"
    using hl unfolding mulvsi3_def Let_def ua_def ub_def ng_def by simp
  ultimately show ?thesis by (simp only: big) (simp add: Let_def)
qed

text \<open>
  The double-word product: once one high half is zero and the single cross term fits, the
  magnitude is \<open>(rhi + cl) * 2 ^ 32 + rlo\<close>.
\<close>

lemma mag_by_bit: "(if hi v AND 0x80000000 \<noteq> 0 then negate v else v) = mag v"
  by (simp add: mag_def neg_bit_def)

lemma cross_product:
  assumes "hi x = 0 \<or> hi y = 0" "mul32 (lo x) (lo y) = (rhi, rlo)"
    and "(if hi x \<noteq> 0 then mul32 (hi x) (lo y) else mul32 (lo x) (hi y)) = (ch, cl)"
  shows "dw_nat x * dw_nat y = unat ch * 2 ^ 64 + (unat rhi + unat cl) * 2 ^ 32 + unat rlo"
proof -
  have r: "unat rhi * 2 ^ 32 + unat rlo = unat (lo x) * unat (lo y)"
    by (rule mul32_exact [OF assms(2)])
  have c: "unat ch * 2 ^ 32 + unat cl = unat (hi x) * unat (lo y) + unat (lo x) * unat (hi y)"
    using assms(1,3) by (auto split: if_splits dest!: mul32_exact)
  have "dw_nat x * dw_nat y = (unat (hi x) * unat (lo y) + unat (lo x) * unat (hi y)) * 2 ^ 32
      + unat (lo x) * unat (lo y)"
    using assms(1) by (auto simp: dw_nat_def algebra_simps)
  then show ?thesis unfolding r [symmetric] c [symmetric] by (simp add: algebra_simps)
qed

lemma both_high_big: "hi x \<noteq> 0 \<Longrightarrow> hi y \<noteq> 0 \<Longrightarrow> 2 ^ 64 \<le> dw_nat x * dw_nat y"
proof -
  assume "hi x \<noteq> 0" "hi y \<noteq> 0"
  then have "2 ^ 32 \<le> dw_nat x" "2 ^ 32 \<le> dw_nat y"
    by (simp_all add: dw_nat_def trans_le_add1 unat_gt_0 Suc_le_eq)
  from mult_le_mono [OF this] show ?thesis by simp
qed

lemma mulvdi3_range:
  "h AND 0x80000000 \<noteq> 0 \<and> \<not> (ng \<and> h = 0x80000000 \<and> l = 0) \<longleftrightarrow>
   \<not> (dw_nat \<lparr>hi = h, lo = l\<rparr> < 2 ^ 63 \<or> ng \<and> dw_nat \<lparr>hi = h, lo = l\<rparr> = 2 ^ 63)"
proof -
  have "h AND 0x80000000 \<noteq> 0 \<longleftrightarrow> \<not> dw_nat \<lparr>hi = h, lo = l\<rparr> < 2 ^ 63"
    using unat_lt_u32 [of l] by (auto simp: and_top_bit dw_nat_def)
  moreover have "h = 0x80000000 \<and> l = 0 \<longleftrightarrow> dw_nat \<lparr>hi = h, lo = l\<rparr> = 2 ^ 63"
    using dw_nat_inject [of "\<lparr>hi = h, lo = l\<rparr>" "\<lparr>hi = 0x80000000, lo = 0\<rparr>"]
    by (simp add: dw_nat_def)
  ultimately show ?thesis by blast
qed

lemma mulvdi3_eq: "mulvdi3 a b =
  (let z = sint a * sint b in if fits64 z then Some (word_of_int z) else None)"
proof -
  define x y where "x = mag (dw_of a)" and "y = mag (dw_of b)"
  define ng where "ng \<longleftrightarrow> (sint a < 0) \<noteq> (sint b < 0)"
  define P where "P = dw_nat x * dw_nat y"
  have prod: "sint a * sint b = (if ng then - int P else int P)"
    using signed_product [of "sint a" "sint b"] dw_nat_mag [of "dw_of a"] dw_nat_mag [of "dw_of b"]
    by (simp add: P_def ng_def x_def y_def)
  then have fits: "fits64 (sint a * sint b) \<longleftrightarrow> P < 2 ^ 63 \<or> ng \<and> P = 2 ^ 63"
    by (auto simp: fits64_def)
  obtain rhi rlo where r: "mul32 (lo x) (lo y) = (rhi, rlo)" by fastforce
  obtain ch cl where c: "(if hi x \<noteq> 0 then mul32 (hi x) (lo y) else mul32 (lo x) (hi y)) = (ch, cl)"
    by fastforce
  have m: "mulvdi3 a b =
    (if hi x \<noteq> 0 \<and> hi y \<noteq> 0 \<or> ch \<noteq> 0 \<or> rhi + cl < cl then None
     else if rhi + cl AND 0x80000000 \<noteq> 0 \<and> \<not> (ng \<and> rhi + cl = 0x80000000 \<and> rlo = 0) then None
     else Some (dw_u (if ng then negate \<lparr>hi = rhi + cl, lo = rlo\<rparr> else \<lparr>hi = rhi + cl, lo = rlo\<rparr>)))"
    unfolding mulvdi3_def Let_def mag_by_bit x_def [symmetric] y_def [symmetric] r c
    by (simp add: sign_tests bit_sign ng_def)
  show ?thesis
  proof (cases "hi x \<noteq> 0 \<and> hi y \<noteq> 0")
    case True
    then have "2 ^ 64 \<le> P" using both_high_big by (simp add: P_def)
    then show ?thesis using True by (simp add: m fits Let_def)
  next
    case False
    then have P: "P = unat ch * 2 ^ 64 + (unat rhi + unat cl) * 2 ^ 32 + unat rlo"
      unfolding P_def by (intro cross_product [OF _ r c]) auto
    show ?thesis
    proof (cases "ch \<noteq> 0 \<or> rhi + cl < cl")
      case True
      have "ch \<noteq> 0 \<Longrightarrow> 1 \<le> unat ch" by (simp add: Suc_le_eq unat_gt_0)
      moreover have "rhi + cl < cl \<Longrightarrow> 2 ^ 32 \<le> unat rhi + unat cl"
        using unat_plus_if' [of rhi cl] by (auto simp: word_less_nat_alt split: if_splits)
      ultimately have "2 ^ 64 \<le> P" using True unfolding P by auto
      then show ?thesis using True by (auto simp: m fits Let_def)
    next
      case no_carry: False
      then have "unat (rhi + cl) = unat rhi + unat cl"
        using unat_plus_if' [of rhi cl] unat_lt_u32 [of rhi]
        by (auto simp: word_less_nat_alt split: if_splits)
      then have Ph: "P = dw_nat \<lparr>hi = rhi + cl, lo = rlo\<rparr>"
        using no_carry by (simp add: P dw_nat_def)
      then have val: "dw_u (if ng then negate \<lparr>hi = rhi + cl, lo = rlo\<rparr> else \<lparr>hi = rhi + cl, lo = rlo\<rparr>)
          = word_of_int (sint a * sint b)"
        using dw_u_of_int [of "\<lparr>hi = rhi + cl, lo = rlo\<rparr>"] by (simp add: prod negate_u)
      have "mulvdi3 a b = (if \<not> fits64 (sint a * sint b) then None else Some (word_of_int (sint a * sint b)))"
        unfolding m val mulvdi3_range Ph [symmetric] fits [symmetric] using False no_carry by auto
      then show ?thesis by (simp add: Let_def)
    qed
  qed
qed

subsection \<open>Properties\<close>

text \<open>
  C39. The trapping add, subtract, negate and multiplies abort exactly when the mathematical
  result is outside the type's range, and otherwise return it.
\<close>

theorem trapv_aborts_iff_overflow:
  "addvdi3 a b = (let z = sint a + sint b in if fits64 z then Some (word_of_int z) else None)
   \<and> subvdi3 a b = (let z = sint a - sint b in if fits64 z then Some (word_of_int z) else None)
   \<and> negvdi2 a = (let z = - sint a in if fits64 z then Some (word_of_int z) else None)
   \<and> mulvsi3 c d = (let z = sint c * sint d in if fits32 z then Some (word_of_int z) else None)
   \<and> mulvdi3 a b = (let z = sint a * sint b in if fits64 z then Some (word_of_int z) else None)"
  by (simp add: addvdi3_eq subvdi3_eq negvdi2_eq mulvsi3_eq mulvdi3_eq)

text \<open>
  A result a trapping helper does return, read as a signed number, is the exact sum,
  difference or product: no wrap-around ever gets through.
\<close>

theorem trapv_result_exact:
  "(\<forall>r. addvdi3 a b = Some r \<longrightarrow> sint r = sint a + sint b)
   \<and> (\<forall>r. subvdi3 a b = Some r \<longrightarrow> sint r = sint a - sint b)
   \<and> (\<forall>r. mulvdi3 a b = Some r \<longrightarrow> sint r = sint a * sint b)
   \<and> (\<forall>r. mulvsi3 c d = Some r \<longrightarrow> sint r = sint c * sint d)"
proof -
  have "(let z = z in if fits64 z then Some (word_of_int z) else None) = Some r \<Longrightarrow> sint (r :: u64) = z" for z r
    by (auto simp: Let_def sint_of_int64 split: if_splits)
  moreover have "(let z = z in if fits32 z then Some (word_of_int z) else None) = Some r \<Longrightarrow> sint (r :: u32) = z" for z r
    by (auto simp: Let_def sint_of_int32 split: if_splits)
  ultimately show ?thesis
    unfolding addvdi3_eq subvdi3_eq mulvdi3_eq mulvsi3_eq Let_def by blast
qed

theorem trapv_result_exact_witness:
  "addvdi3 5 7 = Some 12 \<and> sint (12 :: u64) = sint (5 :: u64) + sint (7 :: u64)"
proof -
  have "addvdi3 5 7 = Some 12" by (simp add: addvdi3_eq Let_def fits64_def sint_u64)
  with trapv_result_exact [of 5 7 0 0] show ?thesis by blast
qed

end
