(* ===== verification/Runtime_Hfp.thy ===== *)
theory Runtime_Hfp
  imports Runtime_Dw
begin

section \<open>Conversions between long long and hexadecimal floating point\<close>

text \<open>
  \<^verbatim>\<open>runtime/src/@@fixdi.c\<close> and \<^verbatim>\<open>runtime/src/@@fltdi.c\<close>. A \<^verbatim>\<open>double\<close> is its two words and a
  \<^verbatim>\<open>float\<close> its one word, as the unions \<^verbatim>\<open>dbl_t\<close> and \<^verbatim>\<open>flt_t\<close> expose them; the value such a bit
  pattern stands for is \<open>sign * fraction * 16 ^ (e - 78)\<close>. \<^verbatim>\<open>hfp_fix\<close> is proved to be the
  integer part of that value modulo \<open>2 ^ 64\<close>, and \<^verbatim>\<open>hfp_float\<close> to be exact on every integer
  that has at most as many hexadecimal digits as the format.
\<close>

subsection \<open>Shifts on halves\<close>

definition shl64 :: "u32 \<Rightarrow> u32 \<Rightarrow> nat \<Rightarrow> u32 \<times> u32" where
  "shl64 h l n =
    (if n \<ge> 64 then (0, 0)
     else if n \<ge> 32 then (push_bit (n - 32) l, 0)
     else if n > 0 then (push_bit n h OR drop_bit (32 - n) l, push_bit n l)
     else (h, l))"

definition shr64 :: "u32 \<Rightarrow> u32 \<Rightarrow> nat \<Rightarrow> u32 \<times> u32" where
  "shr64 h l n =
    (if n \<ge> 64 then (0, 0)
     else if n \<ge> 32 then (0, drop_bit (n - 32) h)
     else if n > 0 then (drop_bit n h, drop_bit n l OR push_bit (32 - n) h)
     else (h, l))"

definition dw_pair :: "u32 \<times> u32 \<Rightarrow> u64" where
  "dw_pair p = dw_u \<lparr>hi = fst p, lo = snd p\<rparr>"

lemma bit_dw_pair: "bit (dw_pair (h, l)) i \<longleftrightarrow> (if i < 32 then bit l i else bit h (i - 32))"
  by (auto simp: dw_pair_def dw_u_def word_cat_eq_push_bit_or bit_simps dest: bit_imp_le_length)

lemma shl64_push: "dw_pair (shl64 h l n) = push_bit n (dw_pair (h, l))"
proof (rule bit_eqI)
  fix i assume "possible_bit TYPE(u64) i"
  then have "i < 64" by simp
  then show "bit (dw_pair (shl64 h l n)) i = bit (push_bit n (dw_pair (h, l))) i"
    by (auto simp: shl64_def bit_dw_pair bit_simps ac_simps dest: bit_imp_le_length)
qed

lemma shr64_drop: "dw_pair (shr64 h l n) = drop_bit n (dw_pair (h, l))"
proof (rule bit_eqI)
  fix i assume "possible_bit TYPE(u64) i"
  then have "i < 64" by simp
  then show "bit (dw_pair (shr64 h l n)) i = bit (drop_bit n (dw_pair (h, l))) i"
    by (auto simp: shr64_def bit_dw_pair bit_simps ac_simps dest: bit_imp_le_length)
qed

subsection \<open>From floating point\<close>

definition hfp_fix :: "u32 \<Rightarrow> u32 \<Rightarrow> dw_t" where
  "hfp_fix h l =
    (let fh = h AND 0x00FFFFFF; fl = l;
         e = int (unat (drop_bit 24 h AND 0x7F));
         (fh, fl) = (if 4 * e - 312 \<ge> 0 then shl64 fh fl (nat (4 * e - 312))
                     else shr64 fh fl (nat (312 - 4 * e)));
         (fh, fl) = (if h AND 0x80000000 \<noteq> 0
                     then let fl = NOT fl + 1 in (NOT fh + (if fl = 0 then 1 else 0), fl)
                     else (fh, fl))
     in \<lparr>hi = fh, lo = fl\<rparr>)"

definition fixdfdi :: "u32 \<times> u32 \<Rightarrow> u64" where
  "fixdfdi d = (case d of (h, l) \<Rightarrow> dw_u (hfp_fix h l))"

definition fxundf :: "u32 \<times> u32 \<Rightarrow> u64" where
  "fxundf d = (case d of (h, l) \<Rightarrow> dw_u (hfp_fix h l))"

definition fixsfdi :: "u32 \<Rightarrow> u64" where
  "fixsfdi f = dw_u (hfp_fix f 0)"

definition fxunsf :: "u32 \<Rightarrow> u64" where
  "fxunsf f = dw_u (hfp_fix f 0)"

text \<open>What a long HFP bit pattern means: sign, exponent and 56-bit fraction.\<close>

definition hfp_neg :: "u32 \<Rightarrow> bool" where
  "hfp_neg h \<longleftrightarrow> bit h 31"

definition hfp_exp :: "u32 \<Rightarrow> nat" where
  "hfp_exp h = unat h div 2 ^ 24 mod 2 ^ 7"

definition hfp_frac :: "u32 \<Rightarrow> u32 \<Rightarrow> nat" where
  "hfp_frac h l = (unat h mod 2 ^ 24) * 2 ^ 32 + unat l"

text \<open>The integer part of the magnitude \<open>frac * 16 ^ (e - 78)\<close>.\<close>

definition hfp_int :: "u32 \<Rightarrow> u32 \<Rightarrow> nat" where
  "hfp_int h l = (let e = hfp_exp h in
     if e \<ge> 78 then hfp_frac h l * 16 ^ (e - 78) else hfp_frac h l div 16 ^ (78 - e))"

lemma dw_pair_nat: "unat (dw_pair (h, l)) = unat h * 2 ^ 32 + unat l"
  by (simp add: dw_pair_def unat_dw_u dw_nat_def)

lemma and_FFFFFF: "unat (h AND 0x00FFFFFF) = unat h mod 2 ^ 24" for h :: u32
  using unat_and_mask [of h 24] by (simp add: mask_eq_exp_minus_1)

lemma hfp_exp_word: "unat (drop_bit 24 h AND 0x7F) = hfp_exp h"
  using unat_and_mask [of "drop_bit 24 h" 7] by (simp add: hfp_exp_def mask_eq_exp_minus_1 unat_drop_bit)

lemma negate_pair:
  "dw_u \<lparr>hi = NOT h + (if NOT l + 1 = 0 then 1 else 0), lo = NOT l + 1\<rparr> = - dw_pair (h, l)"
  using negate_u [of "\<lparr>hi = h, lo = l\<rparr>"] by (simp add: negate_def Let_def dw_pair_def)

lemma hfp_fix_value:
  "dw_u (hfp_fix h l) =
    (if hfp_neg h then - of_nat (hfp_int h l) else of_nat (hfp_int h l))"
proof -
  obtain fh fl where s: "(if 4 * int (hfp_exp h) - 312 \<ge> 0
      then shl64 (h AND 0x00FFFFFF) l (nat (4 * int (hfp_exp h) - 312))
      else shr64 (h AND 0x00FFFFFF) l (nat (312 - 4 * int (hfp_exp h)))) = (fh, fl)"
    by fastforce
  have frac: "unat (dw_pair (h AND 0x00FFFFFF, l)) = hfp_frac h l"
    by (simp add: dw_pair_nat hfp_frac_def and_FFFFFF)
  have "dw_pair (fh, fl) = of_nat (hfp_int h l)"
  proof (cases "hfp_exp h \<ge> 78")
    case True
    then have "nat (4 * int (hfp_exp h) - 312) = 4 * (hfp_exp h - 78)" by simp
    then have "dw_pair (fh, fl) = push_bit (4 * (hfp_exp h - 78)) (dw_pair (h AND 0x00FFFFFF, l))"
      using s True shl64_push [of "h AND 0x00FFFFFF" l "4 * (hfp_exp h - 78)"] by simp
    moreover have "dw_pair (h AND 0x00FFFFFF, l) = of_nat (hfp_frac h l)"
      by (simp flip: frac)
    ultimately show ?thesis
      using True by (simp add: hfp_int_def push_bit_eq_mult power_mult)
  next
    case False
    then have "nat (312 - 4 * int (hfp_exp h)) = 4 * (78 - hfp_exp h)" by simp
    then have "dw_pair (fh, fl) = drop_bit (4 * (78 - hfp_exp h)) (dw_pair (h AND 0x00FFFFFF, l))"
      using s False shr64_drop [of "h AND 0x00FFFFFF" l "4 * (78 - hfp_exp h)"] by simp
    then have "unat (dw_pair (fh, fl)) = hfp_int h l"
      using False by (simp add: unat_drop_bit frac hfp_int_def power_mult)
    then show ?thesis by (metis of_nat_unat ucast_id)
  qed
  moreover have "hfp_fix h l = (if hfp_neg h
      then \<lparr>hi = NOT fh + (if NOT fl + 1 = 0 then 1 else 0), lo = NOT fl + 1\<rparr> else \<lparr>hi = fh, lo = fl\<rparr>)"
    using and_exp_eq_0_iff_not_bit [of h 31]
    unfolding hfp_fix_def Let_def hfp_exp_word s by (simp add: hfp_neg_def)
  ultimately show ?thesis by (simp add: negate_pair dw_pair_def)
qed

subsection \<open>To floating point\<close>

function hexdigits_loop :: "u32 \<Rightarrow> nat \<Rightarrow> nat" where
  "hexdigits_loop x n = (if x \<noteq> 0 then hexdigits_loop (drop_bit 4 x) (n + 1) else n)"
  by pat_completeness auto
termination
proof (relation "measure (\<lambda>(x, n). unat x)", simp)
  fix x :: u32 and n :: nat
  assume "x \<noteq> 0"
  then have "0 < unat x" by (simp add: unat_gt_0)
  then show "((drop_bit 4 x, n + 1), x, n) \<in> measure (\<lambda>(x, n). unat x)"
    by (simp add: unat_drop_bit)
qed

declare hexdigits_loop.simps [simp del]

definition hexdigits :: "u32 \<Rightarrow> nat" where
  "hexdigits x = hexdigits_loop x 0"

definition hfp_float :: "u64 \<Rightarrow> nat \<Rightarrow> u32 \<times> u32" where
  "hfp_float x digits =
    (let v = dw_of x; sign = 0; mh = hi v; ml = lo v;
         (sign, mh, ml) = (if mh AND 0x80000000 \<noteq> 0
            then let ml = NOT ml + 1 in (0x80000000, NOT mh + (if ml = 0 then 1 else 0), ml)
            else (sign, mh, ml))
     in if mh = 0 \<and> ml = 0 then (0, 0)
        else
          let n = (if mh \<noteq> 0 then 8 + hexdigits mh else hexdigits ml);
              (mh, ml, n) =
                (if n \<le> digits then let (mh, ml) = shl64 mh ml (4 * (digits - n)) in (mh, ml, n)
                 else
                   let d = n - digits;
                       (mh, ml) =
                         (if 4 * d - 1 \<ge> 32 then (mh + push_bit (4 * d - 1 - 32) 1, ml)
                          else let half = push_bit (4 * d - 1) 1; ml = ml + half
                               in (mh + (if ml < half then 1 else 0), ml));
                       (mh, ml) = shr64 mh ml (4 * d)
                   in if (if digits = 14 then mh AND 0xFF000000 \<noteq> 0 else ml AND 0xFF000000 \<noteq> 0)
                      then let (mh, ml) = shr64 mh ml 4 in (mh, ml, n + 1)
                      else (mh, ml, n))
          in if digits = 14
             then (sign OR push_bit 24 (of_nat (64 + n)) OR mh, ml)
             else (sign OR push_bit 24 (of_nat (64 + n)) OR ml, 0))"

definition fltddf :: "u64 \<Rightarrow> u32 \<times> u32" where
  "fltddf x = hfp_float x 14"

definition fltdsf :: "u64 \<Rightarrow> u32" where
  "fltdsf x = fst (hfp_float x 6)"

lemma hexdigits_loop_bounds:
  "x \<noteq> 0 \<Longrightarrow> \<exists>k. hexdigits_loop x n = n + Suc k \<and> 16 ^ k \<le> unat x \<and> unat x < 16 ^ Suc k"
proof (induction x n rule: hexdigits_loop.induct)
  case (1 x n)
  show ?case
  proof (cases "drop_bit 4 x = 0")
    case True
    then have "unat x div 16 = 0" using unat_drop_bit [of 4 x] by simp
    then have "unat x < 16" by simp
    moreover have "0 < unat x" using 1 by (simp add: unat_gt_0)
    moreover have "hexdigits_loop x n = n + 1"
      using 1(2) True by (simp add: hexdigits_loop.simps [of x] hexdigits_loop.simps [of 0])
    ultimately show ?thesis by (intro exI [of _ 0]) simp
  next
    case False
    from 1(1) [OF 1(2) this] obtain k where "hexdigits_loop (drop_bit 4 x) (n + 1) = n + 1 + Suc k"
      "16 ^ k \<le> unat x div 16" "unat x div 16 < 16 ^ Suc k"
      by (auto simp: unat_drop_bit)
    then show ?thesis
      using 1(2) by (intro exI [of _ "Suc k"])
        (auto simp: hexdigits_loop.simps [of x] div_less_iff_less_mult less_eq_div_iff_mult_less_eq)
  qed
qed

text \<open>The number of hexadecimal digits of a magnitude, as a specification.\<close>

fun hex_len :: "nat \<Rightarrow> nat" where
  "hex_len m = (if m = 0 then 0 else Suc (hex_len (m div 16)))"

declare hex_len.simps [simp del]

lemma hex_len_unique: "16 ^ k \<le> m \<Longrightarrow> m < 16 ^ Suc k \<Longrightarrow> hex_len m = Suc k"
proof (induction k arbitrary: m)
  case 0
  then show ?case by (simp add: hex_len.simps [of m] hex_len.simps [of 0])
next
  case (Suc k)
  then have "hex_len (m div 16) = Suc k"
    by (intro Suc.IH) (auto simp: div_less_iff_less_mult less_eq_div_iff_mult_less_eq)
  moreover have "m \<noteq> 0" using Suc.prems(1) by (metis le_zero_eq power_not_zero zero_neq_numeral)
  ultimately show ?case by (simp add: hex_len.simps [of m])
qed

lemma hex_len_bounds: "0 < m \<Longrightarrow> 16 ^ (hex_len m - 1) \<le> m \<and> m < 16 ^ hex_len m \<and> 0 < hex_len m"
proof (induction m rule: hex_len.induct)
  case (1 m)
  show ?case
  proof (cases "m < 16")
    case True
    then show ?thesis using 1(2) by (simp add: hex_len.simps [of m] hex_len.simps [of 0])
  next
    case False
    then have "16 ^ (hex_len (m div 16) - 1) \<le> m div 16 \<and> m div 16 < 16 ^ hex_len (m div 16) \<and> 0 < hex_len (m div 16)"
      using 1(1,2) by simp
    moreover from this obtain k where "hex_len (m div 16) = Suc k" by (cases "hex_len (m div 16)") auto
    ultimately show ?thesis
      using 1(2) by (auto simp: hex_len.simps [of m] div_less_iff_less_mult less_eq_div_iff_mult_less_eq)
  qed
qed

lemma hexdigits_eq: "x \<noteq> 0 \<Longrightarrow> hexdigits x = hex_len (unat x)"
  using hexdigits_loop_bounds [of x 0] hex_len_unique by (auto simp: hexdigits_def)

lemma hexdigits_pair:
  assumes "\<not> (mh = 0 \<and> ml = 0)"
  shows "(if mh \<noteq> 0 then 8 + hexdigits mh else hexdigits ml) = hex_len (unat (dw_pair (mh, ml)))"
proof (cases "mh = 0")
  case False
  then have "0 < unat mh" by (simp add: unat_gt_0)
  from hex_len_bounds [OF this] obtain k where k: "hex_len (unat mh) = Suc k" "16 ^ k \<le> unat mh" "unat mh < 16 ^ Suc k"
    by (cases "hex_len (unat mh)") auto
  have "hex_len (unat mh * 2 ^ 32 + unat ml) = Suc (8 + k)"
  proof (rule hex_len_unique)
    show "16 ^ (8 + k) \<le> unat mh * 2 ^ 32 + unat ml" using k(2) by (simp add: power_add)
    have "Suc (unat mh) * 2 ^ 32 \<le> 16 ^ Suc k * 2 ^ 32" using k(3) by (intro mult_le_mono1) simp
    then show "unat mh * 2 ^ 32 + unat ml < 16 ^ Suc (8 + k)"
      using unat_lt_u32 [of ml] by (simp add: power_add)
  qed
  then show ?thesis using False k(1) by (simp add: dw_pair_nat hexdigits_eq)
qed (use assms in \<open>simp add: dw_pair_nat hexdigits_eq\<close>)

text \<open>Rounding a magnitude to \<open>digits\<close> hexadecimal digits, half up, as LRER does.\<close>

definition hfp_round :: "nat \<Rightarrow> nat \<Rightarrow> nat" where
  "hfp_round digits m = (let n = hex_len m in
     if n \<le> digits then m
     else let d = n - digits in (m + 16 ^ d div 2) div 16 ^ d * 16 ^ d)"

text \<open>The packed result word: sign, characteristic and the top of the fraction.\<close>

lemma hfp_pack:
  fixes sign m :: u32
  assumes "sign = (if neg then 0x80000000 else 0)" "e < 128" "unat m < 2 ^ 24"
  defines "w \<equiv> sign OR push_bit 24 (of_nat e) OR m"
  shows "hfp_neg w = neg" "hfp_exp w = e" "unat w mod 2 ^ 24 = unat m"
proof -
  have em: "unat (push_bit 24 (of_nat e) OR m) = e * 2 ^ 24 + unat m"
    using assms(2,3) by (subst unat_push_or_low) (simp_all add: unat_of_nat)
  have "e * 2 ^ 24 + unat m < 2 ^ 31" using assms(2,3) by simp
  moreover have "sign = push_bit 31 (if neg then 1 else 0)" using assms(1) by simp
  ultimately have w: "unat w = (if neg then 2 ^ 31 else 0) + (e * 2 ^ 24 + unat m)"
    unfolding w_def by (simp add: unat_push_or_low em)
  then have w2: "unat w = ((if neg then 128 else 0) + e) * 2 ^ 24 + unat m" by simp
  have "unat w div 2 ^ 31 = (if neg then 1 else 0)"
    using w \<open>e * 2 ^ 24 + unat m < 2 ^ 31\<close> by (simp add: div_add_self1)
  then show "hfp_neg w = neg" by (simp add: hfp_neg_def bit_iff_unat)
  have "unat w div 2 ^ 24 = (if neg then 128 else 0) + e"
    unfolding w2 using assms(3) by simp
  then show "hfp_exp w = e" using assms(2) by (simp add: hfp_exp_def)
  show "unat w mod 2 ^ 24 = unat m"
    unfolding w2 using assms(3) by (simp only: mod_mult_self3 mod_less)
qed

text \<open>
  The fraction and exponent the conversion works out: \<open>f\<close> with at most \<open>digits\<close> digits and
  \<open>n\<close> such that \<open>f * 16 ^ (n - digits)\<close> is the rounded magnitude.
\<close>

definition hfp_scaled :: "nat \<Rightarrow> nat \<Rightarrow> nat \<times> nat" where
  "hfp_scaled digits m = (let n = hex_len m in
     if n \<le> digits then (m * 16 ^ (digits - n), n)
     else let d = n - digits; r = (m + 16 ^ d div 2) div 16 ^ d
          in if r < 16 ^ digits then (r, n) else (r div 16, n + 1))"

lemma hfp_scaled_value:
  assumes "hfp_scaled digits m = (f, n)" "0 < m" "0 < digits"
  shows "f < 16 ^ digits"
    and "(if n \<ge> digits then f * 16 ^ (n - digits) else f div 16 ^ (digits - n)) = hfp_round digits m"
    and "n \<le> Suc (hex_len m)"
proof -
  define k where "k = hex_len m"
  have m: "m < 16 ^ k" using hex_len_bounds [OF assms(2)] by (simp add: k_def)
  have "f < 16 ^ digits \<and> (if n \<ge> digits then f * 16 ^ (n - digits) else f div 16 ^ (digits - n)) = hfp_round digits m
    \<and> n \<le> Suc k"
  proof (cases "k \<le> digits")
    case True
    have "m * 16 ^ (digits - k) < 16 ^ k * 16 ^ (digits - k)" using m by simp
    also have "\<dots> = 16 ^ digits" using True by (simp flip: power_add)
    finally show ?thesis
      using True assms(1) by (auto simp: hfp_scaled_def hfp_round_def Let_def k_def [symmetric])
  next
    case False
    define d r where "d = k - digits" and "r = (m + 16 ^ d div 2) div 16 ^ d"
    have "m + 16 ^ d div 2 < 16 ^ k + 16 ^ d" using m by (intro add_less_le_mono) simp_all
    also have "\<dots> = (16 ^ digits + 1) * 16 ^ d"
      using False by (simp add: d_def algebra_simps flip: power_add)
    finally have "r < 16 ^ digits + 1" unfolding r_def by (rule less_mult_imp_div_less)
    then have r: "r < 16 ^ digits \<or> r = 16 ^ digits" by linarith
    have fn: "(if r < 16 ^ digits then (r, k) else (r div 16, k + 1)) = (f, n)"
      and round: "hfp_round digits m = r * 16 ^ d"
      using False assms(1) unfolding hfp_scaled_def hfp_round_def Let_def k_def [symmetric] d_def r_def
      by simp_all
    obtain q where q: "digits = Suc q" using assms(3) by (cases digits) auto
    from r show ?thesis
    proof
      assume "r < 16 ^ digits"
      then show ?thesis using fn round False by (simp add: d_def)
    next
      assume "r = 16 ^ digits"
      then have "f = 16 ^ q" "n = k + 1" using fn by (simp_all add: q)
      then show ?thesis
        using False round \<open>r = 16 ^ digits\<close> by (simp add: q d_def Suc_diff_le flip: power_add power_Suc)
    qed
  qed
  then show "f < 16 ^ digits"
    and "(if n \<ge> digits then f * 16 ^ (n - digits) else f div 16 ^ (digits - n)) = hfp_round digits m"
    and "n \<le> Suc (hex_len m)"
    by (simp_all add: k_def)
qed

lemma hfp_int_pack14:
  assumes "hfp_exp h = 64 + n" "hfp_frac h l = f"
  shows "hfp_int h l = (if n \<ge> 14 then f * 16 ^ (n - 14) else f div 16 ^ (14 - n))"
  using assms by (simp add: hfp_int_def)

lemma hfp_int_pack6:
  assumes "hfp_exp h = 64 + n" "hfp_frac h l = f * 2 ^ 32"
  shows "hfp_int h l = (if n \<ge> 6 then f * 16 ^ (n - 6) else f div 16 ^ (6 - n))"
proof -
  have p: "(2 :: nat) ^ 32 = 16 ^ 8" by simp
  consider "n \<ge> 14" | "6 \<le> n" "n < 14" | "n < 6" by linarith
  then show ?thesis
  proof cases
    case 1
    then have "(16 :: nat) ^ (n - 6) = 16 ^ (n - 14) * 16 ^ 8" using pow_split [of 8 "n - 6" 16] by simp
    then show ?thesis using 1 assms by (simp add: hfp_int_def)
  next
    case 2
    then have e: "(16 :: nat) ^ 8 = 16 ^ (n - 6) * 16 ^ (14 - n)" by (simp flip: power_add)
    have "hfp_int h l = f * 16 ^ 8 div 16 ^ (14 - n)"
      using 2 assms by (simp add: hfp_int_def)
    also have "\<dots> = f * 16 ^ (n - 6)" unfolding e by (simp add: mult.assoc [symmetric])
    finally show ?thesis using 2 by simp
  next
    case 3
    then have e: "(16 :: nat) ^ (14 - n) = 16 ^ (6 - n) * 16 ^ 8" using pow_split [of 8 "14 - n" 16] by simp
    have "hfp_int h l = f * 16 ^ 8 div 16 ^ (14 - n)"
      using 3 assms by (simp add: hfp_int_def)
    also have "\<dots> = f div 16 ^ (6 - n)" unfolding e by (rule div_mult_mult2) simp
    finally show ?thesis using 3 by simp
  qed
qed

lemma round_half:
  assumes "1 \<le> d" "unat (dw_pair (mh, ml)) + 2 ^ (4 * d - 1) < 2 ^ 64"
    and "(if 4 * d - 1 \<ge> 32 then (mh + push_bit (4 * d - 1 - 32) 1, ml)
          else let half = push_bit (4 * d - 1) 1; ml = ml + half
               in (mh + (if ml < half then 1 else 0), ml)) = (rh, rl)"
  shows "unat (dw_pair (rh, rl)) = unat (dw_pair (mh, ml)) + 2 ^ (4 * d - 1)"
proof -
  define k where "k = 4 * d - 1"
  define y where "y = (if k \<ge> 32 then \<lparr>hi = push_bit (k - 32) 1, lo = 0\<rparr> else \<lparr>hi = 0, lo = push_bit k 1\<rparr>)"
  have k: "k < 64"
  proof (rule ccontr)
    assume "\<not> k < 64"
    then have "(2 :: nat) ^ 64 \<le> 2 ^ k" by (intro power_increasing) simp_all
    then show False using assms(2) unfolding k_def by linarith
  qed
  have two_pow: "unat (2 ^ j :: u32) = 2 ^ j mod 2 ^ 32" for j
    using unat_push_bit [of j "1 :: u32"] by simp
  have y: "dw_nat y = 2 ^ k"
  proof (cases "k \<ge> 32")
    case True
    then have "(2 :: nat) ^ (k - 32) < 2 ^ 32" using k by (intro power_strict_increasing) simp_all
    moreover have "(2 :: nat) ^ k = 2 ^ (k - 32) * 2 ^ 32" by (rule pow_split [OF True])
    ultimately show ?thesis using True by (simp add: y_def dw_nat_def two_pow)
  next
    case False
    then have "(2 :: nat) ^ k < 2 ^ 32" by (intro power_strict_increasing) simp_all
    then show ?thesis using False by (simp add: y_def dw_nat_def two_pow)
  qed
  have "dw_pair (rh, rl) = dw_u y + dw_pair (mh, ml)"
  proof (cases "k \<ge> 32")
    case True
    then have "rh = mh + push_bit (k - 32) 1" "rl = ml"
      using assms(3) unfolding k_def [symmetric] by auto
    then show ?thesis
      using True dw_add [of y "\<lparr>hi = mh, lo = ml\<rparr>"]
      by (simp add: y_def dw_pair_def add.commute [of mh])
  next
    case False
    then have "rh = mh + (if ml + push_bit k 1 < push_bit k 1 then 1 else 0)" "rl = ml + push_bit k 1"
      using assms(3) unfolding k_def [symmetric] by (auto simp: Let_def)
    then show ?thesis
      using False dw_add [of y "\<lparr>hi = mh, lo = ml\<rparr>"]
      by (simp add: y_def dw_pair_def add.commute [of ml])
  qed
  then have "unat (dw_pair (rh, rl)) = (2 ^ k + unat (dw_pair (mh, ml))) mod 2 ^ 64"
    by (simp add: unat_word_ariths(1) unat_dw_u y)
  then show ?thesis
    using assms(2) unfolding k_def [symmetric] by (simp add: add.commute [of "2 ^ k"])
qed

lemma high_byte_iff: "m AND 0xFF000000 \<noteq> 0 \<longleftrightarrow> 2 ^ 24 \<le> unat m" for m :: u32
proof -
  have "(0xFF000000 :: u32) = NOT (mask 24)" by (simp add: mask_eq_exp_minus_1)
  then show ?thesis using top_mask_0_iff [of m 24] by (simp only: not_less [symmetric])
qed

text \<open>The two halves of the conversion: sign and magnitude, then scale and round.\<close>

definition hfp_scale_words :: "u32 \<Rightarrow> u32 \<Rightarrow> nat \<Rightarrow> u32 \<times> u32 \<times> nat" where
  "hfp_scale_words mh ml digits =
    (let n = (if mh \<noteq> 0 then 8 + hexdigits mh else hexdigits ml) in
     if n \<le> digits then let (mh, ml) = shl64 mh ml (4 * (digits - n)) in (mh, ml, n)
     else
       let d = n - digits;
           (mh, ml) =
             (if 4 * d - 1 \<ge> 32 then (mh + push_bit (4 * d - 1 - 32) 1, ml)
              else let half = push_bit (4 * d - 1) 1; ml = ml + half
                   in (mh + (if ml < half then 1 else 0), ml));
           (mh, ml) = shr64 mh ml (4 * d)
       in if (if digits = 14 then mh AND 0xFF000000 \<noteq> 0 else ml AND 0xFF000000 \<noteq> 0)
          then let (mh, ml) = shr64 mh ml 4 in (mh, ml, n + 1)
          else (mh, ml, n))"

lemma hfp_float_split:
  "hfp_float x digits = (let v = mag (dw_of x); sign = (if neg_bit (dw_of x) then 0x80000000 else 0) in
     if hi v = 0 \<and> lo v = 0 then (0, 0)
     else let (mh, ml, n) = hfp_scale_words (hi v) (lo v) digits in
       if digits = 14 then (sign OR push_bit 24 (of_nat (64 + n)) OR mh, ml)
       else (sign OR push_bit 24 (of_nat (64 + n)) OR ml, 0))"
proof -
  have "(if hi (dw_of x) AND 0x80000000 \<noteq> 0
      then let ml = NOT (lo (dw_of x)) + 1
           in (0x80000000, NOT (hi (dw_of x)) + (if ml = 0 then 1 else 0), ml)
      else (0 :: u32, hi (dw_of x), lo (dw_of x)))
    = (if neg_bit (dw_of x) then 0x80000000 else 0, hi (mag (dw_of x)), lo (mag (dw_of x)))"
    by (simp add: mag_def neg_bit_def negate_def Let_def)
  then show ?thesis
    unfolding hfp_float_def hfp_scale_words_def by (simp only: Let_def prod.case)
qed

lemma hfp_scale_words_value:
  assumes "digits = 6 \<or> digits = 14" "\<not> (mh = 0 \<and> ml = 0)" "unat (dw_pair (mh, ml)) \<le> 2 ^ 63"
    and "hfp_scale_words mh ml digits = (rh, rl, n)"
  shows "hfp_scaled digits (unat (dw_pair (mh, ml))) = (unat (dw_pair (rh, rl)), n)"
proof -
  define m k where "m = unat (dw_pair (mh, ml))" and "k = hex_len m"
  have len: "(if mh \<noteq> 0 then 8 + hexdigits mh else hexdigits ml) = k"
    unfolding k_def m_def by (rule hexdigits_pair [OF assms(2)])
  have "0 < m" using assms(2) by (auto simp: m_def dw_pair_nat unat_gt_0)
  note bounds = hex_len_bounds [OF this, folded k_def]
  have "16 ^ (k - 1) < (16 :: nat) ^ 16" using bounds assms(3) by (simp add: m_def)
  then have "k - 1 < 16" by (rule power_less_imp_less_exp [rotated]) simp
  then have k16: "k \<le> 16" by simp
  show ?thesis
  proof (cases "k \<le> digits")
    case True
    then have eq: "shl64 mh ml (4 * (digits - k)) = (rh, rl)" "n = k"
      using assms(4) unfolding hfp_scale_words_def Let_def len by (simp_all split: prod.splits)
    have "m * 16 ^ (digits - k) < 16 ^ k * 16 ^ (digits - k)" using bounds by simp
    also have "\<dots> = 16 ^ digits" using True by (simp flip: power_add)
    also have "\<dots> \<le> 16 ^ 14" using assms(1) by (intro power_increasing) auto
    finally have "m * 16 ^ (digits - k) < 2 ^ 64" by simp
    then have "unat (dw_pair (rh, rl)) = m * 16 ^ (digits - k)"
      using shl64_push [of mh ml "4 * (digits - k)"]
      by (simp add: eq unat_push_bit m_def power_mult)
    then show ?thesis using True eq(2) by (simp add: hfp_scaled_def Let_def m_def k_def)
  next
    case False
    define d where "d = k - digits"
    have d: "1 \<le> d" "d \<le> 10" using False k16 assms(1) by (auto simp: d_def)
    have half: "16 ^ d div 2 = (2 :: nat) ^ (4 * d - 1)"
    proof -
      have "(16 :: nat) ^ d = 2 ^ (4 * d - 1) * 2 ^ 1"
        using d pow_split [of 1 "4 * d" 2] by (simp add: power_mult)
      then show ?thesis by simp
    qed
    have "(2 :: nat) ^ (4 * d - 1) \<le> 2 ^ 39" using d by (intro power_increasing) auto
    then have room: "m + 2 ^ (4 * d - 1) < 2 ^ 64" using assms(3) by (simp add: m_def)
    obtain ah al where a: "(if 4 * d - 1 \<ge> 32 then (mh + push_bit (4 * d - 1 - 32) 1, ml)
              else let half = push_bit (4 * d - 1) 1; ml = ml + half
                   in (mh + (if ml < half then 1 else 0), ml)) = (ah, al)" by fastforce
    obtain bh bl where b: "shr64 ah al (4 * d) = (bh, bl)" by fastforce
    define r where "r = (m + 16 ^ d div 2) div 16 ^ d"
    have br: "unat (dw_pair (bh, bl)) = r"
      using shr64_drop [of ah al "4 * d"] round_half [OF d(1) room [unfolded m_def] a]
      by (simp add: b unat_drop_bit r_def half m_def power_mult)
    have res: "(rh, rl, n) = (if (if digits = 14 then bh AND 0xFF000000 \<noteq> 0 else bl AND 0xFF000000 \<noteq> 0)
          then let (mh, ml) = shr64 bh bl 4 in (mh, ml, k + 1) else (bh, bl, k))"
      using assms(4) False a b unfolding hfp_scale_words_def Let_def len d_def by simp
    have carry: "(if digits = 14 then bh AND 0xFF000000 \<noteq> 0 else bl AND 0xFF000000 \<noteq> 0) \<longleftrightarrow> \<not> r < 16 ^ digits"
    proof -
      have "m + 16 ^ d div 2 < 16 ^ k + 16 ^ d" using bounds by (intro add_less_le_mono) simp_all
      also have "\<dots> = (16 ^ digits + 1) * 16 ^ d"
        using False by (simp add: d_def algebra_simps flip: power_add)
      finally have "r < 16 ^ digits + 1" unfolding r_def by (rule less_mult_imp_div_less)
      moreover have "r = unat bh * 2 ^ 32 + unat bl" using br by (simp add: dw_pair_nat)
      moreover from this have "unat bh = 0" if "digits = 6" using that \<open>r < 16 ^ digits + 1\<close> by (cases "unat bh") simp_all
      ultimately show ?thesis
        using assms(1) unat_lt_u32 [of bl] by (auto simp: high_byte_iff)
    qed
    have sc: "hfp_scaled digits m = (if r < 16 ^ digits then (r, k) else (r div 16, k + 1))"
      using False unfolding hfp_scaled_def Let_def k_def [symmetric] d_def r_def by simp
    show ?thesis
    proof (cases "r < 16 ^ digits")
      case True
      then have "rh = bh \<and> rl = bl \<and> n = k" using res carry by simp
      then show ?thesis using True br sc by (simp add: m_def)
    next
      case no: False
      obtain eh el where e: "shr64 bh bl 4 = (eh, el)" by fastforce
      then have "rh = eh \<and> rl = el \<and> n = k + 1" using res carry no by simp
      moreover have "unat (dw_pair (eh, el)) = r div 16"
        using shr64_drop [of bh bl 4] by (simp add: e unat_drop_bit br)
      ultimately show ?thesis using no sc by (simp add: m_def)
    qed
  qed
qed

text \<open>
  Reading the converted value back: its sign is the operand's, its integer part the operand's
  magnitude rounded to the format's digits.
\<close>

lemma hfp_float_value:
  assumes "digits = 6 \<or> digits = 14" "hfp_float x digits = (h, l)"
  shows "hfp_int h l = hfp_round digits (nat \<bar>sint x\<bar>)"
    and "x \<noteq> 0 \<Longrightarrow> hfp_neg h \<longleftrightarrow> sint x < 0"
proof -
  define v where "v = mag (dw_of x)"
  have M: "dw_nat v = nat \<bar>sint x\<bar>" using dw_nat_mag [of "dw_of x"] by (simp add: v_def)
  have Mp: "unat (dw_pair (hi v, lo v)) = dw_nat v" by (simp add: dw_pair_nat dw_nat_def)
  have neg: "neg_bit (dw_of x) \<longleftrightarrow> sint x < 0" by (simp add: neg_bit_iff)
  have zero: "hi v = 0 \<and> lo v = 0 \<longleftrightarrow> x = 0"
  proof -
    have "dw_nat v = 0 \<longleftrightarrow> x = 0" by (simp add: M signed_eq_0_iff)
    then show ?thesis by (simp add: dw_nat_def unat_eq_0)
  qed
  have "hfp_int h l = hfp_round digits (nat \<bar>sint x\<bar>) \<and> (x \<noteq> 0 \<longrightarrow> hfp_neg h = (sint x < 0))"
  proof (cases "x = 0")
    case True
    then have "hi v = 0" "lo v = 0" using zero by auto
    then have "h = 0" "l = 0" using assms(2) by (auto simp: hfp_float_split v_def [symmetric])
    then show ?thesis
      using True by (simp add: hfp_int_def hfp_frac_def hfp_exp_def hfp_round_def hex_len.simps)
  next
    case False
    obtain mh ml n where w: "hfp_scale_words (hi v) (lo v) digits = (mh, ml, n)" by (metis prod_cases3)
    have "dw_nat v \<le> 2 ^ 63"
      using M sint_ge [of x] sint_lt [of x] by simp
    then have sc: "hfp_scaled digits (nat \<bar>sint x\<bar>) = (unat (dw_pair (mh, ml)), n)"
      using hfp_scale_words_value [OF assms(1) _ _ w] False zero by (simp add: Mp M)
    have pos: "0 < nat \<bar>sint x\<bar>" using False by (simp add: signed_eq_0_iff)
    have "nat \<bar>sint x\<bar> < 16 ^ 16" using \<open>dw_nat v \<le> 2 ^ 63\<close> M by simp
    then have "16 ^ (hex_len (nat \<bar>sint x\<bar>) - 1) < (16 :: nat) ^ 16"
      using hex_len_bounds [OF pos] by linarith
    then have "hex_len (nat \<bar>sint x\<bar>) - 1 < 16" by (rule power_less_imp_less_exp [rotated]) simp
    moreover have "0 < digits" using assms(1) by auto
    note val = hfp_scaled_value [OF sc pos this]
    ultimately have e: "64 + n < 128" using val(3) by linarith
    from assms(1) show ?thesis
    proof
      assume d: "digits = 6"
      have "unat mh * 2 ^ 32 + unat ml < 2 ^ 24" using val(1) by (simp add: dw_pair_nat d)
      then have small: "unat mh = 0" "unat ml < 2 ^ 24" by simp_all
      then have f: "unat (dw_pair (mh, ml)) = unat ml" by (simp add: dw_pair_nat)
      have hl: "h = (if sint x < 0 then 0x80000000 else 0) OR push_bit 24 (of_nat (64 + n)) OR ml" "l = 0"
        using assms(2) False zero w neg d by (auto simp: hfp_float_split v_def [symmetric] Let_def)
      note pack = hfp_pack [OF refl e small(2), of "sint x < 0", folded hl(1)]
      have "hfp_frac h l = unat ml * 2 ^ 32" by (simp only: hfp_frac_def pack(3) hl(2)) simp
      from hfp_int_pack6 [OF pack(2) this] show ?thesis using val(2) [unfolded d f] pack(1) by (simp add: d)
    next
      assume d: "digits = 14"
      have "unat mh * 2 ^ 32 + unat ml < 2 ^ 56" using val(1) by (simp add: dw_pair_nat d)
      then have small: "unat mh < 2 ^ 24" by simp
      have hl: "h = (if sint x < 0 then 0x80000000 else 0) OR push_bit 24 (of_nat (64 + n)) OR mh" "l = ml"
        using assms(2) False zero w neg d by (auto simp: hfp_float_split v_def [symmetric] Let_def)
      note pack = hfp_pack [OF refl e small, of "sint x < 0", folded hl(1)]
      have "hfp_frac h l = unat (dw_pair (mh, ml))" by (simp only: hfp_frac_def pack(3) hl(2) dw_pair_nat)
      from hfp_int_pack14 [OF pack(2) this] show ?thesis using val(2) [unfolded d] pack(1) by (simp add: d)
    qed
  qed
  then show "hfp_int h l = hfp_round digits (nat \<bar>sint x\<bar>)"
    and "x \<noteq> 0 \<Longrightarrow> hfp_neg h \<longleftrightarrow> sint x < 0" by simp_all
qed

lemma fix_float_value:
  assumes "digits = 6 \<or> digits = 14" "hfp_float x digits = (h, l)"
  shows "dw_u (hfp_fix h l) = word_of_int (sgn (sint x) * int (hfp_round digits (nat \<bar>sint x\<bar>)))"
proof (cases "x = 0")
  case True
  then show ?thesis
    using hfp_fix_value [of h l] hfp_float_value(1) [OF assms] by (simp add: hfp_round_def hex_len.simps)
next
  case False
  then have "sint x \<noteq> 0" by (simp add: signed_eq_0_iff)
  then show ?thesis
    using hfp_fix_value [of h l] hfp_float_value(1) [OF assms] hfp_float_value(2) [OF assms False]
    by (auto simp: sgn_if)
qed

lemma hfp_round_exact: "m < 16 ^ digits \<Longrightarrow> hfp_round digits m = m"
proof (cases "m = 0")
  case False
  assume m: "m < 16 ^ digits"
  have "16 ^ (hex_len m - 1) < (16 :: nat) ^ digits" using hex_len_bounds [of m] False m le_less_trans by blast
  then have "hex_len m - 1 < digits" by (rule power_less_imp_less_exp [rotated]) simp
  then have "hex_len m \<le> digits" by simp
  then show ?thesis by (simp add: hfp_round_def)
qed (simp add: hfp_round_def hex_len.simps)

lemma float_fix_exact:
  assumes "digits = 6 \<or> digits = 14" "\<bar>sint x\<bar> < 16 ^ digits" "hfp_float x digits = (h, l)"
  shows "dw_u (hfp_fix h l) = x"
proof -
  have "nat \<bar>sint x\<bar> < 16 ^ digits"
    using assms(2) by (simp add: nat_less_iff)
  then have "int (hfp_round digits (nat \<bar>sint x\<bar>)) = \<bar>sint x\<bar>" by (simp add: hfp_round_exact)
  then show ?thesis using fix_float_value [OF assms(1,3)] by (simp add: sgn_mult_abs)
qed

subsection \<open>Properties\<close>

text \<open>
  C40. The four conversions to \<^verbatim>\<open>long long\<close> give the integer part of the HFP operand, truncated
  toward zero and reduced modulo \<open>2 ^ 64\<close>; signed and unsigned forms give the same bits, and a
  float converts like the double with the same leading word.
\<close>

theorem hfp_fix_truncates:
  "fixdfdi (h, l) = word_of_int ((if hfp_neg h then - 1 else 1) * int (hfp_int h l))
   \<and> fxundf (h, l) = fixdfdi (h, l) \<and> fixsfdi h = fixdfdi (h, 0) \<and> fxunsf h = fixdfdi (h, 0)"
  using hfp_fix_value [of h l]
  by (simp add: fixdfdi_def fxundf_def fixsfdi_def fxunsf_def)

text \<open>
  Converting a \<^verbatim>\<open>long long\<close> to double or float and back gives the operand with its magnitude
  rounded, half up, to 14 or 6 hexadecimal digits: the rounding carry into a new digit and
  \<^verbatim>\<open>LLONG_MIN\<close> included.
\<close>

theorem float_then_fix_rounds:
  "fixdfdi (fltddf x) = word_of_int (sgn (sint x) * int (hfp_round 14 (nat \<bar>sint x\<bar>)))
   \<and> fixsfdi (fltdsf x) = word_of_int (sgn (sint x) * int (hfp_round 6 (nat \<bar>sint x\<bar>)))"
proof
  obtain h l where hl: "hfp_float x 14 = (h, l)" by fastforce
  show "fixdfdi (fltddf x) = word_of_int (sgn (sint x) * int (hfp_round 14 (nat \<bar>sint x\<bar>)))"
    using fix_float_value [OF _ hl] by (simp add: fixdfdi_def fltddf_def hl)
  obtain f z where fz: "hfp_float x 6 = (f, z)" by fastforce
  then have "z = 0" by (auto simp: hfp_float_split Let_def split: if_splits prod.splits)
  then show "fixsfdi (fltdsf x) = word_of_int (sgn (sint x) * int (hfp_round 6 (nat \<bar>sint x\<bar>)))"
    using fix_float_value [OF _ fz] by (simp add: fixsfdi_def fltdsf_def fz)
qed

text \<open>
  The round trip through a double is exact for every \<^verbatim>\<open>long long\<close> of at most 56 bits.
\<close>

theorem float_fix_roundtrip:
  "\<bar>sint x\<bar> < 2 ^ 56 \<Longrightarrow> fixdfdi (fltddf x) = x"
  using float_fix_exact [of 14 x] by (cases "hfp_float x 14") (simp add: fixdfdi_def fltddf_def)

theorem float_fix_roundtrip_witness:
  "fixdfdi (fltddf 0xFFFFFFFFFFFFFFFE) = 0xFFFFFFFFFFFFFFFE"
  by (rule float_fix_roundtrip) (simp add: sint_u64)

end
