(* ===== verification/Mvs_Bytes.thy ===== *)
theory Mvs_Bytes
  imports Prelude370
begin

section \<open>Byte buffers and big-endian fields\<close>

text \<open>
  The field access of \<^verbatim>\<open>common/src/mvs370.c\<close>: \<^verbatim>\<open>mvs_be16/24/32\<close>, \<^verbatim>\<open>mvs_put16/24/32\<close>, \<^verbatim>\<open>mvs_rdval\<close>
  and \<^verbatim>\<open>mvs_wrval\<close>, and the CKD count field. A pointer into a buffer is the buffer and an
  offset; what a writer stores is the list of bytes it stores. Values read are unsigned and are
  natural numbers; a value to be written may be any C integer, of which the low bytes are kept.
  The locale \<open>field_codec\<close> is the contract every field has: fixed width, and the value read at
  the offset it was written at is the value modulo the field's range.
\<close>

definition byte_at :: "bytes \<Rightarrow> nat \<Rightarrow> byte" where
  "byte_at b i = (if i < length b then b ! i else 0)"

definition write_at :: "bytes \<Rightarrow> nat \<Rightarrow> bytes \<Rightarrow> bytes" where
  "write_at b i v = take i b @ v @ drop (i + length v) b"

definition mvs_be16 :: "bytes \<Rightarrow> nat \<Rightarrow> nat" where
  "mvs_be16 b p = (push_bit 8 (unat (byte_at b p))) OR unat (byte_at b (p + 1))"

definition mvs_be24 :: "bytes \<Rightarrow> nat \<Rightarrow> nat" where
  "mvs_be24 b p = push_bit 16 (unat (byte_at b p)) OR push_bit 8 (unat (byte_at b (p + 1)))
     OR unat (byte_at b (p + 2))"

definition mvs_be32 :: "bytes \<Rightarrow> nat \<Rightarrow> nat" where
  "mvs_be32 b p = push_bit 24 (unat (byte_at b p)) OR push_bit 16 (unat (byte_at b (p + 1)))
     OR push_bit 8 (unat (byte_at b (p + 2))) OR unat (byte_at b (p + 3))"

definition mvs_put16 :: "int \<Rightarrow> bytes" where
  "mvs_put16 v = [word_of_int (drop_bit 8 v), word_of_int v]"

definition mvs_put24 :: "int \<Rightarrow> bytes" where
  "mvs_put24 v = [word_of_int (drop_bit 16 v), word_of_int (drop_bit 8 v), word_of_int v]"

definition mvs_put32 :: "int \<Rightarrow> bytes" where
  "mvs_put32 v = [word_of_int (drop_bit 24 v), word_of_int (drop_bit 16 v),
     word_of_int (drop_bit 8 v), word_of_int v]"

text \<open>\<^verbatim>\<open>mvs_rdval\<close> accumulates in a 64-bit \<^verbatim>\<open>long\<close>; \<^verbatim>\<open>mvs_wrval\<close> fills from the last byte.\<close>

definition mvs_rdval :: "bytes \<Rightarrow> nat \<Rightarrow> nat \<Rightarrow> u64" where
  "mvs_rdval b p n = fold (\<lambda>i v. push_bit 8 v OR ucast (byte_at b (p + i))) [0..<n] 0"

fun mvs_wrval :: "int \<Rightarrow> nat \<Rightarrow> bytes" where
  "mvs_wrval v 0 = []"
| "mvs_wrval v (Suc n) = mvs_wrval (drop_bit 8 v) n @ [word_of_int v]"

subsection \<open>Reading parts of a buffer\<close>

lemma byte_at_append:
  "byte_at (xs @ ys) i = (if i < length xs then byte_at xs i else byte_at ys (i - length xs))"
  by (auto simp: byte_at_def nth_append)

lemma byte_at_left [simp]: "i < length xs \<Longrightarrow> byte_at (xs @ ys) i = byte_at xs i"
  by (simp add: byte_at_append)

lemma byte_at_right [simp]: "byte_at (xs @ ys) (length xs + i) = byte_at ys i"
  by (simp add: byte_at_append)

lemma byte_at_right_Suc [simp]:
  "byte_at (xs @ ys) (Suc (length xs + i)) = byte_at ys (Suc i)"
  "byte_at (xs @ ys) (Suc (Suc (length xs + i))) = byte_at ys (Suc (Suc i))"
  by (simp_all add: byte_at_append)

lemma byte_at_Cons: "byte_at (x # xs) i = (case i of 0 \<Rightarrow> x | Suc j \<Rightarrow> byte_at xs j)"
  by (auto simp: byte_at_def split: nat.splits)

lemma byte_at_Cons_simps [simp]:
  "byte_at (x # xs) 0 = x" "byte_at (x # xs) (Suc j) = byte_at xs j"
  by (simp_all add: byte_at_def)

lemma byte_at_numeral [simp]: "byte_at (x # xs) (numeral n) = byte_at xs (pred_numeral n)"
  by (simp add: byte_at_Cons numeral_eq_Suc)

lemma byte_at_drop: "byte_at (drop n b) i = byte_at b (n + i)"
  by (auto simp: byte_at_def)

lemma byte_at_nth: "i < length b \<Longrightarrow> byte_at b i = b ! i"
  by (simp add: byte_at_def)

lemma byte_at_write:
  "p + length v \<le> length b \<Longrightarrow> byte_at (write_at b p v) i = (if p \<le> i \<and> i < p + length v then v ! (i - p) else byte_at b i)"
  by (auto simp: byte_at_def write_at_def nth_append)

lemma byte_at_take: "i < n \<Longrightarrow> byte_at (take n b) i = byte_at b i"
  by (auto simp: byte_at_def)

lemma write_at_length [simp]: "p + length v \<le> length b \<Longrightarrow> length (write_at b p v) = length b"
  by (simp add: write_at_def)

lemma write_at_next:
  "p + length v + length w \<le> length b \<Longrightarrow> write_at (write_at b p v) (p + length v) w = write_at b p (v @ w)"
  by (simp add: write_at_def ac_simps)

lemma write_at_get: "p \<le> length b \<Longrightarrow> take (length v) (drop p (write_at b p v)) = v"
  by (simp add: write_at_def)

lemma write_at_inside:
  "p + length a + length v + length z \<le> length b \<Longrightarrow> length v = length w
   \<Longrightarrow> write_at (write_at b p (a @ v @ z)) (p + length a) w = write_at b p (a @ w @ z)"
  by (simp add: write_at_def)

subsection \<open>Fields as numbers\<close>

lemma nat_or_low: "y < 2 ^ n \<Longrightarrow> push_bit n x OR y = x * 2 ^ n + y" for x y :: nat
proof -
  assume y: "y < 2 ^ n"
  have "push_bit n x AND y = 0"
  proof (rule bit_eqI)
    fix k
    have "take_bit n y = y" using y by (simp add: take_bit_eq_mod)
    then have "bit y k \<Longrightarrow> k < n" by (metis bit_take_bit_iff)
    then show "bit (push_bit n x AND y) k \<longleftrightarrow> bit (0 :: nat) k"
      by (auto simp: bit_and_iff bit_push_bit_iff)
  qed
  then have "push_bit n x + y = push_bit n x OR y" by (rule disjunctive_add_eq_or)
  then show ?thesis by (simp add: push_bit_eq_mult)
qed

lemma mvs_be16_sum [be_simps]: "mvs_be16 b p = unat (byte_at b p) * 256 + unat (byte_at b (p + 1))"
  using nat_or_low [of "unat (byte_at b (p + 1))" 8] unat_lt_byte by (simp add: mvs_be16_def)

lemma mvs_be24_sum [be_simps]:
  "mvs_be24 b p = unat (byte_at b p) * 65536 + unat (byte_at b (p + 1)) * 256 + unat (byte_at b (p + 2))"
proof -
  define x y z where "x = unat (byte_at b p)" and "y = unat (byte_at b (p + 1))" and "z = unat (byte_at b (p + 2))"
  have "x < 256" "y < 256" "z < 256" by (simp_all add: x_def y_def z_def unat_lt_byte)
  then have "push_bit 8 y OR z = y * 256 + z" "y * 256 + z < 2 ^ 16"
    using nat_or_low [of z 8 y] by auto
  then have "push_bit 16 x OR push_bit 8 y OR z = x * 65536 + (y * 256 + z)"
    using nat_or_low [of "y * 256 + z" 16 x] by simp
  then show ?thesis by (simp add: mvs_be24_def x_def y_def z_def)
qed

lemma mvs_be32_sum [be_simps]:
  "mvs_be32 b p = unat (byte_at b p) * 16777216 + unat (byte_at b (p + 1)) * 65536
     + unat (byte_at b (p + 2)) * 256 + unat (byte_at b (p + 3))"
proof -
  define w x y z where "w = unat (byte_at b p)" and "x = unat (byte_at b (p + 1))"
    and "y = unat (byte_at b (p + 2))" and "z = unat (byte_at b (p + 3))"
  have "x < 256" "y < 256" "z < 256" by (simp_all add: x_def y_def z_def unat_lt_byte)
  then have "push_bit 8 y OR z = y * 256 + z" "y * 256 + z < 2 ^ 16"
    using nat_or_low [of z 8 y] by auto
  then have "push_bit 16 x OR push_bit 8 y OR z = x * 65536 + (y * 256 + z)"
    "x * 65536 + (y * 256 + z) < 2 ^ 24"
    using nat_or_low [of "y * 256 + z" 16 x] \<open>x < 256\<close> by auto
  then have "push_bit 24 w OR push_bit 16 x OR push_bit 8 y OR z = w * 16777216 + (x * 65536 + (y * 256 + z))"
    using nat_or_low [of "x * 65536 + (y * 256 + z)" 24 w] by simp
  then show ?thesis by (simp add: mvs_be32_def w_def x_def y_def z_def)
qed

text \<open>The readers as they are evaluated: no power of two is written out.\<close>

lemma be_horner [code]:
  "mvs_be24 b p = (unat (byte_at b p) * 256 + unat (byte_at b (p + 1))) * 256 + unat (byte_at b (p + 2))"
  "mvs_be32 b p = ((unat (byte_at b p) * 256 + unat (byte_at b (p + 1))) * 256 + unat (byte_at b (p + 2))) * 256
     + unat (byte_at b (p + 3))"
  by (simp_all add: be_simps algebra_simps)

lemma unat_of_int_byte: "unat (word_of_int v :: byte) = nat (v mod 256)"
  by (simp add: unat_eq_nat_uint uint_word_of_int)

lemma be_lt:
  "mvs_be16 b p < 65536" "mvs_be24 b p < 16777216" "mvs_be32 b p < 4294967296"
proof -
  note lt = unat_lt_byte [of "byte_at b p"] unat_lt_byte [of "byte_at b (p + 1)"]
    unat_lt_byte [of "byte_at b (p + 2)"] unat_lt_byte [of "byte_at b (p + 3)"]
  show "mvs_be16 b p < 65536" "mvs_be24 b p < 16777216" "mvs_be32 b p < 4294967296"
    using lt unfolding mvs_be16_sum mvs_be24_sum mvs_be32_sum by linarith+
qed

subsection \<open>The contract of a field\<close>

locale field_codec =
  fixes put :: "int \<Rightarrow> bytes"
    and get :: "bytes \<Rightarrow> nat \<Rightarrow> nat"
    and width :: nat
  assumes put_length: "length (put v) = width"
    and get_here: "get (put v) 0 = nat (v mod 256 ^ width)"
    and get_local: "p + width \<le> length xs \<Longrightarrow> get (pre @ xs @ suf) (length pre + p) = get xs p"
begin

lemma get_put: "get (pre @ put v @ suf) (length pre) = nat (v mod 256 ^ width)"
  using get_local [of 0 "put v" pre suf] get_here [of v] put_length [of v] by simp

lemma get_put_exact:
  "0 \<le> v \<Longrightarrow> v < 256 ^ width \<Longrightarrow> get (pre @ put v @ suf) (length pre) = nat v"
  by (simp add: get_put)

lemma get_write:
  assumes "p + width \<le> length b"
  shows "get (write_at b p (put v)) p = nat (v mod 256 ^ width)"
  using get_put [of "take p b" v "drop (p + width) b"] assms
  by (simp add: write_at_def put_length)

lemma get_write_other:
  assumes "p + width \<le> length b" "q + width \<le> p \<or> p + width \<le> q" "q + width \<le> length b"
  shows "get (write_at b p (put v)) q = get b q"
proof -
  have split: "b = take p b @ take width (drop p b) @ drop (p + width) b"
    by (metis append_take_drop_id drop_drop add.commute)
  from assms(2) show ?thesis
  proof
    assume q: "q + width \<le> p"
    have "get (write_at b p (put v)) q = get (take p b) q"
      using get_local [of q "take p b" "[]" "put v @ drop (p + width) b"] q assms(1)
      by (simp add: write_at_def put_length)
    moreover have "get b q = get (take p b) q"
      using get_local [of q "take p b" "[]" "drop p b"] q assms(1) by simp
    ultimately show ?thesis by simp
  next
    assume q: "p + width \<le> q"
    then obtain r where r: "q = p + width + r" using le_Suc_ex by blast
    have "get (write_at b p (put v)) q = get (drop (p + width) b) r"
      using get_local [of r "drop (p + width) b" "take p b @ put v" "[]"] assms(1,3) r
      by (simp add: write_at_def put_length min_absorb2)
    moreover have "get b q = get (drop (p + width) b) r"
      using get_local [of r "drop (p + width) b" "take (p + width) b" "[]"] assms(1,3) r
      by (simp add: min_absorb2)
    ultimately show ?thesis by simp
  qed
qed

end

lemma byte_at_inside: "i < length xs \<Longrightarrow> byte_at (pre @ xs @ suf) (length pre + i) = byte_at xs i"
  by simp

text \<open>The bytes of a value, put back together.\<close>

lemma nat_join:
  fixes v :: int
  assumes "0 < m"
  shows "nat (v div int m mod 256) * m + nat (v mod int m) = nat (v mod (int m * 256))"
proof -
  have "nat (v mod (int m * 256)) = nat (int m * (v div int m mod 256) + v mod int m)"
    by (simp only: zmod_zmult2_eq [of 256 v "int m", simplified])
  also have "\<dots> = m * nat (v div int m mod 256) + nat (v mod int m)"
    using assms by (subst nat_add_distrib) (simp_all add: nat_mult_distrib)
  finally show ?thesis by (simp only: mult.commute)
qed

lemma nat_bytes:
  "nat (v div 256 mod 256) * 256 + nat (v mod 256) = nat (v mod 65536)"
  "nat (v div 65536 mod 256) * 65536 + nat (v mod 65536) = nat (v mod 16777216)"
  "nat (v div 16777216 mod 256) * 16777216 + nat (v mod 16777216) = nat (v mod 4294967296)"
  using nat_join [of 256 v, simplified] nat_join [of 65536 v, simplified] nat_join [of 16777216 v, simplified]
  by (simp_all only:)

lemmas put_defs = mvs_put16_def mvs_put24_def mvs_put32_def

interpretation f16: field_codec mvs_put16 mvs_be16 2
  by unfold_locales
    (simp_all add: be_simps put_defs unat_of_int_byte drop_bit_eq_div nat_bytes add.assoc)

interpretation f24: field_codec mvs_put24 mvs_be24 3
  by unfold_locales
    (simp_all add: be_simps put_defs unat_of_int_byte drop_bit_eq_div nat_bytes add.assoc)

interpretation f32: field_codec mvs_put32 mvs_be32 4
  by unfold_locales
    (simp_all add: be_simps put_defs unat_of_int_byte drop_bit_eq_div nat_bytes add.assoc)

lemma put_length [simp]:
  "length (mvs_put16 v) = 2" "length (mvs_put24 v) = 3" "length (mvs_put32 v) = 4"
  by (simp_all add: put_defs)

subsection \<open>Values of variable width\<close>

lemma wrval_length [simp]: "length (mvs_wrval v n) = n"
  by (induction n arbitrary: v) simp_all

lemma rdval_append:
  "p + n \<le> length xs \<Longrightarrow> mvs_rdval (xs @ ys) p n = mvs_rdval xs p n"
  unfolding mvs_rdval_def by (intro fold_cong) auto

lemma rdval_Suc: "mvs_rdval b p (Suc n) = push_bit 8 (mvs_rdval b p n) OR ucast (byte_at b (p + n))"
  by (simp add: mvs_rdval_def)

lemma unat_rdval_wrval: "n \<le> 8 \<Longrightarrow> unat (mvs_rdval (mvs_wrval v n) 0 n) = nat (v mod 256 ^ n)"
proof (induction n arbitrary: v)
  case (Suc n)
  let ?r = "mvs_rdval (mvs_wrval (v div 256) n) 0 n"
  have IH: "unat ?r = nat (v div 256 mod 256 ^ n)" using Suc by simp
  have "mvs_rdval (mvs_wrval v (Suc n)) 0 (Suc n) = push_bit 8 ?r OR ucast (word_of_int v :: byte)"
    by (simp add: rdval_Suc rdval_append drop_bit_eq_div byte_at_append)
  moreover have low: "unat (ucast (word_of_int v :: byte) :: u64) = nat (v mod 256)" "nat (v mod 256) < 256"
    by (simp_all add: unat_ucast unat_of_int_byte nat_less_iff)
  moreover have "nat (v div 256 mod 256 ^ n) * 256 < 2 ^ 64"
  proof -
    have "nat (v div 256 mod 256 ^ n) < 256 ^ n" by (simp add: nat_less_iff)
    then have "nat (v div 256 mod 256 ^ n) * 256 < 256 ^ Suc n" by simp
    also have "(256 :: nat) ^ Suc n \<le> 256 ^ 8" using Suc.prems by (intro power_increasing) simp_all
    finally show ?thesis by simp
  qed
  ultimately have "unat (mvs_rdval (mvs_wrval v (Suc n)) 0 (Suc n))
      = nat (v div 256 mod 256 ^ n) * 256 + nat (v mod 256)"
    by (simp add: unat_push_or_low IH)
  also have "\<dots> = nat (v mod 256 ^ Suc n)"
    using zmod_zmult2_eq [of "256 ^ n" v 256] by (simp add: nat_add_distrib nat_mult_distrib)
  finally show ?case .
qed (simp add: mvs_rdval_def)

lemma rdval_prefix: "mvs_rdval (pre @ xs) (length pre + p) n = mvs_rdval xs p n"
  unfolding mvs_rdval_def by (intro fold_cong) (simp_all add: add.assoc)

text \<open>An \<open>n\<close>-byte value field obeys the same contract as the fixed fields, for every width a \<^verbatim>\<open>long\<close> holds.\<close>

lemma wrval_codec: "n \<le> 8 \<Longrightarrow> field_codec (\<lambda>v. mvs_wrval v n) (\<lambda>b p. unat (mvs_rdval b p n)) n"
  by unfold_locales (simp_all add: unat_rdval_wrval rdval_prefix rdval_append)

interpretation fval4: field_codec "\<lambda>v. mvs_wrval v 4" "\<lambda>b p. unat (mvs_rdval b p 4)" 4
  by (rule wrval_codec) simp

subsection \<open>The CKD count field\<close>

text \<open>\<^verbatim>\<open>mvs_put_count\<close>: F, M, BB, CC, HH, R, KL and DL, twelve bytes.\<close>

definition mvs_put_count :: "int \<Rightarrow> int \<Rightarrow> int \<Rightarrow> int \<Rightarrow> int \<Rightarrow> bytes" where
  "mvs_put_count cc hh r kl dl =
    [0] @ [0, 0, 0] @ mvs_put16 cc @ mvs_put16 hh @ [word_of_int r] @ [word_of_int kl] @ mvs_put16 dl"

lemma put_count_length [simp]: "length (mvs_put_count cc hh r kl dl) = 12"
  by (simp add: mvs_put_count_def)

text \<open>Reading the fields of a count at offset \<open>length pre\<close>.\<close>

lemma count_fields:
  fixes cc hh r kl dl :: int
  assumes "b = pre @ mvs_put_count cc hh r kl dl @ suf"
  shows "mvs_be16 b (length pre + 4) = nat (cc mod 65536)"
    and "mvs_be16 b (length pre + 6) = nat (hh mod 65536)"
    and "unat (byte_at b (length pre + 8)) = nat (r mod 256)"
    and "unat (byte_at b (length pre + 9)) = nat (kl mod 256)"
    and "mvs_be16 b (length pre + 10) = nat (dl mod 65536)"
  unfolding assms
  by (simp_all add: be_simps mvs_put_count_def put_defs unat_of_int_byte drop_bit_eq_div nat_bytes
      byte_at_append)

subsection \<open>Properties\<close>

text \<open>
  Every big-endian field reads back the value written, modulo its width, at any offset of any
  buffer; so do the variable-width values, up to the eight bytes of a \<^verbatim>\<open>long\<close>.
\<close>

theorem field_roundtrip:
  "mvs_be16 (pre @ mvs_put16 v @ suf) (length pre) = nat (v mod 2 ^ 16)
   \<and> mvs_be24 (pre @ mvs_put24 v @ suf) (length pre) = nat (v mod 2 ^ 24)
   \<and> mvs_be32 (pre @ mvs_put32 v @ suf) (length pre) = nat (v mod 2 ^ 32)
   \<and> (n \<le> 8 \<longrightarrow> unat (mvs_rdval (pre @ mvs_wrval v n @ suf) (length pre) n) = nat (v mod 256 ^ n))"
  using f16.get_put [of pre v suf] f24.get_put [of pre v suf] f32.get_put [of pre v suf]
    field_codec.get_put [OF wrval_codec, of n pre v suf]
  by simp

theorem field_roundtrip_witness:
  "mvs_be16 ([7] @ mvs_put16 0x12345 @ [9]) 1 = 0x2345
   \<and> unat (mvs_rdval ([7] @ mvs_wrval (- 2) 3 @ [9]) 1 3) = 0xFFFFFE"
  using field_roundtrip [of "[7]" "0x12345" "[9]" 3] field_roundtrip [of "[7]" "- 2" "[9]" 3] by simp

end
