(* ===== verification/Cp037.thy ===== *)
theory Cp037
  imports Mvs_Bytes
begin

section \<open>Code page 037, names and record formats\<close>

text \<open>
  The translation tables of \<^verbatim>\<open>common/src/mvs370.c\<close> and what is built on them: \<^verbatim>\<open>mvs_a2e\<close>,
  \<^verbatim>\<open>mvs_e2a\<close>, the printable form \<^verbatim>\<open>mvs_e2a_pr\<close>, blank-padded 8-byte names and the RECFM names. A C
  string is a \<open>string\<close> without NUL characters, its bytes are \<open>of_char\<close> of its characters.
\<close>

definition mvs_a2e_tab :: bytes where
  "mvs_a2e_tab =
  [0x00, 0x01, 0x02, 0x03, 0x37, 0x2D, 0x2E, 0x2F, 0x16, 0x05, 0x15, 0x0B, 0x0C, 0x0D, 0x0E, 0x0F,
   0x10, 0x11, 0x12, 0x13, 0x3C, 0x3D, 0x32, 0x26, 0x18, 0x19, 0x3F, 0x27, 0x1C, 0x1D, 0x1E, 0x1F,
   0x40, 0x5A, 0x7F, 0x7B, 0x5B, 0x6C, 0x50, 0x7D, 0x4D, 0x5D, 0x5C, 0x4E, 0x6B, 0x60, 0x4B, 0x61,
   0xF0, 0xF1, 0xF2, 0xF3, 0xF4, 0xF5, 0xF6, 0xF7, 0xF8, 0xF9, 0x7A, 0x5E, 0x4C, 0x7E, 0x6E, 0x6F,
   0x7C, 0xC1, 0xC2, 0xC3, 0xC4, 0xC5, 0xC6, 0xC7, 0xC8, 0xC9, 0xD1, 0xD2, 0xD3, 0xD4, 0xD5, 0xD6,
   0xD7, 0xD8, 0xD9, 0xE2, 0xE3, 0xE4, 0xE5, 0xE6, 0xE7, 0xE8, 0xE9, 0xBA, 0xE0, 0xBB, 0xB0, 0x6D,
   0x79, 0x81, 0x82, 0x83, 0x84, 0x85, 0x86, 0x87, 0x88, 0x89, 0x91, 0x92, 0x93, 0x94, 0x95, 0x96,
   0x97, 0x98, 0x99, 0xA2, 0xA3, 0xA4, 0xA5, 0xA6, 0xA7, 0xA8, 0xA9, 0xC0, 0x4F, 0xD0, 0xA1, 0x07,
   0x20, 0x21, 0x22, 0x23, 0x24, 0x15, 0x06, 0x17, 0x28, 0x29, 0x2A, 0x2B, 0x2C, 0x09, 0x0A, 0x1B,
   0x30, 0x31, 0x1A, 0x33, 0x34, 0x35, 0x36, 0x08, 0x38, 0x39, 0x3A, 0x3B, 0x04, 0x14, 0x3E, 0xFF,
   0x41, 0xAA, 0x4A, 0xB1, 0x9F, 0xB2, 0x6A, 0xB5, 0xBD, 0xB4, 0x9A, 0x8A, 0x5F, 0xCA, 0xAF, 0xBC,
   0x90, 0x8F, 0xEA, 0xFA, 0xBE, 0xA0, 0xB6, 0xB3, 0x9D, 0xDA, 0x9B, 0x8B, 0xB7, 0xB8, 0xB9, 0xAB,
   0x64, 0x65, 0x62, 0x66, 0x63, 0x67, 0x9E, 0x68, 0x74, 0x71, 0x72, 0x73, 0x78, 0x75, 0x76, 0x77,
   0xAC, 0x69, 0xED, 0xEE, 0xEB, 0xEF, 0xEC, 0xBF, 0x80, 0xFD, 0xFE, 0xFB, 0xFC, 0xAD, 0xAE, 0x59,
   0x44, 0x45, 0x42, 0x46, 0x43, 0x47, 0x9C, 0x48, 0x54, 0x51, 0x52, 0x53, 0x58, 0x55, 0x56, 0x57,
   0x8C, 0x49, 0xCD, 0xCE, 0xCB, 0xCF, 0xCC, 0xE1, 0x70, 0xDD, 0xDE, 0xDB, 0xDC, 0x8D, 0x8E, 0xDF]"

definition mvs_e2a_tab :: bytes where
  "mvs_e2a_tab =
  [0x00, 0x01, 0x02, 0x03, 0x9C, 0x09, 0x86, 0x7F, 0x97, 0x8D, 0x8E, 0x0B, 0x0C, 0x0D, 0x0E, 0x0F,
   0x10, 0x11, 0x12, 0x13, 0x9D, 0x0A, 0x08, 0x87, 0x18, 0x19, 0x92, 0x8F, 0x1C, 0x1D, 0x1E, 0x1F,
   0x80, 0x81, 0x82, 0x83, 0x84, 0x85, 0x17, 0x1B, 0x88, 0x89, 0x8A, 0x8B, 0x8C, 0x05, 0x06, 0x07,
   0x90, 0x91, 0x16, 0x93, 0x94, 0x95, 0x96, 0x04, 0x98, 0x99, 0x9A, 0x9B, 0x14, 0x15, 0x9E, 0x1A,
   0x20, 0xA0, 0xE2, 0xE4, 0xE0, 0xE1, 0xE3, 0xE5, 0xE7, 0xF1, 0xA2, 0x2E, 0x3C, 0x28, 0x2B, 0x7C,
   0x26, 0xE9, 0xEA, 0xEB, 0xE8, 0xED, 0xEE, 0xEF, 0xEC, 0xDF, 0x21, 0x24, 0x2A, 0x29, 0x3B, 0xAC,
   0x2D, 0x2F, 0xC2, 0xC4, 0xC0, 0xC1, 0xC3, 0xC5, 0xC7, 0xD1, 0xA6, 0x2C, 0x25, 0x5F, 0x3E, 0x3F,
   0xF8, 0xC9, 0xCA, 0xCB, 0xC8, 0xCD, 0xCE, 0xCF, 0xCC, 0x60, 0x3A, 0x23, 0x40, 0x27, 0x3D, 0x22,
   0xD8, 0x61, 0x62, 0x63, 0x64, 0x65, 0x66, 0x67, 0x68, 0x69, 0xAB, 0xBB, 0xF0, 0xFD, 0xFE, 0xB1,
   0xB0, 0x6A, 0x6B, 0x6C, 0x6D, 0x6E, 0x6F, 0x70, 0x71, 0x72, 0xAA, 0xBA, 0xE6, 0xB8, 0xC6, 0xA4,
   0xB5, 0x7E, 0x73, 0x74, 0x75, 0x76, 0x77, 0x78, 0x79, 0x7A, 0xA1, 0xBF, 0xD0, 0xDD, 0xDE, 0xAE,
   0x5E, 0xA3, 0xA5, 0xB7, 0xA9, 0xA7, 0xB6, 0xBC, 0xBD, 0xBE, 0x5B, 0x5D, 0xAF, 0xA8, 0xB4, 0xD7,
   0x7B, 0x41, 0x42, 0x43, 0x44, 0x45, 0x46, 0x47, 0x48, 0x49, 0xAD, 0xF4, 0xF6, 0xF2, 0xF3, 0xF5,
   0x7D, 0x4A, 0x4B, 0x4C, 0x4D, 0x4E, 0x4F, 0x50, 0x51, 0x52, 0xB9, 0xFB, 0xFC, 0xF9, 0xFA, 0xFF,
   0x5C, 0xF7, 0x53, 0x54, 0x55, 0x56, 0x57, 0x58, 0x59, 0x5A, 0xB2, 0xD4, 0xD6, 0xD2, 0xD3, 0xD5,
   0x30, 0x31, 0x32, 0x33, 0x34, 0x35, 0x36, 0x37, 0x38, 0x39, 0xB3, 0xDB, 0xDC, 0xD9, 0xDA, 0x9F]"

definition mvs_a2e :: "byte \<Rightarrow> byte" where
  "mvs_a2e c = mvs_a2e_tab ! unat c"

definition mvs_e2a :: "byte \<Rightarrow> byte" where
  "mvs_e2a c = mvs_e2a_tab ! unat c"

definition mvs_e2a_pr :: "byte \<Rightarrow> byte" where
  "mvs_e2a_pr c = (let a = mvs_e2a c in if a \<ge> 0x20 \<and> a < 0x7f then a else 0x3f)"

subsection \<open>The tables are inverse to each other\<close>

lemma tab_e2a_a2e: "list_all (\<lambda>i. i = 0x85 \<or> unat (mvs_e2a_tab ! unat (mvs_a2e_tab ! i)) = i) [0..<256]"
  by code_simp

lemma tab_a2e_e2a: "list_all (\<lambda>i. i = 0x25 \<or> unat (mvs_a2e_tab ! unat (mvs_e2a_tab ! i)) = i) [0..<256]"
  by code_simp

lemma byte_cases_tab:
  assumes "list_all P [0..<256]" shows "P (unat (c :: byte))"
  using assms unat_lt_byte [of c] by (simp add: list_all_iff)

lemma e2a_a2e:
  assumes "c \<noteq> 0x85" shows "mvs_e2a (mvs_a2e c) = c"
proof (rule word_unat_eqI)
  have "unat c \<noteq> 0x85" using assms word_unat_eqI [of c "0x85"] by auto
  then show "unat (mvs_e2a (mvs_a2e c)) = unat c"
    using byte_cases_tab [OF tab_e2a_a2e, of c] by (simp add: mvs_e2a_def mvs_a2e_def)
qed

lemma a2e_e2a:
  assumes "e \<noteq> 0x25" shows "mvs_a2e (mvs_e2a e) = e"
proof (rule word_unat_eqI)
  have "unat e \<noteq> 0x25" using assms word_unat_eqI [of e "0x25"] by auto
  then show "unat (mvs_a2e (mvs_e2a e)) = unat e"
    using byte_cases_tab [OF tab_a2e_e2a, of e] by (simp add: mvs_e2a_def mvs_a2e_def)
qed

lemma a2e_blank: "mvs_a2e 0x20 = 0x40" "mvs_e2a 0x40 = 0x20"
  by (simp_all add: mvs_a2e_def mvs_e2a_def mvs_a2e_tab_def mvs_e2a_tab_def)

subsection \<open>Characters and names\<close>

definition ascii :: "char \<Rightarrow> byte" where
  "ascii c = of_nat (of_char c)"

definition bchar :: "byte \<Rightarrow> char" where
  "bchar b = char_of (unat b)"

definition is_alpha :: "char \<Rightarrow> bool" where
  "is_alpha c \<longleftrightarrow> (let a = ascii c in 0x41 \<le> a \<and> a \<le> 0x5a \<or> 0x61 \<le> a \<and> a \<le> 0x7a)"

definition is_digit :: "char \<Rightarrow> bool" where
  "is_digit c \<longleftrightarrow> 0x30 \<le> ascii c \<and> ascii c \<le> 0x39"

definition is_national :: "char \<Rightarrow> bool" where
  "is_national c \<longleftrightarrow> c = CHR ''@'' \<or> c = CHR ''#'' \<or> c = CHR ''$''"

definition to_upper :: "char \<Rightarrow> char" where
  "to_upper c = (if 0x61 \<le> ascii c \<and> ascii c \<le> 0x7a then bchar (ascii c - 0x20) else c)"

definition mvs_name8 :: "string option \<Rightarrow> bytes" where
  "mvs_name8 s = map (\<lambda>i. case s of None \<Rightarrow> 0x40
     | Some t \<Rightarrow> if i < length t then mvs_a2e (ascii (t ! i)) else 0x40) [0..<8]"

definition mvs_nm :: "bytes \<Rightarrow> string" where
  "mvs_nm n = (let b = map (\<lambda>i. bchar (mvs_e2a_pr (byte_at n i))) [0..<8]
     in rev (dropWhile (\<lambda>c. c = CHR '' '') (rev b)))"

lemma unat_ascii: "unat (ascii c) = of_char c"
  by (simp add: ascii_def unat_of_nat)

lemma bchar_ascii [simp]: "bchar (ascii c) = c"
  by (simp add: bchar_def unat_ascii)

lemma ascii_bchar [simp]: "ascii (bchar b) = b"
  by (rule word_unat_eqI) (simp add: unat_ascii bchar_def unat_lt_byte)

lemma ascii_inject [simp]: "ascii c = ascii d \<longleftrightarrow> c = d"
  by (metis bchar_ascii)

text \<open>A character that survives the trip to EBCDIC and back through the printable decoder.\<close>

definition printable :: "char \<Rightarrow> bool" where
  "printable c \<longleftrightarrow> 0x20 \<le> ascii c \<and> ascii c < 0x7f"

lemma e2a_pr_a2e: "printable c \<Longrightarrow> bchar (mvs_e2a_pr (mvs_a2e (ascii c))) = c"
proof -
  assume p: "printable c"
  then have "ascii c \<noteq> 0x85" by (auto simp: printable_def)
  then show ?thesis using p by (simp add: mvs_e2a_pr_def e2a_a2e printable_def)
qed

lemma e2a_pr_range: "0x20 \<le> mvs_e2a_pr c \<and> mvs_e2a_pr c < 0x7f"
  by (simp add: mvs_e2a_pr_def Let_def)

lemma name8_length [simp]: "length (mvs_name8 s) = 8"
  by (simp add: mvs_name8_def)

lemma name8_split:
  assumes "length t \<le> 8"
  shows "mvs_name8 (Some t) = map (\<lambda>c. mvs_a2e (ascii c)) t @ replicate (8 - length t) 0x40"
  by (rule nth_equalityI) (use assms in \<open>auto simp: mvs_name8_def nth_append\<close>)

lemma dropWhile_pad:
  "P x \<Longrightarrow> dropWhile P (replicate n x @ zs) = dropWhile P zs"
  by (induction n) auto

lemma nm_name8:
  assumes "length t \<le> 8" "list_all printable t" "t = [] \<or> last t \<noteq> CHR '' ''"
  shows "mvs_nm (mvs_name8 (Some t)) = t"
proof -
  have blank: "bchar (mvs_e2a_pr 0x40) = CHR '' ''"
  proof -
    have "char_of (32 :: nat) = CHR '' ''" by code_simp
    then show ?thesis by (simp add: mvs_e2a_pr_def a2e_blank bchar_def)
  qed
  have "map (\<lambda>i. bchar (mvs_e2a_pr (byte_at (mvs_name8 (Some t)) i))) [0..<8]
      = map (\<lambda>e. bchar (mvs_e2a_pr e)) (mvs_name8 (Some t))"
    by (rule nth_equalityI) (simp_all add: byte_at_nth)
  also have "\<dots> = t @ replicate (8 - length t) CHR '' ''"
    using assms(1,2) e2a_pr_a2e by (simp add: name8_split blank map_idI list_all_iff)
  also have "rev (dropWhile (\<lambda>c. c = CHR '' '') (rev \<dots>)) = t"
    using assms(3) by (cases t rule: rev_cases) (auto simp: dropWhile_pad)
  finally show ?thesis by (simp add: mvs_nm_def)
qed

lemma name8_inject:
  assumes "length s \<le> 8" "length t \<le> 8" "list_all printable s" "list_all printable t"
    "s = [] \<or> last s \<noteq> CHR '' ''" "t = [] \<or> last t \<noteq> CHR '' ''"
    "mvs_name8 (Some s) = mvs_name8 (Some t)"
  shows "s = t"
  using assms nm_name8 by metis

subsection \<open>Record format names\<close>

definition mvs_recfm_name :: "nat \<Rightarrow> string" where
  "mvs_recfm_name rf =
    (if rf AND 0xc0 = 0xc0 then ''U'' else if rf AND 0x80 \<noteq> 0 then ''F''
     else if rf AND 0x40 \<noteq> 0 then ''V'' else ''?'')
    @ (if rf AND 0x10 \<noteq> 0 then ''B'' else [])
    @ (if rf AND 0x08 \<noteq> 0 then ''S'' else [])
    @ (if rf AND 0x04 \<noteq> 0 then ''A'' else [])
    @ (if rf AND 0x02 \<noteq> 0 then ''M'' else [])"

definition mvs_inmrecfm_name :: "nat \<Rightarrow> string" where
  "mvs_inmrecfm_name code =
    (if code = 1 then ''VBS, transmission records''
     else mvs_recfm_name (drop_bit 8 code AND 0xff))"

text \<open>Both names and their NUL terminator fit the callers' buffers, of 8 and of 32 bytes.\<close>

lemma recfm_name_length: "length (mvs_recfm_name rf) + 1 \<le> 6 \<and> length (mvs_inmrecfm_name code) + 1 \<le> 32"
  by (simp add: mvs_recfm_name_def mvs_inmrecfm_name_def)

subsection \<open>Properties\<close>

text \<open>
  The two CP037 tables are inverse to each other except at the two bytes the header names:
  ASCII X'85' (whose EBCDIC image X'15' maps back to the newline) and EBCDIC X'25' (which has no
  source and maps to X'85').
\<close>

theorem cp037_inverse:
  "(mvs_e2a (mvs_a2e c) = c \<longleftrightarrow> c \<noteq> 0x85) \<and> (mvs_a2e (mvs_e2a e) = e \<longleftrightarrow> e \<noteq> 0x25)
   \<and> mvs_a2e 0x0A = 0x15 \<and> mvs_a2e 0x85 = 0x15 \<and> mvs_e2a 0x15 = 0x0A \<and> mvs_e2a 0x25 = 0x85"
proof -
  have v: "mvs_a2e 0x0A = 0x15" "mvs_a2e 0x85 = 0x15" "mvs_e2a 0x15 = 0x0A" "mvs_e2a 0x25 = 0x85"
    by (simp_all add: mvs_a2e_def mvs_e2a_def mvs_a2e_tab_def mvs_e2a_tab_def)
  then show ?thesis using e2a_a2e [of c] a2e_e2a [of e] by auto
qed

text \<open>
  A name of at most eight printable characters that does not end in a blank survives
  \<^verbatim>\<open>mvs_name8\<close> and \<^verbatim>\<open>mvs_nm\<close>; and the decoder used for display never returns a control character,
  whatever the byte.
\<close>

theorem name8_roundtrip:
  "(length t \<le> 8 \<and> list_all printable t \<and> (t = [] \<or> last t \<noteq> CHR '' '') \<longrightarrow> mvs_nm (mvs_name8 (Some t)) = t)
   \<and> length (mvs_name8 (Some t)) = 8 \<and> 0x20 \<le> mvs_e2a_pr e \<and> mvs_e2a_pr e < 0x7f"
  using nm_name8 [of t] e2a_pr_range [of e] by auto

theorem name8_roundtrip_witness:
  "mvs_nm (mvs_name8 (Some ''@@CRT0'')) = ''@@CRT0''"
proof -
  have "length ''@@CRT0'' \<le> 8 \<and> list_all printable ''@@CRT0'' \<and> (''@@CRT0'' = [] \<or> last ''@@CRT0'' \<noteq> CHR '' '')"
    by (simp add: printable_def ascii_def)
  then show ?thesis using name8_roundtrip [of "''@@CRT0''" 0] by blast
qed

end
