(* ===== verification/Netdata.thy ===== *)
theory Netdata
  imports Cp037
begin

section \<open>NETDATA: text units, segments and their reader\<close>

text \<open>
  The TSO TRANSMIT record primitives of \<^verbatim>\<open>common/src/mvs370.c\<close> (\<^verbatim>\<open>mvs_tu\<close>, \<^verbatim>\<open>mvs_tui\<close>, \<^verbatim>\<open>mvs_tus\<close>,
  \<^verbatim>\<open>mvs_tu_dsname\<close>, \<^verbatim>\<open>mvs_inmr_hdr\<close>, \<^verbatim>\<open>mvs_netdata_seg\<close>) and the segment reader of
  \<^verbatim>\<open>xmit370/src/xmit370.c\<close> (\<^verbatim>\<open>read_xmit\<close>, \<^verbatim>\<open>payload\<close>). A writer that appends at its cursor is the
  list of bytes it appends. The reader's loop ends because every segment is at least two bytes
  long; what it reads back from a stream of written records is those records.
\<close>

subsection \<open>Text units\<close>

definition INM_DSNAM :: int where "INM_DSNAM = 0x0002"
definition INM_DIR :: int where "INM_DIR = 0x000c"
definition INM_BLKSZ :: int where "INM_BLKSZ = 0x0030"
definition INM_DSORG :: int where "INM_DSORG = 0x003c"
definition INM_LRECL :: int where "INM_LRECL = 0x0042"
definition INM_RECFM :: int where "INM_RECFM = 0x0049"
definition INM_TNODE :: int where "INM_TNODE = 0x1001"
definition INM_TUID :: int where "INM_TUID = 0x1002"
definition INM_FNODE :: int where "INM_FNODE = 0x1011"
definition INM_FUID :: int where "INM_FUID = 0x1012"
definition INM_FTIME :: int where "INM_FTIME = 0x1024"
definition INM_UTILN :: int where "INM_UTILN = 0x1028"
definition INM_SIZE :: int where "INM_SIZE = 0x102c"
definition INM_NUMF :: int where "INM_NUMF = 0x102f"

lemmas inm_keys = INM_DSNAM_def INM_DIR_def INM_BLKSZ_def INM_DSORG_def INM_LRECL_def INM_RECFM_def
  INM_TNODE_def INM_TUID_def INM_FNODE_def INM_FUID_def INM_FTIME_def INM_UTILN_def INM_SIZE_def
  INM_NUMF_def

definition mvs_tu :: "int \<Rightarrow> bytes \<Rightarrow> nat \<Rightarrow> bytes" where
  "mvs_tu key val len = mvs_put16 key @ mvs_put16 1 @ mvs_put16 (int len) @ take len val"

definition mvs_tui :: "int \<Rightarrow> int \<Rightarrow> nat \<Rightarrow> bytes" where
  "mvs_tui key v n = mvs_tu key (mvs_wrval v n) n"

definition mvs_tus :: "int \<Rightarrow> string \<Rightarrow> bytes" where
  "mvs_tus key s =
    (let n = length s; n = (if n > 44 then 44 else n);
         t = map (\<lambda>c. mvs_a2e (ascii c)) (take n s)
     in mvs_tu key t n)"

text \<open>\<^verbatim>\<open>mvs_tu_dsname\<close>: the loop takes one qualifier up to the next dot or the end of the string.\<close>

function tu_quals :: "string \<Rightarrow> bytes" where
  "tu_quals s =
    (let q = takeWhile (\<lambda>c. c \<noteq> CHR ''.'') s;
         out = mvs_put16 (int (length q)) @ map (\<lambda>c. mvs_a2e (ascii c)) q
     in if length q = length s then out else out @ tu_quals (drop (length q + 1) s))"
  by pat_completeness auto
termination
  by (relation "measure length") (auto simp: le_less_trans [OF length_takeWhile_le] length_takeWhile_le
      intro: diff_less) 

declare tu_quals.simps [simp del]

definition mvs_tu_dsname :: "string \<Rightarrow> bytes" where
  "mvs_tu_dsname dsn =
    (let nq = 1 + length (filter (\<lambda>c. c = CHR ''.'') dsn)
     in mvs_put16 INM_DSNAM @ mvs_put16 (int nq) @ tu_quals dsn)"

definition mvs_inmr_hdr :: "nat \<Rightarrow> bytes" where
  "mvs_inmr_hdr n = [0xc9, 0xd5, 0xd4, 0xd9, 0xf0, 0xf0 + of_nat n]"

subsection \<open>Segments\<close>

definition NETSEG_FIRST :: byte where "NETSEG_FIRST = 0x80"
definition NETSEG_LAST :: byte where "NETSEG_LAST = 0x40"
definition NETSEG_CTL :: byte where "NETSEG_CTL = 0x20"

lemmas netseg_defs = NETSEG_FIRST_def NETSEG_LAST_def NETSEG_CTL_def

function netdata_loop :: "bytes \<Rightarrow> byte \<Rightarrow> nat \<Rightarrow> bytes" where
  "netdata_loop rec ctl off =
    (let len = length rec;
         n = len - off; n = (if n > 253 then 253 else n);
         flags = ctl OR (if off = 0 then NETSEG_FIRST else 0)
                     OR (if off + n \<ge> len then NETSEG_LAST else 0);
         seg = [of_nat (n + 2), flags] @ take n (drop off rec);
         off' = off + n
     in if off' < len then seg @ netdata_loop rec ctl off' else seg)"
  by pat_completeness auto
termination
  by (relation "measure (\<lambda>(rec, ctl, off). length rec - off)") auto

declare netdata_loop.simps [simp del]

definition mvs_netdata_seg :: "bytes \<Rightarrow> bool \<Rightarrow> bytes" where
  "mvs_netdata_seg rec control = netdata_loop rec (if control then NETSEG_CTL else 0) 0"

subsection \<open>Reading a segment stream\<close>

record logrec =
  lr_b :: bytes
  lr_control :: bool

datatype xmit_error = Cannot_read | Not_a_transmission

text \<open>
  The loop of \<^verbatim>\<open>read_xmit\<close>: \<open>cur\<close> is the record under assembly (\<^verbatim>\<open>NULL\<close> is the empty buffer) and
  \<open>ctl\<close> its control flag, which a segment without FIRST inherits. The loop stops at zero padding,
  at a segment that overruns the file, and at its end.
\<close>

function read_segs :: "bytes \<Rightarrow> nat \<Rightarrow> bytes \<Rightarrow> bool \<Rightarrow> logrec list" where
  "read_segs d p cur ctl =
    (if p + 2 \<le> length d then
       let len = unat (byte_at d p); flags = byte_at d (p + 1) in
       if len < 2 then []
       else if p + len > length d then []
       else
         let dl = len - 2;
             (cur, ctl) = (if flags AND NETSEG_FIRST \<noteq> 0 then ([], flags AND NETSEG_CTL \<noteq> 0) else (cur, ctl));
             cur = cur @ take dl (drop (p + 2) d)
         in if flags AND NETSEG_LAST \<noteq> 0
            then \<lparr>lr_b = cur, lr_control = ctl\<rparr> # read_segs d (p + len) [] ctl
            else read_segs d (p + len) cur ctl
     else [])"
  by pat_completeness auto
termination
  by (relation "measure (\<lambda>(d, p, cur, ctl). length d - p)") auto

declare read_segs.simps [simp del]

definition read_xmit :: "bytes option \<Rightarrow> xmit_error + logrec list" where
  "read_xmit file = (case file of None \<Rightarrow> Inl Cannot_read
     | Some d \<Rightarrow>
        if length d < 8 \<or> byte_at d 2 \<noteq> 0xC9 \<or> byte_at d 3 \<noteq> 0xD5 \<or> byte_at d 4 \<noteq> 0xD4
          \<or> byte_at d 5 \<noteq> 0xD9 \<or> byte_at d 6 \<noteq> 0xF0 \<or> byte_at d 7 \<noteq> 0xF1
        then Inl Not_a_transmission
        else Inr (read_segs d 0 [] False))"

definition payload :: "logrec list \<Rightarrow> bytes" where
  "payload recs = concat (map lr_b (filter (\<lambda>r. \<not> lr_control r) recs))"

subsection \<open>The reader undoes the writer\<close>

lemma read_segs_shift: "read_segs (pre @ d) (length pre + p) cur ctl = read_segs d p cur ctl"
proof (induction "length d - p" arbitrary: p cur ctl rule: less_induct)
  case less
  have IH: "p + 2 \<le> length d \<Longrightarrow> \<not> n < 2 \<Longrightarrow>
      read_segs (pre @ d) (length pre + (p + n)) cur ctl = read_segs d (p + n) cur ctl" for n cur ctl
    by (rule less) simp
  show ?case
    by (subst read_segs.simps, subst read_segs.simps [of d p])
      (simp add: Let_def add.assoc IH split: prod.splits)
qed

text \<open>The flag byte of a segment, as the reader tests it.\<close>

definition seg_flags :: "bool \<Rightarrow> bool \<Rightarrow> bool \<Rightarrow> byte" where
  "seg_flags c f l = (if c then NETSEG_CTL else 0) OR (if f then NETSEG_FIRST else 0) OR (if l then NETSEG_LAST else 0)"

lemma seg_flags_tests:
  "seg_flags c f l AND NETSEG_FIRST \<noteq> 0 \<longleftrightarrow> f" "seg_flags c f l AND NETSEG_CTL \<noteq> 0 \<longleftrightarrow> c"
  "seg_flags c f l AND NETSEG_LAST \<noteq> 0 \<longleftrightarrow> l"
  by (cases c; cases f; cases l; simp add: seg_flags_def netseg_defs)+

lemma read_seg_step:
  assumes "length data \<le> 253"
  shows "read_segs ([of_nat (length data + 2), seg_flags c f l] @ data @ rest) 0 cur ctl =
    (let cur = (if f then [] else cur) @ data; ctl = (if f then c else ctl) in
     if l then \<lparr>lr_b = cur, lr_control = ctl\<rparr> # read_segs rest 0 [] ctl else read_segs rest 0 cur ctl)"
proof -
  define b :: byte where "b = of_nat (length data + 2)"
  have len: "unat b = length data + 2"
    unfolding b_def using assms(1) by (subst unat_of_nat) simp
  have "read_segs ([b, x] @ data @ rest) (length data + 2) cur ctl = read_segs rest 0 cur ctl" for x cur ctl
    using read_segs_shift [of "[b, x] @ data" rest 0 cur ctl] by simp
  then show ?thesis
    unfolding b_def [symmetric]
    by (subst read_segs.simps) (simp add: Let_def len seg_flags_tests)
qed

lemma read_netdata_loop:
  assumes "ctl = (if c then NETSEG_CTL else 0)" "off < length rec \<or> off = 0" "off = 0 \<or> cur = take off rec \<and> c' = c"
  shows "read_segs (netdata_loop rec ctl off @ rest) 0 cur c' = \<lparr>lr_b = rec, lr_control = c\<rparr> # read_segs rest 0 [] c"
  using assms
proof (induction rec ctl off arbitrary: cur c' rule: netdata_loop.induct)
  case (1 rec ctl off)
  define n where "n = min (length rec - off) 253"
  have n: "(if length rec - off > 253 then 253 else length rec - off) = n" by (simp add: n_def)
  have n253: "n \<le> 253" by (simp add: n_def)
  define data where "data = take n (drop off rec)"
  have ld: "length data = n" by (simp add: data_def n_def)
  have cur: "(if off = 0 then [] else cur) @ data = take (off + n) rec"
    using 1(4) by (auto simp: data_def take_add)
  have flags: "ctl OR (if off = 0 then NETSEG_FIRST else 0) OR (if l then NETSEG_LAST else 0) = seg_flags c (off = 0) l" for l
    by (simp add: seg_flags_def 1(2))
  have loop: "netdata_loop rec ctl off = [of_nat (length data + 2), seg_flags c (off = 0) (\<not> off + n < length rec)]
      @ data @ (if off + n < length rec then netdata_loop rec ctl (off + n) else [])"
    by (subst netdata_loop.simps)
      (simp add: Let_def n ld data_def [symmetric] flags [symmetric] not_less [symmetric])
  have step: "read_segs (netdata_loop rec ctl off @ rest) 0 cur c' =
     (let cur = take (off + n) rec; ctl' = (if off = 0 then c else c');
          rest = (if off + n < length rec then netdata_loop rec ctl (off + n) else []) @ rest in
     if \<not> off + n < length rec then \<lparr>lr_b = cur, lr_control = ctl'\<rparr> # read_segs rest 0 [] ctl' else read_segs rest 0 cur ctl')"
    unfolding loop append_assoc using ld by (subst read_seg_step) (simp_all add: n253 cur Let_def)
  have c': "(if off = 0 then c else c') = c" using 1(4) by auto
  show ?case
  proof (cases "off + n < length rec")
    case True
    have "read_segs (netdata_loop rec ctl (off + n) @ rest) 0 (take (off + n) rec) c
        = \<lparr>lr_b = rec, lr_control = c\<rparr> # read_segs rest 0 [] c"
      using True by (intro 1(1) [OF refl refl n [symmetric] refl refl refl]) (simp_all add: 1(2))
    then show ?thesis unfolding step c' using True by simp
  next
    case False
    then have "take (off + n) rec = rec" by simp
    then show ?thesis unfolding step c' using False by simp
  qed
qed

lemma read_netdata_seg:
  "read_segs (mvs_netdata_seg rec c @ rest) 0 cur c' = \<lparr>lr_b = rec, lr_control = c\<rparr> # read_segs rest 0 [] c"
  unfolding mvs_netdata_seg_def by (rule read_netdata_loop) simp_all

definition netdata_stream :: "(bytes \<times> bool) list \<Rightarrow> bytes" where
  "netdata_stream rs = concat (map (\<lambda>(r, c). mvs_netdata_seg r c) rs)"

lemma read_netdata_stream:
  "read_segs (netdata_stream rs @ rest) 0 cur ctl =
   map (\<lambda>(r, c). \<lparr>lr_b = r, lr_control = c\<rparr>) rs @ (if rs = [] then read_segs rest 0 cur ctl else read_segs rest 0 [] (snd (last rs)))"
proof (induction rs arbitrary: cur ctl)
  case (Cons x rs)
  then show ?case
    by (cases x) (simp add: netdata_stream_def read_netdata_seg)
qed (simp add: netdata_stream_def)

lemma read_segs_padding: "read_segs (replicate k 0) 0 cur ctl = []"
  by (subst read_segs.simps) (auto simp: byte_at_def Let_def)

text \<open>The header check of \<^verbatim>\<open>read_xmit\<close> accepts a stream whose first record is a short INMR01.\<close>

lemma netdata_seg_short:
  assumes "length r \<le> 253"
  shows "mvs_netdata_seg r c = [of_nat (length r + 2), seg_flags c True True] @ r"
proof -
  have "(if length r - 0 > 253 then 253 else length r - 0) = length r" using assms by simp
  then show ?thesis
    using assms unfolding mvs_netdata_seg_def
    by (subst netdata_loop.simps) (simp add: Let_def seg_flags_def)
qed

lemma netdata_seg_length:
  "length (mvs_netdata_seg r c) \<ge> length r + 2"
proof -
  have "length (netdata_loop rec ctl off) \<ge> length rec - off + 2" for rec off ctl
  proof (induction rec ctl off rule: netdata_loop.induct)
    case (1 rec ctl off)
    define n where "n = (if length rec - off > 253 then 253 else length rec - off)"
    show ?case
    proof (cases "off + n < length rec")
      case True
      from 1 [OF refl refl n_def refl refl refl True]
      show ?thesis using True by (subst netdata_loop.simps) (simp add: Let_def n_def [symmetric])
    next
      case False
      then show ?thesis by (subst netdata_loop.simps) (simp add: Let_def n_def [symmetric])
    qed
  qed
  from this [of r 0 "if c then NETSEG_CTL else 0"] show ?thesis by (simp add: mvs_netdata_seg_def)
qed

subsection \<open>Walking the text units of a control record\<close>

text \<open>
  The walk of \<^verbatim>\<open>show_textunits\<close> over one INMRxx record, as the list of keys with the values it
  visits; printing them is left out. A value that overruns the record ends the walk.
\<close>

fun tu_vals :: "bytes \<Rightarrow> nat \<Rightarrow> nat \<Rightarrow> bytes list \<times> nat option" where
  "tu_vals r 0 q = ([], Some q)"
| "tu_vals r (Suc k) q =
    (if q + 2 \<le> length r then
       let len = mvs_be16 r q in
       if q + 2 + len > length r then ([], None)
       else let (vs, e) = tu_vals r k (q + 2 + len) in (take len (drop (q + 2) r) # vs, e)
     else ([], Some q))"

lemma tu_vals_advance: "snd (tu_vals r k q) = Some q' \<Longrightarrow> q \<le> q'"
proof (induction k arbitrary: q)
  case (Suc k)
  then show ?case
    using Suc.IH [of "q + 2 + mvs_be16 r q"] by (fastforce simp: Let_def split: if_splits prod.splits)
qed simp

function tu_walk :: "bytes \<Rightarrow> nat \<Rightarrow> (nat \<times> bytes list) list" where
  "tu_walk r p =
    (if p + 6 \<le> length r then
       let key = mvs_be16 r p; cnt = mvs_be16 r (p + 2); res = tu_vals r cnt (p + 4) in
       (key, fst res) # (case snd res of None \<Rightarrow> [] | Some q \<Rightarrow> tu_walk r q)
     else [])"
  by pat_completeness auto
termination
  by (relation "measure (\<lambda>(r, p). length r - p)") (auto dest: tu_vals_advance)

declare tu_walk.simps [simp del]

definition show_textunits :: "bytes \<Rightarrow> (nat \<times> bytes list) list" where
  "show_textunits r = tu_walk r (if length r \<ge> 6 \<and> byte_at r 5 = 0xf2 then 10 else 6)"

text \<open>A text unit as the emitters lay it out: key, count, and length-prefixed values.\<close>

definition text_unit :: "nat \<times> bytes list \<Rightarrow> bytes" where
  "text_unit u = (case u of (key, vs) \<Rightarrow> mvs_put16 (int key) @ mvs_put16 (int (length vs))
     @ concat (map (\<lambda>v. mvs_put16 (int (length v)) @ v) vs))"

definition tu_ok :: "nat \<times> bytes list \<Rightarrow> bool" where
  "tu_ok u \<longleftrightarrow> (case u of (key, vs) \<Rightarrow> key < 65536 \<and> vs \<noteq> [] \<and> length vs < 65536 \<and> (\<forall>v\<in>set vs. length v < 65536))"

lemma tu_vals_read:
  "(\<forall>v\<in>set vs. length v < 65536) \<Longrightarrow>
   tu_vals (pre @ concat (map (\<lambda>v. mvs_put16 (int (length v)) @ v) vs) @ suf) (length vs) (length pre)
   = (vs, Some (length pre + length (concat (map (\<lambda>v. mvs_put16 (int (length v)) @ v) vs))))"
proof (induction vs arbitrary: pre)
  case (Cons v vs)
  let ?rest = "concat (map (\<lambda>v. mvs_put16 (int (length v)) @ v) vs) @ suf"
  have len: "mvs_be16 (pre @ mvs_put16 (int (length v)) @ v @ ?rest) (length pre) = length v"
    using f16.get_put_exact [of "int (length v)" pre "v @ ?rest"] Cons.prems by simp
  have IH: "tu_vals (pre @ mvs_put16 (int (length v)) @ v @ ?rest) (length vs) (length pre + 2 + length v)
      = (vs, Some (length pre + 2 + length v + length (concat (map (\<lambda>v. mvs_put16 (int (length v)) @ v) vs))))"
    using Cons.IH [of "pre @ mvs_put16 (int (length v)) @ v"] Cons.prems by (simp add: add.assoc)
  show ?case using len IH by (simp add: Let_def)
qed simp

lemma tu_walk_read:
  "list_all tu_ok us \<Longrightarrow> tu_walk (pre @ concat (map text_unit us)) (length pre) = us"
proof (induction us arbitrary: pre)
  case Nil
  then show ?case by (subst tu_walk.simps) simp
next
  case (Cons u us)
  obtain key vs where u: "u = (key, vs)" by fastforce
  have ok: "key < 65536" "vs \<noteq> []" "length vs < 65536" "\<forall>v\<in>set vs. length v < 65536"
    using Cons.prems by (auto simp: tu_ok_def u)
  let ?vals = "concat (map (\<lambda>v. mvs_put16 (int (length v)) @ v) vs)"
  let ?rest = "concat (map text_unit us)"
  let ?r = "pre @ mvs_put16 (int key) @ mvs_put16 (int (length vs)) @ ?vals @ ?rest"
  have key: "mvs_be16 ?r (length pre) = key"
    using f16.get_put_exact [of "int key" pre] ok by simp
  have cnt: "mvs_be16 ?r (length pre + 2) = length vs"
    using f16.get_put_exact [of "int (length vs)" "pre @ mvs_put16 (int key)"] ok by simp
  have vals: "tu_vals ?r (length vs) (length pre + 4) = (vs, Some (length pre + 4 + length ?vals))"
    using tu_vals_read [OF ok(4), of "pre @ mvs_put16 (int key) @ mvs_put16 (int (length vs))" ?rest]
    by simp
  let ?pre = "pre @ mvs_put16 (int key) @ mvs_put16 (int (length vs)) @ ?vals"
  have "length ?pre = length pre + 4 + length ?vals" by simp
  then have IH: "tu_walk ?r (length pre + 4 + length ?vals) = us"
    using Cons.IH [of ?pre] Cons.prems by (simp only: append_assoc list.pred_inject(2))
  have "2 \<le> length ?vals" using ok(2) by (cases vs) auto
  then show ?case
    using key cnt vals IH
    by (subst tu_walk.simps) (simp add: u text_unit_def Let_def)
qed

text \<open>The emitters write text units in this layout.\<close>

lemma tu_as_unit:
  "0 \<le> key \<Longrightarrow> length val = len \<Longrightarrow> mvs_tu key val len = text_unit (nat key, [val])"
  by (simp add: mvs_tu_def text_unit_def)

lemma tui_as_unit: "0 \<le> key \<Longrightarrow> mvs_tui key v n = text_unit (nat key, [mvs_wrval v n])"
  by (simp add: mvs_tui_def tu_as_unit)

definition ebc :: "string \<Rightarrow> bytes" where
  "ebc s = map (\<lambda>c. mvs_a2e (ascii c)) s"

lemma tus_as_unit: "0 \<le> key \<Longrightarrow> mvs_tus key s = text_unit (nat key, [ebc (take 44 s)])"
  by (auto simp: mvs_tus_def Let_def tu_as_unit ebc_def min_def)

text \<open>The qualifiers of a data set name.\<close>

function quals :: "string \<Rightarrow> string list" where
  "quals s = (let q = takeWhile (\<lambda>c. c \<noteq> CHR ''.'') s in
     if length q = length s then [q] else q # quals (drop (length q + 1) s))"
  by pat_completeness auto
termination
  by (relation "measure length") (auto simp: le_neq_implies_less length_takeWhile_le intro: diff_less)

declare quals.simps [simp del]

lemma first_qual_split:
  assumes "length (takeWhile (\<lambda>c. c \<noteq> CHR ''.'') s) \<noteq> length s"
  shows "s = takeWhile (\<lambda>c. c \<noteq> CHR ''.'') s @ CHR ''.'' # drop (length (takeWhile (\<lambda>c. c \<noteq> CHR ''.'') s) + 1) s"
proof -
  let ?q = "takeWhile (\<lambda>c. c \<noteq> CHR ''.'') s"
  have lt: "length ?q < length s" using assms length_takeWhile_le [of _ s] by (simp add: le_neq_implies_less)
  have "s = take (length ?q) s @ s ! length ?q # drop (length ?q + 1) s"
    using id_take_nth_drop [OF lt] by simp
  moreover have "take (length ?q) s = ?q" by (metis takeWhile_eq_take)
  moreover have "s ! length ?q = CHR ''.''" using nth_length_takeWhile [OF lt] by simp
  ultimately show ?thesis by metis
qed

lemma quals_count: "length (quals s) = 1 + length (filter (\<lambda>c. c = CHR ''.'') s)"
proof (induction s rule: quals.induct)
  case (1 s)
  let ?q = "takeWhile (\<lambda>c. c \<noteq> CHR ''.'') s"
  have q: "filter (\<lambda>c. c = CHR ''.'') ?q = []" by (auto simp: filter_empty_conv dest: set_takeWhileD)
  show ?case
  proof (cases "length ?q = length s")
    case True
    then have "?q = s" by (metis takeWhile_eq_take take_all order_refl)
    then have "filter (\<lambda>c. c = CHR ''.'') s = []" using q by metis
    then show ?thesis using True by (subst quals.simps) (simp add: Let_def)
  next
    case False
    have "filter (\<lambda>c. c = CHR ''.'') s = CHR ''.'' # filter (\<lambda>c. c = CHR ''.'') (drop (length ?q + 1) s)"
      using arg_cong [OF first_qual_split [OF False], of "filter (\<lambda>c. c = CHR ''.'')"] q by simp
    then show ?thesis using 1 [OF refl False] False by (subst quals.simps) (simp add: Let_def)
  qed
qed

lemma tu_quals_concat: "tu_quals s = concat (map (\<lambda>v. mvs_put16 (int (length v)) @ v) (map ebc (quals s)))"
proof (induction s rule: quals.induct)
  case (1 s)
  show ?case
    using 1 [OF refl] by (subst tu_quals.simps, subst quals.simps) (simp add: Let_def ebc_def [abs_def])
qed

lemma dsname_as_unit: "mvs_tu_dsname dsn = text_unit (nat INM_DSNAM, map ebc (quals dsn))"
  by (simp add: mvs_tu_dsname_def text_unit_def tu_quals_concat quals_count INM_DSNAM_def)

lemma quals_length: "(\<Sum>q\<leftarrow>quals s. length q) + length (quals s) = length s + 1"
proof (induction s rule: quals.induct)
  case (1 s)
  let ?q = "takeWhile (\<lambda>c. c \<noteq> CHR ''.'') s"
  show ?case
  proof (cases "length ?q = length s")
    case True
    then have "quals s = [?q]" by (subst quals.simps) (simp add: Let_def)
    then show ?thesis using True by simp
  next
    case False
    have "length s = length ?q + 1 + length (drop (length ?q + 1) s)"
      using arg_cong [OF first_qual_split [OF False], of length] by simp
    moreover have "quals s = ?q # quals (drop (length ?q + 1) s)"
      using False by (subst quals.simps) (simp add: Let_def)
    ultimately show ?thesis using 1 [OF refl False] by simp
  qed
qed

lemma quals_nonempty: "quals s \<noteq> []"
  using quals_count [of s] by auto

lemma dsname_length: "length (mvs_tu_dsname dsn) = 4 + length dsn + 1 + length (quals dsn)"
proof -
  have "length (concat (map (\<lambda>v. mvs_put16 (int (length v)) @ v) (map ebc qs))) = (\<Sum>q\<leftarrow>qs. length q) + 2 * length qs" for qs
    by (induction qs) (simp_all add: ebc_def)
  then show ?thesis
    using quals_length [of dsn] by (simp add: dsname_as_unit text_unit_def)
qed

lemma inmr_hdr_facts:
  "length (mvs_inmr_hdr n) = 6" "byte_at (mvs_inmr_hdr n @ x) 5 = 0xf0 + of_nat n"
  by (simp_all add: mvs_inmr_hdr_def)

subsection \<open>Properties\<close>

text \<open>
  Reading a segment stream back gives exactly the logical records that were written, in
  order, each with its control flag, whatever their lengths (an empty record included), and the
  zero padding behind them is ignored.
\<close>

theorem netdata_roundtrip:
  "read_segs (concat (map (\<lambda>(r, c). mvs_netdata_seg r c) rs) @ replicate k 0) 0 [] False
   = map (\<lambda>(r, c). \<lparr>lr_b = r, lr_control = c\<rparr>) rs"
  using read_netdata_stream [of rs "replicate k 0" "[]" False]
  by (simp add: netdata_stream_def read_segs_padding)

text \<open>
  The text units of a control record, as the emitters write them behind the 6-byte header
  (10 bytes for an INMR02), are read back by the walk of \<^verbatim>\<open>show_textunits\<close>: same keys, same values,
  nothing left over.
\<close>

theorem textunits_roundtrip:
  assumes "list_all tu_ok us" "n < 10" "n \<noteq> 2"
  shows "show_textunits (mvs_inmr_hdr n @ concat (map text_unit us)) = us
    \<and> (length f = 4 \<longrightarrow> show_textunits (mvs_inmr_hdr 2 @ f @ concat (map text_unit us)) = us)"
proof (intro conjI impI)
  have "(0xf0 + of_nat n :: byte) \<noteq> 0xf2"
  proof
    assume "(0xf0 + of_nat n :: byte) = 0xf2"
    from arg_cong [OF this, of "\<lambda>w. unat (w - 0xf0)"] have "n mod 256 = 2" by (simp add: unat_of_nat)
    then show False using assms(2,3) by simp
  qed
  then show "show_textunits (mvs_inmr_hdr n @ concat (map text_unit us)) = us"
    using tu_walk_read [OF assms(1), of "mvs_inmr_hdr n"]
    by (simp add: show_textunits_def inmr_hdr_facts)
next
  assume "length f = 4"
  then show "show_textunits (mvs_inmr_hdr 2 @ f @ concat (map text_unit us)) = us"
    using tu_walk_read [OF assms(1), of "mvs_inmr_hdr 2 @ f"]
    by (simp add: show_textunits_def inmr_hdr_facts)
qed

theorem textunits_roundtrip_witness:
  "show_textunits (mvs_inmr_hdr 1 @ mvs_tui INM_LRECL 80 4 @ mvs_tus INM_UTILN ''IEBCOPY'' @ mvs_tu_dsname ''A.BC'')
   = [(0x42, [mvs_wrval 80 4]), (0x1028, [ebc ''IEBCOPY'']), (2, [ebc ''A'', ebc ''BC''])]"
proof -
  let ?us = "[(0x42, [mvs_wrval 80 4]), (0x1028, [ebc ''IEBCOPY'']), (2, [ebc ''A'', ebc ''BC''])]"
  have "quals ''BC'' = [''BC'']" by (subst quals.simps) simp
  then have "quals ''A.BC'' = [''A'', ''BC'']" by (subst quals.simps) simp
  then have "concat (map text_unit ?us) = mvs_tui INM_LRECL 80 4 @ mvs_tus INM_UTILN ''IEBCOPY'' @ mvs_tu_dsname ''A.BC''"
    by (simp add: tui_as_unit tus_as_unit dsname_as_unit INM_LRECL_def INM_UTILN_def INM_DSNAM_def)
  moreover have "list_all tu_ok ?us" by (simp add: tu_ok_def ebc_def)
  ultimately show ?thesis using textunits_roundtrip [of ?us 1 "[]"] by simp
qed

end
