(* ===== verification/Xmit_Text.thy ===== *)
theory Xmit_Text
  imports Netdata
begin

section \<open>xmit370: member names and text records\<close>

text \<open>
  The input side of \<^verbatim>\<open>xmit370 create\<close>: member names (\<^verbatim>\<open>valid_member_name\<close>, \<^verbatim>\<open>member_from_path\<close>), the
  UTF-8 test and \<^verbatim>\<open>text_to_records\<close>, which turns a host text file into fixed-length EBCDIC records,
  together with the line loop of \<^verbatim>\<open>do_extract\<close> that turns records back into text. Messages are not
  modelled; the number of errors is. The global options are the record \<open>xopts\<close>.
\<close>

record tm =
  tm_sec :: int
  tm_min :: int
  tm_hour :: int
  tm_mday :: int
  tm_mon :: int
  tm_year :: int
  tm_yday :: int

record xopts =
  o_dsn :: string
  o_lrecl :: nat
  o_blksize :: nat
  o_recfm :: nat
  o_stats :: bool
  o_tabs :: nat
  o_latin1 :: bool
  o_userid :: string
  o_stats_tm :: "tm option"

subsection \<open>Member names\<close>

definition valid_member_name :: "string \<Rightarrow> bool" where
  "valid_member_name s =
    (if length s < 1 \<or> length s > 8 then False
     else if \<not> (is_alpha (hd s) \<or> is_national (hd s)) then False
     else list_all (\<lambda>c. is_alpha c \<or> is_digit c \<or> is_national c) s)"

text \<open>\<^verbatim>\<open>strrchr\<close>: the part of a string behind the last occurrence of a character, and before it.\<close>

definition after_last :: "char \<Rightarrow> string \<Rightarrow> string" where
  "after_last c s = rev (takeWhile (\<lambda>x. x \<noteq> c) (rev s))"

definition before_last :: "char \<Rightarrow> string \<Rightarrow> string" where
  "before_last c s = rev (tl (dropWhile (\<lambda>x. x \<noteq> c) (rev s)))"

definition member_from_path :: "string \<Rightarrow> string" where
  "member_from_path path =
    (let b = after_last CHR ''/'' path;
         n = (if CHR ''.'' \<in> set b \<and> before_last CHR ''.'' b \<noteq> [] then length (before_last CHR ''.'' b) else length b);
         n = (if n > 63 then 63 else n)
     in map to_upper (take n b))"

subsection \<open>The UTF-8 test\<close>

definition has_high_byte :: "bytes \<Rightarrow> bool" where
  "has_high_byte b \<longleftrightarrow> list_ex (\<lambda>c. c \<ge> 0x80) b"

fun is_utf8 :: "bytes \<Rightarrow> bool" where
  "is_utf8 [] = True"
| "is_utf8 (c # r) =
    (if c < 0x80 then is_utf8 r
     else
       let extra = (if c AND 0xe0 = 0xc0 then Some 1
                    else if c AND 0xf0 = 0xe0 then Some 2
                    else if c AND 0xf8 = 0xf0 then Some (3 :: nat) else None)
       in case extra of None \<Rightarrow> False
          | Some n \<Rightarrow> if n \<ge> length (c # r) then False
                      else if \<not> list_all (\<lambda>x. x AND 0xc0 = 0x80) (take n r) then False
                      else is_utf8 (drop n r))"

subsection \<open>Text to records\<close>

text \<open>Expanding one line: the columns so far, and 1 when a byte was refused and the line abandoned.\<close>

fun expand_line :: "xopts \<Rightarrow> bytes \<Rightarrow> bytes \<Rightarrow> bytes \<times> nat" where
  "expand_line opt [] ex = (ex, 0)"
| "expand_line opt (c # cs) ex =
    (let col = length ex in
     if c = 0x09 then
       if o_tabs opt = 0 then (ex, 1)
       else let stop = (col div o_tabs opt + 1) * o_tabs opt
            in expand_line opt cs (ex @ replicate (stop - col) 0x20)
     else if c \<ge> 0x80 \<and> \<not> o_latin1 opt then (ex, 1)
     else if c < 0x20 \<or> c = 0x7f then (ex, 1)
     else expand_line opt cs (ex @ [c]))"

definition strip_trailing :: "byte \<Rightarrow> bytes \<Rightarrow> bytes" where
  "strip_trailing x b = rev (dropWhile (\<lambda>c. c = x) (rev b))"

text \<open>One line of the file to one record and the errors it counts.\<close>

definition line_record :: "xopts \<Rightarrow> bytes \<Rightarrow> bytes \<times> nat" where
  "line_record opt line =
    (let (ex, e1) = expand_line opt line [];
         ex = strip_trailing 0x20 ex;
         e2 = (if length ex > o_lrecl opt then 1 else 0);
         ex = take (o_lrecl opt) ex
     in (map mvs_a2e ex @ replicate (o_lrecl opt - length ex) 0x40, e1 + e2))"

text \<open>The line loop: \<open>raw\<close> is what is left of the file; a CR before the newline is dropped.\<close>

definition drop_cr :: "bytes \<Rightarrow> bytes" where
  "drop_cr l = (if l \<noteq> [] \<and> last l = 0x0D then butlast l else l)"

function t2r_loop :: "xopts \<Rightarrow> bytes \<Rightarrow> bytes list \<times> nat" where
  "t2r_loop opt raw =
    (if raw = [] then ([], 0)
     else
       let line = takeWhile (\<lambda>c. c \<noteq> 0x0A) raw;
           (r, e) = line_record opt (drop_cr line)
       in if length line \<ge> length raw then ([r], e)
          else let (rs, es) = t2r_loop opt (drop (length line + 1) raw) in (r # rs, e + es))"
  by pat_completeness auto
termination
  by (relation "measure (\<lambda>(opt, raw). length raw)") auto

declare t2r_loop.simps [simp del]

text \<open>\<^verbatim>\<open>text_to_records\<close>: the member's records and the error count; an unreadable file is one error.\<close>

definition text_to_records :: "xopts \<Rightarrow> bytes option \<Rightarrow> bytes list \<times> nat" where
  "text_to_records opt file = (case file of None \<Rightarrow> ([], 1) | Some raw \<Rightarrow> t2r_loop opt raw)"

subsection \<open>Records back to text\<close>

text \<open>The record loop of \<^verbatim>\<open>do_extract\<close>: strip the pad blanks, translate, end the line.\<close>

definition extract_record :: "bytes \<Rightarrow> bytes" where
  "extract_record b = map mvs_e2a (strip_trailing 0x40 b) @ [0x0A]"

function extract_text :: "nat \<Rightarrow> bytes \<Rightarrow> bytes" where
  "extract_text lrecl b =
    (if lrecl = 0 \<or> length b < lrecl then []
     else extract_record (take lrecl b) @ extract_text lrecl (drop lrecl b))"
  by pat_completeness auto
termination
  by (relation "measure (\<lambda>(l, b). length b)") auto

declare extract_text.simps [simp del]

subsection \<open>Every record has the record length\<close>

lemma strip_length: "length (strip_trailing x b) \<le> length b"
  using length_dropWhile_le [of _ "rev b"] by (simp add: strip_trailing_def)

lemma line_record_length: "length (fst (line_record opt l)) = o_lrecl opt"
  by (simp add: line_record_def Let_def case_prod_beta)

lemma t2r_lengths: "r \<in> set (fst (t2r_loop opt raw)) \<Longrightarrow> length r = o_lrecl opt"
proof (induction opt raw rule: t2r_loop.induct)
  case (1 opt raw)
  define line where "line = takeWhile (\<lambda>c. c \<noteq> 0x0A) raw"
  show ?case
  proof (cases "raw = [] \<or> length line \<ge> length raw")
    case True
    then show ?thesis
      using 1(2) line_record_length [of opt "drop_cr line"]
      by (auto simp: t2r_loop.simps [of opt raw] Let_def case_prod_beta line_def [symmetric] split: if_splits)
  next
    case False
    then have "r = fst (line_record opt (drop_cr line)) \<or> r \<in> set (fst (t2r_loop opt (drop (length line + 1) raw)))"
      using 1(2) by (auto simp: t2r_loop.simps [of opt raw] Let_def case_prod_beta line_def [symmetric])
    then show ?thesis
      using 1(1) [OF _ line_def] False line_record_length by (auto simp: prod_eq_iff)
  qed
qed

subsection \<open>Extraction undoes the conversion\<close>

lemma strip_pad: "strip_trailing x (b @ replicate n x) = strip_trailing x b"
  by (simp add: strip_trailing_def dropWhile_pad)

lemma strip_map:
  assumes "\<forall>c\<in>set b. f c = y \<longleftrightarrow> c = x"
  shows "strip_trailing y (map f b) = map f (strip_trailing x b)"
proof -
  have "dropWhile (\<lambda>c. c = y) (map f l) = map f (dropWhile (\<lambda>c. c = x) l)" if "\<forall>c\<in>set l. f c = y \<longleftrightarrow> c = x" for l
    using that by (induction l) auto
  from this [of "rev b"] assms show ?thesis by (simp add: strip_trailing_def rev_map)
qed

lemma strip_idem [simp]: "strip_trailing x (strip_trailing x b) = strip_trailing x b"
  by (simp add: strip_trailing_def)

lemma set_strip: "set (strip_trailing x b) \<subseteq> set b"
  by (auto simp: strip_trailing_def dest: set_dropWhileD)

lemma a2e_blank_iff: "mvs_a2e c = 0x40 \<longleftrightarrow> c = 0x20"
proof
  assume "mvs_a2e c = 0x40"
  moreover have "mvs_a2e 0x85 \<noteq> 0x40" by (simp add: mvs_a2e_def mvs_a2e_tab_def)
  ultimately show "c = 0x20" using e2a_a2e [of c] a2e_blank by metis
qed (simp add: a2e_blank)

text \<open>The line a record stands for: tabs expanded, trailing blanks gone.\<close>

definition norm_line :: "xopts \<Rightarrow> bytes \<Rightarrow> bytes" where
  "norm_line opt l = strip_trailing 0x20 (fst (expand_line opt (drop_cr l) []))"

lemma extract_line:
  assumes "snd (line_record opt (drop_cr l)) = 0" "0x85 \<notin> set (norm_line opt l)"
  shows "extract_record (fst (line_record opt (drop_cr l))) = norm_line opt l @ [0x0A]"
proof -
  let ?n = "norm_line opt l"
  have "length ?n \<le> o_lrecl opt"
    using assms(1) by (auto simp: line_record_def Let_def case_prod_beta norm_line_def split: if_splits)
  then have "fst (line_record opt (drop_cr l)) = map mvs_a2e ?n @ replicate (o_lrecl opt - length ?n) 0x40"
    by (simp add: line_record_def Let_def case_prod_beta norm_line_def)
  moreover have "strip_trailing 0x40 (map mvs_a2e ?n) = map mvs_a2e ?n"
    using strip_map [of ?n mvs_a2e "0x40" "0x20"] a2e_blank_iff by (simp add: norm_line_def)
  moreover have "map mvs_e2a (map mvs_a2e ?n) = ?n"
  proof -
    have "\<forall>c\<in>set ?n. mvs_e2a (mvs_a2e c) = c" using assms(2) e2a_a2e by metis
    then show ?thesis by (simp add: map_idI)
  qed
  ultimately show ?thesis by (simp add: extract_record_def strip_pad)
qed

text \<open>The lines of a file: split at newlines, no empty line behind the last one.\<close>

function text_lines :: "bytes \<Rightarrow> bytes list" where
  "text_lines raw = (if raw = [] then [] else let line = takeWhile (\<lambda>c. c \<noteq> 0x0A) raw in
     line # text_lines (drop (length line + 1) raw))"
  by pat_completeness auto
termination
  by (relation "measure length") auto

declare text_lines.simps [simp del]

lemma t2r_lines:
  "t2r_loop opt raw = (map (\<lambda>l. fst (line_record opt (drop_cr l))) (text_lines raw),
     \<Sum>l\<leftarrow>text_lines raw. snd (line_record opt (drop_cr l)))"
proof (induction opt raw rule: t2r_loop.induct)
  case (1 opt raw)
  define line where "line = takeWhile (\<lambda>c. c \<noteq> 0x0A) raw"
  have nil: "text_lines [] = []" by (simp add: text_lines.simps)
  show ?case
  proof (cases "raw = [] \<or> length line \<ge> length raw")
    case True
    then show ?thesis
      by (auto simp: t2r_loop.simps [of opt raw] text_lines.simps [of raw] nil Let_def case_prod_beta line_def [symmetric])
  next
    case False
    then have IH: "t2r_loop opt (drop (length line + 1) raw)
        = (map (\<lambda>l. fst (line_record opt (drop_cr l))) (text_lines (drop (length line + 1) raw)),
           \<Sum>l\<leftarrow>text_lines (drop (length line + 1) raw). snd (line_record opt (drop_cr l)))"
      using 1 [OF _ line_def] by (auto simp: prod_eq_iff)
    show ?thesis
      using False IH
      by (simp add: t2r_loop.simps [of opt raw] text_lines.simps [of raw] Let_def case_prod_beta line_def [symmetric])
  qed
qed

lemma extract_concat:
  assumes "0 < n" "\<forall>r\<in>set rs. length r = n"
  shows "extract_text n (concat rs) = concat (map extract_record rs)"
  using assms(2)
proof (induction rs)
  case Nil
  then show ?case using assms(1) by (simp add: extract_text.simps)
next
  case (Cons r rs)
  then show ?case using assms(1) by (simp add: extract_text.simps [of n "r @ concat rs"])
qed

lemma t2r_extract:
  assumes "0 < o_lrecl opt" "t2r_loop opt raw = (rs, 0)" "\<forall>l\<in>set (text_lines raw). 0x85 \<notin> set (norm_line opt l)"
  shows "extract_text (o_lrecl opt) (concat rs) = concat (map (\<lambda>l. norm_line opt l @ [0x0A]) (text_lines raw))"
proof -
  have rs: "rs = map (\<lambda>l. fst (line_record opt (drop_cr l))) (text_lines raw)"
    and "\<forall>l\<in>set (text_lines raw). snd (line_record opt (drop_cr l)) = 0"
    using assms(2) by (simp_all add: t2r_lines)
  then have "map extract_record rs = map (\<lambda>l. norm_line opt l @ [0x0A]) (text_lines raw)"
    using assms(3) extract_line by simp
  moreover have "\<forall>r\<in>set rs. length r = o_lrecl opt"
    using t2r_lengths [of _ opt raw] assms(2) by simp
  ultimately show ?thesis using assms(1) by (simp add: extract_concat)
qed

text \<open>Lines that need no change: printable ASCII, no trailing blank, no longer than the record.\<close>

definition clean_line :: "nat \<Rightarrow> bytes \<Rightarrow> bool" where
  "clean_line n l \<longleftrightarrow> list_all (\<lambda>c. 0x20 \<le> c \<and> c < 0x7f) l \<and> (l = [] \<or> last l \<noteq> 0x20) \<and> length l \<le> n"

lemma expand_clean:
  "list_all (\<lambda>c. 0x20 \<le> c \<and> c < 0x7f) l \<Longrightarrow> expand_line opt l ex = (ex @ l, 0)"
proof (induction l arbitrary: ex)
  case (Cons c l)
  have "c \<noteq> 0x09" "\<not> c \<ge> 0x80" "\<not> (c < 0x20 \<or> c = 0x7f)"
    using Cons.prems by (auto simp: word_less_nat_alt word_le_nat_alt)
  then show ?case using Cons by (simp add: Let_def)
qed simp

lemma strip_clean: "l = [] \<or> last l \<noteq> x \<Longrightarrow> strip_trailing x l = l"
  by (cases l rule: rev_cases) (auto simp: strip_trailing_def)

lemma clean_line_facts:
  assumes "clean_line n l"
  shows "drop_cr l = l" "0x0A \<notin> set l" "0x85 \<notin> set l" "norm_line opt l = l"
    "n = o_lrecl opt \<Longrightarrow> snd (line_record opt l) = 0"
proof -
  have c: "list_all (\<lambda>c. 0x20 \<le> c \<and> c < 0x7f) l" using assms by (simp add: clean_line_def)
  have "c \<in> set l \<Longrightarrow> c \<noteq> 0x0D \<and> c \<noteq> 0x0A \<and> c \<noteq> 0x85" for c
    using c by (auto simp: list_all_iff word_less_nat_alt word_le_nat_alt)
  then show cr: "drop_cr l = l" "0x0A \<notin> set l" "0x85 \<notin> set l"
    using last_in_set by (fastforce simp: drop_cr_def)+
  show "norm_line opt l = l"
    using assms strip_clean [of l "0x20"] by (simp add: norm_line_def cr expand_clean [OF c] clean_line_def)
  then show "n = o_lrecl opt \<Longrightarrow> snd (line_record opt l) = 0"
    using assms by (simp add: line_record_def Let_def expand_clean [OF c] norm_line_def cr clean_line_def)
qed

lemma text_lines_concat:
  "\<forall>l\<in>set ls. 0x0A \<notin> set l \<Longrightarrow> text_lines (concat (map (\<lambda>l. l @ [0x0A]) ls)) = ls"
proof (induction ls)
  case (Cons l ls)
  then have "takeWhile (\<lambda>c. c \<noteq> 0x0A) (l @ [0x0A] @ concat (map (\<lambda>l. l @ [0x0A]) ls)) = l"
    by (subst takeWhile_append2) auto
  then show ?case using Cons by (subst text_lines.simps) (simp add: Let_def)
qed (simp add: text_lines.simps)

lemma clean_roundtrip:
  assumes "0 < o_lrecl opt" "\<forall>l\<in>set ls. clean_line (o_lrecl opt) l"
  defines "raw \<equiv> concat (map (\<lambda>l. l @ [0x0A]) ls)"
  shows "snd (t2r_loop opt raw) = 0"
    and "extract_text (o_lrecl opt) (concat (fst (t2r_loop opt raw))) = raw"
proof -
  have lines: "text_lines raw = ls"
    unfolding raw_def using assms(2) clean_line_facts(2) by (intro text_lines_concat) blast
  show err: "snd (t2r_loop opt raw) = 0"
    using assms(2) clean_line_facts(1,5) by (auto simp: t2r_lines lines)
  have "map (\<lambda>l. norm_line opt l @ [0x0A]) ls = map (\<lambda>l. l @ [0x0A]) ls"
    using assms(2) clean_line_facts(4) by auto
  moreover have "\<forall>l\<in>set ls. 0x85 \<notin> set (norm_line opt l)"
    using assms(2) clean_line_facts(3,4) by metis
  ultimately show "extract_text (o_lrecl opt) (concat (fst (t2r_loop opt raw))) = raw"
    using t2r_extract [of opt raw "fst (t2r_loop opt raw)"] assms(1) err
    by (simp only: lines prod_eq_iff fst_conv snd_conv simp_thms) (simp add: raw_def)
qed

text \<open>Without \<^verbatim>\<open>--latin1\<close> only printable ASCII reaches a record, so the newline byte X'15' never does.\<close>

lemma expand_printable:
  "\<not> o_latin1 opt \<Longrightarrow> list_all (\<lambda>c. 0x20 \<le> c \<and> c < 0x80) ex \<Longrightarrow>
   list_all (\<lambda>c. 0x20 \<le> c \<and> c < 0x80) (fst (expand_line opt l ex))"
proof (induction l arbitrary: ex)
  case (Cons c l)
  define stop where "stop = (length ex div o_tabs opt + 1) * o_tabs opt"
  have "list_all (\<lambda>c. 0x20 \<le> c \<and> c < 0x80) (ex @ replicate (stop - length ex) 0x20)"
    using Cons.prems(2) by (auto simp: list_all_iff)
  moreover have "c \<noteq> 0x09 \<Longrightarrow> \<not> c \<ge> 0x80 \<Longrightarrow> \<not> c < 0x20 \<Longrightarrow> list_all (\<lambda>c. 0x20 \<le> c \<and> c < 0x80) (ex @ [c])"
    using Cons.prems(2) by (simp add: not_less not_le)
  ultimately show ?case
    using Cons.prems(1) Cons.IH unfolding expand_line.simps Let_def stop_def by (simp split: if_splits)
qed simp

lemma line_record_no_nel:
  assumes "\<not> o_latin1 opt" shows "0x15 \<notin> set (fst (line_record opt l))"
proof
  assume "0x15 \<in> set (fst (line_record opt l))"
  then obtain c where "c \<in> set (fst (expand_line opt l []))" "mvs_a2e c = 0x15"
    using set_strip [of "0x20" "fst (expand_line opt l [])"]
    by (auto simp: line_record_def Let_def case_prod_beta dest!: in_set_takeD)
  then have "0x20 \<le> c" "c < 0x80" "mvs_a2e c = 0x15"
    using expand_printable [OF assms, of "[]" l] by (auto simp: list_all_iff)
  then have "c \<noteq> 0x85" by (auto simp: word_less_nat_alt)
  from e2a_a2e [OF this] \<open>mvs_a2e c = 0x15\<close> have "c = 0x0A"
    by (simp add: mvs_e2a_def mvs_e2a_tab_def)
  then show False using \<open>0x20 \<le> c\<close> by simp
qed

subsection \<open>Properties\<close>

text \<open>
  Whatever the file, every record \<^verbatim>\<open>text_to_records\<close> makes has exactly LRECL bytes, one record
  per line (a trailing newline makes none); with the default refusal of bytes above X'7F' no
  record holds the newline byte X'15'.
\<close>

theorem text_records_fixed:
  "list_all (\<lambda>r. length r = o_lrecl opt) (fst (text_to_records opt (Some raw)))
   \<and> list_all (\<lambda>r. 0x15 \<notin> set r) (fst (text_to_records (opt\<lparr>o_latin1 := False\<rparr>) (Some raw)))
   \<and> length (fst (text_to_records opt (Some raw))) = length (text_lines raw)"
  using line_record_length [of opt] line_record_no_nel [of "opt\<lparr>o_latin1 := False\<rparr>"]
  by (auto simp: text_to_records_def t2r_lines list_all_iff)

text \<open>
  A file of clean lines (printable ASCII, no trailing blank, no longer than LRECL, each ended
  by a newline) converts without an error, and extracting its records gives the file back byte for
  byte.
\<close>

theorem text_extract_roundtrip:
  assumes "0 < o_lrecl opt" "list_all (clean_line (o_lrecl opt)) ls"
  shows "snd (text_to_records opt (Some (concat (map (\<lambda>l. l @ [0x0A]) ls)))) = 0
    \<and> extract_text (o_lrecl opt) (concat (fst (text_to_records opt (Some (concat (map (\<lambda>l. l @ [0x0A]) ls))))))
      = concat (map (\<lambda>l. l @ [0x0A]) ls)"
  using clean_roundtrip [OF assms(1), of ls] assms(2) by (simp add: text_to_records_def list_all_iff)

definition sample_opts :: xopts where
  "sample_opts = \<lparr>o_dsn = ''SYS1.SAMPLIB'', o_lrecl = 80, o_blksize = 3120, o_recfm = 0x90, o_stats = True,
     o_tabs = 8, o_latin1 = False, o_userid = ''SYS1'', o_stats_tm = None\<rparr>"

lemma sample_sel [simp]:
  "o_lrecl sample_opts = 80" "o_tabs sample_opts = 8" "\<not> o_latin1 sample_opts"
  "o_blksize sample_opts = 3120" "o_stats sample_opts" "o_recfm sample_opts = 0x90"
  "o_dsn sample_opts = ''SYS1.SAMPLIB''" "o_userid sample_opts = ''SYS1''" "o_stats_tm sample_opts = None"
  by (simp_all add: sample_opts_def)

theorem text_extract_roundtrip_witness:
  "extract_text 80 (concat (fst (text_to_records sample_opts (Some [0x2F, 0x2F, 0x20, 0x4A, 0x0A, 0x0A, 0x2F, 0x0A]))))
   = [0x2F, 0x2F, 0x20, 0x4A, 0x0A, 0x0A, 0x2F, 0x0A]"
  using text_extract_roundtrip [of sample_opts "[[0x2F, 0x2F, 0x20, 0x4A], [], [0x2F]]"]
  by (simp add: clean_line_def)

text \<open>
  Any file that converts without an error comes back from its records with its tabs expanded and
  its trailing blanks removed, whatever the options, unless it holds the one byte that does not
  survive CP037: X'85', which \<^verbatim>\<open>--latin1\<close> lets through as X'15' and extraction turns into a line
  break.
\<close>

theorem text_extract_normalises:
  assumes "0 < o_lrecl opt" "snd (text_to_records opt (Some raw)) = 0"
    and "list_all (\<lambda>l. 0x85 \<notin> set (norm_line opt l)) (text_lines raw)"
  shows "extract_text (o_lrecl opt) (concat (fst (text_to_records opt (Some raw))))
    = concat (map (\<lambda>l. norm_line opt l @ [0x0A]) (text_lines raw))"
  using t2r_extract [OF assms(1), of raw "fst (t2r_loop opt raw)"] assms(2,3)
  by (simp add: text_to_records_def list_all_iff prod_eq_iff)

theorem text_extract_normalises_witness:
  "extract_text 80 (concat (fst (text_to_records sample_opts (Some [0x41, 0x09, 0x42, 0x20, 0x0D, 0x0A]))))
   = [0x41, 0x20, 0x20, 0x20, 0x20, 0x20, 0x20, 0x20, 0x42, 0x0A]"
proof -
  let ?raw = "[0x41, 0x09, 0x42, 0x20, 0x0D, 0x0A] :: bytes"
  have tl: "text_lines ?raw = [[0x41, 0x09, 0x42, 0x20, 0x0D]]"
    by (simp add: text_lines.simps)
  have seven: "replicate 7 x = [x, x, x, x, x, x, x]" for x :: byte by (simp add: numeral_eq_Suc)
  have ex: "expand_line sample_opts [0x41, 0x09, 0x42, 0x20] []
      = ([0x41, 0x20, 0x20, 0x20, 0x20, 0x20, 0x20, 0x20, 0x42, 0x20], 0)"
    by (simp add: seven)
  have cr: "drop_cr [0x41, 0x09, 0x42, 0x20, 0x0D] = [0x41, 0x09, 0x42, 0x20]"
    by (simp add: drop_cr_def)
  have n: "norm_line sample_opts [0x41, 0x09, 0x42, 0x20, 0x0D] = [0x41, 0x20, 0x20, 0x20, 0x20, 0x20, 0x20, 0x20, 0x42]"
    by (simp add: norm_line_def cr ex strip_trailing_def del: expand_line.simps)
  have "snd (text_to_records sample_opts (Some ?raw)) = 0"
    by (simp add: text_to_records_def t2r_lines tl cr line_record_def ex strip_trailing_def Let_def
        del: expand_line.simps)
  then show ?thesis
    using text_extract_normalises [of sample_opts ?raw] by (simp add: tl n)
qed

end
