(* ===== verification/Rec_Chain.thy ===== *)
theory Rec_Chain
  imports Mvs_Bytes
begin

section \<open>Chains of self-describing records\<close>

text \<open>
  Several formats of the toolchain are records laid end to end, each of which tells its own length: the
  count-key-data records of an unloaded data set, the members of an archive. What their readers share.
\<close>

text \<open>
  The contract of a chain: a reader that knows only an offset finds the length of the record
  there, so it can step from record to record.
\<close>

locale rec_chain =
  fixes enc :: "'a \<Rightarrow> bytes"
    and reclen :: "bytes \<Rightarrow> nat \<Rightarrow> nat"
    and ok :: "'a \<Rightarrow> bool"
  assumes reclen_here: "ok x \<Longrightarrow> reclen (pre @ enc x @ suf) (length pre) = length (enc x)"
    and enc_nonempty: "ok x \<Longrightarrow> 0 < length (enc x)"
begin

definition chain :: "'a list \<Rightarrow> bytes" where
  "chain xs = concat (map enc xs)"

lemma chain_Cons [simp]: "chain (x # xs) = enc x @ chain xs" "chain [] = []"
  by (simp_all add: chain_def)

lemma chain_append [simp]: "chain (xs @ ys) = chain xs @ chain ys"
  by (simp add: chain_def)

lemma chain_concat: "chain (concat xss) = concat (map chain xss)"
  by (induction xss) simp_all

lemma step_over:
  assumes "ok x"
  shows "length pre + reclen (pre @ chain (x # xs) @ suf) (length pre) = length (pre @ enc x)"
  using reclen_here [OF assms, of pre "chain xs @ suf"] by simp

lemma at_end_iff: "list_all ok xs \<Longrightarrow> length pre < length (pre @ chain xs) \<longleftrightarrow> xs \<noteq> []"
  using enc_nonempty by (cases xs) auto

end

end
