(* ===== verification/Ckd.thy ===== *)
theory Ckd
  imports Mvs_Bytes Rec_Chain
begin

section \<open>CKD images: the unload header, track geometry and record chains\<close>

text \<open>
  What \<^verbatim>\<open>common/include/mvs370.h\<close> and \<^verbatim>\<open>common/src/mvs370.c\<close> say about a 3350 volume image: the
  geometry constants, the COPYR1/COPYR2 environment header with its data extent, and the packing
  of records on tracks, which \<^verbatim>\<open>xmit370\<close>'s \<^verbatim>\<open>assign_geometry\<close> and \<^verbatim>\<open>ld370\<close>'s \<^verbatim>\<open>emit_unload\<close> do with
  the same statements. Placing never puts more on a track than it holds and hands out addresses
  in strictly increasing order. A chain of CKD records (count, key, data) can be walked from its
  own lengths; that is the contract \<open>rec_chain\<close>, which the readers rest on.
\<close>

definition MVS_TRK_LEN_3350 :: nat where "MVS_TRK_LEN_3350 = 19254"
definition MVS_TRK_OVH_3350 :: nat where "MVS_TRK_OVH_3350 = 185"
definition MVS_TRK_MAXBLK_3350 :: nat where "MVS_TRK_MAXBLK_3350 = MVS_TRK_LEN_3350 - MVS_TRK_OVH_3350"
definition MVS_TRK_PACK_CAP_3350 :: nat where "MVS_TRK_PACK_CAP_3350 = MVS_TRK_MAXBLK_3350"
definition MVS_TRKPERCYL_3350 :: nat where "MVS_TRKPERCYL_3350 = 30"
definition MVS_ENV_HDR_LEN :: nat where "MVS_ENV_HDR_LEN = 328"
definition MVS_COPYR1_LEN :: nat where "MVS_COPYR1_LEN = 52"
definition MVS_UNLOAD_DATA_CC :: nat where "MVS_UNLOAD_DATA_CC = 0x008d"

lemmas geo_consts = MVS_TRK_LEN_3350_def MVS_TRK_OVH_3350_def MVS_TRK_MAXBLK_3350_def
  MVS_TRK_PACK_CAP_3350_def MVS_TRKPERCYL_3350_def MVS_ENV_HDR_LEN_def MVS_COPYR1_LEN_def
  MVS_UNLOAD_DATA_CC_def

definition mvs_unload_env_hdr :: bytes where
  "mvs_unload_env_hdr =
  [0x00, 0xca, 0x6d, 0x0f, 0x02, 0x00, 0x4a, 0x7d, 0x00, 0x00, 0xc0, 0x00,
   0x00, 0x00, 0x4a, 0x7d, 0x30, 0x50, 0x20, 0x0b, 0x00, 0x00, 0x4a, 0x7d,
   0x02, 0x30, 0x00, 0x1e, 0x4b, 0x36, 0x01, 0x0b, 0x52, 0x08, 0x02, 0x00,
   0x00, 0x00, 0x00, 0x00, 0x00, 0x00, 0x00, 0x00, 0x00, 0x00, 0x00, 0x00,
   0x00, 0x00, 0x00, 0x00, 0x01, 0x00, 0x00, 0x00, 0xff, 0x00, 0x00, 0x00,
   0x8f, 0x09, 0x66, 0x44, 0x04, 0x9b, 0xd0, 0xe8, 0x50, 0x00, 0x27, 0xc8,
   0x00, 0x00, 0x00, 0x8d, 0x00, 0x00, 0x00, 0x8d, 0x00, 0x1d, 0x00, 0x1e]
  @ replicate 244 0x00"

text \<open>\<^verbatim>\<open>mvs_udebx_extent\<close> stamps the end of the data extent and its track count, in whole cylinders.\<close>

definition mvs_udebx_extent :: "bytes \<Rightarrow> nat \<Rightarrow> bytes" where
  "mvs_udebx_extent hdr ntracks =
    (let ncyl = (ntracks + MVS_TRKPERCYL_3350 - 1) div MVS_TRKPERCYL_3350;
         ncyl = (if ncyl < 1 then 1 else ncyl);
         hdr = write_at hdr 78 (mvs_put16 (int (MVS_UNLOAD_DATA_CC + ncyl - 1)));
         hdr = write_at hdr 80 (mvs_put16 (int (MVS_TRKPERCYL_3350 - 1)))
     in write_at hdr 82 (mvs_put16 (int (ncyl * MVS_TRKPERCYL_3350))))"

lemma env_hdr_length [simp]: "length mvs_unload_env_hdr = 328"
  by (simp add: mvs_unload_env_hdr_def)

lemma udebx_length [simp]: "84 \<le> length hdr \<Longrightarrow> length (mvs_udebx_extent hdr n) = length hdr"
  by (simp add: mvs_udebx_extent_def Let_def)

subsection \<open>Placing records on tracks\<close>

record geo =
  g_tt :: nat
  g_r :: nat
  g_trkbytes :: nat

definition geo_start :: geo where
  "geo_start = \<lparr>g_tt = 0, g_r = 1, g_trkbytes = 0\<rparr>"

text \<open>One record that costs \<open>need\<close> bytes: wrap to the next track if it does not fit, take the next record number.\<close>

definition geo_wrap :: "nat \<Rightarrow> nat \<Rightarrow> geo \<Rightarrow> geo" where
  "geo_wrap cap need s =
    (if g_r s > 1 \<and> g_trkbytes s + need > cap
     then \<lparr>g_tt = g_tt s + 1, g_r = 1, g_trkbytes = 0\<rparr> else s)"

definition geo_take :: "nat \<Rightarrow> geo \<Rightarrow> geo" where
  "geo_take need s = s\<lparr>g_r := g_r s + 1, g_trkbytes := g_trkbytes s + need\<rparr>"

fun place_all :: "nat \<Rightarrow> nat list \<Rightarrow> geo \<Rightarrow> (nat \<times> nat) list \<times> geo" where
  "place_all cap [] s = ([], s)"
| "place_all cap (need # ns) s =
    (let s = geo_wrap cap need s; (ps, s') = place_all cap ns (geo_take need s)
     in ((g_tt s, g_r s) # ps, s'))"

text \<open>
  The state of the packer: the record number is positive, every record on the current track cost
  at least the overhead, and the track holds no more than its length.
\<close>

definition geo_ok :: "geo \<Rightarrow> bool" where
  "geo_ok s \<longleftrightarrow> 1 \<le> g_r s \<and> (g_r s - 1) * MVS_TRK_OVH_3350 \<le> g_trkbytes s \<and> g_trkbytes s \<le> MVS_TRK_LEN_3350
     \<and> (g_r s = 1 \<longrightarrow> g_trkbytes s = 0)"

definition need_ok :: "nat \<Rightarrow> bool" where
  "need_ok n \<longleftrightarrow> MVS_TRK_OVH_3350 \<le> n \<and> n \<le> MVS_TRK_LEN_3350"

lemma geo_start_ok: "geo_ok geo_start"
  by (simp add: geo_ok_def geo_start_def)

lemma geo_step_ok:
  assumes "geo_ok s" "need_ok n" "cap \<le> MVS_TRK_LEN_3350"
  shows "geo_ok (geo_take n (geo_wrap cap n s))"
  using assms by (auto simp: geo_ok_def need_ok_def geo_take_def geo_wrap_def algebra_simps geo_consts)

lemma geo_r_bound: "geo_ok s \<Longrightarrow> g_r s \<le> 105"
  by (auto simp: geo_ok_def geo_consts)

definition ttr :: "nat \<times> nat \<Rightarrow> nat" where
  "ttr a = fst a * 256 + snd a"

definition geo_ttr :: "geo \<Rightarrow> nat" where
  "geo_ttr s = ttr (g_tt s, g_r s)"

lemma geo_wrap_le: "geo_ok s \<Longrightarrow> geo_ttr s \<le> geo_ttr (geo_wrap cap n s)"
  using geo_r_bound [of s] by (auto simp: geo_ttr_def ttr_def geo_wrap_def)

lemma geo_wrap_ok: "geo_ok s \<Longrightarrow> geo_ok (geo_wrap cap n s)"
  by (auto simp: geo_ok_def geo_wrap_def)

lemma geo_take_sel:
  "g_tt (geo_take n s) = g_tt s" "g_r (geo_take n s) = g_r s + 1"
  "g_trkbytes (geo_take n s) = g_trkbytes s + n"
  by (simp_all add: geo_take_def)

lemma geo_take_less: "geo_ttr s < geo_ttr (geo_take n s)"
  by (simp add: geo_ttr_def ttr_def geo_take_def)

lemma place_all_append:
  "place_all cap (xs @ ys) s = (let (ps, s1) = place_all cap xs s; (qs, s2) = place_all cap ys s1 in (ps @ qs, s2))"
  by (induction xs arbitrary: s) (auto simp: Let_def split: prod.splits)

lemma place_all_length: "length (fst (place_all cap ns s)) = length ns"
  by (induction ns arbitrary: s) (simp_all add: Let_def case_prod_beta)

lemma place_all_ok:
  assumes "geo_ok s" "list_all need_ok ns" "cap \<le> MVS_TRK_LEN_3350"
  shows "geo_ok (snd (place_all cap ns s))"
  using assms
proof (induction ns arbitrary: s)
  case (Cons n ns)
  then show ?case
    using Cons.IH [OF geo_step_ok [OF Cons.prems(1), of n cap]] by (simp add: Let_def case_prod_beta)
qed simp

lemma place_all_order:
  assumes "geo_ok s" "list_all need_ok ns" "cap \<le> MVS_TRK_LEN_3350"
  shows "sorted_wrt (\<lambda>a b. ttr a < ttr b) (fst (place_all cap ns s))
    \<and> (\<forall>a\<in>set (fst (place_all cap ns s)). geo_ttr s \<le> ttr a \<and> ttr a < geo_ttr (snd (place_all cap ns s))
         \<and> 1 \<le> snd a \<and> snd a \<le> 105)
    \<and> geo_ttr s \<le> geo_ttr (snd (place_all cap ns s))"
  using assms
proof (induction ns arbitrary: s)
  case (Cons n ns)
  define w where "w = geo_wrap cap n s"
  define t where "t = geo_take n w"
  have ok: "geo_ok w" "geo_ok t"
    using Cons.prems geo_wrap_ok geo_step_ok by (simp_all add: w_def t_def)
  have le: "geo_ttr s \<le> geo_ttr w" "geo_ttr w < geo_ttr t"
    using geo_wrap_le [OF Cons.prems(1)] geo_take_less by (simp_all add: w_def t_def)
  have r: "1 \<le> g_r w" "g_r w \<le> 105" using ok(1) geo_r_bound by (simp_all add: geo_ok_def)
  obtain ps s' where p: "place_all cap ns t = (ps, s')" by fastforce
  have "place_all cap (n # ns) s = ((g_tt w, g_r w) # ps, s')"
    using p by (simp add: w_def t_def Let_def)
  moreover have "ttr (g_tt w, g_r w) = geo_ttr w" by (simp add: geo_ttr_def)
  moreover have "sorted_wrt (\<lambda>a b. ttr a < ttr b) ps"
    "\<forall>a\<in>set ps. geo_ttr t \<le> ttr a \<and> ttr a < geo_ttr s' \<and> 1 \<le> snd a \<and> snd a \<le> 105" "geo_ttr t \<le> geo_ttr s'"
    using Cons.IH [OF ok(2)] Cons.prems(2,3) p by simp_all
  moreover from this(2) have "\<forall>a\<in>set ps. geo_ttr w < ttr a \<and> geo_ttr s \<le> ttr a"
    using le by (meson le_less_trans less_imp_le order_trans less_le_trans)
  ultimately show ?case using le r by simp
qed simp

text \<open>What the placed records take of one track, the part already on the current track included.\<close>

definition track_load :: "nat \<Rightarrow> (nat \<times> nat) list \<Rightarrow> nat list \<Rightarrow> nat" where
  "track_load t ps ns = sum_list (map snd (filter (\<lambda>(a, n). fst a = t) (zip ps ns)))"

lemma place_all_tracks: "a \<in> set (fst (place_all cap ns s)) \<Longrightarrow> g_tt s \<le> fst a"
proof (induction ns arbitrary: s)
  case (Cons n ns)
  then show ?case
    using Cons.IH [of "geo_take n (geo_wrap cap n s)"]
    by (auto simp: Let_def geo_wrap_def geo_take_def split: prod.splits if_splits)
qed simp

lemma track_load_earlier: "t < g_tt s \<Longrightarrow> track_load t (fst (place_all cap ns s)) ns = 0"
proof -
  assume t: "t < g_tt s"
  have "filter (\<lambda>(a, n). fst a = t) (zip (fst (place_all cap ns s)) ns) = []"
    using t place_all_tracks by (fastforce simp: filter_empty_conv dest: set_zip_leftD)
  then show ?thesis by (simp add: track_load_def)
qed

lemma track_load_bound:
  assumes "geo_ok s" "list_all need_ok ns" "cap \<le> MVS_TRK_LEN_3350"
  shows "track_load t (fst (place_all cap ns s)) ns + (if t = g_tt s then g_trkbytes s else 0) \<le> MVS_TRK_LEN_3350"
  using assms
proof (induction ns arbitrary: s)
  case Nil
  then show ?case by (simp add: track_load_def geo_ok_def)
next
  case (Cons n ns)
  define w where "w = geo_wrap cap n s"
  have ok: "geo_ok (geo_take n w)" using Cons.prems geo_step_ok by (simp add: w_def)
  obtain ps s' where p: "place_all cap ns (geo_take n w) = (ps, s')" by fastforce
  have IH: "track_load t ps ns + (if t = g_tt w then g_trkbytes w + n else 0) \<le> MVS_TRK_LEN_3350"
    using Cons.IH [OF ok] Cons.prems(2,3) p by (auto simp: geo_take_sel)
  have load: "track_load t (fst (place_all cap (n # ns) s)) (n # ns) = (if t = g_tt w then n else 0) + track_load t ps ns"
    using p by (simp add: w_def Let_def track_load_def)
  have "t = g_tt s \<Longrightarrow> g_tt w \<noteq> g_tt s \<Longrightarrow> track_load t ps ns = 0"
    using track_load_earlier [of t "geo_take n w" cap ns] p
    by (auto simp: w_def geo_wrap_def geo_take_def split: if_splits)
  then show ?case
    using IH Cons.prems(1) unfolding load
    by (auto simp: w_def geo_wrap_def geo_ok_def split: if_splits)
qed

subsection \<open>Chains of CKD records\<close>

text \<open>The length of the CKD record at an offset, from its own count field: \<^verbatim>\<open>12 + u[p+9] + mvs_be16(u+p+10)\<close>.\<close>

definition ckd_reclen :: "bytes \<Rightarrow> nat \<Rightarrow> nat" where
  "ckd_reclen u p = 12 + unat (byte_at u (p + 9)) + mvs_be16 u (p + 10)"

record ckd =
  ck_cc :: nat
  ck_hh :: nat
  ck_r :: nat
  ck_key :: bytes
  ck_data :: bytes

definition ckd_ok :: "ckd \<Rightarrow> bool" where
  "ckd_ok k \<longleftrightarrow> ck_cc k < 65536 \<and> ck_hh k < 65536 \<and> ck_r k < 256 \<and> length (ck_key k) < 256 \<and> length (ck_data k) < 65536"

definition ckd_bytes :: "ckd \<Rightarrow> bytes" where
  "ckd_bytes k = mvs_put_count (int (ck_cc k)) (int (ck_hh k)) (int (ck_r k))
     (int (length (ck_key k))) (int (length (ck_data k))) @ ck_key k @ ck_data k"

lemma ckd_bytes_length: "length (ckd_bytes k) = 12 + length (ck_key k) + length (ck_data k)"
  by (simp add: ckd_bytes_def)

lemma ckd_fields:
  assumes "ckd_ok k" "u = pre @ ckd_bytes k @ suf"
  shows "mvs_be16 u (length pre + 4) = ck_cc k" "mvs_be16 u (length pre + 6) = ck_hh k"
    "unat (byte_at u (length pre + 8)) = ck_r k" "unat (byte_at u (length pre + 9)) = length (ck_key k)"
    "mvs_be16 u (length pre + 10) = length (ck_data k)"
proof -
  have "u = pre @ mvs_put_count (int (ck_cc k)) (int (ck_hh k)) (int (ck_r k)) (int (length (ck_key k)))
      (int (length (ck_data k))) @ (ck_key k @ ck_data k @ suf)"
    by (simp only: assms(2) ckd_bytes_def append_assoc)
  note fields = count_fields [OF this]
  have lt: "int (ck_cc k) mod 65536 = int (ck_cc k)" "int (ck_hh k) mod 65536 = int (ck_hh k)"
    "int (ck_r k) mod 256 = int (ck_r k)" "int (length (ck_key k)) mod 256 = int (length (ck_key k))"
    "int (length (ck_data k)) mod 65536 = int (length (ck_data k))"
    using assms(1) by (simp_all add: ckd_ok_def)
  show "mvs_be16 u (length pre + 4) = ck_cc k" "mvs_be16 u (length pre + 6) = ck_hh k"
    "unat (byte_at u (length pre + 8)) = ck_r k" "unat (byte_at u (length pre + 9)) = length (ck_key k)"
    "mvs_be16 u (length pre + 10) = length (ck_data k)"
    unfolding fields lt by simp_all
qed

interpretation ckdc: rec_chain ckd_bytes ckd_reclen ckd_ok
proof
  show "ckd_ok x \<Longrightarrow> ckd_reclen (pre @ ckd_bytes x @ suf) (length pre) = length (ckd_bytes x)" for x pre suf
    using ckd_fields [of x "pre @ ckd_bytes x @ suf" pre suf] by (simp add: ckd_reclen_def ckd_bytes_length)
  show "ckd_ok x \<Longrightarrow> 0 < length (ckd_bytes x)" for x
    by (simp add: ckd_bytes_length)
qed

end
