(* ===== verification/Xmit_Unload.thy ===== *)
theory Xmit_Unload
  imports Xmit_Text Ckd "HOL-Library.Signed_Division"
begin

section \<open>xmit370: the unloaded image\<close>

text \<open>
  From records to the IEBCOPY unload image: ISPF statistics (\<^verbatim>\<open>packed_date\<close>, \<^verbatim>\<open>build_ispf_stats\<close>),
  directory sizing (\<^verbatim>\<open>ud_len\<close> .. \<^verbatim>\<open>count_dir_blocks\<close>, \<^verbatim>\<open>unload_size\<close>), \<^verbatim>\<open>assign_geometry\<close> and
  \<^verbatim>\<open>emit_unload\<close>. A member carries the broken-down local time of its file, which the C library
  computes. The C globals \<^verbatim>\<open>mem\<close> and \<^verbatim>\<open>nmem\<close> are the list of members passed along.
\<close>

subsection \<open>ISPF statistics\<close>

definition packed_date :: "tm \<Rightarrow> bytes" where
  "packed_date t =
    (let year = tm_year t + 1900; ddd = tm_yday t + 1; yy = year smod 100 in
     [if year \<ge> 2000 then 0x01 else 0x00,
      word_of_int (push_bit 4 (yy sdiv 10) OR (yy smod 10)),
      word_of_int (push_bit 4 (ddd sdiv 100) OR ((ddd sdiv 10) smod 10)),
      word_of_int (push_bit 4 (ddd smod 10) OR 0x0f)])"

definition bcd2 :: "int \<Rightarrow> byte" where
  "bcd2 v = word_of_int (push_bit 4 (v sdiv 10) OR (v smod 10))"

record xmember =
  xm_ebc :: bytes
  xm_mtm :: tm
  xm_data :: bytes
  xm_nrec :: nat

definition build_ispf_stats :: "xopts \<Rightarrow> xmember \<Rightarrow> bytes" where
  "build_ispf_stats opt m =
    (let lines = (if xm_nrec m > 65535 then 65535 else xm_nrec m);
         t = (case o_stats_tm opt of Some t \<Rightarrow> t | None \<Rightarrow> xm_mtm m)
     in [0x01, 0x00, 0x00, bcd2 (if tm_sec t > 59 then 59 else tm_sec t)]
        @ packed_date t @ packed_date t
        @ [bcd2 (tm_hour t), bcd2 (tm_min t)]
        @ mvs_put16 (int lines) @ mvs_put16 (int lines) @ mvs_put16 0
        @ map (\<lambda>i. if i < length (o_userid opt) then mvs_a2e (ascii (o_userid opt ! i)) else 0x40) [0..<8]
        @ [0x40, 0x40])"

lemma packed_date_length [simp]: "length (packed_date t) = 4"
  by (simp add: packed_date_def Let_def)

lemma ispf_stats_length [simp]: "length (build_ispf_stats opt m) = 30"
  by (simp add: build_ispf_stats_def Let_def)

subsection \<open>Directory sizing\<close>

definition DIR_BLK :: nat where "DIR_BLK = 256"

definition ud_len :: "xopts \<Rightarrow> nat" where
  "ud_len opt = (if o_stats opt then 30 else 0)"

definition ent_len :: "xopts \<Rightarrow> nat" where
  "ent_len opt = 12 + ud_len opt"

definition dir_cbyte :: "xopts \<Rightarrow> nat" where
  "dir_cbyte opt = (ud_len opt div 2) AND 0x1f"

definition per_full :: "xopts \<Rightarrow> nat" where
  "per_full opt = (DIR_BLK - 2) div ent_len opt"

definition per_last :: "xopts \<Rightarrow> nat" where
  "per_last opt = (DIR_BLK - 2 - 12) div ent_len opt"

lemma per_values:
  "per_full opt = (if o_stats opt then 6 else 21)" "per_last opt = (if o_stats opt then 5 else 20)"
  by (simp_all add: per_full_def per_last_def ent_len_def ud_len_def DIR_BLK_def)

function count_dir_loop :: "xopts \<Rightarrow> nat \<Rightarrow> nat \<Rightarrow> nat \<Rightarrow> nat" where
  "count_dir_loop opt nmem i n =
    (if nmem - i > per_last opt then count_dir_loop opt nmem (i + per_full opt) (n + 1) else n)"
  by pat_completeness auto
termination
  by (relation "measure (\<lambda>(opt, nmem, i, n). nmem - i)") (auto simp: per_values)

declare count_dir_loop.simps [simp del]

definition count_dir_blocks :: "xopts \<Rightarrow> nat \<Rightarrow> nat" where
  "count_dir_blocks opt nmem = count_dir_loop opt nmem 0 1"

subsection \<open>Blocks and their addresses\<close>

record blk =
  b_off :: nat
  b_len :: nat
  b_tt :: nat
  b_r :: nat

record pmember = xmember +
  pm_blk :: "blk list"
  pm_first :: "nat \<times> nat"
  pm_eof :: "nat \<times> nat"

fun blk_loop :: "nat \<Rightarrow> nat \<Rightarrow> nat \<Rightarrow> nat \<Rightarrow> nat \<Rightarrow> (nat \<times> nat) list" where
  "blk_loop lrecl rpb nrec 0 done = []"
| "blk_loop lrecl rpb nrec (Suc k) done =
    (let nr = nrec - done; nr = (if nr > rpb then rpb else nr)
     in (done * lrecl, nr * lrecl) # blk_loop lrecl rpb nrec k (done + nr))"

definition member_blocks :: "xopts \<Rightarrow> nat \<Rightarrow> (nat \<times> nat) list" where
  "member_blocks opt nrec =
    (let rpb = o_blksize opt div o_lrecl opt; nblk = (nrec + rpb - 1) div rpb
     in blk_loop (o_lrecl opt) rpb nrec nblk 0)"

definition place_member :: "xopts \<Rightarrow> xmember \<Rightarrow> geo \<Rightarrow> pmember \<times> geo" where
  "place_member opt m s =
    (let bl = member_blocks opt (xm_nrec m);
         (ps, s1) = place_all MVS_TRK_PACK_CAP_3350 (map (\<lambda>(off, len). MVS_TRK_OVH_3350 + len) bl) s;
         s2 = geo_wrap MVS_TRK_PACK_CAP_3350 MVS_TRK_OVH_3350 s1
     in (xmember.extend m
           (pmember.fields (map2 (\<lambda>(off, len) (tt, r). \<lparr>b_off = off, b_len = len, b_tt = tt, b_r = r\<rparr>) bl ps)
              (case ps of [] \<Rightarrow> (g_tt s, g_r s) | a # _ \<Rightarrow> a)
              (g_tt s2, g_r s2)),
         geo_take MVS_TRK_OVH_3350 s2))"

fun assign_loop :: "xopts \<Rightarrow> xmember list \<Rightarrow> geo \<Rightarrow> pmember list" where
  "assign_loop opt [] s = []"
| "assign_loop opt (m # ms) s = (let (pm, s') = place_member opt m s in pm # assign_loop opt ms s')"

definition assign_geometry :: "xopts \<Rightarrow> xmember list \<Rightarrow> pmember list" where
  "assign_geometry opt ms = assign_loop opt ms geo_start"

subsection \<open>Emitting the image\<close>

definition unload_size :: "xopts \<Rightarrow> pmember list \<Rightarrow> nat" where
  "unload_size opt ms = MVS_ENV_HDR_LEN + 12 + count_dir_blocks opt (length ms) * (12 + 8 + DIR_BLK)
     + (\<Sum>m\<leftarrow>ms. (\<Sum>b\<leftarrow>pm_blk m. 12 + b_len b) + 12)"

definition unl_blksize :: "xopts \<Rightarrow> nat" where
  "unl_blksize opt = (let b = o_blksize opt + 20 in if b < 296 then 296 else b)"

definition used_tracks :: "pmember list \<Rightarrow> nat" where
  "used_tracks ms =
    (let n = fold (\<lambda>m n. if pm_blk m \<noteq> [] \<and> b_tt (last (pm_blk m)) + 1 > n then b_tt (last (pm_blk m)) + 1 else n) ms 0;
         n = fold (\<lambda>m n. if fst (pm_eof m) + 1 > n then fst (pm_eof m) + 1 else n) ms n
     in if n < 1 then 1 else n)"

definition unload_hdr :: "xopts \<Rightarrow> nat \<Rightarrow> bytes" where
  "unload_hdr opt ntracks =
    (let img = mvs_unload_env_hdr;
         img = write_at img 4 (mvs_put16 0x0200);
         img = write_at img 6 (mvs_put16 (int (o_blksize opt)));
         img = write_at img 8 (mvs_put16 (int (o_lrecl opt)));
         img = write_at img 10 [of_nat (o_recfm opt)];
         img = write_at img 11 [0];
         img = write_at img 14 (mvs_put16 (int (unl_blksize opt)))
     in mvs_udebx_extent img ntracks)"

definition dir_entry :: "xopts \<Rightarrow> pmember \<Rightarrow> bytes" where
  "dir_entry opt m = xm_ebc m @ mvs_put16 (int (fst (pm_first m))) @ [of_nat (snd (pm_first m)), of_nat (dir_cbyte opt)]
     @ (if o_stats opt then build_ispf_stats opt (xmember.truncate m) else [])"

text \<open>One 256-byte directory block, and its CKD record with the key.\<close>

definition dir_block :: "xopts \<Rightarrow> pmember list \<Rightarrow> bool \<Rightarrow> bytes" where
  "dir_block opt ms is_last =
    (let used = 2 + length ms * ent_len opt + (if is_last then 12 else 0);
         body = mvs_put16 (int used) @ concat (map (dir_entry opt) ms)
           @ (if is_last then replicate 8 0xff @ replicate 4 0 else [])
     in body @ replicate (DIR_BLK - length body) 0)"

definition dir_record :: "xopts \<Rightarrow> pmember list \<Rightarrow> bool \<Rightarrow> bytes" where
  "dir_record opt ms is_last =
    mvs_put_count 0 0 0 8 (int DIR_BLK)
    @ (if is_last then replicate 8 0xff else xm_ebc (last ms))
    @ dir_block opt ms is_last"

function dir_loop :: "xopts \<Rightarrow> pmember list \<Rightarrow> bytes" where
  "dir_loop opt ms =
    (if length ms \<le> per_last opt then dir_record opt ms True
     else dir_record opt (take (per_full opt) ms) False @ dir_loop opt (drop (per_full opt) ms))"
  by pat_completeness auto
termination
  by (relation "measure (\<lambda>(opt, ms). length ms)") (auto simp: per_values)

declare dir_loop.simps [simp del]

definition emit_dir :: "xopts \<Rightarrow> pmember list \<Rightarrow> bytes" where
  "emit_dir opt ms = dir_loop opt ms @ replicate 12 0"

definition data_count :: "nat \<times> nat \<Rightarrow> nat \<Rightarrow> bytes" where
  "data_count a dl = (case a of (tt, r) \<Rightarrow>
     mvs_put_count (int (MVS_UNLOAD_DATA_CC + tt div MVS_TRKPERCYL_3350)) (int (tt mod MVS_TRKPERCYL_3350)) (int r) 0 (int dl))"

definition emit_member :: "pmember \<Rightarrow> bytes" where
  "emit_member m = concat (map (\<lambda>b. data_count (b_tt b, b_r b) (b_len b) @ take (b_len b) (drop (b_off b) (xm_data m))) (pm_blk m))
     @ data_count (pm_eof m) 0"

text \<open>The image with its four record boundaries \<^verbatim>\<open>bounds\<close>.\<close>

definition emit_unload :: "xopts \<Rightarrow> pmember list \<Rightarrow> bytes \<times> nat \<times> nat \<times> nat \<times> nat" where
  "emit_unload opt ms =
    (let hdr = unload_hdr opt (used_tracks ms); dir = emit_dir opt ms; data = concat (map emit_member ms);
         img = hdr @ dir @ data
     in (img, MVS_COPYR1_LEN, MVS_ENV_HDR_LEN, MVS_ENV_HDR_LEN + length dir, length img))"


subsection \<open>Well-formed input\<close>

text \<open>What \<^verbatim>\<open>do_create\<close> checks of the options, and what \<^verbatim>\<open>text_to_records\<close> and \<^verbatim>\<open>mvs_name8\<close> leave in a member.\<close>

definition opts_ok :: "xopts \<Rightarrow> bool" where
  "opts_ok opt \<longleftrightarrow> 1 \<le> o_lrecl opt \<and> o_lrecl opt \<le> o_blksize opt \<and> o_blksize opt mod o_lrecl opt = 0
     \<and> o_blksize opt \<le> MVS_TRK_MAXBLK_3350"

definition member_ok :: "xopts \<Rightarrow> xmember \<Rightarrow> bool" where
  "member_ok opt m \<longleftrightarrow> length (xm_ebc m) = 8 \<and> xm_ebc m \<noteq> replicate 8 0xff
     \<and> length (xm_data m) = xm_nrec m * o_lrecl opt"

lemma opts_okD:
  assumes "opts_ok opt"
  shows "0 < o_lrecl opt" "0 < o_blksize opt div o_lrecl opt"
    "o_blksize opt div o_lrecl opt * o_lrecl opt = o_blksize opt" "o_blksize opt \<le> 19069"
  using assms by (auto simp: opts_ok_def geo_consts div_greater_zero_iff)

subsection \<open>Blocks cover the member\<close>

lemma blk_loop_cover:
  assumes "0 < rpb" "length data = nrec * lrecl" "n \<le> nrec" "k = (nrec - n + rpb - 1) div rpb"
  shows "concat (map (\<lambda>(off, len). take len (drop off data)) (blk_loop lrecl rpb nrec k n)) = drop (n * lrecl) data
    \<and> list_all (\<lambda>(off, len). (0 < lrecl \<longrightarrow> 0 < len) \<and> len \<le> rpb * lrecl \<and> off + len \<le> length data) (blk_loop lrecl rpb nrec k n)"
  using assms(3,4)
proof (induction k arbitrary: n)
  case 0
  then have "nrec - n + rpb - 1 < rpb" using assms(1) by (metis div_eq_0_iff less_irrefl)
  then have "n = nrec" using 0 by simp
  then show ?case using assms(2) by simp
next
  case (Suc k)
  define nr where "nr = (if nrec - n > rpb then rpb else nrec - n)"
  have pos: "0 < nrec - n" using Suc.prems(2) assms(1) by (cases "nrec - n") simp_all
  then have nr: "0 < nr" "nr \<le> rpb" "n + nr \<le> nrec" using assms(1) by (auto simp: nr_def)
  have "k = (nrec - (n + nr) + rpb - 1) div rpb"
  proof (cases "nrec - n > rpb")
    case True
    then have "nrec - n + rpb - 1 = (nrec - (n + nr) + rpb - 1) + rpb" using pos by (simp add: nr_def)
    then have "Suc k = (nrec - (n + nr) + rpb - 1 + rpb) div rpb" using Suc.prems(2) by (simp only:)
    then show ?thesis using div_add_self2 [of rpb "nrec - (n + nr) + rpb - 1"] assms(1) by simp
  next
    case False
    then have *: "nrec - n + rpb - 1 = (nrec - n - 1) + rpb" "nrec - n - 1 < rpb" "nrec - (n + nr) = 0"
      using pos by (simp_all add: nr_def)
    then have "Suc k = (nrec - n - 1 + rpb) div rpb" using Suc.prems(2) by (simp only:)
    then show ?thesis using div_add_self2 [of rpb "nrec - n - 1"] assms(1) * by simp
  qed
  note IH = Suc.IH [OF nr(3) this]
  have "take (nr * lrecl) (drop (n * lrecl) data) @ drop ((n + nr) * lrecl) data = drop (n * lrecl) data"
    using append_take_drop_id [of "nr * lrecl" "drop (n * lrecl) data"] by (simp add: add_mult_distrib add.commute)
  moreover have "n * lrecl + nr * lrecl \<le> length data"
    using nr(3) assms(2) by (metis add_mult_distrib mult_le_mono1)
  ultimately show ?case
    using IH nr unfolding blk_loop.simps Let_def nr_def [symmetric] by simp
qed

lemma member_blocks_cover:
  assumes "opts_ok opt" "length data = nrec * o_lrecl opt"
  shows "concat (map (\<lambda>(off, len). take len (drop off data)) (member_blocks opt nrec)) = data"
    and "list_all (\<lambda>(off, len). 0 < len \<and> len \<le> o_blksize opt \<and> off + len \<le> length data) (member_blocks opt nrec)"
  using blk_loop_cover [OF opts_okD(2) [OF assms(1)] assms(2), of 0] opts_okD [OF assms(1)]
  by (simp_all add: member_blocks_def Let_def)

subsection \<open>Addresses of the placed records\<close>

abbreviation (input) cap3350 :: nat where "cap3350 \<equiv> MVS_TRK_PACK_CAP_3350"

definition member_needs :: "xopts \<Rightarrow> xmember \<Rightarrow> nat list" where
  "member_needs opt m = map (\<lambda>(off, len). MVS_TRK_OVH_3350 + len) (member_blocks opt (xm_nrec m)) @ [MVS_TRK_OVH_3350]"

definition member_addrs :: "pmember \<Rightarrow> (nat \<times> nat) list" where
  "member_addrs m = map (\<lambda>b. (b_tt b, b_r b)) (pm_blk m) @ [pm_eof m]"

lemma member_needs_ok: "opts_ok opt \<Longrightarrow> member_ok opt m \<Longrightarrow> list_all need_ok (member_needs opt m)"
  using member_blocks_cover(2) [of opt "xm_data m" "xm_nrec m"]
  by (auto simp: member_needs_def member_ok_def need_ok_def list_all_iff opts_ok_def geo_consts)

lemma map2_sel:
  "length ps = length bl \<Longrightarrow>
   map (\<lambda>b. (b_tt b, b_r b)) (map2 (\<lambda>(off, len) (tt, r). \<lparr>b_off = off, b_len = len, b_tt = tt, b_r = r\<rparr>) bl ps) = ps"
  "length ps = length bl \<Longrightarrow>
   map (\<lambda>b. (b_off b, b_len b)) (map2 (\<lambda>(off, len) (tt, r). \<lparr>b_off = off, b_len = len, b_tt = tt, b_r = r\<rparr>) bl ps) = bl"
  by (induction bl arbitrary: ps; case_tac ps; fastforce)+

text \<open>One member takes the addresses \<open>place_all\<close> hands out for its blocks and its end-of-file record.\<close>

lemma place_member_addrs:
  assumes "place_member opt m s = (pm, s')"
  shows "place_all cap3350 (member_needs opt m) s = (member_addrs pm, s')"
    and "map (\<lambda>b. (b_off b, b_len b)) (pm_blk pm) = member_blocks opt (xm_nrec m)"
    and "xm_ebc pm = xm_ebc m" "xm_data pm = xm_data m" "xm_nrec pm = xm_nrec m" "xm_mtm pm = xm_mtm m"
    and "pm_first pm = (if pm_blk pm = [] then (g_tt s, g_r s) else hd (member_addrs pm))"
proof -
  define bl where "bl = member_blocks opt (xm_nrec m)"
  define ns where "ns = map (\<lambda>(off, len). MVS_TRK_OVH_3350 + len) bl"
  obtain ps s1 where p: "place_all cap3350 ns s = (ps, s1)" by fastforce
  have len: "length ps = length bl" using place_all_length [of cap3350 ns s] p by (simp add: ns_def)
  note def = assms [unfolded place_member_def Let_def, folded bl_def ns_def, unfolded ns_def [symmetric], unfolded p, simplified]
  note sel = def [THEN conjunct1, symmetric] def [THEN conjunct2, symmetric]
  show "place_all cap3350 (member_needs opt m) s = (member_addrs pm, s')"
    using p len by (simp add: member_needs_def bl_def [symmetric] ns_def [symmetric] place_all_append Let_def
        sel member_addrs_def pmember.defs xmember.defs map2_sel del: map_map)
  show "map (\<lambda>b. (b_off b, b_len b)) (pm_blk pm) = member_blocks opt (xm_nrec m)"
    using len by (simp add: sel pmember.defs xmember.defs map2_sel bl_def del: map_map)
  show "xm_ebc pm = xm_ebc m" "xm_data pm = xm_data m" "xm_nrec pm = xm_nrec m" "xm_mtm pm = xm_mtm m"
    by (simp_all add: sel pmember.defs xmember.defs)
  show "pm_first pm = (if pm_blk pm = [] then (g_tt s, g_r s) else hd (member_addrs pm))"
    using len by (cases bl; cases ps) (auto simp: sel pmember.defs xmember.defs member_addrs_def)
qed

lemma assign_loop_addrs:
  "concat (map member_addrs (assign_loop opt ms s)) = fst (place_all cap3350 (concat (map (member_needs opt) ms)) s)"
proof (induction ms arbitrary: s)
  case (Cons m ms)
  obtain pm s' where pm: "place_member opt m s = (pm, s')" by fastforce
  then show ?case
    using Cons.IH [of s'] place_member_addrs(1) [OF pm] by (simp add: place_all_append Let_def case_prod_beta)
qed simp

text \<open>A placed member: its blocks cover its data, and its addresses fit the count field.\<close>

definition pmember_ok :: "xopts \<Rightarrow> pmember \<Rightarrow> bool" where
  "pmember_ok opt m \<longleftrightarrow> length (xm_ebc m) = 8 \<and> xm_ebc m \<noteq> replicate 8 0xff
     \<and> (\<forall>b\<in>set (pm_blk m). 0 < b_len b \<and> b_len b \<le> o_blksize opt \<and> b_off b + b_len b \<le> length (xm_data m))
     \<and> concat (map (\<lambda>b. take (b_len b) (drop (b_off b) (xm_data m))) (pm_blk m)) = xm_data m
     \<and> (\<forall>a\<in>set (member_addrs m). 1 \<le> snd a \<and> snd a \<le> 105)"

lemma place_member_ok:
  assumes "opts_ok opt" "member_ok opt m" "geo_ok s" "place_member opt m s = (pm, s')"
  shows "pmember_ok opt pm" "geo_ok s'" "geo_ttr s \<le> geo_ttr s'"
    "geo_ttr s \<le> ttr (pm_first pm)" "\<forall>a\<in>set (member_addrs pm). ttr (pm_first pm) \<le> ttr a \<and> ttr a < geo_ttr s'"
    "sorted_wrt (\<lambda>a b. ttr a < ttr b) (member_addrs pm)" "snd (pm_first pm) \<le> 105"
proof -
  note pm = place_member_addrs [OF assms(4)]
  have cap: "cap3350 \<le> MVS_TRK_LEN_3350" by (simp add: geo_consts)
  note ns = member_needs_ok [OF assms(1,2)]
  note order = place_all_order [OF assms(3) ns cap, unfolded pm(1), simplified]
  have "length (xm_data m) = xm_nrec m * o_lrecl opt" using assms(2) by (simp add: member_ok_def)
  note cover = member_blocks_cover [OF assms(1) this, folded pm(2)]
  have "concat (map (\<lambda>b. take (b_len b) (drop (b_off b) (xm_data m))) (pm_blk pm)) = xm_data m"
    using cover(1) by (simp add: o_def)
  moreover have "\<forall>b\<in>set (pm_blk pm). 0 < b_len b \<and> b_len b \<le> o_blksize opt \<and> b_off b + b_len b \<le> length (xm_data m)"
    using cover(2) by (simp add: list.pred_map list_all_iff)
  ultimately show "pmember_ok opt pm"
    using assms(2) order by (simp add: pmember_ok_def member_ok_def pm)
  show "geo_ok s'" using place_all_ok [OF assms(3) ns cap] pm(1) by simp
  show "geo_ttr s \<le> geo_ttr s'" "sorted_wrt (\<lambda>a b. ttr a < ttr b) (member_addrs pm)" using order by simp_all
  have ne: "member_addrs pm \<noteq> []" by (simp add: member_addrs_def)
  then obtain a as where as: "member_addrs pm = a # as" by (cases "member_addrs pm") auto
  have first: "pm_first pm = (g_tt s, g_r s) \<or> pm_first pm = a" using pm(7) as by simp
  then show "geo_ttr s \<le> ttr (pm_first pm)" using order as by (auto simp: geo_ttr_def)
  show "snd (pm_first pm) \<le> 105" using first order as geo_r_bound [OF assms(3)] by auto
  have "\<forall>b\<in>set (member_addrs pm). ttr a \<le> ttr b" using order as by auto
  moreover have "geo_ttr s \<le> ttr a" using order as by simp
  ultimately show "\<forall>b\<in>set (member_addrs pm). ttr (pm_first pm) \<le> ttr b \<and> ttr b < geo_ttr s'"
    using first order by (auto simp: geo_ttr_def)
qed

text \<open>
  The members in order: each one's directory address lies above every record of the members before
  it and at or below its own records, empty members included.
\<close>

fun placed_from :: "nat \<Rightarrow> pmember list \<Rightarrow> bool" where
  "placed_from lo [] \<longleftrightarrow> True"
| "placed_from lo (m # ms) \<longleftrightarrow> lo \<le> ttr (pm_first m) \<and> (\<forall>a\<in>set (member_addrs m). ttr (pm_first m) \<le> ttr a)
     \<and> (\<exists>hi. (\<forall>a\<in>set (member_addrs m). ttr a < hi) \<and> placed_from hi ms)"

lemma assign_loop_ok:
  assumes "opts_ok opt" "list_all (member_ok opt) ms" "geo_ok s"
  shows "list_all (pmember_ok opt) (assign_loop opt ms s) \<and> placed_from (geo_ttr s) (assign_loop opt ms s)
    \<and> list_all (\<lambda>m. snd (pm_first m) \<le> 105) (assign_loop opt ms s)"
  using assms(2,3)
proof (induction ms arbitrary: s)
  case (Cons m ms)
  obtain pm s' where pm: "place_member opt m s = (pm, s')" by fastforce
  have "member_ok opt m" using Cons.prems by simp
  note ok = place_member_ok [OF assms(1) this Cons.prems(2) pm]
  then show ?case using Cons.IH [OF _ ok(2)] Cons.prems pm by auto
qed simp

lemma assign_loop_keeps:
  "map (\<lambda>m. (xm_ebc m, xm_data m, xm_nrec m)) (assign_loop opt ms s) = map (\<lambda>m. (xm_ebc m, xm_data m, xm_nrec m)) ms"
proof (induction ms arbitrary: s)
  case (Cons m ms)
  obtain pm s' where pm: "place_member opt m s = (pm, s')" by fastforce
  show ?case
    using Cons.IH [of s'] by (simp only: assign_loop.simps pm Let_def prod.case list.map place_member_addrs(3,4,5) [OF pm])
qed simp

lemma assign_loop_length [simp]: "length (assign_loop opt ms s) = length ms"
  by (induction ms arbitrary: s) (simp_all add: case_prod_beta)

subsection \<open>The image as a chain of CKD records\<close>

definition data_ckd :: "nat \<times> nat \<Rightarrow> bytes \<Rightarrow> ckd" where
  "data_ckd a d = \<lparr>ck_cc = MVS_UNLOAD_DATA_CC + fst a div MVS_TRKPERCYL_3350,
     ck_hh = fst a mod MVS_TRKPERCYL_3350, ck_r = snd a, ck_key = [], ck_data = d\<rparr>"

definition member_ckds :: "pmember \<Rightarrow> ckd list" where
  "member_ckds m = map (\<lambda>b. data_ckd (b_tt b, b_r b) (take (b_len b) (drop (b_off b) (xm_data m)))) (pm_blk m)
     @ [data_ckd (pm_eof m) []]"

lemma emit_member_chain: "pmember_ok opt m \<Longrightarrow> emit_member m = ckdc.chain (member_ckds m)"
proof -
  assume "pmember_ok opt m"
  then have "\<forall>b\<in>set (pm_blk m). length (take (b_len b) (drop (b_off b) (xm_data m))) = b_len b"
    by (auto simp: pmember_ok_def)
  then have "\<And>b. b \<in> set (pm_blk m) \<Longrightarrow> data_count (b_tt b, b_r b) (b_len b) @ take (b_len b) (drop (b_off b) (xm_data m))
    = ckd_bytes (data_ckd (b_tt b, b_r b) (take (b_len b) (drop (b_off b) (xm_data m))))"
    by (simp add: data_count_def ckd_bytes_def data_ckd_def)
  then have "map (\<lambda>b. data_count (b_tt b, b_r b) (b_len b) @ take (b_len b) (drop (b_off b) (xm_data m))) (pm_blk m)
    = map ckd_bytes (map (\<lambda>b. data_ckd (b_tt b, b_r b) (take (b_len b) (drop (b_off b) (xm_data m)))) (pm_blk m))"
    unfolding map_map o_def by (rule map_cong [OF refl])
  moreover have "data_count (pm_eof m) 0 = ckd_bytes (data_ckd (pm_eof m) [])"
    by (simp add: data_count_def ckd_bytes_def data_ckd_def case_prod_beta)
  ultimately show ?thesis
    unfolding emit_member_def member_ckds_def ckdc.chain_append ckdc.chain_def by (simp only: list.map map_append concat_append concat.simps append_Nil2)
qed

lemma emit_member_length:
  "pmember_ok opt m \<Longrightarrow> length (emit_member m) = (\<Sum>b\<leftarrow>pm_blk m. 12 + b_len b) + 12"
proof -
  assume "pmember_ok opt m"
  then have "\<forall>b\<in>set (pm_blk m). length (take (b_len b) (drop (b_off b) (xm_data m))) = b_len b"
    by (auto simp: pmember_ok_def)
  then show ?thesis
    by (simp add: emit_member_def length_concat o_def data_count_def case_prod_beta cong: map_cong)
qed

subsection \<open>The directory as groups of entries\<close>

function dir_groups :: "xopts \<Rightarrow> pmember list \<Rightarrow> (pmember list \<times> bool) list" where
  "dir_groups opt ms =
    (if length ms \<le> per_last opt then [(ms, True)]
     else (take (per_full opt) ms, False) # dir_groups opt (drop (per_full opt) ms))"
  by pat_completeness auto
termination
  by (relation "measure (\<lambda>(opt, ms). length ms)") (auto simp: per_values)

declare dir_groups.simps [simp del]

lemma dir_loop_groups: "dir_loop opt ms = concat (map (\<lambda>(g, l). dir_record opt g l) (dir_groups opt ms))"
proof (induction opt ms rule: dir_loop.induct)
  case (1 opt ms)
  then show ?case by (subst dir_loop.simps, subst dir_groups.simps) simp
qed

lemma dir_groups_concat: "concat (map fst (dir_groups opt ms)) = ms"
proof (induction opt ms rule: dir_groups.induct)
  case (1 opt ms)
  then show ?case by (subst dir_groups.simps) simp
qed

lemma count_dir_loop_acc: "count_dir_loop opt nmem i (n + 1) = count_dir_loop opt nmem i n + 1"
proof (induction opt nmem i n rule: count_dir_loop.induct)
  case (1 opt nmem i n)
  then show ?case by (subst count_dir_loop.simps, subst (2) count_dir_loop.simps) simp
qed

lemma count_dir_loop_shift: "count_dir_loop opt nmem (j + i) n = count_dir_loop opt (nmem - j) i n"
proof (induction opt "nmem - j" i n rule: count_dir_loop.induct)
  case (1 opt i n)
  then show ?case
    by (subst count_dir_loop.simps, subst (2) count_dir_loop.simps) (simp add: add.assoc)
qed

lemma dir_groups_length: "length (dir_groups opt ms) = count_dir_blocks opt (length ms)"
proof (induction opt ms rule: dir_groups.induct)
  case (1 opt ms)
  have "count_dir_loop opt (length ms) 0 1 =
      (if length ms \<le> per_last opt then 1 else count_dir_loop opt (length ms - per_full opt) 0 1 + 1)"
    using count_dir_loop_shift [of opt "length ms" "per_full opt" 0 "1 + 1"] count_dir_loop_acc [of opt _ 0 1]
    by (subst count_dir_loop.simps) simp
  then show ?case using 1 by (subst dir_groups.simps) (simp add: count_dir_blocks_def)
qed

definition group_ok :: "xopts \<Rightarrow> pmember list \<times> bool \<Rightarrow> bool" where
  "group_ok opt g \<longleftrightarrow> (case g of (ms, l) \<Rightarrow> list_all (pmember_ok opt) ms \<and> (ms = [] \<longrightarrow> l)
     \<and> length ms \<le> (if l then per_last opt else per_full opt))"

lemma dir_groups_ok:
  "list_all (pmember_ok opt) ms \<Longrightarrow> list_all (group_ok opt) (dir_groups opt ms)"
proof (induction opt ms rule: dir_groups.induct)
  case (1 opt ms)
  have "list_all (pmember_ok opt) (take n ms)" "list_all (pmember_ok opt) (drop n ms)" for n
    using 1(2) by (auto simp: list_all_iff dest: in_set_takeD in_set_dropD)
  moreover have "\<not> length ms \<le> per_last opt \<Longrightarrow> take (per_full opt) ms \<noteq> []"
    by (auto simp: per_values split: if_splits)
  ultimately show ?case
    using 1 by (subst dir_groups.simps) (simp add: group_ok_def [of _ "(_, _)"])
qed

lemma dir_entry_length: "pmember_ok opt m \<Longrightarrow> length (dir_entry opt m) = ent_len opt"
  by (simp add: dir_entry_def pmember_ok_def ent_len_def ud_len_def)

lemma dir_entries_length:
  "list_all (pmember_ok opt) ms \<Longrightarrow> length (concat (map (dir_entry opt) ms)) = length ms * ent_len opt"
  by (induction ms) (simp_all add: dir_entry_length)

lemma group_room:
  "group_ok opt (ms, l) \<Longrightarrow> 2 + length ms * ent_len opt + (if l then 12 else 0) \<le> DIR_BLK"
  by (auto simp: group_ok_def per_values ent_len_def ud_len_def DIR_BLK_def split: if_splits)

lemma dir_block_length: "group_ok opt (ms, l) \<Longrightarrow> length (dir_block opt ms l) = DIR_BLK"
  using group_room [of opt ms l] dir_entries_length [of opt ms]
  by (auto simp: dir_block_def Let_def group_ok_def)

lemma dir_key_length:
  "group_ok opt (ms, l) \<Longrightarrow> length (if l then replicate 8 0xff else xm_ebc (last ms)) = 8"
  by (auto simp: group_ok_def list_all_iff pmember_ok_def)

definition dir_ckd :: "xopts \<Rightarrow> pmember list \<times> bool \<Rightarrow> ckd" where
  "dir_ckd opt g = (case g of (ms, l) \<Rightarrow> \<lparr>ck_cc = 0, ck_hh = 0, ck_r = 0,
     ck_key = (if l then replicate 8 0xff else xm_ebc (last ms)), ck_data = dir_block opt ms l\<rparr>)"

definition eod_ckd :: ckd where
  "eod_ckd = \<lparr>ck_cc = 0, ck_hh = 0, ck_r = 0, ck_key = [], ck_data = []\<rparr>"

lemma dir_record_ckd: "group_ok opt (ms, l) \<Longrightarrow> dir_record opt ms l = ckd_bytes (dir_ckd opt (ms, l))"
  using dir_block_length [of opt ms l] dir_key_length [of opt ms l]
  by (simp add: dir_record_def ckd_bytes_def dir_ckd_def)

lemma eod_bytes: "ckd_bytes eod_ckd = replicate 12 0"
  by (simp add: ckd_bytes_def eod_ckd_def mvs_put_count_def mvs_put16_def numeral_eq_Suc)

lemma emit_dir_chain:
  assumes "list_all (pmember_ok opt) ms"
  shows "emit_dir opt ms = ckdc.chain (map (dir_ckd opt) (dir_groups opt ms) @ [eod_ckd])"
proof -
  have "map (\<lambda>(g, l). dir_record opt g l) (dir_groups opt ms) = map ckd_bytes (map (dir_ckd opt) (dir_groups opt ms))"
    using dir_groups_ok [OF assms] by (auto simp: list_all_iff dir_record_ckd)
  then show ?thesis
    unfolding emit_dir_def dir_loop_groups ckdc.chain_append ckdc.chain_def
    by (simp only: list.map map_append concat_append concat.simps append_Nil2 eod_bytes)
qed

lemma dir_ckd_length: "group_ok opt g \<Longrightarrow> length (ckd_bytes (dir_ckd opt g)) = 12 + 8 + DIR_BLK"
  using dir_block_length [of opt "fst g" "snd g"] dir_key_length [of opt "fst g" "snd g"]
  by (simp add: ckd_bytes_length dir_ckd_def case_prod_beta)

lemma emit_dir_length:
  assumes "list_all (pmember_ok opt) ms"
  shows "length (emit_dir opt ms) = count_dir_blocks opt (length ms) * (12 + 8 + DIR_BLK) + 12"
proof -
  have "\<forall>g\<in>set (dir_groups opt ms). length (ckd_bytes (dir_ckd opt g)) = 12 + 8 + DIR_BLK"
    using dir_groups_ok [OF assms] by (auto simp: list_all_iff dir_ckd_length)
  then show ?thesis
    unfolding emit_dir_chain [OF assms] ckdc.chain_def
    by (simp add: length_concat o_def dir_groups_length eod_bytes sum_list_triv cong: map_cong)
qed

subsection \<open>The size of the image\<close>

lemma unload_hdr_length [simp]: "length (unload_hdr opt n) = MVS_ENV_HDR_LEN"
  by (simp add: unload_hdr_def Let_def MVS_ENV_HDR_LEN_def)

lemma emit_unload_length:
  assumes "list_all (pmember_ok opt) ms"
  shows "length (fst (emit_unload opt ms)) = unload_size opt ms"
proof -
  have "\<forall>m\<in>set ms. length (emit_member m) = (\<Sum>b\<leftarrow>pm_blk m. 12 + b_len b) + 12"
    using assms by (auto simp: list_all_iff emit_member_length)
  then show ?thesis
    by (simp add: emit_unload_def Let_def emit_dir_length [OF assms] unload_size_def length_concat o_def cong: map_cong)
qed

end
