(* ===== verification/Xmit_Emit.thy ===== *)
theory Xmit_Emit
  imports Xmit_Unload
begin

section \<open>xmit370: wrapping the image in NETDATA\<close>

text \<open>
  \<^verbatim>\<open>xmit_ftime\<close> and \<^verbatim>\<open>emit_xmit\<close>: the INMR control records, the framing of the unload image into
  logical records (COPYR1, COPYR2, the directory blocks, the packed member data) and the padding to
  80 bytes. The current time is an argument. The framing loops read the lengths of the CKD records
  in the image; on the chains \<open>emit_unload\<close> writes they cut between records only.
\<close>

subsection \<open>The time stamp\<close>

definition ctwo :: "int \<Rightarrow> int" where
  "ctwo v = (v smod 100 + 100) smod 100"

text \<open>\<^verbatim>\<open>printf\<close>'s \<^verbatim>\<open>%0nd\<close> of a value of at most \<open>n\<close> digits.\<close>

fun digits :: "nat \<Rightarrow> nat \<Rightarrow> string" where
  "digits 0 v = []"
| "digits (Suc n) v = digits n (v div 10) @ [char_of (48 + v mod 10 :: nat)]"

definition xmit_ftime :: "xopts \<Rightarrow> tm \<Rightarrow> bytes" where
  "xmit_ftime opt now =
    (let t = (case o_stats_tm opt of Some t \<Rightarrow> t | None \<Rightarrow> now);
         yy = ((tm_year t + 1900) smod 10000 + 10000) smod 10000;
         a = digits 4 (nat yy) @ digits 2 (nat (ctwo (tm_mon t + 1))) @ digits 2 (nat (ctwo (tm_mday t)))
           @ digits 2 (nat (ctwo (tm_hour t))) @ digits 2 (nat (ctwo (tm_min t))) @ digits 2 (nat (ctwo (tm_sec t))) @ ''00''
     in map (\<lambda>c. mvs_a2e (ascii c)) a)"

lemma digits_length [simp]: "length (digits n v) = n"
  by (induction n arbitrary: v) simp_all

lemma ftime_length [simp]: "length (xmit_ftime opt now) = 16"
  by (simp add: xmit_ftime_def Let_def)

subsection \<open>Control records\<close>

definition RECV_MAXREC :: nat where "RECV_MAXREC = 32764"
definition MVS_DSORG_PO :: int where "MVS_DSORG_PO = 0x0200"
definition MVS_DSORG_PS :: int where "MVS_DSORG_PS = 0x4000"
definition MVS_INMRECFM_INMCOPY :: int where "MVS_INMRECFM_INMCOPY = 0x4802"

definition inmr01 :: "xopts \<Rightarrow> tm \<Rightarrow> bytes" where
  "inmr01 opt now = mvs_inmr_hdr 1 @ mvs_tui INM_LRECL 80 4 @ mvs_tus INM_FNODE ''ORIGNODE''
     @ mvs_tus INM_FUID (o_userid opt) @ mvs_tus INM_TNODE ''ORIGNODE'' @ mvs_tus INM_TUID (o_userid opt)
     @ mvs_tu INM_FTIME (xmit_ftime opt now) 16 @ mvs_tui INM_NUMF 1 1"

definition inmr02_iebcopy :: "xopts \<Rightarrow> nat \<Rightarrow> nat \<Rightarrow> bytes" where
  "inmr02_iebcopy opt data_size nmem =
    (let ndb = count_dir_blocks opt nmem; inmdir = (if ndb + 5 < 10 then 10 else ndb + 5)
     in mvs_inmr_hdr 2 @ mvs_put24 0 @ [1] @ mvs_tus INM_UTILN ''IEBCOPY'' @ mvs_tui INM_SIZE (int data_size) 4
       @ mvs_tui INM_DIR (int inmdir) 3 @ mvs_tui INM_LRECL (int (o_lrecl opt)) 4 @ mvs_tui INM_DSORG MVS_DSORG_PO 2
       @ mvs_tui INM_BLKSZ (int (o_blksize opt)) 4 @ mvs_tui INM_RECFM (push_bit 8 (int (o_recfm opt))) 2
       @ mvs_tu_dsname (o_dsn opt))"

definition inmr02_inmcopy :: "xopts \<Rightarrow> nat \<Rightarrow> bytes" where
  "inmr02_inmcopy opt unl_size = mvs_inmr_hdr 2 @ mvs_put24 0 @ [1] @ mvs_tus INM_UTILN ''INMCOPY''
     @ mvs_tui INM_SIZE (int unl_size) 4 @ mvs_tui INM_LRECL (int (unl_blksize opt) - 4) 4
     @ mvs_tui INM_DSORG MVS_DSORG_PS 2 @ mvs_tui INM_BLKSZ (int (unl_blksize opt)) 4
     @ mvs_tui INM_RECFM MVS_INMRECFM_INMCOPY 2"

definition inmr03 :: "nat \<Rightarrow> bytes" where
  "inmr03 data_size = mvs_inmr_hdr 3 @ mvs_tui INM_SIZE (int data_size) 4 @ mvs_tui INM_LRECL 80 4
     @ mvs_tui INM_DSORG MVS_DSORG_PS 2 @ mvs_tui INM_RECFM 0x0001 2"

lemma tu_length:
  "length val = len \<Longrightarrow> length (mvs_tu key val len) = 6 + len" "length (mvs_tui key v n) = 6 + n"
  "length (mvs_tus key s) = 6 + min 44 (length s)"
  by (auto simp: mvs_tu_def mvs_tui_def mvs_tus_def Let_def)

lemma inmr01_length: "length (inmr01 opt now) \<le> 173"
  by (simp add: inmr01_def tu_length inmr_hdr_facts)

text \<open>The largest control record, for a data set name of at most 44 characters: far below \<^verbatim>\<open>r[1024]\<close>.\<close>

lemma inmr02_length:
  "length (inmr02_iebcopy opt ds n) = 83 + length (o_dsn opt) + length (quals (o_dsn opt))"
  "length (inmr02_inmcopy opt us) = 69" "length (inmr03 ds) = 42"
  by (simp_all add: inmr02_iebcopy_def inmr02_inmcopy_def inmr03_def tu_length inmr_hdr_facts Let_def dsname_length)

subsection \<open>Framing the image\<close>

lemma ckd_reclen_pos: "0 < ckd_reclen u p"
  by (simp add: ckd_reclen_def)

text \<open>The directory loop: one logical record per block, the last one taking the end-of-directory marker along.\<close>

function dir_frames :: "bytes \<Rightarrow> nat \<Rightarrow> nat \<Rightarrow> bytes list" where
  "dir_frames unl q hi =
    (if q < hi then
       let reclen = ckd_reclen unl q; nq = q + reclen;
           reclen = (if nq < hi then
                       let nlen = ckd_reclen unl nq in if nq + nlen \<ge> hi then reclen + nlen else reclen
                     else reclen)
       in take reclen (drop q unl) # dir_frames unl (q + reclen) hi
     else [])"
  by pat_completeness auto
termination
  by (relation "measure (\<lambda>(unl, q, hi). hi - q)") (auto simp: Let_def ckd_reclen_pos intro!: diff_less_mono2)

declare dir_frames.simps [simp del]

text \<open>The inner loop over the data: records are taken while they fit \<open>maxrec\<close>, up to a member's end.\<close>

function data_pack :: "bytes \<Rightarrow> nat \<Rightarrow> nat \<Rightarrow> nat \<Rightarrow> nat \<Rightarrow> nat \<times> nat" where
  "data_pack unl hi maxrec q clen =
    (if q < hi then
       let dl = mvs_be16 unl (q + 10); reclen = ckd_reclen unl q in
       if clen > 0 \<and> clen + reclen > maxrec then (q, clen)
       else
         let clen = clen + reclen; q = q + reclen in
         if dl = 0 then (q, clen) else if clen \<ge> maxrec then (q, clen) else data_pack unl hi maxrec q clen
     else (q, clen))"
  by pat_completeness auto
termination
  by (relation "measure (\<lambda>(unl, hi, maxrec, q, clen). hi - q)") (auto simp: ckd_reclen_pos intro!: diff_less_mono2)

declare data_pack.simps [simp del]

lemma data_pack_advance:
  "data_pack unl hi maxrec q clen = (q', clen') \<Longrightarrow> q' + clen = q + clen' \<and> clen \<le> clen' \<and> (clen = 0 \<longrightarrow> q < hi \<longrightarrow> 0 < clen')"
proof (induction unl hi maxrec q clen arbitrary: q' clen' rule: data_pack.induct)
  case (1 unl hi maxrec q clen)
  let ?n = "ckd_reclen unl q"
  have n: "0 < ?n" by (rule ckd_reclen_pos)
  note step = 1(2) [unfolded data_pack.simps [of unl hi maxrec q clen] Let_def]
  show ?case
  proof (cases "q < hi \<and> \<not> (0 < clen \<and> maxrec < clen + ?n) \<and> mvs_be16 unl (q + 10) \<noteq> 0 \<and> \<not> maxrec \<le> clen + ?n")
    case True
    then have "data_pack unl hi maxrec (q + ?n) (clen + ?n) = (q', clen')" using step by simp
    from 1(1) [OF _ refl refl _ refl refl _ _ this] True show ?thesis using n by auto
  next
    case False
    then show ?thesis using step n by (auto split: if_splits)
  qed
qed

function data_frames :: "bytes \<Rightarrow> nat \<Rightarrow> nat \<Rightarrow> nat \<Rightarrow> bytes list" where
  "data_frames unl hi maxrec q =
    (if q < hi then
       let (q', clen) = data_pack unl hi maxrec q 0
       in take clen (drop q unl) # data_frames unl hi maxrec q'
     else [])"
  by pat_completeness auto
termination
proof (relation "measure (\<lambda>(unl, hi, maxrec, q). hi - q)", goal_cases)
  case (2 unl hi maxrec q x q' clen)
  then show ?case using data_pack_advance [of unl hi maxrec q 0 q' clen] by auto
qed simp

declare data_frames.simps [simp del]

definition emit_xmit :: "xopts \<Rightarrow> tm \<Rightarrow> nat \<Rightarrow> bytes \<times> nat \<times> nat \<times> nat \<times> nat \<Rightarrow> bytes" where
  "emit_xmit opt now nmem img =
    (case img of (unl, b0, b1, b2, b3) \<Rightarrow>
     let data_size = b3 - b2; unl_size = b3;
         maxrec = o_blksize opt + 20; maxrec = (if maxrec > RECV_MAXREC then RECV_MAXREC else maxrec);
         p = mvs_netdata_seg (inmr01 opt now) True
           @ mvs_netdata_seg (inmr02_iebcopy opt data_size nmem) True
           @ mvs_netdata_seg (inmr02_inmcopy opt unl_size) True
           @ mvs_netdata_seg (inmr03 data_size) True
           @ mvs_netdata_seg (take b0 unl) False
           @ mvs_netdata_seg (take (b1 - b0) (drop b0 unl)) False
           @ concat (map (\<lambda>r. mvs_netdata_seg r False) (dir_frames unl b1 b2))
           @ concat (map (\<lambda>r. mvs_netdata_seg r False) (data_frames unl b3 maxrec b2))
           @ mvs_netdata_seg (mvs_inmr_hdr 6) True
     in p @ replicate ((80 - length p mod 80) mod 80) 0)"

subsection \<open>Frames on a chain of records\<close>

fun dir_cut :: "ckd list \<Rightarrow> bytes list" where
  "dir_cut [] = []"
| "dir_cut [k] = [ckd_bytes k]"
| "dir_cut [k, l] = [ckd_bytes k @ ckd_bytes l]"
| "dir_cut (k # l # m # ks) = ckd_bytes k # dir_cut (l # m # ks)"

lemma dir_cut_concat: "concat (dir_cut ks) = ckdc.chain ks"
  by (induction ks rule: dir_cut.induct) simp_all

lemma ckd_bytes_pos: "0 < length (ckd_bytes k)"
  by (simp add: ckd_bytes_length)

lemma dir_frames_chain:
  assumes "list_all ckd_ok ks"
  shows "dir_frames (pre @ ckdc.chain ks @ suf) (length pre) (length pre + length (ckdc.chain ks)) = dir_cut ks"
  using assms
proof (induction ks arbitrary: pre rule: dir_cut.induct)
  case 1
  then show ?case by (subst dir_frames.simps) simp
next
  case (2 k)
  have "ckd_reclen (pre @ ckd_bytes k @ suf) (length pre) = length (ckd_bytes k)"
    using ckdc.reclen_here [of k pre suf] 2 by simp
  then show ?case
    using ckd_bytes_pos [of k] by (subst dir_frames.simps) (simp add: Let_def, subst dir_frames.simps, simp)
next
  case (3 k l)
  have "ckd_reclen (pre @ ckd_bytes k @ ckd_bytes l @ suf) (length pre) = length (ckd_bytes k)"
    "ckd_reclen (pre @ ckd_bytes k @ ckd_bytes l @ suf) (length pre + length (ckd_bytes k)) = length (ckd_bytes l)"
    using ckdc.reclen_here [of k pre "ckd_bytes l @ suf"] ckdc.reclen_here [of l "pre @ ckd_bytes k" suf] 3 by simp_all
  then show ?case
    using ckd_bytes_pos [of k] ckd_bytes_pos [of l]
    by (subst dir_frames.simps) (simp add: Let_def, subst dir_frames.simps, simp)
next
  case (4 k l m ks)
  let ?rest = "ckdc.chain (l # m # ks) @ suf"
  let ?u = "pre @ ckd_bytes k @ ?rest"
  have r: "ckd_reclen ?u (length pre) = length (ckd_bytes k)"
    "ckd_reclen ?u (length pre + length (ckd_bytes k)) = length (ckd_bytes l)"
    using ckdc.reclen_here [of k pre ?rest] ckdc.reclen_here [of l "pre @ ckd_bytes k" "ckdc.chain (m # ks) @ suf"] 4(2)
    by simp_all
  have IH: "dir_frames ?u (length pre + length (ckd_bytes k))
      (length pre + length (ckd_bytes k) + length (ckdc.chain (l # m # ks))) = dir_cut (l # m # ks)"
    using 4(1) [of "pre @ ckd_bytes k"] 4(2) by (simp add: add.assoc)
  then show ?case
    using r ckd_bytes_pos [of k] ckd_bytes_pos [of l] ckd_bytes_pos [of m]
    by (subst dir_frames.simps) (simp add: Let_def add.assoc)
qed

text \<open>The records one data frame takes, and what is left.\<close>

fun pack :: "nat \<Rightarrow> nat \<Rightarrow> ckd list \<Rightarrow> ckd list \<times> ckd list" where
  "pack maxrec clen [] = ([], [])"
| "pack maxrec clen (k # ks) =
    (let n = length (ckd_bytes k) in
     if clen > 0 \<and> clen + n > maxrec then ([], k # ks)
     else if ck_data k = [] \<or> clen + n \<ge> maxrec then ([k], ks)
     else let (as, bs) = pack maxrec (clen + n) ks in (k # as, bs))"

lemma pack_append: "pack maxrec clen ks = (as, bs) \<Longrightarrow> ks = as @ bs"
  by (induction ks arbitrary: clen as) (auto simp: Let_def split: if_splits prod.splits)

lemma pack_nonempty: "pack maxrec 0 (k # ks) = (as, bs) \<Longrightarrow> as \<noteq> []"
  by (auto simp: Let_def split: if_splits prod.splits)

lemma pack_shorter:
  assumes "ks \<noteq> []" "(as, bs) = pack maxrec 0 ks" shows "length bs < length ks"
proof -
  have "pack maxrec 0 ks = (as, bs)" using assms(2) by simp
  moreover from this assms(1) have "as \<noteq> []" using pack_nonempty [of maxrec "hd ks" "tl ks" as bs] by simp
  ultimately show ?thesis using pack_append [of maxrec 0 ks as bs] by simp
qed

function packs :: "nat \<Rightarrow> ckd list \<Rightarrow> ckd list list" where
  "packs maxrec ks = (if ks = [] then [] else let (as, bs) = pack maxrec 0 ks in as # packs maxrec bs)"
  by pat_completeness auto
termination
  by (relation "measure (\<lambda>(m, ks). length ks)") (auto dest: pack_shorter)

declare packs.simps [simp del]

lemma packs_concat: "concat (packs maxrec ks) = ks"
proof (induction maxrec ks rule: packs.induct)
  case (1 maxrec ks)
  obtain as bs where p: "pack maxrec 0 ks = (as, bs)" by fastforce
  have "ks \<noteq> [] \<Longrightarrow> concat (packs maxrec bs) = bs" using 1 [OF _ p [symmetric] refl] .
  moreover have "packs maxrec ks = (if ks = [] then [] else as # packs maxrec bs)"
    by (subst packs.simps) (simp add: p)
  ultimately show ?case using pack_append [OF p] by simp
qed

lemma data_pack_chain:
  assumes "list_all ckd_ok ks" "pack maxrec clen ks = (as, bs)"
  shows "data_pack (pre @ ckdc.chain ks @ suf) (length pre + length (ckdc.chain ks)) maxrec (length pre) clen
    = (length pre + length (ckdc.chain as), clen + length (ckdc.chain as))"
  using assms
proof (induction ks arbitrary: pre clen as bs)
  case Nil
  then show ?case by (subst data_pack.simps) simp
next
  case (Cons k ks)
  let ?u = "pre @ ckd_bytes k @ ckdc.chain ks @ suf" and ?n = "length (ckd_bytes k)"
  let ?hi = "length pre + (?n + length (ckdc.chain ks))"
  have ok: "ckd_ok k" using Cons.prems by simp
  have r: "ckd_reclen ?u (length pre) = ?n" "mvs_be16 ?u (length pre + 10) = length (ck_data k)"
    using ckdc.reclen_here [OF ok, of pre "ckdc.chain ks @ suf"] ckd_fields(5) [OF ok refl, of pre "ckdc.chain ks @ suf"]
    by simp_all
  have unf: "data_pack ?u ?hi maxrec (length pre) clen =
     (if clen > 0 \<and> clen + ?n > maxrec then (length pre, clen)
      else if ck_data k = [] \<or> clen + ?n \<ge> maxrec then (length pre + ?n, clen + ?n)
      else data_pack ?u ?hi maxrec (length pre + ?n) (clen + ?n))"
    using ckd_bytes_pos [of k] by (subst data_pack.simps) (auto simp add: Let_def r)
  obtain cs ds where rest: "pack maxrec (clen + ?n) ks = (cs, ds)" by fastforce
  have IH: "data_pack ?u ?hi maxrec (length pre + ?n) (clen + ?n)
      = (length pre + ?n + length (ckdc.chain cs), clen + ?n + length (ckdc.chain cs))"
    using Cons.IH [OF _ rest, of "pre @ ckd_bytes k"] Cons.prems by (simp add: add.assoc)
  show ?case
    using Cons.prems(2) rest unfolding ckdc.chain_Cons append_assoc length_append unf IH
    by (auto simp: Let_def split: if_splits)
qed

lemma data_frames_chain:
  assumes "list_all ckd_ok ks"
  shows "data_frames (pre @ ckdc.chain ks @ suf) (length pre + length (ckdc.chain ks)) maxrec (length pre)
    = map ckdc.chain (packs maxrec ks)"
  using assms
proof (induction maxrec ks arbitrary: pre rule: packs.induct)
  case (1 maxrec ks)
  obtain as bs where p: "pack maxrec 0 ks = (as, bs)" by fastforce
  note ks = pack_append [OF p]
  show ?case
  proof (cases "ks = []")
    case True
    then show ?thesis by (subst data_frames.simps, subst packs.simps) simp
  next
    case False
    then have pos: "0 < length (ckdc.chain ks)" using ckdc.at_end_iff [OF 1(2), of "[]"] by simp
    have IH: "data_frames ((pre @ ckdc.chain as) @ ckdc.chain bs @ suf)
        (length (pre @ ckdc.chain as) + length (ckdc.chain bs)) maxrec (length (pre @ ckdc.chain as))
        = map ckdc.chain (packs maxrec bs)"
      using 1(2) ks by (intro 1(1) [OF False p [symmetric] refl]) simp
    show ?thesis
      using data_pack_chain [OF 1(2) p, of pre suf] IH pos False
      by (subst data_frames.simps, subst packs.simps) (simp add: p [unfolded ks] Let_def ks add.assoc)
  qed
qed

subsection \<open>What a data frame holds\<close>

lemma pack_load:
  "pack maxrec clen ks = (as, bs) \<Longrightarrow> 0 < clen \<Longrightarrow> clen \<le> maxrec \<Longrightarrow> clen + length (ckdc.chain as) \<le> maxrec"
proof (induction ks arbitrary: clen as bs)
  case (Cons k ks)
  obtain cs ds where r: "pack maxrec (clen + length (ckd_bytes k)) ks = (cs, ds)" by fastforce
  show ?case using Cons.prems Cons.IH [OF r] r by (auto simp: Let_def split: if_splits)
qed simp

lemma pack_ends: "pack maxrec clen ks = (as, bs) \<Longrightarrow> as \<noteq> [] \<Longrightarrow> \<forall>k\<in>set (butlast as). ck_data k \<noteq> []"
proof (induction ks arbitrary: clen as bs)
  case (Cons k ks)
  obtain cs ds where r: "pack maxrec (clen + length (ckd_bytes k)) ks = (cs, ds)" by fastforce
  show ?case
    using Cons.prems Cons.IH [OF r] r by (cases cs) (auto simp: Let_def split: if_splits)
qed simp

text \<open>
  The shape of the data records: a record is a full block, an end-of-file record, or a short last
  block, which its member's end-of-file record follows.
\<close>

fun framed :: "nat \<Rightarrow> nat \<Rightarrow> ckd list \<Rightarrow> bool" where
  "framed blk lrecl [] \<longleftrightarrow> True"
| "framed blk lrecl (k # ks) \<longleftrightarrow> ck_key k = []
     \<and> (length (ck_data k) = blk \<or> ck_data k = [] \<or> length (ck_data k) + lrecl \<le> blk \<and> ks \<noteq> [] \<and> ck_data (hd ks) = [])
     \<and> framed blk lrecl ks"

lemma framed_append: "framed blk l xs \<Longrightarrow> framed blk l ys \<Longrightarrow> framed blk l (xs @ ys)"
proof (induction xs)
  case (Cons x xs)
  then show ?case by (cases xs) auto
qed simp

lemma framed_suffix: "framed blk l (xs @ ys) \<Longrightarrow> framed blk l ys"
  by (induction xs) auto

lemma pack_frame_size:
  assumes "framed blk lrecl ks" "12 \<le> lrecl" "pack (blk + 20) 0 ks = (as, bs)"
  shows "length (ckdc.chain as) \<le> blk + 12"
proof (cases ks)
  case (Cons k ks')
  have key: "length (ckd_bytes k) = 12 + length (ck_data k)" using assms(1) Cons by (simp add: ckd_bytes_length)
  show ?thesis
  proof (cases "ck_data k = [] \<or> length (ck_data k) = blk")
    case True
    have "pack (blk + 20) (blk + 12) ks' = ([], ks')" by (cases ks') (simp_all add: Let_def ckd_bytes_length)
    then have "as = [k]" using assms(3) True Cons key by (auto simp: Let_def add.commute split: prod.splits if_splits)
    then show ?thesis using True key by auto
  next
    case False
    then obtain e ks'' where e: "ks' = e # ks''" "ck_data e = []" "ck_key e = []" "length (ck_data k) + lrecl \<le> blk"
      using assms(1) Cons by (cases ks') auto
    have "length (ckd_bytes e) = 12" using e by (simp add: ckd_bytes_length)
    then have "as = [k, e]"
      using assms(2,3) Cons key e False by (auto simp: Let_def split: prod.splits if_splits)
    then show ?thesis using e(4) assms(2) key \<open>length (ckd_bytes e) = 12\<close> by simp
  qed
qed (use assms(3) in simp)

lemma packs_frames:
  assumes "framed blk lrecl ks"
  shows "list_all (\<lambda>fs. (\<forall>k\<in>set (butlast fs). ck_data k \<noteq> []) \<and> (12 \<le> lrecl \<longrightarrow> length (ckdc.chain fs) \<le> blk + 12)) (packs (blk + 20) ks)"
  using assms
proof (induction "blk + 20" ks rule: packs.induct)
  case (1 ks)
  obtain as bs where p: "pack (blk + 20) 0 ks = (as, bs)" by fastforce
  show ?case
  proof (cases "ks = []")
    case False
    have "framed blk lrecl bs" using framed_suffix 1(2) pack_append [OF p] by simp
    note IH = 1(1) [OF False p [symmetric] refl this]
    have "as \<noteq> []" using p False pack_nonempty by (cases ks) auto
    then show ?thesis
      using False IH pack_ends [OF p] pack_frame_size [OF 1(2) _ p] by (subst packs.simps) (simp add: p)
  qed (subst packs.simps, simp)
qed

text \<open>The records of a placed member have that shape.\<close>

lemma blk_loop_shape:
  assumes "0 < rpb"
  shows "k = (nrec - n + rpb - 1) div rpb \<Longrightarrow> n \<le> nrec \<Longrightarrow>
    list_all (\<lambda>(off, len). len = rpb * lrecl) (butlast (blk_loop lrecl rpb nrec k n))
    \<and> (blk_loop lrecl rpb nrec k n \<noteq> [] \<longrightarrow> snd (last (blk_loop lrecl rpb nrec k n)) = rpb * lrecl
        \<or> snd (last (blk_loop lrecl rpb nrec k n)) + lrecl \<le> rpb * lrecl)"
proof (induction k arbitrary: n)
  case (Suc k)
  define nr where "nr = (if nrec - n > rpb then rpb else nrec - n)"
  have pos: "0 < nrec - n" using Suc.prems(1) assms by (cases "nrec - n") simp_all
  show ?case
  proof (cases "nrec - n > rpb")
    case True
    then have "nrec - n + rpb - 1 = nrec - (n + rpb) + rpb - 1 + rpb" by simp
    then have "Suc k = (nrec - (n + rpb) + rpb - 1 + rpb) div rpb" using Suc.prems(1) by (simp only:)
    then have k: "k = (nrec - (n + rpb) + rpb - 1) div rpb"
      using div_add_self2 [of rpb "nrec - (n + rpb) + rpb - 1"] assms by simp
    then have "k \<noteq> 0" using True assms by (simp add: div_eq_0_iff)
    then have "blk_loop lrecl rpb nrec k (n + rpb) \<noteq> []" by (cases k) (simp_all add: Let_def)
    then show ?thesis using Suc.IH [OF k] True by (simp add: Let_def)
  next
    case False
    then have "nrec - n + rpb - 1 = nrec - n - 1 + rpb" "nrec - n - 1 < rpb" using pos by simp_all
    then have "Suc k = (nrec - n - 1 + rpb) div rpb" using Suc.prems(1) by (simp only:)
    then have k: "k = 0" using div_add_self2 [of rpb "nrec - n - 1"] assms \<open>nrec - n - 1 < rpb\<close> by simp
    have "(nrec - n) * lrecl = rpb * lrecl \<or> (nrec - n + 1) * lrecl \<le> rpb * lrecl"
      using False mult_le_mono1 [of "nrec - n + 1" rpb lrecl] by (cases "nrec - n = rpb") simp_all
    then show ?thesis using False by (simp add: k Let_def algebra_simps)
  qed
qed simp

lemma framed_blocks:
  assumes "list_all (\<lambda>k. ck_key k = [] \<and> length (ck_data k) = blk) (butlast ks)" "list_all (\<lambda>k. ck_key k = []) ks"
    "ks \<noteq> [] \<Longrightarrow> length (ck_data (last ks)) = blk \<or> length (ck_data (last ks)) + lrecl \<le> blk"
    "ck_key e = []" "ck_data e = []"
  shows "framed blk lrecl (ks @ [e])"
  using assms
proof (induction ks)
  case (Cons k ks)
  then show ?case by (cases ks) auto
qed simp

lemma place_member_framed:
  assumes "opts_ok opt" "member_ok opt m" "geo_ok s" "place_member opt m s = (pm, s')"
  shows "framed (o_blksize opt) (o_lrecl opt) (member_ckds pm)"
proof -
  define bl where "bl = member_blocks opt (xm_nrec m)"
  have bl: "map (\<lambda>b. (b_off b, b_len b)) (pm_blk pm) = bl" using place_member_addrs(2) [OF assms(4)] by (simp add: bl_def)
  have full: "list_all (\<lambda>(off, len). len = o_blksize opt) (butlast bl)"
    and last: "bl \<noteq> [] \<Longrightarrow> snd (last bl) = o_blksize opt \<or> snd (last bl) + o_lrecl opt \<le> o_blksize opt"
    using blk_loop_shape [OF opts_okD(2) [OF assms(1)] refl, of 0 "xm_nrec m" "o_lrecl opt"] opts_okD(3) [OF assms(1)]
    by (simp_all add: bl_def member_blocks_def Let_def)
  have inside: "\<forall>b\<in>set (pm_blk pm). length (take (b_len b) (drop (b_off b) (xm_data pm))) = b_len b"
    using place_member_ok(1) [OF assms] by (auto simp: pmember_ok_def)
  let ?c = "\<lambda>b. data_ckd (b_tt b, b_r b) (take (b_len b) (drop (b_off b) (xm_data pm)))"
  have "list_all (\<lambda>b. b_len b = o_blksize opt) (butlast (pm_blk pm))"
    using full unfolding bl [symmetric] map_butlast [symmetric] by (simp add: list.pred_map o_def)
  then have "list_all (\<lambda>k. ck_key k = [] \<and> length (ck_data k) = o_blksize opt) (butlast (map ?c (pm_blk pm)))"
    using inside unfolding map_butlast [symmetric] by (simp add: list_all_iff data_ckd_def) (metis in_set_butlastD)
  moreover have "list_all (\<lambda>k. ck_key k = []) (map ?c (pm_blk pm))" by (auto simp: list_all_iff data_ckd_def)
  moreover have "map ?c (pm_blk pm) \<noteq> [] \<Longrightarrow> length (ck_data (last (map ?c (pm_blk pm)))) = o_blksize opt
      \<or> length (ck_data (last (map ?c (pm_blk pm)))) + o_lrecl opt \<le> o_blksize opt"
    using last inside unfolding bl [symmetric] by (auto simp: last_map data_ckd_def)
  ultimately show ?thesis
    unfolding member_ckds_def by (intro framed_blocks) (simp_all add: data_ckd_def)
qed

lemma assign_loop_framed:
  assumes "opts_ok opt" "list_all (member_ok opt) ms" "geo_ok s"
  shows "framed (o_blksize opt) (o_lrecl opt) (concat (map member_ckds (assign_loop opt ms s)))"
  using assms(2,3)
proof (induction ms arbitrary: s)
  case (Cons m ms)
  obtain pm s' where pm: "place_member opt m s = (pm, s')" by fastforce
  have m: "member_ok opt m" using Cons.prems by simp
  then show ?case
    using Cons.IH [OF _ place_member_ok(2) [OF assms(1) m Cons.prems(2) pm]] Cons.prems pm
      place_member_framed [OF assms(1) m Cons.prems(2) pm] by (simp add: framed_append)
qed simp

end
