(* ===== verification/Xmit_Read.thy ===== *)
theory Xmit_Read
  imports Xmit_Emit
begin

section \<open>xmit370: reading a transmission\<close>

text \<open>
  \<^verbatim>\<open>xmit370 list\<close> and \<^verbatim>\<open>extract\<close>: finding the environment header in the logical records, walking the
  directory, converting addresses with the image's own geometry, and collecting a member's bytes.
  The C code trusts the lengths it finds in the image; where it would read outside the payload the
  model gives \<open>None\<close>. Reading back what \<^verbatim>\<open>create\<close> wrote never does.
\<close>

subsection \<open>The environment header\<close>

definition is_copyr1 :: "bytes \<Rightarrow> bool" where
  "is_copyr1 b \<longleftrightarrow> byte_at b 1 = 0xca \<and> byte_at b 2 = 0x6d \<and> byte_at b 3 = 0x0f"

definition copyr1_len :: "logrec list \<Rightarrow> nat" where
  "copyr1_len recs = (case find (\<lambda>r. \<not> lr_control r \<and> length (lr_b r) \<ge> 4 \<and> is_copyr1 (lr_b r)) recs of
     Some r \<Rightarrow> length (lr_b r) | None \<Rightarrow> MVS_COPYR1_LEN)"

fun env_hdr_len :: "logrec list \<Rightarrow> nat \<Rightarrow> nat" where
  "env_hdr_len [] c1len = c1len"
| "env_hdr_len (r # rs) c1len =
    (if \<not> lr_control r \<and> length (lr_b r) = c1len \<and> is_copyr1 (lr_b r)
     then c1len + (case rs of s # _ \<Rightarrow> if \<not> lr_control s then length (lr_b s) else 0 | [] \<Rightarrow> 0)
     else env_hdr_len rs c1len)"

subsection \<open>The directory\<close>

record dirent370 =
  d_name :: bytes
  d_tt :: nat
  d_r :: nat
  d_cbyte :: nat
  d_ud :: bytes

text \<open>The entries of the block at \<open>q\<close>, from offset \<open>off\<close> up to the \<open>used\<close> bytes it declares.\<close>

function dir_ents :: "bytes \<Rightarrow> nat \<Rightarrow> nat \<Rightarrow> nat \<Rightarrow> dirent370 list option" where
  "dir_ents u q used off =
    (if off + 12 \<le> used then
       if q + off + 8 > length u then None
       else if take 8 (drop (q + off) u) = replicate 8 0xff then Some []
       else
         let c = unat (byte_at u (q + off + 11)); hw = c AND 0x1f;
             udlen = (if hw * 2 > 64 then 64 else hw * 2) in
         if q + off + 12 + udlen > length u then None
         else map_option
           (\<lambda>es. \<lparr>d_name = take 8 (drop (q + off) u), d_tt = mvs_be16 u (q + off + 8),
                   d_r = unat (byte_at u (q + off + 10)), d_cbyte = c,
                   d_ud = take udlen (drop (q + off + 12) u)\<rparr> # es)
           (dir_ents u q used (off + 12 + hw * 2))
     else Some [])"
  by pat_completeness auto
termination
  by (relation "measure (\<lambda>(u, q, used, off). used - off)") auto

declare dir_ents.simps [simp del]

function dir_walk :: "bytes \<Rightarrow> nat \<Rightarrow> (dirent370 list \<times> nat) option" where
  "dir_walk u p =
    (if p + 12 \<le> length u then
       let kl = unat (byte_at u (p + 9)); dl = mvs_be16 u (p + 10) in
       if kl \<noteq> 8 \<or> dl \<noteq> DIR_BLK then Some ([], p)
       else
         let q = p + 12 + 8 in
         if q + DIR_BLK > length u then Some ([], p)
         else case dir_ents u q (mvs_be16 u q) 2 of None \<Rightarrow> None
              | Some es \<Rightarrow> map_option (\<lambda>(fs, e). (es @ fs, e)) (dir_walk u (q + DIR_BLK))
     else Some ([], p))"
  by pat_completeness auto
termination
  by (relation "measure (\<lambda>(u, p). length u - p)") auto

declare dir_walk.simps [simp del]

function eod_skip :: "bytes \<Rightarrow> nat \<Rightarrow> nat" where
  "eod_skip u p =
    (if p + 12 \<le> length u \<and> byte_at u (p + 9) = 0 \<and> mvs_be16 u (p + 10) = 0
       \<and> mvs_be16 u (p + 4) = 0 \<and> mvs_be16 u (p + 6) = 0 \<and> byte_at u (p + 8) = 0
     then eod_skip u (p + 12) else p)"
  by pat_completeness auto
termination
  by (relation "measure (\<lambda>(u, p). length u - p)") auto

declare eod_skip.simps [simp del]

definition read_directory :: "bytes \<Rightarrow> nat \<Rightarrow> (dirent370 list \<times> nat) option" where
  "read_directory u hdrlen = map_option (\<lambda>(es, p). (es, eod_skip u p)) (dir_walk u hdrlen)"

subsection \<open>Geometry and member data\<close>

record geom =
  start_cc :: nat
  start_hh :: nat
  trkpercyl :: nat

definition read_geom :: "bytes \<Rightarrow> geom option" where
  "read_geom u =
    (if length u < 78 then None
     else Some \<lparr>start_cc = mvs_be16 u 74, start_hh = mvs_be16 u 76,
       trkpercyl = (if mvs_be16 u 26 < 1 then MVS_TRKPERCYL_3350 else mvs_be16 u 26)\<rparr>)"

definition rel_track :: "geom \<Rightarrow> nat \<Rightarrow> nat \<Rightarrow> int" where
  "rel_track g cc hh = (int cc - int (start_cc g)) * int (trkpercyl g) + (int hh - int (start_hh g))"

function member_loop :: "bytes \<Rightarrow> geom \<Rightarrow> int \<Rightarrow> nat \<Rightarrow> bool \<Rightarrow> bytes option" where
  "member_loop u g want p started =
    (if p + 12 \<le> length u then
       let cc = mvs_be16 u (p + 4); hh = mvs_be16 u (p + 6); rr = unat (byte_at u (p + 8));
           here = push_bit 8 (rel_track g cc hh) OR int rr;
           kl = unat (byte_at u (p + 9)); dl = mvs_be16 u (p + 10); reclen = 12 + kl + dl;
           started = (started \<or> here \<ge> want) in
       if started then
         if dl = 0 then Some []
         else if p + 12 + kl + dl > length u then None
         else map_option (\<lambda>b. take dl (drop (p + 12 + kl) u) @ b) (member_loop u g want (p + reclen) started)
       else member_loop u g want (p + reclen) started
     else Some [])"
  by pat_completeness auto
termination
  by (relation "measure (\<lambda>(u, g, want, p, st). length u - p)") auto

declare member_loop.simps [simp del]

definition member_bytes :: "bytes \<Rightarrow> nat \<Rightarrow> geom \<Rightarrow> nat \<Rightarrow> nat \<Rightarrow> bytes option" where
  "member_bytes u data_off g tt r = member_loop u g (push_bit 8 (int tt) OR int r) data_off False"

subsection \<open>Extracting\<close>

datatype extract_error = Read_failed xmit_error | No_payload | Not_an_unload | Read_past_end

text \<open>What \<^verbatim>\<open>do_extract\<close> writes for one member: text lines for a fixed-length library, raw bytes otherwise.\<close>

definition member_file :: "nat \<Rightarrow> nat \<Rightarrow> bytes \<Rightarrow> bytes" where
  "member_file recfm lrecl b = (if recfm AND 0x80 \<noteq> 0 \<and> lrecl > 0 then extract_text lrecl b else b)"

fun extract_members :: "bytes \<Rightarrow> nat \<Rightarrow> geom \<Rightarrow> nat \<Rightarrow> nat \<Rightarrow> dirent370 list \<Rightarrow> (string \<times> bytes) list option" where
  "extract_members u data_off g recfm lrecl [] = Some []"
| "extract_members u data_off g recfm lrecl (e # es) =
    (case member_bytes u data_off g (d_tt e) (d_r e) of None \<Rightarrow> None
     | Some b \<Rightarrow> map_option (\<lambda>fs. (mvs_nm (d_name e), member_file recfm lrecl b) # fs)
                   (extract_members u data_off g recfm lrecl es))"

definition do_extract :: "bytes option \<Rightarrow> extract_error + (string \<times> bytes) list" where
  "do_extract file = (case read_xmit file of Inl e \<Rightarrow> Inl (Read_failed e)
     | Inr recs \<Rightarrow>
        if list_all lr_control recs then Inl No_payload
        else
          let u = payload recs; hdrlen = env_hdr_len recs (copyr1_len recs) in
          if length u < 16 then Inl Not_an_unload
          else
            let recfm = unat (byte_at u 10); lrecl = mvs_be16 u 8 in
            (case read_geom u of None \<Rightarrow> Inl Read_past_end
            | Some g \<Rightarrow>
               (case read_directory u hdrlen of None \<Rightarrow> Inl Read_past_end
                | Some (es, data_off) \<Rightarrow>
                   (case extract_members u data_off g recfm lrecl es of None \<Rightarrow> Inl Read_past_end
                    | Some fs \<Rightarrow> Inr fs))))"

subsection \<open>Member data comes back\<close>

definition our_geom :: geom where
  "our_geom = \<lparr>start_cc = MVS_UNLOAD_DATA_CC, start_hh = 0, trkpercyl = MVS_TRKPERCYL_3350\<rparr>"

definition addr_ok :: "nat \<times> nat \<Rightarrow> bool" where
  "addr_ok a \<longleftrightarrow> fst a < 65536 \<and> snd a < 256"

lemma rel_track_ours: "rel_track our_geom (MVS_UNLOAD_DATA_CC + t div MVS_TRKPERCYL_3350) (t mod MVS_TRKPERCYL_3350) = int t"
proof -
  have "int (t div 30) * 30 + int (t mod 30) = int t"
    by (metis div_mult_mod_eq of_nat_add of_nat_mult of_nat_numeral)
  then show ?thesis by (simp add: rel_track_def our_geom_def geo_consts)
qed

lemma addr_number: "snd a < 256 \<Longrightarrow> push_bit 8 (int (fst a)) OR int (snd a) = int (ttr a)"
proof -
  assume "snd a < 256"
  then have "push_bit 8 (fst a) OR snd a = ttr a" using nat_or_low [of "snd a" 8 "fst a"] by (simp add: ttr_def)
  moreover have "push_bit 8 (int (fst a)) OR int (snd a) = int (push_bit 8 (fst a) OR snd a)"
    by (simp add: of_nat_or_eq push_bit_of_nat)
  ultimately show ?thesis by simp
qed

lemma data_ckd_ok: "addr_ok a \<Longrightarrow> length d < 65536 \<Longrightarrow> ckd_ok (data_ckd a d)"
  by (auto simp: ckd_ok_def data_ckd_def addr_ok_def geo_consts)

text \<open>One step of the loop on a data record.\<close>

lemma member_loop_step:
  assumes "addr_ok a" "length d < 65536"
  shows "member_loop (pre @ ckd_bytes (data_ckd a d) @ suf) our_geom want (length pre) st =
    (let st' = (st \<or> int (ttr a) \<ge> want); u = pre @ ckd_bytes (data_ckd a d) @ suf;
         p = length pre + length (ckd_bytes (data_ckd a d)) in
     if st' then if d = [] then Some [] else map_option (\<lambda>b. d @ b) (member_loop u our_geom want p True)
     else member_loop u our_geom want p False)"
proof -
  let ?k = "data_ckd a d" and ?u = "pre @ ckd_bytes (data_ckd a d) @ suf"
  have len: "length (ckd_bytes ?k) = 12 + length d" by (simp add: ckd_bytes_length data_ckd_def)
  note f = ckd_fields [OF data_ckd_ok [OF assms] refl, of pre suf]
  have sel: "ck_cc ?k = MVS_UNLOAD_DATA_CC + fst a div MVS_TRKPERCYL_3350" "ck_hh ?k = fst a mod MVS_TRKPERCYL_3350"
    "ck_r ?k = snd a" "ck_key ?k = []" "ck_data ?k = d" by (simp_all add: data_ckd_def)
  have here: "push_bit 8 (rel_track our_geom (ck_cc ?k) (ck_hh ?k)) OR int (ck_r ?k) = int (ttr a)"
    using assms(1) by (simp add: sel rel_track_ours addr_number addr_ok_def)
  have data: "take (length d) (drop (length pre + 12) ?u) = d"
    by (simp add: ckd_bytes_def sel)
  have room: "length pre + 12 \<le> length ?u" "\<not> length ?u < length pre + 12 + 0 + length d" by (simp_all add: len)
  have key: "length (ck_key ?k) = 0" "length (ck_data ?k) = length d" by (simp_all add: sel)
  have nxt: "length pre + (12 + 0 + length d) = length pre + length (ckd_bytes ?k)" by (simp add: len)
  show ?thesis
  proof (cases "st \<or> want \<le> int (ttr a)")
    case True
    then show ?thesis
      by (subst member_loop.simps) (simp only: Let_def f here room key data if_True if_False length_0_conv add_0_right, simp add: len)
  next
    case False
    then show ?thesis
      by (subst member_loop.simps) (simp only: Let_def f here room key nxt if_True if_False)
  qed
qed

lemma member_loop_skip:
  assumes "\<forall>(a, d)\<in>set xs. addr_ok a \<and> length d < 65536 \<and> int (ttr a) < want"
  shows "member_loop (pre @ ckdc.chain (map (\<lambda>(a, d). data_ckd a d) xs) @ suf) our_geom want (length pre) False
    = member_loop (pre @ ckdc.chain (map (\<lambda>(a, d). data_ckd a d) xs) @ suf) our_geom want
        (length pre + length (ckdc.chain (map (\<lambda>(a, d). data_ckd a d) xs))) False"
  using assms
proof (induction xs arbitrary: pre)
  case (Cons x xs)
  obtain a d where x: "x = (a, d)" by fastforce
  let ?k = "ckd_bytes (data_ckd a d)" and ?rest = "ckdc.chain (map (\<lambda>(a, d). data_ckd a d) xs)"
  have "member_loop (pre @ ?k @ ?rest @ suf) our_geom want (length pre) False
      = member_loop (pre @ ?k @ ?rest @ suf) our_geom want (length pre + length ?k) False"
    using member_loop_step [of a d pre "?rest @ suf" want False] Cons.prems by (simp add: x Let_def)
  then show ?case using Cons.IH [of "pre @ ?k"] Cons.prems by (simp add: x add.assoc)
qed simp

lemma member_loop_collect:
  assumes "\<forall>(a, d)\<in>set xs. addr_ok a \<and> length d < 65536 \<and> d \<noteq> [] \<and> int (ttr a) \<ge> want" "addr_ok e" "int (ttr e) \<ge> want"
  shows "member_loop (pre @ ckdc.chain (map (\<lambda>(a, d). data_ckd a d) xs) @ ckd_bytes (data_ckd e []) @ suf)
      our_geom want (length pre) st = Some (concat (map snd xs))"
  using assms(1)
proof (induction xs arbitrary: pre st)
  case Nil
  then show ?case using member_loop_step [of e "[]" pre suf want st] assms(2,3) by simp
next
  case (Cons x xs)
  obtain a d where x: "x = (a, d)" by fastforce
  let ?k = "ckd_bytes (data_ckd a d)" and ?rest = "ckdc.chain (map (\<lambda>(a, d). data_ckd a d) xs) @ ckd_bytes (data_ckd e []) @ suf"
  have "member_loop (pre @ ?k @ ?rest) our_geom want (length pre) st
      = map_option (\<lambda>b. d @ b) (member_loop (pre @ ?k @ ?rest) our_geom want (length pre + length ?k) True)"
    using member_loop_step [of a d pre ?rest want st] Cons.prems by (simp add: x Let_def)
  then show ?case using Cons.IH [of "pre @ ?k" True] Cons.prems by (simp add: x)
qed

subsection \<open>The directory comes back\<close>

definition dirent_of :: "xopts \<Rightarrow> pmember \<Rightarrow> dirent370" where
  "dirent_of opt m = \<lparr>d_name = xm_ebc m, d_tt = fst (pm_first m), d_r = snd (pm_first m), d_cbyte = dir_cbyte opt,
     d_ud = (if o_stats opt then build_ispf_stats opt (xmember.truncate m) else [])\<rparr>"

definition entry_ok :: "xopts \<Rightarrow> pmember \<Rightarrow> bool" where
  "entry_ok opt m \<longleftrightarrow> pmember_ok opt m \<and> addr_ok (pm_first m)"

lemma dir_cbyte_val: "dir_cbyte opt = (if o_stats opt then 15 else 0)"
  by (simp add: dir_cbyte_def ud_len_def)

lemma ud_halfwords: "dir_cbyte opt AND 0x1f = dir_cbyte opt" "dir_cbyte opt * 2 = ud_len opt" "dir_cbyte opt < 256"
  by (simp_all add: dir_cbyte_def ud_len_def)

lemma dir_entry_fields:
  assumes "entry_ok opt m" "u = pre @ dir_entry opt m @ suf"
  shows "take 8 (drop (length pre) u) = xm_ebc m" "mvs_be16 u (length pre + 8) = fst (pm_first m)"
    "unat (byte_at u (length pre + 10)) = snd (pm_first m)" "unat (byte_at u (length pre + 11)) = dir_cbyte opt"
    "take (ud_len opt) (drop (length pre + 12) u) = d_ud (dirent_of opt m)" "length pre + 12 + ud_len opt \<le> length u"
proof -
  let ?ud = "d_ud (dirent_of opt m)"
  have e8: "length (xm_ebc m) = 8" and a: "fst (pm_first m) < 65536" "snd (pm_first m) < 256"
    using assms(1) by (simp_all add: entry_ok_def pmember_ok_def addr_ok_def)
  have u: "u = pre @ xm_ebc m @ mvs_put16 (int (fst (pm_first m))) @ [of_nat (snd (pm_first m)), of_nat (dir_cbyte opt)] @ ?ud @ suf"
    by (simp add: assms(2) dir_entry_def dirent_of_def)
  have ud: "length ?ud = ud_len opt" by (simp add: dirent_of_def ud_len_def)
  show "take 8 (drop (length pre) u) = xm_ebc m" using e8 by (simp add: u)
  show "mvs_be16 u (length pre + 8) = fst (pm_first m)"
    using f16.get_put_exact [of "int (fst (pm_first m))" "pre @ xm_ebc m"] a(1) e8 by (simp add: u)
  have "byte_at u (length pre + 10) = of_nat (snd (pm_first m))" "byte_at u (length pre + 11) = of_nat (dir_cbyte opt)"
    using e8 by (simp_all add: u byte_at_append)
  then show "unat (byte_at u (length pre + 10)) = snd (pm_first m)" "unat (byte_at u (length pre + 11)) = dir_cbyte opt"
    using a(2) ud_halfwords(3) [of opt] by (simp_all add: unat_of_nat)
  show "take (ud_len opt) (drop (length pre + 12) u) = ?ud" "length pre + 12 + ud_len opt \<le> length u"
    using e8 ud by (simp_all add: u)
qed

text \<open>The walk inside one block: \<open>pre\<close> ends where the entries begin, \<open>used\<close> counts them and the X'FF' entry.\<close>

lemma dir_ents_read:
  assumes "list_all (entry_ok opt) ms" "length pre = q + off"
    "used = off + length ms * ent_len opt + (if l then 12 else 0)"
    "l \<Longrightarrow> \<exists>t. suf = replicate 8 0xff @ t"
  shows "dir_ents (pre @ concat (map (dir_entry opt) ms) @ suf) q used off = Some (map (dirent_of opt) ms)"
  using assms
proof (induction ms arbitrary: pre off used)
  case Nil
  then show ?case by (cases l) (auto simp: dir_ents.simps [of _ q "off + 12" off] dir_ents.simps [of _ q off off])
next
  case (Cons m ms)
  let ?rest = "concat (map (dir_entry opt) ms) @ suf"
  let ?u = "pre @ dir_entry opt m @ ?rest"
  have m: "entry_ok opt m" using Cons.prems(1) by simp
  note f = dir_entry_fields [OF m refl, of pre ?rest, unfolded Cons.prems(2)]
  have ne: "xm_ebc m \<noteq> replicate 8 0xff" using m by (simp add: entry_ok_def pmember_ok_def)
  have len: "length (dir_entry opt m) = ent_len opt" using m dir_entry_length by (simp add: entry_ok_def)
  have IH: "dir_ents ?u q used (off + ent_len opt) = Some (map (dirent_of opt) ms)"
    using Cons.IH [of "pre @ dir_entry opt m" "off + ent_len opt" used] Cons.prems len by simp
  have ud: "\<not> ud_len opt > 64" by (simp add: ud_len_def)
  have ent: "off + 12 + ud_len opt = off + ent_len opt" by (simp add: ent_len_def)
  have room: "off + 12 \<le> used" "\<not> q + off + 8 > length ?u" "\<not> q + off + 12 + ud_len opt > length ?u"
    using Cons.prems(3) f(6) by (simp_all add: ent_len_def)
  have "dir_ents ?u q used off = Some (dirent_of opt m # map (dirent_of opt) ms)"
    by (subst dir_ents.simps)
      (simp only: Let_def room f ne ud_halfwords ud ent IH if_True if_False option.map, simp add: dirent_of_def)
  then show ?case by simp
qed

lemma eod_ckd_ok: "ckd_ok eod_ckd"
  by (simp add: ckd_ok_def eod_ckd_def)

lemma dir_ckd_ok: "group_ok opt g \<Longrightarrow> ckd_ok (dir_ckd opt g)"
  using dir_block_length [of opt "fst g" "snd g"] dir_key_length [of opt "fst g" "snd g"]
  by (auto simp: ckd_ok_def dir_ckd_def case_prod_beta DIR_BLK_def)

lemma dir_block_read:
  assumes "group_ok opt (ms, l)" "list_all (entry_ok opt) ms"
  shows "dir_ents (pre @ dir_block opt ms l @ suf) (length pre) (mvs_be16 (pre @ dir_block opt ms l @ suf) (length pre)) 2
    = Some (map (dirent_of opt) ms)"
proof -
  define used where "used = 2 + length ms * ent_len opt + (if l then 12 else 0)"
  define ents where "ents = concat (map (dir_entry opt) ms)"
  define body where "body = mvs_put16 (int used) @ ents @ (if l then replicate 8 0xff @ replicate 4 0 else [])"
  define tail where "tail = (if l then replicate 8 0xff @ replicate 4 0 else []) @ replicate (DIR_BLK - length body) 0 @ suf"
  have u: "pre @ dir_block opt ms l @ suf = pre @ mvs_put16 (int used) @ ents @ tail"
    by (simp add: dir_block_def Let_def used_def ents_def body_def tail_def)
  have "used < 65536" using group_room [OF assms(1)] by (simp add: used_def DIR_BLK_def)
  then have "mvs_be16 (pre @ mvs_put16 (int used) @ ents @ tail) (length pre) = used"
    using f16.get_put_exact [of "int used" pre "ents @ tail"] by simp
  moreover have "dir_ents ((pre @ mvs_put16 (int used)) @ ents @ tail) (length pre) used 2 = Some (map (dirent_of opt) ms)"
    unfolding ents_def
    by (rule dir_ents_read [where l = l, OF assms(2)]) (auto simp: used_def tail_def)
  ultimately show ?thesis unfolding u by simp
qed

lemma dir_walk_read:
  assumes "list_all (group_ok opt) gs" "list_all (\<lambda>g. list_all (entry_ok opt) (fst g)) gs"
  shows "dir_walk (pre @ ckdc.chain (map (dir_ckd opt) gs) @ ckd_bytes eod_ckd @ suf) (length pre)
    = Some (map (dirent_of opt) (concat (map fst gs)), length pre + length (ckdc.chain (map (dir_ckd opt) gs)))"
  using assms
proof (induction gs arbitrary: pre)
  case Nil
  note f = ckd_fields [OF eod_ckd_ok refl, of pre suf]
  show ?case by (subst dir_walk.simps) (simp add: f DIR_BLK_def, simp add: eod_ckd_def ckd_bytes_length)
next
  case (Cons g gs)
  obtain ms l where g: "g = (ms, l)" by fastforce
  have ok: "group_ok opt (ms, l)" "list_all (entry_ok opt) ms" using Cons.prems by (simp_all add: g)
  let ?k = "dir_ckd opt (ms, l)" and ?rest = "ckdc.chain (map (dir_ckd opt) gs) @ ckd_bytes eod_ckd @ suf"
  let ?u = "pre @ ckd_bytes ?k @ ?rest"
  have bl: "length (dir_block opt ms l) = DIR_BLK" by (rule dir_block_length [OF ok(1)])
  have kl: "length (ck_key ?k) = 8" using dir_key_length [OF ok(1)] by (simp add: dir_ckd_def)
  have dl: "ck_data ?k = dir_block opt ms l" by (simp add: dir_ckd_def)
  note f = ckd_fields [OF dir_ckd_ok [OF ok(1)] refl, of pre ?rest]
  define p2 where "p2 = pre @ mvs_put_count (int (ck_cc ?k)) (int (ck_hh ?k)) (int (ck_r ?k)) (int (length (ck_key ?k))) (int (length (ck_data ?k))) @ ck_key ?k"
  have p2: "length p2 = length pre + 12 + 8" by (simp add: p2_def kl)
  have u2: "?u = p2 @ dir_block opt ms l @ ?rest" by (simp add: p2_def ckd_bytes_def dl)
  have ents: "dir_ents ?u (length pre + 12 + 8) (mvs_be16 ?u (length pre + 12 + 8)) 2 = Some (map (dirent_of opt) ms)"
    unfolding u2 p2 [symmetric] by (rule dir_block_read [OF ok])
  have IH: "dir_walk ?u (length pre + 12 + 8 + DIR_BLK)
      = Some (map (dirent_of opt) (concat (map fst gs)), length pre + 12 + 8 + DIR_BLK + length (ckdc.chain (map (dir_ckd opt) gs)))"
    using Cons.IH [of "p2 @ dir_block opt ms l"] Cons.prems unfolding u2 by (simp add: p2 bl)
  have room: "length pre + 12 \<le> length ?u" "\<not> length pre + 12 + 8 + DIR_BLK > length ?u"
    unfolding u2 by (simp_all add: p2 bl)
  have "dir_walk ?u (length pre) = Some (map (dirent_of opt) ms @ map (dirent_of opt) (concat (map fst gs)),
      length pre + 12 + 8 + DIR_BLK + length (ckdc.chain (map (dir_ckd opt) gs)))"
    by (subst dir_walk.simps) (simp only: Let_def room f kl dl bl ents IH if_True if_False simp_thms option.case option.map prod.case)
  then show ?case
    using dir_ckd_length [OF ok(1)] by (simp add: g add.assoc)
qed

lemma eod_skip_read:
  assumes "addr_ok a" "length d < 65536"
  shows "eod_skip (pre @ ckd_bytes eod_ckd @ ckd_bytes (data_ckd a d) @ suf) (length pre) = length pre + 12"
proof -
  let ?u = "pre @ ckd_bytes eod_ckd @ ckd_bytes (data_ckd a d) @ suf"
  have e: "ck_cc eod_ckd = 0" "ck_hh eod_ckd = 0" "ck_r eod_ckd = 0" "ck_key eod_ckd = []" "ck_data eod_ckd = []"
    by (simp_all add: eod_ckd_def)
  note f = ckd_fields [OF eod_ckd_ok refl, of pre "ckd_bytes (data_ckd a d) @ suf", unfolded e]
  have len: "length (ckd_bytes eod_ckd) = 12" by (simp add: ckd_bytes_length e)
  have "mvs_be16 ?u (length pre + 12 + 4) = MVS_UNLOAD_DATA_CC + fst a div MVS_TRKPERCYL_3350"
    using ckd_fields(1) [OF data_ckd_ok [OF assms] refl, of "pre @ ckd_bytes eod_ckd" suf]
    by (simp add: len) (simp add: data_ckd_def)
  then have "eod_skip ?u (length pre + 12) = length pre + 12"
    by (subst eod_skip.simps) (simp add: geo_consts)
  then show ?thesis
    by (subst eod_skip.simps) (use f in \<open>simp add: len unat_eq_0\<close>)
qed

subsection \<open>The header fields the reader uses\<close>

lemma be16_write_other:
  assumes "p + length v \<le> length b" "q + 2 \<le> p \<or> p + length v \<le> q" "q + 2 \<le> length b"
  shows "mvs_be16 (write_at b p v) q = mvs_be16 b q"
  using assms by (auto simp: mvs_be16_def write_at_def byte_at_def nth_append)

lemma byte_write_other:
  assumes "p + length v \<le> length b" "q < p \<or> p + length v \<le> q"
  shows "byte_at (write_at b p v) q = byte_at b q"
  using assms by (auto simp: write_at_def byte_at_def nth_append)

lemma unload_hdr_fields:
  "mvs_be16 (unload_hdr opt n) 26 = 30" "mvs_be16 (unload_hdr opt n) 74 = MVS_UNLOAD_DATA_CC"
  "mvs_be16 (unload_hdr opt n) 76 = 0" "is_copyr1 (unload_hdr opt n)"
  "o_lrecl opt < 65536 \<Longrightarrow> mvs_be16 (unload_hdr opt n) 8 = o_lrecl opt"
  "byte_at (unload_hdr opt n) 10 = of_nat (o_recfm opt)"
proof -
  have tab: "mvs_be16 mvs_unload_env_hdr 26 = 30" "mvs_be16 mvs_unload_env_hdr 74 = 0x8d" "mvs_be16 mvs_unload_env_hdr 76 = 0"
    "byte_at mvs_unload_env_hdr 1 = 0xca" "byte_at mvs_unload_env_hdr 2 = 0x6d" "byte_at mvs_unload_env_hdr 3 = 0x0f"
    by (simp_all add: mvs_unload_env_hdr_def be_simps)
  show "mvs_be16 (unload_hdr opt n) 26 = 30" "mvs_be16 (unload_hdr opt n) 74 = MVS_UNLOAD_DATA_CC"
    "mvs_be16 (unload_hdr opt n) 76 = 0" "is_copyr1 (unload_hdr opt n)"
    by (simp_all add: unload_hdr_def mvs_udebx_extent_def Let_def be16_write_other byte_write_other is_copyr1_def tab
        tab(4) [unfolded One_nat_def] geo_consts)
  show "o_lrecl opt < 65536 \<Longrightarrow> mvs_be16 (unload_hdr opt n) 8 = o_lrecl opt"
    by (simp add: unload_hdr_def mvs_udebx_extent_def Let_def be16_write_other f16.get_write)
  have "byte_at (write_at b 10 [x]) 10 = x" if "length b = 328" for b x
    using that by (simp add: write_at_def byte_at_def nth_append)
  then show "byte_at (unload_hdr opt n) 10 = of_nat (o_recfm opt)"
    by (simp add: unload_hdr_def mvs_udebx_extent_def Let_def byte_write_other)
qed

subsection \<open>The logical records of a transmission\<close>

definition xmit_recs :: "xopts \<Rightarrow> tm \<Rightarrow> pmember list \<Rightarrow> (bytes \<times> bool) list" where
  "xmit_recs opt now ms =
    (let img = fst (emit_unload opt ms); dlen = length (concat (map emit_member ms));
         hdr = unload_hdr opt (used_tracks ms) in
     [(inmr01 opt now, True), (inmr02_iebcopy opt dlen (length ms), True), (inmr02_inmcopy opt (length img), True),
      (inmr03 dlen, True), (take MVS_COPYR1_LEN hdr, False), (drop MVS_COPYR1_LEN hdr, False)]
     @ map (\<lambda>r. (r, False)) (dir_cut (map (dir_ckd opt) (dir_groups opt ms) @ [eod_ckd]))
     @ map (\<lambda>r. (r, False)) (map ckdc.chain (packs (o_blksize opt + 20) (concat (map member_ckds ms))))
     @ [(mvs_inmr_hdr 6, True)])"

definition xmit_ok :: "xopts \<Rightarrow> pmember list \<Rightarrow> bool" where
  "xmit_ok opt ms \<longleftrightarrow> opts_ok opt \<and> list_all (entry_ok opt) ms
     \<and> list_all (\<lambda>m. \<forall>a\<in>set (member_addrs m). addr_ok a) ms"

lemma member_ckds_ok:
  assumes "xmit_ok opt ms" "m \<in> set ms" shows "list_all ckd_ok (member_ckds m)"
proof -
  have m: "pmember_ok opt m" "\<forall>a\<in>set (member_addrs m). addr_ok a" "o_blksize opt \<le> 19069"
    using assms by (auto simp: xmit_ok_def list_all_iff entry_ok_def opts_okD)
  have "b \<in> set (pm_blk m) \<Longrightarrow> addr_ok (b_tt b, b_r b) \<and> length (take (b_len b) (drop (b_off b) (xm_data m))) < 65536" for b
    using m by (fastforce simp: pmember_ok_def member_addrs_def)
  moreover have "addr_ok (pm_eof m)" using m(2) by (simp add: member_addrs_def)
  ultimately show ?thesis by (auto simp: member_ckds_def list_all_iff intro!: data_ckd_ok)
qed

lemma emit_xmit_stream:
  assumes "xmit_ok opt ms"
  shows "\<exists>k. emit_xmit opt now (length ms) (emit_unload opt ms) = netdata_stream (xmit_recs opt now ms) @ replicate k 0"
proof -
  have pm: "list_all (pmember_ok opt) ms" using assms by (auto simp: xmit_ok_def list_all_iff entry_ok_def)
  define hdr where "hdr = unload_hdr opt (used_tracks ms)"
  define dks where "dks = map (dir_ckd opt) (dir_groups opt ms) @ [eod_ckd]"
  define ks where "ks = concat (map member_ckds ms)"
  have hl: "length hdr = 328" by (simp add: hdr_def MVS_ENV_HDR_LEN_def)
  have dir: "emit_dir opt ms = ckdc.chain dks" by (simp add: emit_dir_chain [OF pm] dks_def)
  have "map emit_member ms = map (\<lambda>m. ckdc.chain (member_ckds m)) ms"
    using pm by (auto simp: list_all_iff intro!: emit_member_chain)
  then have data: "concat (map emit_member ms) = ckdc.chain ks"
    by (simp only: ks_def ckdc.chain_concat map_map o_def)
  have dok: "list_all ckd_ok dks"
    using dir_groups_ok [OF pm] by (auto simp: dks_def list_all_iff dir_ckd_ok eod_ckd_ok)
  have kok: "list_all ckd_ok ks" using member_ckds_ok [OF assms] by (auto simp: ks_def list_all_iff)
  have df: "dir_frames (hdr @ ckdc.chain dks @ ckdc.chain ks) 328 (328 + length (ckdc.chain dks)) = dir_cut dks"
    using dir_frames_chain [OF dok, of hdr "ckdc.chain ks"] hl by simp
  have pf: "data_frames (hdr @ ckdc.chain dks @ ckdc.chain ks) (328 + (length (ckdc.chain dks) + length (ckdc.chain ks)))
      m (328 + length (ckdc.chain dks)) = map ckdc.chain (packs m ks)" for m
    using data_frames_chain [OF kok, of "hdr @ ckdc.chain dks" "[]" m] hl by (simp add: add.assoc)
  have cap: "\<not> o_blksize opt + 20 > RECV_MAXREC" using assms by (auto simp: xmit_ok_def RECV_MAXREC_def dest: opts_okD)
  show ?thesis
    by (rule exI)
      (simp add: emit_xmit_def emit_unload_def Let_def xmit_recs_def hdr_def [symmetric] dir data df pf cap
        dks_def [symmetric] ks_def [symmetric] netdata_stream_def MVS_ENV_HDR_LEN_def MVS_COPYR1_LEN_def o_def hl)
qed

subsection \<open>Extraction returns the members\<close>

lemma xmit_recs_first: "\<exists>rs. xmit_recs opt now ms = (inmr01 opt now, True) # rs"
  by (simp add: xmit_recs_def Let_def)

lemma read_emitted:
  assumes "xmit_ok opt ms"
  shows "read_xmit (Some (emit_xmit opt now (length ms) (emit_unload opt ms)))
    = Inr (map (\<lambda>(r, c). \<lparr>lr_b = r, lr_control = c\<rparr>) (xmit_recs opt now ms))"
proof -
  obtain k where k: "emit_xmit opt now (length ms) (emit_unload opt ms) = netdata_stream (xmit_recs opt now ms) @ replicate k 0"
    using emit_xmit_stream [OF assms] by blast
  obtain rs where rs: "xmit_recs opt now ms = (inmr01 opt now, True) # rs" using xmit_recs_first by blast
  let ?d = "netdata_stream (xmit_recs opt now ms) @ replicate k 0"
  obtain t where t: "inmr01 opt now = [0xc9, 0xd5, 0xd4, 0xd9, 0xf0, 0xf1] @ t"
    by (simp add: inmr01_def mvs_inmr_hdr_def)
  have "length (inmr01 opt now) \<le> 253" using inmr01_length [of opt now] by simp
  from netdata_seg_short [OF this, of True]
  have "\<exists>x y s. ?d = [x, y, 0xc9, 0xd5, 0xd4, 0xd9, 0xf0, 0xf1] @ s" by (simp add: rs netdata_stream_def t)
  then obtain x y s where d: "?d = [x, y, 0xc9, 0xd5, 0xd4, 0xd9, 0xf0, 0xf1] @ s" by blast
  have "read_xmit (Some ?d) = Inr (read_segs ?d 0 [] False)"
    unfolding read_xmit_def d by simp
  moreover have "read_segs ?d 0 [] False = map (\<lambda>(r, c). \<lparr>lr_b = r, lr_control = c\<rparr>) (xmit_recs opt now ms)"
    using read_netdata_stream [of "xmit_recs opt now ms" "replicate k 0" "[]" False]
    by (simp add: read_segs_padding)
  ultimately show ?thesis by (simp only: k)
qed

lemma emitted_image:
  assumes "xmit_ok opt ms"
  shows "fst (emit_unload opt ms) = unload_hdr opt (used_tracks ms)
      @ ckdc.chain (map (dir_ckd opt) (dir_groups opt ms) @ [eod_ckd]) @ ckdc.chain (concat (map member_ckds ms))"
proof -
  have pm: "list_all (pmember_ok opt) ms" using assms by (auto simp: xmit_ok_def list_all_iff entry_ok_def)
  have "map emit_member ms = map (\<lambda>m. ckdc.chain (member_ckds m)) ms"
    using pm by (auto simp: list_all_iff intro!: emit_member_chain)
  then have "concat (map emit_member ms) = ckdc.chain (concat (map member_ckds ms))"
    by (simp only: ckdc.chain_concat map_map o_def)
  then show ?thesis by (simp add: emit_unload_def Let_def emit_dir_chain [OF pm])
qed

lemma payload_pairs:
  "payload (map (\<lambda>(r, c). \<lparr>lr_b = r, lr_control = c\<rparr>) rs) = concat (map fst (filter (\<lambda>x. \<not> snd x) rs))"
  by (induction rs) (auto simp: payload_def)

lemma emitted_payload:
  assumes "xmit_ok opt ms"
  shows "payload (map (\<lambda>(r, c). \<lparr>lr_b = r, lr_control = c\<rparr>) (xmit_recs opt now ms)) = fst (emit_unload opt ms)"
proof -
  have "concat (map ckdc.chain (packs m ks)) = ckdc.chain ks" for m ks
    using ckdc.chain_concat [of "packs m ks"] packs_concat by simp
  then show ?thesis
    unfolding emitted_image [OF assms] payload_pairs xmit_recs_def Let_def
    by (simp add: filter_map o_def dir_cut_concat)
qed

lemma env_hdr_emitted:
  defines "recs opt now ms \<equiv> map (\<lambda>(r, c). \<lparr>lr_b = r, lr_control = c\<rparr>) (xmit_recs opt now ms)"
  shows "env_hdr_len (recs opt now ms) (copyr1_len (recs opt now ms)) = MVS_ENV_HDR_LEN"
proof -
  let ?hdr = "unload_hdr opt (used_tracks ms)"
  have "is_copyr1 (take 52 ?hdr)"
    using unload_hdr_fields(4) [of opt "used_tracks ms"] by (simp add: is_copyr1_def byte_at_def MVS_ENV_HDR_LEN_def)
  then show ?thesis
    by (simp add: recs_def xmit_recs_def Let_def copyr1_len_def MVS_ENV_HDR_LEN_def MVS_COPYR1_LEN_def)
qed

lemma emitted_directory:
  assumes "xmit_ok opt ms" "ms \<noteq> []"
  shows "read_directory (fst (emit_unload opt ms)) MVS_ENV_HDR_LEN
    = Some (map (dirent_of opt) ms, MVS_ENV_HDR_LEN + length (emit_dir opt ms))"
proof -
  have pm: "list_all (pmember_ok opt) ms" using assms by (auto simp: xmit_ok_def list_all_iff entry_ok_def)
  let ?hdr = "unload_hdr opt (used_tracks ms)" and ?dir = "ckdc.chain (map (dir_ckd opt) (dir_groups opt ms))"
  let ?data = "ckdc.chain (concat (map member_ckds ms))"
  have img: "fst (emit_unload opt ms) = ?hdr @ ?dir @ ckd_bytes eod_ckd @ ?data"
    using emitted_image [OF assms(1)] by simp
  have "\<forall>g\<in>set (dir_groups opt ms). set (fst g) \<subseteq> set ms"
    using arg_cong [OF dir_groups_concat [of opt ms], of set] by auto
  then have "list_all (\<lambda>g. list_all (entry_ok opt) (fst g)) (dir_groups opt ms)"
    using assms(1) by (auto simp: xmit_ok_def list_all_iff)
  from dir_walk_read [OF dir_groups_ok [OF pm] this, of ?hdr ?data]
  have walk: "dir_walk (fst (emit_unload opt ms)) MVS_ENV_HDR_LEN = Some (map (dirent_of opt) ms, MVS_ENV_HDR_LEN + length ?dir)"
    by (simp add: img dir_groups_concat)
  obtain m ms' where ms: "ms = m # ms'" using assms(2) by (cases ms) auto
  obtain a d rest where first: "member_ckds m = data_ckd a d # rest" "addr_ok a" "length d < 65536"
  proof (cases "pm_blk m")
    case Nil
    then show ?thesis
      using that [of "pm_eof m" "[]" "[]"] assms(1) by (simp add: member_ckds_def ms xmit_ok_def member_addrs_def)
  next
    case (Cons b bs)
    have "addr_ok (b_tt b, b_r b)" "b_len b < 65536"
      using assms(1) Cons opts_okD(4) [of opt] by (auto simp: ms xmit_ok_def member_addrs_def entry_ok_def pmember_ok_def)
    then show ?thesis
      using that [of "(b_tt b, b_r b)" "take (b_len b) (drop (b_off b) (xm_data m))"] Cons by (simp add: member_ckds_def)
  qed
  have "eod_skip ((?hdr @ ?dir) @ ckd_bytes eod_ckd @ ckd_bytes (data_ckd a d) @ ckdc.chain (rest @ concat (map member_ckds ms')))
      (length (?hdr @ ?dir)) = length (?hdr @ ?dir) + 12"
    by (rule eod_skip_read [OF first(2,3)])
  moreover have "fst (emit_unload opt ms) = (?hdr @ ?dir) @ ckd_bytes eod_ckd @ ckd_bytes (data_ckd a d) @ ckdc.chain (rest @ concat (map member_ckds ms'))"
    using img by (simp add: ms first(1))
  ultimately have "eod_skip (fst (emit_unload opt ms)) (MVS_ENV_HDR_LEN + length ?dir) = MVS_ENV_HDR_LEN + length ?dir + 12"
    by (simp only: length_append unload_hdr_length)
  then show ?thesis
    using emit_dir_chain [OF pm] by (simp add: read_directory_def walk eod_bytes)
qed

definition member_pairs :: "pmember \<Rightarrow> ((nat \<times> nat) \<times> bytes) list" where
  "member_pairs m = map (\<lambda>b. ((b_tt b, b_r b), take (b_len b) (drop (b_off b) (xm_data m)))) (pm_blk m)"

lemma member_ckds_pairs: "member_ckds m = map (\<lambda>(a, d). data_ckd a d) (member_pairs m) @ [data_ckd (pm_eof m) []]"
  by (simp add: member_ckds_def member_pairs_def)

lemma member_pairs_facts:
  assumes "xmit_ok opt ms" "m \<in> set ms" "(a, d) \<in> set (member_pairs m)"
  shows "addr_ok a" "length d < 65536" "d \<noteq> []" "a \<in> set (member_addrs m)"
proof -
  obtain b where b: "b \<in> set (pm_blk m)" "a = (b_tt b, b_r b)" "d = take (b_len b) (drop (b_off b) (xm_data m))"
    using assms(3) by (auto simp: member_pairs_def)
  show "a \<in> set (member_addrs m)" using b by (auto simp: member_addrs_def)
  then show "addr_ok a" using assms by (auto simp: xmit_ok_def list_all_iff)
  have "0 < b_len b" "b_len b \<le> o_blksize opt" "b_off b + b_len b \<le> length (xm_data m)" "o_blksize opt \<le> 19069"
    using assms b(1) opts_okD(4) [of opt] by (auto simp: xmit_ok_def list_all_iff entry_ok_def pmember_ok_def)
  then show "length d < 65536" "d \<noteq> []" by (auto simp: b(3))
qed

lemma placed_from_split:
  "placed_from lo (as @ m # bs) \<Longrightarrow> (\<forall>x\<in>set as. \<forall>a\<in>set (member_addrs x). ttr a < ttr (pm_first m))
     \<and> lo \<le> ttr (pm_first m) \<and> (\<forall>a\<in>set (member_addrs m). ttr (pm_first m) \<le> ttr a)"
proof (induction as arbitrary: lo)
  case (Cons x as)
  then obtain hi where hi: "\<forall>a\<in>set (member_addrs x). ttr a < hi" "placed_from hi (as @ m # bs)" by auto
  have ne: "pm_eof x \<in> set (member_addrs x)" by (simp add: member_addrs_def)
  have "lo \<le> ttr (pm_first x)" "ttr (pm_first x) \<le> ttr (pm_eof x)" using Cons.prems ne by auto
  then have "lo \<le> hi" using hi(1) ne by fastforce
  then show ?case using Cons.IH [OF hi(2)] hi(1) by (auto intro: less_le_trans)
qed auto

lemma emitted_member:
  assumes "xmit_ok opt ms" "placed_from lo ms" "m \<in> set ms"
  shows "member_bytes (fst (emit_unload opt ms)) (MVS_ENV_HDR_LEN + length (emit_dir opt ms)) our_geom
      (fst (pm_first m)) (snd (pm_first m)) = Some (xm_data m)"
proof -
  obtain as bs where ms: "ms = as @ m # bs" using assms(3) by (meson split_list)
  note order = placed_from_split [OF assms(2) [unfolded ms]]
  have pm: "list_all (pmember_ok opt) ms" using assms(1) by (auto simp: xmit_ok_def list_all_iff entry_ok_def)
  have eok: "x \<in> set ms \<Longrightarrow> addr_ok (pm_eof x)" for x
    using assms(1) by (auto simp: xmit_ok_def list_all_iff member_addrs_def)
  define want where "want = int (ttr (pm_first m))"
  have want: "push_bit 8 (int (fst (pm_first m))) OR int (snd (pm_first m)) = want"
    using assms(1,3) by (auto simp: want_def xmit_ok_def list_all_iff entry_ok_def addr_ok_def intro!: addr_number)
  define pre where "pre = unload_hdr opt (used_tracks ms) @ emit_dir opt ms"
  define before where "before = concat (map (\<lambda>x. member_pairs x @ [(pm_eof x, [])]) as)"
  define suf where "suf = ckdc.chain (concat (map member_ckds bs))"
  let ?D = "map (\<lambda>(a, d). data_ckd a d)"
  have "concat (map member_ckds as) = ?D before"
    by (simp add: before_def map_concat member_ckds_pairs [abs_def] o_def)
  then have img: "fst (emit_unload opt ms) = pre @ ckdc.chain (?D before) @ ckdc.chain (?D (member_pairs m)) @ ckd_bytes (data_ckd (pm_eof m) []) @ suf"
    using emitted_image [OF assms(1)] emit_dir_chain [OF pm] by (simp add: pre_def suf_def ms member_ckds_pairs)
  have bfacts: "\<forall>(a, d)\<in>set before. addr_ok a \<and> length d < 65536 \<and> int (ttr a) < want"
  proof (safe)
    fix a1 a2 d assume "((a1, a2), d) \<in> set before"
    then obtain x where x: "x \<in> set as" "((a1, a2), d) \<in> set (member_pairs x) \<or> (a1, a2) = pm_eof x \<and> d = []"
      by (auto simp: before_def)
    have xs: "x \<in> set ms" using x(1) ms by simp
    have "(a1, a2) \<in> set (member_addrs x)"
      using x(2) member_pairs_facts(4) [OF assms(1) xs] by (auto simp: member_addrs_def)
    then show "int (ttr (a1, a2)) < want" using order x(1) by (simp add: want_def)
    show "addr_ok (a1, a2)" "length d < 65536"
      using x(2) member_pairs_facts(1,2) [OF assms(1) xs] eok [OF xs] by auto
  qed
  have mfacts: "\<forall>(a, d)\<in>set (member_pairs m). addr_ok a \<and> length d < 65536 \<and> d \<noteq> [] \<and> int (ttr a) \<ge> want"
    using member_pairs_facts [OF assms(1,3)] order by (fastforce simp: want_def)
  have eof: "int (ttr (pm_eof m)) \<ge> want" using order by (simp add: want_def member_addrs_def)
  have data: "concat (map snd (member_pairs m)) = xm_data m"
    using pm assms(3) by (auto simp: list_all_iff pmember_ok_def member_pairs_def o_def)
  have "member_loop (fst (emit_unload opt ms)) our_geom want (length pre) False
      = member_loop (fst (emit_unload opt ms)) our_geom want (length (pre @ ckdc.chain (?D before))) False"
    unfolding img using member_loop_skip [OF bfacts, of pre] by simp
  also have "\<dots> = Some (xm_data m)"
    unfolding img using member_loop_collect [OF mfacts eok [OF assms(3)] eof, of "pre @ ckdc.chain (?D before)" suf] data by simp
  finally show ?thesis by (simp add: member_bytes_def want pre_def)
qed

lemma emitted_geom:
  "read_geom (fst (emit_unload opt ms)) = Some our_geom"
proof -
  let ?h = "unload_hdr opt (used_tracks ms)"
  obtain r where r: "fst (emit_unload opt ms) = ?h @ r" by (simp add: emit_unload_def Let_def)
  have "mvs_be16 (?h @ r) p = mvs_be16 ?h p" if "p + 2 \<le> 328" for p
    using f16.get_local [of p ?h "[]" r] that by (simp add: MVS_ENV_HDR_LEN_def)
  then show ?thesis
    using unload_hdr_fields [of opt "used_tracks ms"]
    by (simp add: read_geom_def r our_geom_def geo_consts)
qed

lemma emitted_dcb:
  assumes "opts_ok opt"
  shows "mvs_be16 (fst (emit_unload opt ms)) 8 = o_lrecl opt" "byte_at (fst (emit_unload opt ms)) 10 = of_nat (o_recfm opt)"
    "16 \<le> length (fst (emit_unload opt ms))"
proof -
  let ?h = "unload_hdr opt (used_tracks ms)"
  obtain r where r: "fst (emit_unload opt ms) = ?h @ r" by (simp add: emit_unload_def Let_def)
  have "mvs_be16 (?h @ r) 8 = mvs_be16 ?h 8" "byte_at (?h @ r) 10 = byte_at ?h 10"
    using f16.get_local [of 8 ?h "[]" r] by (simp_all add: MVS_ENV_HDR_LEN_def)
  moreover have "o_lrecl opt < 65536" using assms opts_okD(4) [OF assms] by (simp add: opts_ok_def)
  ultimately show "mvs_be16 (fst (emit_unload opt ms)) 8 = o_lrecl opt"
    "byte_at (fst (emit_unload opt ms)) 10 = of_nat (o_recfm opt)" "16 \<le> length (fst (emit_unload opt ms))"
    using unload_hdr_fields(5,6) [of opt "used_tracks ms"] by (simp_all add: r MVS_ENV_HDR_LEN_def)
qed

lemma extract_members_all:
  assumes "\<forall>m\<in>set ms. member_bytes u off g (fst (pm_first m)) (snd (pm_first m)) = Some (xm_data m)"
  shows "extract_members u off g recfm lrecl (map (dirent_of opt) ms)
    = Some (map (\<lambda>m. (mvs_nm (xm_ebc m), member_file recfm lrecl (xm_data m))) ms)"
  using assms by (induction ms) (simp_all add: dirent_of_def)

lemma extract_emitted:
  assumes "xmit_ok opt ms" "placed_from lo ms" "ms \<noteq> []" "o_recfm opt < 256"
  shows "do_extract (Some (emit_xmit opt now (length ms) (emit_unload opt ms)))
    = Inr (map (\<lambda>m. (mvs_nm (xm_ebc m), member_file (o_recfm opt) (o_lrecl opt) (xm_data m))) ms)"
proof -
  define recs where "recs = map (\<lambda>(r, c). \<lparr>lr_b = r, lr_control = c\<rparr>) (xmit_recs opt now ms)"
  have data: "\<not> list_all lr_control recs" by (simp add: recs_def xmit_recs_def Let_def)
  have opts: "opts_ok opt" using assms(1) by (simp add: xmit_ok_def)
  note dcb = emitted_dcb [OF opts, of ms]
  have rf: "unat (of_nat (o_recfm opt) :: byte) = o_recfm opt" using assms(4) by (simp add: unat_of_nat)
  have "\<forall>m\<in>set ms. member_bytes (fst (emit_unload opt ms)) (MVS_ENV_HDR_LEN + length (emit_dir opt ms)) our_geom
      (fst (pm_first m)) (snd (pm_first m)) = Some (xm_data m)"
    using emitted_member [OF assms(1,2)] by blast
  note members = extract_members_all [OF this, of "o_recfm opt" "o_lrecl opt" opt]
  show ?thesis
    unfolding do_extract_def read_emitted [OF assms(1)] recs_def [symmetric]
    using data dcb emitted_payload [OF assms(1), of now] env_hdr_emitted [of opt now ms]
      emitted_directory [OF assms(1,3)] members emitted_geom [of opt ms]
    by (simp add: recs_def [symmetric] Let_def rf)
qed

subsection \<open>What \<^verbatim>\<open>create\<close> places is well formed\<close>

lemma fold_max_ge: "n \<le> fold (\<lambda>m n. if f m > n then f m else n) ms n" for f :: "'a \<Rightarrow> nat"
proof (induction ms arbitrary: n)
  case (Cons x ms)
  show ?case using Cons.IH [of "if f x > n then f x else n"] by (auto split: if_splits)
qed simp

lemma fold_max_in: "m \<in> set ms \<Longrightarrow> f m \<le> fold (\<lambda>m n. if f m > n then f m else n) ms n" for f :: "'a \<Rightarrow> nat"
proof (induction ms arbitrary: n)
  case (Cons x ms)
  have "f x \<le> fold (\<lambda>m n. if f m > n then f m else n) ms (if f x > n then f x else n)"
    using fold_max_ge [of "if f x > n then f x else n" f ms] by (auto split: if_splits)
  then show ?case using Cons by auto
qed simp

lemma eof_track_used: "m \<in> set ms \<Longrightarrow> fst (pm_eof m) < used_tracks ms"
proof -
  assume "m \<in> set ms"
  then have "fst (pm_eof m) + 1 \<le> fold (\<lambda>m n. if fst (pm_eof m) + 1 > n then fst (pm_eof m) + 1 else n) ms n" for n
    by (rule fold_max_in)
  from this [of "fold (\<lambda>m n. if pm_blk m \<noteq> [] \<and> b_tt (last (pm_blk m)) + 1 > n then b_tt (last (pm_blk m)) + 1 else n) ms 0"]
  show ?thesis unfolding used_tracks_def Let_def by (split if_split) linarith
qed

lemma addr_ok_le: "ttr a \<le> ttr b \<Longrightarrow> addr_ok b \<Longrightarrow> snd a \<le> 105 \<Longrightarrow> addr_ok a"
  by (auto simp: ttr_def addr_ok_def)

lemma assigned_sorted:
  assumes "opts_ok opt" "list_all (member_ok opt) ms"
  shows "sorted_wrt (\<lambda>a b. ttr a < ttr b) (concat (map member_addrs (assign_geometry opt ms)))"
proof -
  have "list_all need_ok (concat (map (member_needs opt) ms))"
    using assms member_needs_ok [OF assms(1)] by (auto simp: list_all_iff)
  then show ?thesis
    using place_all_order [OF geo_start_ok, of _ cap3350]
    by (simp add: assign_geometry_def assign_loop_addrs geo_consts)
qed

lemma sorted_concat_part:
  "sorted_wrt P (concat (map f ms)) \<Longrightarrow> m \<in> set ms \<Longrightarrow> sorted_wrt P (f m)"
  by (induction ms) (auto simp: sorted_wrt_append)

lemma assigned_xmit_ok:
  assumes "opts_ok opt" "list_all (member_ok opt) ms" "used_tracks (assign_geometry opt ms) \<le> 65536"
  shows "xmit_ok opt (assign_geometry opt ms)" "placed_from (geo_ttr geo_start) (assign_geometry opt ms)"
proof -
  let ?ms = "assign_geometry opt ms"
  note ok = assign_loop_ok [OF assms(1,2) geo_start_ok, folded assign_geometry_def]
  show "placed_from (geo_ttr geo_start) ?ms" using ok by simp
  have "entry_ok opt m \<and> (\<forall>a\<in>set (member_addrs m). addr_ok a)" if m: "m \<in> set ?ms" for m
  proof -
    have pm: "pmember_ok opt m" "snd (pm_first m) \<le> 105" using ok m by (auto simp: list_all_iff)
    have e: "addr_ok (pm_eof m)"
      using eof_track_used [OF m] assms(3) pm(1) by (auto simp: pmember_ok_def member_addrs_def addr_ok_def)
    have le: "\<forall>a\<in>set (member_addrs m). ttr a \<le> ttr (pm_eof m)"
      using sorted_concat_part [OF assigned_sorted [OF assms(1,2)] m]
      by (auto simp: member_addrs_def sorted_wrt_append)
    obtain as bs where "?ms = as @ m # bs" using m by (meson split_list)
    then have "placed_from (geo_ttr geo_start) (as @ m # bs)" using ok by simp
    from placed_from_split [OF this] have "ttr (pm_first m) \<le> ttr (pm_eof m)" by (simp add: member_addrs_def)
    then have "addr_ok (pm_first m)" using addr_ok_le [OF _ e pm(2)] by simp
    moreover have "\<forall>a\<in>set (member_addrs m). addr_ok a"
      using le addr_ok_le [OF _ e] pm(1) by (auto simp: pmember_ok_def)
    ultimately show ?thesis using pm by (simp add: entry_ok_def)
  qed
  then show "xmit_ok opt ?ms" using assms(1) by (auto simp: xmit_ok_def list_all_iff)
qed

subsection \<open>The size of the logical records\<close>

lemma dir_cut_lengths:
  assumes "list_all (\<lambda>k. length (ckd_bytes k) = n) ks" "length (ckd_bytes e) = l"
  shows "list_all (\<lambda>r. length r \<le> n + l) (dir_cut (ks @ [e]))"
  using assms(1)
proof (induction ks)
  case (Cons k ks)
  show ?case
  proof (cases ks)
    case (Cons k' ks')
    then have "dir_cut ((k # ks) @ [e]) = ckd_bytes k # dir_cut (ks @ [e])" by (cases ks') simp_all
    then show ?thesis using Cons.prems Cons.IH by simp
  qed (use Cons.prems assms(2) in simp)
qed (use assms(2) in simp)

lemma frames_fit:
  assumes "xmit_ok opt ms" "framed (o_blksize opt) (o_lrecl opt) (concat (map member_ckds ms))" "12 \<le> o_lrecl opt"
  shows "list_all (\<lambda>(r, c). c \<or> length r \<le> unl_blksize opt - 8) (xmit_recs opt now ms)"
proof -
  have pm: "list_all (pmember_ok opt) ms" using assms by (auto simp: xmit_ok_def list_all_iff entry_ok_def)
  have big: "288 \<le> unl_blksize opt - 8" "o_blksize opt + 12 \<le> unl_blksize opt - 8" by (auto simp: unl_blksize_def Let_def)
  have "list_all (\<lambda>k. length (ckd_bytes k) = 276) (map (dir_ckd opt) (dir_groups opt ms))"
    using dir_groups_ok [OF pm] by (auto simp: list_all_iff dir_ckd_length DIR_BLK_def)
  from dir_cut_lengths [OF this, of eod_ckd 12]
  have "list_all (\<lambda>r. length r \<le> 288) (dir_cut (map (dir_ckd opt) (dir_groups opt ms) @ [eod_ckd]))"
    by (simp add: ckd_bytes_length eod_ckd_def)
  then have d: "\<forall>r\<in>set (dir_cut (map (dir_ckd opt) (dir_groups opt ms) @ [eod_ckd])). length r \<le> unl_blksize opt - 8"
    using big(1) by (auto simp: list_all_iff)
  have p: "\<forall>ks\<in>set (packs (o_blksize opt + 20) (concat (map member_ckds ms))). length (ckdc.chain ks) \<le> unl_blksize opt - 8"
    using packs_frames [OF assms(2)] assms(3) big(2) by (auto simp: list_all_iff)
  show ?thesis
    using d p big(1) by (auto simp: xmit_recs_def Let_def list_all_iff MVS_ENV_HDR_LEN_def MVS_COPYR1_LEN_def)
qed

subsection \<open>Properties\<close>

text \<open>A member as the properties' examples use it: one record of eighty bytes.\<close>

definition sample_xm :: xmember where
  "sample_xm = \<lparr>xm_ebc = replicate 8 0xc1,
     xm_mtm = \<lparr>tm_sec = 0, tm_min = 0, tm_hour = 0, tm_mday = 1, tm_mon = 0, tm_year = 126, tm_yday = 0\<rparr>,
     xm_data = replicate 80 0x40, xm_nrec = 1\<rparr>"

lemma sample_ok: "opts_ok sample_opts" "list_all (member_ok sample_opts) [sample_xm]"
proof -
  have "replicate 8 (0xc1 :: byte) \<noteq> replicate 8 0xff" 
  proof
    assume "replicate 8 (0xc1 :: byte) = replicate 8 0xff"
    from arg_cong [OF this, of hd] show False by simp
  qed
  then show "opts_ok sample_opts" "list_all (member_ok sample_opts) [sample_xm]"
    by (simp_all add: opts_ok_def member_ok_def sample_xm_def geo_consts)
qed

lemma sample_tracks: "used_tracks (assign_geometry sample_opts [sample_xm]) = 1"
proof -
  have "member_blocks sample_opts (Suc 0) = [(0, 80)]" by (simp add: member_blocks_def)
  then show ?thesis
    by (simp add: assign_geometry_def sample_xm_def place_member_def Let_def
        used_tracks_def geo_wrap_def geo_take_def geo_start_def xmember.defs pmember.defs geo_consts)
qed

text \<open>
  C2. \<^verbatim>\<open>assign_geometry\<close> places every block of every member and every end-of-file record at a TTR of
  its own, in strictly ascending order, no track is loaded beyond the 19254 bytes of a 3350 track
  (185 bytes of overhead per record counted), and the blocks of a member cover its data exactly.
\<close>

theorem assign_geometry_sound:
  assumes "opts_ok opt" "list_all (member_ok opt) ms"
  shows "sorted_wrt (\<lambda>a b. ttr a < ttr b) (concat (map member_addrs (assign_geometry opt ms)))
    \<and> track_load t (concat (map member_addrs (assign_geometry opt ms))) (concat (map (member_needs opt) ms)) \<le> MVS_TRK_LEN_3350
    \<and> list_all (\<lambda>m. concat (map (\<lambda>b. take (b_len b) (drop (b_off b) (xm_data m))) (pm_blk m)) = xm_data m)
        (assign_geometry opt ms)"
proof -
  have "list_all need_ok (concat (map (member_needs opt) ms))"
    using assms member_needs_ok [OF assms(1)] by (auto simp: list_all_iff)
  from track_load_bound [OF geo_start_ok this, of cap3350 t]
  have "track_load t (concat (map member_addrs (assign_geometry opt ms))) (concat (map (member_needs opt) ms)) \<le> MVS_TRK_LEN_3350"
    by (simp add: assign_geometry_def assign_loop_addrs geo_consts)
  then show ?thesis
    using assigned_sorted [OF assms] assign_loop_ok [OF assms geo_start_ok]
    by (auto simp: assign_geometry_def list_all_iff pmember_ok_def)
qed

theorem assign_geometry_sound_witness:
  "sorted_wrt (\<lambda>a b. ttr a < ttr b) (concat (map member_addrs (assign_geometry sample_opts [sample_xm])))"
  using assign_geometry_sound [OF sample_ok] by blast

text \<open>
  C3. \<^verbatim>\<open>emit_unload\<close> writes exactly the \<^verbatim>\<open>unload_size\<close> bytes the buffer is allocated for: the directory
  loop and \<^verbatim>\<open>count_dir_blocks\<close> agree on the number of blocks, with and without ISPF statistics.
\<close>

theorem unload_size_exact:
  assumes "opts_ok opt" "list_all (member_ok opt) ms"
  shows "length (fst (emit_unload opt (assign_geometry opt ms))) = unload_size opt (assign_geometry opt ms)"
  using assign_loop_ok [OF assms geo_start_ok] by (simp add: assign_geometry_def emit_unload_length)

theorem unload_size_exact_witness:
  "length (fst (emit_unload sample_opts (assign_geometry sample_opts [sample_xm])))
   = unload_size sample_opts (assign_geometry sample_opts [sample_xm])"
  using unload_size_exact [OF sample_ok] .

text \<open>
  Every data record of the transmission, read back, fits the RECFM=VS data set it declares: with
  LRECL at least 12 no logical record is longer than the declared unload block size less the eight
  bytes of the two descriptor words, directory records included.
\<close>

theorem xmit_records_fit:
  assumes "opts_ok opt" "list_all (member_ok opt) ms" "12 \<le> o_lrecl opt"
    and "used_tracks (assign_geometry opt ms) \<le> 65536"
    and "read_xmit (Some (emit_xmit opt now (length ms) (emit_unload opt (assign_geometry opt ms)))) = Inr recs"
  shows "list_all (\<lambda>r. lr_control r \<or> length (lr_b r) \<le> unl_blksize opt - 8) recs"
proof -
  let ?ms = "assign_geometry opt ms"
  note ok = assigned_xmit_ok [OF assms(1,2,4)]
  have "framed (o_blksize opt) (o_lrecl opt) (concat (map member_ckds ?ms))"
    unfolding assign_geometry_def by (rule assign_loop_framed [OF assms(1,2) geo_start_ok])
  note fit = frames_fit [OF ok(1) this assms(3), of now]
  have "length ms = length ?ms" by (simp add: assign_geometry_def)
  then have "recs = map (\<lambda>(r, c). \<lparr>lr_b = r, lr_control = c\<rparr>) (xmit_recs opt now ?ms)"
    using assms(5) read_emitted [OF ok(1), of now] by simp
  then show ?thesis using fit by (auto simp: list_all_iff)
qed

theorem xmit_records_fit_witness:
  "\<exists>recs. read_xmit (Some (emit_xmit sample_opts (xm_mtm sample_xm) 1 (emit_unload sample_opts (assign_geometry sample_opts [sample_xm])))) = Inr recs
     \<and> list_all (\<lambda>r. lr_control r \<or> length (lr_b r) \<le> 3132) recs"
proof -
  have tr: "used_tracks (assign_geometry sample_opts [sample_xm]) \<le> 65536" by (simp add: sample_tracks)
  have n: "length (assign_geometry sample_opts [sample_xm]) = 1" unfolding assign_geometry_def assign_loop_length by simp
  obtain recs where r: "read_xmit (Some (emit_xmit sample_opts (xm_mtm sample_xm) (length [sample_xm])
      (emit_unload sample_opts (assign_geometry sample_opts [sample_xm])))) = Inr recs"
    using read_emitted [OF assigned_xmit_ok(1) [OF sample_ok tr], of "xm_mtm sample_xm"] by (simp add: n)
  have "unl_blksize sample_opts = 3140" by (simp add: unl_blksize_def)
  then show ?thesis using xmit_records_fit [OF sample_ok _ tr r] r by simp
qed

text \<open>
  Below that length the declared LRECL does not hold: with \<^verbatim>\<open>--lrecl 4 --blocksize 3120\<close> a member of 779
  records ends in one logical record of 3140 bytes where 3132 are declared.
\<close>

lemma short_lrecl_overflow:
  "pack (3120 + 20) 0 [data_ckd (0, 1) (replicate 3116 0x40), data_ckd (0, 2) []]
     = ([data_ckd (0, 1) (replicate 3116 0x40), data_ckd (0, 2) []], [])
   \<and> length (ckdc.chain [data_ckd (0, 1) (replicate 3116 0x40), data_ckd (0, 2) []]) = 3140
   \<and> unl_blksize (sample_opts\<lparr>o_lrecl := 4\<rparr>) - 8 = 3132"
  by (simp add: ckd_bytes_length data_ckd_def unl_blksize_def sample_opts_def)

end
