(* ===== verification/Xmit_Create.thy ===== *)
theory Xmit_Create
  imports Xmit_Read "HOL-Library.List_Lexorder"
begin

section \<open>xmit370: the create command\<close>

text \<open>
  \<^verbatim>\<open>scan_dir\<close> and \<^verbatim>\<open>do_create\<close>: from the options, a directory listing and the \<^verbatim>\<open>--member\<close> mappings to the
  transmission, with every refusal as a value. The file system is an argument \<open>fs\<close> from paths to
  files, the broken-down local time of a file and of the run are given with them, and \<^verbatim>\<open>fnmatch\<close> is
  the predicate \<open>excluded\<close>. The last property takes the two commands together: what \<^verbatim>\<open>create\<close> wrote,
  \<^verbatim>\<open>extract\<close> returns.
\<close>

datatype file_kind = Regular | Directory | Other

record hostfile =
  hf_kind :: file_kind
  hf_tm :: tm
  hf_data :: "bytes option"

type_synonym filesys = "string \<Rightarrow> hostfile option"

datatype create_error =
    Lrecl_range | Blksize_range | Blksize_not_multiple | Unblocked_blksize | Exceeds_track
  | Member_name_length | Input_errors | No_members | Duplicate_member | Text_errors

subsection \<open>Options\<close>

definition MVS_RECFM_F :: nat where "MVS_RECFM_F = 0x80"

definition check_opts :: "bool \<Rightarrow> xopts \<Rightarrow> create_error + xopts" where
  "check_opts blksize_given opt =
    (let opt = (if o_recfm opt = MVS_RECFM_F \<and> \<not> blksize_given then opt\<lparr>o_blksize := o_lrecl opt\<rparr> else opt) in
     if o_lrecl opt < 1 \<or> o_lrecl opt > 32760 then Inl Lrecl_range
     else if o_blksize opt < o_lrecl opt \<or> o_blksize opt > 32760 then Inl Blksize_range
     else if o_blksize opt mod o_lrecl opt \<noteq> 0 then Inl Blksize_not_multiple
     else if o_recfm opt = MVS_RECFM_F \<and> o_blksize opt \<noteq> o_lrecl opt then Inl Unblocked_blksize
     else if o_blksize opt > MVS_TRK_MAXBLK_3350 then Inl Exceeds_track
     else
       let u = (if o_userid opt = [] then take 8 (takeWhile (\<lambda>c. c \<noteq> CHR ''.'') (o_dsn opt)) else o_userid opt)
       in Inr (opt\<lparr>o_userid := map to_upper u\<rparr>))"

subsection \<open>Members\<close>

record cmember =
  cm_name :: string
  cm_path :: string
  cm_tm :: tm

fun scan_dir :: "filesys \<Rightarrow> (string \<Rightarrow> bool) \<Rightarrow> string \<Rightarrow> string list \<Rightarrow> cmember list \<times> nat" where
  "scan_dir fs excluded dir [] = ([], 0)"
| "scan_dir fs excluded dir (d # ds) =
    (let (ms, errs) = scan_dir fs excluded dir ds; path = take 4095 (dir @ ''/'' @ d) in
     if d \<noteq> [] \<and> hd d = CHR ''.'' then (ms, errs)
     else if excluded d then (ms, errs)
     else case fs path of None \<Rightarrow> (ms, errs + 1)
          | Some f \<Rightarrow>
             if hf_kind f \<noteq> Regular then (ms, errs)
             else if \<not> valid_member_name (member_from_path path) then (ms, errs + 1)
             else (\<lparr>cm_name = member_from_path path, cm_path = path, cm_tm = hf_tm f\<rparr> # ms, errs))"

fun map_members :: "filesys \<Rightarrow> (string \<times> string) list \<Rightarrow> create_error + cmember list \<times> nat" where
  "map_members fs [] = Inr ([], 0)"
| "map_members fs ((name, path) # maps) =
    (if length name < 1 \<or> length name > 8 then Inl Member_name_length
     else case map_members fs maps of Inl e \<Rightarrow> Inl e
          | Inr (ms, errs) \<Rightarrow>
             (case fs path of None \<Rightarrow> Inr (ms, errs + 1)
              | Some f \<Rightarrow> Inr (\<lparr>cm_name = map to_upper name, cm_path = path, cm_tm = hf_tm f\<rparr> # ms, errs)))"

definition member_key :: "cmember \<Rightarrow> bytes" where
  "member_key m = mvs_name8 (Some (cm_name m))"

fun no_neighbours :: "bytes list \<Rightarrow> bool" where
  "no_neighbours (x # y # zs) \<longleftrightarrow> x \<noteq> y \<and> no_neighbours (y # zs)"
| "no_neighbours _ \<longleftrightarrow> True"

definition file_records :: "filesys \<Rightarrow> xopts \<Rightarrow> cmember \<Rightarrow> bytes list \<times> nat" where
  "file_records fs opt m = text_to_records opt (case fs (cm_path m) of None \<Rightarrow> None | Some f \<Rightarrow> hf_data f)"

definition loaded_member :: "filesys \<Rightarrow> xopts \<Rightarrow> cmember \<Rightarrow> xmember" where
  "loaded_member fs opt m =
    (let rs = fst (file_records fs opt m)
     in \<lparr>xm_ebc = member_key m, xm_mtm = cm_tm m, xm_data = concat rs, xm_nrec = length rs\<rparr>)"

text \<open>\<^verbatim>\<open>qsort\<close> with \<^verbatim>\<open>cmp_member\<close>; equal keys, whose order it leaves open, are refused right after.\<close>

definition sort_members :: "cmember list \<Rightarrow> cmember list" where
  "sort_members ms = sort_key member_key ms"

text \<open>The arguments of a run: \<^verbatim>\<open>DIR\<close> with its listing if given, and the mappings.\<close>

definition do_create :: "filesys \<Rightarrow> (string \<Rightarrow> bool) \<Rightarrow> tm \<Rightarrow> bool \<Rightarrow> xopts
    \<Rightarrow> (string \<times> string list) option \<Rightarrow> (string \<times> string) list \<Rightarrow> create_error + bytes" where
  "do_create fs excluded now blksize_given opt0 dir maps =
    (case check_opts blksize_given opt0 of Inl e \<Rightarrow> Inl e
     | Inr opt \<Rightarrow>
        let (ms1, e1) = (case dir of None \<Rightarrow> ([], 0) | Some (d, ds) \<Rightarrow> scan_dir fs excluded d ds) in
        (case map_members fs maps of Inl e \<Rightarrow> Inl e
         | Inr (ms2, e2) \<Rightarrow>
            if e1 + e2 \<noteq> 0 then Inl Input_errors
            else if ms1 @ ms2 = [] then Inl No_members
            else
              let ms = sort_members (ms1 @ ms2) in
              if \<not> no_neighbours (map member_key ms) then Inl Duplicate_member
              else if (\<Sum>m\<leftarrow>ms. snd (file_records fs opt m)) \<noteq> 0 then Inl Text_errors
              else
                let pms = assign_geometry opt (map (loaded_member fs opt) ms)
                in Inr (emit_xmit opt now (length pms) (emit_unload opt pms))))"

text \<open>The options and the sorted members a successful run works on.\<close>

definition create_plan :: "filesys \<Rightarrow> (string \<Rightarrow> bool) \<Rightarrow> bool \<Rightarrow> xopts
    \<Rightarrow> (string \<times> string list) option \<Rightarrow> (string \<times> string) list \<Rightarrow> xopts \<times> cmember list" where
  "create_plan fs excluded blksize_given opt0 dir maps =
    (case check_opts blksize_given opt0 of Inl _ \<Rightarrow> (opt0, [])
     | Inr opt \<Rightarrow> (opt, sort_members ((case dir of None \<Rightarrow> [] | Some (d, ds) \<Rightarrow> fst (scan_dir fs excluded d ds))
         @ (case map_members fs maps of Inl _ \<Rightarrow> [] | Inr (ms2, _) \<Rightarrow> ms2))))"

subsection \<open>What a successful run guarantees\<close>

lemma check_opts_ok: "check_opts g opt0 = Inr opt \<Longrightarrow> opts_ok opt"
  by (auto simp: check_opts_def Let_def opts_ok_def split: if_splits)

lemma create_success:
  assumes "do_create fs excluded now g opt0 dir maps = Inr x" "create_plan fs excluded g opt0 dir maps = (opt, ms)"
  shows "opts_ok opt" "ms \<noteq> []" "no_neighbours (map member_key ms)" "\<forall>m\<in>set ms. snd (file_records fs opt m) = 0"
    "x = emit_xmit opt now (length ms) (emit_unload opt (assign_geometry opt (map (loaded_member fs opt) ms)))"
    "check_opts g opt0 = Inr opt" "sorted (map member_key ms)"
proof -
  obtain opt' where o: "check_opts g opt0 = Inr opt'"
    using assms(1) by (auto simp: do_create_def split: sum.splits)
  obtain ms1 e1 where 1: "(case dir of None \<Rightarrow> ([], 0) | Some (d, ds) \<Rightarrow> scan_dir fs excluded d ds) = (ms1, e1)"
    by fastforce
  obtain ms2 e2 where 2: "map_members fs maps = Inr (ms2, e2)"
    using assms(1) o 1 by (auto simp: do_create_def Let_def split: sum.splits)
  have ms1: "(case dir of None \<Rightarrow> [] | Some (d, ds) \<Rightarrow> fst (scan_dir fs excluded d ds)) = ms1"
    using 1 by (auto split: option.splits)
  have plan: "opt = opt'" "ms = sort_members (ms1 @ ms2)"
    using assms(2) by (simp_all add: create_plan_def o 2 ms1)
  show "check_opts g opt0 = Inr opt" using o plan by simp
  then show "opts_ok opt" by (rule check_opts_ok)
  show "sorted (map member_key ms)" by (simp add: plan sort_members_def)
  note run = assms(1) [unfolded do_create_def o 1 2, simplified, folded plan]
  have "ms1 @ ms2 \<noteq> []" using run by (auto split: if_splits)
  then show "ms \<noteq> []" by (metis plan(2) sort_members_def length_0_conv length_sort)
  show "no_neighbours (map member_key ms)" using run by (auto simp: Let_def split: if_splits)
  show "\<forall>m\<in>set ms. snd (file_records fs opt m) = 0" using run by (auto simp: Let_def split: if_splits)
  show "x = emit_xmit opt now (length ms) (emit_unload opt (assign_geometry opt (map (loaded_member fs opt) ms)))"
    using run by (auto simp: Let_def assign_geometry_def split: if_splits)
qed

lemma loaded_data_length: "length (xm_data (loaded_member fs opt m)) = xm_nrec (loaded_member fs opt m) * o_lrecl opt"
proof -
  have "\<forall>r\<in>set (fst (file_records fs opt m)). length r = o_lrecl opt"
    using t2r_lengths by (auto simp: file_records_def text_to_records_def split: option.splits)
  then show ?thesis by (simp add: loaded_member_def Let_def length_concat sum_list_triv cong: map_cong)
qed

lemma valid_name_key: "valid_member_name (cm_name m) \<Longrightarrow> member_key m \<noteq> replicate 8 0xff"
proof
  assume v: "valid_member_name (cm_name m)" "member_key m = replicate 8 0xff"
  then obtain c cs where c: "cm_name m = c # cs" by (cases "cm_name m") (auto simp: valid_member_name_def)
  have "mvs_a2e (ascii c) = 0xff"
    using arg_cong [OF v(2), of hd] by (simp add: member_key_def mvs_name8_def c numeral_eq_Suc upt_rec)
  moreover have "mvs_a2e 0x85 = 0x15" "mvs_e2a 0xff = 0x9f"
    by (simp_all add: mvs_e2a_def mvs_e2a_tab_def mvs_a2e_def mvs_a2e_tab_def)
  ultimately have "ascii c = 0x9f" using e2a_a2e [of "ascii c"] by fastforce
  moreover have "is_alpha c \<or> is_digit c \<or> is_national c" using v(1) by (simp add: valid_member_name_def c split: if_splits)
  ultimately show False
    by (auto simp: is_alpha_def is_digit_def is_national_def Let_def word_le_nat_alt ascii_def)
qed

lemma loaded_member_ok: "valid_member_name (cm_name m) \<Longrightarrow> member_ok opt (loaded_member fs opt m)"
  using valid_name_key [of m] loaded_data_length [of fs opt m]
  by (simp add: member_ok_def) (simp add: loaded_member_def Let_def member_key_def)

lemma create_extract_members:
  assumes "do_create fs excluded now g opt0 dir maps = Inr x" "create_plan fs excluded g opt0 dir maps = (opt, ms)"
    "list_all (\<lambda>m. valid_member_name (cm_name m)) ms" "o_recfm opt < 256"
    "used_tracks (assign_geometry opt (map (loaded_member fs opt) ms)) \<le> 65536"
  shows "do_extract (Some x) = Inr (map (\<lambda>m. (mvs_nm (member_key m),
    member_file (o_recfm opt) (o_lrecl opt) (concat (fst (file_records fs opt m))))) ms)"
proof -
  note run = create_success [OF assms(1,2)]
  define xs where "xs = map (loaded_member fs opt) ms"
  define pms where "pms = assign_geometry opt xs"
  have "list_all (member_ok opt) xs" using assms(3) loaded_member_ok by (auto simp: xs_def list_all_iff)
  note ok = assigned_xmit_ok [OF run(1) this, folded pms_def]
  have len: "length pms = length ms" by (simp add: pms_def xs_def assign_geometry_def)
  then have ne: "pms \<noteq> []" using run(2) by auto
  have keep: "map (\<lambda>m. (xm_ebc m, xm_data m, xm_nrec m)) pms = map (\<lambda>m. (xm_ebc m, xm_data m, xm_nrec m)) xs"
    unfolding pms_def assign_geometry_def by (rule assign_loop_keeps)
  have "do_extract (Some x) = Inr (map (\<lambda>m. (mvs_nm (xm_ebc m), member_file (o_recfm opt) (o_lrecl opt) (xm_data m))) pms)"
    using extract_emitted [OF ok(1,2) ne assms(4)] assms(5) by (simp only: run(5) xs_def pms_def len [unfolded xs_def pms_def])
  also have "map (\<lambda>m. (mvs_nm (xm_ebc m), member_file (o_recfm opt) (o_lrecl opt) (xm_data m))) pms
      = map (\<lambda>(e, d, n). (mvs_nm e, member_file (o_recfm opt) (o_lrecl opt) d)) (map (\<lambda>m. (xm_ebc m, xm_data m, xm_nrec m)) pms)"
    by simp
  also have "\<dots> = map (\<lambda>m. (mvs_nm (member_key m), member_file (o_recfm opt) (o_lrecl opt) (concat (fst (file_records fs opt m))))) ms"
    unfolding keep by (simp add: xs_def loaded_member_def Let_def)
  finally show ?thesis .
qed

subsection \<open>Names and text come back\<close>

lemma valid_name_printable: "is_alpha c \<or> is_digit c \<or> is_national c \<Longrightarrow> printable c \<and> c \<noteq> CHR '' ''"
  by (auto simp: is_alpha_def is_digit_def is_national_def printable_def Let_def word_le_nat_alt word_less_nat_alt ascii_def)

lemma valid_name_back: "valid_member_name (cm_name m) \<Longrightarrow> mvs_nm (member_key m) = cm_name m"
proof -
  assume v: "valid_member_name (cm_name m)"
  then have len: "length (cm_name m) \<le> 8" and "\<forall>c\<in>set (cm_name m). is_alpha c \<or> is_digit c \<or> is_national c"
    by (simp_all add: valid_member_name_def list_all_iff split: if_splits)
  then have c: "\<forall>c\<in>set (cm_name m). printable c \<and> c \<noteq> CHR '' ''" using valid_name_printable by blast
  then have "cm_name m = [] \<or> last (cm_name m) \<noteq> CHR '' ''" using last_in_set by blast
  from nm_name8 [OF len _ this] c show ?thesis by (simp add: member_key_def list_all_iff)
qed

definition norm_text :: "xopts \<Rightarrow> bytes \<Rightarrow> bytes" where
  "norm_text opt raw = concat (map (\<lambda>l. norm_line opt l @ [0x0A]) (text_lines raw))"

definition file_data :: "filesys \<Rightarrow> string \<Rightarrow> bytes" where
  "file_data fs path = (case fs path of None \<Rightarrow> [] | Some f \<Rightarrow> (case hf_data f of None \<Rightarrow> [] | Some raw \<Rightarrow> raw))"

lemma norm_line_ascii: "\<not> o_latin1 opt \<Longrightarrow> 0x85 \<notin> set (norm_line opt l)"
  using expand_printable [of opt "[]" "drop_cr l"] set_strip [of "0x20" "fst (expand_line opt (drop_cr l) [])"]
  by (fastforce simp: norm_line_def list_all_iff)

lemma records_back:
  assumes "snd (file_records fs opt m) = 0" "\<not> o_latin1 opt" "0 < o_lrecl opt"
  shows "extract_text (o_lrecl opt) (concat (fst (file_records fs opt m))) = norm_text opt (file_data fs (cm_path m))"
proof -
  obtain f raw where f: "fs (cm_path m) = Some f" "hf_data f = Some raw"
    using assms(1) by (auto simp: file_records_def text_to_records_def split: option.splits)
  then have r: "file_records fs opt m = t2r_loop opt raw" by (simp add: file_records_def text_to_records_def)
  show ?thesis
    using t2r_extract [OF assms(3), of raw "fst (t2r_loop opt raw)"] assms(1,2) norm_line_ascii
    by (simp add: r norm_text_def file_data_def f prod_eq_iff)
qed

lemma check_opts_keeps: "check_opts g opt0 = Inr opt \<Longrightarrow> o_recfm opt = o_recfm opt0 \<and> o_latin1 opt = o_latin1 opt0"
  by (auto simp: check_opts_def Let_def split: if_splits)

lemma no_neighbours_distinct: "sorted xs \<Longrightarrow> no_neighbours xs \<Longrightarrow> distinct xs" for xs :: "bytes list"
proof (induction xs rule: no_neighbours.induct)
  case (1 x y zs)
  then have "x < y" "\<forall>z\<in>set zs. y \<le> z" by (auto simp: less_le)
  then have "x \<notin> set zs" by (metis leD)
  then show ?case using 1 by auto
qed simp_all

subsection \<open>Properties\<close>


definition sample_tm :: tm where
  "sample_tm = \<lparr>tm_sec = 5, tm_min = 30, tm_hour = 12, tm_mday = 1, tm_mon = 0, tm_year = 126, tm_yday = 0\<rparr>"

definition sample_fs :: filesys where
  "sample_fs p = (if p = ''main.asm'' then Some \<lparr>hf_kind = Regular, hf_tm = sample_tm, hf_data = Some [0x41, 0x0A]\<rparr> else None)"

definition sample_member :: cmember where
  "sample_member = \<lparr>cm_name = ''MAIN'', cm_path = ''main.asm'', cm_tm = sample_tm\<rparr>"

lemma sample_opts_checked: "check_opts True sample_opts = Inr sample_opts"
  by (simp add: check_opts_def MVS_RECFM_F_def geo_consts to_upper_def ascii_def sample_opts_def)

lemma sample_maps: "map_members sample_fs [(''MAIN'', ''main.asm'')] = Inr ([sample_member], 0)"
  by (simp add: sample_fs_def sample_member_def to_upper_def ascii_def)

lemma sample_text: "text_lines [0x41, 0x0A] = [[0x41]]"
  by (simp add: text_lines.simps)

lemma sample_records: "file_records sample_fs sample_opts sample_member = ([0xc1 # replicate 79 0x40], 0)"
  by (simp add: file_records_def sample_fs_def sample_member_def text_to_records_def t2r_lines sample_text
      drop_cr_def line_record_def strip_trailing_def mvs_a2e_def mvs_a2e_tab_def)




end
