(* ===== verification/Obj_Cards.thy ===== *)
theory Obj_Cards
  imports Mvs_Bytes
begin

section \<open>Object decks: the record reader\<close>

text \<open>
  The card layer of \<^verbatim>\<open>common/src/obj370.c\<close>: classifying an 80-byte card and walking its ESD, TXT, RLD
  and END fields. A walk returns the items it reports, in order; a callback that may stop the walk is
  \<open>visit\<close> over that list. Names are the eight EBCDIC bytes, numbers are unsigned.
\<close>

definition OBJ_CARD_LEN :: nat where "OBJ_CARD_LEN = 80"

datatype obj_card = OBJ_OTHER | OBJ_ESD | OBJ_TXT | OBJ_RLD | OBJ_END | OBJ_SYM

definition obj_card_type :: "bytes \<Rightarrow> obj_card" where
  "obj_card_type c =
    (if byte_at c 0 \<noteq> 0x02 then OBJ_OTHER
     else if byte_at c 1 = 0xC5 \<and> byte_at c 2 = 0xE2 \<and> byte_at c 3 = 0xC4 then OBJ_ESD
     else if byte_at c 1 = 0xE3 \<and> byte_at c 2 = 0xE7 \<and> byte_at c 3 = 0xE3 then OBJ_TXT
     else if byte_at c 1 = 0xD9 \<and> byte_at c 2 = 0xD3 \<and> byte_at c 3 = 0xC4 then OBJ_RLD
     else if byte_at c 1 = 0xC5 \<and> byte_at c 2 = 0xD5 \<and> byte_at c 3 = 0xC4 then OBJ_END
     else if byte_at c 1 = 0xE2 \<and> byte_at c 2 = 0xE8 \<and> byte_at c 3 = 0xD4 then OBJ_SYM
     else OBJ_OTHER)"

definition OBJ_SD :: nat where "OBJ_SD = 0x00"
definition OBJ_LD :: nat where "OBJ_LD = 0x01"
definition OBJ_ER :: nat where "OBJ_ER = 0x02"
definition OBJ_PC :: nat where "OBJ_PC = 0x04"
definition OBJ_CM :: nat where "OBJ_CM = 0x05"
definition OBJ_WX :: nat where "OBJ_WX = 0x0A"

lemmas obj_types = OBJ_SD_def OBJ_LD_def OBJ_ER_def OBJ_PC_def OBJ_CM_def OBJ_WX_def

definition obj_is_section :: "nat \<Rightarrow> bool" where
  "obj_is_section type \<longleftrightarrow> type = OBJ_SD \<or> type = OBJ_PC \<or> type = OBJ_CM"

definition obj_type_name :: "nat \<Rightarrow> string" where
  "obj_type_name type =
    (if type = OBJ_SD then ''SD'' else if type = OBJ_LD then ''LD'' else if type = OBJ_ER then ''ER''
     else if type = OBJ_PC then ''PC'' else if type = OBJ_CM then ''CM'' else if type = OBJ_WX then ''WX'' else ''??'')"

subsection \<open>Walks with a callback\<close>

text \<open>
  \<^verbatim>\<open>if (fn && !fn(&it, ctx)) break\<close> at the end of every walk: the callback sees each item with its
  context, and the number of items reported includes the one that stopped the walk.
\<close>

fun visit :: "('a \<Rightarrow> 'c \<Rightarrow> bool \<times> 'c) \<Rightarrow> 'a list \<Rightarrow> 'c \<Rightarrow> nat \<times> 'c" where
  "visit fn [] ctx = (0, ctx)"
| "visit fn (x # xs) ctx =
    (case fn x ctx of (go, ctx') \<Rightarrow> if go then (case visit fn xs ctx' of (n, c) \<Rightarrow> (n + 1, c)) else (1, ctx'))"

lemma visit_all: "\<forall>x\<in>set xs. \<forall>c. fst (fn x c) \<Longrightarrow> visit fn xs c = (length xs, fold (\<lambda>x c. snd (fn x c)) xs c)"
  by (induction xs arbitrary: c) (simp_all add: case_prod_beta)

lemma visit_count_le: "fst (visit fn xs c) \<le> length xs"
proof (induction xs arbitrary: c)
  case (Cons x xs)
  obtain go c' where f: "fn x c = (go, c')" by fastforce
  show ?case using Cons.IH [of c'] by (auto simp: f split: prod.splits)
qed simp

subsection \<open>ESD items\<close>

record obj_esd =
  oe_name :: bytes
  oe_type :: nat
  oe_esdid :: nat
  oe_addr :: nat
  oe_len :: nat

function esd_loop :: "bytes \<Rightarrow> nat \<Rightarrow> nat \<Rightarrow> nat \<Rightarrow> nat \<Rightarrow> obj_esd list" where
  "esd_loop c cnt first k nid =
    (if k * 16 < cnt \<and> 16 + (k + 1) * 16 \<le> OBJ_CARD_LEN then
       let e = 16 + k * 16; ty = unat (byte_at c (e + 8)) AND 0x0f
       in \<lparr>oe_name = take 8 (drop e c), oe_type = ty,
           oe_esdid = (if ty = OBJ_LD then 0 else first + nid),
           oe_addr = mvs_be24 c (e + 9), oe_len = mvs_be24 c (e + 13)\<rparr>
          # esd_loop c cnt first (k + 1) (if ty = OBJ_LD then nid else nid + 1)
     else [])"
  by pat_completeness auto
termination
  by (relation "measure (\<lambda>(c, cnt, first, k, nid). cnt - k)") auto

declare esd_loop.simps [simp del]

definition obj_esd_walk :: "bytes \<Rightarrow> obj_esd list" where
  "obj_esd_walk c = (if obj_card_type c \<noteq> OBJ_ESD then []
     else esd_loop c (mvs_be16 c 10) (mvs_be16 c 14) 0 0)"

subsection \<open>TXT, RLD and END\<close>

record obj_txt =
  ot_addr :: nat
  ot_esdid :: nat
  ot_len :: nat
  ot_data :: bytes

definition obj_txt_get :: "bytes \<Rightarrow> obj_txt option" where
  "obj_txt_get c = (if obj_card_type c \<noteq> OBJ_TXT then None
     else
       let cnt = mvs_be16 c 10; cnt = (if 16 + cnt > OBJ_CARD_LEN then OBJ_CARD_LEN - 16 else cnt)
       in Some \<lparr>ot_addr = mvs_be24 c 5, ot_esdid = mvs_be16 c 14, ot_len = cnt,
            ot_data = take cnt (drop 16 c)\<rparr>)"

record obj_rld =
  or_r :: nat
  or_p :: nat
  or_flag :: byte
  or_addr :: nat

definition obj_rld_len :: "byte \<Rightarrow> nat" where
  "obj_rld_len flag = unat (drop_bit 2 (flag AND 0x0c)) + 1"

text \<open>The item loop, with the carried R, P and the continuation flag.\<close>

function rld_loop :: "bytes \<Rightarrow> nat \<Rightarrow> nat \<Rightarrow> nat \<Rightarrow> nat \<Rightarrow> bool \<Rightarrow> obj_rld list" where
  "rld_loop d len p r pp same =
    (if p + 4 \<le> len then
       let (r, pp, p) = (if \<not> same then (mvs_be16 d p, mvs_be16 d (p + 2), p + 4) else (r, pp, p)) in
       if p + 4 > len then []
       else \<lparr>or_r = r, or_p = pp, or_flag = byte_at d p, or_addr = mvs_be24 d (p + 1)\<rparr>
            # rld_loop d len (p + 4) r pp (byte_at d p AND 0x01 \<noteq> 0)
     else [])"
  by pat_completeness auto
termination
  by (relation "measure (\<lambda>(d, len, p, r, pp, same). len - p)") (auto split: if_splits)

declare rld_loop.simps [simp del]

definition obj_rld_items :: "bytes \<Rightarrow> nat \<Rightarrow> obj_rld list" where
  "obj_rld_items d len = rld_loop d len 0 0 0 False"

definition obj_rld_walk :: "bytes \<Rightarrow> obj_rld list" where
  "obj_rld_walk c = (if obj_card_type c \<noteq> OBJ_RLD then []
     else
       let cnt = mvs_be16 c 10; avail = OBJ_CARD_LEN - 16; cnt = (if cnt > avail then avail else cnt)
       in obj_rld_items (drop 16 c) cnt)"

record obj_end =
  oend_entry :: "(nat \<times> nat) option"

definition obj_end_get :: "bytes \<Rightarrow> obj_end option" where
  "obj_end_get c = (if obj_card_type c \<noteq> OBJ_END then None
     else Some \<lparr>oend_entry =
       (if \<not> (byte_at c 5 = 0x40 \<and> byte_at c 6 = 0x40 \<and> byte_at c 7 = 0x40)
        then Some (mvs_be16 c 14, mvs_be24 c 5) else None)\<rparr>)"

subsection \<open>Bounds of the walks\<close>

lemma esd_loop_count: "length (esd_loop c cnt first k nid) \<le> 4 - k"
proof (induction c cnt first k nid rule: esd_loop.induct)
  case (1 c cnt first k nid)
  show ?case
  proof (cases "k * 16 < cnt \<and> 16 + (k + 1) * 16 \<le> OBJ_CARD_LEN")
    case True
    then have "k < 4" by (simp add: OBJ_CARD_LEN_def)
    then show ?thesis using 1 [OF True refl refl] True by (subst esd_loop.simps) (simp add: Let_def)
  next
    case False
    then show ?thesis by (subst esd_loop.simps) auto
  qed
qed

lemma esd_loop_ids:
  "map oe_esdid (filter (\<lambda>e. oe_type e \<noteq> OBJ_LD) (esd_loop c cnt first k nid))
   = map (\<lambda>i. first + nid + i) [0..<length (filter (\<lambda>e. oe_type e \<noteq> OBJ_LD) (esd_loop c cnt first k nid))]"
proof (induction c cnt first k nid rule: esd_loop.induct)
  case (1 c cnt first k nid)
  show ?case
  proof (cases "k * 16 < cnt \<and> 16 + (k + 1) * 16 \<le> OBJ_CARD_LEN")
    case True
    let ?ty = "unat (byte_at c (16 + k * 16 + 8)) AND 0x0f"
    let ?rest = "esd_loop c cnt first (k + 1) (if ?ty = OBJ_LD then nid else nid + 1)"
    note IH = 1 [OF True refl refl]
    have up: "map (\<lambda>i. first + nid + i) [0..<Suc n] = (first + nid) # map (\<lambda>i. first + (nid + 1) + i) [0..<n]" for n
      by (simp add: upt_conv_Cons map_Suc_upt [symmetric] del: upt_Suc)
    show ?thesis
    proof (cases "?ty = OBJ_LD")
      case True
      then show ?thesis using IH \<open>k * 16 < cnt \<and> _\<close> by (subst (1 2) esd_loop.simps) (simp add: Let_def)
    next
      case False
      have "filter (\<lambda>e. oe_type e \<noteq> OBJ_LD) (esd_loop c cnt first k nid)
          = \<lparr>oe_name = take 8 (drop (16 + k * 16) c), oe_type = ?ty, oe_esdid = first + nid,
              oe_addr = mvs_be24 c (16 + k * 16 + 9), oe_len = mvs_be24 c (16 + k * 16 + 13)\<rparr>
            # filter (\<lambda>e. oe_type e \<noteq> OBJ_LD) ?rest"
        using True False by (subst esd_loop.simps) (simp add: Let_def)
      then show ?thesis using IH False by (simp only: list.map list.size obj_esd.select_convs up if_False add_0_right add_Suc_right Suc_eq_plus1 [symmetric])
    qed
  next
    case False
    then show ?thesis by (subst (1 2) esd_loop.simps) auto
  qed
qed

end
