(* ===== verification/Rld_Run.thy ===== *)
theory Rld_Run
  imports Obj_Cards
begin

section \<open>Runs of relocation items\<close>

text \<open>
  The item format the assembler's RLD cards and the linker's RLD records share: R and P, a flag byte and a
  24-bit address, where an item with the pair of the one before leaves R and P out and turns the continuation
  bit of that item on. \<open>rec_split\<close> is the reference for how both writers cut a list of items into areas of at
  most \<open>cap\<close> bytes; the reader \<open>obj_rld_items\<close> gives the items of every area back.
\<close>

type_synonym rtuple = "nat \<times> nat \<times> byte \<times> nat"

definition rld_tuple :: "obj_rld \<Rightarrow> rtuple" where
  "rld_tuple i = (or_r i, or_p i, or_flag i AND 0xfe, or_addr i)"

definition rt_pair :: "rtuple \<Rightarrow> nat \<times> nat" where
  "rt_pair = (\<lambda>(r, p, f, a). (r, p))"

definition rt_ok :: "rtuple \<Rightarrow> bool" where
  "rt_ok = (\<lambda>(r, p, f, a). r < 2 ^ 16 \<and> p < 2 ^ 16 \<and> f AND 0x01 = 0 \<and> a < 2 ^ 24)"

text \<open>An area's items, each with the note whether R and P are left out.\<close>

fun enc_items :: "(rtuple \<times> bool) list \<Rightarrow> bytes" where
  "enc_items [] = []"
| "enc_items (((r, p, f, a), re) # ps) =
    (if re then [] else mvs_put16 (int r) @ mvs_put16 (int p))
    @ [f OR (if ps \<noteq> [] \<and> snd (hd ps) then 0x01 else 0)] @ mvs_put24 (int a) @ enc_items ps"

fun run_ok :: "(nat \<times> nat) option \<Rightarrow> (rtuple \<times> bool) list \<Rightarrow> bool" where
  "run_ok rp [] \<longleftrightarrow> True"
| "run_ok rp ((x, re) # ps) \<longleftrightarrow> (re \<longrightarrow> rp = Some (rt_pair x)) \<and> run_ok (Some (rt_pair x)) ps"

lemma even_flag:
  assumes "(f :: byte) AND 0x01 = 0" shows "(f OR 0x01) AND 0xfe = f" "f AND 0xfe = f"
proof -
  have low: "\<not> bit f 0" using assms by (metis and_one_eq bit_0 even_iff_mod_2_eq_zero)
  have fe: "(0xfe :: byte) = NOT 1" by simp
  show "(f OR 0x01) AND 0xfe = f" "f AND 0xfe = f"
    using low unfolding fe by (auto intro!: bit_word_eqI simp: bit_and_iff bit_or_iff bit_not_iff bit_1_iff simp del: not_one_eq intro: gr0I)
qed

lemma rld_loop_items:
  assumes "run_ok (Some (r, p)) ps \<or> run_ok None ps \<and> \<not> same" "list_all (\<lambda>(x, re). rt_ok x) ps"
    "same = (ps \<noteq> [] \<and> snd (hd ps))"
  shows "map rld_tuple (rld_loop (pre @ enc_items ps @ suf) (length pre + length (enc_items ps)) (length pre) r p same) = map fst ps"
  using assms
proof (induction ps arbitrary: pre r p same)
  case Nil
  then show ?case by (subst rld_loop.simps) simp
next
  case (Cons y ps)
  obtain xr xp xf xa re where y: "y = ((xr, xp, xf, xa), re)" by (metis surj_pair)
  have x: "xa < 16777216" "xp < 65536" "xr < 65536" "xf AND 0x01 = 0" using Cons.prems(2) by (simp_all add: y rt_ok_def)
  have same: "same = re" using Cons.prems(3) by (simp add: y)
  define rp where "rp = (if re then [] else mvs_put16 (int xr) @ mvs_put16 (int xp))"
  define fl where "fl = xf OR (if ps \<noteq> [] \<and> snd (hd ps) then 0x01 else 0)"
  let ?rest = "enc_items ps"
  let ?u = "pre @ rp @ [fl] @ mvs_put24 (int xa) @ ?rest @ suf"
  let ?p1 = "length pre + length rp"
  let ?len = "length pre + length rp + 4 + length ?rest"
  have enc: "pre @ enc_items (y # ps) @ suf = ?u" "length pre + length (enc_items (y # ps)) = ?len"
    by (simp_all add: y rp_def fl_def)
  have flag: "byte_at ?u ?p1 = fl" by (simp add: byte_at_append)
  have addr: "mvs_be24 ?u (?p1 + 1) = xa"
    using f24.get_put_exact [of "int xa" "pre @ rp @ [fl]" "?rest @ suf"] x by simp
  have cont: "(fl AND 0x01 \<noteq> 0) = (ps \<noteq> [] \<and> snd (hd ps))"
    using x(4) by (simp add: fl_def bit.conj_disj_distrib2)
  have rl: "\<not> re \<Longrightarrow> mvs_be16 ?u (length pre) = xr" "\<not> re \<Longrightarrow> mvs_be16 ?u (length pre + 2) = xp"
    using f16.get_put_exact [of "int xr" pre] f16.get_put_exact [of "int xp" "pre @ mvs_put16 (int xr)"] x
    by (simp_all add: rp_def)
  have lrp: "length rp = (if re then 0 else 4)" by (simp add: rp_def)
  have keep: "re \<Longrightarrow> r = xr \<and> p = xp" using Cons.prems(1) same by (auto simp: y rt_pair_def)
  have step: "rld_loop ?u ?len (length pre) r p same
      = \<lparr>or_r = xr, or_p = xp, or_flag = fl, or_addr = xa\<rparr> # rld_loop ?u ?len (?p1 + 4) xr xp (ps \<noteq> [] \<and> snd (hd ps))"
  proof (cases re)
    case True
    then show ?thesis
      using keep flag addr cont same lrp by (subst rld_loop.simps) (simp add: Let_def)
  next
    case False
    then show ?thesis
      using rl flag addr cont same lrp by (subst rld_loop.simps) (simp add: Let_def add.commute)
  qed
  have "map rld_tuple (rld_loop ?u ?len (?p1 + 4) xr xp (ps \<noteq> [] \<and> snd (hd ps))) = map fst ps"
    using Cons.IH [of xr xp "ps \<noteq> [] \<and> snd (hd ps)" "pre @ rp @ [fl] @ mvs_put24 (int xa)"] Cons.prems
    by (auto simp: y add.assoc rt_pair_def)
  moreover have "rld_tuple \<lparr>or_r = xr, or_p = xp, or_flag = fl, or_addr = xa\<rparr> = fst y"
    using even_flag [OF x(4)] by (simp add: rld_tuple_def fl_def y)
  ultimately show ?case unfolding enc step by simp
qed

lemma items_read:
  assumes "run_ok None ps" "list_all (\<lambda>(x, re). rt_ok x) ps"
  shows "map rld_tuple (obj_rld_items (enc_items ps @ suf) (length (enc_items ps))) = map fst ps"
proof -
  have "\<not> (ps \<noteq> [] \<and> snd (hd ps))" using assms(1) by (cases ps) auto
  then show ?thesis using rld_loop_items [of 0 0 ps False "[]" suf] assms by (simp add: obj_rld_items_def)
qed

subsection \<open>Adding an item\<close>

lemma enc_snoc_full:
  "enc_items (ps @ [((r, p, f, a), False)]) = enc_items ps @ mvs_put16 (int r) @ mvs_put16 (int p) @ [f] @ mvs_put24 (int a)"
proof (induction ps)
  case (Cons y ps)
  obtain xr xp xf xa re where "y = ((xr, xp, xf, xa), re)" by (metis surj_pair)
  then show ?case using Cons by (cases ps) auto
qed simp

lemma enc_items_min: "ps \<noteq> [] \<Longrightarrow> 4 \<le> length (enc_items ps)"
  by (induction ps rule: enc_items.induct) auto

lemma enc_snoc_reuse:
  "ps \<noteq> [] \<Longrightarrow> enc_items (ps @ [((r, p, f, a), True)])
   = (enc_items ps)[length (enc_items ps) - 4 := enc_items ps ! (length (enc_items ps) - 4) OR 0x01] @ [f] @ mvs_put24 (int a)"
proof (induction ps)
  case (Cons y ps)
  obtain xr xp xf xa re where y: "y = ((xr, xp, xf, xa), re)" by (metis surj_pair)
  show ?case
  proof (cases ps)
    case Nil
    then show ?thesis by (simp add: y)
  next
    case (Cons w ws)
    define pre where "pre = (if re then [] else mvs_put16 (int xr) @ mvs_put16 (int xp)) @ [xf OR (if snd w then 0x01 else 0)] @ mvs_put24 (int xa)"
    have e: "enc_items (y # ps @ zs) = pre @ enc_items (ps @ zs)" for zs
      by (simp add: y Cons pre_def)
    have e0: "enc_items (y # ps) = pre @ enc_items ps" using e [of "[]"] by simp
    have "4 \<le> length (enc_items ps)" using enc_items_min [of ps] Cons by simp
    then have ix: "length (pre @ enc_items ps) - 4 = length pre + (length (enc_items ps) - 4)" by simp
    show ?thesis
      using Cons.IH [unfolded Cons] Cons
      unfolding append_Cons e e0 ix by (simp add: list_update_append nth_append)
  qed
qed simp

lemma enc_snoc_length:
  "re \<longrightarrow> ps \<noteq> [] \<Longrightarrow> length (enc_items (ps @ [(x, re)])) = length (enc_items ps) + (if re then 4 else 8)"
  by (cases x; cases re) (simp_all add: enc_snoc_full enc_snoc_reuse)

lemma run_ok_snoc:
  "run_ok rp (ps @ [(x, re)]) \<longleftrightarrow> run_ok rp ps \<and> (re \<longrightarrow> (if ps = [] then rp else Some (rt_pair (fst (last ps)))) = Some (rt_pair x))"
  by (induction ps arbitrary: rp) auto

subsection \<open>Cutting a list of items\<close>

definition repeats :: "(rtuple \<times> bool) list \<Rightarrow> rtuple \<Rightarrow> bool" where
  "repeats ps x \<longleftrightarrow> ps \<noteq> [] \<and> rt_pair (fst (last ps)) = rt_pair x"

definition overfull :: "nat \<Rightarrow> (rtuple \<times> bool) list \<Rightarrow> rtuple \<Rightarrow> bool" where
  "overfull cap ps x \<longleftrightarrow> length (enc_items ps) + (if repeats ps x then 4 else 8) > cap"

fun rec_split :: "nat \<Rightarrow> (rtuple \<times> bool) list \<Rightarrow> rtuple list \<Rightarrow> (rtuple \<times> bool) list list" where
  "rec_split cap ps [] = [ps]"
| "rec_split cap ps (x # xs) =
    (if overfull cap ps x then ps # rec_split cap [(x, False)] xs else rec_split cap (ps @ [(x, repeats ps x)]) xs)"

lemma rec_split_items: "concat (map (map fst) (rec_split cap ps xs)) = map fst ps @ xs"
  by (induction cap ps xs rule: rec_split.induct) auto

lemma rec_split_ok:
  assumes "8 \<le> cap" "run_ok None ps" "length (enc_items ps) \<le> cap"
  shows "list_all (\<lambda>qs. run_ok None qs \<and> length (enc_items qs) \<le> cap) (rec_split cap ps xs)"
  using assms
proof (induction cap ps xs rule: rec_split.induct)
  case (2 cap ps x xs)
  show ?case
  proof (cases "overfull cap ps x")
    case True
    have "length (enc_items [(x, False)]) \<le> cap" using enc_snoc_length [of False "[]" x] 2(3) by simp
    then show ?thesis using True 2(1) [OF True 2(3)] 2(3-5) by simp
  next
    case False
    have "run_ok None (ps @ [(x, repeats ps x)])" using 2(4) by (auto simp: run_ok_snoc repeats_def)
    moreover have "length (enc_items (ps @ [(x, repeats ps x)])) \<le> cap"
      using False enc_snoc_length [of "repeats ps x" ps x] by (auto simp: overfull_def repeats_def split: if_splits)
    ultimately show ?thesis using False 2(2) [OF False 2(3)] by simp
  qed
qed simp

lemma rec_split_fill: "ps \<noteq> [] \<Longrightarrow> list_all (\<lambda>qs. qs \<noteq> []) (rec_split cap ps xs)"
  by (induction cap ps xs rule: rec_split.induct) auto

lemma rec_split_tuples:
  assumes "qs \<in> set (rec_split cap [] xs)" "list_all rt_ok xs"
  shows "list_all (\<lambda>(x, re). rt_ok x) qs"
proof -
  have "concat (map (map fst) (rec_split cap [] xs)) = xs" by (simp add: rec_split_items)
  then have "set (map fst qs) \<subseteq> set xs" using assms(1) by (metis UN_upper set_concat image_eqI list.set_map)
  then show ?thesis using assms(2) by (fastforce simp: list_all_iff)
qed

lemma list_all2_map_eq:
  "(\<And>x y. y \<in> set ys \<Longrightarrow> P x y \<Longrightarrow> f x = g y) \<Longrightarrow> list_all2 P xs ys \<Longrightarrow> map f xs = map g ys"
proof (induction ys arbitrary: xs)
  case (Cons y ys)
  then show ?case by (cases xs) auto
qed simp

text \<open>Whatever writes the areas of \<open>rec_split\<close> into its records, and whatever of those a reader hands to the item loop.\<close>

lemma rec_split_read:
  assumes "8 \<le> cap" "list_all rt_ok xs" "list_all2 (\<lambda>r qs. \<exists>suf. rd r = obj_rld_items (enc_items qs @ suf) (length (enc_items qs))) rs (rec_split cap [] xs)"
  shows "concat (map (\<lambda>r. map rld_tuple (rd r)) rs) = xs"
proof -
  have "map (\<lambda>r. map rld_tuple (rd r)) rs = map (map fst) (rec_split cap [] xs)"
  proof (rule list_all2_map_eq [OF _ assms(3)])
    fix r qs assume m: "qs \<in> set (rec_split cap [] xs)" "\<exists>suf. rd r = obj_rld_items (enc_items qs @ suf) (length (enc_items qs))"
    have "run_ok None qs" using rec_split_ok [OF assms(1), of "[]" xs] m(1) by (simp add: list_all_iff)
    then show "map rld_tuple (rd r) = map fst qs" using items_read [OF _ rec_split_tuples [OF m(1) assms(2)]] m(2) by auto
  qed
  then show ?thesis by (simp add: rec_split_items)
qed

end
