(* ===== verification/Shift_Sort.thy ===== *)
theory Shift_Sort
  imports Prelude370 "HOL-Library.Product_Lexorder" "HOL-Library.Multiset"
begin

section \<open>The insertion sort of the tables\<close>

text \<open>
  \<^verbatim>\<open>as370\<close> sorts its tables in place with one loop, written out at each use: the entries behind the
  insertion point that compare greater move up by one, from the end, and the new entry goes below them.
  Where "greater" is the strict order of a key, the result is the stable sort by that key.
\<close>

definition shift_insert :: "('a \<Rightarrow> 'a \<Rightarrow> bool) \<Rightarrow> 'a \<Rightarrow> 'a list \<Rightarrow> 'a list" where
  "shift_insert gt t rs =
    (let n = length rs - length (takeWhile (\<lambda>x. gt x t) (rev rs))
     in take n rs @ [t] @ drop n rs)"

definition shift_sort :: "('a \<Rightarrow> 'a \<Rightarrow> bool) \<Rightarrow> 'a list \<Rightarrow> 'a list" where
  "shift_sort gt rs = fold (shift_insert gt) rs []"

locale keyed_order =
  fixes gt :: "'a \<Rightarrow> 'a \<Rightarrow> bool" and key :: "'a \<Rightarrow> 'k::linorder"
  assumes gt_key: "gt x t \<longleftrightarrow> key t < key x"
begin

lemma insert_split:
  assumes "sorted (map key rs)"
  obtains as bs where "rs = as @ bs" "shift_insert gt t rs = as @ t # bs"
    "\<forall>x\<in>set as. key x \<le> key t" "\<forall>x\<in>set bs. key t < key x"
proof -
  let ?big = "takeWhile (\<lambda>x. gt x t) (rev rs)" and ?small = "dropWhile (\<lambda>x. gt x t) (rev rs)"
  define as bs where "as = rev ?small" and "bs = rev ?big"
  have rs: "rs = as @ bs" unfolding as_def bs_def by (metis rev_append rev_rev_ident takeWhile_dropWhile_id)
  have "length rs - length ?big = length as"
    using arg_cong [OF rs, of length] by (simp add: bs_def)
  then have ins: "shift_insert gt t rs = as @ t # bs" unfolding shift_insert_def Let_def by (simp add: rs)
  have big: "\<forall>x\<in>set bs. key t < key x"
    unfolding bs_def by (auto dest: set_takeWhileD simp: gt_key)
  have "as = [] \<or> \<not> gt (last as) t"
  proof (cases "?small")
    case (Cons y ys)
    then have "\<not> gt y t" using hd_dropWhile [of "\<lambda>x. gt x t" "rev rs"] by simp
    then show ?thesis by (simp add: as_def Cons)
  qed (simp add: as_def)
  moreover have "\<forall>x\<in>set as. key x \<le> key (last as)"
    using assms rs by (cases as rule: rev_cases) (auto simp: sorted_append)
  ultimately have "\<forall>x\<in>set as. key x \<le> key t"
    by (metis empty_iff list.set(1) not_less order_trans gt_key)
  with that rs ins big show ?thesis by blast
qed

lemma insert_facts:
  assumes "sorted (map key rs)"
  shows "sorted (map key (shift_insert gt t rs))" "mset (shift_insert gt t rs) = mset (rs @ [t])"
    "filter (\<lambda>x. k = key x) (shift_insert gt t rs) = filter (\<lambda>x. k = key x) (rs @ [t])"
proof -
  obtain as bs where s: "rs = as @ bs" "shift_insert gt t rs = as @ t # bs"
    "\<forall>x\<in>set as. key x \<le> key t" "\<forall>x\<in>set bs. key t < key x"
    using insert_split [OF assms] by metis
  show "sorted (map key (shift_insert gt t rs))"
    using assms s by (auto simp: sorted_append intro: order_trans less_imp_le)
  show "mset (shift_insert gt t rs) = mset (rs @ [t])" unfolding s(2) by (simp add: s(1))
  have "k = key t \<Longrightarrow> filter (\<lambda>x. k = key x) bs = []"
    using s(4) by (auto simp: filter_empty_conv)
  then show "filter (\<lambda>x. k = key x) (shift_insert gt t rs) = filter (\<lambda>x. k = key x) (rs @ [t])"
    unfolding s(2) by (auto simp: s(1))
qed

lemma sort_acc:
  assumes "sorted (map key acc)"
  shows "sorted (map key (fold (shift_insert gt) rs acc)) \<and> mset (fold (shift_insert gt) rs acc) = mset (acc @ rs)
    \<and> filter (\<lambda>x. k = key x) (fold (shift_insert gt) rs acc) = filter (\<lambda>x. k = key x) (acc @ rs)"
  using assms
proof (induction rs arbitrary: acc)
  case (Cons t rs)
  then show ?case using Cons.IH [OF insert_facts(1) [OF Cons.prems]] insert_facts [OF Cons.prems] by simp
qed simp

lemma sort_is_sort_key: "shift_sort gt rs = sort_key key rs"
  using sort_acc [of "[]" rs] by (intro properties_for_sort_key [symmetric]) (simp_all add: shift_sort_def)

end

end
