(* ===== verification/Fmt370.thy ===== *)
theory Fmt370
  imports Cp037
begin

section \<open>Formatted output and number parsing\<close>

text \<open>
  What the tools use of \<^verbatim>\<open>printf\<close> and \<^verbatim>\<open>atol\<close>: decimal conversion with zero or blank padding, strings cut and
  padded to a width, and reading a number back. Numbers are unbounded; the fields they come from hold at
  most ten digits.
\<close>

text \<open>\<^verbatim>\<open>%0*d\<close> of a number that is not negative.\<close>

fun dec_digits :: "nat \<Rightarrow> string" where
  "dec_digits v = (if v < 10 then [] else dec_digits (v div 10)) @ [char_of (48 + v mod 10 :: nat)]"

declare dec_digits.simps [simp del]

definition fmt_0d :: "nat \<Rightarrow> nat \<Rightarrow> string" where
  "fmt_0d w v = (let d = dec_digits v in replicate (w - length d) (CHR ''0'') @ d)"

text \<open>\<^verbatim>\<open>%-*.*s\<close>: cut to the width and padded to it.\<close>

definition fmt_s :: "nat \<Rightarrow> string \<Rightarrow> string" where
  "fmt_s w s = take w s @ replicate (w - length s) (CHR '' '')"

text \<open>\<^verbatim>\<open>%-*ld\<close>.\<close>

definition fmt_d :: "nat \<Rightarrow> nat \<Rightarrow> string" where
  "fmt_d w v = (let d = dec_digits v in d @ replicate (w - length d) (CHR '' ''))"

text \<open>\<^verbatim>\<open>isspace\<close> of the C locale, and \<^verbatim>\<open>atol\<close>: blanks, a sign, digits, and whatever follows is ignored.\<close>

definition is_space :: "byte \<Rightarrow> bool" where
  "is_space b \<longleftrightarrow> b = 0x20 \<or> 0x09 \<le> b \<and> b \<le> 0x0D"

definition is_dec :: "byte \<Rightarrow> bool" where
  "is_dec b \<longleftrightarrow> 0x30 \<le> b \<and> b \<le> 0x39"

definition num_value :: "bytes \<Rightarrow> nat" where
  "num_value ds = fold (\<lambda>b v. v * 10 + (unat b - 48)) (takeWhile is_dec ds) 0"

definition atol :: "bytes \<Rightarrow> int" where
  "atol b =
    (let s = dropWhile is_space b in
     if s \<noteq> [] \<and> hd s = 0x2D then - int (num_value (tl s))
     else if s \<noteq> [] \<and> hd s = 0x2B then int (num_value (tl s))
     else int (num_value s))"

definition str_bytes :: "string \<Rightarrow> bytes" where
  "str_bytes = map ascii"

lemma str_bytes_simps [simp]:
  "length (str_bytes s) = length s" "str_bytes (s @ t) = str_bytes s @ str_bytes t" "str_bytes [] = []"
  "str_bytes (c # s) = ascii c # str_bytes s"
  by (simp_all add: str_bytes_def)

lemma fmt_0d_length: "w \<le> length (fmt_0d w v)"
  by (simp add: fmt_0d_def Let_def)

lemma fmt_lengths:
  "length (fmt_s w s) = w" "length (dec_digits v) \<le> w \<Longrightarrow> length (fmt_d w v) = w"
  by (simp_all add: fmt_s_def fmt_d_def Let_def)

lemma digit_byte:
  assumes "d < 10" shows "is_dec (ascii (char_of (48 + d :: nat)))" "unat (ascii (char_of (48 + d :: nat))) = 48 + d"
proof -
  show u: "unat (ascii (char_of (48 + d :: nat))) = 48 + d" using assms by (simp add: unat_ascii)
  show "is_dec (ascii (char_of (48 + d :: nat)))"
    using assms by (simp add: is_dec_def word_le_nat_alt u)
qed

lemma dec_digits_num: "\<forall>b\<in>set (str_bytes (dec_digits v)). is_dec b"
proof (induction v rule: dec_digits.induct)
  case (1 v)
  show ?case using 1 digit_byte(1) [of "v mod 10"] by (subst dec_digits.simps) auto
qed

lemma dec_digits_fold: "fold (\<lambda>b v. v * 10 + (unat b - 48)) (str_bytes (dec_digits v)) 0 = v"
proof (induction v rule: dec_digits.induct)
  case (1 v)
  show ?case using 1 digit_byte(2) [of "v mod 10"] by (subst dec_digits.simps) auto
qed

lemma dec_digits_nonempty: "dec_digits v \<noteq> []"
  by (subst dec_digits.simps) simp

lemma atol_digits:
  assumes "r = [] \<or> \<not> is_dec (hd r)" shows "atol (str_bytes (dec_digits v) @ r) = int v"
proof -
  let ?d = "str_bytes (dec_digits v)"
  obtain b t where d: "?d = b # t" using dec_digits_nonempty [of v] by (cases "?d") (auto simp: str_bytes_def)
  then have b: "is_dec b" using dec_digits_num [of v] by simp
  have b': "\<not> is_space b" "b \<noteq> 0x2D" "b \<noteq> 0x2B"
    using b by (auto simp: is_dec_def is_space_def word_le_nat_alt)
  have "takeWhile is_dec (?d @ r) = ?d"
    using dec_digits_num [of v] assms by (cases r) simp_all
  then have "num_value (?d @ r) = v" using dec_digits_fold [of v] by (simp add: num_value_def)
  then show ?thesis using d b' by (simp add: atol_def Let_def)
qed

lemma blank_not_num: "\<not> is_dec 0x20" "\<not> is_dec 0x60"
  by (simp_all add: is_dec_def)

lemma atol_field:
  assumes "r = [] \<or> \<not> is_dec (hd r)" shows "atol (str_bytes (fmt_d w v) @ r) = int v"
proof -
  have sp: "ascii (CHR '' '') = 0x20" by (simp add: ascii_def)
  then have bl: "str_bytes (replicate k (CHR '' '')) = replicate k 0x20" for k
    by (simp add: str_bytes_def)
  show ?thesis
    using atol_digits [of "replicate (w - length (dec_digits v)) 0x20 @ r" v] assms blank_not_num
    by (cases "w - length (dec_digits v)") (auto simp: fmt_d_def Let_def bl sp)
qed

lemma dec_digits_length: "v < 10 ^ n \<Longrightarrow> 0 < n \<Longrightarrow> length (dec_digits v) \<le> n"
proof (induction v arbitrary: n rule: dec_digits.induct)
  case (1 v)
  show ?case
  proof (cases "v < 10")
    case True
    then show ?thesis using 1(3) by (subst dec_digits.simps) simp
  next
    case False
    then obtain m where m: "n = Suc m" "0 < m" using 1(2,3) by (cases n; cases "n - 1") auto
    then have lt: "v div 10 < 10 ^ m" using 1(2) by (simp add: less_mult_imp_div_less mult.commute)
    then show ?thesis using 1(1) [OF False lt m(2)] False by (subst dec_digits.simps) (simp add: m(1))
  qed
qed

end
