(* ===== verification/As_Deck.thy ===== *)
theory As_Deck
  imports Rld_Run Cp037 Shift_Sort Fmt370
begin

section \<open>as370: writing the object deck\<close>

text \<open>
  The object writer of \<^verbatim>\<open>as370/src/as370.c\<close>: the card helpers \<^verbatim>\<open>cinit\<close>, \<^verbatim>\<open>cname\<close>, \<^verbatim>\<open>cbe\<close>, \<^verbatim>\<open>cebc\<close>, \<^verbatim>\<open>cseq\<close>
  and \<^verbatim>\<open>esd_ent\<close>, the grouping of relocations and the RLD cards of \<^verbatim>\<open>emit_obj\<close>, and its END card. The
  reader of \<^verbatim>\<open>obj370\<close> undoes them: every relocation comes back, whatever the card boundaries.
\<close>

subsection \<open>Cards\<close>

definition cinit :: bytes where
  "cinit = replicate 80 0x40"

definition cname :: "bytes \<Rightarrow> string \<Rightarrow> bytes" where
  "cname c n = write_at c 0 [0x02, mvs_a2e (ascii (n ! 0)), mvs_a2e (ascii (n ! 1)), mvs_a2e (ascii (n ! 2))]"

definition cbe :: "bytes \<Rightarrow> nat \<Rightarrow> int \<Rightarrow> nat \<Rightarrow> bytes" where
  "cbe c off v n = write_at c off (mvs_wrval v n)"

definition cebc :: "bytes \<Rightarrow> nat \<Rightarrow> string \<Rightarrow> nat \<Rightarrow> bytes" where
  "cebc c off s w = write_at c off (map (\<lambda>i. if i < length s then mvs_a2e (ascii (s ! i)) else 0x40) [0..<w])"

text \<open>Columns 73-80: the deck id and the sequence number in what is left, or the number alone.\<close>

definition cseq :: "string \<Rightarrow> bytes \<Rightarrow> nat \<Rightarrow> bytes" where
  "cseq deck_id c seq =
    (if deck_id \<noteq> [] then
       let nl = (if length deck_id > 8 then 8 else length deck_id); nd = 8 - nl
       in write_at c 72 (map (\<lambda>ch. mvs_a2e (ascii ch))
            (take nl deck_id @ (if nd > 0 then take nd (fmt_0d nd (seq mod 10 ^ nd)) else [])))
     else write_at c 72 (map (\<lambda>ch. mvs_a2e (ascii ch)) (take 8 (fmt_0d 8 seq))))"

definition esd_ent :: "bytes \<Rightarrow> nat \<Rightarrow> string \<Rightarrow> nat \<Rightarrow> int \<Rightarrow> int \<Rightarrow> bool \<Rightarrow> bytes" where
  "esd_ent c slot name type addr sizeOrId blankSize =
    (let c = cebc c slot name 8; c = write_at c (slot + 8) [of_nat type]; c = cbe c (slot + 9) addr 3;
         c = write_at c (slot + 12) [0x40]
     in if blankSize then write_at c (slot + 13) [0x40, 0x40, 0x40] else cbe c (slot + 13) sizeOrId 3)"

lemma card_length [simp]:
  "length cinit = 80"
  "length c = 80 \<Longrightarrow> length (cname c nm) = 80"
  "length c = 80 \<Longrightarrow> off + n \<le> 80 \<Longrightarrow> length (cbe c off v n) = 80"
  "length c = 80 \<Longrightarrow> off + w \<le> 80 \<Longrightarrow> length (cebc c off s w) = 80"
  "length c = 80 \<Longrightarrow> length (cseq d c q) = 80"
  using fmt_0d_length [of 8 q] fmt_0d_length [of "8 - length d" "q mod 10 ^ (8 - length d)"]
  by (auto simp add: cinit_def cname_def cbe_def cebc_def cseq_def write_at_def Let_def min_def)

subsection \<open>Relocations\<close>

record reloc =
  rl_addr :: nat
  rl_pos :: nat
  rl_rel :: nat
  rl_isV :: nat
  rl_len :: nat
  rl_neg :: bool

definition rel_gt :: "reloc \<Rightarrow> reloc \<Rightarrow> bool" where
  "rel_gt x t \<longleftrightarrow> rl_pos x > rl_pos t \<or> rl_pos x = rl_pos t \<and>
     (rl_rel x > rl_rel t \<or> rl_rel x = rl_rel t \<and> rl_addr x > rl_addr t)"

text \<open>The insertion sort over \<^verbatim>\<open>rels[]\<close>.\<close>

definition rel_sort :: "reloc list \<Rightarrow> reloc list" where
  "rel_sort = shift_sort rel_gt"

definition rel_flag :: "reloc \<Rightarrow> byte" where
  "rel_flag x = push_bit 4 (of_nat (rl_isV x) AND 3) OR push_bit 2 (of_int (int (rl_len x) - 1) AND 3)
     OR (if rl_neg x then 0x02 else 0)"

text \<open>
  Filling one card: the item area behind column 16, the place of the last flag byte in it and the
  last R and P. An item with the same R and P as its predecessor on the card drops them and turns the
  predecessor's continuation bit on.
\<close>

fun rld_fill :: "reloc list \<Rightarrow> bytes \<Rightarrow> nat \<Rightarrow> (nat \<times> nat) option \<Rightarrow> bytes \<times> reloc list" where
  "rld_fill [] area pf rp = (area, [])"
| "rld_fill (x # xs) area pf rp =
    (let off = 16 + length area; reuse = (off > 16 \<and> rp = Some (rl_rel x, rl_pos x));
         need = (if reuse then 4 else 8) in
     if off + need > 72 then (area, x # xs)
     else if reuse then
       rld_fill xs (area[pf := area ! pf OR 0x01] @ [rel_flag x] @ mvs_wrval (int (rl_addr x)) 3) (length area) rp
     else
       rld_fill xs (area @ mvs_wrval (int (rl_rel x)) 2 @ mvs_wrval (int (rl_pos x)) 2 @ [rel_flag x]
           @ mvs_wrval (int (rl_addr x)) 3)
         (length area + 4) (Some (rl_rel x, rl_pos x)))"

lemma rld_fill_rest: "length (snd (rld_fill xs area pf rp)) \<le> length xs"
proof (induction xs arbitrary: area pf rp)
  case (Cons x xs)
  then show ?case by (simp add: Let_def le_SucI)
qed simp

definition rld_card :: "string \<Rightarrow> bytes \<Rightarrow> nat \<Rightarrow> bytes" where
  "rld_card deck_id area seq =
    cseq deck_id (cbe (write_at (cname cinit ''RLD'') 16 area) 10 (int (length area)) 2) seq"

function rld_cards :: "string \<Rightarrow> reloc list \<Rightarrow> nat \<Rightarrow> bytes list" where
  "rld_cards deck_id rs seq =
    (if rs = [] then []
     else let (area, rest) = rld_fill rs [] 0 None
          in rld_card deck_id area (seq + 1) # rld_cards deck_id rest (seq + 1))"
  by pat_completeness auto
termination
proof (relation "measure (\<lambda>(d, rs, q). length rs)", goal_cases)
  case (2 d rs q x area rest)
  then obtain r rs' where "rs = r # rs'" by (cases rs) auto
  then show ?case
    using 2 rld_fill_rest [of rs' "mvs_wrval (int (rl_rel r)) 2 @ mvs_wrval (int (rl_pos r)) 2 @ [rel_flag r]
        @ mvs_wrval (int (rl_addr r)) 3" 4 "Some (rl_rel r, rl_pos r)"]
    by (simp add: Let_def le_imp_less_Suc prod_eq_iff)
qed simp

declare rld_cards.simps [simp del]

definition end_card :: "string \<Rightarrow> (int \<times> int) option \<Rightarrow> string \<Rightarrow> nat \<Rightarrow> bytes" where
  "end_card deck_id entry idr seq =
    (let c = cname cinit ''END'';
         c = (case entry of None \<Rightarrow> c | Some (addr, esdid) \<Rightarrow> cbe (cbe c 5 addr 3) 14 esdid 2)
     in cseq deck_id (cebc c 32 idr 20) seq)"

subsection \<open>The grouping is a stable sort\<close>

definition rel_key :: "reloc \<Rightarrow> nat \<times> nat \<times> nat" where
  "rel_key x = (rl_pos x, rl_rel x, rl_addr x)"

interpretation rel: keyed_order rel_gt rel_key
  by unfold_locales (auto simp: rel_gt_def rel_key_def less_prod_def)

lemma rel_sort_is_sort: "rel_sort rs = sort_key rel_key rs"
  by (simp add: rel_sort_def rel.sort_is_sort_key)

subsection \<open>The item area of a card\<close>

definition rl_ok :: "reloc \<Rightarrow> bool" where
  "rl_ok x \<longleftrightarrow> rl_addr x < 2 ^ 24 \<and> rl_pos x < 2 ^ 16 \<and> rl_rel x < 2 ^ 16"

definition rld_of :: "reloc \<Rightarrow> rtuple" where
  "rld_of x = (rl_rel x, rl_pos x, rel_flag x, rl_addr x)"

lemma wrval_put: "mvs_wrval v 2 = mvs_put16 v" "mvs_wrval v 3 = mvs_put24 v"
  by (simp_all add: put_defs numeral_eq_Suc)

lemma rld_of_ok: "rl_ok x \<Longrightarrow> rt_ok (rld_of x)"
proof -
  assume "rl_ok x"
  moreover have "rel_flag x AND 0x01 = 0"
  proof (rule bit_word_eqI)
    fix n assume "n < LENGTH(8)"
    have "\<not> bit (rel_flag x) 0" by (simp add: rel_flag_def bit_simps)
    then show "bit (rel_flag x AND 0x01) n \<longleftrightarrow> bit (0 :: byte) n" by (cases n) (auto simp: bit_simps)
  qed
  ultimately show ?thesis by (simp add: rl_ok_def rt_ok_def rld_of_def)
qed

lemma rld_fill_split:
  assumes "ps = [] \<and> rp = None \<or> ps \<noteq> [] \<and> rp = Some (rt_pair (fst (last ps))) \<and> pf = length (enc_items ps) - 4"
    "rld_fill xs (enc_items ps) pf rp = (area, rest)"
  shows "\<exists>qs. area = enc_items qs \<and> rec_split 56 ps (map rld_of xs) = qs # (if rest = [] then [] else rec_split 56 [] (map rld_of rest))"
  using assms
proof (induction xs arbitrary: ps pf rp)
  case (Cons x xs)
  let ?a = "enc_items ps" and ?re = "repeats ps (rld_of x)"
  define ps' where "ps' = ps @ [(rld_of x, ?re)]"
  have pair: "rt_pair (rld_of x) = (rl_rel x, rl_pos x)" by (simp add: rld_of_def rt_pair_def)
  have pos: "16 + length ?a > 16 \<longleftrightarrow> ps \<noteq> []" using enc_items_min [of ps] by (cases ps) auto
  have re: "(16 + length ?a > 16 \<and> rp = Some (rl_rel x, rl_pos x)) = ?re" using Cons.prems(1) pair unfolding pos by (auto simp: repeats_def)
  have len: "length (enc_items ps') = length ?a + (if ?re then 4 else 8)" unfolding ps'_def by (rule enc_snoc_length) (simp add: repeats_def)
  have fill: "rld_fill (x # xs) ?a pf rp =
      (if overfull 56 ps (rld_of x) then (?a, x # xs) else rld_fill xs (enc_items ps') (length (enc_items ps') - 4) (Some (rl_rel x, rl_pos x)))"
  proof (cases ?re)
    case True
    then have "ps \<noteq> []" "rp = Some (rl_rel x, rl_pos x)" "pf = length ?a - 4" using re Cons.prems(1) by (auto simp: repeats_def)
    moreover have "enc_items ps' = ?a[length ?a - 4 := ?a ! (length ?a - 4) OR 0x01] @ [rel_flag x] @ mvs_put24 (int (rl_addr x))"
      using True \<open>ps \<noteq> []\<close> by (simp add: ps'_def rld_of_def enc_snoc_reuse)
    ultimately show ?thesis using True re len unfolding rld_fill.simps Let_def re by (simp add: overfull_def wrval_put)
  next
    case False
    have "enc_items ps' = ?a @ mvs_put16 (int (rl_rel x)) @ mvs_put16 (int (rl_pos x)) @ [rel_flag x] @ mvs_put24 (int (rl_addr x))"
      using False by (simp add: ps'_def rld_of_def enc_snoc_full)
    then show ?thesis using False len unfolding rld_fill.simps Let_def re by (simp add: overfull_def wrval_put add.commute)
  qed
  show ?case
  proof (cases "overfull 56 ps (rld_of x)")
    case True
    then have "area = ?a" "rest = x # xs" using Cons.prems(2) unfolding fill by simp_all
    moreover have "\<not> overfull 56 [] (rld_of x)" by (simp add: overfull_def repeats_def)
    ultimately show ?thesis using True by (simp add: repeats_def)
  next
    case False
    have "rld_fill xs (enc_items ps') (length (enc_items ps') - 4) (Some (rl_rel x, rl_pos x)) = (area, rest)" using Cons.prems(2) False unfolding fill by simp
    then have "\<exists>qs. area = enc_items qs \<and> rec_split 56 ps' (map rld_of xs) = qs # (if rest = [] then [] else rec_split 56 [] (map rld_of rest))"
      by (intro Cons.IH) (simp_all add: ps'_def pair)
    then show ?thesis using False by (simp add: ps'_def)
  qed
qed simp

lemma rld_card_layout:
  assumes "length area \<le> 56"
  shows "\<exists>r. rld_card d area seq = [0x02, 0xD9, 0xD3, 0xC4] @ replicate 6 0x40 @ mvs_put16 (int (length area))
    @ replicate 4 0x40 @ area @ r"
proof -
  have nm: "cname cinit ''RLD'' = [0x02, 0xD9, 0xD3, 0xC4] @ replicate 76 0x40"
    by (simp add: cname_def cinit_def write_at_def ascii_def mvs_a2e_def mvs_a2e_tab_def)
  define c1 where "c1 = write_at (cname cinit ''RLD'') 16 area"
  have c1: "c1 = [0x02, 0xD9, 0xD3, 0xC4] @ replicate 12 0x40 @ area @ replicate (64 - length area) 0x40"
  proof -
    have "drop (16 + length area) ([0x02, 0xD9, 0xD3, 0xC4] @ replicate 76 0x40 :: bytes) = replicate (64 - length area) 0x40"
      by (simp only: drop_append drop_replicate) simp
    moreover have "take 16 ([0x02, 0xD9, 0xD3, 0xC4] @ replicate 76 0x40 :: bytes) = [0x02, 0xD9, 0xD3, 0xC4] @ replicate 12 0x40"
      by (simp only: take_append take_replicate) simp
    ultimately show ?thesis unfolding c1_def nm write_at_def by (simp only: append_assoc)
  qed
  define c2 where "c2 = cbe c1 10 (int (length area)) 2"
  have c2: "c2 = [0x02, 0xD9, 0xD3, 0xC4] @ replicate 6 0x40 @ mvs_put16 (int (length area)) @ replicate 4 0x40
      @ area @ replicate (64 - length area) 0x40"
    by (simp add: c2_def cbe_def c1 write_at_def wrval_put)
  have "\<exists>t. cseq d c seq = take 72 c @ t" if "length c = 80" for c
    using that by (auto simp: cseq_def write_at_def Let_def)
  moreover have "length c2 = 80" using assms by (simp add: c2)
  ultimately obtain t where t: "cseq d c2 seq = take 72 c2 @ t" by blast
  have "take 72 c2 = [0x02, 0xD9, 0xD3, 0xC4] @ replicate 6 0x40 @ mvs_put16 (int (length area)) @ replicate 4 0x40
      @ area @ replicate (56 - length area) 0x40"
    using assms by (simp add: c2)
  then show ?thesis using t by (auto simp: rld_card_def c1_def c2_def)
qed

lemma rld_card_read:
  assumes "length area \<le> 56"
  shows "\<exists>r. obj_rld_walk (rld_card d area seq) = obj_rld_items (area @ r) (length area)"
proof -
  let ?n = "length area"
  obtain r where r: "rld_card d area seq = [0x02, 0xD9, 0xD3, 0xC4] @ replicate 6 0x40 @ mvs_put16 (int ?n)
    @ replicate 4 0x40 @ area @ r" (is "?c = _")
    using rld_card_layout [OF assms] by blast
  have ty: "obj_card_type ?c = OBJ_RLD" by (simp add: obj_card_type_def r)
  have "mvs_be16 ?c (length ([0x02, 0xD9, 0xD3, 0xC4] @ replicate 6 0x40 :: bytes)) = ?n"
    unfolding r using f16.get_put_exact [of "int ?n" "[0x02, 0xD9, 0xD3, 0xC4] @ replicate 6 0x40"] assms by simp
  then have cnt: "mvs_be16 ?c 10 = ?n" by simp
  have "drop 16 ?c = area @ r" by (simp add: r)
  then show ?thesis using assms by (auto simp: obj_rld_walk_def ty cnt OBJ_CARD_LEN_def)
qed

lemma rld_cards_split:
  "rs \<noteq> [] \<Longrightarrow> list_all2 (\<lambda>c qs. \<exists>q. c = rld_card d (enc_items qs) q) (rld_cards d rs seq) (rec_split 56 [] (map rld_of rs))"
proof (induction d rs seq rule: rld_cards.induct)
  case (1 d rs seq)
  obtain area rest where f: "rld_fill rs [] 0 None = (area, rest)" by fastforce
  have "rld_fill rs (enc_items []) 0 None = (area, rest)" using f by simp
  from rld_fill_split [OF _ this]
  obtain qs where qs: "area = enc_items qs" "rec_split 56 [] (map rld_of rs) = qs # (if rest = [] then [] else rec_split 56 [] (map rld_of rest))" by auto
  have c: "rld_cards d rs seq = rld_card d area (seq + 1) # rld_cards d rest (seq + 1)" using 1(2) f by (subst rld_cards.simps) simp
  have "rest = [] \<Longrightarrow> rld_cards d rest (seq + 1) = []" by (subst rld_cards.simps) simp
  then show ?case using 1(1) [OF 1(2) f [symmetric] refl] unfolding c qs by auto
qed

lemma rld_cards_areas:
  "c \<in> set (rld_cards d rs seq) \<Longrightarrow> \<exists>area q. c = rld_card d area q \<and> length area \<le> 56"
proof (cases "rs = []")
  case False
  assume "c \<in> set (rld_cards d rs seq)"
  then obtain k where k: "k < length (rld_cards d rs seq)" "c = rld_cards d rs seq ! k" by (auto simp: in_set_conv_nth)
  note s = rld_cards_split [OF False, of d seq]
  obtain qs q where "qs \<in> set (rec_split 56 [] (map rld_of rs))" "c = rld_card d (enc_items qs) q"
    using list_all2_nthD [OF s k(1)] list_all2_lengthD [OF s] k nth_mem [of k "rec_split 56 [] (map rld_of rs)"] by metis
  moreover have "list_all (\<lambda>qs. run_ok None qs \<and> length (enc_items qs) \<le> 56) (rec_split 56 [] (map rld_of rs))" by (rule rec_split_ok) simp_all
  ultimately show ?thesis by (auto simp: list_all_iff)
qed (simp add: rld_cards.simps)

lemma rld_cards_read:
  assumes "list_all rl_ok rs"
  shows "concat (map (\<lambda>c. map rld_tuple (obj_rld_walk c)) (rld_cards d rs seq)) = map rld_of rs"
proof (cases "rs = []")
  case False
  let ?qss = "rec_split 56 [] (map rld_of rs)"
  have ok: "list_all (\<lambda>qs. run_ok None qs \<and> length (enc_items qs) \<le> 56) ?qss" by (rule rec_split_ok) simp_all
  have "list_all2 (\<lambda>c qs. \<exists>suf. obj_rld_walk c = obj_rld_items (enc_items qs @ suf) (length (enc_items qs))) (rld_cards d rs seq) ?qss"
    using rld_cards_split [OF False]
  proof (rule list.rel_mono_strong)
    fix c qs assume "qs \<in> set ?qss" "\<exists>q. c = rld_card d (enc_items qs) q"
    then show "\<exists>suf. obj_rld_walk c = obj_rld_items (enc_items qs @ suf) (length (enc_items qs))"
      using ok rld_card_read [of "enc_items qs" d] by (auto simp: list_all_iff)
  qed
  then show ?thesis by (intro rec_split_read [of 56]) (use assms rld_of_ok in \<open>auto simp: list_all_iff\<close>)
qed (simp add: rld_cards.simps)

end
