(* ===== verification/As_State.thy ===== *)
theory As_State
  imports As_Deck
begin

section \<open>as370: symbols, sections, text and relocations\<close>

text \<open>
  The assembler's state in \<^verbatim>\<open>as370/src/as370.c\<close> as far as the object deck depends on it, and the
  operations the statement handlers call on it: text goes in with \<^verbatim>\<open>put\<close>, external names with \<^verbatim>\<open>esd_add\<close>,
  address constants with the \<^verbatim>\<open>add_reloc\<close> family; between the passes \<^verbatim>\<open>assign_origins\<close> chains the control
  sections and the ESDIDs are handed out. Pointers to \<^verbatim>\<open>struct sym\<close> and \<^verbatim>\<open>struct lit\<close> are indices into
  their tables, a \<^verbatim>\<open>long\<close> is an \<open>int\<close>, and \<^verbatim>\<open>exit(2)\<close> with a message is a value of \<open>as_exit\<close>. The text
  buffer reads as zero where nothing was written, whatever its capacity, so it is a function of the address.
  The fields of \<^verbatim>\<open>struct sym\<close> and \<^verbatim>\<open>struct lit\<close> that only the statement handlers and the listing read are left out.
\<close>

datatype stype = S_REL | S_SD | S_PC | S_ER | S_LD | S_ABS | S_XD | S_CM

record sym =
  sy_name :: string
  sy_val :: int
  sy_type :: stype
  sy_defined :: bool
  sy_esdid :: nat
  sy_sect :: nat
  sy_is_weak :: bool
  sy_eq_to :: nat
  sy_xdlen :: int
  sy_xdalgn :: nat
  sy_len :: nat
  sy_declared_extrn :: bool

datatype esdrole = ESD_SECT | ESD_LD | ESD_ER | ESD_XD | ESD_CM

record esdent =
  ee_s :: nat
  ee_role :: esdrole
  ee_esdid :: nat

record lit =
  li_loc :: int
  li_placed :: bool
  li_ltseq :: int
  li_size :: nat
  li_algn :: nat
  li_psect :: nat

text \<open>One event of the pass-2 text log, with its bytes as written, and one punched card.\<close>

record txlev =
  te_addr :: nat
  te_esdid :: nat
  te_bytes :: bytes

record punchev =
  pe_ridx :: nat
  pe_before_esd :: bool
  pe_at_bytes :: int

record asm =
  syms :: "sym list"
  esdord :: "esdent list"
  lits :: "lit list"
  rels :: "reloc list"
  in_dsect :: bool
  in_com :: bool
  cur_sect_id :: nat
  cur_sect_esdid :: nat
  main_sect_esdid :: nat
  dsect_sect :: "nat \<Rightarrow> bool"
  sect_hwm :: "nat \<Rightarrow> int"
  sect_len1 :: "nat \<Rightarrow> int"
  sect_org :: "nat \<Rightarrow> int"
  sect_ord :: "nat list"
  start_base :: int
  first_ctl_sect :: nat
  first_content :: int
  pool_placing :: bool
  pool_defer :: bool
  pool_hwm0 :: int
  pool_org :: int
  pool_end :: int
  end_pool_seq :: int
  lc :: int
  modlen :: int
  g_pass :: nat
  txtb :: "nat \<Rightarrow> byte"
  defn :: "nat \<Rightarrow> bool"
  txl :: "txlev list"
  txl_on :: bool
  txl_maxend :: int
  txl_revisit :: bool
  punches :: "punchev list"
  repro_img :: "bytes list"
  end_has :: bool
  end_addr :: int
  end_esdid :: nat
  deck_id :: string

text \<open>Static storage starts as zero.\<close>

definition asm_init :: asm where
  "asm_init = \<lparr>syms = [], esdord = [], lits = [], rels = [], in_dsect = False, in_com = False, cur_sect_id = 0,
     cur_sect_esdid = 0, main_sect_esdid = 0, dsect_sect = (\<lambda>_. False), sect_hwm = (\<lambda>_. 0), sect_len1 = (\<lambda>_. 0),
     sect_org = (\<lambda>_. 0), sect_ord = [], start_base = 0, first_ctl_sect = 0, first_content = 0, pool_placing = False,
     pool_defer = False, pool_hwm0 = 0, pool_org = 0, pool_end = 0, end_pool_seq = 0, lc = 0, modlen = 0, g_pass = 0,
     txtb = (\<lambda>_. 0), defn = (\<lambda>_. False), txl = [], txl_on = False, txl_maxend = 0, txl_revisit = False,
     punches = [], repro_img = [], end_has = False, end_addr = 0, end_esdid = 0, deck_id = []\<rparr>"

datatype as_exit = AS_TEXT_NEGATIVE int | AS_TXL_FULL | AS_REL_FULL | AS_PAST_24BIT int

definition MAXSYM :: nat where "MAXSYM = 65536"
definition MAXREL :: nat where "MAXREL = 131072"
definition MAXSECT :: nat where "MAXSECT = 1024"
definition TXL_EV :: nat where "TXL_EV = 131072"
definition SECT_ARCH_MAX :: int where "SECT_ARCH_MAX = 2 ^ 24"

definition align8 :: "int \<Rightarrow> int" where
  "align8 x = (x + 7) AND NOT 7"

definition no_object :: "asm \<Rightarrow> bool" where
  "no_object st \<longleftrightarrow> in_dsect st \<or> in_com st"

definition is_dsect_id :: "asm \<Rightarrow> nat \<Rightarrow> bool" where
  "is_dsect_id st sid \<longleftrightarrow> sid > 0 \<and> sid < 256 \<and> dsect_sect st sid"

subsection \<open>Section extents\<close>

definition sect_lc_of :: "nat \<Rightarrow> int \<Rightarrow> asm \<Rightarrow> as_exit + asm" where
  "sect_lc_of sect e st =
    (if \<not> in_dsect st \<and> e > SECT_ARCH_MAX then Inl (AS_PAST_24BIT e)
     else
       let st = (if sect > 0 \<and> sect < MAXSECT \<and> e > sect_hwm st sect
                 then st\<lparr>sect_hwm := (sect_hwm st)(sect := e)\<rparr> else st)
       in Inr (if \<not> pool_placing st \<and> sect > 0 \<and> sect = first_ctl_sect st \<and> e > first_content st
               then st\<lparr>first_content := e\<rparr> else st))"

definition note_sect_lc :: "int \<Rightarrow> asm \<Rightarrow> as_exit + asm" where
  "note_sect_lc e st = sect_lc_of (cur_sect_id st) e st"

definition chain_sect :: "nat \<Rightarrow> asm \<Rightarrow> asm" where
  "chain_sect sid st =
    (if g_pass st \<noteq> 1 \<or> sid = 0 \<or> sid \<ge> MAXSECT then st
     else if sid \<in> set (sect_ord st) then st
     else if length (sect_ord st) < MAXSECT then st\<lparr>sect_ord := sect_ord st @ [sid]\<rparr> else st)"

subsection \<open>Text\<close>

definition txl_log :: "nat \<Rightarrow> nat \<Rightarrow> asm \<Rightarrow> as_exit + asm" where
  "txl_log a n st =
    (if \<not> txl_on st then Inr st
     else
       let st = (if int a < txl_maxend st then st\<lparr>txl_revisit := True\<rparr> else st);
           bs = map (txtb st) [a..<a + n];
           top = (if int (a + n) > txl_maxend st then int (a + n) else txl_maxend st) in
       if txl st \<noteq> [] \<and> a = te_addr (last (txl st)) + length (te_bytes (last (txl st)))
          \<and> cur_sect_esdid st = te_esdid (last (txl st))
       then Inr (st\<lparr>txl := butlast (txl st) @ [(last (txl st))\<lparr>te_bytes := te_bytes (last (txl st)) @ bs\<rparr>],
                    txl_maxend := top\<rparr>)
       else if length (txl st) \<ge> TXL_EV then Inl AS_TXL_FULL
       else Inr (st\<lparr>txl := txl st @ [\<lparr>te_addr = a, te_esdid = cur_sect_esdid st, te_bytes = bs\<rparr>],
                    txl_maxend := top\<rparr>))"

definition put_text :: "nat \<Rightarrow> int \<Rightarrow> nat \<Rightarrow> asm \<Rightarrow> asm" where
  "put_text a v n st = st\<lparr>
     txtb := (\<lambda>i. if a \<le> i \<and> i < a + n then mvs_wrval v n ! (i - a) else txtb st i),
     defn := (\<lambda>i. a \<le> i \<and> i < a + n \<or> defn st i)\<rparr>"

definition put :: "int \<Rightarrow> int \<Rightarrow> nat \<Rightarrow> asm \<Rightarrow> as_exit + asm" where
  "put at v n st =
    (if no_object st then Inr st
     else if at < 0 then Inl (AS_TEXT_NEGATIVE at)
     else
       case txl_log (nat at) n (put_text (nat at) v n st) of
         Inl x \<Rightarrow> Inl x
       | Inr st \<Rightarrow>
           let st = (if at + int n > modlen st then st\<lparr>modlen := at + int n\<rparr> else st)
           in note_sect_lc (at + int n) st)"

subsection \<open>External symbols\<close>

definition sym_find :: "string \<Rightarrow> asm \<Rightarrow> nat option" where
  "sym_find n st = List.find (\<lambda>i. sy_name (syms st ! i) = n) [0..<length (syms st)]"

definition esd_add :: "nat \<Rightarrow> esdrole \<Rightarrow> asm \<Rightarrow> asm" where
  "esd_add s role st =
    (if list_ex (\<lambda>e. ee_s e = s \<and> ee_role e = role) (esdord st) then st
     else if length (esdord st) < MAXSYM
     then st\<lparr>esdord := esdord st @ [\<lparr>ee_s = s, ee_role = role, ee_esdid = 0\<rparr>]\<rparr> else st)"

definition set_sym :: "nat \<Rightarrow> (sym \<Rightarrow> sym) \<Rightarrow> asm \<Rightarrow> asm" where
  "set_sym i f st = st\<lparr>syms := (syms st)[i := f (syms st ! i)]\<rparr>"

text \<open>
  Between the passes every entry that is not an LD gets the next ESDID. A symbol takes the first id of
  its entries, and a section's id outranks an ER's.
\<close>

definition number_entry :: "nat \<Rightarrow> nat \<times> asm \<Rightarrow> nat \<times> asm" where
  "number_entry k = (\<lambda>(sid, st).
    let e = esdord st ! k in
    if ee_role e = ESD_LD then (sid, st)
    else
      let st = st\<lparr>esdord := (esdord st)[k := e\<lparr>ee_esdid := sid + 1\<rparr>]\<rparr>;
          st = (if sy_esdid (syms st ! ee_s e) = 0 then set_sym (ee_s e) (\<lambda>s. s\<lparr>sy_esdid := sid + 1\<rparr>) st else st)
      in (sid + 1, st))"

definition section_ids :: "nat \<Rightarrow> asm \<Rightarrow> asm" where
  "section_ids k st =
    (let e = esdord st ! k in
     if ee_role e = ESD_SECT \<or> ee_role e = ESD_CM then set_sym (ee_s e) (\<lambda>s. s\<lparr>sy_esdid := ee_esdid e\<rparr>) st else st)"

definition assign_esdids :: "asm \<Rightarrow> asm" where
  "assign_esdids st =
    (let ks = [0..<length (esdord st)]; (sid, st) = fold number_entry ks (0, st)
     in fold section_ids ks st)"

definition find_main_sect :: "asm \<Rightarrow> asm" where
  "find_main_sect st =
    (let m1 = (case List.find (\<lambda>e. ee_role e = ESD_SECT \<and> sy_type (syms st ! ee_s e) = S_SD) (esdord st) of
                 Some e \<Rightarrow> sy_esdid (syms st ! ee_s e) | None \<Rightarrow> 0);
         m2 = (case List.find (\<lambda>e. ee_role e = ESD_SECT) (esdord st) of
                 Some e \<Rightarrow> sy_esdid (syms st ! ee_s e) | None \<Rightarrow> 0)
     in st\<lparr>main_sect_esdid := (if m1 \<noteq> 0 then m1 else m2)\<rparr>)"

subsection \<open>Chaining the sections\<close>

definition chain_step :: "nat \<Rightarrow> int \<times> asm \<Rightarrow> int \<times> asm" where
  "chain_step sid = (\<lambda>(org, st).
    if sid = 0 \<or> sid \<ge> MAXSECT \<or> is_dsect_id st sid then (org, st)
    else (align8 (org + sect_len1 st sid), st\<lparr>sect_org := (sect_org st)(sid := org)\<rparr>))"

definition origin_sym :: "asm \<Rightarrow> sym \<Rightarrow> sym" where
  "origin_sym st s =
    (if \<not> sy_defined s \<or> sy_sect s = 0 \<or> sy_sect s \<ge> MAXSECT then s
     else if is_dsect_id st (sy_sect s) \<or> sy_type s = S_ABS then s
     else s\<lparr>sy_val := sy_val s + sect_org st (sy_sect s)\<rparr>)"

definition origin_lit :: "asm \<Rightarrow> lit \<Rightarrow> lit" where
  "origin_lit st l =
    (if li_psect l > 0 \<and> li_psect l < MAXSECT \<and> \<not> is_dsect_id st (li_psect l)
     then l\<lparr>li_loc := li_loc l + sect_org st (li_psect l)\<rparr> else l)"

definition assign_origins :: "asm \<Rightarrow> asm" where
  "assign_origins st =
    (let st = st\<lparr>sect_len1 := sect_hwm st\<rparr>;
         (org, st) = fold chain_step (sect_ord st) (start_base st, st);
         st = st\<lparr>syms := map (origin_sym st) (syms st)\<rparr>
     in st\<lparr>lits := map (origin_lit st) (lits st)\<rparr>)"

subsection \<open>The END literal pool\<close>

definition lenalgn :: "nat \<Rightarrow> nat" where
  "lenalgn len = (if len mod 8 = 0 then 8 else if len mod 4 = 0 then 4 else if len mod 2 = 0 then 2 else 1)"

definition pool_gt :: "lit list \<Rightarrow> nat \<Rightarrow> nat \<Rightarrow> bool" where
  "pool_gt ls b t \<longleftrightarrow> lenalgn (li_size (ls ! b)) < lenalgn (li_size (ls ! t))"

definition pool_gather :: "int \<Rightarrow> nat \<Rightarrow> asm \<Rightarrow> nat list" where
  "pool_gather seq mx st =
    shift_sort (pool_gt (lits st))
      (take mx (filter (\<lambda>k. \<not> (li_placed (lits st ! k) \<or> li_ltseq (lits st ! k) \<noteq> seq)) [0..<length (lits st)]))"

definition pool_extent :: "nat list \<Rightarrow> int \<Rightarrow> asm \<Rightarrow> int" where
  "pool_extent mem base st =
    fold (\<lambda>k p. let l = lits st ! k in ((p + int (li_algn l) - 1) AND NOT (int (li_algn l) - 1)) + int (li_size l))
      mem (align8 base)"

definition pool_reserve :: "asm \<Rightarrow> as_exit + asm" where
  "pool_reserve st =
    (if first_ctl_sect st = 0 then Inr st
     else if pool_defer st \<and> first_content st \<le> pool_hwm0 st then Inr st
     else
       let mem = pool_gather (end_pool_seq st) 4096 st in
       if mem = [] then Inr st
       else
         let base = first_content st; org = align8 base; e = pool_extent mem org st;
             st = st\<lparr>pool_hwm0 := base, pool_org := org, lc := e, pool_end := e, pool_placing := True\<rparr>
         in case sect_lc_of (first_ctl_sect st) e st of
              Inl x \<Rightarrow> Inl x
            | Inr st \<Rightarrow>
                let st = st\<lparr>pool_placing := False\<rparr>;
                    st = (if e > modlen st then st\<lparr>modlen := e\<rparr> else st)
                in Inr (st\<lparr>pool_defer := True\<rparr>))"

subsection \<open>Relocations\<close>

definition sect_esdid_of :: "nat \<Rightarrow> asm \<Rightarrow> nat" where
  "sect_esdid_of sect st =
    (if sect = 0 then 0
     else case List.find (\<lambda>e. (ee_role e = ESD_SECT \<or> ee_role e = ESD_CM) \<and> sy_sect (syms st ! ee_s e) = sect) (esdord st) of
            Some e \<Rightarrow> sy_esdid (syms st ! ee_s e) | None \<Rightarrow> 0)"

definition sect_esdid :: "nat \<Rightarrow> asm \<Rightarrow> nat" where
  "sect_esdid sect st = (let e = sect_esdid_of sect st in if e \<noteq> 0 then e else main_sect_esdid st)"

text \<open>Following \<^verbatim>\<open>eq_to\<close>, at most sixteen hops.\<close>

fun alias_esdid :: "asm \<Rightarrow> nat \<Rightarrow> sym \<Rightarrow> nat" where
  "alias_esdid st 0 t = 0"
| "alias_esdid st (Suc hops) t =
    (if sy_eq_to t = 0 then 0
     else let t = syms st ! (sy_eq_to t - 1) in if sy_esdid t \<noteq> 0 then sy_esdid t else alias_esdid st hops t)"

definition push_reloc :: "reloc \<Rightarrow> asm \<Rightarrow> as_exit + asm" where
  "push_reloc r st = (if length (rels st) \<ge> MAXREL then Inl AS_REL_FULL else Inr (st\<lparr>rels := rels st @ [r]\<rparr>))"

definition reloc_target :: "nat option \<Rightarrow> bool \<Rightarrow> asm \<Rightarrow> nat" where
  "reloc_target s isV st =
    (case s of None \<Rightarrow> cur_sect_esdid st
     | Some i \<Rightarrow>
         let t = syms st ! i;
             rel = (if isV then (case List.find (\<lambda>e. ee_s e = i \<and> ee_role e = ESD_ER) (esdord st) of
                                   Some e \<Rightarrow> ee_esdid e | None \<Rightarrow> 0) else 0);
             rel = (if rel = 0 \<and> \<not> isV \<and> sy_defined t \<and> (sy_type t = S_ER \<or> sy_type t = S_REL)
                    then sect_esdid_of (sy_sect t) st else rel);
             rel = (if rel = 0 then sy_esdid t else rel);
             rel = (if rel = 0 then alias_esdid st 16 t else rel);
             rel = (if rel = 0 then sect_esdid_of (sy_sect t) st else rel)
         in if rel = 0 then cur_sect_esdid st else rel)"

definition add_reloc :: "nat \<Rightarrow> string \<Rightarrow> bool \<Rightarrow> nat \<Rightarrow> asm \<Rightarrow> as_exit + asm" where
  "add_reloc at target isV len st =
    (if no_object st then Inr st
     else push_reloc \<lparr>rl_addr = at, rl_pos = cur_sect_esdid st,
            rl_rel = reloc_target (sym_find target st) isV st,
            rl_isV = (if isV then 1 else 0), rl_len = len, rl_neg = False\<rparr> st)"

definition add_reloc_sect :: "nat \<Rightarrow> nat \<Rightarrow> nat \<Rightarrow> bool \<Rightarrow> asm \<Rightarrow> as_exit + asm" where
  "add_reloc_sect at sect len neg st =
    (if no_object st then Inr st
     else if dsect_sect st (sect AND 255) then Inr st
     else
       let rel = sect_esdid_of sect st; rel = (if rel = 0 then cur_sect_esdid st else rel)
       in push_reloc \<lparr>rl_addr = at, rl_pos = cur_sect_esdid st, rl_rel = rel, rl_isV = 0, rl_len = len, rl_neg = neg\<rparr> st)"

definition add_reloc_er :: "nat \<Rightarrow> nat \<Rightarrow> nat \<Rightarrow> bool \<Rightarrow> asm \<Rightarrow> as_exit + asm" where
  "add_reloc_er at s len neg st =
    (if no_object st then Inr st
     else push_reloc \<lparr>rl_addr = at, rl_pos = cur_sect_esdid st, rl_rel = sy_esdid (syms st ! s), rl_isV = 0,
            rl_len = len, rl_neg = neg\<rparr> st)"

definition add_reloc_pr :: "nat \<Rightarrow> nat \<Rightarrow> nat \<Rightarrow> nat \<Rightarrow> asm \<Rightarrow> as_exit + asm" where
  "add_reloc_pr at rel kind len st =
    (if no_object st then Inr st
     else push_reloc \<lparr>rl_addr = at, rl_pos = cur_sect_esdid st, rl_rel = rel, rl_isV = kind, rl_len = len,
            rl_neg = False\<rparr> st)"

subsection \<open>The log replays the text\<close>

definition ev_write :: "txlev \<Rightarrow> (nat \<Rightarrow> byte option) \<Rightarrow> nat \<Rightarrow> byte option" where
  "ev_write e m i =
    (if te_addr e \<le> i \<and> i < te_addr e + length (te_bytes e) then Some (te_bytes e ! (i - te_addr e)) else m i)"

definition replay :: "txlev list \<Rightarrow> nat \<Rightarrow> byte option" where
  "replay es = fold ev_write es (\<lambda>_. None)"

definition log_ok :: "asm \<Rightarrow> bool" where
  "log_ok st \<longleftrightarrow> (\<forall>i b. replay (txl st) i = Some b \<longrightarrow> txtb st i = b)"

lemma replay_snoc: "replay (es @ [e]) = ev_write e (replay es)"
  by (simp add: replay_def)

lemma ev_write_extend:
  assumes "a = te_addr e + length (te_bytes e)"
  shows "ev_write (e\<lparr>te_bytes := te_bytes e @ bs\<rparr>) m = ev_write \<lparr>te_addr = a, te_esdid = x, te_bytes = bs\<rparr> (ev_write e m)"
  using assms by (auto simp: ev_write_def fun_eq_iff nth_append)

lemma txl_log_replay:
  assumes "txl_log a n st = Inr st'" "txl_on st"
  shows "replay (txl st') = (\<lambda>i. if a \<le> i \<and> i < a + n then Some (txtb st i) else replay (txl st) i)"
    "txtb st' = txtb st" "txl_on st'"
proof -
  let ?bs = "map (txtb st) [a..<a + n]" and ?l = "last (txl st)"
  consider (ext) "txl st \<noteq> []" "a = te_addr ?l + length (te_bytes ?l)"
      "txl st' = butlast (txl st) @ [?l\<lparr>te_bytes := te_bytes ?l @ ?bs\<rparr>]"
    | (new) "txl st' = txl st @ [\<lparr>te_addr = a, te_esdid = cur_sect_esdid st, te_bytes = ?bs\<rparr>]"
    using assms by (auto simp: txl_log_def Let_def split: if_splits)
  then have "replay (txl st') = ev_write \<lparr>te_addr = a, te_esdid = cur_sect_esdid st, te_bytes = ?bs\<rparr> (replay (txl st))"
  proof cases
    case ext
    have r: "replay (txl st) = ev_write ?l (replay (butlast (txl st)))"
      using ext(1) replay_snoc [of "butlast (txl st)" ?l] by simp
    show ?thesis unfolding ext(3) replay_snoc r by (rule ev_write_extend [OF ext(2)])
  next
    case new
    then show ?thesis by (simp add: replay_snoc)
  qed
  also have "\<dots> = (\<lambda>i. if a \<le> i \<and> i < a + n then Some (txtb st i) else replay (txl st) i)"
    by (auto simp: ev_write_def fun_eq_iff)
  finally show "replay (txl st') = (\<lambda>i. if a \<le> i \<and> i < a + n then Some (txtb st i) else replay (txl st) i)" .
  show "txtb st' = txtb st" "txl_on st'"
    using assms by (auto simp: txl_log_def Let_def split: if_splits)
qed

lemma sect_lc_of_frame:
  assumes "sect_lc_of sect e st = Inr st'"
  shows "txl st' = txl st" "txtb st' = txtb st" "txl_on st' = txl_on st" "esdord st' = esdord st" "syms st' = syms st"
    "rels st' = rels st" "modlen st' = modlen st"
  using assms by (auto simp: sect_lc_of_def Let_def split: if_splits)

lemma put_split:
  assumes "put at v n st = Inr st'" "\<not> no_object st"
  obtains st1 where "0 \<le> at" "txl_log (nat at) n (put_text (nat at) v n st) = Inr st1"
    "txl st' = txl st1" "txtb st' = txtb st1"
proof -
  obtain st1 where at: "0 \<le> at" and s1: "txl_log (nat at) n (put_text (nat at) v n st) = Inr st1"
    and nt: "note_sect_lc (at + int n) (if at + int n > modlen st1 then st1\<lparr>modlen := at + int n\<rparr> else st1) = Inr st'"
    using assms by (auto simp: put_def Let_def split: if_splits sum.splits)
  have "txl st' = txl st1" "txtb st' = txtb st1"
    using sect_lc_of_frame [OF nt [unfolded note_sect_lc_def]] by (simp_all split: if_splits)
  with that at s1 show ?thesis by blast
qed

text \<open>
  C31. Writing text keeps the pass-2 log and the text buffer in step: every byte the log replays to is the
  byte in the buffer. What a call writes is in the log at its addresses, most significant byte first, and
  the rest of the replay is unchanged, so a later overlay of a range wins, as it does in the buffer.
\<close>

theorem put_keeps_log:
  assumes "log_ok st" "txl_on st" "\<not> no_object st" "put at v n st = Inr st'"
  shows "log_ok st' \<and> replay (txl st') = (\<lambda>i. if nat at \<le> i \<and> i < nat at + n then Some (mvs_wrval v n ! (i - nat at))
      else replay (txl st) i)"
proof -
  obtain st1 where s1: "txl_log (nat at) n (put_text (nat at) v n st) = Inr st1"
    and same: "txl st' = txl st1" "txtb st' = txtb st1"
    using put_split [OF assms(4,3)] by metis
  have rep: "replay (txl st') = (\<lambda>i. if nat at \<le> i \<and> i < nat at + n then Some (mvs_wrval v n ! (i - nat at))
      else replay (txl st) i)"
    using txl_log_replay(1) [OF s1] assms(2) by (auto simp: put_text_def same fun_eq_iff)
  moreover have "txtb st' = (\<lambda>i. if nat at \<le> i \<and> i < nat at + n then mvs_wrval v n ! (i - nat at) else txtb st i)"
    using txl_log_replay(2) [OF s1] assms(2) by (auto simp: put_text_def same)
  ultimately have "log_ok st'" using assms(1) by (simp add: log_ok_def)
  with rep show ?thesis by simp
qed

text \<open>A constant written twice, the second overlaying the middle of the first.\<close>

theorem put_keeps_log_witness:
  "\<exists>st st'. put 4 0x01020304 4 (asm_init\<lparr>txl_on := True\<rparr>) = Inr st \<and> put 5 0xAABB 2 st = Inr st'
     \<and> map (replay (txl st')) [3, 4, 5, 6, 7, 8] = [None, Some 1, Some 0xAA, Some 0xBB, Some 4, None]"
proof -
  let ?s0 = "asm_init\<lparr>txl_on := True\<rparr>"
  obtain st where st: "put 4 0x01020304 4 ?s0 = Inr st" "\<not> no_object st" "txl_on st"
    by (simp add: put_def no_object_def asm_init_def txl_log_def put_text_def note_sect_lc_def sect_lc_of_def
        SECT_ARCH_MAX_def TXL_EV_def)
  obtain st' where st': "put 5 0xAABB 2 st = Inr st'"
    using st(1) by (auto simp: put_def no_object_def asm_init_def txl_log_def put_text_def note_sect_lc_def sect_lc_of_def
        SECT_ARCH_MAX_def TXL_EV_def)
  have s0: "log_ok ?s0" "txl_on ?s0" "\<not> no_object ?s0" "replay (txl ?s0) = (\<lambda>_. None)"
    by (simp_all add: log_ok_def replay_def asm_init_def no_object_def)
  note one = put_keeps_log [OF s0(1-3) st(1)]
  note two = put_keeps_log [OF conjunct1 [OF one] st(3,2) st']
  have w: "mvs_wrval 0x01020304 4 = [1, 2, 3, 4]" "mvs_wrval 0xAABB 2 = [0xAA, 0xBB]" by code_simp+
  have "map (replay (txl st')) [3, 4, 5, 6, 7, 8] = [None, Some 1, Some 0xAA, Some 0xBB, Some 4, None]"
    unfolding conjunct2 [OF two] conjunct2 [OF one] s0(4) w by simp
  with st(1) st' show ?thesis by (intro exI [of _ st] exI [of _ st'] conjI)
qed

subsection \<open>Sections do not overlap\<close>

definition real_sect :: "asm \<Rightarrow> nat \<Rightarrow> bool" where
  "real_sect st sid \<longleftrightarrow> \<not> (sid = 0 \<or> sid \<ge> MAXSECT \<or> is_dsect_id st sid)"

lemma int_and_not_mask: "x AND NOT (mask n) = x - x mod 2 ^ n" for x :: int
proof -
  have "x AND NOT (mask n) = push_bit n (drop_bit n x)"
    by (rule bit_eqI) (auto simp: bit_simps)
  then show ?thesis by (simp add: push_bit_eq_mult drop_bit_eq_div minus_mod_eq_div_mult)
qed

lemma align8_int: "align8 x = x + (- x) mod 8"
proof -
  have m: "(7 :: int) = mask 3" by (simp add: mask_eq_exp_minus_1)
  have "align8 x = (x + 7) - (x + 7) mod 8"
    using int_and_not_mask [of "x + 7" 3] unfolding align8_def m by simp
  then show ?thesis by presburger
qed

lemma align8_facts: "x \<le> align8 x" "8 dvd align8 x" "align8 x < x + 8"
proof -
  show "x \<le> align8 x" "align8 x < x + 8" by (simp_all add: align8_int)
  show "8 dvd align8 x" by (simp add: align8_int) presburger
qed

fun chain_orgs :: "(nat \<Rightarrow> int) \<Rightarrow> (nat \<Rightarrow> bool) \<Rightarrow> nat list \<Rightarrow> int \<Rightarrow> (nat \<Rightarrow> int) \<Rightarrow> nat \<Rightarrow> int" where
  "chain_orgs len real [] org f = f"
| "chain_orgs len real (i # is) org f =
    (if real i then chain_orgs len real is (align8 (org + len i)) (f(i := org)) else chain_orgs len real is org f)"

lemma chain_fold:
  "snd (fold chain_step ids (org, st)) = st\<lparr>sect_org := chain_orgs (sect_len1 st) (real_sect st) ids org (sect_org st)\<rparr>"
proof (induction ids arbitrary: org st)
  case (Cons i ids)
  have "real_sect (st\<lparr>sect_org := f\<rparr>) = real_sect st" for f
    by (simp add: real_sect_def is_dsect_id_def fun_eq_iff)
  moreover have "chain_step i (org, st) = (if real_sect st i
      then (align8 (org + sect_len1 st i), st\<lparr>sect_org := (sect_org st)(i := org)\<rparr>) else (org, st))"
    by (simp add: chain_step_def real_sect_def)
  ultimately show ?case by (simp add: Cons fun_upd_def)
qed simp

lemma chain_orgs_frame: "i \<notin> set ids \<Longrightarrow> chain_orgs len real ids org f i = f i"
  by (induction ids arbitrary: org f) auto

lemma chain_orgs_above:
  assumes "\<forall>i\<in>set ids. real i \<longrightarrow> 0 \<le> len i" "distinct ids" "8 dvd org" "i \<in> set ids" "real i"
  shows "8 dvd chain_orgs len real ids org f i \<and> org \<le> chain_orgs len real ids org f i"
  using assms
proof (induction ids arbitrary: org f)
  case (Cons j ids)
  show ?case
  proof (cases "i = j")
    case True
    then show ?thesis using Cons.prems by (simp add: chain_orgs_frame)
  next
    case False
    let ?o = "if real j then align8 (org + len j) else org" and ?f = "if real j then f(j := org) else f"
    have up: "org \<le> ?o" "8 dvd ?o"
      using Cons.prems(1,3) align8_facts(1) [of "org + len j"] align8_facts(2) [of "org + len j"] by fastforce+
    have "8 dvd chain_orgs len real ids ?o ?f i \<and> ?o \<le> chain_orgs len real ids ?o ?f i"
      using Cons.IH [of ?o ?f] Cons.prems False up(2) by simp
    moreover have "chain_orgs len real (j # ids) org f = chain_orgs len real ids ?o ?f" by simp
    ultimately show ?thesis using up(1) by (auto intro: order_trans)
  qed
qed simp

lemma chain_orgs_dummy: "\<not> real i \<Longrightarrow> chain_orgs len real ids org f i = f i"
  by (induction ids arbitrary: org f) auto

lemma chain_orgs_disjoint:
  assumes "\<forall>i\<in>set ids. real i \<longrightarrow> 0 \<le> len i" "distinct ids" "8 dvd org"
  shows "sorted_wrt (\<lambda>i j. chain_orgs len real ids org f i + len i \<le> chain_orgs len real ids org f j) (filter real ids)"
  using assms
proof (induction ids arbitrary: org f)
  case (Cons j ids)
  show ?case
  proof (cases "real j")
    case True
    let ?o = "align8 (org + len j)" and ?f = "f(j := org)"
    let ?c = "chain_orgs len real ids ?o ?f"
    have "sorted_wrt (\<lambda>i k. ?c i + len i \<le> ?c k) (filter real ids)"
      using Cons by (simp add: align8_facts(2))
    moreover have "org + len j \<le> ?c i" if "i \<in> set ids" "real i" for i
      using chain_orgs_above [of ids real len ?o i ?f] Cons.prems that align8_facts(1) [of "org + len j"]
      by (auto simp: align8_facts(2) intro: order_trans)
    moreover have "?c j = org" using Cons.prems by (simp add: chain_orgs_frame)
    ultimately show ?thesis using True by simp
  qed (use Cons in simp)
qed simp

text \<open>
  C32. Chaining the control sections between the passes: every section gets an origin on a doubleword
  boundary at or above the START address, and a section that comes later in the chain begins at or after
  the end of each one before it, so no two sections overlap. Dummy sections keep the origin they had.
\<close>

theorem origins_disjoint:
  assumes "distinct (sect_ord st)" "8 dvd start_base st" "\<forall>i. 0 \<le> sect_hwm st i"
  shows "sorted_wrt (\<lambda>i j. sect_org (assign_origins st) i + sect_hwm st i \<le> sect_org (assign_origins st) j)
        (filter (real_sect st) (sect_ord st))
    \<and> (\<forall>i. i \<in> set (sect_ord st) \<and> real_sect st i \<longrightarrow>
          8 dvd sect_org (assign_origins st) i \<and> start_base st \<le> sect_org (assign_origins st) i)
    \<and> (\<forall>i. is_dsect_id st i \<longrightarrow> sect_org (assign_origins st) i = sect_org st i)"
proof -
  let ?c = "chain_orgs (sect_hwm st) (real_sect st) (sect_ord st) (start_base st) (sect_org st)"
  have r: "real_sect (st\<lparr>sect_len1 := h\<rparr>) = real_sect st" for h
    by (simp add: real_sect_def is_dsect_id_def fun_eq_iff)
  have org: "sect_org (assign_origins st) = ?c"
    using chain_fold [of "sect_ord st" "start_base st" "st\<lparr>sect_len1 := sect_hwm st\<rparr>"]
    by (simp add: assign_origins_def Let_def case_prod_beta r)
  show ?thesis
    unfolding org using assms chain_orgs_disjoint [of "sect_ord st" "real_sect st" "sect_hwm st" "start_base st" "sect_org st"]
      chain_orgs_above [of "sect_ord st" "real_sect st" "sect_hwm st" "start_base st" _ "sect_org st"]
      chain_orgs_dummy [of "real_sect st"]
    by (auto simp: real_sect_def)
qed

theorem origins_disjoint_witness:
  "\<exists>st. distinct (sect_ord st) \<and> filter (real_sect st) (sect_ord st) = [1, 3]
     \<and> sect_org (assign_origins st) 1 = 16 \<and> sect_org (assign_origins st) 1 + sect_hwm st 1 \<le> sect_org (assign_origins st) 3
     \<and> 8 dvd sect_org (assign_origins st) 3"
proof -
  let ?st = "asm_init\<lparr>sect_ord := [1, 2, 3], start_base := 16, dsect_sect := (\<lambda>i. i = 2),
    sect_hwm := (\<lambda>i. if i = 1 then 13 else 0)\<rparr>"
  have "filter (real_sect ?st) (sect_ord ?st) = [1, 3]"
    by (simp add: real_sect_def is_dsect_id_def asm_init_def MAXSECT_def)
  moreover have "sect_org (assign_origins ?st) 1 = 16"
    by (simp add: assign_origins_def chain_step_def is_dsect_id_def asm_init_def MAXSECT_def align8_int)
  ultimately show ?thesis
    using origins_disjoint [of ?st] by (intro exI [of _ ?st]) (auto simp: asm_init_def real_sect_def is_dsect_id_def MAXSECT_def)
qed

subsection \<open>ESDIDs\<close>

fun number :: "nat \<Rightarrow> esdent list \<Rightarrow> esdent list" where
  "number n [] = []"
| "number n (e # es) = (if ee_role e = ESD_LD then e # number n es else e\<lparr>ee_esdid := n + 1\<rparr> # number (n + 1) es)"

lemma number_length [simp]: "length (number n es) = length es"
  by (induction n es rule: number.induct) auto

lemma number_fields: "map ee_s (number n es) = map ee_s es" "map ee_role (number n es) = map ee_role es"
  by (induction n es rule: number.induct) auto

lemma number_ids:
  "map ee_esdid (filter (\<lambda>e. ee_role e \<noteq> ESD_LD) (number n es))
   = [n + 1..<n + 1 + length (filter (\<lambda>e. ee_role e \<noteq> ESD_LD) es)]"
  by (induction n es rule: number.induct) (auto simp: upt_conv_Cons simp del: upt_Suc)

lemma number_fold:
  "k \<le> length (esdord st) \<Longrightarrow>
   esdord (snd (fold number_entry [k..<length (esdord st)] (n, st))) = take k (esdord st) @ number n (drop k (esdord st))
   \<and> length (syms (snd (fold number_entry [k..<length (esdord st)] (n, st)))) = length (syms st)"
proof (induction "length (esdord st) - k" arbitrary: k n st)
  case (Suc d)
  then have k: "k < length (esdord st)" by simp
  let ?e = "esdord st ! k"
  obtain n' st' where step: "number_entry k (n, st) = (n', st')" by fastforce
  have es: "esdord st' = (if ee_role ?e = ESD_LD then esdord st else (esdord st)[k := ?e\<lparr>ee_esdid := n + 1\<rparr>])"
    "n' = (if ee_role ?e = ESD_LD then n else n + 1)" "length (syms st') = length (syms st)"
    using step by (auto simp: number_entry_def Let_def set_sym_def split: if_splits)
  then have len: "length (esdord st') = length (esdord st)" by simp
  have IH: "esdord (snd (fold number_entry [Suc k..<length (esdord st')] (n', st')))
      = take (Suc k) (esdord st') @ number n' (drop (Suc k) (esdord st'))
      \<and> length (syms (snd (fold number_entry [Suc k..<length (esdord st')] (n', st')))) = length (syms st')"
    by (rule Suc.hyps(1)) (use Suc.hyps(2) k len in auto)
  have run: "fold number_entry [k..<length (esdord st)] (n, st) = fold number_entry [Suc k..<length (esdord st')] (n', st')"
    using k by (simp add: upt_conv_Cons step len)
  have "take (Suc k) (esdord st') @ number n' (drop (Suc k) (esdord st')) = take k (esdord st) @ number n (drop k (esdord st))"
    using k by (simp add: es Cons_nth_drop_Suc [OF k, symmetric] take_Suc_conv_app_nth)
  with IH show ?case unfolding run es(3) [symmetric] by simp
qed simp

lemma section_ids_frame [simp]:
  "esdord (section_ids k st) = esdord st" "length (syms (section_ids k st)) = length (syms st)"
  by (simp_all add: section_ids_def set_sym_def Let_def)

lemma section_fold_frame:
  "esdord (fold section_ids ks st) = esdord st" "length (syms (fold section_ids ks st)) = length (syms st)"
  by (induction ks arbitrary: st) simp_all

lemma esdids_esdord: "esdord (assign_esdids st) = number 0 (esdord st)"
  using number_fold [of 0 st 0] by (simp add: assign_esdids_def Let_def case_prod_beta section_fold_frame)

definition is_sect_entry :: "esdent \<Rightarrow> bool" where
  "is_sect_entry e \<longleftrightarrow> ee_role e = ESD_SECT \<or> ee_role e = ESD_CM"

lemma distinct_filter_nth:
  assumes "distinct (map f (filter P xs))" "i < length xs" "j < length xs" "i \<noteq> j" "P (xs ! i)" "P (xs ! j)"
  shows "f (xs ! i) \<noteq> f (xs ! j)"
  using assms
proof (induction xs arbitrary: i j)
  case (Cons x xs)
  have tl: "distinct (map f (filter P xs))" using Cons.prems(1) by (simp split: if_splits)
  have hd: "f x \<noteq> f y" if "P x" "y \<in> set xs" "P y" for y using Cons.prems(1) that by auto
  show ?case using Cons.prems Cons.IH [OF tl] hd not_sym [OF hd] by (cases i; cases j) (auto dest: nth_mem)
qed simp

lemma section_fold_syms:
  assumes "distinct (map ee_s (filter is_sect_entry (esdord st)))" "\<forall>e\<in>set (esdord st). ee_s e < length (syms st)"
    "k < n" "n \<le> length (esdord st)" "is_sect_entry (esdord st ! k)"
  shows "sy_esdid (syms (fold section_ids [0..<n] st) ! ee_s (esdord st ! k)) = ee_esdid (esdord st ! k)"
  using assms(3,4)
proof (induction n)
  case (Suc n)
  let ?st = "fold section_ids [0..<n] st" and ?e = "esdord st ! n" and ?i = "ee_s (esdord st ! k)"
  have step: "fold section_ids [0..<Suc n] st = section_ids n ?st" by simp
  have e: "esdord ?st ! n = ?e" "length (syms ?st) = length (syms st)" by (simp_all add: section_fold_frame)
  have i: "?i < length (syms st)" using assms(2) Suc.prems by (auto intro: nth_mem)
  show ?case
  proof (cases "k = n")
    case True
    then show ?thesis
      using assms(5) i e unfolding step by (simp add: section_ids_def set_sym_def Let_def is_sect_entry_def)
  next
    case False
    then have IH: "sy_esdid (syms ?st ! ?i) = ee_esdid (esdord st ! k)" using Suc by simp
    have "ee_s ?e \<noteq> ?i" if "is_sect_entry ?e"
      using assms(1,5) that False Suc.prems distinct_filter_nth [of ee_s is_sect_entry "esdord st" n k] by auto
    then show ?thesis using IH e unfolding step by (auto simp: section_ids_def set_sym_def Let_def is_sect_entry_def)
  qed
qed simp

text \<open>
  Handing out ESDIDs between the passes: the entries that are not LD are numbered 1, 2, 3, ... in the
  order they were registered, nothing else of an entry changes, and the symbol that names a control or
  common section carries its section's id even where an external reference to the same name came first.
\<close>

theorem esdids_numbered:
  assumes "distinct (map ee_s (filter is_sect_entry (esdord st)))" "\<forall>e\<in>set (esdord st). ee_s e < length (syms st)"
  shows "map ee_esdid (filter (\<lambda>e. ee_role e \<noteq> ESD_LD) (esdord (assign_esdids st)))
      = [1..<Suc (length (filter (\<lambda>e. ee_role e \<noteq> ESD_LD) (esdord st)))]
    \<and> map ee_s (esdord (assign_esdids st)) = map ee_s (esdord st)
    \<and> map ee_role (esdord (assign_esdids st)) = map ee_role (esdord st)
    \<and> (\<forall>e\<in>set (esdord (assign_esdids st)). is_sect_entry e \<longrightarrow>
         sy_esdid (syms (assign_esdids st) ! ee_s e) = ee_esdid e)"
proof -
  define st1 where "st1 = snd (fold number_entry [0..<length (esdord st)] (0, st))"
  have st1: "esdord st1 = number 0 (esdord st)" "length (syms st1) = length (syms st)"
    using number_fold [of 0 st 0] by (simp_all add: st1_def)
  have as: "assign_esdids st = fold section_ids [0..<length (esdord st)] st1"
    by (simp add: assign_esdids_def st1_def case_prod_beta Let_def)
  have sect: "map ee_s (filter is_sect_entry (number n es)) = map ee_s (filter is_sect_entry es)" for n es
    by (induction n es rule: number.induct) (auto simp: is_sect_entry_def)
  have wf: "\<forall>e\<in>set (esdord st1). ee_s e < length (syms st1)"
    using assms(2) arg_cong [OF number_fields(1), of set 0 "esdord st"] unfolding st1
    by (metis (no_types, lifting) imageE imageI list.set_map)
  have "sy_esdid (syms (assign_esdids st) ! ee_s e) = ee_esdid e"
    if e: "e \<in> set (esdord (assign_esdids st))" "is_sect_entry e" for e
  proof -
    obtain k where k: "k < length (esdord st1)" "e = esdord st1 ! k"
      using e(1) by (metis as in_set_conv_nth section_fold_frame(1))
    show ?thesis
      using section_fold_syms [of st1 k "length (esdord st)"] assms(1) wf k e(2) unfolding as
      by (simp add: st1 sect)
  qed
  then show ?thesis
    using number_ids [of 0 "esdord st"] by (simp add: esdids_esdord number_fields)
qed

theorem esdids_numbered_witness:
  "\<exists>st. map ee_role (esdord st) = [ESD_ER, ESD_LD, ESD_SECT, ESD_ER] \<and> map ee_s (esdord st) = [0, 1, 0, 2]
     \<and> map ee_esdid (filter (\<lambda>e. ee_role e \<noteq> ESD_LD) (esdord (assign_esdids st))) = [1, 2, 3]
     \<and> sy_esdid (syms (assign_esdids st) ! 0) = 2"
proof -
  let ?s = "\<lparr>sy_name = ''B'', sy_val = 0, sy_type = S_SD, sy_defined = True, sy_esdid = 0, sy_sect = 1, sy_is_weak = False,
    sy_eq_to = 0, sy_xdlen = 0, sy_xdalgn = 0, sy_len = 0, sy_declared_extrn = False\<rparr>"
  let ?e = "\<lambda>i r. \<lparr>ee_s = i, ee_role = r, ee_esdid = 0\<rparr>"
  let ?st = "asm_init\<lparr>syms := [?s, ?s, ?s], esdord := [?e 0 ESD_ER, ?e 1 ESD_LD, ?e 0 ESD_SECT, ?e 2 ESD_ER]\<rparr>"
  have "distinct (map ee_s (filter is_sect_entry (esdord ?st)))" "\<forall>e\<in>set (esdord ?st). ee_s e < length (syms ?st)"
    by (simp_all add: is_sect_entry_def)
  note t = esdids_numbered [OF this]
  have "(?e 0 ESD_SECT)\<lparr>ee_esdid := 2\<rparr> \<in> set (esdord (assign_esdids ?st))"
    by (simp add: esdids_esdord)
  then have "sy_esdid (syms (assign_esdids ?st) ! 0) = 2"
    using t by (auto simp: is_sect_entry_def)
  then show ?thesis using t by (intro exI [of _ ?st]) (simp add: upt_rec)
qed

subsection \<open>The literal pool is dense\<close>

interpretation pool: keyed_order "pool_gt ls" "\<lambda>k. - int (lenalgn (li_size (ls ! k)))"
  by unfold_locales (simp add: pool_gt_def)

lemma lenalgn_dvd: "lenalgn n dvd n" "lenalgn n dvd 8"
  by (auto simp: lenalgn_def)

lemma lenalgn_le_dvd: "lenalgn m \<le> lenalgn n \<Longrightarrow> lenalgn m dvd lenalgn n"
  by (auto simp: lenalgn_def split: if_splits)

lemma pow2_round:
  assumes "a dvd 8" "int a dvd p" shows "(p + int a - 1) AND NOT (int a - 1) = p"
proof -
  have "a \<le> 8" using assms(1) by (auto dest: dvd_imp_le)
  then have "a \<in> {0, 1, 2, 3, 4, 5, 6, 7, 8}" by auto
  then have "a = 1 \<or> a = 2 \<or> a = 4 \<or> a = 8" using assms(1) by auto
  then have "int a = 2 ^ 0 \<or> int a = 2 ^ 1 \<or> int a = 2 ^ 2 \<or> int a = 2 ^ 3" by auto
  then obtain m where m: "int a = 2 ^ m" by blast
  have "(p + int a - 1) AND NOT (int a - 1) = (p + (2 ^ m - 1)) - (p + (2 ^ m - 1)) mod 2 ^ m"
    using int_and_not_mask [of "p + (2 ^ m - 1)" m] by (simp add: m mask_eq_exp_minus_1 add_diff_eq)
  also have "(p + (2 ^ m - 1)) mod 2 ^ m = 2 ^ m - 1"
    using assms(2) by (auto simp: m zmod_minus1)
  finally show ?thesis by simp
qed


lemma pool_extent_dense:
  assumes "sorted_wrt (\<lambda>i j. lenalgn (li_size (lits st ! j)) \<le> lenalgn (li_size (lits st ! i))) mem"
    "\<forall>k\<in>set mem. li_algn (lits st ! k) dvd lenalgn (li_size (lits st ! k))"
    "\<forall>k\<in>set mem. int (lenalgn (li_size (lits st ! k))) dvd p"
  shows "fold (\<lambda>k p. let l = lits st ! k in ((p + int (li_algn l) - 1) AND NOT (int (li_algn l) - 1)) + int (li_size l)) mem p
    = p + (\<Sum>k\<leftarrow>mem. int (li_size (lits st ! k)))"
  using assms
proof (induction mem arbitrary: p)
  case (Cons k mem)
  let ?l = "lits st ! k"
  have "int (li_algn ?l) dvd p"
    using Cons.prems(2,3) by (auto intro: dvd_trans)
  moreover have "li_algn ?l dvd 8"
    using Cons.prems(2) lenalgn_dvd(2) [of "li_size ?l"] by (auto intro: dvd_trans)
  ultimately have round: "(p + int (li_algn ?l) - 1) AND NOT (int (li_algn ?l) - 1) = p"
    by (intro pow2_round)
  have "int (lenalgn (li_size (lits st ! j))) dvd p + int (li_size ?l)" if "j \<in> set mem" for j
  proof -
    have "lenalgn (li_size (lits st ! j)) dvd li_size ?l"
      using Cons.prems(1) that lenalgn_le_dvd lenalgn_dvd(1) [of "li_size ?l"] by (auto intro: dvd_trans)
    then show ?thesis using Cons.prems(3) that by simp
  qed
  then show ?case using Cons by (simp add: Let_def round)
qed simp

text \<open>
  The literal pool: gathering orders the pending literals of a pool by the boundary their length
  implies, longest first and otherwise in order of first use. Laid out from a doubleword, a pool whose
  literals ask for no more than that boundary has no gaps.
\<close>

theorem pool_dense:
  assumes "\<forall>l\<in>set (lits st). li_algn l dvd lenalgn (li_size l)"
  shows "pool_extent (pool_gather seq mx st) base st
    = align8 base + (\<Sum>k\<leftarrow>pool_gather seq mx st. int (li_size (lits st ! k)))"
proof -
  let ?ks = "take mx (filter (\<lambda>k. \<not> (li_placed (lits st ! k) \<or> li_ltseq (lits st ! k) \<noteq> seq)) [0..<length (lits st)])"
  let ?mem = "pool_gather seq mx st"
  have mem: "?mem = sort_key (\<lambda>k. - int (lenalgn (li_size (lits st ! k)))) ?ks"
    by (simp add: pool_gather_def pool.sort_is_sort_key)
  have inr: "\<forall>k\<in>set ?mem. k < length (lits st)" unfolding mem by (auto dest: in_set_takeD)
  have "sorted (map (\<lambda>k. - int (lenalgn (li_size (lits st ! k)))) ?mem)" by (simp add: mem)
  then have "sorted_wrt (\<lambda>i j. lenalgn (li_size (lits st ! j)) \<le> lenalgn (li_size (lits st ! i))) ?mem"
    by (simp add: sorted_map)
  moreover have "\<forall>k\<in>set ?mem. li_algn (lits st ! k) dvd lenalgn (li_size (lits st ! k))"
    using assms inr by (auto intro: nth_mem)
  moreover have "\<forall>k\<in>set ?mem. int (lenalgn (li_size (lits st ! k))) dvd align8 base"
  proof
    fix k
    have "int (lenalgn (li_size (lits st ! k))) dvd 8" using lenalgn_dvd(2) by (metis of_nat_dvd_iff of_nat_numeral)
    then show "int (lenalgn (li_size (lits st ! k))) dvd align8 base" using align8_facts(2) by (rule dvd_trans)
  qed
  ultimately show ?thesis unfolding pool_extent_def by (intro pool_extent_dense)
qed

theorem pool_dense_witness:
  "\<exists>st. pool_gather 0 4096 st = [2, 0, 3, 1] \<and> pool_extent (pool_gather 0 4096 st) 13 st = 16 + 15"
proof -
  let ?l = "\<lambda>n a. \<lparr>li_loc = 0, li_placed = False, li_ltseq = 0, li_size = n, li_algn = a, li_psect = 0\<rparr>"
  let ?st = "asm_init\<lparr>lits := [?l 4 4, ?l 1 1, ?l 8 8, ?l 2 2]\<rparr>"
  have g: "pool_gather 0 4096 ?st = [2, 0, 3, 1]"
    by (simp add: pool_gather_def shift_sort_def shift_insert_def pool_gt_def lenalgn_def upt_rec)
  have "pool_extent (pool_gather 0 4096 ?st) 13 ?st
      = align8 13 + (\<Sum>k\<leftarrow>pool_gather 0 4096 ?st. int (li_size (lits ?st ! k)))"
    by (rule pool_dense) (simp add: lenalgn_def)
  also have "\<dots> = 16 + 15" unfolding g by (simp add: align8_int)
  finally show ?thesis using g by blast
qed

subsection \<open>Relocations against a section\<close>



end
