(* ===== verification/As_Emit.thy ===== *)
theory As_Emit
  imports As_State
begin

section \<open>as370: emit\_obj\<close>

text \<open>
  The object writer \<^verbatim>\<open>emit_obj\<close> of \<^verbatim>\<open>as370/src/as370.c\<close> over the state of \<open>As_State\<close>: cards punched by REPRO, the
  ESD cards, the TXT cards replayed from the emission log, the RLD cards and the END card. The deck is the
  list of its 80-byte cards. The reader of \<open>Obj_Cards\<close> gets back the external symbols with their ESDIDs, the
  emission log byte for byte and the relocations.
\<close>

subsection \<open>ESD cards\<close>

definition sect_length :: "asm \<Rightarrow> esdent \<Rightarrow> int" where
  "sect_length st e =
    (let s = syms st ! ee_s e; hw = (if sy_sect s > 0 \<and> sy_sect s < MAXSECT then sect_hwm st (sy_sect s) else 0)
     in if hw > sy_val s then hw - sy_val s else 0)"

definition entry_unlinkable :: "sym \<Rightarrow> bool" where
  "entry_unlinkable s \<longleftrightarrow> sy_type s \<noteq> S_ER \<and> (\<not> sy_defined s \<or> sy_type s = S_ABS)"

definition esd_skip :: "asm \<Rightarrow> esdent \<Rightarrow> bool" where
  "esd_skip st e \<longleftrightarrow> ee_role e = ESD_LD \<and>
     (list_ex (\<lambda>q. ee_s q = ee_s e \<and> ee_role q = ESD_SECT) (esdord st) \<or> entry_unlinkable (syms st ! ee_s e))"

definition esd_slot :: "asm \<Rightarrow> bytes \<Rightarrow> nat \<Rightarrow> esdent \<Rightarrow> bytes" where
  "esd_slot st c slot e =
    (let s = syms st ! ee_s e in
     case ee_role e of
       ESD_SECT \<Rightarrow> esd_ent c slot (sy_name s) (if sy_type s = S_PC then 0x04 else 0x00) (sy_val s) (sect_length st e) False
     | ESD_ER \<Rightarrow> esd_ent c slot (sy_name s) (if sy_is_weak s then 0x0a else 0x02) 0 0 True
     | ESD_XD \<Rightarrow> write_at (esd_ent c slot (sy_name s) 0x06 0 (sy_xdlen s) False) (slot + 12) [of_nat (sy_xdalgn s)]
     | ESD_CM \<Rightarrow> esd_ent c slot (sy_name s) 0x05 0 (sect_length st e) False
     | ESD_LD \<Rightarrow> esd_ent c slot (sy_name s) 0x01 (sy_val s) (int (sect_esdid (sy_sect s) st)) False)"

text \<open>One card takes entries until it has three; a suppressed LD takes no slot.\<close>

fun esd_fill :: "asm \<Rightarrow> esdent list \<Rightarrow> bytes \<Rightarrow> nat \<Rightarrow> nat \<Rightarrow> bytes \<times> nat \<times> nat \<times> esdent list" where
  "esd_fill st [] c n cardfirst = (c, n, cardfirst, [])"
| "esd_fill st (e # es) c n cardfirst =
    (if n < 3 then
       if esd_skip st e then esd_fill st es c n cardfirst
       else esd_fill st es (esd_slot st c (16 + n * 16) e) (n + 1)
              (if ee_role e \<noteq> ESD_LD \<and> cardfirst = 0 then ee_esdid e else cardfirst)
     else (c, n, cardfirst, e # es))"

lemma esd_fill_rest: "length (snd (snd (snd (esd_fill st es c n cf)))) \<le> length es"
  by (induction st es c n cf rule: esd_fill.induct) auto

definition esd_card :: "string \<Rightarrow> bytes \<Rightarrow> nat \<Rightarrow> nat \<Rightarrow> nat \<Rightarrow> bytes" where
  "esd_card deck c n cardfirst seq =
    (let c = cbe c 10 (int (n * 16)) 2; c = (if cardfirst \<noteq> 0 then cbe c 14 (int cardfirst) 2 else c)
     in cseq deck c seq)"

function esd_cards :: "asm \<Rightarrow> esdent list \<Rightarrow> nat \<Rightarrow> bytes list" where
  "esd_cards st es seq =
    (if es = [] then []
     else let (c, n, cardfirst, rest) = esd_fill st es (cname cinit ''ESD'') 0 0
          in esd_card (deck_id st) c n cardfirst (seq + 1) # esd_cards st rest (seq + 1))"
  by pat_completeness auto
termination
proof (relation "measure (\<lambda>(st, es, q). length es)", goal_cases)
  case (2 st es q x c y n z cf rest)
  then obtain e es' where es: "es = e # es'" by (cases es) auto
  have "rest = snd (snd (snd (esd_fill st es (cname cinit ''ESD'') 0 0)))" using 2 by (simp add: prod_eq_iff)
  then show ?case
    using esd_fill_rest [of st es'] by (auto simp: es less_Suc_eq_le)
qed simp

declare esd_cards.simps [simp del]

subsection \<open>TXT cards\<close>

record txw =
  tw_open :: bool
  tw_esdid :: nat
  tw_start :: nat
  tw_running :: nat
  tw_buf :: bytes
  tw_done :: int
  tw_seq :: nat
  tw_out :: "bytes list"

definition txt_card :: "string \<Rightarrow> nat \<Rightarrow> nat \<Rightarrow> bytes \<Rightarrow> nat \<Rightarrow> bytes" where
  "txt_card deck start esdid buf seq =
    cseq deck (write_at (cbe (cbe (cbe (cname cinit ''TXT'') 5 (int start) 3) 10 (int (length buf)) 2) 14 (int esdid) 2) 16 buf) seq"

definition txt_flush :: "string \<Rightarrow> txw \<Rightarrow> txw" where
  "txt_flush deck w = w\<lparr>tw_out := tw_out w @ [txt_card deck (tw_start w) (tw_esdid w) (tw_buf w) (tw_seq w + 1)],
     tw_seq := tw_seq w + 1, tw_open := False\<rparr>"

text \<open>A REPRO that stands at the current byte of the log ends the open card and is punched.\<close>

fun txt_punch :: "string \<Rightarrow> bytes list \<Rightarrow> punchev list \<Rightarrow> txw \<Rightarrow> punchev list \<times> txw" where
  "txt_punch deck img [] w = ([], w)"
| "txt_punch deck img (p # ps) w =
    (if \<not> pe_before_esd p \<and> pe_at_bytes p = tw_done w then
       let w = (if tw_open w then txt_flush deck w else w);
           w = w\<lparr>tw_out := tw_out w @ [img ! pe_ridx p]\<rparr>;
           (ps', w) = txt_punch deck img ps w
       in (p\<lparr>pe_at_bytes := -1\<rparr> # ps', w)
     else let (ps', w) = txt_punch deck img ps w in (p # ps', w))"

definition txt_take :: "punchev list \<Rightarrow> txw \<Rightarrow> nat \<Rightarrow> nat" where
  "txt_take ps w left =
    fold (\<lambda>p t. if \<not> pe_before_esd p \<and> pe_at_bytes p > tw_done w \<and> pe_at_bytes p - tw_done w < int t
                then nat (pe_at_bytes p - tw_done w) else t)
      ps (let t = 56 - length (tw_buf w) in if t > left then left else t)"

text \<open>
  The do-while loop over one event; \<open>bs\<close> is what is left of it, at address \<open>a\<close>. The loop is
  bounded by fuel and runs out of it as \<open>None\<close>; the length of the event is enough.
\<close>

fun txt_event :: "nat \<Rightarrow> string \<Rightarrow> bytes list \<Rightarrow> nat \<Rightarrow> nat \<Rightarrow> bytes \<Rightarrow> punchev list \<times> txw \<Rightarrow> (punchev list \<times> txw) option" where
  "txt_event 0 deck img eid a bs s = None"
| "txt_event (Suc fuel) deck img eid a bs s =
    (let (ps, w) = txt_punch deck img (fst s) (snd s);
         w = (if tw_open w \<and> (a \<noteq> tw_running w \<or> length (tw_buf w) = 56 \<or> eid \<noteq> tw_esdid w) then txt_flush deck w else w);
         w = (if \<not> tw_open w then w\<lparr>tw_start := a, tw_running := a, tw_buf := [], tw_open := True, tw_esdid := eid\<rparr> else w);
         t = txt_take ps w (length bs);
         w = w\<lparr>tw_buf := tw_buf w @ take t bs, tw_running := tw_running w + t, tw_done := tw_done w + int t\<rparr>
     in if drop t bs \<noteq> [] then txt_event fuel deck img eid (a + t) (drop t bs) (ps, w) else Some (ps, w))"

fun txt_events :: "string \<Rightarrow> bytes list \<Rightarrow> txlev list \<Rightarrow> punchev list \<times> txw \<Rightarrow> (punchev list \<times> txw) option" where
  "txt_events deck img [] s =
    (let (ps, w) = txt_punch deck img (fst s) (snd s); w = (if tw_open w then txt_flush deck w else w) in Some (ps, w))"
| "txt_events deck img (e # es) s =
    (case txt_event (length (te_bytes e) + 1) deck img (te_esdid e) (te_addr e) (te_bytes e) s of
       None \<Rightarrow> None | Some s' \<Rightarrow> txt_events deck img es s')"

subsection \<open>The deck\<close>

definition AS370_IDR_PROD :: string where "AS370_IDR_PROD = ''ASM370''"
definition AS370_IDR_VER :: string where "AS370_IDR_VER = ''0100''"

text \<open>The date of the END card; the argument is what \<^verbatim>\<open>sscanf\<close> finds in \<^verbatim>\<open>&SYSDATE\<close>, if it finds three numbers.\<close>

definition julian5 :: "(nat \<times> nat \<times> nat) option \<Rightarrow> string" where
  "julian5 date =
    (case date of
       Some (mm, dd, yy) \<Rightarrow>
         if mm \<ge> 1 \<and> mm \<le> 12 then
           let doy = [0, 31, 59, 90, 120, 151, 181, 212, 243, 273, 304, 334] ! (mm - 1) + dd;
               doy = (if mm > 2 \<and> yy mod 4 = 0 then doy + 1 else doy)
           in take 7 (fmt_0d 2 (yy mod 100) @ fmt_0d 3 doy)
         else ''00000''
     | None \<Rightarrow> ''00000'')"

definition end_idr :: "(nat \<times> nat \<times> nat) option \<Rightarrow> string" where
  "end_idr date = fmt_s 10 AS370_IDR_PROD @ '' '' @ fmt_s 4 AS370_IDR_VER
     @ (let j = take 5 (julian5 date) in replicate (5 - length j) (CHR '' '') @ j)"

definition emit_obj :: "(nat \<times> nat \<times> nat) option \<Rightarrow> asm \<Rightarrow> bytes list option" where
  "emit_obj date st =
    (let before = map (\<lambda>p. repro_img st ! pe_ridx p) (filter pe_before_esd (punches st));
         esd = esd_cards st (esdord st) 0;
         w0 = \<lparr>tw_open = False, tw_esdid = 0, tw_start = 0, tw_running = 0, tw_buf = [], tw_done = 0,
               tw_seq = length esd, tw_out = []\<rparr>
     in case txt_events (deck_id st) (repro_img st) (txl st) (punches st, w0) of
          None \<Rightarrow> None
        | Some (ps, w) \<Rightarrow>
            let rld = rld_cards (deck_id st) (rel_sort (rels st)) (tw_seq w);
                e = end_card (deck_id st) (if end_has st then Some (end_addr st, int (end_esdid st)) else None)
                      (end_idr date) (tw_seq w + length rld + 1)
            in Some (before @ esd @ tw_out w @ rld @ [e]))"

subsection \<open>Reading a card under later writes\<close>

lemma cseq_write: "\<exists>t. length t = 8 \<and> cseq d c q = write_at c 72 t"
proof -
  let ?nl = "min 8 (length d)"
  let ?t = "if d \<noteq> [] then take ?nl d @ (if 8 - ?nl > 0 then take (8 - ?nl) (fmt_0d (8 - ?nl) (q mod 10 ^ (8 - ?nl))) else [])
    else take 8 (fmt_0d 8 q)"
  have "cseq d c q = write_at c 72 (map (\<lambda>ch. mvs_a2e (ascii ch)) ?t)"
    by (auto simp: cseq_def Let_def min_def)
  moreover have "length ?t = 8"
    using fmt_0d_length [of 8 q] fmt_0d_length [of "8 - ?nl" "q mod 10 ^ (8 - ?nl)"] by auto
  ultimately show ?thesis by (metis length_map)
qed

lemma cseq_take: "length c = 80 \<Longrightarrow> take 72 (cseq d c q) = take 72 c"
  using cseq_write [of d c q] by (auto simp: write_at_def)

lemma cseq_byte: "length c = 80 \<Longrightarrow> i < 72 \<Longrightarrow> byte_at (cseq d c q) i = byte_at c i"
  by (metis byte_at_take cseq_take)

lemma cseq_part:
  assumes "length c = 80" "p + n \<le> 72" shows "take n (drop p (cseq d c q)) = take n (drop p c)"
proof -
  have *: "take n (drop p b) = drop p (take (p + n) (take 72 b))" for b :: bytes
    using assms(2) by (simp add: take_drop add.commute min_def)
  show ?thesis unfolding * cseq_take [OF assms(1)] by (rule refl)
qed

lemma be_cong:
  "(\<And>i. i < 2 \<Longrightarrow> byte_at b (p + i) = byte_at b' (q + i)) \<Longrightarrow> mvs_be16 b p = mvs_be16 b' q"
  "(\<And>i. i < 3 \<Longrightarrow> byte_at b (p + i) = byte_at b' (q + i)) \<Longrightarrow> mvs_be24 b p = mvs_be24 b' q"
proof -
  assume 2: "\<And>i. i < 2 \<Longrightarrow> byte_at b (p + i) = byte_at b' (q + i)"
  show "mvs_be16 b p = mvs_be16 b' q" using 2 [of 0] 2 [of 1] by (simp add: mvs_be16_def)
next
  assume 3: "\<And>i. i < 3 \<Longrightarrow> byte_at b (p + i) = byte_at b' (q + i)"
  show "mvs_be24 b p = mvs_be24 b' q" using 3 [of 0] 3 [of 1] 3 [of 2] by (simp add: mvs_be24_def)
qed

lemma be_wrval:
  "mvs_be16 (mvs_wrval v 2) 0 = nat (v mod 65536)" "mvs_be24 (mvs_wrval v 3) 0 = nat (v mod 16777216)"
  using f16.get_put [of "[]" v "[]"] f24.get_put [of "[]" v "[]"] by (simp_all add: wrval_put)

text \<open>A field of a card: written once, and no later write touches it.\<close>

lemma field16: "(\<And>i. i < 2 \<Longrightarrow> byte_at c (p + i) = mvs_wrval v 2 ! i) \<Longrightarrow> mvs_be16 c p = nat (v mod 65536)"
  using be_cong(1) [of c p "mvs_wrval v 2" 0] be_wrval(1) [of v] by (simp add: byte_at_nth)

lemma field24: "(\<And>i. i < 3 \<Longrightarrow> byte_at c (p + i) = mvs_wrval v 3 ! i) \<Longrightarrow> mvs_be24 c p = nat (v mod 16777216)"
  using be_cong(2) [of c p "mvs_wrval v 3" 0] be_wrval(2) [of v] by (simp add: byte_at_nth)

lemma cname_bytes:
  "cname cinit ''ESD'' = [0x02, 0xC5, 0xE2, 0xC4] @ replicate 76 0x40"
  "cname cinit ''TXT'' = [0x02, 0xE3, 0xE7, 0xE3] @ replicate 76 0x40"
  "cname cinit ''RLD'' = [0x02, 0xD9, 0xD3, 0xC4] @ replicate 76 0x40"
  "cname cinit ''END'' = [0x02, 0xC5, 0xD5, 0xC4] @ replicate 76 0x40"
  by (simp_all add: cname_def cinit_def write_at_def ascii_def mvs_a2e_def mvs_a2e_tab_def)

subsection \<open>TXT cards read back\<close>

lemma txt_card_bytes:
  assumes "length buf \<le> 56" "i < 72"
  shows "byte_at (txt_card d a eid buf q) i =
    (if 16 \<le> i \<and> i < 16 + length buf then buf ! (i - 16)
     else if 14 \<le> i \<and> i < 16 then mvs_wrval (int eid) 2 ! (i - 14)
     else if 10 \<le> i \<and> i < 12 then mvs_wrval (int (length buf)) 2 ! (i - 10)
     else if 5 \<le> i \<and> i < 8 then mvs_wrval (int a) 3 ! (i - 5)
     else byte_at (cname cinit ''TXT'') i)"
  unfolding txt_card_def cbe_def using assms by (simp add: cseq_byte byte_at_write write_at_length)

lemma txt_card_read:
  assumes "length buf \<le> 56" "a < 2 ^ 24" "eid < 2 ^ 16"
  shows "obj_txt_get (txt_card d a eid buf q) = Some \<lparr>ot_addr = a, ot_esdid = eid, ot_len = length buf, ot_data = buf\<rparr>"
proof -
  let ?c = "txt_card d a eid buf q"
  note b = txt_card_bytes [OF assms(1), of _ d a eid q]
  have ty: "obj_card_type ?c = OBJ_TXT"
    using b [of 0] b [of 1] b [of 2] b [of 3] by (simp add: obj_card_type_def cname_bytes)
  have "mvs_be16 ?c 10 = nat (int (length buf) mod 65536)"
    by (rule field16) (use assms(1) in \<open>simp add: b\<close>)
  then have cnt: "mvs_be16 ?c 10 = length buf" using assms(1) by simp
  have "mvs_be16 ?c 14 = nat (int eid mod 65536)" by (rule field16) (simp add: b)
  then have eid: "mvs_be16 ?c 14 = eid" using assms(3) by simp
  have "mvs_be24 ?c 5 = nat (int a mod 16777216)" by (rule field24) (simp add: b)
  then have addr: "mvs_be24 ?c 5 = a" using assms(2) by simp
  have "take (length buf) (drop 16 ?c) = buf"
    unfolding txt_card_def using assms(1) by (subst cseq_part) (simp_all add: write_at_length write_at_get)
  then show ?thesis using assms(1) by (simp add: obj_txt_get_def ty cnt eid addr OBJ_CARD_LEN_def)
qed

subsection \<open>The TXT writer replays the log\<close>

text \<open>Bytes with the section and the address they go to.\<close>

fun lab :: "nat \<Rightarrow> nat \<Rightarrow> bytes \<Rightarrow> (nat \<times> nat \<times> byte) list" where
  "lab eid a [] = []"
| "lab eid a (b # bs) = (eid, a, b) # lab eid (a + 1) bs"

definition txt_bytes :: "bytes \<Rightarrow> (nat \<times> nat \<times> byte) list" where
  "txt_bytes c = (case obj_txt_get c of None \<Rightarrow> [] | Some t \<Rightarrow> lab (ot_esdid t) (ot_addr t) (ot_data t))"

definition log_bytes :: "txlev list \<Rightarrow> (nat \<times> nat \<times> byte) list" where
  "log_bytes es = concat (map (\<lambda>e. lab (te_esdid e) (te_addr e) (te_bytes e)) es)"

lemma lab_append: "lab eid a (xs @ ys) = lab eid a xs @ lab eid (a + length xs) ys"
  by (induction xs arbitrary: a) auto

definition tw_sofar :: "txw \<Rightarrow> (nat \<times> nat \<times> byte) list" where
  "tw_sofar w = concat (map txt_bytes (tw_out w)) @ (if tw_open w then lab (tw_esdid w) (tw_start w) (tw_buf w) else [])"

definition tw_ok :: "txw \<Rightarrow> bool" where
  "tw_ok w \<longleftrightarrow> (tw_open w \<longrightarrow> length (tw_buf w) \<le> 56 \<and> tw_running w = tw_start w + length (tw_buf w)
       \<and> tw_start w < 2 ^ 24 \<and> tw_esdid w < 2 ^ 16)
     \<and> (\<forall>c\<in>set (tw_out w). obj_card_type c = OBJ_TXT \<or> obj_card_type c = OBJ_OTHER)"

definition clear_punches :: "bytes list \<Rightarrow> punchev list \<Rightarrow> bool" where
  "clear_punches img ps \<longleftrightarrow> (\<forall>r\<in>set (map pe_ridx ps). obj_card_type (img ! r) = OBJ_OTHER)"

lemma clear_punches_Cons [simp]:
  "clear_punches img (p # ps) \<longleftrightarrow> obj_card_type (img ! pe_ridx p) = OBJ_OTHER \<and> clear_punches img ps"
  by (simp add: clear_punches_def)

lemma txt_bytes_other: "obj_card_type c \<noteq> OBJ_TXT \<Longrightarrow> txt_bytes c = []"
  by (simp add: txt_bytes_def obj_txt_get_def)

lemma flush_keeps:
  assumes "tw_ok w" "tw_open w"
  shows "tw_sofar (txt_flush d w) = tw_sofar w" "tw_ok (txt_flush d w)" "\<not> tw_open (txt_flush d w)"
    "tw_done (txt_flush d w) = tw_done w"
proof -
  have r: "obj_txt_get (txt_card d (tw_start w) (tw_esdid w) (tw_buf w) (tw_seq w + 1))
      = Some \<lparr>ot_addr = tw_start w, ot_esdid = tw_esdid w, ot_len = length (tw_buf w), ot_data = tw_buf w\<rparr>"
    using assms by (intro txt_card_read) (simp_all add: tw_ok_def)
  then have "obj_card_type (txt_card d (tw_start w) (tw_esdid w) (tw_buf w) (tw_seq w + 1)) = OBJ_TXT"
    by (metis obj_txt_get_def option.distinct(1))
  with r show "tw_sofar (txt_flush d w) = tw_sofar w" "tw_ok (txt_flush d w)" "\<not> tw_open (txt_flush d w)"
    "tw_done (txt_flush d w) = tw_done w"
    using assms by (auto simp: tw_sofar_def tw_ok_def txt_flush_def txt_bytes_def)
qed

lemma punch_keeps:
  assumes "clear_punches img ps" "tw_ok w" "txt_punch d img ps w = (ps', w')"
  shows "clear_punches img ps' \<and> tw_sofar w' = tw_sofar w \<and> tw_ok w' \<and> tw_done w' = tw_done w"
  using assms
proof (induction ps arbitrary: w ps' w')
  case (Cons p ps)
  let ?hit = "\<not> pe_before_esd p \<and> pe_at_bytes p = tw_done w"
  define w1 where "w1 = (if tw_open w then txt_flush d w else w)"
  define w2 where "w2 = (if ?hit then w1\<lparr>tw_out := tw_out w1 @ [img ! pe_ridx p]\<rparr> else w)"
  have w1: "tw_sofar w1 = tw_sofar w" "tw_ok w1" "\<not> tw_open w1" "tw_done w1 = tw_done w"
    using flush_keeps [OF Cons.prems(2), of d] Cons.prems(2) by (auto simp: w1_def)
  have w2: "tw_sofar w2 = tw_sofar w" "tw_ok w2" "tw_done w2 = tw_done w"
    using w1 Cons.prems(1,2) by (auto simp: w2_def tw_sofar_def tw_ok_def txt_bytes_other)
  obtain ps2 where "txt_punch d img ps w2 = (ps2, w')" "ps' = (if ?hit then p\<lparr>pe_at_bytes := -1\<rparr> else p) # ps2"
    using Cons.prems(3) by (auto simp: w2_def w1_def Let_def split: if_splits prod.splits)
  then show ?case using Cons.IH [of w2 ps2 w'] Cons.prems(1) w2 by auto
qed simp

lemma txt_take_bounds:
  assumes "length (tw_buf w) < 56"
  shows "txt_take ps w n \<le> n" "txt_take ps w n \<le> 56 - length (tw_buf w)" "0 < n \<Longrightarrow> 0 < txt_take ps w n"
proof -
  have *: "fold (\<lambda>p t. if \<not> pe_before_esd p \<and> pe_at_bytes p > k \<and> pe_at_bytes p - k < int t
                then nat (pe_at_bytes p - k) else t) ps t0 \<le> t0 \<and> (0 < t0 \<longrightarrow> 0 < fold (\<lambda>p t. if \<not> pe_before_esd p \<and> pe_at_bytes p > k \<and> pe_at_bytes p - k < int t
                then nat (pe_at_bytes p - k) else t) ps t0)" for k t0
  proof (induction ps arbitrary: t0)
    case (Cons p ps)
    let ?t = "if \<not> pe_before_esd p \<and> pe_at_bytes p > k \<and> pe_at_bytes p - k < int t0 then nat (pe_at_bytes p - k) else t0"
    have "?t \<le> t0 \<and> (0 < t0 \<longrightarrow> 0 < ?t)" by auto
    then show ?case using Cons [of ?t] by (auto intro: order_trans)
  qed simp
  show "txt_take ps w n \<le> n" "txt_take ps w n \<le> 56 - length (tw_buf w)" "0 < n \<Longrightarrow> 0 < txt_take ps w n"
    unfolding txt_take_def Let_def
    using * [of "tw_done w" "if 56 - length (tw_buf w) > n then n else 56 - length (tw_buf w)"] assms
    by (auto split: if_splits)
qed

lemma txt_event_spec:
  assumes "length bs < fuel" "clear_punches img ps" "tw_ok w" "a + length bs < 2 ^ 24" "eid < 2 ^ 16"
  shows "\<exists>ps' w'. txt_event fuel d img eid a bs (ps, w) = Some (ps', w') \<and> clear_punches img ps' \<and> tw_ok w'
    \<and> tw_sofar w' = tw_sofar w @ lab eid a bs"
  using assms
proof (induction fuel arbitrary: a bs ps w)
  case (Suc fuel)
  obtain ps1 w1 where p1: "txt_punch d img ps w = (ps1, w1)" by fastforce
  note k1 = punch_keeps [OF Suc.prems(2,3) p1]
  define w2 where "w2 = (if tw_open w1 \<and> (a \<noteq> tw_running w1 \<or> length (tw_buf w1) = 56 \<or> eid \<noteq> tw_esdid w1)
    then txt_flush d w1 else w1)"
  have k2: "tw_sofar w2 = tw_sofar w" "tw_ok w2"
    "tw_open w2 \<Longrightarrow> a = tw_running w2 \<and> length (tw_buf w2) < 56 \<and> eid = tw_esdid w2"
    using k1 flush_keeps [of w1 d] by (auto simp: w2_def tw_ok_def)
  define w3 where "w3 = (if \<not> tw_open w2 then w2\<lparr>tw_start := a, tw_running := a, tw_buf := [], tw_open := True, tw_esdid := eid\<rparr> else w2)"
  have k3: "tw_sofar w3 = tw_sofar w" "tw_ok w3" "tw_open w3" "tw_running w3 = a" "length (tw_buf w3) < 56" "tw_esdid w3 = eid"
    using k2 Suc.prems(4,5) by (auto simp: w3_def tw_ok_def tw_sofar_def)
  define t where "t = txt_take ps1 w3 (length bs)"
  have t: "t \<le> length bs" "t \<le> 56 - length (tw_buf w3)" "0 < length bs \<Longrightarrow> 0 < t"
    using txt_take_bounds [OF k3(5)] by (simp_all add: t_def)
  define w4 where "w4 = w3\<lparr>tw_buf := tw_buf w3 @ take t bs, tw_running := tw_running w3 + t, tw_done := tw_done w3 + int t\<rparr>"
  have k4: "tw_ok w4" using k3 t by (auto simp: w4_def tw_ok_def)
  have a3: "a = tw_start w3 + length (tw_buf w3)" using k3 by (simp add: tw_ok_def)
  have s4: "tw_sofar w4 = tw_sofar w @ lab eid a (take t bs)"
    using k3(1,3,6) by (simp add: w4_def tw_sofar_def lab_append a3)
  have run: "txt_event (Suc fuel) d img eid a bs (ps, w)
      = (if drop t bs \<noteq> [] then txt_event fuel d img eid (a + t) (drop t bs) (ps1, w4) else Some (ps1, w4))"
    by (simp add: p1 Let_def w2_def w3_def w4_def t_def)
  show ?case
  proof (cases "drop t bs = []")
    case True
    then have "take t bs = bs" by simp
    then show ?thesis unfolding run using True k1 k4 s4 by simp
  next
    case False
    have "0 < t" using False t(3) by (cases bs) auto
    then have "\<exists>ps' w'. txt_event fuel d img eid (a + t) (drop t bs) (ps1, w4) = Some (ps', w') \<and> clear_punches img ps' \<and> tw_ok w'
        \<and> tw_sofar w' = tw_sofar w4 @ lab eid (a + t) (drop t bs)"
      using k1 k4 t Suc.prems False by (intro Suc.IH) auto
    moreover have "lab eid a bs = lab eid a (take t bs) @ lab eid (a + t) (drop t bs)"
      using lab_append [of eid a "take t bs" "drop t bs"] t(1) by simp
    ultimately show ?thesis unfolding run using False s4 by auto
  qed
qed simp

definition ev_ok :: "txlev \<Rightarrow> bool" where
  "ev_ok e \<longleftrightarrow> te_addr e + length (te_bytes e) < 2 ^ 24 \<and> te_esdid e < 2 ^ 16"

lemma txt_events_spec:
  assumes "list_all ev_ok es" "clear_punches img ps" "tw_ok w"
  shows "\<exists>ps' w'. txt_events d img es (ps, w) = Some (ps', w') \<and> tw_ok w' \<and> \<not> tw_open w'
    \<and> tw_sofar w' = tw_sofar w @ log_bytes es"
  using assms
proof (induction es arbitrary: ps w)
  case Nil
  obtain ps1 w1 where p1: "txt_punch d img ps w = (ps1, w1)" by fastforce
  note k1 = punch_keeps [OF Nil.prems(2,3) p1]
  then show ?case using flush_keeps [of w1 d] by (auto simp: p1 log_bytes_def)
next
  case (Cons e es)
  obtain ps1 w1 where e: "txt_event (length (te_bytes e) + 1) d img (te_esdid e) (te_addr e) (te_bytes e) (ps, w) = Some (ps1, w1)"
    "clear_punches img ps1" "tw_ok w1" "tw_sofar w1 = tw_sofar w @ lab (te_esdid e) (te_addr e) (te_bytes e)"
    using txt_event_spec [of "te_bytes e" "length (te_bytes e) + 1" img ps w "te_addr e" "te_esdid e" d] Cons.prems
    by (auto simp: ev_ok_def)
  then show ?case using Cons.IH [of ps1 w1] Cons.prems by (auto simp: log_bytes_def)
qed

subsection \<open>ESD cards read back\<close>

definition ebc8 :: "string \<Rightarrow> bytes" where
  "ebc8 s = map (\<lambda>i. if i < length s then mvs_a2e (ascii (s ! i)) else 0x40) [0..<8]"

definition esd_type :: "asm \<Rightarrow> esdent \<Rightarrow> nat" where
  "esd_type st e = (case ee_role e of ESD_SECT \<Rightarrow> if sy_type (syms st ! ee_s e) = S_PC then 4 else 0
     | ESD_ER \<Rightarrow> if sy_is_weak (syms st ! ee_s e) then 10 else 2 | ESD_XD \<Rightarrow> 6 | ESD_CM \<Rightarrow> 5 | ESD_LD \<Rightarrow> 1)"

definition esd_addr :: "asm \<Rightarrow> esdent \<Rightarrow> int" where
  "esd_addr st e = (case ee_role e of ESD_SECT \<Rightarrow> sy_val (syms st ! ee_s e) | ESD_LD \<Rightarrow> sy_val (syms st ! ee_s e) | _ \<Rightarrow> 0)"

text \<open>The last field: a length, the owning section of an LD, or blanks for an external reference.\<close>

definition esd_last :: "asm \<Rightarrow> esdent \<Rightarrow> int" where
  "esd_last st e = (case ee_role e of ESD_SECT \<Rightarrow> sect_length st e | ESD_CM \<Rightarrow> sect_length st e
     | ESD_XD \<Rightarrow> sy_xdlen (syms st ! ee_s e) | ESD_ER \<Rightarrow> 0x404040
     | ESD_LD \<Rightarrow> int (sect_esdid (sy_sect (syms st ! ee_s e)) st))"

definition esd_read :: "asm \<Rightarrow> esdent \<Rightarrow> obj_esd" where
  "esd_read st e = \<lparr>oe_name = ebc8 (sy_name (syms st ! ee_s e)), oe_type = esd_type st e,
     oe_esdid = (if ee_role e = ESD_LD then 0 else ee_esdid e),
     oe_addr = nat (esd_addr st e mod 2 ^ 24), oe_len = nat (esd_last st e mod 2 ^ 24)\<rparr>"

definition esd_item :: "asm \<Rightarrow> esdent \<Rightarrow> bytes" where
  "esd_item st e = ebc8 (sy_name (syms st ! ee_s e)) @ [of_nat (esd_type st e)] @ mvs_wrval (esd_addr st e) 3
     @ [if ee_role e = ESD_XD then of_nat (sy_xdalgn (syms st ! ee_s e)) else 0x40] @ mvs_wrval (esd_last st e) 3"

lemma ebc8_length [simp]: "length (ebc8 s) = 8"
  by (simp add: ebc8_def)

lemma esd_item_length [simp]: "length (esd_item st e) = 16"
  by (simp add: esd_item_def)

lemma esd_ent_item:
  assumes "slot + 16 \<le> length c"
  shows "esd_ent c slot nm ty a v False = write_at c slot (ebc8 nm @ [of_nat ty] @ mvs_wrval a 3 @ [0x40] @ mvs_wrval v 3)"
    "esd_ent c slot nm ty a v True = write_at c slot (ebc8 nm @ [of_nat ty] @ mvs_wrval a 3 @ [0x40] @ [0x40, 0x40, 0x40])"
proof -
  have e8: "cebc c slot nm 8 = write_at c slot (ebc8 nm)" by (simp add: cebc_def ebc8_def)
  have n1: "write_at (write_at c slot (ebc8 nm)) (slot + 8) [of_nat ty] = write_at c slot (ebc8 nm @ [of_nat ty])"
    using write_at_next [of slot "ebc8 nm" "[of_nat ty]" c] assms by simp
  have n2: "write_at (write_at c slot (ebc8 nm @ [of_nat ty])) (slot + 9) (mvs_wrval a 3)
      = write_at c slot (ebc8 nm @ [of_nat ty] @ mvs_wrval a 3)"
    using write_at_next [of slot "ebc8 nm @ [of_nat ty]" "mvs_wrval a 3" c] assms by simp
  have n3: "write_at (write_at c slot (ebc8 nm @ [of_nat ty] @ mvs_wrval a 3)) (slot + 12) [0x40]
      = write_at c slot (ebc8 nm @ [of_nat ty] @ mvs_wrval a 3 @ [0x40])"
    using write_at_next [of slot "ebc8 nm @ [of_nat ty] @ mvs_wrval a 3" "[0x40]" c] assms by simp
  have n4: "write_at (write_at c slot (ebc8 nm @ [of_nat ty] @ mvs_wrval a 3 @ [0x40])) (slot + 13) w
      = write_at c slot (ebc8 nm @ [of_nat ty] @ mvs_wrval a 3 @ [0x40] @ w)" if "length w = 3" for w
    using write_at_next [of slot "ebc8 nm @ [of_nat ty] @ mvs_wrval a 3 @ [0x40]" w c] assms that by simp
  show "esd_ent c slot nm ty a v False = write_at c slot (ebc8 nm @ [of_nat ty] @ mvs_wrval a 3 @ [0x40] @ mvs_wrval v 3)"
    unfolding esd_ent_def Let_def cbe_def e8 n1 n2 n3 if_False by (rule n4) simp
  show "esd_ent c slot nm ty a v True = write_at c slot (ebc8 nm @ [of_nat ty] @ mvs_wrval a 3 @ [0x40] @ [0x40, 0x40, 0x40])"
    unfolding esd_ent_def Let_def cbe_def e8 n1 n2 n3 if_True by (rule n4) simp
qed

lemma wrval_blank: "mvs_wrval 0x404040 3 = [0x40, 0x40, 0x40]"
  by code_simp

lemma esd_slot_item:
  assumes "slot + 16 \<le> length c" shows "esd_slot st c slot e = write_at c slot (esd_item st e)"
proof (cases "ee_role e")
  case ESD_XD
  let ?s = "syms st ! ee_s e"
  have "write_at (write_at c slot ((ebc8 (sy_name ?s) @ [6] @ mvs_wrval 0 3) @ [0x40] @ mvs_wrval (sy_xdlen ?s) 3))
      (slot + length (ebc8 (sy_name ?s) @ [6] @ mvs_wrval 0 3)) [of_nat (sy_xdalgn ?s)]
      = write_at c slot ((ebc8 (sy_name ?s) @ [6] @ mvs_wrval 0 3) @ [of_nat (sy_xdalgn ?s)] @ mvs_wrval (sy_xdlen ?s) 3)"
    by (rule write_at_inside) (use assms in simp_all)
  then show ?thesis
    using esd_ent_item(1) [OF assms] by (simp add: ESD_XD esd_slot_def esd_item_def esd_type_def esd_addr_def esd_last_def Let_def)
qed (use esd_ent_item [OF assms] in \<open>simp_all add: esd_slot_def esd_item_def esd_type_def esd_addr_def esd_last_def wrval_blank Let_def\<close>)

definition esd_vis :: "asm \<Rightarrow> esdent list \<Rightarrow> esdent list" where
  "esd_vis st = filter (\<lambda>e. \<not> esd_skip st e)"

fun ids_from :: "nat \<Rightarrow> esdent list \<Rightarrow> bool" where
  "ids_from m [] \<longleftrightarrow> True"
| "ids_from m (e # es) \<longleftrightarrow> (if ee_role e = ESD_LD then ids_from m es else ee_esdid e = m \<and> ids_from (m + 1) es)"

definition not_ld :: "esdent \<Rightarrow> bool" where
  "not_ld e \<longleftrightarrow> ee_role e \<noteq> ESD_LD"

lemma ids_from_number: "ids_from (n + 1) (number n es)"
  by (induction n es rule: number.induct) auto

lemma ids_from_append: "ids_from m (xs @ ys) \<longleftrightarrow> ids_from m xs \<and> ids_from (m + length (filter not_ld xs)) ys"
  by (induction xs arbitrary: m) (auto simp: not_ld_def)

lemma ids_from_vis: "ids_from m es \<Longrightarrow> ids_from m (esd_vis st es)"
  by (induction es arbitrary: m) (auto simp: esd_vis_def esd_skip_def)

lemma vis_not_ld: "filter not_ld (esd_vis st es) = filter not_ld es"
  by (auto simp: esd_vis_def esd_skip_def not_ld_def intro!: filter_cong)

lemma esd_fill_spec:
  assumes "n \<le> 3" "length c = 80" "1 \<le> m" "ids_from m es"
  shows "\<exists>pre rest. es = pre @ rest \<and> n + length (esd_vis st pre) \<le> 3 \<and> (rest = [] \<or> n + length (esd_vis st pre) = 3)
    \<and> esd_fill st es c n cf = (write_at c (16 + 16 * n) (concat (map (esd_item st) (esd_vis st pre))),
         n + length (esd_vis st pre), if cf = 0 \<and> filter not_ld pre \<noteq> [] then m else cf, rest)"
  using assms
proof (induction es arbitrary: c n cf m)
  case Nil
  then show ?case by (intro exI [of _ "[]"]) (simp add: esd_vis_def write_at_def)
next
  case (Cons e es)
  show ?case
  proof (cases "n < 3")
    case False
    then show ?thesis using Cons.prems by (intro exI [of _ "[]"] exI [of _ "e # es"]) (simp add: esd_vis_def write_at_def)
  next
    case n3: True
    show ?thesis
    proof (cases "esd_skip st e")
      case True
      then have ld: "ee_role e = ESD_LD" by (simp add: esd_skip_def)
      obtain pre rest where "es = pre @ rest" "n + length (esd_vis st pre) \<le> 3" "rest = [] \<or> n + length (esd_vis st pre) = 3"
        "esd_fill st es c n cf = (write_at c (16 + 16 * n) (concat (map (esd_item st) (esd_vis st pre))),
          n + length (esd_vis st pre), if cf = 0 \<and> filter not_ld pre \<noteq> [] then m else cf, rest)"
      proof -
        have "ids_from m es" using ld Cons.prems(4) by simp
        from Cons.IH [OF Cons.prems(1-3) this, of cf] that show ?thesis by (elim exE conjE)
      qed
      moreover have "esd_fill st (e # es) c n cf = esd_fill st es c n cf" using n3 True by simp
      moreover have "esd_vis st (e # pre) = esd_vis st pre" "filter not_ld (e # pre) = filter not_ld pre"
        using True ld by (simp_all add: esd_vis_def not_ld_def)
      ultimately show ?thesis by (intro exI [of _ "e # pre"] exI [of _ rest]) simp
    next
      case False
      let ?c = "esd_slot st c (16 + n * 16) e"
      let ?m = "if ee_role e = ESD_LD then m else m + 1"
      let ?cf = "if ee_role e \<noteq> ESD_LD \<and> cf = 0 then ee_esdid e else cf"
      have c: "?c = write_at c (16 + n * 16) (esd_item st e)" "length ?c = 80"
        using Cons.prems(2) n3 by (simp_all add: esd_slot_item write_at_length)
      obtain pre rest where IH: "es = pre @ rest" "n + 1 + length (esd_vis st pre) \<le> 3" "rest = [] \<or> n + 1 + length (esd_vis st pre) = 3"
        "esd_fill st es ?c (n + 1) ?cf = (write_at ?c (16 + 16 * (n + 1)) (concat (map (esd_item st) (esd_vis st pre))),
          n + 1 + length (esd_vis st pre), if ?cf = 0 \<and> filter not_ld pre \<noteq> [] then ?m else ?cf, rest)"
      proof -
        have "n + 1 \<le> 3" "1 \<le> ?m" "ids_from ?m es" using n3 Cons.prems(3,4) by (simp_all split: if_splits)
        from Cons.IH [OF this(1) c(2) this(2,3), of ?cf] that show ?thesis by (elim exE conjE)
      qed
      have len: "length (concat (map (esd_item st) xs)) = 16 * length xs" for xs
        by (induction xs) auto
      have "write_at ?c (16 + 16 * (n + 1)) (concat (map (esd_item st) (esd_vis st pre)))
          = write_at c (16 + 16 * n) (concat (map (esd_item st) (esd_vis st (e # pre))))"
        using write_at_next [of "16 + 16 * n" "esd_item st e" "concat (map (esd_item st) (esd_vis st pre))" c] IH(2) Cons.prems(2)
          False by (simp add: c esd_vis_def len ac_simps)
      moreover have "(if ?cf = 0 \<and> filter not_ld pre \<noteq> [] then ?m else ?cf) = (if cf = 0 \<and> filter not_ld (e # pre) \<noteq> [] then m else cf)"
        using Cons.prems(3,4) by (auto simp: not_ld_def)
      ultimately have "esd_fill st (e # es) c n cf
          = (write_at c (16 + 16 * n) (concat (map (esd_item st) (esd_vis st (e # pre)))),
             n + 1 + length (esd_vis st pre), if cf = 0 \<and> filter not_ld (e # pre) \<noteq> [] then m else cf, rest)"
        using n3 False IH(4) by (simp only: esd_fill.simps if_True if_False)
      then show ?thesis using False IH(1-3)
        by (intro exI [of _ "e # pre"] exI [of _ rest]) (simp add: esd_vis_def)
    qed
  qed
qed

lemma esd_type_code:
  "unat (of_nat (esd_type st e) :: byte) AND 15 = esd_type st e" "esd_type st e = OBJ_LD \<longleftrightarrow> ee_role e = ESD_LD"
  by (cases "ee_role e"; simp add: esd_type_def OBJ_LD_def)+

lemma item_read:
  assumes "take 16 (drop p c) = esd_item st e"
  shows "take 8 (drop p c) = ebc8 (sy_name (syms st ! ee_s e))" "unat (byte_at c (p + 8)) AND 15 = esd_type st e"
    "mvs_be24 c (p + 9) = nat (esd_addr st e mod 2 ^ 24)" "mvs_be24 c (p + 13) = nat (esd_last st e mod 2 ^ 24)"
proof -
  define pre suf nm fl where "pre = take p c" and "suf = drop (p + 16) c" and "nm = ebc8 (sy_name (syms st ! ee_s e))"
    and "fl = (if ee_role e = ESD_XD then of_nat (sy_xdalgn (syms st ! ee_s e)) else 0x40 :: byte)"
  have "length (take 16 (drop p c)) = 16" using assms by simp
  then have lp: "length pre = p" by (simp add: pre_def)
  have "c = pre @ take 16 (drop p c) @ suf" unfolding pre_def suf_def
    by (metis add.commute append_take_drop_id drop_drop)
  then have c: "c = pre @ nm @ [of_nat (esd_type st e)] @ mvs_put24 (esd_addr st e) @ [fl] @ mvs_put24 (esd_last st e) @ suf"
    by (simp add: assms esd_item_def nm_def fl_def wrval_put)
  have ln: "length nm = 8" by (simp add: nm_def)
  show "take 8 (drop p c) = ebc8 (sy_name (syms st ! ee_s e))" by (simp add: c lp [symmetric] ln flip: nm_def)
  have "byte_at c (length pre + 8) = of_nat (esd_type st e)" unfolding c using ln by (simp add: byte_at_append)
  then show "unat (byte_at c (p + 8)) AND 15 = esd_type st e" by (simp add: lp esd_type_code)
  show "mvs_be24 c (p + 9) = nat (esd_addr st e mod 2 ^ 24)"
    using f24.get_put [of "pre @ nm @ [of_nat (esd_type st e)]" "esd_addr st e" "[fl] @ mvs_put24 (esd_last st e) @ suf"]
    unfolding c by (simp add: lp ln)
  show "mvs_be24 c (p + 13) = nat (esd_last st e mod 2 ^ 24)"
    using f24.get_put [of "pre @ nm @ [of_nat (esd_type st e)] @ mvs_put24 (esd_addr st e) @ [fl]" "esd_last st e" suf]
    unfolding c by (simp add: lp ln)
qed

lemma esd_loop_items:
  assumes "k + length vs \<le> 3" "\<And>j. j < length vs \<Longrightarrow> take 16 (drop (16 + (k + j) * 16) c) = esd_item st (vs ! j)"
    "ids_from (first + nid) vs"
  shows "esd_loop c ((k + length vs) * 16) first k nid = map (esd_read st) vs"
  using assms
proof (induction vs arbitrary: k nid)
  case Nil
  then show ?case by (subst esd_loop.simps) simp
next
  case (Cons e vs)
  have "take 16 (drop (16 + k * 16) c) = esd_item st e" using Cons.prems(2) [of 0] by simp
  moreover have "16 + k * 16 + 8 = 24 + k * 16" "16 + k * 16 + 9 = 25 + k * 16" "16 + k * 16 + 13 = 29 + k * 16" by simp_all
  ultimately have r: "take 8 (drop (16 + k * 16) c) = ebc8 (sy_name (syms st ! ee_s e))"
    "unat (byte_at c (24 + k * 16)) AND 15 = esd_type st e" "mvs_be24 c (25 + k * 16) = nat (esd_addr st e mod 16777216)"
    "mvs_be24 c (29 + k * 16) = nat (esd_last st e mod 16777216)"
    using item_read [of "16 + k * 16" c st e] by simp_all
  let ?nid = "if ee_role e = ESD_LD then nid else nid + 1"
  have "esd_loop c ((k + 1 + length vs) * 16) first (k + 1) ?nid = map (esd_read st) vs"
  proof (rule Cons.IH)
    show "k + 1 + length vs \<le> 3" using Cons.prems(1) by simp
    show "take 16 (drop (16 + (k + 1 + j) * 16) c) = esd_item st (vs ! j)" if "j < length vs" for j
      using Cons.prems(2) [of "j + 1"] that by (simp add: add.commute add.left_commute)
    show "ids_from (first + ?nid) vs" using Cons.prems(3) by (auto split: if_splits)
  qed
  moreover have "ee_role e \<noteq> ESD_LD \<Longrightarrow> ee_esdid e = first + nid" using Cons.prems(3) by simp
  ultimately show ?case
    using Cons.prems(1) by (subst esd_loop.simps) (auto simp: r esd_type_code esd_read_def OBJ_CARD_LEN_def Let_def)
qed

lemma esd_card_bytes:
  assumes "length c = 80" "i < 72"
  shows "byte_at (esd_card d c n cf q) i = (if cf \<noteq> 0 \<and> 14 \<le> i \<and> i < 16 then mvs_wrval (int cf) 2 ! (i - 14)
     else if 10 \<le> i \<and> i < 12 then mvs_wrval (int (n * 16)) 2 ! (i - 10) else byte_at c i)"
  unfolding esd_card_def Let_def cbe_def using assms by (simp add: cseq_byte byte_at_write write_at_length)

lemma esd_card_part:
  assumes "length c = 80" "16 \<le> p" "p + 16 \<le> 72" shows "take 16 (drop p (esd_card d c n cf q)) = take 16 (drop p c)"
proof -
  have *: "drop p (write_at b x v) = drop p b" if "x + length v \<le> p" "x + length v \<le> length b" for b v :: bytes and x
    using that by (simp add: write_at_def)
  show ?thesis unfolding esd_card_def Let_def cbe_def using assms
    by (subst cseq_part) (auto simp: write_at_length *)
qed

lemma items_length: "length (concat (map (esd_item st) vs)) = length vs * 16"
  by (induction vs) auto

lemma items_nth: "j < length vs \<Longrightarrow> take 16 (drop (j * 16) (concat (map (esd_item st) vs) @ z)) = esd_item st (vs ! j)"
proof (induction vs arbitrary: j)
  case (Cons e vs)
  then show ?case by (cases j) simp_all
qed simp

lemma ids_from_none: "filter not_ld vs = [] \<Longrightarrow> ids_from x vs"
  by (induction vs arbitrary: x) (auto simp: not_ld_def split: if_splits)

lemma esd_card_read:
  assumes "length vs \<le> 3" "ids_from m vs" "1 \<le> m" "m < 65536" "cf = (if filter not_ld vs \<noteq> [] then m else 0)"
    "c = write_at (cname cinit ''ESD'') 16 (concat (map (esd_item st) vs))"
  shows "obj_card_type (esd_card d c (length vs) cf q) = OBJ_ESD"
    "obj_esd_walk (esd_card d c (length vs) cf q) = map (esd_read st) vs"
proof -
  let ?k = "esd_card d c (length vs) cf q"
  have lc: "length c = 80" using assms(1,6) by (simp add: write_at_length items_length)
  have low: "byte_at c i = byte_at (cname cinit ''ESD'') i" if "i < 16" for i
    using that assms(1) by (simp add: assms(6) byte_at_write items_length)
  note b = esd_card_bytes [OF lc, of _ d "length vs" cf q]
  show ty: "obj_card_type ?k = OBJ_ESD"
    using b [of 0] b [of 1] b [of 2] b [of 3] low [of 0] low [of 1] low [of 2] low [of 3]
    by (simp add: obj_card_type_def cname_bytes)
  have "mvs_be16 ?k 10 = nat (int (length vs * 16) mod 65536)"
    by (rule field16) (use b in simp)
  then have cnt: "mvs_be16 ?k 10 = (0 + length vs) * 16" using assms(1) by simp
  have "filter not_ld vs \<noteq> [] \<Longrightarrow> mvs_be16 ?k 14 = nat (int m mod 65536)"
    by (rule field16) (use b assms(3,5) in simp)
  then have ids: "ids_from (mvs_be16 ?k 14 + 0) vs" using assms(2,4) ids_from_none by (cases "filter not_ld vs = []") simp_all
  have "take 16 (drop (16 + (0 + j) * 16) ?k) = esd_item st (vs ! j)" if "j < length vs" for j
  proof -
    have "take 16 (drop (16 + j * 16) ?k) = take 16 (drop (16 + j * 16) c)"
      using that assms(1) by (intro esd_card_part [OF lc]) simp_all
    also have "\<dots> = esd_item st (vs ! j)"
    proof -
      have "drop (16 + j * 16) c = drop (j * 16) (drop 16 c)" by (simp add: add.commute)
      also have "drop 16 c = concat (map (esd_item st) vs) @ drop (16 + length vs * 16) (cname cinit ''ESD'')"
        by (simp add: assms(6) write_at_def items_length)
      finally show ?thesis by (simp only: items_nth [OF that])
    qed
    finally show ?thesis by simp
  qed
  then have "esd_loop ?k ((0 + length vs) * 16) (mvs_be16 ?k 14) 0 0 = map (esd_read st) vs"
    using assms(1) ids by (intro esd_loop_items) simp_all
  then show "obj_esd_walk ?k = map (esd_read st) vs" by (simp add: obj_esd_walk_def ty cnt)
qed

lemma esd_cards_read:
  assumes "ids_from m es" "1 \<le> m" "m + length (filter not_ld es) \<le> 65535"
  shows "concat (map obj_esd_walk (esd_cards st es seq)) = map (esd_read st) (esd_vis st es)
    \<and> (\<forall>c\<in>set (esd_cards st es seq). obj_card_type c = OBJ_ESD)"
  using assms
proof (induction st es seq arbitrary: m rule: esd_cards.induct)
  case (1 st es seq)
  show ?case
  proof (cases "es = []")
    case True
    then show ?thesis by (simp add: esd_cards.simps esd_vis_def)
  next
    case False
    obtain pre rest where f: "es = pre @ rest" "length (esd_vis st pre) \<le> 3"
      and fill: "esd_fill st es (cname cinit ''ESD'') 0 0 = (write_at (cname cinit ''ESD'') 16 (concat (map (esd_item st) (esd_vis st pre))),
         length (esd_vis st pre), if filter not_ld pre \<noteq> [] then m else 0, rest)"
      using esd_fill_spec [of 0 "cname cinit ''ESD''" m es st 0] 1(2,3) by auto
    let ?c = "write_at (cname cinit ''ESD'') 16 (concat (map (esd_item st) (esd_vis st pre)))"
    let ?cf = "if filter not_ld pre \<noteq> [] then m else 0"
    let ?k = "esd_card (deck_id st) ?c (length (esd_vis st pre)) ?cf (seq + 1)"
    have run: "esd_cards st es seq = ?k # esd_cards st rest (seq + 1)"
      using False by (subst esd_cards.simps) (simp add: fill)
    have ids: "ids_from m pre" "ids_from (m + length (filter not_ld pre)) rest"
      using 1(2) f(1) by (simp_all add: ids_from_append)
    have first: "obj_card_type ?k = OBJ_ESD" "obj_esd_walk ?k = map (esd_read st) (esd_vis st pre)"
      using esd_card_read [of "esd_vis st pre" m ?cf ?c st "deck_id st" "seq + 1"] f(2) 1(3,4) ids_from_vis [OF ids(1)] f(1)
      by (simp_all add: vis_not_ld)
    have "concat (map obj_esd_walk (esd_cards st rest (seq + 1))) = map (esd_read st) (esd_vis st rest)
        \<and> (\<forall>c\<in>set (esd_cards st rest (seq + 1)). obj_card_type c = OBJ_ESD)"
      using 1(1) [OF False fill [symmetric] refl refl refl, of "m + length (filter not_ld pre)"] ids(2) 1(3,4) f(1) by simp
    then show ?thesis unfolding run using first by (simp add: f(1) esd_vis_def)
  qed
qed

subsection \<open>The whole deck\<close>

lemma rld_card_type: "length area \<le> 56 \<Longrightarrow> obj_card_type (rld_card d area q) = OBJ_RLD"
  using rld_card_layout [of area d q] by (auto simp: obj_card_type_def)

lemma rld_cards_type: "\<forall>c\<in>set (rld_cards d rs q). obj_card_type c = OBJ_RLD"
  using rld_cards_areas rld_card_type by fastforce

lemma end_card_type: "obj_card_type (end_card d en idr q) = OBJ_END"
proof -
  let ?c = "case en of None \<Rightarrow> cname cinit ''END'' | Some (addr, esdid) \<Rightarrow> cbe (cbe (cname cinit ''END'') 5 addr 3) 14 esdid 2"
  have l: "length (cebc ?c 32 idr 20) = 80" by (auto split: option.splits)
  have "byte_at (end_card d en idr q) i = byte_at (cname cinit ''END'') i" if "i < 4" for i
    using that l unfolding end_card_def Let_def
    by (subst cseq_byte) (auto simp: cebc_def cbe_def byte_at_write write_at_length split: option.splits)
  then show ?thesis by (simp add: obj_card_type_def cname_bytes)
qed

definition deck_ok :: "asm \<Rightarrow> bool" where
  "deck_ok st \<longleftrightarrow> list_all ev_ok (txl st) \<and> list_all rl_ok (rels st) \<and> clear_punches (repro_img st) (punches st)
     \<and> ids_from 1 (esdord st) \<and> length (esdord st) < 65535"

lemma concat_kind:
  "(\<And>c. obj_card_type c \<noteq> k \<Longrightarrow> f c = []) \<Longrightarrow>
   concat (map f cs) = concat (map f (filter (\<lambda>c. obj_card_type c = k) cs))"
  by (induction cs) auto

lemma filter_kind:
  "\<forall>c\<in>set cs. obj_card_type c = k' \<Longrightarrow> filter (\<lambda>c. obj_card_type c = k) cs = (if k = k' then cs else [])"
  by (auto simp: filter_id_conv filter_empty_conv)

text \<open>The cards of each kind in a deck.\<close>

lemma emit_obj_parts:
  assumes "deck_ok st"
  obtains deck ts q where "emit_obj date st = Some deck"
    "filter (\<lambda>c. obj_card_type c = OBJ_ESD) deck = esd_cards st (esdord st) 0"
    "filter (\<lambda>c. obj_card_type c = OBJ_TXT) deck = filter (\<lambda>c. obj_card_type c = OBJ_TXT) ts"
    "filter (\<lambda>c. obj_card_type c = OBJ_RLD) deck = rld_cards (deck_id st) (rel_sort (rels st)) q"
    "concat (map txt_bytes ts) = log_bytes (txl st)"
    "concat (map obj_esd_walk (esd_cards st (esdord st) 0)) = map (esd_read st) (esd_vis st (esdord st))"
proof -
  let ?w0 = "\<lparr>tw_open = False, tw_esdid = 0, tw_start = 0, tw_running = 0, tw_buf = [], tw_done = 0,
    tw_seq = length (esd_cards st (esdord st) 0), tw_out = []\<rparr>"
  obtain ps w where w: "txt_events (deck_id st) (repro_img st) (txl st) (punches st, ?w0) = Some (ps, w)" "tw_ok w" "\<not> tw_open w"
      "tw_sofar w = tw_sofar ?w0 @ log_bytes (txl st)"
    using txt_events_spec [of "txl st" "repro_img st" "punches st" ?w0 "deck_id st"] assms
    by (auto simp: deck_ok_def tw_ok_def)
  have "1 + length (filter not_ld (esdord st)) \<le> 65535"
    using assms length_filter_le [of not_ld "esdord st"] unfolding deck_ok_def by linarith
  then have esd: "concat (map obj_esd_walk (esd_cards st (esdord st) 0)) = map (esd_read st) (esd_vis st (esdord st))
      \<and> (\<forall>c\<in>set (esd_cards st (esdord st) 0). obj_card_type c = OBJ_ESD)"
    using assms esd_cards_read [of 1 "esdord st" st 0] by (simp add: deck_ok_def)
  define before where "before = map (\<lambda>p. repro_img st ! pe_ridx p) (filter pe_before_esd (punches st))"
  have before: "\<forall>c\<in>set before. obj_card_type c = OBJ_OTHER"
    using assms by (auto simp: before_def deck_ok_def clear_punches_def)
  have out: "concat (map txt_bytes (tw_out w)) = log_bytes (txl st)"
    using w(3,4) by (simp add: tw_sofar_def)
  let ?rld = "rld_cards (deck_id st) (rel_sort (rels st)) (tw_seq w)"
  obtain en idr q where d: "emit_obj date st
      = Some (before @ esd_cards st (esdord st) 0 @ tw_out w @ ?rld @ [end_card (deck_id st) en idr q])"
    using w(1) by (auto simp: emit_obj_def Let_def before_def)
  have ts: "filter (\<lambda>c. obj_card_type c = k) (tw_out w) = []" if "k \<noteq> OBJ_TXT" "k \<noteq> OBJ_OTHER" for k
    using w(2) that by (auto simp: tw_ok_def filter_empty_conv)
  note kinds = filter_kind [OF before] filter_kind [OF conjunct2 [OF esd]] filter_kind [OF rld_cards_type]
  show ?thesis
    by (rule that [OF d _ _ _ out conjunct1 [OF esd]]) (simp_all add: kinds ts end_card_type)
qed

text \<open>
  C5. The TXT cards of a deck carry the emission log: the writer terminates, and reading the deck's text
  cards in order gives every byte that was put, with the address and the section it was put to, in the
  order of emission, wherever REPRO cards, gaps and full cards cut the text.
\<close>

theorem deck_text_roundtrip:
  assumes "deck_ok st"
  shows "\<exists>deck. emit_obj date st = Some deck \<and> concat (map txt_bytes deck) = log_bytes (txl st)"
proof -
  obtain deck ts where "emit_obj date st = Some deck" "concat (map txt_bytes ts) = log_bytes (txl st)"
      "filter (\<lambda>c. obj_card_type c = OBJ_TXT) deck = filter (\<lambda>c. obj_card_type c = OBJ_TXT) ts"
    using emit_obj_parts [OF assms] by metis
  then show ?thesis
    using concat_kind [of OBJ_TXT txt_bytes deck] concat_kind [of OBJ_TXT txt_bytes ts] by (simp add: txt_bytes_other)
qed

text \<open>
  C6. The ESD cards of a deck, read back: every external symbol that is not a suppressed LD, in order of
  declaration, with its name, type, address and length modulo 16 MB, and the ESDID the assembler gave it,
  although a card holds only the first one.
\<close>

theorem deck_esd_roundtrip:
  assumes "deck_ok st"
  shows "\<exists>deck. emit_obj date st = Some deck
    \<and> concat (map obj_esd_walk deck) = map (esd_read st) (filter (\<lambda>e. \<not> esd_skip st e) (esdord st))"
proof -
  obtain deck where "emit_obj date st = Some deck"
      "filter (\<lambda>c. obj_card_type c = OBJ_ESD) deck = esd_cards st (esdord st) 0"
      "concat (map obj_esd_walk (esd_cards st (esdord st) 0)) = map (esd_read st) (esd_vis st (esdord st))"
    using emit_obj_parts [OF assms] by metis
  then show ?thesis using concat_kind [of OBJ_ESD obj_esd_walk deck] by (simp add: obj_esd_walk_def esd_vis_def)
qed

text \<open>
  C7. The RLD cards of a deck, read back: the relocations, sorted by position, target and address with
  equal keys in order of emission, each with its pair of ESDIDs, its flags and its address, although an item
  leaves the pair out where it repeats its predecessor's on the same card.
\<close>

theorem deck_rld_roundtrip:
  assumes "deck_ok st"
  shows "\<exists>deck. emit_obj date st = Some deck
    \<and> map rld_tuple (concat (map obj_rld_walk deck)) = map rld_of (sort_key rel_key (rels st))"
proof -
  obtain deck q where d: "emit_obj date st = Some deck"
      "filter (\<lambda>c. obj_card_type c = OBJ_RLD) deck = rld_cards (deck_id st) (rel_sort (rels st)) q"
    using emit_obj_parts [OF assms] by metis
  have "list_all rl_ok (rel_sort (rels st))"
    using assms by (simp add: deck_ok_def list_all_iff rel_sort_is_sort)
  then have "map rld_tuple (concat (map obj_rld_walk (rld_cards (deck_id st) (rel_sort (rels st)) q)))
      = map rld_of (sort_key rel_key (rels st))"
    using rld_cards_read [of "rel_sort (rels st)" "deck_id st" q] by (simp add: map_concat rel_sort_is_sort o_def)
  then show ?thesis using d concat_kind [of OBJ_RLD obj_rld_walk deck] by (simp add: obj_rld_walk_def)
qed

subsection \<open>A small deck\<close>

text \<open>A section, an entry in it, an external reference, three bytes of text around a gap and a REPRO card.\<close>

definition demo_sym :: "string \<Rightarrow> int \<Rightarrow> stype \<Rightarrow> bool \<Rightarrow> nat \<Rightarrow> nat \<Rightarrow> sym" where
  "demo_sym nm v ty df eid sc = \<lparr>sy_name = nm, sy_val = v, sy_type = ty, sy_defined = df, sy_esdid = eid, sy_sect = sc,
     sy_is_weak = False, sy_eq_to = 0, sy_xdlen = 0, sy_xdalgn = 0, sy_len = 0, sy_declared_extrn = False\<rparr>"

definition demo_asm :: asm where
  "demo_asm = asm_init\<lparr>
     syms := [demo_sym ''MAIN'' 0 S_SD True 1 1, demo_sym ''EP'' 4 S_REL True 0 1, demo_sym ''EXT'' 0 S_ER False 2 0],
     esdord := [\<lparr>ee_s = 0, ee_role = ESD_SECT, ee_esdid = 1\<rparr>, \<lparr>ee_s = 1, ee_role = ESD_LD, ee_esdid = 0\<rparr>,
                \<lparr>ee_s = 2, ee_role = ESD_ER, ee_esdid = 2\<rparr>],
     sect_hwm := (\<lambda>i. if i = 1 then 12 else 0), main_sect_esdid := 1,
     txl := [\<lparr>te_addr = 0, te_esdid = 1, te_bytes = [0x47, 0xF0]\<rparr>, \<lparr>te_addr = 8, te_esdid = 1, te_bytes = [0xAA]\<rparr>],
     rels := [\<lparr>rl_addr = 8, rl_pos = 1, rl_rel = 2, rl_isV = 1, rl_len = 4, rl_neg = False\<rparr>,
              \<lparr>rl_addr = 4, rl_pos = 1, rl_rel = 1, rl_isV = 0, rl_len = 4, rl_neg = False\<rparr>],
     repro_img := [replicate 80 0x40], punches := [\<lparr>pe_ridx = 0, pe_before_esd = False, pe_at_bytes = 1\<rparr>]\<rparr>"

lemma demo_ok: "deck_ok demo_asm"
  by (simp add: deck_ok_def demo_asm_def ev_ok_def rl_ok_def clear_punches_def obj_card_type_def byte_at_def)

theorem deck_text_roundtrip_witness:
  "\<exists>deck. emit_obj None demo_asm = Some deck
     \<and> concat (map txt_bytes deck) = [(1, 0, 0x47), (1, 1, 0xF0), (1, 8, 0xAA)]"
proof -
  have "log_bytes (txl demo_asm) = [(1, 0, 0x47), (1, 1, 0xF0), (1, 8, 0xAA)]"
    by (simp add: demo_asm_def log_bytes_def)
  then show ?thesis using deck_text_roundtrip [OF demo_ok, of None] by simp
qed

theorem deck_esd_roundtrip_witness:
  "\<exists>deck. emit_obj None demo_asm = Some deck
     \<and> map (\<lambda>e. (oe_type e, oe_esdid e, oe_addr e, oe_len e)) (concat (map obj_esd_walk deck))
       = [(OBJ_SD, 1, 0, 12), (OBJ_LD, 0, 4, 1), (OBJ_ER, 2, 0, 0x404040)]"
proof -
  have vis: "filter (\<lambda>e. \<not> esd_skip demo_asm e) (esdord demo_asm) = esdord demo_asm"
    by (simp add: demo_asm_def demo_sym_def esd_skip_def entry_unlinkable_def)
  have "map (\<lambda>e. (oe_type e, oe_esdid e, oe_addr e, oe_len e)) (map (esd_read demo_asm) (esdord demo_asm))
      = [(OBJ_SD, 1, 0, 12), (OBJ_LD, 0, 4, 1), (OBJ_ER, 2, 0, 0x404040)]"
    by (simp add: demo_asm_def demo_sym_def esd_read_def esd_type_def esd_addr_def
        esd_last_def sect_length_def MAXSECT_def sect_esdid_def sect_esdid_of_def obj_types)
  moreover obtain deck where "emit_obj None demo_asm = Some deck"
      "concat (map obj_esd_walk deck) = map (esd_read demo_asm) (esdord demo_asm)"
    using deck_esd_roundtrip [OF demo_ok, of None] unfolding vis by blast
  ultimately show ?thesis by (intro exI [of _ deck]) (simp only: simp_thms)
qed

theorem deck_rld_roundtrip_witness:
  "\<exists>deck. emit_obj None demo_asm = Some deck
     \<and> map rld_tuple (concat (map obj_rld_walk deck)) = [(1, 1, 0x0C, 4), (2, 1, 0x1C, 8)]"
proof -
  have "map rld_of (sort_key rel_key (rels demo_asm)) = [(1, 1, 0x0C, 4), (2, 1, 0x1C, 8)]"
    by (simp add: demo_asm_def rel_key_def rld_of_def rel_flag_def less_prod_def less_eq_prod_def)
  then show ?thesis using deck_rld_roundtrip [OF demo_ok, of None] by simp
qed

end
