(* ===== verification/As_Expr.thy ===== *)
theory As_Expr
  imports As_State Fmt370 "HOL-Library.Signed_Division"
begin

section \<open>as370: expressions\<close>

text \<open>
  The expression evaluator of \<^verbatim>\<open>as370/src/as370.c\<close>, from \<^verbatim>\<open>x_factor\<close> to \<^verbatim>\<open>expr_val_full\<close>, with what it keeps in file-scope
  variables as a record: the cursor, the net relocation count, the tally of relocatable terms per section, and the
  flags. A \<^verbatim>\<open>long\<close> is an \<open>int\<close>. The recursion through groups and the loops carry fuel; one unit for each character
  and one more is enough on every input. The names \<^verbatim>\<open>note_undefsym\<close> would report
  are collected; the messages of an expression that is valued at 0 follow from its flags (\<open>x_report\<close>).

  Shown here: evaluation ends on every input; the text of an expression tree evaluates to the tree's value with the
  usual precedence and association; and the relocation class means what it says: an absolute expression keeps its value
  wherever the linkage editor puts the sections, a simply relocatable one moves with exactly one section.
\<close>

subsection \<open>State\<close>

record xst =
  x_p :: string
  x_rl :: int
  x_sect :: "(nat \<times> int) list"
  x_ovf :: bool
  x_terms :: nat
  x_mulrel :: bool
  x_undef :: bool
  x_depth :: nat
  x_deep :: bool
  x_badsdt :: bool
  x_leaf :: nat
  x_syn :: bool
  x_notes :: "string list"

definition xsect_tally :: "nat \<Rightarrow> int \<Rightarrow> xst \<Rightarrow> xst" where
  "xsect_tally sect sign st =
    (if sect \<in> set (map fst (x_sect st)) then st\<lparr>x_sect := map (\<lambda>(s, c). (s, if s = sect then c + sign else c)) (x_sect st)\<rparr>
     else if length (x_sect st) < 64 then st\<lparr>x_sect := x_sect st @ [(sect, sign)]\<rparr>
     else st\<lparr>x_ovf := True\<rparr>)"

text \<open>0 absolute, 1 simply relocatable, 2 complexly relocatable.\<close>

definition xrl_class :: "xst \<Rightarrow> nat" where
  "xrl_class st =
    (if x_ovf st then 1
     else let cs = filter (\<lambda>c. c \<noteq> 0) (map snd (x_sect st)); ones = length (filter (\<lambda>c. c = 1) cs); other = length (filter (\<lambda>c. c \<noteq> 1) cs)
          in if ones = 0 \<and> other = 0 then 0 else if ones = 1 \<and> other = 0 then 1 else 2)"

definition xrl_snap :: "xst \<Rightarrow> int list" where
  "xrl_snap st = map snd (x_sect st)"

definition snap_at :: "int list \<Rightarrow> nat \<Rightarrow> int" where
  "snap_at s k = (if k < length s then s ! k else 0)"

definition xrl_moved :: "int list \<Rightarrow> xst \<Rightarrow> bool" where
  "xrl_moved s st \<longleftrightarrow> list_ex (\<lambda>k. snd (x_sect st ! k) \<noteq> snap_at s k) [0..<length (x_sect st)]"

definition xrl_negate_since :: "int list \<Rightarrow> xst \<Rightarrow> xst" where
  "xrl_negate_since s st = st\<lparr>x_sect := map (\<lambda>k. let (sect, c) = x_sect st ! k; was = snap_at s k in (sect, was - (c - was))) [0..<length (x_sect st)]\<rparr>"

subsection \<open>Terms\<close>

definition sym_known :: "sym \<Rightarrow> bool" where
  "sym_known s \<longleftrightarrow> sy_defined s \<or> sy_type s = S_ER \<and> sy_declared_extrn s"

definition find_sym :: "asm \<Rightarrow> string \<Rightarrow> sym option" where
  "find_sym A nm = map_option (\<lambda>i. syms A ! i) (sym_find nm A)"

definition x_cur :: "xst \<Rightarrow> char" where
  "x_cur st = (case x_p st of [] \<Rightarrow> CHR 0x00 | c # _ \<Rightarrow> c)"

definition x_peek :: "xst \<Rightarrow> char" where
  "x_peek st = (case x_p st of _ # c # _ \<Rightarrow> c | _ \<Rightarrow> CHR 0x00)"

definition x_next :: "xst \<Rightarrow> xst" where
  "x_next st = st\<lparr>x_p := tl (x_p st)\<rparr>"

definition x_skip :: "xst \<Rightarrow> xst" where
  "x_skip st = st\<lparr>x_p := dropWhile (\<lambda>c. c = CHR '' '') (x_p st)\<rparr>"

definition x_delim :: "char \<Rightarrow> bool" where
  "x_delim c \<longleftrightarrow> c \<in> set ''+-*/(), ''"

definition x_name :: "string \<Rightarrow> string" where
  "x_name s = take 63 (takeWhile (\<lambda>c. \<not> x_delim c) s)"

definition LONG_MAX :: int where "LONG_MAX = 2 ^ 63 - 1"

definition digits_val :: "nat \<Rightarrow> string \<Rightarrow> nat" where
  "digits_val base s = fold (\<lambda>c v. v * base + (of_char c - 48)) s 0"

definition strtol10 :: "string \<Rightarrow> int" where
  "strtol10 s = min (int (digits_val 10 (takeWhile is_digit s))) LONG_MAX"

text \<open>The digits of a self-defining term: a character that is no hexadecimal digit counts as 0.\<close>

definition sdt_digit :: "char \<Rightarrow> nat" where
  "sdt_digit ch = (let c = to_upper ch in
     if is_digit c then of_char c - 48 else if of_char c \<ge> (65::nat) \<and> of_char c \<le> (70::nat) then of_char c - 65 + 10 else 0)"

fun selfdef_cbody :: "string \<Rightarrow> int \<Rightarrow> int \<times> string" where
  "selfdef_cbody [] v = (v, [])"
| "selfdef_cbody (c # cs) v =
    (if c = CHR 0x27 then
       if cs \<noteq> [] \<and> hd cs = CHR 0x27 then selfdef_cbody (tl cs) (v * 256 + uint (mvs_a2e (ascii c))) else (v, c # cs)
     else if c = CHR ''&'' \<and> cs \<noteq> [] \<and> hd cs = CHR ''&'' then selfdef_cbody (tl cs) (v * 256 + uint (mvs_a2e (ascii c)))
     else selfdef_cbody cs (v * 256 + uint (mvs_a2e (ascii c))))"

fun sdt_len :: "bool \<Rightarrow> string \<Rightarrow> nat \<Rightarrow> nat \<times> string" where
  "sdt_len isc [] nd = (nd, [])"
| "sdt_len isc (c # cs) nd =
    (if c = CHR 0x27 then if isc \<and> cs \<noteq> [] \<and> hd cs = CHR 0x27 then sdt_len isc (tl cs) (nd + 1) else (nd, c # cs)
     else if isc \<and> c = CHR ''&'' \<and> cs \<noteq> [] \<and> hd cs = CHR ''&'' then sdt_len isc (tl cs) (nd + 1)
     else sdt_len isc cs (nd + 1))"

definition x_selfdef :: "xst \<Rightarrow> int \<times> xst" where
  "x_selfdef st =
    (let kind = x_cur st; body = drop 2 (x_p st); mx = (if kind = CHR ''C'' then 4 else if kind = CHR ''X'' then 8 else 32);
         (nd, q) = sdt_len (kind = CHR ''C'') body 0;
         bad = (q \<noteq> [] \<and> (nd = 0 \<or> nd > mx));
         (v, rest) = (if kind = CHR ''C'' then selfdef_cbody body 0
                      else let ds = takeWhile (\<lambda>c. c \<noteq> CHR 0x27) body; base = (if kind = CHR ''X'' then 16 else 2)
                           in (fold (\<lambda>c v. v * base + int (sdt_digit c)) ds 0, drop (length ds) body));
         rest = (if rest \<noteq> [] then tl rest else rest)
     in (v, st\<lparr>x_p := rest, x_badsdt := (x_badsdt st \<or> bad)\<rparr>))"

text \<open>A name that is no symbol of the assembly: \<^verbatim>\<open>xundef_\<close>, and in pass 2 a report.\<close>

definition x_unknown :: "asm \<Rightarrow> string \<Rightarrow> xst \<Rightarrow> xst" where
  "x_unknown A nm st = (if nm = [] then st else st\<lparr>x_undef := True, x_notes := (if g_pass A = 2 then x_notes st @ [nm] else x_notes st)\<rparr>)"

definition known :: "sym option \<Rightarrow> bool" where
  "known s = (case s of Some s \<Rightarrow> sym_known s | None \<Rightarrow> False)"

definition x_lattr :: "asm \<Rightarrow> xst \<Rightarrow> int \<times> xst" where
  "x_lattr A st =
    (let p = drop 2 (x_p st) in
     if p \<noteq> [] \<and> hd p = CHR ''*'' then (1, st\<lparr>x_p := tl p\<rparr>)
     else let nm = x_name p; st = st\<lparr>x_p := drop (length nm) p\<rparr> in
       case find_sym A nm of
         Some s \<Rightarrow> if sym_known s then (if sy_len s = 0 then 1 else int (sy_len s), st) else (0, x_unknown A nm st)
       | None \<Rightarrow> (0, x_unknown A nm st))"

definition reloc_type :: "stype \<Rightarrow> bool" where
  "reloc_type t \<longleftrightarrow> t \<in> {S_SD, S_PC, S_REL, S_ER, S_CM, S_XD}"

definition x_symbol :: "asm \<Rightarrow> int \<Rightarrow> xst \<Rightarrow> int \<times> xst" where
  "x_symbol A sign st =
    (let nm = x_name (x_p st); st = st\<lparr>x_p := drop (length nm) (x_p st)\<rparr>; s = find_sym A nm;
         st = (if known s then st else x_unknown A nm st)
     in case s of
          None \<Rightarrow> (0, st)
        | Some s \<Rightarrow>
            if sy_type s = S_ER \<and> \<not> sym_known s then (0, st)
            else if reloc_type (sy_type s)
            then (sy_val s, xsect_tally (sy_sect s) sign (st\<lparr>x_rl := x_rl st + sign, x_terms := x_terms st + 1\<rparr>))
            else (sy_val s, st))"

text \<open>The part of \<^verbatim>\<open>x_factor\<close> behind groups, the location counter and signs.\<close>

definition x_leaf_term :: "asm \<Rightarrow> int \<Rightarrow> xst \<Rightarrow> int \<times> xst" where
  "x_leaf_term A sign st =
    (let c = x_cur st;
         st = (if x_syn st then st
               else if is_alpha c \<or> is_digit c \<or> is_national c \<or> c = CHR ''='' then st\<lparr>x_leaf := x_leaf st + 1\<rparr>
               else st\<lparr>x_syn := True\<rparr>)
     in if is_digit c then (strtol10 (x_p st), st\<lparr>x_p := dropWhile is_digit (x_p st)\<rparr>)
        else if c = CHR ''L'' \<and> x_peek st = CHR 0x27 then x_lattr A st
        else if (c = CHR ''X'' \<or> c = CHR ''B'' \<or> c = CHR ''C'') \<and> x_peek st = CHR 0x27 then x_selfdef st
        else x_symbol A sign st)"

definition x_loc :: "asm \<Rightarrow> int \<Rightarrow> xst \<Rightarrow> int \<times> xst" where
  "x_loc A sign st =
    (let st = (if x_syn st then st else st\<lparr>x_leaf := x_leaf st + 1\<rparr>);
         st = st\<lparr>x_p := tl (x_p st), x_rl := x_rl st + sign, x_terms := x_terms st + 1\<rparr>
     in (lc A, xsect_tally (cur_sect_id A) sign st))"

text \<open>Opening and closing a group.\<close>

definition x_open :: "xst \<Rightarrow> xst" where
  "x_open st = st\<lparr>x_p := tl (x_p st), x_depth := x_depth st + 1, x_deep := (x_deep st \<or> x_depth st + 1 > 6), x_rl := 0\<rparr>"

definition x_close :: "int \<Rightarrow> xst \<Rightarrow> xst \<Rightarrow> xst" where
  "x_close sign st st2 =
    (let st2 = st2\<lparr>x_depth := x_depth st2 - 1, x_rl := x_rl st + (if sign < 0 then - x_rl st2 else x_rl st2)\<rparr>;
         st2 = (if sign < 0 then xrl_negate_since (xrl_snap st) st2 else st2);
         st2 = x_skip st2
     in if x_cur st2 = CHR '')'' then x_next st2 else st2)"

subsection \<open>The evaluator\<close>

text \<open>The loops of \<^verbatim>\<open>x_term\<close> and \<^verbatim>\<open>x_add\<close>, over the procedure \<open>fac\<close> that reads a factor.\<close>

primrec term_loop :: "(int \<Rightarrow> xst \<Rightarrow> (int \<times> xst) option) \<Rightarrow> nat \<Rightarrow> int \<Rightarrow> bool \<Rightarrow> xst \<Rightarrow> (int \<times> xst) option" where
  "term_loop fac 0 v lrel st = None"
| "term_loop fac (Suc n) v lrel st =
    (let st = x_skip st in
     if x_cur st = CHR ''*'' \<or> x_cur st = CHR ''/'' then
       (case fac 0 (x_next st) of
          None \<Rightarrow> None
        | Some (r, st2) \<Rightarrow>
            let v2 = (if x_cur st = CHR ''*'' then v * r else if r = 0 then 0 else v sdiv r);
                st3 = (if lrel \<or> xrl_moved (xrl_snap (x_next st)) st2 then st2\<lparr>x_mulrel := True\<rparr> else st2)
            in term_loop fac n v2 False st3)
     else Some (v, st))"

definition x_term :: "(int \<Rightarrow> xst \<Rightarrow> (int \<times> xst) option) \<Rightarrow> nat \<Rightarrow> int \<Rightarrow> xst \<Rightarrow> (int \<times> xst) option" where
  "x_term fac n sign st = (case fac sign st of None \<Rightarrow> None | Some (v, st2) \<Rightarrow> term_loop fac n v (xrl_moved (xrl_snap st) st2) st2)"

primrec add_loop :: "(int \<Rightarrow> xst \<Rightarrow> (int \<times> xst) option) \<Rightarrow> nat \<Rightarrow> nat \<Rightarrow> int \<Rightarrow> xst \<Rightarrow> (int \<times> xst) option" where
  "add_loop fac m 0 v st = None"
| "add_loop fac m (Suc n) v st =
    (let st = x_skip st in
     if x_cur st = CHR ''+'' then (case x_term fac m 1 (x_next st) of None \<Rightarrow> None | Some (r, st2) \<Rightarrow> add_loop fac m n (v + r) st2)
     else if x_cur st = CHR ''-'' then (case x_term fac m (-1) (x_next st) of None \<Rightarrow> None | Some (r, st2) \<Rightarrow> add_loop fac m n (v - r) st2)
     else Some (v, st))"

definition x_add :: "(int \<Rightarrow> xst \<Rightarrow> (int \<times> xst) option) \<Rightarrow> nat \<Rightarrow> xst \<Rightarrow> (int \<times> xst) option" where
  "x_add fac n st = (case x_term fac n 1 st of None \<Rightarrow> None | Some (v, st2) \<Rightarrow> add_loop fac n n v st2)"

primrec x_factor :: "nat \<Rightarrow> asm \<Rightarrow> int \<Rightarrow> xst \<Rightarrow> (int \<times> xst) option" where
  "x_factor 0 A sign st = None"
| "x_factor (Suc n) A sign st =
    (let st = x_skip st in
     if x_cur st = CHR ''('' then map_option (\<lambda>(v, st2). (v, x_close sign st st2)) (x_add (x_factor n A) n (x_open st))
     else if x_cur st = CHR ''*'' then Some (x_loc A sign st)
     else if x_cur st = CHR ''-'' then map_option (\<lambda>(v, st2). (- v, st2)) (x_factor n A (- sign) (x_next st))
     else if x_cur st = CHR ''+'' then x_factor n A sign (x_next st)
     else Some (x_leaf_term A sign st))"

definition x_start :: "string \<Rightarrow> xst" where
  "x_start e = \<lparr>x_p = e, x_rl = 0, x_sect = [], x_ovf = False, x_terms = 0, x_mulrel = False, x_undef = False, x_depth = 0, x_deep = False,
     x_badsdt = False, x_leaf = 0, x_syn = False, x_notes = []\<rparr>"

definition x_fuel :: "string \<Rightarrow> nat" where
  "x_fuel e = length e + 1"

text \<open>Value, relocation count and the state behind; an expression too deep, too long or with a bad term counts as 0.\<close>

definition x_bad :: "xst \<Rightarrow> bool" where
  "x_bad st \<longleftrightarrow> x_deep st \<or> x_badsdt st \<or> x_leaf st > 20 \<and> \<not> x_syn st"

definition x_finish :: "int \<times> xst \<Rightarrow> int \<times> int \<times> xst" where
  "x_finish = (\<lambda>(v, st). if x_bad st then (0, 0, st) else (v, x_rl st, st))"

definition expr_val_full :: "asm \<Rightarrow> string \<Rightarrow> int \<times> int \<times> xst" where
  "expr_val_full A e =
    (let st = x_skip (x_start e) in
     if x_p st = [] then (0, 0, st)
     else case x_add (x_factor (x_fuel e) A) (x_fuel e) st of Some r \<Rightarrow> x_finish r | None \<Rightarrow> (0, 0, st))"

definition expr_val :: "asm \<Rightarrow> string \<Rightarrow> int \<times> int \<times> xst" where
  "expr_val A e =
    (let st = x_skip (x_start e) in
     if x_p st = [] \<or> x_cur st = CHR ''('' \<or> x_cur st = CHR '','' then (0, 0, st)
     else case x_add (x_factor (x_fuel e) A) (x_fuel e) st of Some r \<Rightarrow> x_finish r | None \<Rightarrow> (0, 0, st))"

text \<open>A register operand: a pair of parentheses around the whole of it is taken off.\<close>

fun close_at :: "nat \<Rightarrow> string \<Rightarrow> nat option" where
  "close_at d [] = None"
| "close_at d (c # cs) =
    (if c = CHR ''('' then map_option Suc (close_at (d + 1) cs)
     else if c = CHR '')'' then (if d = 1 then Some 0 else map_option Suc (close_at (d - 1) cs))
     else map_option Suc (close_at d cs))"

definition eval_reg :: "asm \<Rightarrow> string \<Rightarrow> int" where
  "eval_reg A f =
    (let s = dropWhile (\<lambda>c. c = CHR '' '') f in
     case (if s \<noteq> [] \<and> hd s = CHR ''('' then close_at 0 s else None) of
       Some k \<Rightarrow> if list_all (\<lambda>c. c = CHR '' '') (drop (k + 1) s) then fst (expr_val A (take (min (k - 1) 63) (tl s))) else fst (expr_val_full A s)
     | None \<Rightarrow> fst (expr_val_full A s))"

definition using_reg :: "asm \<Rightarrow> string \<Rightarrow> int option" where
  "using_reg A e = (case expr_val_full A e of (v, rl, st) \<Rightarrow>
     if x_undef st \<or> x_mulrel st \<or> x_deep st \<or> x_badsdt st \<or> xrl_class st \<noteq> 0 \<or> v < 0 \<or> v > 15 then None else Some v)"

definition xrl_paired :: "xst \<Rightarrow> bool" where
  "xrl_paired st \<longleftrightarrow> x_ovf st \<or> list_all (\<lambda>(s, c). c = 0) (x_sect st)"

text \<open>
  The evaluator's errors. In pass 1 the statement is remembered; in pass 2 the message is raised, once for a statement
  and an error: \<open>xe_msgs\<close> are the calls of \<^verbatim>\<open>note_operr\<close>.
\<close>

datatype xe_code = XE_DEPTH | XE_SDT | XE_TERMS

record xlog =
  xe_tab :: "(int \<times> xe_code) list"
  xe_last :: "xe_code \<Rightarrow> int"
  xe_msgs :: "(xe_code \<times> int) list"

definition note_expr_err :: "nat \<Rightarrow> int \<Rightarrow> xe_code \<Rightarrow> xlog \<Rightarrow> xlog" where
  "note_expr_err pass curln code L =
    (if pass = 1 then
       if list_ex (\<lambda>(l, c). c = code) (takeWhile (\<lambda>(l, c). l = curln) (rev (xe_tab L))) then L
       else if length (xe_tab L) < 256 then L\<lparr>xe_tab := xe_tab L @ [(curln, code)]\<rparr> else L
     else if pass \<noteq> 2 \<or> curln = xe_last L code then L
     else L\<lparr>xe_last := (xe_last L)(code := curln), xe_msgs := xe_msgs L @ [(code, curln)]\<rparr>)"

definition expr_err_stmt :: "nat \<Rightarrow> int \<Rightarrow> int \<Rightarrow> xlog \<Rightarrow> xlog" where
  "expr_err_stmt pass curln line L = fold (\<lambda>(l, c) L. if l = line then note_expr_err pass curln c L else L) (xe_tab L) L"

definition x_report :: "nat \<Rightarrow> int \<Rightarrow> xst \<Rightarrow> xlog \<Rightarrow> xlog" where
  "x_report pass curln st L =
    (let L = (if x_deep st then note_expr_err pass curln XE_DEPTH L else L);
         L = (if x_badsdt st then note_expr_err pass curln XE_SDT L else L)
     in if x_leaf st > 20 \<and> \<not> x_syn st then note_expr_err pass curln XE_TERMS L else L)"

text \<open>Raising an error again for the same statement does nothing, in either pass.\<close>

lemma note_expr_err_again: "note_expr_err p ln c (note_expr_err p ln c L) = note_expr_err p ln c L"
  by (simp add: note_expr_err_def)

text \<open>A pass over a statement raises a message exactly for the errors it has, however often it is evaluated.\<close>

lemma x_report_again: "x_report 2 ln st (x_report 2 ln st L) = x_report 2 ln st L"
  by (simp add: x_report_def note_expr_err_def Let_def)

subsection \<open>Evaluation ends\<close>

definition fac_ends :: "nat \<Rightarrow> (int \<Rightarrow> xst \<Rightarrow> (int \<times> xst) option) \<Rightarrow> bool" where
  "fac_ends m fac \<longleftrightarrow> (\<forall>sign st. length (x_p st) < m \<longrightarrow> (\<exists>v st'. fac sign st = Some (v, st') \<and> length (x_p st') \<le> length (x_p st)))"

lemma fac_endsE:
  assumes "fac_ends m fac" "length (x_p st) < m"
  obtains v st' where "fac sign st = Some (v, st')" "length (x_p st') \<le> length (x_p st)"
  using assms unfolding fac_ends_def by blast

lemma x_fields [simp]:
  "x_p (x_next st) = tl (x_p st)" "x_p (x_skip st) = dropWhile (\<lambda>c. c = CHR '' '') (x_p st)" "x_p (x_open st) = tl (x_p st)"
  "x_p (xsect_tally sect sign st) = x_p st" "x_p (xrl_negate_since sn st) = x_p st" "x_p (x_unknown A nm st) = x_p st"
  by (simp_all add: x_next_def x_skip_def x_open_def xsect_tally_def xrl_negate_since_def x_unknown_def)

lemma x_cur_nonempty: "x_cur st \<noteq> CHR 0x00 \<Longrightarrow> x_p st \<noteq> []"
  by (auto simp: x_cur_def)

lemma next_shorter: "x_cur (x_skip st) \<noteq> CHR 0x00 \<Longrightarrow> length (x_p (x_next (x_skip st))) < length (x_p st)"
proof -
  assume "x_cur (x_skip st) \<noteq> CHR 0x00"
  then have "x_p (x_skip st) \<noteq> []" by (rule x_cur_nonempty)
  moreover have "length (x_p (x_skip st)) \<le> length (x_p st)" by (simp add: length_dropWhile_le)
  ultimately show ?thesis unfolding x_next_def by (cases "x_p (x_skip st)") simp_all
qed

lemma cbody_length: "length (snd (selfdef_cbody s v)) \<le> length s"
  by (induction s v rule: selfdef_cbody.induct) (auto intro: order_trans)

lemma selfdef_length: "length (x_p (snd (x_selfdef st))) \<le> length (x_p st)"
proof -
  define body where "body = drop 2 (x_p st)"
  define rest where "rest = (if x_cur st = CHR ''C'' then snd (selfdef_cbody body 0) else drop (length (takeWhile (\<lambda>c. c \<noteq> CHR 0x27) body)) body)"
  have "x_p (snd (x_selfdef st)) = (if rest \<noteq> [] then tl rest else rest)"
    unfolding x_selfdef_def Let_def split_beta body_def rest_def by simp
  moreover have "length rest \<le> length (x_p st)" using cbody_length [of body 0] by (auto simp: rest_def body_def)
  ultimately show ?thesis by auto
qed

lemma lattr_length: "length (x_p (snd (x_lattr A st))) \<le> length (x_p st)"
  unfolding x_lattr_def Let_def by (auto split: option.split)

lemma symbol_length: "length (x_p (snd (x_symbol A sign st))) \<le> length (x_p st)"
  unfolding x_symbol_def Let_def by (auto split: option.split)

lemma leaf_length: "length (x_p (snd (x_leaf_term A sign st))) \<le> length (x_p st)"
proof -
  define st1 where "st1 = (if x_syn st then st
     else if is_alpha (x_cur st) \<or> is_digit (x_cur st) \<or> is_national (x_cur st) \<or> x_cur st = CHR ''='' then st\<lparr>x_leaf := x_leaf st + 1\<rparr> else st\<lparr>x_syn := True\<rparr>)"
  have "x_p st1 = x_p st" by (simp add: st1_def)
  then show ?thesis unfolding x_leaf_term_def Let_def st1_def [symmetric]
    using selfdef_length [of st1] lattr_length [of A st1] symbol_length [of A sign st1] by (simp add: length_dropWhile_le)
qed

lemma skip_length: "length (x_p (x_skip st)) \<le> length (x_p st)"
  by (simp add: length_dropWhile_le)

lemma term_loop_ends:
  assumes "fac_ends m fac" "length (x_p st) \<le> m" "length (x_p st) < n"
  shows "\<exists>v' st'. term_loop fac n v lrel st = Some (v', st') \<and> length (x_p st') \<le> length (x_p st)"
  using assms(2,3)
proof (induction n arbitrary: v lrel st)
  case (Suc n)
  let ?st = "x_skip st"
  have l: "length (x_p ?st) \<le> length (x_p st)" by (rule skip_length)
  show ?case
  proof (cases "x_cur ?st = CHR ''*'' \<or> x_cur ?st = CHR ''/''")
    case True
    then have "x_cur ?st \<noteq> CHR 0x00" by auto
    then have "length (x_p (x_next ?st)) < length (x_p st)" by (rule next_shorter)
    then have "length (x_p (x_next ?st)) < m" "length (x_p (x_next ?st)) < n" "length (x_p (x_next ?st)) < length (x_p st)" using Suc.prems by linarith+
    moreover obtain r st2 where f: "fac 0 (x_next ?st) = Some (r, st2)" "length (x_p st2) \<le> length (x_p (x_next ?st))"
      by (rule fac_endsE [OF assms(1) calculation(1)])
    define st3 where "st3 = (if lrel \<or> xrl_moved (xrl_snap (x_next ?st)) st2 then st2\<lparr>x_mulrel := True\<rparr> else st2)"
    define v2 where "v2 = (if x_cur ?st = CHR ''*'' then v * r else if r = 0 then 0 else v sdiv r)"
    have e: "term_loop fac (Suc n) v lrel st = term_loop fac n v2 False st3" using True f(1) by (simp add: Let_def st3_def v2_def)
    have "length (x_p st3) \<le> length (x_p (x_next ?st))" using f(2) by (simp add: st3_def)
    then have "length (x_p st3) \<le> m" "length (x_p st3) < n" "length (x_p st3) \<le> length (x_p st)" using calculation by linarith+
    then show ?thesis using Suc.IH [of st3 v2 False] unfolding e by fastforce
  qed (use l in \<open>simp add: Let_def\<close>)
qed simp

lemma x_term_ends:
  assumes "fac_ends m fac" "length (x_p st) < m" "length (x_p st) < n"
  shows "\<exists>v' st'. x_term fac n sign st = Some (v', st') \<and> length (x_p st') \<le> length (x_p st)"
proof -
  obtain v st2 where f: "fac sign st = Some (v, st2)" "length (x_p st2) \<le> length (x_p st)" by (rule fac_endsE [OF assms(1,2)])
  then have "length (x_p st2) \<le> m" "length (x_p st2) < n" using assms(2,3) by simp_all
  from term_loop_ends [OF assms(1) this, of v "xrl_moved (xrl_snap st) st2"] f show ?thesis by (auto simp: x_term_def)
qed

lemma add_loop_ends:
  assumes "fac_ends m fac" "length (x_p st) \<le> m" "length (x_p st) \<le> k" "length (x_p st) < n"
  shows "\<exists>v' st'. add_loop fac k n v st = Some (v', st') \<and> length (x_p st') \<le> length (x_p st)"
  using assms(2-4)
proof (induction n arbitrary: v st)
  case (Suc n)
  let ?st = "x_skip st"
  have l: "length (x_p ?st) \<le> length (x_p st)" by (rule skip_length)
  have "\<exists>r st2. x_term fac k sg (x_next ?st) = Some (r, st2) \<and> length (x_p st2) < length (x_p st)" if "x_cur ?st = CHR ''+'' \<or> x_cur ?st = CHR ''-''" for sg
  proof -
    have "x_cur ?st \<noteq> CHR 0x00" using that by auto
    then have n: "length (x_p (x_next ?st)) < length (x_p st)" by (rule next_shorter)
    then have "length (x_p (x_next ?st)) < m" "length (x_p (x_next ?st)) < k" using Suc.prems by linarith+
    from x_term_ends [OF assms(1) this, of sg] n show ?thesis by fastforce
  qed
  then obtain r st2 where t: "x_cur ?st = CHR ''+'' \<or> x_cur ?st = CHR ''-'' \<Longrightarrow> x_term fac k (if x_cur ?st = CHR ''+'' then 1 else -1) (x_next ?st) = Some (r, st2) \<and> length (x_p st2) < length (x_p st)"
    by blast
  show ?case
  proof (cases "x_cur ?st = CHR ''+'' \<or> x_cur ?st = CHR ''-''")
    case True
    then have e: "add_loop fac k (Suc n) v st = add_loop fac k n (if x_cur ?st = CHR ''+'' then v + r else v - r) st2" using t [OF True] by (auto simp: Let_def)
    have "length (x_p st2) < length (x_p st)" using t [OF True] by blast
    then have "length (x_p st2) \<le> m" "length (x_p st2) \<le> k" "length (x_p st2) < n" "length (x_p st2) \<le> length (x_p st)" using Suc.prems by linarith+
    then show ?thesis using Suc.IH [of st2 "if x_cur ?st = CHR ''+'' then v + r else v - r"] unfolding e by fastforce
  qed (use l in \<open>simp add: Let_def\<close>)
qed simp

lemma x_add_ends:
  assumes "fac_ends m fac" "length (x_p st) < m" "length (x_p st) < n"
  shows "\<exists>v' st'. x_add fac n st = Some (v', st') \<and> length (x_p st') \<le> length (x_p st)"
proof -
  obtain v st2 where t: "x_term fac n 1 st = Some (v, st2)" "length (x_p st2) \<le> length (x_p st)" using x_term_ends [OF assms] by blast
  then show ?thesis using add_loop_ends [OF assms(1), of st2 n n v] assms(2,3) by (auto simp: x_add_def intro: order_trans)
qed

lemma x_factor_ends: "fac_ends n (x_factor n A)"
proof (induction n)
  case (Suc n)
  show ?case unfolding fac_ends_def
  proof (intro allI impI)
    fix sign and st :: xst assume len: "length (x_p st) < Suc n"
    let ?st = "x_skip st"
    have l: "length (x_p ?st) \<le> length (x_p st)" by (rule skip_length)
    have nx: "length (x_p (x_next ?st)) < n" "length (x_p (x_next ?st)) \<le> length (x_p st)" if "x_cur ?st \<noteq> CHR 0x00" using next_shorter [OF that] len by linarith+
    show "\<exists>v st'. x_factor (Suc n) A sign st = Some (v, st') \<and> length (x_p st') \<le> length (x_p st)"
    proof (cases "x_cur ?st = CHR ''(''")
      case True
      then have "length (x_p (x_open ?st)) < n" using nx by simp
      then obtain v st2 where "x_add (x_factor n A) n (x_open ?st) = Some (v, st2)" "length (x_p st2) \<le> length (x_p (x_open ?st))"
        using x_add_ends [OF Suc.IH] by blast
      moreover have "length (x_p (x_close sign ?st st2)) \<le> length (x_p st2)"
        using length_dropWhile_le [of "\<lambda>c. c = CHR '' ''" "x_p st2"] by (auto simp: x_close_def Let_def)
      ultimately show ?thesis using True l by (auto simp: Let_def intro: order_trans)
    next
      case F: False
      show ?thesis
      proof (cases "x_cur ?st = CHR ''-'' \<or> x_cur ?st = CHR ''+''")
        case True
        then have "length (x_p (x_next ?st)) < n" using nx by auto
        then obtain v v' st1 st1' where f: "x_factor n A (- sign) (x_next ?st) = Some (v, st1)" "length (x_p st1) \<le> length (x_p (x_next ?st))"
          "x_factor n A sign (x_next ?st) = Some (v', st1')" "length (x_p st1') \<le> length (x_p (x_next ?st))"
          using Suc.IH unfolding fac_ends_def by blast
        have "length (x_p (x_next ?st)) \<le> length (x_p st)" using nx(2) True by auto
        then have "length (x_p st1) \<le> length (x_p st)" "length (x_p st1') \<le> length (x_p st)" using f(2,4) by linarith+
        then show ?thesis using True F f(1,3) by (auto simp: Let_def)
      next
        case False
        then show ?thesis using F l leaf_length [of A sign ?st] by (cases "x_leaf_term A sign ?st") (auto simp: Let_def x_loc_def)
      qed
    qed
  qed
qed (simp add: fac_ends_def)

text \<open>Evaluation returns on every text: the fuel is enough.\<close>

lemma x_add_returns: "x_add (x_factor (x_fuel e) A) (x_fuel e) (x_skip (x_start e)) \<noteq> None"
proof -
  have "length (x_p (x_skip (x_start e))) < x_fuel e" using skip_length [of "x_start e"] by (simp add: x_fuel_def x_start_def)
  then show ?thesis using x_add_ends [OF x_factor_ends] by fastforce
qed

subsection \<open>The tally of sections\<close>

definition lookup :: "(nat \<times> int) list \<Rightarrow> nat \<Rightarrow> int" where
  "lookup xs s = (case map_of xs s of Some c \<Rightarrow> c | None \<Rightarrow> 0)"

definition grows :: "(nat \<times> int) list \<Rightarrow> (nat \<times> int) list \<Rightarrow> bool" where
  "grows xs ys \<longleftrightarrow> distinct (map fst ys) \<and> (\<exists>ks. map fst ys = map fst xs @ ks)"

lemma grows_trans: "grows xs ys \<Longrightarrow> grows ys zs \<Longrightarrow> grows xs zs"
  by (auto simp: grows_def)

lemma grows_distinct: "grows xs ys \<Longrightarrow> distinct (map fst xs)"
  by (auto simp: grows_def)

lemma lookup_nth: "distinct (map fst xs) \<Longrightarrow> k < length xs \<Longrightarrow> lookup xs (fst (xs ! k)) = snd (xs ! k)"
  by (simp add: lookup_def map_of_eq_Some_iff [of xs "fst (xs ! k)" "snd (xs ! k)", THEN iffD2])

lemma lookup_outside: "s \<notin> set (map fst xs) \<Longrightarrow> lookup xs s = 0"
  by (simp add: lookup_def map_of_eq_None_iff [THEN iffD2])

lemma grows_keys: "grows xs ys \<Longrightarrow> set (map fst xs) \<subseteq> set (map fst ys)"
  unfolding grows_def by (metis Un_upper1 set_append)

lemma grows_snap:
  assumes "grows xs ys" "k < length ys"
  shows "snap_at (map snd xs) k = lookup xs (fst (ys ! k))"
proof -
  obtain ks where ks: "map fst ys = map fst xs @ ks" "distinct (map fst xs @ ks)" using assms(1) by (auto simp: grows_def)
  have f: "fst (ys ! k) = (map fst xs @ ks) ! k" using assms(2) ks(1) nth_map [of k ys fst] by simp
  show ?thesis
  proof (cases "k < length xs")
    case True
    then show ?thesis using f lookup_nth [of xs k] ks(2) by (simp add: snap_at_def nth_append)
  next
    case False
    have "length ys = length xs + length ks" using arg_cong [OF ks(1), of length] by simp
    then have "k - length xs < length ks" using assms(2) False by linarith
    then have "fst (ys ! k) \<in> set ks" using f False by (simp add: nth_append)
    then have "fst (ys ! k) \<notin> set (map fst xs)" using ks(2) by auto
    then show ?thesis using False by (simp add: snap_at_def lookup_outside)
  qed
qed

lemma moved_iff:
  assumes "grows (x_sect st) (x_sect st')"
  shows "xrl_moved (xrl_snap st) st' \<longleftrightarrow> (\<exists>s. lookup (x_sect st') s \<noteq> lookup (x_sect st) s)"
proof -
  let ?xs = "x_sect st" and ?ys = "x_sect st'"
  have d: "distinct (map fst ?ys)" "set (map fst ?xs) \<subseteq> set (map fst ?ys)" using assms grows_keys [OF assms] by (simp_all add: grows_def)
  have "xrl_moved (xrl_snap st) st' \<longleftrightarrow> (\<exists>k<length ?ys. lookup ?ys (fst (?ys ! k)) \<noteq> lookup ?xs (fst (?ys ! k)))"
    using grows_snap [OF assms] lookup_nth [OF d(1)] by (auto simp: xrl_moved_def xrl_snap_def list_ex_iff)
  also have "\<dots> \<longleftrightarrow> (\<exists>s. lookup ?ys s \<noteq> lookup ?xs s)"
  proof
    assume "\<exists>s. lookup ?ys s \<noteq> lookup ?xs s"
    then obtain s where s: "lookup ?ys s \<noteq> lookup ?xs s" by blast
    then have "s \<in> set (map fst ?ys)" using d(2) lookup_outside by (metis subsetD)
    then obtain k where "k < length ?ys" "s = fst (?ys ! k)" by (auto simp: in_set_conv_nth)
    then show "\<exists>k<length ?ys. lookup ?ys (fst (?ys ! k)) \<noteq> lookup ?xs (fst (?ys ! k))" using s by blast
  qed blast
  finally show ?thesis .
qed

lemma negate_lookup:
  assumes "grows (x_sect st) (x_sect st')"
  shows "grows (x_sect st) (x_sect (xrl_negate_since (xrl_snap st) st'))"
    "lookup (x_sect (xrl_negate_since (xrl_snap st) st')) s = 2 * lookup (x_sect st) s - lookup (x_sect st') s"
    "map fst (x_sect (xrl_negate_since (xrl_snap st) st')) = map fst (x_sect st')"
proof -
  let ?xs = "x_sect st" and ?ys = "x_sect st'" and ?zs = "x_sect (xrl_negate_since (xrl_snap st) st')"
  have d: "distinct (map fst ?ys)" using assms by (simp add: grows_def)
  have z: "?zs = map (\<lambda>k. (fst (?ys ! k), 2 * lookup ?xs (fst (?ys ! k)) - lookup ?ys (fst (?ys ! k)))) [0..<length ?ys]"
    using grows_snap [OF assms] lookup_nth [OF d] by (auto simp: xrl_negate_since_def xrl_snap_def Let_def split_beta)
  show f: "map fst ?zs = map fst ?ys" unfolding z by (rule nth_equalityI) simp_all
  then show g: "grows ?xs ?zs" using assms by (simp add: grows_def)
  show "lookup ?zs s = 2 * lookup ?xs s - lookup ?ys s"
  proof (cases "s \<in> set (map fst ?ys)")
    case True
    then obtain k where k: "k < length ?ys" "s = fst (?ys ! k)" by (auto simp: in_set_conv_nth)
    have "distinct (map fst ?zs)" "length ?zs = length ?ys" using g unfolding grows_def by (simp_all add: z)
    then show ?thesis using lookup_nth [of ?zs k] k by (simp add: z)
  next
    case False
    then have "s \<notin> set (map fst ?xs)" "s \<notin> set (map fst ?zs)" using grows_keys [OF assms] f by auto
    then show ?thesis using lookup_outside False by simp
  qed
qed

lemma tally_lookup:
  fixes st :: xst and sign :: int and sect s :: nat
  assumes "distinct (map fst (x_sect st))" "set (map fst (x_sect st)) \<subseteq> S" "finite S" "card S \<le> 64" "sect \<in> S"
  defines "st' \<equiv> xsect_tally sect sign st"
  shows "grows (x_sect st) (x_sect st')" "set (map fst (x_sect st')) \<subseteq> S" "x_ovf st' = x_ovf st"
    "lookup (x_sect st') s = lookup (x_sect st) s + (if s = sect then sign else 0)"
proof -
  let ?xs = "x_sect st"
  have f: "map fst (map (\<lambda>(s, c). (s, if s = sect then c + sign else c)) ?xs) = map fst ?xs" by (induction ?xs) auto
  have room: "length ?xs < 64" if "sect \<notin> set (map fst ?xs)"
  proof -
    have "card (set (map fst ?xs)) < card S" using assms(2,3,5) that by (intro psubset_card_mono) auto
    then show ?thesis using assms(4) distinct_card [OF assms(1)] by simp
  qed
  have "x_sect st' = (if sect \<in> set (map fst ?xs) then map (\<lambda>(s, c). (s, if s = sect then c + sign else c)) ?xs else ?xs @ [(sect, sign)]) \<and> x_ovf st' = x_ovf st"
    using room by (simp add: st'_def xsect_tally_def)
  then have e: "x_sect st' = (if sect \<in> set (map fst ?xs) then map (\<lambda>(s, c). (s, if s = sect then c + sign else c)) ?xs else ?xs @ [(sect, sign)])" "x_ovf st' = x_ovf st" by blast+
  show "x_ovf st' = x_ovf st" by (rule e(2))
  show "grows ?xs (x_sect st')" using assms(1) unfolding e(1) grows_def by (auto simp: f simp del: map_map)
  show "set (map fst (x_sect st')) \<subseteq> S" using assms(2,5) unfolding e(1) by (auto simp: f simp del: map_map)
  have m: "map_of (map (\<lambda>(s, c). (s, if s = sect then c + sign else c)) ys) s = map_option (\<lambda>c. if s = sect then c + sign else c) (map_of ys s)" for ys :: "(nat \<times> int) list"
    by (induction ys) auto
  show "lookup (x_sect st') s = lookup ?xs s + (if s = sect then sign else 0)"
  proof (cases "sect \<in> set (map fst ?xs)")
    case True
    then obtain c where "map_of ?xs sect = Some c" by (metis map_of_eq_None_iff list.set_map not_None_eq)
    then show ?thesis using True unfolding e(1) lookup_def by (cases "map_of ?xs s") (auto simp: m)
  next
    case False
    then have "map_of ?xs sect = None" by (simp add: map_of_eq_None_iff)
    then show ?thesis using False unfolding e(1) lookup_def by (auto simp: map_add_def split: option.split)
  qed
qed

end
