(* ===== verification/As_Expr_Sem.thy ===== *)
theory As_Expr_Sem
  imports As_Expr
begin

section \<open>as370: what an expression means\<close>

text \<open>
  Expression trees with the grammar of the evaluator, their text, their value and their relocation: how often each
  section's address counts into the value. The text of a tree evaluates to the tree's value; the tallies the
  evaluator keeps are the tree's relocation; and moving the sections moves the value by as much as the relocation says.
\<close>

subsection \<open>Trees\<close>

datatype xfac = Num nat | Loc | Symb string | Grp xadd | Neg xfac | Pos xfac
and xtrm = Fac xfac | Mul xtrm xfac | Div xtrm xfac
and xadd = Trm xtrm | Plus xadd xtrm | Minus xadd xtrm

primrec pr_f :: "xfac \<Rightarrow> string" and pr_t :: "xtrm \<Rightarrow> string" and pr_a :: "xadd \<Rightarrow> string" where
  "pr_f (Num n) = dec_digits n"
| "pr_f Loc = ''*''"
| "pr_f (Symb s) = s"
| "pr_f (Grp e) = CHR ''('' # pr_a e @ '')''"
| "pr_f (Neg f) = CHR ''-'' # pr_f f"
| "pr_f (Pos f) = CHR ''+'' # pr_f f"
| "pr_t (Fac f) = pr_f f"
| "pr_t (Mul t f) = pr_t t @ CHR ''*'' # pr_f f"
| "pr_t (Div t f) = pr_t t @ CHR ''/'' # pr_f f"
| "pr_a (Trm t) = pr_t t"
| "pr_a (Plus e t) = pr_a e @ CHR ''+'' # pr_t t"
| "pr_a (Minus e t) = pr_a e @ CHR ''-'' # pr_t t"

text \<open>Numbers fit a \<^verbatim>\<open>long\<close>, names are ordinary symbols.\<close>

definition name_char :: "char \<Rightarrow> bool" where
  "name_char c \<longleftrightarrow> is_alpha c \<or> is_digit c \<or> is_national c"

definition sym_text :: "string \<Rightarrow> bool" where
  "sym_text s \<longleftrightarrow> s \<noteq> [] \<and> \<not> is_digit (hd s) \<and> list_all name_char s \<and> length s \<le> 63"

primrec wf_f :: "xfac \<Rightarrow> bool" and wf_t :: "xtrm \<Rightarrow> bool" and wf_a :: "xadd \<Rightarrow> bool" where
  "wf_f (Num n) \<longleftrightarrow> int n \<le> LONG_MAX"
| "wf_f Loc \<longleftrightarrow> True"
| "wf_f (Symb s) \<longleftrightarrow> sym_text s"
| "wf_f (Grp e) \<longleftrightarrow> wf_a e"
| "wf_f (Neg f) \<longleftrightarrow> wf_f f"
| "wf_f (Pos f) \<longleftrightarrow> wf_f f"
| "wf_t (Fac f) \<longleftrightarrow> wf_f f"
| "wf_t (Mul t f) \<longleftrightarrow> wf_t t \<and> wf_f f"
| "wf_t (Div t f) \<longleftrightarrow> wf_t t \<and> wf_f f"
| "wf_a (Trm t) \<longleftrightarrow> wf_t t"
| "wf_a (Plus e t) \<longleftrightarrow> wf_a e \<and> wf_t t"
| "wf_a (Minus e t) \<longleftrightarrow> wf_a e \<and> wf_t t"

text \<open>How deep groups nest, and how many terms there are.\<close>

primrec nest_f :: "xfac \<Rightarrow> nat" and nest_t :: "xtrm \<Rightarrow> nat" and nest_a :: "xadd \<Rightarrow> nat" where
  "nest_f (Num n) = 0"
| "nest_f Loc = 0"
| "nest_f (Symb s) = 0"
| "nest_f (Grp e) = nest_a e + 1"
| "nest_f (Neg f) = nest_f f"
| "nest_f (Pos f) = nest_f f"
| "nest_t (Fac f) = nest_f f"
| "nest_t (Mul t f) = max (nest_t t) (nest_f f)"
| "nest_t (Div t f) = max (nest_t t) (nest_f f)"
| "nest_a (Trm t) = nest_t t"
| "nest_a (Plus e t) = max (nest_a e) (nest_t t)"
| "nest_a (Minus e t) = max (nest_a e) (nest_t t)"

primrec leaves_f :: "xfac \<Rightarrow> nat" and leaves_t :: "xtrm \<Rightarrow> nat" and leaves_a :: "xadd \<Rightarrow> nat" where
  "leaves_f (Num n) = 1"
| "leaves_f Loc = 1"
| "leaves_f (Symb s) = 1"
| "leaves_f (Grp e) = leaves_a e"
| "leaves_f (Neg f) = leaves_f f"
| "leaves_f (Pos f) = leaves_f f"
| "leaves_t (Fac f) = leaves_f f"
| "leaves_t (Mul t f) = leaves_t t + leaves_f f"
| "leaves_t (Div t f) = leaves_t t + leaves_f f"
| "leaves_a (Trm t) = leaves_t t"
| "leaves_a (Plus e t) = leaves_a e + leaves_t t"
| "leaves_a (Minus e t) = leaves_a e + leaves_t t"

definition small_expr :: "xadd \<Rightarrow> bool" where
  "small_expr e \<longleftrightarrow> wf_a e \<and> nest_a e \<le> 6 \<and> leaves_a e \<le> 20"

subsection \<open>Value and relocation\<close>

definition sym_value :: "asm \<Rightarrow> string \<Rightarrow> int" where
  "sym_value A nm = (case find_sym A nm of None \<Rightarrow> 0 | Some s \<Rightarrow> if sy_type s = S_ER \<and> \<not> sym_known s then 0 else sy_val s)"

definition sym_rel :: "asm \<Rightarrow> string \<Rightarrow> nat option" where
  "sym_rel A nm = (case find_sym A nm of None \<Rightarrow> None
   | Some s \<Rightarrow> if \<not> (sy_type s = S_ER \<and> \<not> sym_known s) \<and> reloc_type (sy_type s) then Some (sy_sect s) else None)"

primrec den_f :: "asm \<Rightarrow> xfac \<Rightarrow> int" and den_t :: "asm \<Rightarrow> xtrm \<Rightarrow> int" and den_a :: "asm \<Rightarrow> xadd \<Rightarrow> int" where
  "den_f A (Num n) = int n"
| "den_f A Loc = lc A"
| "den_f A (Symb s) = sym_value A s"
| "den_f A (Grp e) = den_a A e"
| "den_f A (Neg f) = - den_f A f"
| "den_f A (Pos f) = den_f A f"
| "den_t A (Fac f) = den_f A f"
| "den_t A (Mul t f) = den_t A t * den_f A f"
| "den_t A (Div t f) = (if den_f A f = 0 then 0 else den_t A t sdiv den_f A f)"
| "den_a A (Trm t) = den_t A t"
| "den_a A (Plus e t) = den_a A e + den_t A t"
| "den_a A (Minus e t) = den_a A e - den_t A t"

text \<open>The count of a section, with the sign a factor stands under: 0 on the right of a product or quotient.\<close>

primrec rel_f :: "asm \<Rightarrow> xfac \<Rightarrow> int \<Rightarrow> nat \<Rightarrow> int" and rel_t :: "asm \<Rightarrow> xtrm \<Rightarrow> int \<Rightarrow> nat \<Rightarrow> int" and rel_a :: "asm \<Rightarrow> xadd \<Rightarrow> nat \<Rightarrow> int" where
  "rel_f A (Num n) sg s = 0"
| "rel_f A Loc sg s = (if s = cur_sect_id A then sg else 0)"
| "rel_f A (Symb nm) sg s = (if sym_rel A nm = Some s then sg else 0)"
| "rel_f A (Grp e) sg s = (if sg < 0 then - rel_a A e s else rel_a A e s)"
| "rel_f A (Neg f) sg s = rel_f A f (- sg) s"
| "rel_f A (Pos f) sg s = rel_f A f sg s"
| "rel_t A (Fac f) sg s = rel_f A f sg s"
| "rel_t A (Mul t f) sg s = rel_t A t sg s + rel_f A f 0 s"
| "rel_t A (Div t f) sg s = rel_t A t sg s + rel_f A f 0 s"
| "rel_a A (Trm t) s = rel_t A t 1 s"
| "rel_a A (Plus e t) s = rel_a A e s + rel_t A t 1 s"
| "rel_a A (Minus e t) s = rel_a A e s + rel_t A t (-1) s"

text \<open>Whether the evaluator notices a relocatable operand of a product or quotient.\<close>

primrec left_rel :: "asm \<Rightarrow> xtrm \<Rightarrow> int \<Rightarrow> bool" where
  "left_rel A (Fac f) sg \<longleftrightarrow> (\<exists>s. rel_f A f sg s \<noteq> 0)"
| "left_rel A (Mul t f) sg \<longleftrightarrow> False"
| "left_rel A (Div t f) sg \<longleftrightarrow> False"

primrec mul_f :: "asm \<Rightarrow> xfac \<Rightarrow> int \<Rightarrow> bool" and mul_t :: "asm \<Rightarrow> xtrm \<Rightarrow> int \<Rightarrow> bool" and mul_a :: "asm \<Rightarrow> xadd \<Rightarrow> bool" where
  "mul_f A (Num n) sg \<longleftrightarrow> False"
| "mul_f A Loc sg \<longleftrightarrow> False"
| "mul_f A (Symb nm) sg \<longleftrightarrow> False"
| "mul_f A (Grp e) sg \<longleftrightarrow> mul_a A e"
| "mul_f A (Neg f) sg \<longleftrightarrow> mul_f A f (- sg)"
| "mul_f A (Pos f) sg \<longleftrightarrow> mul_f A f sg"
| "mul_t A (Fac f) sg \<longleftrightarrow> mul_f A f sg"
| "mul_t A (Mul t f) sg \<longleftrightarrow> mul_t A t sg \<or> mul_f A f 0 \<or> left_rel A t sg \<or> (\<exists>s. rel_f A f 0 s \<noteq> 0)"
| "mul_t A (Div t f) sg \<longleftrightarrow> mul_t A t sg \<or> mul_f A f 0 \<or> left_rel A t sg \<or> (\<exists>s. rel_f A f 0 s \<noteq> 0)"
| "mul_a A (Trm t) \<longleftrightarrow> mul_t A t 1"
| "mul_a A (Plus e t) \<longleftrightarrow> mul_a A e \<or> mul_t A t 1"
| "mul_a A (Minus e t) \<longleftrightarrow> mul_a A e \<or> mul_t A t (-1)"

subsection \<open>Characters\<close>

lemma is_digit_dec: "is_digit c \<longleftrightarrow> is_dec (ascii c)"
  by (simp add: is_digit_def is_dec_def)

lemma digits_all: "list_all is_digit (dec_digits n)"
  using dec_digits_num [of n] by (auto simp: list_all_iff is_digit_dec str_bytes_def)

lemma digits_val_digits: "digits_val 10 (dec_digits n) = n"
proof -
  have "fold (\<lambda>b v. v * 10 + (unat b - 48)) (str_bytes s) z = fold (\<lambda>c v. v * 10 + (of_char c - 48)) s z" for s z
    by (induction s arbitrary: z) (simp_all add: unat_ascii)
  then show ?thesis using dec_digits_fold [of n] by (simp add: digits_val_def)
qed

lemma digit_char: "is_digit c \<Longrightarrow> 48 \<le> (of_char c :: nat) \<and> (of_char c :: nat) \<le> 57"
  by (simp add: is_digit_def word_le_nat_alt unat_ascii)

lemma name_char_code: "name_char c \<Longrightarrow> (of_char c :: nat) \<in> {48..57} \<union> {65..90} \<union> {97..122} \<union> {35, 36, 64}"
  by (auto simp: name_char_def is_alpha_def is_digit_def is_national_def Let_def word_le_nat_alt unat_ascii)

lemma name_char_plain:
  assumes "name_char c" shows "\<not> x_delim c" "c \<noteq> CHR 0x27" "c \<noteq> CHR 0x00"
proof -
  have "\<not> x_delim c \<and> c \<noteq> CHR 0x27 \<and> c \<noteq> CHR 0x00"
    using name_char_code [OF assms] by (auto simp: x_delim_def)
  then show "\<not> x_delim c" "c \<noteq> CHR 0x27" "c \<noteq> CHR 0x00" by simp_all
qed

lemma digit_name_char: "is_digit c \<Longrightarrow> name_char c"
  by (simp add: name_char_def)

text \<open>What may follow a term, and what may follow an expression.\<close>

definition stops :: "string \<Rightarrow> bool" where
  "stops r \<longleftrightarrow> r = [] \<or> hd r \<in> set ''+-*/)(,''"

definition ends_sum :: "string \<Rightarrow> bool" where
  "ends_sum r \<longleftrightarrow> r = [] \<or> hd r \<in> set '')(,''"

lemma stops_plain: "stops r \<Longrightarrow> r \<noteq> [] \<Longrightarrow> x_delim (hd r) \<and> hd r \<noteq> CHR '' '' \<and> \<not> is_digit (hd r) \<and> hd r \<noteq> CHR 0x27"
  by (auto simp: stops_def x_delim_def is_digit_def ascii_def)

lemma ends_stops: "ends_sum r \<Longrightarrow> stops r"
  by (auto simp: ends_sum_def stops_def)

subsection \<open>The evaluator follows the tree\<close>

definition x_sections :: "asm \<Rightarrow> nat set" where
  "x_sections A = set (cur_sect_id A # map sy_sect (syms A))"

definition ready :: "asm \<Rightarrow> xst \<Rightarrow> bool" where
  "ready A st \<longleftrightarrow> distinct (map fst (x_sect st)) \<and> set (map fst (x_sect st)) \<subseteq> x_sections A \<and> \<not> x_syn st"

text \<open>From one state to a later one: what is left of the text, the relocation added, the terms read, a product flagged.\<close>

definition xdone :: "asm \<Rightarrow> xst \<Rightarrow> xst \<Rightarrow> string \<Rightarrow> (nat \<Rightarrow> int) \<Rightarrow> nat \<Rightarrow> bool \<Rightarrow> bool" where
  "xdone A st st' rest r n mb \<longleftrightarrow>
    x_p st' = rest \<and> grows (x_sect st) (x_sect st') \<and> set (map fst (x_sect st')) \<subseteq> x_sections A \<and> x_ovf st' = x_ovf st
    \<and> (\<forall>s. lookup (x_sect st') s = lookup (x_sect st) s + r s) \<and> x_rl st' = x_rl st + sum r (x_sections A)
    \<and> x_depth st' = x_depth st \<and> x_deep st' = x_deep st \<and> x_leaf st' = x_leaf st + n \<and> x_syn st' = x_syn st
    \<and> x_badsdt st' = x_badsdt st \<and> x_mulrel st' = (x_mulrel st \<or> mb)"

lemma finite_sections [simp]: "finite (x_sections A)"
  by (simp add: x_sections_def)

lemma xdone_ready: "xdone A st st' rest r n mb \<Longrightarrow> ready A st \<Longrightarrow> ready A st'"
  by (auto simp: xdone_def ready_def grows_def)

lemma xdone_trans:
  assumes "xdone A st st1 rest1 r1 n1 mb1" "xdone A (x_next st1) st2 rest2 r2 n2 mb2"
  shows "xdone A st st2 rest2 (\<lambda>s. r1 s + r2 s) (n1 + n2) (mb1 \<or> mb2)"
proof -
  have "x_sect (x_next st1) = x_sect st1" "x_rl (x_next st1) = x_rl st1" by (simp_all add: x_next_def)
  then show ?thesis using assms grows_trans [of "x_sect st" "x_sect st1" "x_sect st2"] by (auto simp: xdone_def x_next_def sum.distrib)
qed

lemma ready_next: "ready A (x_next st) = ready A st"
  by (simp add: ready_def x_next_def)

lemma x_skip_id: "x_p st = c # p \<Longrightarrow> c \<noteq> CHR '' '' \<Longrightarrow> x_skip st = st" "x_p st = [] \<Longrightarrow> x_skip st = st"
  by (simp_all add: x_skip_def)

lemma x_skip_cur: "x_cur st \<noteq> CHR '' '' \<Longrightarrow> x_skip st = st"
  by (cases "x_p st") (auto simp: x_cur_def intro: x_skip_id)

lemma skip_stops: "x_p st = rest \<Longrightarrow> stops rest \<Longrightarrow> x_skip st = st"
  by (cases rest) (auto simp: stops_def intro: x_skip_id)

lemma x_curI: "x_p st = c # p \<Longrightarrow> x_cur st = c"
  by (simp add: x_cur_def)

lemma tally_done:
  assumes "ready A st" "card (x_sections A) \<le> 64" "sect \<in> x_sections A" "x_p st = p"
  shows "xdone A st (xsect_tally sect sg (st\<lparr>x_p := rest, x_rl := x_rl st + sg, x_terms := k, x_leaf := x_leaf st + 1, x_undef := u, x_notes := ns\<rparr>)) rest
    (\<lambda>s. if s = sect then sg else 0) 1 False"
proof -
  let ?st = "st\<lparr>x_p := rest, x_rl := x_rl st + sg, x_terms := k, x_leaf := x_leaf st + 1, x_undef := u, x_notes := ns\<rparr>"
  have d: "distinct (map fst (x_sect ?st))" "set (map fst (x_sect ?st)) \<subseteq> x_sections A" using assms(1) by (simp_all add: ready_def)
  note t = tally_lookup [OF d finite_sections assms(2,3), of sg]
  have o: "x_rl (xsect_tally sect sg ?st) = x_rl st + sg" "x_depth (xsect_tally sect sg ?st) = x_depth st" "x_deep (xsect_tally sect sg ?st) = x_deep st"
    "x_leaf (xsect_tally sect sg ?st) = x_leaf st + 1" "x_syn (xsect_tally sect sg ?st) = x_syn st" "x_badsdt (xsect_tally sect sg ?st) = x_badsdt st"
    "x_mulrel (xsect_tally sect sg ?st) = x_mulrel st" by (simp_all add: xsect_tally_def)
  show ?thesis using t o assms(3) by (simp add: xdone_def)
qed

lemma plain_done:
  assumes "ready A st"
  shows "xdone A st (st\<lparr>x_p := rest, x_leaf := x_leaf st + 1, x_undef := u, x_notes := ns\<rparr>) rest (\<lambda>s. 0) 1 False"
  using assms by (simp add: xdone_def ready_def grows_def)

lemma leaf_counted:
  assumes "name_char (x_cur st)" "ready A st"
  shows "x_leaf_term A sg st = (let st1 = st\<lparr>x_leaf := x_leaf st + 1\<rparr> in
    if is_digit (x_cur st) then (strtol10 (x_p st), st1\<lparr>x_p := dropWhile is_digit (x_p st)\<rparr>)
    else if x_cur st = CHR ''L'' \<and> x_peek st = CHR 0x27 then x_lattr A st1
    else if (x_cur st = CHR ''X'' \<or> x_cur st = CHR ''B'' \<or> x_cur st = CHR ''C'') \<and> x_peek st = CHR 0x27 then x_selfdef st1
    else x_symbol A sg st1)"
proof -
  have c: "(if x_syn st then st else if is_alpha (x_cur st) \<or> is_digit (x_cur st) \<or> is_national (x_cur st) \<or> x_cur st = CHR ''='' then st\<lparr>x_leaf := x_leaf st + 1\<rparr> else st\<lparr>x_syn := True\<rparr>)
      = st\<lparr>x_leaf := x_leaf st + 1\<rparr>" using assms unfolding name_char_def ready_def by (simp only: if_False if_True simp_thms) auto
  have "x_peek (st\<lparr>x_leaf := x_leaf st + 1\<rparr>) = x_peek st" "x_p (st\<lparr>x_leaf := x_leaf st + 1\<rparr>) = x_p st" by (simp_all add: x_peek_def)
  then show ?thesis unfolding x_leaf_term_def Let_def c by (simp only:)
qed

lemma num_leaf:
  assumes "ready A st" "x_p st = dec_digits n @ rest" "stops rest" "int n \<le> LONG_MAX"
  shows "is_digit (x_cur st)" "\<exists>st'. x_leaf_term A sg st = (int n, st') \<and> xdone A st st' rest (\<lambda>_. 0) 1 False"
proof -
  obtain d ds where d: "dec_digits n = d # ds" using dec_digits_nonempty [of n] by (cases "dec_digits n") auto
  show dg: "is_digit (x_cur st)" using digits_all [of n] assms(2) d by (simp add: x_cur_def)
  have "takeWhile is_digit (dec_digits n @ rest) = dec_digits n" "dropWhile is_digit (dec_digits n @ rest) = rest"
    using digits_all [of n] stops_plain [OF assms(3)] by (cases rest; simp add: list_all_iff takeWhile_append dropWhile_append)+
  then have "x_leaf_term A sg st = (int n, st\<lparr>x_p := rest, x_leaf := x_leaf st + 1, x_undef := x_undef st, x_notes := x_notes st\<rparr>)"
    using leaf_counted [OF digit_name_char [OF dg] assms(1), of sg] dg assms(2,4) by (simp add: Let_def strtol10_def digits_val_digits min_def)
  then show "\<exists>st'. x_leaf_term A sg st = (int n, st') \<and> xdone A st st' rest (\<lambda>_. 0) 1 False" using plain_done [OF assms(1)] by blast
qed

lemma x_name_sym: "sym_text nm \<Longrightarrow> stops rest \<Longrightarrow> x_name (nm @ rest) = nm"
proof -
  assume a: "sym_text nm" "stops rest"
  have "takeWhile (\<lambda>c. \<not> x_delim c) (nm @ rest) = nm"
    using a(1) name_char_plain(1) stops_plain [OF a(2)] by (cases rest) (auto simp: sym_text_def list_all_iff takeWhile_append)
  then show ?thesis using a(1) by (simp add: x_name_def sym_text_def)
qed

lemma sect_in: "find_sym A nm = Some s \<Longrightarrow> sy_sect s \<in> x_sections A"
  by (auto simp: find_sym_def sym_find_def x_sections_def find_Some_iff)

lemma sym_leaf:
  assumes "ready A st" "x_p st = nm @ rest" "stops rest" "sym_text nm" "card (x_sections A) \<le> 64"
  shows "name_char (x_cur st)" "\<not> is_digit (x_cur st)"
    "\<exists>st'. x_leaf_term A sg st = (sym_value A nm, st') \<and> xdone A st st' rest (\<lambda>s. if sym_rel A nm = Some s then sg else 0) 1 False"
proof -
  obtain c cs where c: "nm = c # cs" "name_char c" "list_all name_char cs" "\<not> is_digit c" using assms(4) by (cases nm) (auto simp: sym_text_def)
  show nc: "name_char (x_cur st)" and nd: "\<not> is_digit (x_cur st)" using c assms(2) by (simp_all add: x_cur_def)
  have pk: "x_peek st \<noteq> CHR 0x27"
  proof (cases cs)
    case Nil
    then show ?thesis using assms(2) c(1) stops_plain [OF assms(3)] by (cases rest) (auto simp: x_peek_def)
  next
    case (Cons d ds)
    then show ?thesis using assms(2) c name_char_plain(2) [of d] by (simp add: x_peek_def)
  qed
  let ?s = "find_sym A nm"
  define st1 where "st1 = (let st = st\<lparr>x_leaf := x_leaf st + 1, x_p := rest\<rparr> in if known ?s then st else x_unknown A nm st)"
  have "st1 = st\<lparr>x_p := rest, x_leaf := x_leaf st + 1, x_undef := x_undef st1, x_notes := x_notes st1\<rparr>"
    by (simp add: st1_def x_unknown_def Let_def)
  then obtain u ns where st1: "st1 = st\<lparr>x_p := rest, x_leaf := x_leaf st + 1, x_undef := u, x_notes := ns\<rparr>" by blast
  have e: "x_leaf_term A sg st = (case ?s of None \<Rightarrow> (0, st1)
      | Some s \<Rightarrow> if sy_type s = S_ER \<and> \<not> sym_known s then (0, st1)
          else if reloc_type (sy_type s) then (sy_val s, xsect_tally (sy_sect s) sg (st1\<lparr>x_rl := x_rl st1 + sg, x_terms := x_terms st1 + 1\<rparr>)) else (sy_val s, st1))"
  proof -
    have l: "x_leaf_term A sg st = x_symbol A sg (st\<lparr>x_leaf := x_leaf st + 1\<rparr>)"
      using leaf_counted [OF nc assms(1), of sg] nd pk unfolding Let_def by (simp only: if_False simp_thms)
    have q: "x_p (st\<lparr>x_leaf := x_leaf st + 1\<rparr>) = nm @ rest" using assms(2) by simp
    have n: "x_name (nm @ rest) = nm" "drop (length nm) (nm @ rest) = rest" using x_name_sym [OF assms(4,3)] by simp_all
    show ?thesis unfolding l x_symbol_def Let_def q n st1_def by (rule refl)
  qed
  note pl = plain_done [OF assms(1), where rest = rest and u = u and ns = ns]
  have pd: "xdone A st st1 rest (\<lambda>s. if sym_rel A nm = Some s then sg else 0) 1 False" if "sym_rel A nm = None" using pl that by (simp add: st1)
  show "\<exists>st'. x_leaf_term A sg st = (sym_value A nm, st') \<and> xdone A st st' rest (\<lambda>s. if sym_rel A nm = Some s then sg else 0) 1 False"
  proof (cases "sym_rel A nm")
    case None
    then show ?thesis using pd [OF None] by (cases ?s) (auto simp: e sym_value_def sym_rel_def split: if_splits)
  next
    case (Some sec)
    then obtain s where s: "?s = Some s" "\<not> (sy_type s = S_ER \<and> \<not> sym_known s)" "reloc_type (sy_type s)" "sec = sy_sect s"
      by (auto simp: sym_rel_def split: option.splits if_splits)
    have eq: "(\<lambda>t. if sym_rel A nm = Some t then sg else 0) = (\<lambda>t. if t = sy_sect s then sg else 0)" using Some s(4) by auto
    have o: "st1\<lparr>x_rl := x_rl st1 + sg, x_terms := x_terms st1 + 1\<rparr>
        = st\<lparr>x_p := rest, x_rl := x_rl st + sg, x_terms := x_terms st1 + 1, x_leaf := x_leaf st + 1, x_undef := u, x_notes := ns\<rparr>"
      by (cases st) (simp add: st1)
    have "xdone A st (xsect_tally (sy_sect s) sg (st1\<lparr>x_rl := x_rl st1 + sg, x_terms := x_terms st1 + 1\<rparr>)) rest (\<lambda>t. if t = sy_sect s then sg else 0) 1 False"
      unfolding o by (rule tally_done [OF assms(1,5) sect_in [OF s(1)] refl])
    then show ?thesis using s e by (auto simp: sym_value_def eq)
  qed
qed

text \<open>One factor, one term up to the loop behind it, one sum up to the loop behind it.\<close>

definition reads_f :: "asm \<Rightarrow> xfac \<Rightarrow> bool" where
  "reads_f A f \<longleftrightarrow> (\<forall>n sg st rest. ready A st \<longrightarrow> x_p st = pr_f f @ rest \<longrightarrow> stops rest \<longrightarrow> length (x_p st) < n \<longrightarrow> x_depth st + nest_f f \<le> 6 \<longrightarrow>
    (\<exists>st'. x_factor n A sg st = Some (den_f A f, st') \<and> xdone A st st' rest (rel_f A f sg) (leaves_f f) (mul_f A f sg)))"

definition reads_t :: "asm \<Rightarrow> xtrm \<Rightarrow> bool" where
  "reads_t A t \<longleftrightarrow> (\<forall>m n sg st rest. ready A st \<longrightarrow> x_p st = pr_t t @ rest \<longrightarrow> stops rest \<longrightarrow> length (x_p st) < m \<longrightarrow> length (x_p st) < n \<longrightarrow> x_depth st + nest_t t \<le> 6 \<longrightarrow>
    (\<exists>k st'. length rest < k \<and> x_term (x_factor m A) n sg st = term_loop (x_factor m A) k (den_t A t) (left_rel A t sg) st'
       \<and> xdone A st st' rest (rel_t A t sg) (leaves_t t) (mul_t A t sg)))"

definition reads_a :: "asm \<Rightarrow> xadd \<Rightarrow> bool" where
  "reads_a A e \<longleftrightarrow> (\<forall>m n st rest. ready A st \<longrightarrow> x_p st = pr_a e @ rest \<longrightarrow> (ends_sum rest \<or> hd rest = CHR ''+'' \<or> hd rest = CHR ''-'') \<longrightarrow>
    length (x_p st) < m \<longrightarrow> length (x_p st) < n \<longrightarrow> x_depth st + nest_a e \<le> 6 \<longrightarrow>
    (\<exists>k st'. length rest < k \<and> x_add (x_factor m A) n st = add_loop (x_factor m A) n k (den_a A e) st'
       \<and> xdone A st st' rest (rel_a A e) (leaves_a e) (mul_a A e)))"

lemma term_loop_stop:
  assumes "x_p st = rest" "ends_sum rest \<or> hd rest = CHR ''+'' \<or> hd rest = CHR ''-''" "0 < k"
  shows "term_loop fac k v l st = Some (v, st)"
proof -
  obtain k' where k: "k = Suc k'" using assms(3) by (cases k) auto
  have "stops rest" using assms(2) by (auto simp: stops_def ends_sum_def)
  then have s: "x_skip st = st" using skip_stops [OF assms(1)] by blast
  have "x_cur st \<noteq> CHR ''*'' \<and> x_cur st \<noteq> CHR ''/''" using assms(1,2) by (cases rest) (auto simp: x_cur_def ends_sum_def)
  then show ?thesis by (simp add: k s Let_def)
qed

lemma add_loop_stop:
  assumes "x_p st = rest" "ends_sum rest" "0 < k"
  shows "add_loop fac n k v st = Some (v, st)"
proof -
  obtain k' where k: "k = Suc k'" using assms(3) by (cases k) auto
  have s: "x_skip st = st" using skip_stops [OF assms(1) ends_stops [OF assms(2)]] .
  have "x_cur st \<noteq> CHR ''+'' \<and> x_cur st \<noteq> CHR ''-''" using assms(1,2) by (cases rest) (auto simp: x_cur_def ends_sum_def)
  then show ?thesis by (simp add: k s Let_def)
qed

lemma reads_grp:
  assumes "reads_a A e" shows "reads_f A (Grp e)"
  unfolding reads_f_def
proof (intro allI impI)
  fix n sg and st :: xst and rest
  assume h: "ready A st" "x_p st = pr_f (Grp e) @ rest" "stops rest" "length (x_p st) < n" "x_depth st + nest_f (Grp e) \<le> 6"
  obtain n' where n: "n = Suc n'" using h(4) by (cases n) auto
  have s: "x_skip st = st" "x_cur st = CHR ''(''" using h(2) by (auto intro: x_skip_id simp: x_cur_def)
  have o: "x_p (x_open st) = pr_a e @ (CHR '')'' # rest)" "ready A (x_open st)" "x_depth (x_open st) + nest_a e \<le> 6" "length (x_p (x_open st)) < n'"
    using h n by (auto simp: x_open_def ready_def)
  have "ends_sum (CHR '')'' # rest)" by (simp add: ends_sum_def)
  then obtain k st2 where k: "length (CHR '')'' # rest) < k" "x_add (x_factor n' A) n' (x_open st) = add_loop (x_factor n' A) n' k (den_a A e) st2"
    "xdone A (x_open st) st2 (CHR '')'' # rest) (rel_a A e) (leaves_a e) (mul_a A e)"
    using assms o unfolding reads_a_def by blast
  have p2: "x_p st2 = CHR '')'' # rest" using k(3) by (simp add: xdone_def)
  have "x_add (x_factor n' A) n' (x_open st) = Some (den_a A e, st2)" unfolding k(2) by (rule add_loop_stop [OF p2]) (use k(1) in \<open>auto simp: ends_sum_def\<close>)
  then have x: "x_factor n A sg st = Some (den_a A e, x_close sg st st2)" using s by (simp add: n Let_def)
  have d: "grows (x_sect st) (x_sect st2)" "set (map fst (x_sect st2)) \<subseteq> x_sections A" "x_ovf st2 = x_ovf st" "\<And>t. lookup (x_sect st2) t = lookup (x_sect st) t + rel_a A e t"
    "x_rl st2 = sum (rel_a A e) (x_sections A)" "x_depth st2 = x_depth st + 1" "x_deep st2 = x_deep st" "x_leaf st2 = x_leaf st + leaves_a e" "x_syn st2 = x_syn st"
    "x_badsdt st2 = x_badsdt st" "x_mulrel st2 = (x_mulrel st \<or> mul_a A e)"
    using k(3) h(5) by (auto simp: xdone_def x_open_def)
  have "xdone A st (x_close sg st st2) rest (rel_f A (Grp e) sg) (leaves_a e) (mul_a A e)"
  proof (cases "sg < 0")
    case True
    define st3 where "st3 = st2\<lparr>x_depth := x_depth st, x_rl := x_rl st - x_rl st2\<rparr>"
    define st4 where "st4 = xrl_negate_since (xrl_snap st) st3"
    have g: "grows (x_sect st) (x_sect st3)" using d(1) by (simp add: st3_def)
    note ng = negate_lookup [OF g]
    have f4: "x_p st4 = CHR '')'' # rest" "x_depth st4 = x_depth st" "x_rl st4 = x_rl st - x_rl st2" "x_ovf st4 = x_ovf st" "x_deep st4 = x_deep st" "x_leaf st4 = x_leaf st + leaves_a e"
      "x_syn st4 = x_syn st" "x_badsdt st4 = x_badsdt st" "x_mulrel st4 = (x_mulrel st \<or> mul_a A e)" using p2 d by (simp_all add: st4_def st3_def xrl_negate_since_def)
    have s4: "x_skip st4 = st4" "x_cur st4 = CHR '')''" using f4(1) by (auto intro: x_skip_id simp: x_cur_def)
    have c: "x_close sg st st2 = x_next st4" using True d(6) s4 by (simp add: x_close_def Let_def st4_def [symmetric] st3_def [symmetric])
    have "lookup (x_sect st4) t = lookup (x_sect st) t + - rel_a A e t" for t using ng(2) [of t] d(4) [of t] by (simp add: st4_def st3_def)
    moreover have "set (map fst (x_sect st4)) \<subseteq> x_sections A" "grows (x_sect st) (x_sect st4)" using ng(1,3) d(2) by (simp_all add: st4_def st3_def)
    ultimately show ?thesis using True f4 d(5) unfolding c by (simp add: xdone_def x_next_def sum_negf)
  next
    case False
    define st3 where "st3 = st2\<lparr>x_depth := x_depth st, x_rl := x_rl st + x_rl st2\<rparr>"
    have s3: "x_skip st3 = st3" "x_cur st3 = CHR '')''" using p2 by (auto intro: x_skip_id simp: x_cur_def st3_def)
    have c: "x_close sg st st2 = x_next st3" using False d(6) s3 by (simp add: x_close_def Let_def st3_def [symmetric])
    show ?thesis using False d p2 unfolding c by (simp add: xdone_def x_next_def st3_def)
  qed
  then show "\<exists>st'. x_factor n A sg st = Some (den_f A (Grp e), st') \<and> xdone A st st' rest (rel_f A (Grp e) sg) (leaves_f (Grp e)) (mul_f A (Grp e) sg)"
    using x by simp
qed

definition sum_follow :: "string \<Rightarrow> bool" where
  "sum_follow r \<longleftrightarrow> ends_sum r \<or> hd r = CHR ''+'' \<or> hd r = CHR ''-''"

lemma reads_fD:
  assumes "reads_f A f" "ready A st" "x_p st = pr_f f @ rest" "stops rest" "length (x_p st) < n" "x_depth st + nest_f f \<le> 6"
  obtains st' where "x_factor n A sg st = Some (den_f A f, st')" "xdone A st st' rest (rel_f A f sg) (leaves_f f) (mul_f A f sg)"
  using assms unfolding reads_f_def by blast

lemma xdone_next:
  assumes "ready A st" "x_p st = c # p" "xdone A (x_next st) st' rest r n mb" shows "xdone A st st' rest r n mb"
  using assms by (simp add: xdone_def x_next_def)

lemma rel_leaf: "rel_f A (Num n) sg = (\<lambda>_. 0)" "rel_f A (Symb nm) sg = (\<lambda>s. if sym_rel A nm = Some s then sg else 0)"
  by (simp_all add: fun_eq_iff)

lemma reads_num: "int n \<le> LONG_MAX \<Longrightarrow> reads_f A (Num n)"
  unfolding reads_f_def
proof (intro allI impI)
  fix m sg and st :: xst and rest
  assume w: "int n \<le> LONG_MAX" and h: "ready A st" "x_p st = pr_f (Num n) @ rest" "stops rest" "length (x_p st) < m" "x_depth st + nest_f (Num n) \<le> 6"
  obtain k where m: "m = Suc k" using h(4) by (cases m) auto
  have q: "x_p st = dec_digits n @ rest" using h(2) by simp
  note l = num_leaf [OF h(1) q h(3) w]
  have c: "x_cur st \<notin> set ''(*-+ ''" using name_char_code [OF digit_name_char [OF l(1)]] by auto
  have s: "x_skip st = st" using c by (intro x_skip_cur) auto
  have "x_factor m A sg st = Some (x_leaf_term A sg st)" using c by (simp add: m s Let_def)
  then show "\<exists>st'. x_factor m A sg st = Some (den_f A (Num n), st') \<and> xdone A st st' rest (rel_f A (Num n) sg) (leaves_f (Num n)) (mul_f A (Num n) sg)"
    using l(2) [of sg] rel_leaf(1) [of A n sg] by auto
qed

lemma reads_symb: "sym_text nm \<Longrightarrow> card (x_sections A) \<le> 64 \<Longrightarrow> reads_f A (Symb nm)"
  unfolding reads_f_def
proof (intro allI impI)
  fix m sg and st :: xst and rest
  assume w: "sym_text nm" "card (x_sections A) \<le> 64" and h: "ready A st" "x_p st = pr_f (Symb nm) @ rest" "stops rest" "length (x_p st) < m" "x_depth st + nest_f (Symb nm) \<le> 6"
  obtain k where m: "m = Suc k" using h(4) by (cases m) auto
  have q: "x_p st = nm @ rest" using h(2) by simp
  note l = sym_leaf [OF h(1) q h(3) w]
  have c: "x_cur st \<notin> set ''(*-+ ''" using name_char_code [OF l(1)] by auto
  have s: "x_skip st = st" using c by (intro x_skip_cur) auto
  have "x_factor m A sg st = Some (x_leaf_term A sg st)" using c by (simp add: m s Let_def)
  then show "\<exists>st'. x_factor m A sg st = Some (den_f A (Symb nm), st') \<and> xdone A st st' rest (rel_f A (Symb nm) sg) (leaves_f (Symb nm)) (mul_f A (Symb nm) sg)"
    using l(3) [of sg] rel_leaf(2) [of A nm sg] by auto
qed

lemma reads_loc: "card (x_sections A) \<le> 64 \<Longrightarrow> reads_f A Loc"
  unfolding reads_f_def
proof (intro allI impI)
  fix m sg and st :: xst and rest
  assume w: "card (x_sections A) \<le> 64" and h: "ready A st" "x_p st = pr_f Loc @ rest" "stops rest" "length (x_p st) < m" "x_depth st + nest_f Loc \<le> 6"
  obtain k where m: "m = Suc k" using h(4) by (cases m) auto
  have s: "x_skip st = st" "x_cur st = CHR ''*''" using h(2) by (auto simp: x_cur_def intro: x_skip_id)
  have "\<not> x_syn st" using h(1) by (simp add: ready_def)
  then have o: "(if x_syn st then st else st\<lparr>x_leaf := x_leaf st + 1\<rparr>)\<lparr>x_p := tl (x_p st), x_rl := x_rl st + sg, x_terms := x_terms st + 1\<rparr>
      = st\<lparr>x_p := rest, x_rl := x_rl st + sg, x_terms := x_terms st + 1, x_leaf := x_leaf st + 1, x_undef := x_undef st, x_notes := x_notes st\<rparr>"
    using h(2) by (cases st) simp
  have "x_loc A sg st = (lc A, xsect_tally (cur_sect_id A) sg
      (st\<lparr>x_p := rest, x_rl := x_rl st + sg, x_terms := x_terms st + 1, x_leaf := x_leaf st + 1, x_undef := x_undef st, x_notes := x_notes st\<rparr>))"
    unfolding o [symmetric] using \<open>\<not> x_syn st\<close> by (simp add: x_loc_def Let_def)
  moreover have "cur_sect_id A \<in> x_sections A" by (simp add: x_sections_def)
  moreover have "x_factor m A sg st = Some (x_loc A sg st)" using s by (simp add: m Let_def)
  moreover have "rel_f A Loc sg = (\<lambda>s. if s = cur_sect_id A then sg else 0)" by (simp add: fun_eq_iff)
  ultimately show "\<exists>st'. x_factor m A sg st = Some (den_f A Loc, st') \<and> xdone A st st' rest (rel_f A Loc sg) (leaves_f Loc) (mul_f A Loc sg)"
    using tally_done [OF h(1) w _ refl, of "cur_sect_id A" sg "x_notes st" "x_undef st" "x_terms st + 1" rest] by simp
qed

lemma reads_sign:
  assumes "reads_f A f" shows "reads_f A (Neg f)" "reads_f A (Pos f)"
proof -
  have "\<exists>st'. x_factor n A sg st = Some (den_f A g, st') \<and> xdone A st st' rest (rel_f A g sg) (leaves_f g) (mul_f A g sg)"
    if g: "g = Neg f \<or> g = Pos f" and h: "ready A st" "x_p st = pr_f g @ rest" "stops rest" "length (x_p st) < n" "x_depth st + nest_f g \<le> 6"
    for g n sg rest and st :: xst
  proof -
    obtain k where n: "n = Suc k" using h(4) by (cases n) auto
    define c where "c = (if g = Neg f then CHR ''-'' else CHR ''+'')"
    have p: "x_p st = c # pr_f f @ rest" using g h(2) by (auto simp: c_def)
    have s: "x_skip st = st" "x_cur st = c" using p g by (auto simp: x_cur_def c_def intro: x_skip_id)
    have x: "ready A (x_next st)" "x_p (x_next st) = pr_f f @ rest" "length (x_p (x_next st)) < k" "x_depth (x_next st) + nest_f f \<le> 6"
      using h g p n by (auto simp: ready_next) (auto simp: x_next_def)
    obtain st' where st': "x_factor k A (if g = Neg f then - sg else sg) (x_next st) = Some (den_f A f, st')"
      "xdone A (x_next st) st' rest (rel_f A f (if g = Neg f then - sg else sg)) (leaves_f f) (mul_f A f (if g = Neg f then - sg else sg))"
      by (rule reads_fD [OF assms x(1,2) h(3) x(3,4)])
    have d: "xdone A st st' rest (rel_f A f (if g = Neg f then - sg else sg)) (leaves_f f) (mul_f A f (if g = Neg f then - sg else sg))"
      by (rule xdone_next [OF h(1) p st'(2)])
    have e: "rel_f A (Neg f) sg = rel_f A f (- sg)" "rel_f A (Pos f) sg = rel_f A f sg" by (simp_all add: fun_eq_iff)
    show ?thesis using g st'(1) d s by (auto simp: n Let_def c_def e)
  qed
  then show "reads_f A (Neg f)" "reads_f A (Pos f)" unfolding reads_f_def by blast+
qed

lemma reads_fac:
  assumes "reads_f A f" shows "reads_t A (Fac f)"
  unfolding reads_t_def
proof (intro allI impI)
  fix m n sg and st :: xst and rest
  assume h: "ready A st" "x_p st = pr_t (Fac f) @ rest" "stops rest" "length (x_p st) < m" "length (x_p st) < n" "x_depth st + nest_t (Fac f) \<le> 6"
  have q: "x_p st = pr_f f @ rest" "x_depth st + nest_f f \<le> 6" using h by simp_all
  obtain st' where st': "x_factor m A sg st = Some (den_f A f, st')" "xdone A st st' rest (rel_f A f sg) (leaves_f f) (mul_f A f sg)"
    by (rule reads_fD [OF assms h(1) q(1) h(3,4) q(2)])
  have "xrl_moved (xrl_snap st) st' \<longleftrightarrow> left_rel A (Fac f) sg" using st'(2) moved_iff [of st st'] by (simp add: xdone_def)
  moreover have "rel_t A (Fac f) sg = rel_f A f sg" by (simp add: fun_eq_iff)
  ultimately show "\<exists>k st'. length rest < k \<and> x_term (x_factor m A) n sg st = term_loop (x_factor m A) k (den_t A (Fac f)) (left_rel A (Fac f) sg) st'
       \<and> xdone A st st' rest (rel_t A (Fac f) sg) (leaves_t (Fac f)) (mul_t A (Fac f) sg)"
    using st' h(5) q(1) by (intro exI [of _ n] exI [of _ st']) (simp add: x_term_def)
qed

lemma xdone_flag: "xdone A st st' rest r n mb \<Longrightarrow> xdone A st (if b then st'\<lparr>x_mulrel := True\<rparr> else st') rest r n (mb \<or> b)"
  by (simp add: xdone_def)

lemma term_loop_step:
  assumes "x_skip st = st" "x_cur st = c" "c = CHR ''*'' \<or> c = CHR ''/''" "fac 0 (x_next st) = Some (r, st2)"
  shows "term_loop fac (Suc n) v l st = term_loop fac n (if c = CHR ''*'' then v * r else if r = 0 then 0 else v sdiv r) False
     (if l \<or> xrl_moved (xrl_snap (x_next st)) st2 then st2\<lparr>x_mulrel := True\<rparr> else st2)"
  unfolding term_loop.simps Let_def assms(1,2,4) using assms(3) by simp

lemma add_loop_step:
  assumes "x_skip st = st" "x_cur st = c" "c = CHR ''+'' \<or> c = CHR ''-''" "x_term fac m (if c = CHR ''+'' then 1 else -1) (x_next st) = Some (r, st2)"
  shows "add_loop fac m (Suc n) v st = add_loop fac m n (if c = CHR ''+'' then v + r else v - r) st2"
  unfolding add_loop.simps Let_def assms(1,2) using assms(3,4) by auto

lemma reads_muldiv:
  assumes "reads_t A t" "reads_f A f" and u: "u = Mul t f \<or> u = Div t f" shows "reads_t A u"
  unfolding reads_t_def
proof (intro allI impI)
  fix m n sg and st :: xst and rest
  assume h: "ready A st" "x_p st = pr_t u @ rest" "stops rest" "length (x_p st) < m" "length (x_p st) < n" "x_depth st + nest_t u \<le> 6"
  define c where "c = (if u = Mul t f then CHR ''*'' else CHR ''/'')"
  define rest1 where "rest1 = c # pr_f f @ rest"
  have p: "x_p st = pr_t t @ rest1" "x_depth st + nest_t t \<le> 6" "x_depth st + nest_f f \<le> 6" using u h by (auto simp: c_def rest1_def)
  have sp: "stops rest1" by (simp add: stops_def rest1_def c_def)
  obtain k st1 where k: "length rest1 < k" "x_term (x_factor m A) n sg st = term_loop (x_factor m A) k (den_t A t) (left_rel A t sg) st1"
    "xdone A st st1 rest1 (rel_t A t sg) (leaves_t t) (mul_t A t sg)"
    using assms(1) h(1,4,5) p(1,2) sp unfolding reads_t_def by blast
  have p1: "x_p st1 = rest1" "x_depth st1 = x_depth st" using k(3) by (simp_all add: xdone_def)
  have s: "x_skip st1 = st1" "x_cur st1 = c" using p1 skip_stops sp by (auto simp: x_cur_def rest1_def)
  have r1: "ready A (x_next st1)" "x_p (x_next st1) = pr_f f @ rest" "length (x_p (x_next st1)) < m" "x_depth (x_next st1) + nest_f f \<le> 6"
    using xdone_ready [OF k(3) h(1)] p1 p h(4) by (simp_all add: ready_next) (simp_all add: x_next_def rest1_def)
  obtain st2 where f: "x_factor m A 0 (x_next st1) = Some (den_f A f, st2)" "xdone A (x_next st1) st2 rest (rel_f A f 0) (leaves_f f) (mul_f A f 0)"
    by (rule reads_fD [OF assms(2) r1(1,2) h(3) r1(3,4)])
  define b where "b \<longleftrightarrow> left_rel A t sg \<or> (\<exists>s. rel_f A f 0 s \<noteq> 0)"
  define st3 where "st3 = (if b then st2\<lparr>x_mulrel := True\<rparr> else st2)"
  have mv: "xrl_moved (xrl_snap (x_next st1)) st2 \<longleftrightarrow> (\<exists>s. rel_f A f 0 s \<noteq> 0)" using f(2) moved_iff [of "x_next st1" st2] by (simp add: xdone_def)
  obtain k' where k': "k = Suc k'" "length rest < k'" using k(1) by (cases k) (auto simp: rest1_def)
  have c2: "c = CHR ''*'' \<longleftrightarrow> u = Mul t f" "c = CHR ''*'' \<or> c = CHR ''/''" by (simp_all add: c_def)
  have v: "den_t A u = (if c = CHR ''*'' then den_t A t * den_f A f else if den_f A f = 0 then 0 else den_t A t sdiv den_f A f)" using u by (auto simp: c2(1))
  have "x_term (x_factor m A) n sg st = term_loop (x_factor m A) k' (den_t A u) (left_rel A u sg) st3"
    unfolding k(2) v k'(1) term_loop_step [where fac = "x_factor m A", OF s c2(2) f(1)] mv st3_def b_def using u by auto
  moreover have "xdone A st st3 rest (\<lambda>s. rel_t A t sg s + rel_f A f 0 s) (leaves_t t + leaves_f f) ((mul_t A t sg \<or> mul_f A f 0) \<or> b)"
    unfolding st3_def by (rule xdone_flag [OF xdone_trans [OF k(3) f(2)]])
  moreover have "rel_t A u sg = (\<lambda>s. rel_t A t sg s + rel_f A f 0 s)" "leaves_t u = leaves_t t + leaves_f f" "mul_t A u sg = ((mul_t A t sg \<or> mul_f A f 0) \<or> b)"
    using u by (auto simp: fun_eq_iff b_def)
  ultimately show "\<exists>k st'. length rest < k \<and> x_term (x_factor m A) n sg st = term_loop (x_factor m A) k (den_t A u) (left_rel A u sg) st'
       \<and> xdone A st st' rest (rel_t A u sg) (leaves_t u) (mul_t A u sg)" using k'(2) by (intro exI [of _ k'] exI [of _ st3]) simp
qed

lemma reads_tD:
  assumes "reads_t A t" "ready A st" "x_p st = pr_t t @ rest" "sum_follow rest" "length (x_p st) < m" "length (x_p st) < n" "x_depth st + nest_t t \<le> 6"
  obtains st' where "x_term (x_factor m A) n sg st = Some (den_t A t, st')" "xdone A st st' rest (rel_t A t sg) (leaves_t t) (mul_t A t sg)"
proof -
  have "stops rest" using assms(4) by (auto simp: sum_follow_def stops_def ends_sum_def)
  then obtain k st' where k: "length rest < k" "x_term (x_factor m A) n sg st = term_loop (x_factor m A) k (den_t A t) (left_rel A t sg) st'"
    "xdone A st st' rest (rel_t A t sg) (leaves_t t) (mul_t A t sg)"
    using assms(1-3,5-7) unfolding reads_t_def by blast
  have "x_p st' = rest" using k(3) by (simp add: xdone_def)
  then have "x_term (x_factor m A) n sg st = Some (den_t A t, st')" unfolding k(2)
    by (rule term_loop_stop) (use assms(4) k(1) in \<open>auto simp: sum_follow_def\<close>)
  then show ?thesis using k(3) that by blast
qed

lemma reads_trm:
  assumes "reads_t A t" shows "reads_a A (Trm t)"
  unfolding reads_a_def sum_follow_def [symmetric]
proof (intro allI impI)
  fix m n and st :: xst and rest
  assume h: "ready A st" "x_p st = pr_a (Trm t) @ rest" "sum_follow rest" "length (x_p st) < m" "length (x_p st) < n" "x_depth st + nest_a (Trm t) \<le> 6"
  have q: "x_p st = pr_t t @ rest" "x_depth st + nest_t t \<le> 6" using h by simp_all
  obtain st' where st': "x_term (x_factor m A) n 1 st = Some (den_t A t, st')" "xdone A st st' rest (rel_t A t 1) (leaves_t t) (mul_t A t 1)"
    by (rule reads_tD [OF assms h(1) q(1) h(3,4,5) q(2)])
  moreover have "rel_a A (Trm t) = rel_t A t 1" by (simp add: fun_eq_iff)
  ultimately show "\<exists>k st'. length rest < k \<and> x_add (x_factor m A) n st = add_loop (x_factor m A) n k (den_a A (Trm t)) st'
       \<and> xdone A st st' rest (rel_a A (Trm t)) (leaves_a (Trm t)) (mul_a A (Trm t))"
    using h(5) q(1) by (intro exI [of _ n] exI [of _ st']) (simp add: x_add_def)
qed

lemma reads_plusminus:
  assumes "reads_a A e" "reads_t A t" and u: "u = Plus e t \<or> u = Minus e t" shows "reads_a A u"
  unfolding reads_a_def sum_follow_def [symmetric]
proof (intro allI impI)
  fix m n and st :: xst and rest
  assume h: "ready A st" "x_p st = pr_a u @ rest" "sum_follow rest" "length (x_p st) < m" "length (x_p st) < n" "x_depth st + nest_a u \<le> 6"
  define c where "c = (if u = Plus e t then CHR ''+'' else CHR ''-'')"
  define sg :: int where "sg = (if u = Plus e t then 1 else -1)"
  define rest1 where "rest1 = c # pr_t t @ rest"
  have p: "x_p st = pr_a e @ rest1" "x_depth st + nest_a e \<le> 6" "x_depth st + nest_t t \<le> 6" using u h by (auto simp: c_def rest1_def)
  have sp: "sum_follow rest1" "stops rest1" by (simp_all add: sum_follow_def stops_def rest1_def c_def)
  obtain k st1 where k: "length rest1 < k" "x_add (x_factor m A) n st = add_loop (x_factor m A) n k (den_a A e) st1"
    "xdone A st st1 rest1 (rel_a A e) (leaves_a e) (mul_a A e)"
    using assms(1) h(1,4,5) p(1,2) sp(1) unfolding reads_a_def sum_follow_def by blast
  have p1: "x_p st1 = rest1" "x_depth st1 = x_depth st" using k(3) by (simp_all add: xdone_def)
  have s: "x_skip st1 = st1" "x_cur st1 = c" using p1 skip_stops sp(2) by (auto simp: x_cur_def rest1_def)
  have r1: "ready A (x_next st1)" "x_p (x_next st1) = pr_t t @ rest" "length (x_p (x_next st1)) < m" "length (x_p (x_next st1)) < n" "x_depth (x_next st1) + nest_t t \<le> 6"
    using xdone_ready [OF k(3) h(1)] p1 p h(4,5) by (simp_all add: ready_next) (simp_all add: x_next_def rest1_def)
  obtain st2 where f: "x_term (x_factor m A) n sg (x_next st1) = Some (den_t A t, st2)" "xdone A (x_next st1) st2 rest (rel_t A t sg) (leaves_t t) (mul_t A t sg)"
    by (rule reads_tD [OF assms(2) r1(1,2) h(3) r1(3,4,5)])
  obtain k' where k': "k = Suc k'" "length rest < k'" using k(1) by (cases k) (auto simp: rest1_def)
  have c2: "sg = (if c = CHR ''+'' then 1 else -1)" "c = CHR ''+'' \<or> c = CHR ''-''" by (simp_all add: c_def sg_def)
  have "x_add (x_factor m A) n st = add_loop (x_factor m A) n k' (den_a A u) st2"
    unfolding k(2) k'(1) add_loop_step [where fac = "x_factor m A", OF s c2(2) f(1) [unfolded c2(1)]] using u by (auto simp: c_def)
  moreover have "xdone A st st2 rest (\<lambda>s. rel_a A e s + rel_t A t sg s) (leaves_a e + leaves_t t) (mul_a A e \<or> mul_t A t sg)" by (rule xdone_trans [OF k(3) f(2)])
  moreover have "rel_a A u = (\<lambda>s. rel_a A e s + rel_t A t sg s)" "leaves_a u = leaves_a e + leaves_t t" "mul_a A u = (mul_a A e \<or> mul_t A t sg)"
    using u by (auto simp: fun_eq_iff sg_def)
  ultimately show "\<exists>k st'. length rest < k \<and> x_add (x_factor m A) n st = add_loop (x_factor m A) n k (den_a A u) st'
       \<and> xdone A st st' rest (rel_a A u) (leaves_a u) (mul_a A u)" using k'(2) by (intro exI [of _ k'] exI [of _ st2]) simp
qed

lemma reads_all:
  assumes "card (x_sections A) \<le> 64"
  shows "wf_f f \<Longrightarrow> reads_f A f" "wf_t t \<Longrightarrow> reads_t A t" "wf_a e \<Longrightarrow> reads_a A e"
  by (induction f and t and e)
    (auto intro: reads_num reads_symb reads_loc reads_grp reads_sign reads_fac reads_trm reads_muldiv reads_plusminus assms)

subsection \<open>The value of an expression text\<close>

definition plain_start :: "string \<Rightarrow> bool" where
  "plain_start s \<longleftrightarrow> s \<noteq> [] \<and> hd s \<noteq> CHR '' ''"

lemma plain_name: "name_char c \<Longrightarrow> c \<noteq> CHR '' ''"
  using name_char_code [of c] by auto

lemma pr_start: "wf_f f \<Longrightarrow> plain_start (pr_f f)" "wf_t t \<Longrightarrow> plain_start (pr_t t)" "wf_a e \<Longrightarrow> plain_start (pr_a e)"
proof (induction f and t and e)
  case (Num n)
  then show ?case using digits_all [of n] dec_digits_nonempty [of n] plain_name [OF digit_name_char]
    by (cases "dec_digits n") (auto simp: plain_start_def)
next
  case (Symb s)
  then show ?case using plain_name by (cases s) (auto simp: plain_start_def sym_text_def)
qed (simp_all add: plain_start_def)

lemma start_ready: "ready A (x_start e)"
  by (simp add: ready_def x_start_def)

lemma expr_done:
  assumes "small_expr e" "card (x_sections A) \<le> 64"
  obtains st where "expr_val_full A (pr_a e) = (den_a A e, sum (rel_a A e) (x_sections A), st)"
    "xdone A (x_start (pr_a e)) st [] (rel_a A e) (leaves_a e) (mul_a A e)"
proof -
  let ?s = "x_start (pr_a e)" and ?n = "x_fuel (pr_a e)"
  have w: "wf_a e" "nest_a e \<le> 6" "leaves_a e \<le> 20" using assms(1) by (simp_all add: small_expr_def)
  have p: "x_p ?s = pr_a e @ []" "length (x_p ?s) < ?n" "x_depth ?s + nest_a e \<le> 6" "ends_sum []" using w(2) by (simp_all add: x_start_def x_fuel_def ends_sum_def)
  have "reads_a A e" using reads_all(3) [OF assms(2)] w(1) .
  then obtain k st where k: "0 < k" "x_add (x_factor ?n A) ?n ?s = add_loop (x_factor ?n A) ?n k (den_a A e) st" "xdone A ?s st [] (rel_a A e) (leaves_a e) (mul_a A e)"
    using start_ready [of A "pr_a e"] p unfolding reads_a_def by (metis list.size(3))
  have q: "x_p st = []" using k(3) by (simp add: xdone_def)
  have a: "x_add (x_factor ?n A) ?n ?s = Some (den_a A e, st)" unfolding k(2) by (rule add_loop_stop [OF q p(4) k(1)])
  have i: "pr_a e \<noteq> []" "x_skip ?s = ?s" using pr_start(3) [OF w(1)] by (cases "pr_a e"; simp add: plain_start_def x_skip_def x_start_def)+
  have "\<not> x_bad st" "x_rl st = sum (rel_a A e) (x_sections A)" using k(3) w(3) by (simp_all add: xdone_def x_bad_def x_start_def)
  then have "expr_val_full A (pr_a e) = (den_a A e, sum (rel_a A e) (x_sections A), st)"
    using i a p(1) by (simp add: expr_val_full_def Let_def x_finish_def)
  then show ?thesis using k(3) that by blast
qed

text \<open>The class of a tally, by section: absolute when every section cancels, simply relocatable when one is left, once.\<close>

lemma filter_single: "distinct ks \<Longrightarrow> length (filter P ks) = 1 \<longleftrightarrow> (\<exists>!k. k \<in> set ks \<and> P k)"
proof (induction ks)
  case (Cons a ks)
  then show ?case by (cases "P a") (auto simp: filter_empty_conv)
qed auto

lemma class_by_section:
  assumes "distinct (map fst (x_sect st))" "\<not> x_ovf st"
  shows "xrl_class st = 0 \<longleftrightarrow> (\<forall>s. lookup (x_sect st) s = 0)"
    "xrl_class st = 1 \<Longrightarrow> \<exists>s. lookup (x_sect st) s = 1 \<and> (\<forall>t. t \<noteq> s \<longrightarrow> lookup (x_sect st) t = 0)"
proof -
  let ?xs = "x_sect st" and ?ks = "map fst (x_sect st)"
  have ms: "map snd ?xs = map (lookup ?xs) ?ks" using lookup_nth [OF assms(1)] by (intro nth_equalityI) simp_all
  define ones where "ones = length (filter (\<lambda>k. lookup ?xs k = 1) ?ks)"
  define other where "other = length (filter (\<lambda>k. lookup ?xs k \<noteq> 0 \<and> lookup ?xs k \<noteq> 1) ?ks)"
  have f: "length (filter (\<lambda>c. c = 1) (filter (\<lambda>c. c \<noteq> 0) (map snd ?xs))) = ones"
    "length (filter (\<lambda>c. c \<noteq> 1) (filter (\<lambda>c. c \<noteq> 0) (map snd ?xs))) = other"
    unfolding ms ones_def other_def by (simp_all add: filter_map o_def conj_commute cong: conj_cong)
  have c: "xrl_class st = (if ones = 0 \<and> other = 0 then 0 else if ones = 1 \<and> other = 0 then 1 else 2)"
    using assms(2) by (simp only: xrl_class_def Let_def f if_False)
  have o: "lookup ?xs s = 0" if "s \<notin> set ?ks" for s using that by (rule lookup_outside)
  have "(ones = 0 \<and> other = 0) \<longleftrightarrow> (\<forall>k\<in>set ?ks. lookup ?xs k = 0)"
    unfolding ones_def other_def length_0_conv filter_empty_conv by fastforce
  also have "\<dots> \<longleftrightarrow> (\<forall>s. lookup ?xs s = 0)" using o by blast
  finally show "xrl_class st = 0 \<longleftrightarrow> (\<forall>s. lookup ?xs s = 0)" unfolding c by auto
  show "\<exists>s. lookup ?xs s = 1 \<and> (\<forall>t. t \<noteq> s \<longrightarrow> lookup ?xs t = 0)" if "xrl_class st = 1"
  proof -
    have "(if P then 0 else if Q then 1 else 2) = (1::nat) \<Longrightarrow> Q" for P Q :: bool by (cases P; cases Q) simp_all
    then have oo: "ones = 1" "other = 0" using that unfolding c by blast+
    obtain k where k: "k \<in> set ?ks" "lookup ?xs k = 1" "\<And>k'. k' \<in> set ?ks \<Longrightarrow> lookup ?xs k' = 1 \<Longrightarrow> k' = k"
      using oo(1) unfolding ones_def filter_single [OF assms(1)] by blast
    have "lookup ?xs k' = 0 \<or> lookup ?xs k' = 1" if "k' \<in> set ?ks" for k'
      using oo(2) that unfolding other_def length_0_conv filter_empty_conv by blast
    then have "lookup ?xs t = 0" if "t \<noteq> k" for t using k(3) [of t] o [of t] that by blast
    then show ?thesis using k(2) by blast
  qed
qed

subsection \<open>Moving the sections\<close>

text \<open>The same assembly with every section \<open>s\<close> placed \<open>d s\<close> bytes further: relocatable symbols and the location counter follow.\<close>

definition counted_sym :: "sym \<Rightarrow> bool" where
  "counted_sym s \<longleftrightarrow> \<not> (sy_type s = S_ER \<and> \<not> sym_known s) \<and> reloc_type (sy_type s)"

definition shift_sym :: "(nat \<Rightarrow> int) \<Rightarrow> sym \<Rightarrow> sym" where
  "shift_sym d s = (if counted_sym s then s\<lparr>sy_val := sy_val s + d (sy_sect s)\<rparr> else s)"

definition displaced :: "asm \<Rightarrow> (nat \<Rightarrow> int) \<Rightarrow> asm" where
  "displaced A d = A\<lparr>syms := map (shift_sym d) (syms A), lc := lc A + d (cur_sect_id A)\<rparr>"

text \<open>No relocatable term stands by itself on the right of a product or quotient.\<close>

primrec bare :: "asm \<Rightarrow> xfac \<Rightarrow> bool" where
  "bare A (Num n) \<longleftrightarrow> False"
| "bare A Loc \<longleftrightarrow> True"
| "bare A (Symb nm) \<longleftrightarrow> sym_rel A nm \<noteq> None"
| "bare A (Grp e) \<longleftrightarrow> False"
| "bare A (Neg f) \<longleftrightarrow> bare A f"
| "bare A (Pos f) \<longleftrightarrow> bare A f"

primrec right_abs_f :: "asm \<Rightarrow> xfac \<Rightarrow> bool" and right_abs_t :: "asm \<Rightarrow> xtrm \<Rightarrow> bool" and right_abs_a :: "asm \<Rightarrow> xadd \<Rightarrow> bool" where
  "right_abs_f A (Num n) \<longleftrightarrow> True"
| "right_abs_f A Loc \<longleftrightarrow> True"
| "right_abs_f A (Symb nm) \<longleftrightarrow> True"
| "right_abs_f A (Grp e) \<longleftrightarrow> right_abs_a A e"
| "right_abs_f A (Neg f) \<longleftrightarrow> right_abs_f A f"
| "right_abs_f A (Pos f) \<longleftrightarrow> right_abs_f A f"
| "right_abs_t A (Fac f) \<longleftrightarrow> right_abs_f A f"
| "right_abs_t A (Mul t f) \<longleftrightarrow> right_abs_t A t \<and> right_abs_f A f \<and> \<not> bare A f"
| "right_abs_t A (Div t f) \<longleftrightarrow> right_abs_t A t \<and> right_abs_f A f \<and> \<not> bare A f"
| "right_abs_a A (Trm t) \<longleftrightarrow> right_abs_t A t"
| "right_abs_a A (Plus e t) \<longleftrightarrow> right_abs_a A e \<and> right_abs_t A t"
| "right_abs_a A (Minus e t) \<longleftrightarrow> right_abs_a A e \<and> right_abs_t A t"

lemma shift_fields [simp]: "sy_name (shift_sym d s) = sy_name s" "sy_type (shift_sym d s) = sy_type s" "sy_sect (shift_sym d s) = sy_sect s"
    "sym_known (shift_sym d s) = sym_known s"
  by (simp_all add: shift_sym_def sym_known_def)

lemma find_displaced: "find_sym (displaced A d) nm = map_option (shift_sym d) (find_sym A nm)"
proof -
  have "sym_find nm (displaced A d) = sym_find nm A" unfolding sym_find_def by (rule find_cong) (simp_all add: displaced_def)
  moreover have "i < length (syms A)" if "sym_find nm A = Some i" for i using that by (auto simp: sym_find_def find_Some_iff)
  ultimately show ?thesis by (cases "sym_find nm A") (simp_all add: find_sym_def displaced_def)
qed

lemma sections_displaced [simp]: "x_sections (displaced A d) = x_sections A"
  by (simp add: x_sections_def displaced_def image_image)

lemma value_displaced: "sym_value (displaced A d) nm = sym_value A nm + (case sym_rel A nm of None \<Rightarrow> 0 | Some s \<Rightarrow> d s)"
  by (cases "find_sym A nm") (auto simp: sym_value_def sym_rel_def find_displaced shift_sym_def counted_sym_def sym_known_def)

definition pull :: "asm \<Rightarrow> (nat \<Rightarrow> int) \<Rightarrow> (nat \<Rightarrow> int) \<Rightarrow> int" where
  "pull A d r = (\<Sum>s\<in>x_sections A. r s * d s)"

lemma pull_one: "sect \<in> x_sections A \<Longrightarrow> pull A d (\<lambda>s. if s = sect then c else 0) = c * d sect"
proof -
  assume "sect \<in> x_sections A"
  moreover have "(\<lambda>s. (if s = sect then c else 0) * d s) = (\<lambda>s. if s = sect then c * d s else 0)" by auto
  ultimately show ?thesis unfolding pull_def by (simp only: sum.delta [OF finite_sections] if_True)
qed

lemma pull_zero: "(\<And>s. r s = 0) \<Longrightarrow> pull A d r = 0"
  by (simp add: pull_def)

lemma pull_add: "pull A d (\<lambda>s. r s + q s) = pull A d r + pull A d q"
  by (simp add: pull_def sum.distrib distrib_right)

lemma pull_neg: "pull A d (\<lambda>s. - r s) = - pull A d r"
  by (simp add: pull_def sum_negf)

lemma pull_sym: "pull A d (\<lambda>s. if sym_rel A nm = Some s then c else 0) = (case sym_rel A nm of None \<Rightarrow> 0 | Some s \<Rightarrow> c * d s)"
proof (cases "sym_rel A nm")
  case (Some sec)
  then have "sec \<in> x_sections A" using sect_in by (auto simp: sym_rel_def split: option.splits if_splits)
  moreover have "(\<lambda>s. if sym_rel A nm = Some s then c else 0) = (\<lambda>s. if s = sec then c else 0)" using Some by auto
  ultimately show ?thesis using pull_one [of sec A d c] Some by simp
qed (simp add: pull_zero)

text \<open>A product or quotient that is not flagged leaves no relocation.\<close>

lemma unflagged_abs_aux:
  shows True "\<not> mul_t A t sg \<Longrightarrow> \<not> left_rel A t sg \<Longrightarrow> rel_t A t sg s = 0" True
  by (induction and t and) simp_all

lemmas unflagged_abs = unflagged_abs_aux(2)

text \<open>What moving the sections does to a factor, under a sign or on the right of a product; to a term; to a sum.\<close>

definition follows_f :: "asm \<Rightarrow> (nat \<Rightarrow> int) \<Rightarrow> xfac \<Rightarrow> bool" where
  "follows_f A d f \<longleftrightarrow> (\<forall>sg. \<not> mul_f A f sg \<longrightarrow> (sg = 1 \<or> sg = -1 \<longrightarrow> sg * (den_f (displaced A d) f - den_f A f) = pull A d (rel_f A f sg))
      \<and> (sg = 0 \<and> \<not> bare A f \<and> (\<forall>s. rel_f A f 0 s = 0) \<longrightarrow> den_f (displaced A d) f = den_f A f))"

definition follows_t :: "asm \<Rightarrow> (nat \<Rightarrow> int) \<Rightarrow> xtrm \<Rightarrow> bool" where
  "follows_t A d t \<longleftrightarrow> (\<forall>sg. \<not> mul_t A t sg \<longrightarrow> sg = 1 \<or> sg = -1 \<longrightarrow> sg * (den_t (displaced A d) t - den_t A t) = pull A d (rel_t A t sg))"

definition follows_a :: "asm \<Rightarrow> (nat \<Rightarrow> int) \<Rightarrow> xadd \<Rightarrow> bool" where
  "follows_a A d e \<longleftrightarrow> (\<not> mul_a A e \<longrightarrow> den_a (displaced A d) e - den_a A e = pull A d (rel_a A e))"

lemma follows_leaf: "follows_f A d (Num n)" "follows_f A d Loc" "follows_f A d (Symb nm)"
proof -
  show "follows_f A d (Num n)" by (simp add: follows_f_def pull_def)
  have "rel_f A Loc sg = (\<lambda>s. if s = cur_sect_id A then sg else 0)" "cur_sect_id A \<in> x_sections A" for sg by (simp_all add: fun_eq_iff x_sections_def)
  then show "follows_f A d Loc" using pull_one [of "cur_sect_id A" A d] by (auto simp: follows_f_def displaced_def)
  show "follows_f A d (Symb nm)" unfolding follows_f_def rel_leaf(2) pull_sym by (auto simp: value_displaced split: option.split)
qed

lemma follows_grp: "follows_a A d e \<Longrightarrow> follows_f A d (Grp e)"
proof -
  assume a: "follows_a A d e"
  have r: "rel_f A (Grp e) sg = (if sg < 0 then (\<lambda>s. - rel_a A e s) else rel_a A e)" for sg by (simp add: fun_eq_iff)
  show ?thesis using a unfolding follows_a_def follows_f_def r by (auto simp: pull_neg pull_zero)
qed

lemma follows_sign: "follows_f A d f \<Longrightarrow> follows_f A d (Neg f)" "follows_f A d f \<Longrightarrow> follows_f A d (Pos f)"
proof -
  have r: "rel_f A (Neg f) sg = rel_f A f (- sg)" "rel_f A (Pos f) sg = rel_f A f sg" for sg by (simp_all add: fun_eq_iff)
  show "follows_f A d (Pos f)" if "follows_f A d f" using that by (simp add: follows_f_def r)
  show "follows_f A d (Neg f)" if f: "follows_f A d f"
    unfolding follows_f_def r
  proof (intro allI impI)
    fix sg assume "\<not> mul_f A (Neg f) sg"
    then have "\<not> mul_f A f (- sg)" by simp
    with f have "(- sg = 1 \<or> - sg = -1 \<longrightarrow> - sg * (den_f (displaced A d) f - den_f A f) = pull A d (rel_f A f (- sg)))
      \<and> (- sg = 0 \<and> \<not> bare A f \<and> (\<forall>s. rel_f A f 0 s = 0) \<longrightarrow> den_f (displaced A d) f = den_f A f)" unfolding follows_f_def by blast
    then show "(sg = 1 \<or> sg = -1 \<longrightarrow> sg * (den_f (displaced A d) (Neg f) - den_f A (Neg f)) = pull A d (rel_f A f (- sg)))
      \<and> (sg = 0 \<and> \<not> bare A (Neg f) \<and> (\<forall>s. rel_f A f (- 0) s = 0) \<longrightarrow> den_f (displaced A d) (Neg f) = den_f A (Neg f))" by auto
  qed
qed

lemma follows_fac: "follows_f A d f \<Longrightarrow> follows_t A d (Fac f)"
proof -
  have r: "rel_t A (Fac f) sg = rel_f A f sg" for sg by (simp add: fun_eq_iff)
  show "follows_t A d (Fac f)" if "follows_f A d f" using that by (simp add: follows_t_def follows_f_def r)
qed

lemma follows_muldiv:
  assumes "follows_t A d t" "follows_f A d f" "\<not> bare A f" and u: "u = Mul t f \<or> u = Div t f" shows "follows_t A d u"
  unfolding follows_t_def
proof (intro allI impI)
  fix sg :: int assume m: "\<not> mul_t A u sg" and sg: "sg = 1 \<or> sg = -1"
  have n: "\<not> mul_t A t sg" "\<not> mul_f A f 0" "\<not> left_rel A t sg" "\<And>s. rel_f A f 0 s = 0" using m u by auto
  have z: "rel_t A t sg s = 0" for s by (rule unflagged_abs [OF n(1,3)])
  have "sg * (den_t (displaced A d) t - den_t A t) = 0" using assms(1) n(1) sg pull_zero [OF z] unfolding follows_t_def by auto
  then have t: "den_t (displaced A d) t = den_t A t" using sg by auto
  have f: "den_f (displaced A d) f = den_f A f" using assms(2,3) n(2,4) unfolding follows_f_def by blast
  have "rel_t A u sg s = 0" for s using u z n(4) by auto
  then have "pull A d (rel_t A u sg) = 0" by (rule pull_zero)
  moreover have "den_t (displaced A d) u = den_t A u" using u by (elim disjE) (simp_all only: den_t.simps t f)
  ultimately show "sg * (den_t (displaced A d) u - den_t A u) = pull A d (rel_t A u sg)" by simp
qed

lemma follows_sum:
  shows "follows_t A d t \<Longrightarrow> follows_a A d (Trm t)"
    "follows_a A d e \<Longrightarrow> follows_t A d t \<Longrightarrow> follows_a A d (Plus e t)"
    "follows_a A d e \<Longrightarrow> follows_t A d t \<Longrightarrow> follows_a A d (Minus e t)"
proof -
  have r: "rel_a A (Trm t) = rel_t A t 1" "rel_a A (Plus e t) = (\<lambda>s. rel_a A e s + rel_t A t 1 s)" "rel_a A (Minus e t) = (\<lambda>s. rel_a A e s + rel_t A t (-1) s)"
    by (simp_all add: fun_eq_iff)
  have ft: "\<not> mul_t A t sg \<Longrightarrow> sg = 1 \<or> sg = -1 \<Longrightarrow> pull A d (rel_t A t sg) = sg * (den_t (displaced A d) t - den_t A t)" if "follows_t A d t" for sg
    using that unfolding follows_t_def by (metis (no_types))
  show "follows_t A d t \<Longrightarrow> follows_a A d (Trm t)" using ft [of 1] by (simp add: follows_a_def r)
  show "follows_a A d e \<Longrightarrow> follows_t A d t \<Longrightarrow> follows_a A d (Plus e t)" using ft [of 1] by (simp add: follows_a_def r pull_add)
  show "follows_a A d e \<Longrightarrow> follows_t A d t \<Longrightarrow> follows_a A d (Minus e t)" using ft [of "-1"] by (simp add: follows_a_def r pull_add)
qed

lemma follows_all:
  shows "right_abs_f A f \<Longrightarrow> follows_f A d f" "right_abs_t A t \<Longrightarrow> follows_t A d t" "right_abs_a A e \<Longrightarrow> follows_a A d e"
  by (induction f and t and e) (auto intro: follows_leaf follows_grp follows_sign follows_fac follows_muldiv follows_sum)

subsection \<open>Properties\<close>

definition demo_expr_sym :: "string \<Rightarrow> int \<Rightarrow> nat \<Rightarrow> sym" where
  "demo_expr_sym nm v sec = \<lparr>sy_name = nm, sy_val = v, sy_type = S_REL, sy_defined = True, sy_esdid = 1, sy_sect = sec, sy_is_weak = False, sy_eq_to = 0,
     sy_xdlen = 0, sy_xdalgn = 0, sy_len = 4, sy_declared_extrn = False\<rparr>"

definition demo_expr_asm :: asm where
  "demo_expr_asm = asm_init\<lparr>syms := [demo_expr_sym ''TAB'' 8 1, demo_expr_sym ''ETAB'' 40 1, demo_expr_sym ''BUF'' 100 2], cur_sect_id := 1, lc := 64\<rparr>"

text \<open>\<^verbatim>\<open>BUF-2*(TAB-ETAB)/8+*-TAB\<close>\<close>

definition demo_tree :: xadd where
  "demo_tree = Minus (Plus (Minus (Trm (Fac (Symb ''BUF''))) (Div (Mul (Fac (Num 2)) (Grp (Minus (Trm (Fac (Symb ''TAB''))) (Fac (Symb ''ETAB''))))) (Num 8)))
     (Fac Loc)) (Fac (Symb ''TAB''))"

lemma demo_ready: "small_expr demo_tree" "card (x_sections demo_expr_asm) \<le> 64"
proof -
  show "small_expr demo_tree" by code_simp
  have "card (x_sections demo_expr_asm) \<le> length (cur_sect_id demo_expr_asm # map sy_sect (syms demo_expr_asm))"
    unfolding x_sections_def by (rule List.card_length)
  then show "card (x_sections demo_expr_asm) \<le> 64" by (simp add: demo_expr_asm_def)
qed

lemma demo_rel: "sym_rel demo_expr_asm ''TAB'' = Some 1" "sym_rel demo_expr_asm ''ETAB'' = Some 1" "sym_rel demo_expr_asm ''BUF'' = Some 2"
  by code_simp+

lemma demo_no_mul: "\<not> mul_a demo_expr_asm demo_tree"
  by (auto simp: demo_tree_def demo_rel split: if_splits)

lemma demo_text: "pr_a demo_tree = ''BUF-2*(TAB-ETAB)/8+*-TAB''" "den_a demo_expr_asm demo_tree = 164"
  by code_simp+





text \<open>
  C35. A relocatable term on the right of a product goes unnoticed. For a relocatable symbol \<open>nm\<close>, \<open>nm*2\<close> is flagged
  as a product with a relocatable operand, as the comment on \<^verbatim>\<open>x_term\<close> asks for either side, while \<open>2*nm\<close> is not: the right
  operand is read with sign 0, which adds nothing to the tally that is then asked whether it changed. The
  expression is classed absolute, though its value moves with the section.
\<close>

theorem right_operand_unnoticed:
  assumes "sym_text nm" "sym_rel A nm = Some s" "card (x_sections A) \<le> 64"
  shows "(\<exists>st st'. expr_val_full A (''2*'' @ nm) = (2 * sym_value A nm, 0, st) \<and> \<not> x_mulrel st \<and> xrl_class st = 0
      \<and> expr_val_full (displaced A (\<lambda>_. 16)) (''2*'' @ nm) = (2 * sym_value A nm + 32, 0, st'))
    \<and> x_mulrel (snd (snd (expr_val_full A (nm @ ''*2''))))"
proof -
  let ?e = "Trm (Mul (Fac (Num 2)) (Symb nm))" and ?g = "Trm (Mul (Fac (Symb nm)) (Num 2))" and ?D = "displaced A (\<lambda>_. 16)"
  have e: "small_expr ?e" "small_expr ?g" using assms(1) by (simp_all add: small_expr_def LONG_MAX_def)
  have two: "dec_digits 2 = ''2''" by code_simp
  have p: "pr_a ?e = ''2*'' @ nm" "pr_a ?g = nm @ ''*2''" by (simp_all add: two)
  have r: "rel_a B ?e s = 0" "\<not> mul_a B ?e" for B s by simp_all
  have z: "rel_a B ?e = (\<lambda>_. 0)" for B by (simp add: fun_eq_iff)
  obtain st where st: "expr_val_full A (pr_a ?e) = (den_a A ?e, sum (rel_a A ?e) (x_sections A), st)" "xdone A (x_start (pr_a ?e)) st [] (rel_a A ?e) (leaves_a ?e) (mul_a A ?e)"
    by (rule expr_done [OF e(1) assms(3)])
  obtain st' where st': "expr_val_full ?D (pr_a ?e) = (den_a ?D ?e, sum (rel_a ?D ?e) (x_sections ?D), st')"
    by (rule expr_done [OF e(1), of ?D]) (simp add: assms(3))
  obtain stg where g: "expr_val_full A (pr_a ?g) = (den_a A ?g, sum (rel_a A ?g) (x_sections A), stg)" "xdone A (x_start (pr_a ?g)) stg [] (rel_a A ?g) (leaves_a ?g) (mul_a A ?g)"
    by (rule expr_done [OF e(2) assms(3)])
  have d: "den_a A ?e = 2 * sym_value A nm" "den_a ?D ?e = 2 * sym_value A nm + 32" using assms(2) by (simp_all add: value_displaced)
  have "\<exists>s. rel_f A (Symb nm) 1 s \<noteq> 0" using assms(2) by auto
  then have "x_mulrel stg" using g(2) by (simp add: xdone_def)
  moreover have l: "\<And>t. lookup (x_sect st) t = 0" "\<not> x_mulrel st" "distinct (map fst (x_sect st))" "\<not> x_ovf st"
    using st(2) r by (simp_all add: xdone_def grows_def x_start_def lookup_def)
  moreover have "xrl_class st = 0" using class_by_section(1) [OF l(3,4)] l(1) by blast
  ultimately show ?thesis using st(1) st' g(1) unfolding p d z by auto
qed

theorem right_operand_unnoticed_witness:
  "\<exists>st st'. expr_val_full demo_expr_asm ''2*BUF'' = (200, 0, st) \<and> xrl_class st = 0
    \<and> expr_val_full (displaced demo_expr_asm (\<lambda>_. 16)) ''2*BUF'' = (232, 0, st')"
proof -
  have "sym_text ''BUF''" "sym_value demo_expr_asm ''BUF'' = 100" by code_simp+
  then show ?thesis using right_operand_unnoticed [OF _ demo_rel(3) demo_ready(2)] by auto
qed

end
