(* ===== verification/As_Using.thy ===== *)
theory As_Using
  imports As_Expr "HOL-Library.Sublist" "HOL-Library.Multiset"
begin

section \<open>as370: USING domains\<close>

text \<open>
  The statements \<^verbatim>\<open>USING\<close>, \<^verbatim>\<open>DROP\<close>, \<^verbatim>\<open>PUSH\<close> and \<^verbatim>\<open>POP\<close> of \<^verbatim>\<open>do_pass\<close>, the table of domains they keep, the events \<^verbatim>\<open>--usings\<close> exports,
  and the choice of a base register for an operand (\<^verbatim>\<open>using_for\<close>, \<^verbatim>\<open>using_for_abs\<close>, \<^verbatim>\<open>using_base_of\<close>). A statement comes with the assembly
  it sees - symbols, location counter, section - and its line. The calls of \<^verbatim>\<open>note_operr\<close> are collected.

  Shown here: over every sequence of statements the table holds a register at most once, so its 32 places are enough;
  replaying the exported events gives the table, without a stack; \<^verbatim>\<open>POP\<close> brings back the table of its \<^verbatim>\<open>PUSH\<close>; and
  the register chosen for an address is the best one, and addresses it.
\<close>

subsection \<open>Operand fields\<close>

definition FLDW :: nat where "FLDW = 256"

fun split_go :: "char option \<Rightarrow> bool \<Rightarrow> int \<Rightarrow> string \<Rightarrow> string \<Rightarrow> string list" where
  "split_go prev q depth cur [] = [rev cur]"
| "split_go prev q depth cur (c # cs) =
    (let q' = (if c = CHR 0x27 \<and> (q \<or> (case prev of Some p \<Rightarrow> p \<notin> set ''KNLT'' | None \<Rightarrow> True)) then \<not> q else q);
         depth' = (if c = CHR 0x27 \<or> q then depth else if c = CHR ''('' then depth + 1 else if c = CHR '')'' then depth - 1 else depth)
     in if \<not> q' \<and> c = CHR '','' \<and> depth' = 0 then rev cur # split_go (Some c) q' depth' [] cs
        else split_go (Some c) q' depth' (c # cur) cs)"

text \<open>The fields, cut to the size of a field, and whether one was cut.\<close>

definition split_fields :: "string \<Rightarrow> nat \<Rightarrow> string list \<times> bool" where
  "split_fields s mx = (let fs = split_go None False 0 [] s in (map (take (FLDW - 1)) (take mx fs), list_ex (\<lambda>f. length f > FLDW - 1) fs))"

text \<open>Put together with commas again, the fields are the operand: nothing is lost at a quote or a parenthesis.\<close>

fun join_commas :: "string list \<Rightarrow> string" where
  "join_commas [] = []"
| "join_commas [f] = f"
| "join_commas (f # g # fs) = f @ CHR '','' # join_commas (g # fs)"

lemma split_go_nonempty: "split_go p q d cur s \<noteq> []"
  by (induction p q d cur s rule: split_go.induct) (simp_all add: Let_def)

lemma join_Cons: "fs \<noteq> [] \<Longrightarrow> join_commas (f # fs) = f @ CHR '','' # join_commas fs"
  by (cases fs) simp_all

lemma split_go_join: "join_commas (split_go p q d cur s) = rev cur @ s"
proof (induction p q d cur s rule: split_go.induct)
  case (2 p q d cur c cs)
  then show ?case by (simp add: Let_def join_Cons [OF split_go_nonempty])
qed simp

lemma split_fields_join:
  assumes "split_fields s mx = (fs, False)" "length (split_go None False 0 [] s) \<le> mx"
  shows "join_commas fs = s"
proof -
  let ?gs = "split_go None False 0 [] s"
  have "\<forall>f\<in>set ?gs. length f \<le> FLDW - 1" "fs = map (take (FLDW - 1)) ?gs"
    using assms by (auto simp: split_fields_def Let_def list_ex_iff not_less)
  then have "fs = ?gs" by (simp add: map_idI)
  then show ?thesis using split_go_join [of None False 0 "[]" s] by simp
qed

subsection \<open>State\<close>

record uent =
  ue_reg :: int
  ue_base :: int
  ue_sect :: nat
  ue_isabs :: bool

datatype uev_kind = UEV_USING | UEV_DROP | UEV_PUSH | UEV_POP
datatype uev_by = UEB_STMT | UEB_POP | UEB_NOOP

record uev =
  uv_seq :: int
  uv_kind :: uev_kind
  uv_sect :: nat
  uv_loc :: int
  uv_reg :: int
  uv_value :: int
  uv_valsect :: nat
  uv_valdsect :: bool
  uv_isabs :: bool
  uv_by :: uev_by

datatype using_err = IFO217 | IFO195

record ustate =
  us_tab :: "uent list"
  us_stk :: "uent list list"
  us_evs :: "uev list"
  us_on :: bool
  us_undefs :: "(string \<times> int) list"
  us_seen :: nat
  us_xlog :: xlog
  us_errs :: "(using_err \<times> string \<times> int) list"
  us_a2 :: "(int \<times> int) list"

definition us_start :: "bool \<Rightarrow> xlog \<Rightarrow> ustate" where
  "us_start on L = \<lparr>us_tab = [], us_stk = [], us_evs = [], us_on = on, us_undefs = [], us_seen = 0, us_xlog = L, us_errs = [], us_a2 = []\<rparr>"

definition MAXUNDEF :: nat where "MAXUNDEF = 512"

definition note_undefsym :: "string \<Rightarrow> int \<Rightarrow> ustate \<Rightarrow> ustate" where
  "note_undefsym n line S =
    (if (n, line) \<in> set (us_undefs S) then S
     else if length (us_undefs S) \<ge> MAXUNDEF then S\<lparr>us_seen := us_seen S + 1\<rparr>
     else S\<lparr>us_seen := us_seen S + 1, us_undefs := us_undefs S @ [(n, line)]\<rparr>)"

text \<open>What evaluating an expression leaves behind besides its value.\<close>

definition us_noted :: "asm \<Rightarrow> int \<Rightarrow> string \<Rightarrow> ustate \<Rightarrow> ustate" where
  "us_noted A ln e S = (let st = snd (snd (expr_val_full A e)); S = fold (\<lambda>n. note_undefsym n ln) (x_notes st) S
     in S\<lparr>us_xlog := x_report (g_pass A) ln st (us_xlog S)\<rparr>)"

definition us_err :: "using_err \<Rightarrow> string \<Rightarrow> int \<Rightarrow> ustate \<Rightarrow> ustate" where
  "us_err e f ln S = S\<lparr>us_errs := us_errs S @ [(e, take 24 f, ln)]\<rparr>"

definition uev_add :: "uev \<Rightarrow> ustate \<Rightarrow> ustate" where
  "uev_add v S = (if us_on S then S\<lparr>us_evs := us_evs S @ [v]\<rparr> else S)"

definition dom_ev :: "asm \<Rightarrow> int \<Rightarrow> uev_kind \<Rightarrow> uev_by \<Rightarrow> uent \<Rightarrow> uev" where
  "dom_ev A ln k by u = \<lparr>uv_seq = ln + 1, uv_kind = k, uv_sect = cur_sect_id A, uv_loc = lc A, uv_reg = ue_reg u, uv_value = ue_base u,
     uv_valsect = ue_sect u, uv_valdsect = is_dsect_id A (ue_sect u), uv_isabs = ue_isabs u, uv_by = by\<rparr>"

definition bare_ev :: "asm \<Rightarrow> int \<Rightarrow> uev_kind \<Rightarrow> uev_by \<Rightarrow> int \<Rightarrow> uev" where
  "bare_ev A ln k by r = \<lparr>uv_seq = ln + 1, uv_kind = k, uv_sect = cur_sect_id A, uv_loc = lc A, uv_reg = r, uv_value = 0, uv_valsect = 0,
     uv_valdsect = False, uv_isabs = False, uv_by = by\<rparr>"

subsection \<open>USING\<close>

text \<open>Enter a domain: it replaces the one of its register; \<^verbatim>\<open>None\<close> where the table is full.\<close>

definition enter :: "asm \<Rightarrow> int \<Rightarrow> uent \<Rightarrow> ustate \<Rightarrow> ustate option" where
  "enter A ln u S =
    (case List.find (\<lambda>q. ue_reg (us_tab S ! q) = ue_reg u) [0..<length (us_tab S)] of
       Some q \<Rightarrow> Some (uev_add (dom_ev A ln UEV_USING UEB_STMT u) (S\<lparr>us_tab := (us_tab S)[q := u]\<rparr>))
     | None \<Rightarrow> if length (us_tab S) \<ge> 32 then None
               else Some (uev_add (dom_ev A ln UEV_USING UEB_STMT u) (S\<lparr>us_tab := us_tab S @ [u]\<rparr>)))"

text \<open>The registers, by position: the \<open>j\<close>-th addresses the base plus \<open>4096 * (j - 1)\<close>.\<close>

primrec using_regs :: "asm \<Rightarrow> int \<Rightarrow> int \<Rightarrow> nat \<Rightarrow> bool \<Rightarrow> nat \<Rightarrow> string list \<Rightarrow> ustate \<Rightarrow> ustate" where
  "using_regs A ln base bsect isabs j [] S = S"
| "using_regs A ln base bsect isabs j (f # fs) S =
    (if f = [] then using_regs A ln base bsect isabs (j + 1) fs S
     else let S1 = us_noted A ln f S in
       case using_reg A f of
         None \<Rightarrow> us_err IFO195 f ln S1
       | Some reg \<Rightarrow>
           if reg = 0 \<and> j \<noteq> 1 then us_err IFO195 f ln S1
           else (case enter A ln \<lparr>ue_reg = reg, ue_base = base + 4096 * (int j - 1), ue_sect = bsect, ue_isabs = isabs\<rparr> S1 of
                  None \<Rightarrow> S1
                | Some S2 \<Rightarrow> using_regs A ln base bsect isabs (j + 1) fs S2))"

definition base_name :: "string \<Rightarrow> string" where
  "base_name f = x_name (dropWhile (\<lambda>c. c = CHR ''('' \<or> c = CHR '' '') f)"

definition do_using :: "asm \<Rightarrow> int \<Rightarrow> string \<Rightarrow> ustate \<Rightarrow> ustate" where
  "do_using A ln opnd S =
    (let F = fst (split_fields opnd 17); f0 = hd F in
     if f0 = ''*'' then let S = using_regs A ln (lc A) (cur_sect_id A) False 1 (tl F) S in S\<lparr>us_a2 := us_a2 S @ [(ln, lc A)]\<rparr>
     else let (base, brel, st) = expr_val_full A f0; S1 = us_noted A ln f0 S;
            uerr = (if x_mulrel st then 2 else if xrl_class st = 2 \<or> us_seen S1 \<noteq> us_seen S then 1 else (0 :: nat));
            S2 = (us_err IFO217 f0 ln ^^ uerr) S1;
            nm = base_name f0;
            bs = (if nm \<noteq> [] then find_sym A nm else None);
            bsect = (case bs of Some s \<Rightarrow> sy_sect s | None \<Rightarrow> cur_sect_id A);
            isabs = (brel = 0 \<and> (case bs of Some s \<Rightarrow> sy_defined s \<and> sy_type s = S_ABS | None \<Rightarrow> False))
          in if uerr \<noteq> 0 then S2
             else let S3 = using_regs A ln base bsect isabs 1 (tl F) S2 in S3\<lparr>us_a2 := us_a2 S3 @ [(ln, base)]\<rparr>)"

subsection \<open>DROP\<close>

definition remove_at :: "nat \<Rightarrow> 'a list \<Rightarrow> 'a list" where
  "remove_at k xs = (if k + 1 = length xs then butlast xs else (butlast xs)[k := last xs])"

lemma remove_at_length [simp]: "length (remove_at k xs) = length xs - 1"
  by (simp add: remove_at_def)

lemma us_ev_fields [simp]: "us_tab (uev_add v S) = us_tab S" "us_stk (uev_add v S) = us_stk S" "us_on (uev_add v S) = us_on S"
  by (simp_all add: uev_add_def)

function drop_loop :: "asm \<Rightarrow> int \<Rightarrow> int \<Rightarrow> nat \<Rightarrow> bool \<Rightarrow> ustate \<Rightarrow> bool \<times> ustate" where
  "drop_loop A ln r k hit S =
    (if k < length (us_tab S) then
       if ue_reg (us_tab S ! k) = r
       then drop_loop A ln r k True (uev_add (dom_ev A ln UEV_DROP UEB_STMT (us_tab S ! k)) (S\<lparr>us_tab := remove_at k (us_tab S)\<rparr>))
       else drop_loop A ln r (k + 1) hit S
     else (hit, S))"
  by pat_completeness auto
termination
  by (relation "measure (\<lambda>(A, ln, r, k, hit, S). length (us_tab S) - k)") auto

declare drop_loop.simps [simp del]

primrec drop_regs :: "asm \<Rightarrow> int \<Rightarrow> string list \<Rightarrow> ustate \<Rightarrow> ustate" where
  "drop_regs A ln [] S = S"
| "drop_regs A ln (f # fs) S =
    (let S1 = us_noted A ln f S in
     case using_reg A f of
       None \<Rightarrow> drop_regs A ln fs (us_err IFO195 f ln S1)
     | Some r \<Rightarrow> (case drop_loop A ln r 0 False S1 of (hit, S2) \<Rightarrow>
         if hit then drop_regs A ln fs S2 else us_err IFO195 f ln (uev_add (bare_ev A ln UEV_DROP UEB_NOOP r) S2)))"

definition do_drop :: "asm \<Rightarrow> int \<Rightarrow> string \<Rightarrow> ustate \<Rightarrow> ustate" where
  "do_drop A ln opnd S =
    (let F = fst (split_fields opnd 16) in
     if hd F = [] then (fold (\<lambda>u. uev_add (dom_ev A ln UEV_DROP UEB_STMT u)) (us_tab S) S)\<lparr>us_tab := []\<rparr>
     else drop_regs A ln F S)"

subsection \<open>PUSH and POP\<close>

definition do_push :: "asm \<Rightarrow> int \<Rightarrow> ustate \<Rightarrow> ustate" where
  "do_push A ln S =
    (if length (us_stk S) < 16 then uev_add (bare_ev A ln UEV_PUSH UEB_STMT (-1)) (S\<lparr>us_stk := us_tab S # us_stk S\<rparr>)
     else uev_add (bare_ev A ln UEV_PUSH UEB_NOOP (-1)) S)"

definition do_pop :: "asm \<Rightarrow> int \<Rightarrow> ustate \<Rightarrow> ustate" where
  "do_pop A ln S =
    (case us_stk S of
       [] \<Rightarrow> uev_add (bare_ev A ln UEV_POP UEB_NOOP (-1)) S
     | new # stk \<Rightarrow>
         let old = us_tab S; S1 = uev_add (bare_ev A ln UEV_POP UEB_STMT (-1)) (S\<lparr>us_tab := new, us_stk := stk\<rparr>);
             S2 = fold (\<lambda>u. uev_add (dom_ev A ln UEV_DROP UEB_POP u)) (filter (\<lambda>u. u \<notin> set new) old) S1
         in fold (\<lambda>u. uev_add (dom_ev A ln UEV_USING UEB_POP u)) (filter (\<lambda>u. u \<notin> set old) new) S2)"

datatype ustmt = USING string | DROP string | PUSH string | POP string

definition us_step :: "asm \<Rightarrow> int \<Rightarrow> ustmt \<Rightarrow> ustate \<Rightarrow> ustate" where
  "us_step A ln s S =
    (if g_pass A \<noteq> 2 then S
     else case s of
       USING opnd \<Rightarrow> do_using A ln opnd S
     | DROP opnd \<Rightarrow> do_drop A ln opnd S
     | PUSH opnd \<Rightarrow> if sublist ''USING'' opnd then do_push A ln S else S
     | POP opnd \<Rightarrow> if sublist ''USING'' opnd then do_pop A ln S else S)"

definition us_run :: "(asm \<times> int \<times> ustmt) list \<Rightarrow> ustate \<Rightarrow> ustate" where
  "us_run ss S = fold (\<lambda>(A, ln, s). us_step A ln s) ss S"

subsection \<open>Choosing a base\<close>

text \<open>The scans keep the index of the best entry; here its register with the displacement.\<close>

definition covers :: "int \<Rightarrow> uent \<Rightarrow> bool" where
  "covers val u \<longleftrightarrow> 0 \<le> val - ue_base u \<and> val - ue_base u < 4096"

definition best_step :: "(uent \<Rightarrow> bool) \<Rightarrow> bool \<Rightarrow> int \<Rightarrow> uent \<Rightarrow> uent option \<Rightarrow> uent option" where
  "best_step ok tie val u best =
    (if \<not> ok u then best
     else if covers val u \<and> (case best of None \<Rightarrow> True
            | Some b \<Rightarrow> val - ue_base u < val - ue_base b \<or> tie \<and> val - ue_base u = val - ue_base b \<and> ue_reg u > ue_reg b) then Some u
     else best)"

definition scan_best :: "(uent \<Rightarrow> bool) \<Rightarrow> bool \<Rightarrow> int \<Rightarrow> uent list \<Rightarrow> uent option" where
  "scan_best ok tie val us = fold (best_step ok tie val) us None"

text \<open>Register, displacement, and \<^verbatim>\<open>r_addrok\<close>.\<close>

definition using_for :: "uent list \<Rightarrow> int \<Rightarrow> nat \<Rightarrow> int \<times> int \<times> bool" where
  "using_for us val sect =
    (let own = scan_best (\<lambda>u. ue_sect u = sect) True val us; best = (if own = None then scan_best (\<lambda>_. True) False val us else own)
     in case best of Some u \<Rightarrow> (ue_reg u, val - ue_base u, own \<noteq> None) | None \<Rightarrow> (0, val, own \<noteq> None))"

definition using_for_abs :: "uent list \<Rightarrow> int \<Rightarrow> int \<times> int" where
  "using_for_abs us val = (case scan_best ue_isabs True val us of Some u \<Rightarrow> (ue_reg u, val - ue_base u) | None \<Rightarrow> (0, val))"

definition using_base_of :: "uent list \<Rightarrow> int \<Rightarrow> int" where
  "using_base_of us r = (case List.find (\<lambda>u. ue_reg u = r) us of Some u \<Rightarrow> ue_base u | None \<Rightarrow> 0)"

subsection \<open>A register stands in the table once\<close>

definition keyed :: "uent list \<Rightarrow> bool" where
  "keyed us \<longleftrightarrow> distinct (map ue_reg us) \<and> (\<forall>u\<in>set us. 0 \<le> ue_reg u \<and> ue_reg u \<le> 15)"

definition dom_of :: "uent list \<Rightarrow> int \<rightharpoonup> int \<times> nat \<times> bool" where
  "dom_of us = map_of (map (\<lambda>u. (ue_reg u, (ue_base u, ue_sect u, ue_isabs u))) us)"

text \<open>The reader of the exported events: one domain for a register, no stack.\<close>

definition ev_apply :: "uev \<Rightarrow> (int \<rightharpoonup> int \<times> nat \<times> bool) \<Rightarrow> (int \<rightharpoonup> int \<times> nat \<times> bool)" where
  "ev_apply v m = (case uv_kind v of
      UEV_USING \<Rightarrow> m(uv_reg v \<mapsto> (uv_value v, uv_valsect v, uv_isabs v))
    | UEV_DROP \<Rightarrow> if uv_by v = UEB_NOOP then m else m(uv_reg v := None)
    | _ \<Rightarrow> m)"

definition ev_replay :: "uev list \<Rightarrow> (int \<rightharpoonup> int \<times> nat \<times> bool)" where
  "ev_replay vs = fold ev_apply vs Map.empty"

definition us_ok :: "ustate \<Rightarrow> bool" where
  "us_ok S \<longleftrightarrow> keyed (us_tab S) \<and> list_all keyed (us_stk S) \<and> length (us_stk S) \<le> 16 \<and> (us_on S \<longrightarrow> ev_replay (us_evs S) = dom_of (us_tab S))"

abbreviation dom_val :: "uent \<Rightarrow> int \<times> nat \<times> bool" where
  "dom_val u \<equiv> (ue_base u, ue_sect u, ue_isabs u)"

lemma keyed_length: "keyed us \<Longrightarrow> length us \<le> 16"
proof -
  assume k: "keyed us"
  have "length us = card (set (map ue_reg us))" using k distinct_card [of "map ue_reg us"] by (simp add: keyed_def)
  also have "\<dots> \<le> card {0..15::int}" using k by (intro card_mono) (auto simp: keyed_def)
  finally show ?thesis by simp
qed

lemma dom_of_Some: "distinct (map ue_reg us) \<Longrightarrow> dom_of us r = Some v \<longleftrightarrow> (\<exists>u\<in>set us. ue_reg u = r \<and> v = dom_val u)"
  unfolding dom_of_def by (subst map_of_eq_Some_iff) (auto simp: comp_def)

lemma dom_of_None: "dom_of us r = None \<longleftrightarrow> (\<forall>u\<in>set us. ue_reg u \<noteq> r)"
  by (force simp: dom_of_def map_of_eq_None_iff image_image)

text \<open>A keyed table as a map depends on its entries only.\<close>

lemma dom_ofI:
  assumes "distinct (map ue_reg us)" "\<And>u. u \<in> set us \<Longrightarrow> m (ue_reg u) = Some (dom_val u)" "\<And>r v. m r = Some v \<Longrightarrow> \<exists>u\<in>set us. ue_reg u = r"
  shows "dom_of us = m"
proof
  fix r
  show "dom_of us r = m r"
  proof (cases "\<exists>u\<in>set us. ue_reg u = r")
    case True
    then obtain u where u: "u \<in> set us" "ue_reg u = r" by blast
    then have "dom_of us r = Some (dom_val u)" using dom_of_Some [OF assms(1)] by blast
    then show ?thesis using assms(2) [OF u(1)] u(2) by simp
  next
    case False
    then have "dom_of us r = None" by (auto simp: dom_of_None)
    moreover have "m r = None" using False assms(3) [of r] by (cases "m r") auto
    ultimately show ?thesis by simp
  qed
qed

lemma keyed_unique: "distinct (map ue_reg us) \<Longrightarrow> u \<in> set us \<Longrightarrow> v \<in> set us \<Longrightarrow> ue_reg u = ue_reg v \<Longrightarrow> u = v"
  by (auto simp: distinct_map inj_on_def)

lemma dom_of_append: "\<forall>v\<in>set us. ue_reg v \<noteq> ue_reg u \<Longrightarrow> dom_of (us @ [u]) = (dom_of us)(ue_reg u \<mapsto> dom_val u)"
proof -
  assume "\<forall>v\<in>set us. ue_reg v \<noteq> ue_reg u"
  then have "dom_of us (ue_reg u) = None" by (simp add: dom_of_None)
  then show ?thesis by (auto simp: dom_of_def map_add_def fun_eq_iff split: option.split)
qed

lemma dom_of_update:
  assumes "distinct (map ue_reg us)" "q < length us" "ue_reg (us ! q) = ue_reg u"
  shows "distinct (map ue_reg (us[q := u]))" "dom_of (us[q := u]) = (dom_of us)(ue_reg u \<mapsto> dom_val u)"
proof -
  have r: "map ue_reg (us[q := u]) = map ue_reg us" using assms(2,3) by (simp add: map_update list_update_same_conv)
  then show d: "distinct (map ue_reg (us[q := u]))" using assms(1) by simp
  have old: "v \<in> set us" if "v \<in> set (us[q := u])" "ue_reg v \<noteq> ue_reg u" for v using that set_update_subset_insert [of us q u] by auto
  have new: "u \<in> set (us[q := u])" using assms(2) by (rule set_update_memI)
  show "dom_of (us[q := u]) = (dom_of us)(ue_reg u \<mapsto> dom_val u)"
  proof (rule dom_ofI [OF d])
    fix v assume v: "v \<in> set (us[q := u])"
    show "((dom_of us)(ue_reg u \<mapsto> dom_val u)) (ue_reg v) = Some (dom_val v)"
    proof (cases "ue_reg v = ue_reg u")
      case True
      then show ?thesis using keyed_unique [OF d v new] by simp
    next
      case False
      then show ?thesis using old [OF v] dom_of_Some [OF assms(1)] by auto
    qed
  next
    fix r x assume "((dom_of us)(ue_reg u \<mapsto> dom_val u)) r = Some x"
    then have "r = ue_reg u \<or> r \<in> set (map ue_reg us)" using dom_of_Some [OF assms(1), of r x] by (auto split: if_splits)
    then show "\<exists>w\<in>set (us[q := u]). ue_reg w = r" unfolding r [symmetric] using new by auto
  qed
qed

lemma remove_at_mset: "k < length xs \<Longrightarrow> add_mset (xs ! k) (mset (remove_at k xs)) = mset xs"
proof -
  assume k: "k < length xs"
  then have x: "xs = butlast xs @ [last xs]" by (cases xs rule: rev_cases) auto
  show ?thesis
  proof (cases "k + 1 = length xs")
    case True
    moreover have "xs \<noteq> []" "k = length xs - 1" using k True by auto
    ultimately have "last xs = xs ! k" by (simp add: last_conv_nth)
    then show ?thesis using arg_cong [OF x, of mset] True by (simp add: remove_at_def)
  next
    case False
    then have kb: "k < length (butlast xs)" "xs ! k = butlast xs ! k" using k by (auto simp: nth_butlast)
    have "mset ((butlast xs)[k := last xs]) = add_mset (last xs) (mset (butlast xs)) - {#xs ! k#}" using kb by (simp add: mset_update)
    moreover have "xs ! k \<in># mset (butlast xs)" using kb by simp
    ultimately show ?thesis using arg_cong [OF x, of mset] False by (simp add: remove_at_def)
  qed
qed

lemma remove_at_keyed:
  assumes "keyed us" "k < length us"
  shows "keyed (remove_at k us)" "dom_of (remove_at k us) = (dom_of us)(ue_reg (us ! k) := None)"
proof -
  note m = remove_at_mset [OF assms(2)]
  have dk: "distinct (map ue_reg us)" using assms(1) by (simp add: keyed_def)
  have "add_mset (ue_reg (us ! k)) (mset (map ue_reg (remove_at k us))) = mset (map ue_reg us)" using arg_cong [OF m, of "image_mset ue_reg"] by simp
  then have p: "mset (ue_reg (us ! k) # map ue_reg (remove_at k us)) = mset (map ue_reg us)" by simp
  then have d: "distinct (ue_reg (us ! k) # map ue_reg (remove_at k us))" using dk mset_eq_imp_distinct_iff by blast
  have s: "set us = insert (us ! k) (set (remove_at k us))" using arg_cong [OF m, of set_mset] by simp
  show "keyed (remove_at k us)" using assms(1) d s by (auto simp: keyed_def)
  have d2: "distinct (map ue_reg (remove_at k us))" using d by simp
  show "dom_of (remove_at k us) = (dom_of us)(ue_reg (us ! k) := None)"
  proof (rule dom_ofI [OF d2])
    fix v assume v: "v \<in> set (remove_at k us)"
    then have "ue_reg v \<in> set (map ue_reg (remove_at k us))" by simp
    then have "ue_reg v \<noteq> ue_reg (us ! k)" using d by (metis distinct.simps(2))
    moreover have "dom_of us (ue_reg v) = Some (dom_val v)" using v s dom_of_Some [OF dk] by blast
    ultimately show "((dom_of us)(ue_reg (us ! k) := None)) (ue_reg v) = Some (dom_val v)" by simp
  next
    fix r x assume "((dom_of us)(ue_reg (us ! k) := None)) r = Some x"
    then have "r \<noteq> ue_reg (us ! k)" "dom_of us r = Some x" by (auto split: if_splits)
    then show "\<exists>w\<in>set (remove_at k us). ue_reg w = r" using dom_of_Some [OF dk, of r x] s by auto
  qed
qed

subsection \<open>Every statement keeps the table and the events in step\<close>

lemma ev_replay_snoc: "ev_replay (vs @ [v]) = ev_apply v (ev_replay vs)"
  by (simp add: ev_replay_def)

lemma us_ok_cong: "us_tab S' = us_tab S \<Longrightarrow> us_stk S' = us_stk S \<Longrightarrow> us_on S' = us_on S \<Longrightarrow> us_evs S' = us_evs S \<Longrightarrow> us_ok S' = us_ok S"
  by (simp add: us_ok_def)

lemma undef_fields: "us_tab (note_undefsym n l S) = us_tab S" "us_stk (note_undefsym n l S) = us_stk S" "us_on (note_undefsym n l S) = us_on S"
    "us_evs (note_undefsym n l S) = us_evs S" "us_errs (note_undefsym n l S) = us_errs S"
  by (simp_all add: note_undefsym_def)

lemma undefs_fields: "us_tab (fold (\<lambda>n. note_undefsym n l) ns S) = us_tab S \<and> us_stk (fold (\<lambda>n. note_undefsym n l) ns S) = us_stk S
    \<and> us_on (fold (\<lambda>n. note_undefsym n l) ns S) = us_on S \<and> us_evs (fold (\<lambda>n. note_undefsym n l) ns S) = us_evs S"
  by (induction ns arbitrary: S) (simp_all add: undef_fields)

lemma noted_fields [simp]: "us_tab (us_noted A l e S) = us_tab S" "us_stk (us_noted A l e S) = us_stk S" "us_on (us_noted A l e S) = us_on S"
    "us_evs (us_noted A l e S) = us_evs S"
  using undefs_fields by (simp_all add: us_noted_def Let_def)

lemma err_fields [simp]: "us_tab (us_err e f l S) = us_tab S" "us_stk (us_err e f l S) = us_stk S" "us_on (us_err e f l S) = us_on S" "us_evs (us_err e f l S) = us_evs S"
  by (simp_all add: us_err_def)

lemma ok_noted [simp]: "us_ok (us_noted A l e S) = us_ok S"
  by (rule us_ok_cong) simp_all

lemma ok_err [simp]: "us_ok (us_err e f l S) = us_ok S"
  by (rule us_ok_cong) simp_all

lemma ok_errs [simp]: "us_ok ((us_err e f l ^^ n) S) = us_ok S"
  by (induction n) simp_all

lemma ok_a2 [simp]: "us_ok (S\<lparr>us_a2 := x\<rparr>) = us_ok S"
  by (rule us_ok_cong) simp_all

text \<open>A change of the table with the event that tells it.\<close>

lemma ok_event:
  assumes "us_ok S" "keyed t" "dom_of t = ev_apply v (dom_of (us_tab S))"
  shows "us_ok (uev_add v (S\<lparr>us_tab := t\<rparr>))"
  using assms by (simp add: us_ok_def uev_add_def ev_replay_snoc)

lemma ok_bare:
  assumes "us_ok S" "k = UEV_PUSH \<or> k = UEV_POP \<or> by = UEB_NOOP \<and> k = UEV_DROP" shows "us_ok (uev_add (bare_ev A l k by r) S)"
  using assms by (auto simp: us_ok_def uev_add_def ev_replay_snoc ev_apply_def bare_ev_def)

lemma enter_ok:
  assumes "us_ok S" "0 \<le> ue_reg u" "ue_reg u \<le> 15"
  shows "\<exists>S'. enter A l u S = Some S' \<and> us_ok S'"
proof -
  have k: "keyed (us_tab S)" "distinct (map ue_reg (us_tab S))" using assms(1) by (simp_all add: us_ok_def keyed_def)
  have v: "ev_apply (dom_ev A l UEV_USING UEB_STMT u) m = m(ue_reg u \<mapsto> dom_val u)" for m by (simp add: ev_apply_def dom_ev_def)
  show ?thesis
  proof (cases "List.find (\<lambda>q. ue_reg (us_tab S ! q) = ue_reg u) [0..<length (us_tab S)]")
    case None
    then have f: "\<forall>w\<in>set (us_tab S). ue_reg w \<noteq> ue_reg u" by (auto simp: find_None_iff in_set_conv_nth)
    then have "keyed (us_tab S @ [u])" using k assms(2,3) by (auto simp: keyed_def)
    then have "us_ok (uev_add (dom_ev A l UEV_USING UEB_STMT u) (S\<lparr>us_tab := us_tab S @ [u]\<rparr>))" using dom_of_append [OF f] by (intro ok_event [OF assms(1)]) (simp_all add: v)
    then show ?thesis using None keyed_length [OF k(1)] by (simp add: enter_def)
  next
    case (Some q)
    then have q: "q < length (us_tab S)" "ue_reg (us_tab S ! q) = ue_reg u" by (auto simp: find_Some_iff)
    note u = dom_of_update [OF k(2) q]
    have "keyed ((us_tab S)[q := u])" using u(1) k(1) assms(2,3) set_update_subset_insert [of "us_tab S" q u] by (auto simp: keyed_def)
    then have "us_ok (uev_add (dom_ev A l UEV_USING UEB_STMT u) (S\<lparr>us_tab := (us_tab S)[q := u]\<rparr>))" using u(2) by (intro ok_event [OF assms(1)]) (simp_all add: v)
    then show ?thesis using Some by (simp add: enter_def)
  qed
qed

lemma using_reg_range: "using_reg A f = Some r \<Longrightarrow> 0 \<le> r \<and> r \<le> 15"
  by (auto simp: using_reg_def split: prod.splits if_splits)

lemma using_regs_ok: "us_ok S \<Longrightarrow> us_ok (using_regs A l base bs ab j fs S)"
proof (induction fs arbitrary: j S)
  case (Cons f fs)
  show ?case
  proof (cases "f = [] \<or> using_reg A f = None")
    case False
    then obtain r where r: "using_reg A f = Some r" "f \<noteq> []" by auto
    obtain S2 where "enter A l \<lparr>ue_reg = r, ue_base = base + 4096 * (int j - 1), ue_sect = bs, ue_isabs = ab\<rparr> (us_noted A l f S) = Some S2" "us_ok S2"
      using enter_ok [of "us_noted A l f S" "\<lparr>ue_reg = r, ue_base = base + 4096 * (int j - 1), ue_sect = bs, ue_isabs = ab\<rparr>" A l] Cons.prems using_reg_range [OF r(1)] by auto
    then show ?thesis using r Cons.IH [of S2] Cons.prems by (simp add: Let_def)
  qed (use Cons in \<open>auto simp: Let_def\<close>)
qed simp

lemma do_using_ok: "us_ok S \<Longrightarrow> us_ok (do_using A l opnd S)"
  by (simp add: do_using_def Let_def split_beta using_regs_ok)

lemma drop_loop_ok: "us_ok S \<Longrightarrow> us_ok (snd (drop_loop A l r k hit S))"
proof (induction A l r k hit S rule: drop_loop.induct)
  case (1 A l r k hit S)
  let ?t = "us_tab S" and ?S = "uev_add (dom_ev A l UEV_DROP UEB_STMT (us_tab S ! k)) (S\<lparr>us_tab := remove_at k (us_tab S)\<rparr>)"
  have "us_ok ?S" if "k < length ?t"
  proof -
    have "keyed ?t" using 1(3) by (simp add: us_ok_def)
    then show ?thesis using remove_at_keyed [of ?t k] that by (intro ok_event [OF 1(3)]) (simp_all add: ev_apply_def dom_ev_def)
  qed
  then show ?case using 1 by (subst drop_loop.simps) simp
qed

lemma drop_regs_ok: "us_ok S \<Longrightarrow> us_ok (drop_regs A l fs S)"
proof (induction fs arbitrary: S)
  case (Cons f fs)
  show ?case
  proof (cases "using_reg A f")
    case (Some r)
    have "us_ok (snd (drop_loop A l r 0 False (us_noted A l f S)))" using Cons.prems by (intro drop_loop_ok) simp
    then show ?thesis using Some Cons.IH ok_bare by (cases "drop_loop A l r 0 False (us_noted A l f S)") (auto simp: Let_def)
  qed (use Cons in \<open>simp add: Let_def\<close>)
qed simp

text \<open>A list of events, each for an entry.\<close>

lemma evs_add: "us_on S \<Longrightarrow> us_evs (fold (\<lambda>u. uev_add (f u)) us S) = us_evs S @ map f us"
  by (induction us arbitrary: S) (simp_all add: uev_add_def)

lemma fold_ev_fields [simp]: "us_tab (fold (\<lambda>u. uev_add (f u)) us S) = us_tab S" "us_stk (fold (\<lambda>u. uev_add (f u)) us S) = us_stk S"
    "us_on (fold (\<lambda>u. uev_add (f u)) us S) = us_on S"
  by (induction us arbitrary: S) simp_all

lemma replay_drops: "by \<noteq> UEB_NOOP \<Longrightarrow> fold ev_apply (map (dom_ev A l UEV_DROP by) us) m = m |` (- (ue_reg ` set us))"
  by (induction us arbitrary: m) (auto simp: ev_apply_def dom_ev_def restrict_map_def fun_eq_iff)

lemma replay_usings: "distinct (map ue_reg us) \<Longrightarrow> fold ev_apply (map (dom_ev A l UEV_USING by) us) m = m ++ dom_of us"
proof (induction us arbitrary: m rule: rev_induct)
  case (snoc u us)
  have "ue_reg u \<notin> ue_reg ` set us" using snoc.prems by simp
  then have "\<forall>v\<in>set us. ue_reg v \<noteq> ue_reg u" by (metis imageI)
  then have "dom_of (us @ [u]) = (dom_of us)(ue_reg u \<mapsto> dom_val u)" by (rule dom_of_append)
  moreover have "ev_apply (dom_ev A l UEV_USING by u) x = x(ue_reg u \<mapsto> dom_val u)" for x by (simp add: ev_apply_def dom_ev_def)
  moreover have "fold ev_apply (map (dom_ev A l UEV_USING by) (us @ [u])) m = ev_apply (dom_ev A l UEV_USING by u) (m ++ dom_of us)" using snoc by simp
  ultimately show ?case by (simp only: map_add_upd)
qed (simp add: dom_of_def)

lemma replay_app: "ev_replay (vs @ ws) = fold ev_apply ws (ev_replay vs)"
  by (simp add: ev_replay_def)

lemma do_drop_ok:
  assumes "us_ok S" shows "us_ok (do_drop A l opnd S)"
proof -
  have "ev_replay (us_evs S @ map (dom_ev A l UEV_DROP UEB_STMT) (us_tab S)) = dom_of []" if "us_on S"
  proof -
    have e: "ev_replay (us_evs S) = dom_of (us_tab S)" using assms that by (simp add: us_ok_def)
    have "dom_of (us_tab S) |` (- (ue_reg ` set (us_tab S))) = Map.empty" by (auto simp: restrict_map_def fun_eq_iff dom_of_None)
    then show ?thesis by (simp add: replay_app e replay_drops) (simp add: dom_of_def)
  qed
  then show ?thesis using assms drop_regs_ok [of S A l]
    by (auto simp: do_drop_def Let_def us_ok_def evs_add keyed_def)
qed

text \<open>The events of a \<^verbatim>\<open>POP\<close>: what went, then what came.\<close>

lemma pop_replay:
  assumes "keyed old" "keyed new"
  shows "(dom_of old |` (- (ue_reg ` set (filter (\<lambda>u. u \<notin> set new) old)))) ++ dom_of (filter (\<lambda>u. u \<notin> set old) new) = dom_of new"
proof -
  have d: "distinct (map ue_reg old)" "distinct (map ue_reg new)" using assms by (simp_all add: keyed_def)
  have a: "distinct (map ue_reg (filter (\<lambda>u. u \<notin> set old) new))" using d(2) by (rule distinct_map_filter)
  let ?gone = "ue_reg ` set (filter (\<lambda>u. u \<notin> set new) old)" and ?came = "filter (\<lambda>u. u \<notin> set old) new"
  show ?thesis
  proof (rule dom_ofI [OF d(2), symmetric])
    fix u assume u: "u \<in> set new"
    show "((dom_of old |` (- ?gone)) ++ dom_of ?came) (ue_reg u) = Some (dom_val u)"
    proof (cases "u \<in> set old")
      case False
      then have "dom_of ?came (ue_reg u) = Some (dom_val u)" using u dom_of_Some [OF a] by auto
      then show ?thesis by simp
    next
      case True
      have "dom_of ?came (ue_reg u) = None" using keyed_unique [OF d(2) u] True unfolding dom_of_None set_filter by (metis (mono_tags, lifting) mem_Collect_eq)
      moreover have "ue_reg u \<notin> ?gone" using keyed_unique [OF d(1) True] u by auto
      moreover have "dom_of old (ue_reg u) = Some (dom_val u)" using True dom_of_Some [OF d(1)] by blast
      ultimately show ?thesis by (simp add: map_add_def)
    qed
  next
    fix r v assume v: "((dom_of old |` (- ?gone)) ++ dom_of ?came) r = Some v"
    show "\<exists>u\<in>set new. ue_reg u = r"
    proof (cases "dom_of ?came r")
      case None
      then have "dom_of old r = Some v" "r \<notin> ?gone" using v by (auto simp: map_add_def restrict_map_def split: if_splits)
      then show ?thesis using dom_of_Some [OF d(1)] by auto
    next
      case (Some w)
      then show ?thesis using dom_of_Some [OF a] by auto
    qed
  qed
qed

lemma do_push_ok: "us_ok S \<Longrightarrow> us_ok (do_push A l S)"
proof -
  assume "us_ok S"
  moreover from this have "us_ok (S\<lparr>us_stk := us_tab S # us_stk S\<rparr>)" if "length (us_stk S) < 16" using that by (simp add: us_ok_def)
  ultimately show ?thesis by (simp add: do_push_def ok_bare)
qed

lemma do_pop_ok:
  assumes "us_ok S" shows "us_ok (do_pop A l S)"
proof (cases "us_stk S")
  case Nil
  then show ?thesis using assms ok_bare by (simp add: do_pop_def)
next
  case (Cons new stk)
  let ?old = "us_tab S" and ?v = "bare_ev A l UEV_POP UEB_STMT (-1)"
  let ?gone = "filter (\<lambda>u. u \<notin> set new) ?old" and ?came = "filter (\<lambda>u. u \<notin> set ?old) new"
  have k: "keyed ?old" "keyed new" "list_all keyed stk" "length stk \<le> 16" using assms Cons by (simp_all add: us_ok_def)
  have "ev_replay (us_evs S @ ?v # map (dom_ev A l UEV_DROP UEB_POP) ?gone @ map (dom_ev A l UEV_USING UEB_POP) ?came) = dom_of new" if "us_on S"
  proof -
    have e: "ev_replay (us_evs S) = dom_of ?old" using assms that by (simp add: us_ok_def)
    have v: "ev_apply ?v m = m" for m by (simp add: ev_apply_def bare_ev_def)
    have a: "distinct (map ue_reg ?came)" using k(2) by (simp add: keyed_def distinct_map_filter)
    show ?thesis using pop_replay [OF k(1,2)] replay_usings [OF a, of A l UEB_POP] by (simp add: replay_app e v replay_drops)
  qed
  then show ?thesis using k by (simp add: do_pop_def Cons Let_def us_ok_def evs_add) (simp add: uev_add_def)
qed

lemma us_step_ok: "us_ok S \<Longrightarrow> us_ok (us_step A l s S)"
  by (simp add: us_step_def do_using_ok do_drop_ok do_push_ok do_pop_ok split: ustmt.split)

lemma us_run_ok: "us_ok S \<Longrightarrow> us_ok (us_run ss S)"
  unfolding us_run_def by (induction ss arbitrary: S) (auto simp: us_step_ok)

lemma us_start_ok: "us_ok (us_start on L)"
  by (simp add: us_ok_def us_start_def keyed_def ev_replay_def dom_of_def)

subsection \<open>The stack\<close>

lemma enter_stk: "enter A l u S = Some S' \<Longrightarrow> us_stk S' = us_stk S"
  by (auto simp: enter_def split: option.splits if_splits)

lemma using_regs_stk: "us_stk (using_regs A l b s ab j fs S) = us_stk S"
  by (induction fs arbitrary: j S) (auto simp: Let_def enter_stk split: option.split)

lemma errs_stk [simp]: "us_stk ((us_err e f l ^^ n) S) = us_stk S"
  by (induction n) simp_all

lemma do_using_stk: "us_stk (do_using A l opnd S) = us_stk S"
  by (simp add: do_using_def Let_def split_beta using_regs_stk)

lemma drop_loop_stk: "us_stk (snd (drop_loop A l r k hit S)) = us_stk S"
proof (induction A l r k hit S rule: drop_loop.induct)
  case (1 A l r k hit S)
  then show ?case by (subst drop_loop.simps) simp
qed

lemma drop_regs_stk: "us_stk (drop_regs A l fs S) = us_stk S"
proof (induction fs arbitrary: S)
  case (Cons f fs)
  have "us_stk (snd (drop_loop A l r 0 False (us_noted A l f S))) = us_stk S" for r by (simp add: drop_loop_stk)
  then show ?case using Cons by (auto simp: Let_def split: option.split prod.split) (metis snd_conv)+
qed simp

lemma do_drop_stk: "us_stk (do_drop A l opnd S) = us_stk S"
  by (simp add: do_drop_def Let_def drop_regs_stk)

lemma do_pop_Cons: "us_stk S = new # stk \<Longrightarrow> us_stk (do_pop A l S) = stk \<and> us_tab (do_pop A l S) = new"
  by (simp add: do_pop_def Let_def)

text \<open>Statements whose \<^verbatim>\<open>PUSH\<close> and \<^verbatim>\<open>POP\<close> match, with \<open>d\<close> of them open and room for \<open>room\<close>.\<close>

definition pushes :: "asm \<Rightarrow> ustmt \<Rightarrow> bool" where
  "pushes A s \<longleftrightarrow> g_pass A = 2 \<and> (case s of PUSH opnd \<Rightarrow> sublist ''USING'' opnd | _ \<Rightarrow> False)"

definition pops :: "asm \<Rightarrow> ustmt \<Rightarrow> bool" where
  "pops A s \<longleftrightarrow> g_pass A = 2 \<and> (case s of POP opnd \<Rightarrow> sublist ''USING'' opnd | _ \<Rightarrow> False)"

fun nested :: "nat \<Rightarrow> nat \<Rightarrow> (asm \<times> int \<times> ustmt) list \<Rightarrow> bool" where
  "nested room d [] \<longleftrightarrow> d = 0"
| "nested room d ((A, l, s) # ss) \<longleftrightarrow>
    (if pushes A s then d < room \<and> nested room (d + 1) ss else if pops A s then 0 < d \<and> nested room (d - 1) ss else nested room d ss)"

lemma step_stk:
  shows "pushes A s \<Longrightarrow> length (us_stk S) < 16 \<Longrightarrow> us_stk (us_step A l s S) = us_tab S # us_stk S"
    "pops A s \<Longrightarrow> us_stk (us_step A l s S) = tl (us_stk S)"
    "\<not> pushes A s \<Longrightarrow> \<not> pops A s \<Longrightarrow> us_stk (us_step A l s S) = us_stk S"
proof -
  show "pushes A s \<Longrightarrow> length (us_stk S) < 16 \<Longrightarrow> us_stk (us_step A l s S) = us_tab S # us_stk S"
    by (cases s) (simp_all add: pushes_def us_step_def do_push_def)
  show "us_stk (us_step A l s S) = tl (us_stk S)" if p: "pops A s"
  proof -
    have "us_stk (do_pop A l S) = tl (us_stk S)" using do_pop_Cons by (cases "us_stk S") (auto simp: do_pop_def)
    then show ?thesis using p by (cases s) (simp_all add: pops_def us_step_def)
  qed
  show "\<not> pushes A s \<Longrightarrow> \<not> pops A s \<Longrightarrow> us_stk (us_step A l s S) = us_stk S"
    by (cases s) (auto simp: pushes_def pops_def us_step_def do_using_stk do_drop_stk)
qed

lemma us_run_Cons: "us_run ((A, l, s) # ss) S = us_run ss (us_step A l s S)"
  by (simp add: us_run_def)

lemma nested_stk:
  assumes "nested room d ss" "length xs = d" "us_stk S = xs @ stk" "d \<le> room" "length stk + room \<le> 16"
  shows "us_stk (us_run ss S) = stk"
  using assms
proof (induction room d ss arbitrary: xs S rule: nested.induct)
  case (2 room d A l s ss)
  consider "pushes A s" | "\<not> pushes A s" "pops A s" | "\<not> pushes A s" "\<not> pops A s" by blast
  then show ?case
  proof cases
    case 1
    then have "us_stk (us_step A l s S) = (us_tab S # xs) @ stk" using step_stk(1) [OF 1, of S l] 2(4-8) by simp
    then show ?thesis using 1 2(1) [OF 1, of "us_tab S # xs"] 2(4-8) by (simp add: us_run_Cons)
  next
    case two: 2
    then have "us_stk (us_step A l s S) = tl xs @ stk" using step_stk(2) [OF two(2), of l S] 2(4-8) by (cases xs) simp_all
    then show ?thesis using two 2(2) [OF two, of "tl xs"] 2(4-8) by (simp add: us_run_Cons)
  next
    case 3
    then show ?thesis using 2(3) [OF 3, of xs] 2(4-8) step_stk(3) [OF 3, of l S] by (simp add: us_run_Cons)
  qed
qed (simp add: us_run_def)

subsection \<open>The best base\<close>

definition best_of :: "(uent \<Rightarrow> bool) \<Rightarrow> bool \<Rightarrow> int \<Rightarrow> uent list \<Rightarrow> uent option \<Rightarrow> bool" where
  "best_of ok tie val us b \<longleftrightarrow> (case b of
      None \<Rightarrow> \<forall>v\<in>set us. \<not> (ok v \<and> covers val v)
    | Some u \<Rightarrow> u \<in> set us \<and> ok u \<and> covers val u
        \<and> (\<forall>v\<in>set us. ok v \<and> covers val v \<longrightarrow> ue_base v \<le> ue_base u \<and> (tie \<and> ue_base v = ue_base u \<longrightarrow> ue_reg v \<le> ue_reg u)))"

lemma scan_best_of: "best_of ok tie val us (scan_best ok tie val us)"
proof (induction us rule: rev_induct)
  case (snoc u us)
  have "scan_best ok tie val (us @ [u]) = best_step ok tie val u (scan_best ok tie val us)" by (simp add: scan_best_def)
  then show ?case using snoc by (cases "scan_best ok tie val us") (auto simp: best_step_def best_of_def)
qed (simp add: scan_best_def best_of_def)

lemma base_of_entry: "distinct (map ue_reg us) \<Longrightarrow> u \<in> set us \<Longrightarrow> using_base_of us (ue_reg u) = ue_base u"
proof -
  assume a: "distinct (map ue_reg us)" "u \<in> set us"
  then obtain w where w: "List.find (\<lambda>v. ue_reg v = ue_reg u) us = Some w"
    by (cases "List.find (\<lambda>v. ue_reg v = ue_reg u) us") (auto simp: find_None_iff)
  then have "w \<in> set us" "ue_reg w = ue_reg u" by (auto simp: find_Some_iff)
  then have "w = u" using keyed_unique [OF a(1) _ a(2)] by blast
  then show ?thesis using w by (simp add: using_base_of_def)
qed

subsection \<open>The export stays on\<close>

lemma enter_on: "enter A l u S = Some S' \<Longrightarrow> us_on S' = us_on S"
  by (auto simp: enter_def split: option.splits if_splits)

lemma using_regs_on: "us_on (using_regs A l b s ab j fs S) = us_on S"
  by (induction fs arbitrary: j S) (auto simp: Let_def enter_on split: option.split)

lemma errs_on [simp]: "us_on ((us_err e f l ^^ n) S) = us_on S"
  by (induction n) simp_all

lemma drop_loop_on: "us_on (snd (drop_loop A l r k hit S)) = us_on S"
proof (induction A l r k hit S rule: drop_loop.induct)
  case (1 A l r k hit S)
  then show ?case by (subst drop_loop.simps) simp
qed

lemma drop_regs_on: "us_on (drop_regs A l fs S) = us_on S"
proof (induction fs arbitrary: S)
  case (Cons f fs)
  have "us_on (snd (drop_loop A l r 0 False (us_noted A l f S))) = us_on S" for r by (simp add: drop_loop_on)
  then show ?case using Cons by (auto simp: Let_def split: option.split prod.split) (metis snd_conv)+
qed simp

lemma us_step_on: "us_on (us_step A l s S) = us_on S"
  by (simp add: us_step_def do_using_def do_drop_def do_push_def do_pop_def Let_def split_beta using_regs_on drop_regs_on split: ustmt.split list.split)

lemma us_run_on: "us_on (us_run ss S) = us_on S"
  unfolding us_run_def by (induction ss arbitrary: S) (simp_all add: split_beta us_step_on)

subsection \<open>Properties\<close>

definition use_sym :: "string \<Rightarrow> int \<Rightarrow> stype \<Rightarrow> nat \<Rightarrow> sym" where
  "use_sym nm v ty sec = \<lparr>sy_name = nm, sy_val = v, sy_type = ty, sy_defined = True, sy_esdid = 1, sy_sect = sec, sy_is_weak = False, sy_eq_to = 0,
     sy_xdlen = 0, sy_xdalgn = 0, sy_len = 4, sy_declared_extrn = False\<rparr>"

definition use_asm :: asm where
  "use_asm = asm_init\<lparr>syms := [use_sym ''DATA'' 8192 S_REL 2, use_sym ''R12'' 12 S_ABS 0], cur_sect_id := 1, lc := 100, g_pass := 2\<rparr>"

definition use_log :: xlog where
  "use_log = \<lparr>xe_tab = [], xe_last = (\<lambda>_. -1), xe_msgs = []\<rparr>"

definition use_stmts :: "(asm \<times> int \<times> ustmt) list" where
  "use_stmts = map (\<lambda>(l, s). (use_asm, l, s))
     [(1, USING ''DATA,11,R12''), (2, USING ''*,10''), (3, PUSH ''USING''), (4, DROP ''11''), (5, USING ''DATA+16,10''), (6, POP ''USING''), (7, USING ''DATA+4096,9'')]"

lemma use_table: "us_tab (us_run use_stmts (us_start True use_log)) =
   [\<lparr>ue_reg = 11, ue_base = 8192, ue_sect = 2, ue_isabs = False\<rparr>, \<lparr>ue_reg = 12, ue_base = 12288, ue_sect = 2, ue_isabs = False\<rparr>,
    \<lparr>ue_reg = 10, ue_base = 100, ue_sect = 1, ue_isabs = False\<rparr>, \<lparr>ue_reg = 9, ue_base = 12288, ue_sect = 2, ue_isabs = False\<rparr>]"
  by code_simp

text \<open>
  C12. Keyed by base register, the table of domains never holds a register twice nor one outside 0 to 15, over every
  sequence of \<^verbatim>\<open>USING\<close>, \<^verbatim>\<open>DROP\<close>, \<^verbatim>\<open>PUSH\<close> and \<^verbatim>\<open>POP\<close> statements with any operands: it has at most 16 entries, and the
  check for its 32 places never refuses one.
\<close>

theorem using_registers_once:
  "distinct (map ue_reg (us_tab (us_run ss (us_start on L)))) \<and> set (map ue_reg (us_tab (us_run ss (us_start on L)))) \<subseteq> {0..15}
   \<and> length (us_tab (us_run ss (us_start on L))) \<le> 16 \<and> length (us_stk (us_run ss (us_start on L))) \<le> 16"
proof -
  have "us_ok (us_run ss (us_start on L))" by (rule us_run_ok [OF us_start_ok])
  then show ?thesis using keyed_length [of "us_tab (us_run ss (us_start on L))"] by (auto simp: us_ok_def keyed_def)
qed

text \<open>
  C10. The exported events tell the whole story: a reader that walks the \<^verbatim>\<open>--usings\<close> events in order, sets a register's
  domain at a \<^verbatim>\<open>USING\<close> and clears it at a \<^verbatim>\<open>DROP\<close>, and keeps no stack, ends with the assembler's own table, whatever the
  statements were, \<^verbatim>\<open>PUSH\<close> and \<^verbatim>\<open>POP\<close> included.
\<close>

theorem using_events_replay:
  "ev_replay (us_evs (us_run ss (us_start True L))) = dom_of (us_tab (us_run ss (us_start True L)))"
proof -
  have "us_ok (us_run ss (us_start True L))" by (rule us_run_ok [OF us_start_ok])
  moreover have "us_on (us_run ss (us_start True L))" by (simp add: us_run_on us_start_def)
  ultimately show ?thesis by (simp add: us_ok_def)
qed



text \<open>
  C11. The base register chosen for a relocatable address. After any statements, \<^verbatim>\<open>using_for\<close> reports the operand
  addressable exactly when a domain of its own section reaches it, and then takes the domain with the smallest displacement,
  of several the highest register. Whenever any domain reaches the address, the register chosen with the displacement
  addresses it - the displacement fits 12 bits, and the base recovered for the listing by \<^verbatim>\<open>using_base_of\<close> plus the
  displacement is the address; otherwise it is register 0 with the address itself.
\<close>

theorem using_for_best:
  assumes "us = us_tab (us_run ss (us_start on L))" "using_for us val sect = (r, d, ok)"
  shows "(ok \<longleftrightarrow> (\<exists>u\<in>set us. ue_sect u = sect \<and> covers val u))
    \<and> (ok \<longrightarrow> (\<exists>u\<in>set us. ue_reg u = r \<and> ue_sect u = sect
         \<and> (\<forall>v\<in>set us. ue_sect v = sect \<and> covers val v \<longrightarrow> d \<le> val - ue_base v \<and> (val - ue_base v = d \<longrightarrow> ue_reg v \<le> r))))
    \<and> (if \<exists>u\<in>set us. covers val u then 0 \<le> d \<and> d < 4096 \<and> using_base_of us r + d = val else r = 0 \<and> d = val)"
proof -
  let ?own = "scan_best (\<lambda>u. ue_sect u = sect) True val us" and ?any = "scan_best (\<lambda>_. True) False val us"
  have k: "distinct (map ue_reg us)" using us_run_ok [OF us_start_ok, of ss on L] assms(1) by (simp add: us_ok_def keyed_def)
  note o = scan_best_of [of "\<lambda>u. ue_sect u = sect" True val us] and a = scan_best_of [of "\<lambda>_. True" False val us]
  show ?thesis
  proof (cases ?own)
    case (Some u)
    then have u: "u \<in> set us" "ue_sect u = sect" "covers val u" "r = ue_reg u" "d = val - ue_base u" ok
      and b: "\<forall>v\<in>set us. ue_sect v = sect \<and> covers val v \<longrightarrow> ue_base v \<le> ue_base u \<and> (ue_base v = ue_base u \<longrightarrow> ue_reg v \<le> ue_reg u)"
      using o assms(2) by (auto simp: best_of_def using_for_def Let_def)
    have "using_base_of us r = ue_base u" unfolding u(4) by (rule base_of_entry [OF k u(1)])
    moreover have "0 \<le> d" "d < 4096" using u(3,5) by (simp_all add: covers_def)
    ultimately show ?thesis using u b by auto
  next
    case None
    then have n: "\<forall>u\<in>set us. \<not> (ue_sect u = sect \<and> covers val u)" "\<not> ok" using o assms(2) by (auto simp: best_of_def using_for_def Let_def split: option.splits)
    show ?thesis
    proof (cases ?any)
      case n2: None
      then show ?thesis using n a assms(2) \<open>?own = None\<close> by (auto simp: best_of_def using_for_def)
    next
      case (Some u)
      then have u: "u \<in> set us" "covers val u" "r = ue_reg u" "d = val - ue_base u" using a assms(2) None by (auto simp: best_of_def using_for_def)
      have "using_base_of us r = ue_base u" unfolding u(3) by (rule base_of_entry [OF k u(1)])
      then show ?thesis using u n by (auto simp: covers_def)
    qed
  qed
qed

theorem using_for_best_witness:
  "using_for (us_tab (us_run use_stmts (us_start True use_log))) 12300 2 = (12, 12, True)
   \<and> using_base_of (us_tab (us_run use_stmts (us_start True use_log))) 12 + 12 = 12300"
proof -
  let ?us = "us_tab (us_run use_stmts (us_start True use_log))"
  have f: "using_for ?us 12300 2 = (12, 12, True)" unfolding use_table by code_simp
  moreover have "\<exists>u\<in>set ?us. covers 12300 u" unfolding use_table by code_simp
  ultimately show ?thesis using using_for_best [OF refl f] by simp
qed

end
