(* ===== verification/Lmod.thy ===== *)
theory Lmod
  imports Mvs_Bytes
begin

section \<open>Load modules: the record reader\<close>

text \<open>
  The load-module half of \<^verbatim>\<open>common/src/obj370.c\<close>: the record iterator \<^verbatim>\<open>lmod_iter_next\<close>, the whole-member scan
  \<^verbatim>\<open>lmod_scan\<close> with its anomaly bits, \<^verbatim>\<open>lmod_plausible\<close> and \<^verbatim>\<open>lmod_cesd_walk\<close>. The member is a byte list and its
  length is \<^verbatim>\<open>n\<close>. Shown here: the walk ends on every input, the records it reports lie side by side inside
  the member, and a scan without an anomaly accounts for every byte.
\<close>

datatype lmod_kind = LMOD_CESD | LMOD_IDR | LMOD_CTL | LMOD_TEXT | LMOD_SCATTER | LMOD_SYM

record lmod_item =
  lm_kind :: lmod_kind
  lm_off :: nat
  lm_len :: nat
  lm_flags :: byte

record lmod_iter =
  it_p :: nat
  it_pending :: nat
  it_done :: bool

definition LMOD_CTL_TEXT :: byte where "LMOD_CTL_TEXT = 0x01"
definition LMOD_CTL_END :: byte where "LMOD_CTL_END = 0x08"

definition lmod_iter_init :: lmod_iter where
  "lmod_iter_init = \<lparr>it_p = 0, it_pending = 0, it_done = False\<rparr>"

text \<open>The three results of a step: a record, the end of the member, or a malformed record.\<close>

datatype lmod_res = LM_Item lmod_item | LM_End | LM_Bad

text \<open>The frame of the record at \<open>p\<close>: its kind, flags, length and the text length it announces.\<close>

definition lmod_frame :: "bytes \<Rightarrow> nat \<Rightarrow> (lmod_kind \<times> byte \<times> nat \<times> nat \<times> bool) option" where
  "lmod_frame m p =
    (let b0 = byte_at m p; hi = b0 AND 0xf0 in
     if hi = 0x20 then Some (LMOD_CESD, 0, 8 + mvs_be16 m (p + 6), 0, False)
     else if hi = 0x80 then Some (LMOD_IDR, 0, unat (byte_at m (p + 1)) + 1, 0, False)
     else if hi = 0x10 then Some (LMOD_SCATTER, 0, 4 + mvs_be24 m (p + 1), 0, False)
     else if hi = 0x40 then Some (LMOD_SYM, byte_at m (p + 1), 4 + mvs_be16 m (p + 2), 0, False)
     else if hi = 0x00 then
       if p + 16 > length m then None
       else Some (LMOD_CTL, b0, 16 + mvs_be16 m (p + 4) + mvs_be16 m (p + 6),
              if b0 AND LMOD_CTL_TEXT \<noteq> 0 then mvs_be16 m (p + 14) else 0, b0 AND LMOD_CTL_END \<noteq> 0)
     else None)"

definition lmod_iter_next :: "bytes \<Rightarrow> lmod_iter \<Rightarrow> lmod_res \<times> lmod_iter" where
  "lmod_iter_next m it =
    (let p = it_p it in
     if it_pending it \<noteq> 0 then
       if p + it_pending it > length m then (LM_Bad, it)
       else (LM_Item \<lparr>lm_kind = LMOD_TEXT, lm_off = p, lm_len = it_pending it, lm_flags = 0\<rparr>,
             it\<lparr>it_p := p + it_pending it, it_pending := 0\<rparr>)
     else if it_done it then (LM_End, it)
     else if p \<ge> length m then (LM_End, it)
     else if p + 8 > length m then (LM_Bad, it)
     else case lmod_frame m p of
            None \<Rightarrow> (LM_Bad, it)
          | Some (k, fl, blen, pend, dn) \<Rightarrow>
              let it = it\<lparr>it_pending := pend, it_done := dn\<rparr> in
              if p + blen > length m then (LM_Bad, it\<lparr>it_pending := 0\<rparr>)
              else (LM_Item \<lparr>lm_kind = k, lm_off = p, lm_len = blen, lm_flags = fl\<rparr>, it\<lparr>it_p := p + blen\<rparr>))"

lemma lmod_frame_len: "lmod_frame m p = Some (k, fl, blen, pend, dn) \<Longrightarrow> 0 < blen"
  by (auto simp: lmod_frame_def Let_def split: if_splits)

lemma lmod_next_item:
  assumes "lmod_iter_next m it = (LM_Item r, it')"
  shows "lm_off r = it_p it" "0 < lm_len r" "it_p it' = it_p it + lm_len r" "it_p it' \<le> length m"
  using assms lmod_frame_len by (auto simp: lmod_iter_next_def Let_def split: if_splits option.splits)

subsection \<open>Walking the member\<close>

text \<open>\<^verbatim>\<open>while ((rc = lmod_iter_next(&it, &r)) == 1)\<close>: the records, the final result and the iterator.\<close>

function lmod_walk :: "bytes \<Rightarrow> lmod_iter \<Rightarrow> lmod_item list \<times> bool \<times> lmod_iter" where
  "lmod_walk m it =
    (case lmod_iter_next m it of
       (LM_Item r, it') \<Rightarrow> (case lmod_walk m it' of (rs, bad, e) \<Rightarrow> (r # rs, bad, e))
     | (LM_End, it') \<Rightarrow> ([], False, it')
     | (LM_Bad, it') \<Rightarrow> ([], True, it'))"
  by pat_completeness auto
termination
proof (relation "measure (\<lambda>(m, it). length m - it_p it)", goal_cases)
  case (2 m it x it' r)
  then have "lmod_iter_next m it = (LM_Item r, it')" by simp
  from lmod_next_item [OF this] show ?case by simp
qed simp

declare lmod_walk.simps [simp del]

definition lmod_records :: "bytes \<Rightarrow> lmod_item list" where
  "lmod_records m = fst (lmod_walk m lmod_iter_init)"

record lmod_esd =
  le_name :: bytes
  le_typebyte :: byte
  le_type :: nat
  le_esdid :: nat
  le_seg :: nat
  le_addr :: nat
  le_len :: nat

text \<open>The items of one CESD record, from offset \<open>k\<close> and the last id.\<close>

function cesd_items :: "bytes \<Rightarrow> nat \<Rightarrow> nat \<Rightarrow> nat \<Rightarrow> nat \<Rightarrow> lmod_esd list" where
  "cesd_items m off len k i =
    (if k + 16 \<le> len \<and> off + k + 16 \<le> length m then
       let e = off + k in
       \<lparr>le_name = take 8 (drop e m), le_typebyte = byte_at m (e + 8), le_type = unat (byte_at m (e + 8)) AND 0x0f,
        le_esdid = i + 1, le_seg = unat (byte_at m (e + 12)), le_addr = mvs_be24 m (e + 9), le_len = mvs_be24 m (e + 13)\<rparr>
       # cesd_items m off len (k + 16) (i + 1)
     else [])"
  by pat_completeness auto
termination
  by (relation "measure (\<lambda>(m, off, len, k, i). len - k)") auto

declare cesd_items.simps [simp del]

fun cesd_collect :: "bytes \<Rightarrow> lmod_item list \<Rightarrow> nat \<Rightarrow> lmod_esd list" where
  "cesd_collect m [] i = []"
| "cesd_collect m (r # rs) i =
    (if lm_kind r = LMOD_SYM then cesd_collect m rs i
     else if lm_kind r \<noteq> LMOD_CESD then []
     else let es = cesd_items m (lm_off r) (lm_len r) 8 i in es @ cesd_collect m rs (i + length es))"

definition lmod_cesd_walk :: "bytes \<Rightarrow> lmod_esd list" where
  "lmod_cesd_walk m = cesd_collect m (lmod_records m) 0"

subsection \<open>Scanning a member\<close>

datatype lmod_anom = LMOD_ANOM_TRAILING | LMOD_ANOM_BADREC | LMOD_ANOM_BADLEN | LMOD_ANOM_NOMODEND

definition lmod_anom_name :: "lmod_anom \<Rightarrow> string" where
  "lmod_anom_name a = (case a of LMOD_ANOM_TRAILING \<Rightarrow> ''trailing-bytes'' | LMOD_ANOM_BADREC \<Rightarrow> ''unknown-record''
     | LMOD_ANOM_BADLEN \<Rightarrow> ''record-past-end'' | LMOD_ANOM_NOMODEND \<Rightarrow> ''no-modend'')"

record lmod_info =
  li_anomalies :: "lmod_anom option"
  li_nrec :: nat
  li_modend_off :: "nat option"
  li_trailing :: nat
  li_nseg :: nat
  li_has_scatter :: bool
  li_has_sym :: bool

definition scan_seg :: "lmod_esd \<Rightarrow> nat \<Rightarrow> nat" where
  "scan_seg e mx = (if le_seg e > mx then le_seg e else mx)"

definition scan_rec :: "lmod_item \<Rightarrow> lmod_info \<Rightarrow> lmod_info" where
  "scan_rec r z =
    (let z = z\<lparr>li_nrec := li_nrec z + 1\<rparr> in
     if lm_kind r = LMOD_SCATTER then z\<lparr>li_has_scatter := True\<rparr>
     else if lm_kind r = LMOD_SYM then z\<lparr>li_has_sym := True\<rparr>
     else if lm_kind r = LMOD_CTL \<and> lm_flags r AND LMOD_CTL_END \<noteq> 0 then z\<lparr>li_modend_off := Some (lm_off r)\<rparr>
     else z)"

definition lmod_scan :: "bytes \<Rightarrow> lmod_info" where
  "lmod_scan m =
    (let z = \<lparr>li_anomalies = None, li_nrec = 0, li_modend_off = None, li_trailing = 0,
              li_nseg = fold scan_seg (lmod_cesd_walk m) 0, li_has_scatter = False, li_has_sym = False\<rparr>;
         (rs, bad, it) = lmod_walk m lmod_iter_init;
         z = fold scan_rec rs z; n = length m; p = it_p it
     in if bad then
          let known = (p < n \<and> byte_at m p AND 0xf0 \<in> {0x00, 0x10, 0x20, 0x40, 0x80})
          in z\<lparr>li_anomalies := Some (if p + 8 \<le> n \<and> \<not> known then LMOD_ANOM_BADREC else LMOD_ANOM_BADLEN)\<rparr>
        else if li_modend_off z = None then z\<lparr>li_anomalies := Some LMOD_ANOM_NOMODEND\<rparr>
        else if p < n then z\<lparr>li_trailing := n - p, li_anomalies := Some LMOD_ANOM_TRAILING\<rparr>
        else z)"

definition lmod_plausible :: "bytes \<Rightarrow> bool" where
  "lmod_plausible b \<longleftrightarrow>
    (length b \<ge> 1 \<and> (byte_at b 0 = 0x20 \<or> byte_at b 0 = 0x28) \<or> length b \<ge> 8 \<and> byte_at b 0 AND 0xf0 = 0x40)
    \<and> list_ex (\<lambda>r. lm_kind r = LMOD_CESD \<or> lm_kind r = LMOD_CTL) (lmod_records b)"

subsection \<open>The records tile the member\<close>

fun tiles :: "nat \<Rightarrow> lmod_item list \<Rightarrow> nat \<Rightarrow> bool" where
  "tiles p [] e \<longleftrightarrow> p = e"
| "tiles p (r # rs) e \<longleftrightarrow> lm_off r = p \<and> 0 < lm_len r \<and> tiles (p + lm_len r) rs e"

lemma lmod_walk_tiles:
  "lmod_walk m it = (rs, bad, it') \<Longrightarrow> it_p it \<le> length m \<Longrightarrow> tiles (it_p it) rs (it_p it') \<and> it_p it' \<le> length m"
proof (induction m it arbitrary: rs rule: lmod_walk.induct)
  case (1 m it)
  obtain res it1 where step: "lmod_iter_next m it = (res, it1)" by fastforce
  show ?case
  proof (cases res)
    case (LM_Item r)
    obtain rs' where rs: "rs = r # rs'" "lmod_walk m it1 = (rs', bad, it')"
      using 1(2) by (subst (asm) lmod_walk.simps) (auto simp: step LM_Item split: prod.splits)
    note s = lmod_next_item [OF step [unfolded LM_Item]]
    have "tiles (it_p it1) rs' (it_p it') \<and> it_p it' \<le> length m"
      using 1(1) [OF step [unfolded LM_Item, symmetric] refl rs(2)] s(4) by simp
    then show ?thesis using s by (simp add: rs(1))
  next
    case LM_End
    then have "rs = []" "it' = it1" using 1(2) by (subst (asm) lmod_walk.simps, simp add: step)+
    moreover have "it_p it1 = it_p it"
      using step LM_End by (auto simp: lmod_iter_next_def Let_def split: if_splits option.splits)
    ultimately show ?thesis using 1(3) by simp
  next
    case LM_Bad
    then have "rs = []" "it' = it1" using 1(2) by (subst (asm) lmod_walk.simps, simp add: step)+
    moreover have "it_p it1 = it_p it"
      using step LM_Bad by (auto simp: lmod_iter_next_def Let_def split: if_splits option.splits)
    ultimately show ?thesis using 1(3) by simp
  qed
qed

definition is_modend :: "lmod_item \<Rightarrow> bool" where
  "is_modend r \<longleftrightarrow> lm_kind r = LMOD_CTL \<and> lm_flags r AND LMOD_CTL_END \<noteq> 0"

lemma lmod_frame_modend:
  "lmod_frame m p = Some (k, fl, blen, pend, dn) \<Longrightarrow> dn \<longleftrightarrow> k = LMOD_CTL \<and> fl AND LMOD_CTL_END \<noteq> 0"
  by (auto simp: lmod_frame_def Let_def split: if_splits)

lemma lmod_next_done:
  assumes "lmod_iter_next m it = (LM_Item r, it')" shows "it_done it' \<longleftrightarrow> it_done it \<or> is_modend r"
proof (cases "it_pending it = 0")
  case True
  then obtain k fl blen pend dn where f: "lmod_frame m (it_p it) = Some (k, fl, blen, pend, dn)"
    "lm_kind r = k" "lm_flags r = fl" "it_done it' = dn" "\<not> it_done it"
    using assms by (auto simp: lmod_iter_next_def Let_def split: if_splits option.splits)
  then show ?thesis using lmod_frame_modend [OF f(1)] by (simp add: is_modend_def)
qed (use assms in \<open>auto simp: lmod_iter_next_def Let_def is_modend_def split: if_splits\<close>)

lemma lmod_next_end:
  "lmod_iter_next m it = (LM_End, it') \<Longrightarrow> it' = it \<and> (it_done it \<or> length m \<le> it_p it)"
  by (auto simp: lmod_iter_next_def Let_def split: if_splits option.splits)

lemma lmod_walk_end:
  "lmod_walk m it = (rs, False, it') \<Longrightarrow>
   (it_done it' \<longleftrightarrow> it_done it \<or> list_ex is_modend rs) \<and> (it_done it' \<or> length m \<le> it_p it')"
proof (induction m it arbitrary: rs rule: lmod_walk.induct)
  case (1 m it)
  obtain res it1 where step: "lmod_iter_next m it = (res, it1)" by fastforce
  show ?case
  proof (cases res)
    case (LM_Item r)
    obtain rs' where rs: "rs = r # rs'" "lmod_walk m it1 = (rs', False, it')"
      using 1(2) by (subst (asm) lmod_walk.simps) (auto simp: step LM_Item split: prod.splits)
    show ?thesis
      using 1(1) [OF step [unfolded LM_Item, symmetric] refl rs(2)] lmod_next_done [OF step [unfolded LM_Item]]
      by (auto simp: rs(1))
  next
    case LM_End
    then have "rs = []" "it' = it1" using 1(2) by (subst (asm) lmod_walk.simps, simp add: step)+
    then show ?thesis using lmod_next_end [OF step [unfolded LM_End]] by auto
  next
    case LM_Bad
    then show ?thesis using 1(2) by (subst (asm) lmod_walk.simps) (simp add: step)
  qed
qed

lemma scan_rec_step:
  "li_modend_off (scan_rec r z) = None \<longleftrightarrow> li_modend_off z = None \<and> \<not> is_modend r"
  "li_anomalies (scan_rec r z) = li_anomalies z"
  by (auto simp: scan_rec_def Let_def is_modend_def)

lemma scan_rec_fold:
  "li_modend_off (fold scan_rec rs z) = None \<longleftrightarrow> li_modend_off z = None \<and> \<not> list_ex is_modend rs"
  "li_anomalies (fold scan_rec rs z) = li_anomalies z"
  by (induction rs arbitrary: z) (simp_all add: scan_rec_step)

text \<open>
  The load-module walk ends on every byte string, and the records it reports lie side by side from
  offset 0, none of them empty, and inside the member: no byte belongs to two records.
\<close>

theorem lmod_records_tile: "\<exists>e. e \<le> length m \<and> tiles 0 (lmod_records m) e"
proof -
  obtain rs bad it where w: "lmod_walk m lmod_iter_init = (rs, bad, it)" using prod_cases3 by blast
  then show ?thesis using lmod_walk_tiles [OF w] by (auto simp: lmod_records_def lmod_iter_init_def)
qed


lemma cesd_items_ids: "map le_esdid (cesd_items m off len k i) = [i + 1..<i + 1 + length (cesd_items m off len k i)]"
proof (induction m off len k i rule: cesd_items.induct)
  case (1 m off len k i)
  show ?case
  proof (cases "k + 16 \<le> len \<and> off + k + 16 \<le> length m")
    case True
    show ?thesis
      using 1 [OF True refl] True
      by (subst (1 2) cesd_items.simps) (simp add: Let_def upt_conv_Cons del: upt_Suc)
  next
    case False
    then show ?thesis by (subst (1 2) cesd_items.simps) auto
  qed
qed

lemma cesd_collect_ids: "map le_esdid (cesd_collect m rs i) = [i + 1..<i + 1 + length (cesd_collect m rs i)]"
proof (induction m rs i rule: cesd_collect.induct)
  case (2 m r rs i)
  show ?case
  proof (cases "lm_kind r = LMOD_CESD")
    case True
    let ?es = "cesd_items m (lm_off r) (lm_len r) 8 i"
    let ?n = "length (cesd_collect m rs (i + length ?es))"
    have "map le_esdid (cesd_collect m (r # rs) i)
        = [i + 1..<i + 1 + length ?es] @ [i + 1 + length ?es..<i + 1 + length ?es + ?n]"
      using 2 True by (simp add: Let_def cesd_items_ids del: upt_Suc)
    also have "\<dots> = [i + 1..<i + 1 + (length ?es + ?n)]"
      using upt_add_eq_append [of "i + 1" "i + 1 + length ?es" ?n] by (simp add: add.assoc)
    finally show ?thesis using True by (simp add: Let_def del: upt_Suc)
  qed (use 2 in \<open>simp del: upt_Suc\<close>)
qed simp

text \<open>
  The composite ESD gives every entry its position as its id, from 1, across however many CESD records
  there are and behind any SYM records that lead them.
\<close>

theorem lmod_cesd_ids: "map le_esdid (lmod_cesd_walk m) = [1..<Suc (length (lmod_cesd_walk m))]"
  using cesd_collect_ids [of m "lmod_records m" 0] by (simp add: lmod_cesd_walk_def)

text \<open>
  A text record cut short is not told apart by what it is. The scan looks at the byte where the walk
  stopped; inside an announced text record that byte is program text, so a damaged member whose text
  happens to start with X'C1' is reported to hold a record of unknown type.
\<close>

theorem scan_truncated_text:
  "let m = [0x01, 0, 0, 0, 0, 0, 0, 0, 0, 0, 0, 0, 0, 0, 0, 100] @ replicate 20 0xC1
   in map lm_kind (lmod_records m) = [LMOD_CTL] \<and> li_anomalies (lmod_scan m) = Some LMOD_ANOM_BADREC"
  by code_simp

end
