(* ===== verification/Lmod_Segs.thy ===== *)
theory Lmod_Segs
  imports Lmod
begin

section \<open>Load modules as lists of segments\<close>

text \<open>
  The member a writer lays down, seen as a list of records, each with the text record that may follow it. Where
  every record describes itself (\<open>seg_ok\<close>) and the last one alone ends the module, the shared walk of
  \<^verbatim>\<open>obj370.c\<close> reports exactly these records, at their offsets, and the scan finds nothing to complain about. The
  composite table comes back entry by entry.
\<close>

record seg =
  sg_kind :: lmod_kind
  sg_flags :: byte
  sg_rec :: bytes
  sg_text :: bytes

definition seg_bytes :: "seg \<Rightarrow> bytes" where
  "seg_bytes s = sg_rec s @ sg_text s"

definition seg_end :: "seg \<Rightarrow> bool" where
  "seg_end s \<longleftrightarrow> sg_kind s = LMOD_CTL \<and> sg_flags s AND LMOD_CTL_END \<noteq> 0"

definition seg_ok :: "seg \<Rightarrow> bool" where
  "seg_ok s \<longleftrightarrow> 8 \<le> length (sg_rec s)
    \<and> lmod_frame (sg_rec s) 0 = Some (sg_kind s, sg_flags s, length (sg_rec s), length (sg_text s), seg_end s)"

definition seg_items :: "nat \<Rightarrow> seg \<Rightarrow> lmod_item list" where
  "seg_items off s =
    \<lparr>lm_kind = sg_kind s, lm_off = off, lm_len = length (sg_rec s), lm_flags = sg_flags s\<rparr>
    # (if sg_text s = [] then []
       else [\<lparr>lm_kind = LMOD_TEXT, lm_off = off + length (sg_rec s), lm_len = length (sg_text s), lm_flags = 0\<rparr>])"

fun seg_walk :: "nat \<Rightarrow> seg list \<Rightarrow> lmod_item list" where
  "seg_walk off [] = []"
| "seg_walk off (s # ss) = seg_items off s @ seg_walk (off + length (seg_bytes s)) ss"

fun ended :: "seg list \<Rightarrow> bool" where
  "ended [] \<longleftrightarrow> False"
| "ended (s # ss) \<longleftrightarrow> seg_ok s \<and> (if ss = [] then seg_end s else \<not> seg_end s \<and> ended ss)"

lemma ended_append: "ss \<noteq> [] \<Longrightarrow> ended (rs @ ss) \<longleftrightarrow> list_all (\<lambda>s. seg_ok s \<and> \<not> seg_end s) rs \<and> ended ss"
  by (induction rs) auto

lemma be_inside:
  "i + 1 < length R \<Longrightarrow> mvs_be16 (pre @ R @ post) (length pre + i) = mvs_be16 R i"
  "i + 2 < length R \<Longrightarrow> mvs_be24 (pre @ R @ post) (length pre + i) = mvs_be24 R i"
  using byte_at_inside [of i R pre post] byte_at_inside [of "i + 1" R pre post] byte_at_inside [of "i + 2" R pre post]
  by (simp_all add: mvs_be16_def mvs_be24_def)

lemma frame_local:
  assumes "8 \<le> length R" "lmod_frame R 0 = Some x"
  shows "lmod_frame (pre @ R @ post) (length pre) = Some x"
proof -
  have b0: "byte_at (pre @ R @ post) (length pre) = byte_at R 0" using byte_at_inside [of 0 R pre post] assms(1) by fastforce
  have b1: "byte_at (pre @ R @ post) (length pre + 1) = byte_at R 1" using assms(1) by (intro byte_at_inside) simp
  note f = assms(2) [unfolded lmod_frame_def Let_def add_0]
  show ?thesis
  proof (cases "byte_at R 0 AND 0xf0 = 0x00")
    case True
    then have "16 \<le> length R" using f by (auto split: if_splits)
    then show ?thesis using f True by (auto simp: lmod_frame_def Let_def b0 be_inside)
  next
    case False
    have n: "mvs_be24 (pre @ R @ post) (length pre + 1) = mvs_be24 R 1" "mvs_be16 (pre @ R @ post) (length pre + 2) = mvs_be16 R 2"
      "mvs_be16 (pre @ R @ post) (length pre + 6) = mvs_be16 R 6" using assms(1) by (intro be_inside; simp)+
    show ?thesis unfolding lmod_frame_def Let_def b0 b1 n using f False by (simp only: if_False refl)
  qed
qed

lemma walk_text:
  assumes "T \<noteq> []"
  shows "lmod_walk (pre @ T @ post) \<lparr>it_p = length pre, it_pending = length T, it_done = d\<rparr>
    = (case lmod_walk (pre @ T @ post) \<lparr>it_p = length (pre @ T), it_pending = 0, it_done = d\<rparr> of
        (rs, bad, e) \<Rightarrow> (\<lparr>lm_kind = LMOD_TEXT, lm_off = length pre, lm_len = length T, lm_flags = 0\<rparr> # rs, bad, e))"
  unfolding lmod_walk.simps [of _ "\<lparr>it_p = length pre, it_pending = length T, it_done = d\<rparr>"]
  using assms by (simp add: lmod_iter_next_def Let_def)

lemma walk_seg:
  assumes "seg_ok s"
  shows "lmod_walk (pre @ seg_bytes s @ post) \<lparr>it_p = length pre, it_pending = 0, it_done = False\<rparr>
    = (case lmod_walk (pre @ seg_bytes s @ post) \<lparr>it_p = length (pre @ seg_bytes s), it_pending = 0, it_done = seg_end s\<rparr> of
        (rs, bad, e) \<Rightarrow> (seg_items (length pre) s @ rs, bad, e))"
proof -
  let ?R = "sg_rec s" and ?T = "sg_text s" and ?m = "pre @ seg_bytes s @ post"
  have m: "?m = pre @ ?R @ ?T @ post" "?m = (pre @ ?R) @ ?T @ post" by (simp_all add: seg_bytes_def)
  have "lmod_frame ?m (length pre) = Some (sg_kind s, sg_flags s, length ?R, length ?T, seg_end s)"
    unfolding m(1) by (rule frame_local) (use assms in \<open>auto simp: seg_ok_def\<close>)
  moreover have "8 \<le> length ?R" using assms by (simp add: seg_ok_def)
  moreover have "length pre + length ?R \<le> length ?m" by (simp add: m(1))
  ultimately have step: "lmod_iter_next ?m \<lparr>it_p = length pre, it_pending = 0, it_done = False\<rparr>
      = (LM_Item \<lparr>lm_kind = sg_kind s, lm_off = length pre, lm_len = length ?R, lm_flags = sg_flags s\<rparr>,
         \<lparr>it_p = length (pre @ ?R), it_pending = length ?T, it_done = seg_end s\<rparr>)"
    by (auto simp: lmod_iter_next_def Let_def)
  have walk: "lmod_walk ?m \<lparr>it_p = length pre, it_pending = 0, it_done = False\<rparr>
      = (case lmod_walk ?m \<lparr>it_p = length (pre @ ?R), it_pending = length ?T, it_done = seg_end s\<rparr> of
         (rs, bad, e) \<Rightarrow> (\<lparr>lm_kind = sg_kind s, lm_off = length pre, lm_len = length ?R, lm_flags = sg_flags s\<rparr> # rs, bad, e))"
    unfolding lmod_walk.simps [of ?m "\<lparr>it_p = length pre, it_pending = 0, it_done = False\<rparr>"] step by simp
  show ?thesis
  proof (cases "?T = []")
    case True
    then show ?thesis unfolding walk by (simp add: seg_items_def seg_bytes_def)
  next
    case False
    have "lmod_walk ?m \<lparr>it_p = length (pre @ ?R), it_pending = length ?T, it_done = seg_end s\<rparr>
      = (case lmod_walk ?m \<lparr>it_p = length (pre @ seg_bytes s), it_pending = 0, it_done = seg_end s\<rparr> of
        (rs, bad, e) \<Rightarrow> (\<lparr>lm_kind = LMOD_TEXT, lm_off = length pre + length ?R, lm_len = length ?T, lm_flags = 0\<rparr> # rs, bad, e))"
      using walk_text [OF False, of "pre @ ?R" post "seg_end s"] unfolding m(2) by (simp add: seg_bytes_def add.assoc)
    then show ?thesis unfolding walk by (simp add: seg_items_def False split: prod.split)
  qed
qed

lemma walk_segs:
  "ended ss \<Longrightarrow> lmod_walk (pre @ concat (map seg_bytes ss)) \<lparr>it_p = length pre, it_pending = 0, it_done = False\<rparr>
     = (seg_walk (length pre) ss, False, \<lparr>it_p = length (pre @ concat (map seg_bytes ss)), it_pending = 0, it_done = True\<rparr>)"
proof (induction ss arbitrary: pre)
  case (Cons s ss)
  let ?post = "concat (map seg_bytes ss)"
  have ok: "seg_ok s" using Cons(2) by simp
  show ?case
  proof (cases "ss = []")
    case True
    have "lmod_walk (pre @ seg_bytes s) \<lparr>it_p = length (pre @ seg_bytes s), it_pending = 0, it_done = True\<rparr>
      = ([], False, \<lparr>it_p = length (pre @ seg_bytes s), it_pending = 0, it_done = True\<rparr>)"
      by (subst lmod_walk.simps) (simp add: lmod_iter_next_def)
    then show ?thesis using walk_seg [OF ok, of pre "[]"] Cons(2) True by simp
  next
    case False
    have "lmod_walk (pre @ seg_bytes s @ ?post) \<lparr>it_p = length (pre @ seg_bytes s), it_pending = 0, it_done = False\<rparr>
      = (seg_walk (length (pre @ seg_bytes s)) ss, False, \<lparr>it_p = length (pre @ seg_bytes s @ ?post), it_pending = 0, it_done = True\<rparr>)"
      using Cons(1) [of "pre @ seg_bytes s"] Cons(2) False by simp
    then show ?thesis using walk_seg [OF ok, of pre ?post] Cons(2) False by simp
  qed
qed simp

lemma scan_segs:
  assumes "ended ss" "m = concat (map seg_bytes ss)"
  shows "lmod_records m = seg_walk 0 ss" "li_anomalies (lmod_scan m) = None"
proof -
  have w: "lmod_walk m lmod_iter_init = (seg_walk 0 ss, False, \<lparr>it_p = length m, it_pending = 0, it_done = True\<rparr>)"
    using walk_segs [OF assms(1), of "[]"] by (simp add: lmod_iter_init_def assms(2))
  show "lmod_records m = seg_walk 0 ss" by (simp add: lmod_records_def w)
  have "list_ex is_modend (seg_walk 0 ss)" using lmod_walk_end [OF w] by (simp add: lmod_iter_init_def)
  then show "li_anomalies (lmod_scan m) = None"
    unfolding lmod_scan_def by (simp add: Let_def w scan_rec_fold)
qed

subsection \<open>The composite table\<close>

definition dec_esd :: "nat \<Rightarrow> bytes \<Rightarrow> lmod_esd" where
  "dec_esd i e = \<lparr>le_name = take 8 e, le_typebyte = byte_at e 8, le_type = unat (byte_at e 8) AND 0x0f, le_esdid = i,
     le_seg = unat (byte_at e 12), le_addr = mvs_be24 e 9, le_len = mvs_be24 e 13\<rparr>"

fun dec_list :: "nat \<Rightarrow> bytes list \<Rightarrow> lmod_esd list" where
  "dec_list i [] = []"
| "dec_list i (e # es) = dec_esd (i + 1) e # dec_list (i + 1) es"

lemma dec_list_length [simp]: "length (dec_list i es) = length es"
  by (induction es arbitrary: i) auto

lemma dec_list_nth: "k < length es \<Longrightarrow> dec_list i es ! k = dec_esd (i + k + 1) (es ! k)"
  by (induction es arbitrary: i k) (auto simp: nth_Cons split: nat.split)

lemma dec_list_append: "dec_list i (es @ fs) = dec_list i es @ dec_list (i + length es) fs"
  by (induction es arbitrary: i) auto

lemma cesd_items_entries:
  "list_all (\<lambda>e. length e = 16) es \<Longrightarrow> off + k = length pre \<Longrightarrow> len = k + 16 * length es
   \<Longrightarrow> cesd_items (pre @ concat es @ post) off len k i = dec_list i es"
proof (induction es arbitrary: pre k i)
  case Nil
  then show ?case by (subst cesd_items.simps) simp
next
  case (Cons e es)
  define m where "m = pre @ e @ concat es @ post"
  have e: "length e = 16" using Cons(2) by simp
  have m: "pre @ concat (e # es) @ post = m" by (simp add: m_def)
  have rest: "cesd_items m off len (k + 16) (i + 1) = dec_list (i + 1) es"
    using Cons(1) [of "k + 16" "pre @ e" "i + 1"] Cons(2-4) e by (simp add: m_def)
  have f: "byte_at m (length pre + 8) = byte_at e 8" "byte_at m (length pre + 12) = byte_at e 12" "mvs_be24 m (length pre + 9) = mvs_be24 e 9"
    "mvs_be24 m (length pre + 13) = mvs_be24 e 13" "take 8 (drop (length pre) m) = take 8 e"
    unfolding m_def using e by (simp_all add: byte_at_inside be_inside)
  have c: "k + 16 \<le> len \<and> off + k + 16 \<le> length m" using Cons(3,4) e by (simp add: m_def)
  show ?case
    unfolding m cesd_items.simps [of m off len k i] if_P [OF c] Let_def unfolding Cons(3) f rest by (simp add: dec_esd_def)
qed

definition cesd_seg :: "byte list \<Rightarrow> bytes list \<Rightarrow> seg" where
  "cesd_seg h es = \<lparr>sg_kind = LMOD_CESD, sg_flags = 0, sg_rec = h @ concat es, sg_text = []\<rparr>"

lemma collect_cesd:
  assumes "list_all (\<lambda>(h, es). length h = 8 \<and> list_all (\<lambda>e. length e = 16) es) cs" "sg_kind s \<noteq> LMOD_CESD" "sg_kind s \<noteq> LMOD_SYM"
  shows "cesd_collect (pre @ concat (map seg_bytes (map (\<lambda>(h, es). cesd_seg h es) cs @ s # ss)))
      (seg_walk (length pre) (map (\<lambda>(h, es). cesd_seg h es) cs @ s # ss)) i = dec_list i (concat (map snd cs))"
  using assms(1)
proof (induction cs arbitrary: pre i)
  case Nil
  then show ?case using assms(2,3) by (simp add: seg_items_def)
next
  case (Cons c cs)
  obtain h es where c: "c = (h, es)" by fastforce
  have ok: "length h = 8" "list_all (\<lambda>e. length e = 16) es" using Cons(2) by (simp_all add: c)
  have len: "length (concat es) = 16 * length es" using ok(2) by (induction es) auto
  let ?rest = "concat (map seg_bytes (map (\<lambda>(h, es). cesd_seg h es) cs @ s # ss))"
  have b: "seg_bytes (cesd_seg h es) = h @ concat es" by (simp add: cesd_seg_def seg_bytes_def)
  have "cesd_items (pre @ h @ concat es @ ?rest) (length pre) (8 + length (concat es)) 8 i = dec_list i es"
    using cesd_items_entries [OF ok(2), of "length pre" 8 "pre @ h" "8 + 16 * length es" ?rest i] ok(1) len by simp
  moreover have "cesd_collect (pre @ h @ concat es @ ?rest) (seg_walk (length pre + (8 + length (concat es))) (map (\<lambda>(h, es). cesd_seg h es) cs @ s # ss)) (i + length es)
      = dec_list (i + length es) (concat (map snd cs))"
    using Cons(1) [of "pre @ h @ concat es" "i + length es"] Cons(2) ok(1) by (simp add: add.assoc)
  moreover have "seg_items (length pre) (cesd_seg h es) = [\<lparr>lm_kind = LMOD_CESD, lm_off = length pre, lm_len = 8 + length (concat es), lm_flags = 0\<rparr>]"
    using ok(1) by (simp add: seg_items_def cesd_seg_def)
  ultimately show ?case using ok(1) by (simp add: c b dec_list_append Let_def)
qed

end
