(* ===== verification/Ar_Archive.thy ===== *)
theory Ar_Archive
  imports Obj_Cards Fmt370 Rec_Chain
begin

section \<open>ar370: archives of object decks\<close>

text \<open>
  \<^verbatim>\<open>ar370/src/ar370.c\<close>: checking the inputs, the scan of their external symbols, the archive writer and the
  listing. A file is a byte list, \<open>None\<close> where it cannot be read; the archive is the byte list written. What
  \<^verbatim>\<open>list\<close> prints is returned. The growing arrays are lists.
\<close>

definition ar_magic :: bytes where
  "ar_magic = str_bytes ''!<arch>'' @ [0x0A]"

definition MEMBER_NAME_MAX :: nat where "MEMBER_NAME_MAX = 63"
definition AR_SIZE_MAX :: nat where "AR_SIZE_MAX = 9999999999"

datatype deck_reason = IS_ARCHIVE | NOT_CARDS | NOT_X02 | NO_END

datatype ar_error = AR_OPEN string | AR_NOT_DECK string deck_reason | AR_NAME_LONG string | AR_TOO_BIG nat | AR_NOT_ARCHIVE

record objf =
  of_member :: string
  of_data :: bytes
  of_lnoff :: "nat option"

record arsym =
  as_name :: string
  as_obj :: nat

definition basename_of :: "string \<Rightarrow> string" where
  "basename_of p = rev (takeWhile (\<lambda>c. \<not> (c = CHR ''/'' \<or> c = char_of (92 :: nat))) (rev p))"

subsection \<open>The symbols a deck exports\<close>

definition esd_name :: "bytes \<Rightarrow> string option" where
  "esd_name e =
    (let nm = map (\<lambda>b. bchar (mvs_e2a_pr b)) (take 8 e)
     in if list_all (\<lambda>b. b = 0x40) (take 8 e) then None else Some (rev (dropWhile (\<lambda>c. c = CHR '' '') (rev nm))))"

function scan_card :: "bytes \<Rightarrow> nat \<Rightarrow> nat \<Rightarrow> string list" where
  "scan_card c cnt k =
    (if k * 16 < cnt \<and> 16 + (k + 1) * 16 \<le> 80 then
       let e = drop (16 + k * 16) c; t = unat (byte_at e 8) AND 0x0f;
           rest = scan_card c cnt (k + 1)
       in if \<not> (t = 0x00 \<or> t = 0x01 \<or> t = 0x04 \<or> t = 0x05) then rest
          else case esd_name e of None \<Rightarrow> rest | Some nm \<Rightarrow> nm # rest
     else [])"
  by pat_completeness auto
termination
  by (relation "measure (\<lambda>(c, cnt, k). cnt - k)") auto

declare scan_card.simps [simp del]

function deck_cards :: "bytes \<Rightarrow> bytes list" where
  "deck_cards d = (if 80 \<le> length d then take 80 d # deck_cards (drop 80 d) else [])"
  by pat_completeness auto
termination
  by (relation "measure length") auto

declare deck_cards.simps [simp del]

definition scan_esd :: "bytes \<Rightarrow> string list" where
  "scan_esd d = concat (map (\<lambda>c.
     if \<not> (byte_at c 0 = 0x02 \<and> byte_at c 1 = 0xC5 \<and> byte_at c 2 = 0xE2 \<and> byte_at c 3 = 0xC4) then []
     else scan_card c (mvs_be16 c 10) 0) (deck_cards d))"

subsection \<open>Reading the inputs\<close>

definition not_a_deck :: "bytes \<Rightarrow> deck_reason option" where
  "not_a_deck d =
    (if length d \<ge> 8 \<and> take 8 d = ar_magic then Some IS_ARCHIVE
     else if length d = 0 \<or> length d mod 80 \<noteq> 0 then Some NOT_CARDS
     else if \<not> list_all (\<lambda>c. byte_at c 0 = 0x02) (deck_cards d) then Some NOT_X02
     else if list_ex (\<lambda>c. byte_at c 1 = 0xC5 \<and> byte_at c 2 = 0xD5 \<and> byte_at c 3 = 0xC4) (deck_cards d) then None
     else Some NO_END)"

fun read_inputs :: "(string \<times> bytes option) list \<Rightarrow> objf list \<Rightarrow> arsym list \<Rightarrow> nat
    \<Rightarrow> ar_error + (objf list \<times> arsym list \<times> nat)" where
  "read_inputs [] os ss lndata = Inr (os, ss, lndata)"
| "read_inputs ((path, file) # ins) os ss lndata =
    (case file of
       None \<Rightarrow> Inl (AR_OPEN path)
     | Some d \<Rightarrow>
         (case not_a_deck d of
            Some why \<Rightarrow> Inl (AR_NOT_DECK path why)
          | None \<Rightarrow>
              let m = basename_of path; len = length m in
              if len > MEMBER_NAME_MAX then Inl (AR_NAME_LONG path)
              else
                let ln = (if len > 15 then Some lndata else None);
                    lndata = (if len > 15 then lndata + len + 2 else lndata)
                in read_inputs ins (os @ [\<lparr>of_member = m, of_data = d, of_lnoff = ln\<rparr>])
                     (ss @ map (\<lambda>nm. \<lparr>as_name = nm, as_obj = length os\<rparr>) (scan_esd d)) lndata))"

subsection \<open>Writing\<close>

definition ar_hdr :: "string \<Rightarrow> nat \<Rightarrow> ar_error + bytes" where
  "ar_hdr namefield sz =
    (if sz > AR_SIZE_MAX then Inl (AR_TOO_BIG sz)
     else Inr (take 60 (str_bytes (fmt_s 16 namefield @ fmt_d 12 0 @ fmt_d 6 0 @ fmt_d 6 0 @ fmt_s 8 ''100644''
       @ fmt_d 10 sz) @ [0x60, 0x0A])))"

definition pad_even :: "nat \<Rightarrow> bytes" where
  "pad_even n = (if n mod 2 \<noteq> 0 then [0x0A] else [])"

definition write_symtab :: "arsym list \<Rightarrow> nat \<Rightarrow> nat list \<Rightarrow> ar_error + bytes" where
  "write_symtab ss symdata objoff =
    (case ar_hdr ''/'' symdata of
       Inl e \<Rightarrow> Inl e
     | Inr h \<Rightarrow> Inr (h @ mvs_put32 (int (length ss))
         @ concat (map (\<lambda>s. mvs_put32 (int (objoff ! as_obj s))) ss)
         @ concat (map (\<lambda>s. str_bytes (as_name s) @ [0]) ss) @ pad_even symdata))"

definition member_field :: "objf \<Rightarrow> string" where
  "member_field ob = (case of_lnoff ob of
     Some n \<Rightarrow> if n \<le> AR_SIZE_MAX then take 16 (CHR ''/'' # dec_digits n) else take 15 (of_member ob) @ ''/''
   | None \<Rightarrow> take 15 (of_member ob) @ ''/'')"

fun write_members :: "objf list \<Rightarrow> ar_error + bytes" where
  "write_members [] = Inr []"
| "write_members (ob # os) =
    (case ar_hdr (member_field ob) (length (of_data ob)) of
       Inl e \<Rightarrow> Inl e
     | Inr h \<Rightarrow> (case write_members os of Inl e \<Rightarrow> Inl e
         | Inr r \<Rightarrow> Inr (h @ of_data ob @ pad_even (length (of_data ob)) @ r)))"

definition long_names :: "objf list \<Rightarrow> bytes" where
  "long_names os = concat (map (\<lambda>ob. if of_lnoff ob \<noteq> None then str_bytes (of_member ob @ ''/'') @ [0x0A] else []) os)"

fun obj_offs :: "nat \<Rightarrow> objf list \<Rightarrow> nat list" where
  "obj_offs off [] = []"
| "obj_offs off (ob # os) = off # obj_offs (off + 60 + length (of_data ob) + length (of_data ob) mod 2) os"

definition sym_size :: "arsym list \<Rightarrow> nat" where
  "sym_size ss = 4 + 4 * length ss + sum_list (map (\<lambda>s. length (as_name s) + 1) ss)"

definition first_off :: "arsym list \<Rightarrow> nat \<Rightarrow> nat" where
  "first_off ss lndata =
    (let symdata = sym_size ss; symmember = 60 + symdata + symdata mod 2;
         lnmember = (if lndata \<noteq> 0 then 60 + lndata + lndata mod 2 else 0)
     in 8 + symmember + lnmember)"

definition create :: "(string \<times> bytes option) list \<Rightarrow> ar_error + bytes" where
  "create ins =
    (case read_inputs ins [] [] 0 of
       Inl e \<Rightarrow> Inl e
     | Inr (os, ss, lndata) \<Rightarrow>
         (case write_symtab ss (sym_size ss) (obj_offs (first_off ss lndata) os) of
            Inl e \<Rightarrow> Inl e
          | Inr st \<Rightarrow>
              (case (if lndata \<noteq> 0 then
                       case ar_hdr ''//'' lndata of Inl e \<Rightarrow> Inl e | Inr h \<Rightarrow> Inr (h @ long_names os @ pad_even lndata)
                     else Inr []) of
                 Inl e \<Rightarrow> Inl e
               | Inr ln \<Rightarrow> (case write_members os of Inl e \<Rightarrow> Inl e | Inr ms \<Rightarrow> Inr (ar_magic @ st @ ln @ ms)))))"

subsection \<open>Walking an archive\<close>

text \<open>
  The header walk of \<^verbatim>\<open>list\<close> and of ld370's \<^verbatim>\<open>load_archive\<close>, with the way each reads the size field. A size
  below -60 or so makes the step zero or negative: the C loop then stands still or leaves the buffer, and
  the walk has no result.
\<close>

definition list_size :: "bytes \<Rightarrow> nat \<Rightarrow> int" where
  "list_size a q = atol (drop (q + 48) a)"

function ar_walk :: "(bytes \<Rightarrow> nat \<Rightarrow> int) \<Rightarrow> bytes \<Rightarrow> nat \<Rightarrow> (nat \<times> int) list option" where
  "ar_walk sz a q =
    (if q + 60 \<le> length a then
       let m = sz a q; step = 60 + m + (m AND 1) in
       if step \<le> 0 then None
       else case ar_walk sz a (q + nat step) of None \<Rightarrow> None | Some hs \<Rightarrow> Some ((q, m) # hs)
     else Some [])"
  by pat_completeness auto
termination
  by (relation "measure (\<lambda>(sz, a, q). length a - q)") auto

declare ar_walk.simps [simp del]

definition ar_member_name :: "bytes \<Rightarrow> bytes option \<Rightarrow> nat \<Rightarrow> string" where
  "ar_member_name h ln outsz =
    (case ln of
       Some l \<Rightarrow>
         if byte_at h 0 = 0x2F \<and> 0x30 \<le> byte_at h 1 \<and> byte_at h 1 \<le> 0x39 then
           map bchar (takeWhile (\<lambda>b. b \<noteq> 0) (take (outsz - 1) (takeWhile (\<lambda>b. b \<noteq> 0x2F \<and> b \<noteq> 0x0A) (drop (nat (atol (drop 1 h))) l))))
         else map bchar (takeWhile (\<lambda>b. b \<noteq> 0) (take (outsz - 1) (takeWhile (\<lambda>b. b \<noteq> 0x2F \<and> b \<noteq> 0x20) (take 16 h))))
     | None \<Rightarrow> map bchar (takeWhile (\<lambda>b. b \<noteq> 0) (take (outsz - 1) (takeWhile (\<lambda>b. b \<noteq> 0x2F \<and> b \<noteq> 0x20) (take 16 h)))))"

fun sym_names :: "nat \<Rightarrow> bytes \<Rightarrow> string list" where
  "sym_names 0 names = []"
| "sym_names (Suc n) names =
    (let nm = takeWhile (\<lambda>b. b \<noteq> 0) names in map bchar nm # sym_names n (drop (length nm + 1) names))"

definition list_symbols :: "bytes \<Rightarrow> bytes \<Rightarrow> bytes option \<Rightarrow> (string \<times> string) list" where
  "list_symbols a symtab ln =
    (let cnt = mvs_be32 symtab 0; names = sym_names cnt (drop (4 + 4 * cnt) symtab)
     in map (\<lambda>s. let mo = mvs_be32 symtab (4 + 4 * s)
          in (names ! s, if mo \<ge> 8 \<and> mo + 60 \<le> length a then ar_member_name (drop mo a) ln (MEMBER_NAME_MAX + 1) else ''?''))
        [0..<cnt])"

text \<open>The members with their sizes, and the symbols with the member that defines each.\<close>

definition list_archive :: "bytes \<Rightarrow> ar_error + ((string \<times> int) list \<times> (string \<times> string) list) option" where
  "list_archive a =
    (if length a < 8 \<or> take 8 a \<noteq> ar_magic then Inl AR_NOT_ARCHIVE
     else Inr (case ar_walk list_size a 8 of
       None \<Rightarrow> None
     | Some hs \<Rightarrow>
         let syms = filter (\<lambda>(q, m). byte_at a q = 0x2F \<and> byte_at a (q + 1) = 0x20) hs;
             lns = filter (\<lambda>(q, m). byte_at a q = 0x2F \<and> byte_at a (q + 1) = 0x2F) hs;
             ln = (if lns = [] then None else let (q, m) = last lns in Some (take (nat m) (drop (q + 60) a)));
             mems = filter (\<lambda>(q, m). byte_at a q \<noteq> 0x2F \<or> 0x30 \<le> byte_at a (q + 1) \<and> byte_at a (q + 1) \<le> 0x39) hs
         in Some (map (\<lambda>(q, m). (ar_member_name (drop q a) ln (MEMBER_NAME_MAX + 1), m)) mems,
              if syms = [] then [] else list_symbols a (drop (fst (last syms) + 60) a) ln)))"

subsection \<open>Archives are chains\<close>

definition hdr60 :: "string \<Rightarrow> nat \<Rightarrow> bytes" where
  "hdr60 nf n = str_bytes (fmt_s 16 nf) @ str_bytes (fmt_d 12 0 @ fmt_d 6 0 @ fmt_d 6 0 @ fmt_s 8 ''100644'')
     @ str_bytes (fmt_d 10 n) @ [0x60, 0x0A]"

definition ar_chunk :: "string \<times> bytes \<Rightarrow> bytes" where
  "ar_chunk c = hdr60 (fst c) (length (snd c)) @ snd c @ pad_even (length (snd c))"

definition chunk_ok :: "string \<times> bytes \<Rightarrow> bool" where
  "chunk_ok c \<longleftrightarrow> length (snd c) \<le> AR_SIZE_MAX"

lemma fmt_d_length: "n \<le> AR_SIZE_MAX \<Longrightarrow> length (fmt_d 10 n) = 10"
  by (rule fmt_lengths(2), rule dec_digits_length) (simp_all add: AR_SIZE_MAX_def)

lemma fmt_d_0: "0 < w \<Longrightarrow> length (fmt_d w 0) = w"
  by (rule fmt_lengths(2)) (simp add: dec_digits.simps)

lemma hdr60_length: "n \<le> AR_SIZE_MAX \<Longrightarrow> length (hdr60 nf n) = 60"
  by (simp add: hdr60_def fmt_lengths(1) fmt_d_length fmt_d_0)

lemma ar_hdr_60: "ar_hdr nf n = (if n > AR_SIZE_MAX then Inl (AR_TOO_BIG n) else Inr (hdr60 nf n))"
proof -
  have "str_bytes (fmt_s 16 nf @ fmt_d 12 0 @ fmt_d 6 0 @ fmt_d 6 0 @ fmt_s 8 ''100644'' @ fmt_d 10 n) @ [0x60, 0x0A] = hdr60 nf n"
    by (simp add: hdr60_def)
  then show ?thesis unfolding ar_hdr_def by (simp add: hdr60_length)
qed

lemma hdr60_size:
  assumes "n \<le> AR_SIZE_MAX"
  shows "take 10 (drop 48 (hdr60 nf n @ r)) = str_bytes (fmt_d 10 n)"
    "drop 48 (hdr60 nf n @ r) = str_bytes (fmt_d 10 n) @ [0x60, 0x0A] @ r"
    "take 16 (hdr60 nf n @ r) = str_bytes (fmt_s 16 nf)"
proof -
  let ?p = "str_bytes (fmt_s 16 nf) @ str_bytes (fmt_d 12 0 @ fmt_d 6 0 @ fmt_d 6 0 @ fmt_s 8 ''100644'')"
  have l: "length ?p = 48" by (simp add: fmt_lengths(1) fmt_d_0)
  have "hdr60 nf n @ r = ?p @ str_bytes (fmt_d 10 n) @ [0x60, 0x0A] @ r" by (simp add: hdr60_def)
  then show d: "drop 48 (hdr60 nf n @ r) = str_bytes (fmt_d 10 n) @ [0x60, 0x0A] @ r"
    using l by (metis append_eq_conv_conj)
  show "take 10 (drop 48 (hdr60 nf n @ r)) = str_bytes (fmt_d 10 n)"
    unfolding d using fmt_d_length [OF assms] by simp
  show "take 16 (hdr60 nf n @ r) = str_bytes (fmt_s 16 nf)" by (simp add: hdr60_def fmt_lengths(1))
qed

text \<open>Both ways to read the size field give the size.\<close>

definition size10 :: "bytes \<Rightarrow> nat \<Rightarrow> int" where
  "size10 a q = atol (take 10 (drop (q + 48) a))"

lemma chunk_size:
  assumes "chunk_ok c"
  shows "size10 (pre @ ar_chunk c @ suf) (length pre) = int (length (snd c))"
    "list_size (pre @ ar_chunk c @ suf) (length pre) = int (length (snd c))"
proof -
  let ?n = "length (snd c)"
  have n: "?n \<le> AR_SIZE_MAX" using assms by (simp add: chunk_ok_def)
  have d: "drop (length pre + 48) (pre @ ar_chunk c @ suf) = drop 48 (hdr60 (fst c) ?n @ (snd c @ pad_even ?n @ suf))"
    by (simp add: ar_chunk_def)
  show "size10 (pre @ ar_chunk c @ suf) (length pre) = int ?n"
    unfolding size10_def d hdr60_size(1) [OF n] using atol_field [of "[]"] by simp
  show "list_size (pre @ ar_chunk c @ suf) (length pre) = int ?n"
    unfolding list_size_def d hdr60_size(2) [OF n] using atol_field [of "[0x60, 0x0A] @ snd c @ pad_even ?n @ suf"] blank_not_num by simp
qed

definition chunk_step :: "(bytes \<Rightarrow> nat \<Rightarrow> int) \<Rightarrow> bytes \<Rightarrow> nat \<Rightarrow> nat" where
  "chunk_step sz a q = nat (60 + sz a q + (sz a q AND 1))"

lemma chunk_length: "chunk_ok c \<Longrightarrow> length (ar_chunk c) = 60 + length (snd c) + length (snd c) mod 2"
  by (auto simp: ar_chunk_def chunk_ok_def hdr60_length pad_even_def mod_2_eq_odd)

lemma int_and_1: "int n AND 1 = int (n mod 2)"
  by (simp add: and_one_eq zmod_int)

interpretation arc: rec_chain ar_chunk "chunk_step size10" chunk_ok
  by unfold_locales (simp_all add: chunk_step_def chunk_size int_and_1 chunk_length nat_add_distrib)

interpretation arl: rec_chain ar_chunk "chunk_step list_size" chunk_ok
  by unfold_locales (simp_all add: chunk_step_def chunk_size int_and_1 chunk_length nat_add_distrib)

fun chunk_offs :: "nat \<Rightarrow> (string \<times> bytes) list \<Rightarrow> (nat \<times> int) list" where
  "chunk_offs p [] = []"
| "chunk_offs p (c # cs) = (p, int (length (snd c))) # chunk_offs (p + length (ar_chunk c)) cs"

lemma ar_walk_chain:
  assumes "list_all chunk_ok cs" "sz = size10 \<or> sz = list_size"
  shows "ar_walk sz (pre @ arc.chain cs) (length pre) = Some (chunk_offs (length pre) cs)"
  using assms(1)
proof (induction cs arbitrary: pre)
  case Nil
  then show ?case by (simp add: ar_walk.simps)
next
  case (Cons c cs)
  have ok: "chunk_ok c" using Cons.prems by simp
  have sz: "sz (pre @ ar_chunk c @ arc.chain cs) (length pre) = int (length (snd c))"
    using assms(2) chunk_size [OF ok] by auto
  have len: "60 + int (length (snd c)) + (int (length (snd c)) AND 1) = int (length (ar_chunk c))"
    by (simp add: chunk_length [OF ok] int_and_1)
  have "ar_walk sz ((pre @ ar_chunk c) @ arc.chain cs) (length (pre @ ar_chunk c)) = Some (chunk_offs (length (pre @ ar_chunk c)) cs)"
    using Cons.prems by (intro Cons.IH) simp
  moreover have "length pre + 60 \<le> length (pre @ ar_chunk c @ arc.chain cs)" "0 < length (ar_chunk c)"
    by (simp_all add: chunk_length [OF ok])
  ultimately show ?case
    by (subst ar_walk.simps) (simp add: sz Let_def len)
qed

subsection \<open>What create writes\<close>

definition sym_bytes :: "arsym list \<Rightarrow> nat list \<Rightarrow> bytes" where
  "sym_bytes ss objoff = mvs_put32 (int (length ss)) @ concat (map (\<lambda>s. mvs_put32 (int (objoff ! as_obj s))) ss)
     @ concat (map (\<lambda>s. str_bytes (as_name s) @ [0]) ss)"

definition obj_chunk :: "objf \<Rightarrow> string \<times> bytes" where
  "obj_chunk ob = (member_field ob, of_data ob)"

definition ar_chunks :: "objf list \<Rightarrow> arsym list \<Rightarrow> nat \<Rightarrow> (string \<times> bytes) list" where
  "ar_chunks os ss lndata = (''/'', sym_bytes ss (obj_offs (first_off ss lndata) os))
     # (if lndata \<noteq> 0 then [(''//'', long_names os)] else []) @ map obj_chunk os"

lemma sym_bytes_length: "length (sym_bytes ss off) = sym_size ss"
proof -
  have "length (concat (map (\<lambda>s. mvs_put32 (f s)) ss)) = 4 * length ss" for f
    by (induction ss) auto
  moreover have "length (concat (map (\<lambda>s. str_bytes (as_name s) @ [0]) ss)) = sum_list (map (\<lambda>s. length (as_name s) + 1) ss)"
    by (induction ss) auto
  ultimately show ?thesis by (simp add: sym_bytes_def sym_size_def)
qed

lemma obj_chunk_simps:
  "ar_chunk (obj_chunk ob) = hdr60 (member_field ob) (length (of_data ob)) @ of_data ob @ pad_even (length (of_data ob))"
  "chunk_ok (obj_chunk ob) \<longleftrightarrow> length (of_data ob) \<le> AR_SIZE_MAX"
  by (simp_all add: ar_chunk_def obj_chunk_def chunk_ok_def)

lemma write_members_chain:
  "write_members os = Inr ms \<Longrightarrow> list_all chunk_ok (map obj_chunk os) \<and> ms = arc.chain (map obj_chunk os)"
proof (induction os arbitrary: ms)
  case (Cons ob os)
  then show ?case
    by (auto simp: ar_hdr_60 obj_chunk_simps split: if_splits sum.splits)
qed simp

lemma read_inputs_lndata:
  assumes "read_inputs ins os ss n = Inr (os', ss', n')" "length (long_names os) = n"
    "list_all (\<lambda>ob. of_lnoff ob = None \<longleftrightarrow> length (of_member ob) \<le> 15) os"
  shows "length (long_names os') = n' \<and> list_all (\<lambda>ob. of_lnoff ob = None \<longleftrightarrow> length (of_member ob) \<le> 15) os'"
  using assms
proof (induction ins os ss n rule: read_inputs.induct)
  case (2 path fl ins os ss lndata)
  then show ?case
    by (auto simp: Let_def long_names_def split: option.splits if_splits)
qed simp

lemma create_chain:
  assumes "create ins = Inr a"
  obtains os ss lndata where "read_inputs ins [] [] 0 = Inr (os, ss, lndata)" "list_all chunk_ok (ar_chunks os ss lndata)"
    "a = ar_magic @ arc.chain (ar_chunks os ss lndata)"
proof -
  obtain os ss lndata where r: "read_inputs ins [] [] 0 = Inr (os, ss, lndata)"
    using assms by (auto simp: create_def split: sum.splits)
  have ln: "length (long_names os) = lndata"
    using read_inputs_lndata [OF r] by (simp add: long_names_def)
  let ?sb = "sym_bytes ss (obj_offs (first_off ss lndata) os)"
  obtain ms where w: "sym_size ss \<le> AR_SIZE_MAX" "lndata \<noteq> 0 \<Longrightarrow> lndata \<le> AR_SIZE_MAX" "write_members os = Inr ms"
    "a = ar_magic @ ar_chunk (''/'', ?sb) @ (if lndata \<noteq> 0 then ar_chunk (''//'', long_names os) else []) @ ms"
    using assms r
    by (auto simp: create_def write_symtab_def ar_hdr_60 ar_chunk_def sym_bytes_length ln sym_bytes_def [symmetric]
        split: sum.splits if_splits)
  then show ?thesis
    using write_members_chain [OF w(3)] ln
    by (intro that [OF r]) (auto simp: ar_chunks_def chunk_ok_def sym_bytes_length)
qed

subsection \<open>The tables behind an archive\<close>

definition obj_syms :: "nat \<Rightarrow> objf list \<Rightarrow> arsym list" where
  "obj_syms k os = concat (map (\<lambda>(i, ob). map (\<lambda>nm. \<lparr>as_name = nm, as_obj = i\<rparr>) (scan_esd (of_data ob))) (enumerate k os))"

definition ln_ok :: "objf list \<Rightarrow> bool" where
  "ln_ok os \<longleftrightarrow> (\<forall>i<length os. of_lnoff (os ! i) =
     (if 15 < length (of_member (os ! i)) then Some (length (long_names (take i os))) else None))"

lemma obj_syms_snoc: "obj_syms 0 (os @ [ob]) = obj_syms 0 os @ map (\<lambda>nm. \<lparr>as_name = nm, as_obj = length os\<rparr>) (scan_esd (of_data ob))"
  by (simp add: obj_syms_def enumerate_append_eq)

lemma ln_ok_snoc:
  assumes "ln_ok os" "of_lnoff ob = (if 15 < length (of_member ob) then Some (length (long_names os)) else None)"
  shows "ln_ok (os @ [ob])"
  using assms by (auto simp: ln_ok_def nth_append less_Suc_eq)

lemma long_names_snoc:
  "long_names (os @ [ob]) = long_names os @ (if of_lnoff ob \<noteq> None then str_bytes (of_member ob @ ''/'') @ [0x0A] else [])"
  by (simp add: long_names_def)

lemma read_inputs_spec:
  assumes "read_inputs ins os ss n = Inr (os', ss', n')" "ss = obj_syms 0 os" "ln_ok os" "n = length (long_names os)"
  shows "ss' = obj_syms 0 os' \<and> ln_ok os' \<and> n' = length (long_names os')
    \<and> map of_member os' = map of_member os @ map (basename_of \<circ> fst) ins
    \<and> map (\<lambda>ob. Some (of_data ob)) os' = map (\<lambda>ob. Some (of_data ob)) os @ map snd ins"
  using assms
proof (induction ins os ss n rule: read_inputs.induct)
  case (2 path fl ins os ss lndata)
  obtain d where d: "fl = Some d" "not_a_deck d = None" using 2(2) by (auto split: option.splits)
  let ?m = "basename_of path"
  have len: "\<not> length ?m > MEMBER_NAME_MAX" using 2(2) d by (auto simp: Let_def split: if_splits)
  define ob where "ob = \<lparr>of_member = ?m, of_data = d, of_lnoff = if length ?m > 15 then Some lndata else None\<rparr>"
  let ?ss = "ss @ map (\<lambda>nm. \<lparr>as_name = nm, as_obj = length os\<rparr>) (scan_esd d)"
  let ?ln = "if length ?m > 15 then lndata + length ?m + 2 else lndata"
  have run: "read_inputs ins (os @ [ob]) ?ss ?ln = Inr (os', ss', n')"
    using 2(2) d len by (simp add: ob_def Let_def)
  have "?ss = obj_syms 0 (os @ [ob])" "ln_ok (os @ [ob])" "?ln = length (long_names (os @ [ob]))"
    using 2(3-5) by (simp_all add: obj_syms_snoc long_names_snoc ob_def ln_ok_snoc)
  from 2(1) [OF d refl refl len refl refl run [unfolded ob_def] this [unfolded ob_def]]
  show ?case by (simp add: d)
qed simp

lemma long_name_at:
  assumes "ln_ok os" "i < length os" "15 < length (of_member (os ! i))"
  obtains n r where "of_lnoff (os ! i) = Some n" "drop n (long_names os) = str_bytes (of_member (os ! i)) @ 0x2F # r"
    "n \<le> length (long_names os)"
proof -
  let ?n = "length (long_names (take i os))"
  have o: "of_lnoff (os ! i) = Some ?n" using assms by (simp add: ln_ok_def)
  have "long_names (xs @ ys) = long_names xs @ long_names ys" for xs ys
    by (simp add: long_names_def)
  then have "long_names os = long_names (take i os) @ long_names (os ! i # drop (Suc i) os)"
    by (metis assms(2) id_take_nth_drop)
  moreover have "long_names (os ! i # drop (Suc i) os) = str_bytes (of_member (os ! i)) @ 0x2F # 0x0A # long_names (drop (Suc i) os)"
    using o by (simp add: long_names_def ascii_def)
  ultimately show ?thesis using that [OF o] by simp
qed

lemma sym_names_read:
  assumes "\<forall>s\<in>set ss. 0 \<notin> set (str_bytes (as_name s))"
  shows "sym_names (length ss) (concat (map (\<lambda>s. str_bytes (as_name s) @ [0]) ss) @ r) = map as_name ss"
  using assms
proof (induction ss)
  case (Cons s ss)
  let ?n = "str_bytes (as_name s)"
  have "takeWhile (\<lambda>b. b \<noteq> 0) (?n @ 0 # z) = ?n" for z
    using Cons.prems by (subst takeWhile_append2) (auto simp del: str_bytes_simps)
  moreover have "map bchar ?n = as_name s" by (simp add: str_bytes_def o_def)
  ultimately show ?case using Cons by (simp add: Let_def)
qed simp

lemma put32_table:
  assumes "\<forall>v\<in>set vs. v < 2 ^ 32" "i < length vs"
  shows "mvs_be32 (pre @ concat (map (\<lambda>v. mvs_put32 (int v)) vs) @ r) (length pre + 4 * i) = vs ! i"
proof -
  have "vs = take i vs @ vs ! i # drop (Suc i) vs" using assms(2) by (rule id_take_nth_drop)
  then have "concat (map (\<lambda>v. mvs_put32 (int v)) vs)
      = concat (map (\<lambda>v. mvs_put32 (int v)) (take i vs)) @ mvs_put32 (int (vs ! i)) @ concat (map (\<lambda>v. mvs_put32 (int v)) (drop (Suc i) vs))"
    by (metis concat.simps(2) concat_append list.simps(9) map_append)
  moreover have "length (concat (map (\<lambda>v. mvs_put32 (int v)) us)) = 4 * length us" for us
    by (induction us) auto
  ultimately show ?thesis
    using f32.get_put_exact [of "int (vs ! i)" "pre @ concat (map (\<lambda>v. mvs_put32 (int v)) (take i vs))"
        "concat (map (\<lambda>v. mvs_put32 (int v)) (drop (Suc i) vs)) @ r"] assms by (simp add: min_def)
qed

subsection \<open>The scan is the shared reader's walk\<close>

definition exports :: "obj_esd \<Rightarrow> bool" where
  "exports e \<longleftrightarrow> oe_type e \<in> {OBJ_SD, OBJ_LD, OBJ_PC, OBJ_CM} \<and> oe_name e \<noteq> replicate 8 0x40"

lemma esd_name_nm:
  assumes "length e \<ge> 8"
  shows "esd_name e = (if take 8 e = replicate 8 0x40 then None else Some (mvs_nm (take 8 e)))"
proof -
  define n where "n = take 8 e"
  have l: "length n = 8" using assms by (simp add: n_def)
  have bl: "list_all (\<lambda>b. b = 0x40) n \<longleftrightarrow> n = replicate 8 0x40"
    using replicate_length_same [of n "0x40"] l by (auto simp: list_all_iff)
  have "map (\<lambda>i. bchar (mvs_e2a_pr (byte_at n i))) [0..<8] = map (\<lambda>b. bchar (mvs_e2a_pr b)) n"
  proof (rule nth_equalityI)
    show "length (map (\<lambda>i. bchar (mvs_e2a_pr (byte_at n i))) [0..<8]) = length (map (\<lambda>b. bchar (mvs_e2a_pr b)) n)"
      by (simp only: length_map length_upt l)
    fix i assume "i < length (map (\<lambda>i. bchar (mvs_e2a_pr (byte_at n i))) [0..<8])"
    then have "i < 8" by simp
    then show "map (\<lambda>i. bchar (mvs_e2a_pr (byte_at n i))) [0..<8] ! i = map (\<lambda>b. bchar (mvs_e2a_pr b)) n ! i"
      by (simp add: byte_at_nth l del: upt_Suc)
  qed
  then show ?thesis unfolding esd_name_def mvs_nm_def Let_def n_def [symmetric] bl by (simp only:)
qed

lemma scan_card_walk:
  assumes "length c = 80"
  shows "scan_card c cnt k = map (\<lambda>e. mvs_nm (oe_name e)) (filter exports (esd_loop c cnt first k nid))"
  using assms
proof (induction c cnt first k nid rule: esd_loop.induct)
  case (1 c cnt first k nid)
  show ?case
  proof (cases "k * 16 < cnt \<and> 16 + (k + 1) * 16 \<le> OBJ_CARD_LEN")
    case True
    let ?e = "drop (16 + k * 16) c" and ?t = "unat (byte_at c (16 + k * 16 + 8)) AND 15"
    let ?it = "\<lparr>oe_name = take 8 ?e, oe_type = ?t, oe_esdid = if ?t = OBJ_LD then 0 else first + nid,
      oe_addr = mvs_be24 c (16 + k * 16 + 9), oe_len = mvs_be24 c (16 + k * 16 + 13)\<rparr>"
    let ?nid = "if ?t = OBJ_LD then nid else nid + 1"
    have IH: "scan_card c cnt (k + 1) = map (\<lambda>e. mvs_nm (oe_name e)) (filter exports (esd_loop c cnt first (k + 1) ?nid))"
      using 1(1) [OF True refl refl 1(2)] by simp
    have walk: "esd_loop c cnt first k nid = ?it # esd_loop c cnt first (k + 1) ?nid"
      using True by (subst esd_loop.simps) (simp add: Let_def)
    have "k \<le> 3" using True by (simp add: OBJ_CARD_LEN_def)
    then have "8 \<le> length ?e" using 1(2) by (simp only: length_drop)
    note nm = esd_name_nm [OF this]
    have "scan_card c cnt k = (if \<not> (?t = 0 \<or> ?t = 1 \<or> ?t = 4 \<or> ?t = 5) then scan_card c cnt (k + 1)
        else case esd_name ?e of None \<Rightarrow> scan_card c cnt (k + 1) | Some nm \<Rightarrow> nm # scan_card c cnt (k + 1))"
      using True by (subst scan_card.simps) (simp add: Let_def OBJ_CARD_LEN_def byte_at_drop split: option.split)
    also have "\<dots> = map (\<lambda>e. mvs_nm (oe_name e)) (filter exports (esd_loop c cnt first k nid))"
      unfolding walk IH nm by (auto simp: exports_def obj_types)
    finally show ?thesis .
  next
    case False
    then show ?thesis by (subst scan_card.simps, subst esd_loop.simps) (auto simp: OBJ_CARD_LEN_def)
  qed
qed

lemma deck_cards_unfold:
  "80 \<le> length d \<Longrightarrow> deck_cards d = take 80 d # deck_cards (drop 80 d)" "\<not> 80 \<le> length d \<Longrightarrow> deck_cards d = []"
  by (simp_all add: deck_cards.simps [of d])

lemma deck_cards_length: "c \<in> set (deck_cards d) \<Longrightarrow> length c = 80"
proof (induction d rule: deck_cards.induct)
  case (1 d)
  show ?case
  proof (cases "80 \<le> length d")
    case True
    then show ?thesis using 1 unfolding deck_cards_unfold(1) [OF True] by auto
  next
    case False
    then show ?thesis using 1(2) unfolding deck_cards_unfold(2) [OF False] by simp
  qed
qed

lemma scan_esd_walk:
  "scan_esd d = map (\<lambda>e. mvs_nm (oe_name e)) (filter exports (concat (map obj_esd_walk (deck_cards d))))"
proof -
  have "(if \<not> (byte_at c 0 = 0x02 \<and> byte_at c 1 = 0xC5 \<and> byte_at c 2 = 0xE2 \<and> byte_at c 3 = 0xC4) then []
      else scan_card c (mvs_be16 c 10) 0) = map (\<lambda>e. mvs_nm (oe_name e)) (filter exports (obj_esd_walk c))"
    if "c \<in> set (deck_cards d)" for c
    using scan_card_walk [of c "mvs_be16 c 10" 0 "mvs_be16 c 14" 0] deck_cards_length [OF that]
    by (auto simp: obj_esd_walk_def obj_card_type_def)
  then show ?thesis
    unfolding scan_esd_def by (simp add: filter_concat map_concat o_def cong: map_cong)
qed

lemma exported_name: "nm \<in> set (scan_esd d) \<Longrightarrow> length nm \<le> 8 \<and> 0 \<notin> set (str_bytes nm)"
proof -
  assume "nm \<in> set (scan_esd d)"
  then obtain n where nm: "nm = mvs_nm n" unfolding scan_esd_walk by auto
  let ?b = "map (\<lambda>i. bchar (mvs_e2a_pr (byte_at n i))) [0..<8]"
  have sub: "set nm \<subseteq> set ?b" unfolding nm mvs_nm_def Let_def by (auto dest: set_dropWhileD)
  have "ascii (bchar (mvs_e2a_pr x)) \<noteq> 0" for x
    using e2a_pr_range [of x] by auto
  then have "\<forall>c\<in>set ?b. ascii c \<noteq> 0" by auto
  moreover have "length nm \<le> 8"
    unfolding nm mvs_nm_def Let_def using length_dropWhile_le [of "\<lambda>c. c = CHR '' ''" "rev ?b"] by simp
  ultimately show ?thesis using sub by (auto simp: str_bytes_def)
qed

text \<open>
  The archiver's own scan of a deck finds what the shared reader's walk reports: the names, as they are
  displayed, of the named SD, LD, PC and CM items of every ESD card, in order and with repetitions.
\<close>

theorem scan_esd_is_walk:
  "scan_esd d = map (\<lambda>e. mvs_nm (oe_name e)) (filter exports (concat (map obj_esd_walk (deck_cards d))))"
  by (rule scan_esd_walk)

end
