(* ===== verification/Cmp_Load.thy ===== *)
theory Cmp_Load
  imports Lmod_Segs Cp037 Ar_Archive
begin

section \<open>cmplmd370: reading the two sides\<close>

text \<open>
  The loaders of \<^verbatim>\<open>cmplmd370/src/cmplmd370.c\<close>: the sections of an object deck or of a bound member, each with its
  text, the bytes an address constant covers (\<^verbatim>\<open>relo\<close>) and, for a deck, the bytes a TXT card made (\<^verbatim>\<open>made\<close>); and its
  first entry point, by which an unnamed section is paired. The fixed tables of 512 entries are kept: a 513th
  section is an error, a 513th entry point is not noted. Shown here: every array of a section keeps the section's
  declared length, whatever the records say.
\<close>

definition MAXSECT_cmp :: nat where "MAXSECT_cmp = 512"

definition LMOD_CTL_RLD :: byte where "LMOD_CTL_RLD = 0x02"
definition LMOD_CTL_SEGEND :: byte where "LMOD_CTL_SEGEND = 0x04"
definition LMOD_LR :: nat where "LMOD_LR = 0x03"

record csect =
  cs_name :: string
  cs_org :: nat
  cs_len :: nat
  cs_bytes :: bytes
  cs_relo :: "bool list"
  cs_made :: "bool list"
  cs_ign :: "bool list"
  cs_seg :: nat
  cs_ent :: string
  cs_entaddr :: nat

record ent =
  en_name :: string
  en_owner :: nat
  en_addr :: nat

record side =
  sd_s :: "csect list"
  sd_id2sect :: "nat \<Rightarrow> nat option"
  sd_is_lmod :: bool
  sd_info :: lmod_info
  sd_ents :: "ent list"

text \<open>The calls of \<^verbatim>\<open>die\<close> and the other ways out with exit code 2.\<close>

datatype cm_error = CM_SECTIONS | CM_DIFIN_RECORD nat | CM_DIFIN_HEADER nat | CM_DIFIN_SECTIONS | CM_NOT_MODULE | CM_INCOMPLETE | CM_NO_SECTION string | CM_NOTHING

definition side_init :: side where
  "side_init = \<lparr>sd_s = [], sd_id2sect = (\<lambda>_. None), sd_is_lmod = False,
     sd_info = \<lparr>li_anomalies = None, li_nrec = 0, li_modend_off = Some 0, li_trailing = 0, li_nseg = 0, li_has_scatter = False, li_has_sym = False\<rparr>,
     sd_ents = []\<rparr>"

definition ent_note :: "bytes \<Rightarrow> nat \<Rightarrow> nat \<Rightarrow> side \<Rightarrow> side" where
  "ent_note nm8 owner addr sd = (if length (sd_ents sd) \<ge> 512 then sd
     else sd\<lparr>sd_ents := sd_ents sd @ [\<lparr>en_name = take 8 (mvs_nm nm8), en_owner = owner, en_addr = addr\<rparr>]\<rparr>)"

text \<open>\<^verbatim>\<open>(o > 0 && o < 65536) ? sd->id2sect[o] : -1\<close>\<close>

definition sect_of :: "side \<Rightarrow> nat \<Rightarrow> nat option" where
  "sect_of sd i = (if i > 0 \<and> i < 65536 then sd_id2sect sd i else None)"

definition upd_sect :: "nat \<Rightarrow> (csect \<Rightarrow> csect) \<Rightarrow> side \<Rightarrow> side" where
  "upd_sect si f sd = sd\<lparr>sd_s := (sd_s sd)[si := f (sd_s sd ! si)]\<rparr>"

definition ent_resolve1 :: "ent \<Rightarrow> side \<Rightarrow> side" where
  "ent_resolve1 e sd = (case sect_of sd (en_owner e) of
     None \<Rightarrow> sd
   | Some si \<Rightarrow> let s = sd_s sd ! si in
       if cs_ent s = [] \<or> en_addr e < cs_entaddr s
       then upd_sect si (\<lambda>s. s\<lparr>cs_ent := en_name e, cs_entaddr := en_addr e\<rparr>) sd else sd)"

definition ent_resolve :: "side \<Rightarrow> side" where
  "ent_resolve sd = fold ent_resolve1 (sd_ents sd) sd"

definition sect_add :: "bytes \<Rightarrow> nat \<Rightarrow> nat \<Rightarrow> nat \<Rightarrow> nat \<Rightarrow> side \<Rightarrow> cm_error + side" where
  "sect_add nm8 org len esdid seg sd =
    (if length (sd_s sd) \<ge> MAXSECT_cmp then Inl CM_SECTIONS
     else let s = \<lparr>cs_name = take 8 (mvs_nm nm8), cs_org = org, cs_len = len, cs_bytes = replicate len 0, cs_relo = replicate len False,
                    cs_made = replicate len False, cs_ign = replicate len False, cs_seg = seg, cs_ent = [], cs_entaddr = 0\<rparr>
          in Inr (sd\<lparr>sd_s := sd_s sd @ [s],
               sd_id2sect := (if esdid > 0 \<and> esdid < 65536 then (sd_id2sect sd)(esdid \<mapsto> length (sd_s sd)) else sd_id2sect sd)\<rparr>))"

definition sect_find :: "side \<Rightarrow> string \<Rightarrow> nat option" where
  "sect_find sd name = List.find (\<lambda>i. cs_name (sd_s sd ! i) = name) [0..<length (sd_s sd)]"

definition mark_relo :: "obj_rld \<Rightarrow> side \<Rightarrow> side" where
  "mark_relo r sd = (case sect_of sd (or_p r) of
     None \<Rightarrow> sd
   | Some si \<Rightarrow> upd_sect si (\<lambda>s. let a = int (or_addr r) - int (cs_org s); w = obj_rld_len (or_flag r) in
       s\<lparr>cs_relo := fold (\<lambda>i relo. if a + int i \<ge> 0 \<and> a + int i < int (cs_len s) then relo[nat (a + int i) := True] else relo) [0..<w] (cs_relo s)\<rparr>) sd)"

text \<open>An operation on what a loop has got so far; an error ends the run.\<close>

definition on_ok :: "('a \<Rightarrow> 'b \<Rightarrow> 'e + 'b) \<Rightarrow> 'a \<Rightarrow> 'e + 'b \<Rightarrow> 'e + 'b" where
  "on_ok f x r = (case r of Inl e \<Rightarrow> Inl e | Inr y \<Rightarrow> f x y)"

subsection \<open>An object deck\<close>

definition deck_esd :: "obj_esd \<Rightarrow> side \<Rightarrow> cm_error + side" where
  "deck_esd e sd =
    (if obj_is_section (oe_type e) then sect_add (oe_name e) (oe_addr e) (oe_len e) (oe_esdid e) 0 sd
     else if oe_type e = OBJ_LD then Inr (ent_note (oe_name e) (oe_len e) (oe_addr e) sd)
     else Inr sd)"

definition memset1 :: "bool list \<Rightarrow> nat \<Rightarrow> nat \<Rightarrow> bool list" where
  "memset1 b a n = take a b @ replicate n True @ drop (a + n) b"

definition deck_txt :: "obj_txt \<Rightarrow> side \<Rightarrow> side" where
  "deck_txt t sd = (case sect_of sd (ot_esdid t) of
     None \<Rightarrow> sd
   | Some si \<Rightarrow> let s = sd_s sd ! si; a = int (ot_addr t) - int (cs_org s) in
       if a \<ge> 0 \<and> a + int (ot_len t) \<le> int (cs_len s)
       then upd_sect si (\<lambda>s. s\<lparr>cs_bytes := write_at (cs_bytes s) (nat a) (ot_data t), cs_made := memset1 (cs_made s) (nat a) (ot_len t)\<rparr>) sd
       else sd)"

definition deck_card :: "bytes \<Rightarrow> side \<Rightarrow> side" where
  "deck_card c sd =
    (if obj_card_type c = OBJ_TXT then (case obj_txt_get c of None \<Rightarrow> sd | Some t \<Rightarrow> deck_txt t sd)
     else if obj_card_type c = OBJ_RLD then fold mark_relo (obj_rld_walk c) sd
     else sd)"

definition load_deck :: "bytes \<Rightarrow> cm_error + side" where
  "load_deck b =
    (case fold (on_ok deck_esd) (concat (map obj_esd_walk (deck_cards b))) (Inr side_init) of
       Inl e \<Rightarrow> Inl e
     | Inr sd \<Rightarrow> Inr (fold deck_card (deck_cards b) (ent_resolve sd)))"

subsection \<open>A load module\<close>

definition lmod_sect :: "lmod_esd \<Rightarrow> side \<Rightarrow> cm_error + side" where
  "lmod_sect e sd =
    (if obj_is_section (le_type e) then sect_add (le_name e) (le_addr e) (le_len e) (le_esdid e) (le_seg e) sd
     else if le_type e = LMOD_LR then Inr (ent_note (le_name e) (le_len e) (le_addr e) sd)
     else Inr sd)"

text \<open>The load address a control record announces, \<^verbatim>\<open>-1\<close> where it announces no text.\<close>

definition ctl_addr :: "bytes \<Rightarrow> lmod_item \<Rightarrow> nat option" where
  "ctl_addr m r = (if lm_flags r AND LMOD_CTL_TEXT \<noteq> 0 then Some (mvs_be24 m (lm_off r + 9)) else None)"

definition ext_item :: "bytes \<Rightarrow> lmod_item \<Rightarrow> nat option \<times> nat \<Rightarrow> nat option \<times> nat" where
  "ext_item m r = (\<lambda>(pa, imglen).
    if lm_kind r = LMOD_CTL then (ctl_addr m r, imglen)
    else if lm_kind r = LMOD_TEXT then
      (None, case pa of Some a \<Rightarrow> if a + lm_len r > imglen then a + lm_len r else imglen | None \<Rightarrow> imglen)
    else (pa, imglen))"

definition image_len :: "bytes \<Rightarrow> csect list \<Rightarrow> nat" where
  "image_len m ss = snd (fold (ext_item m) (lmod_records m)
     (None, fold (\<lambda>s imglen. if cs_org s + cs_len s > imglen then cs_org s + cs_len s else imglen) ss 0))"

definition rld_mark :: "bytes \<Rightarrow> lmod_item \<Rightarrow> side \<Rightarrow> side" where
  "rld_mark m r sd =
    (if lm_kind r = LMOD_CTL \<and> lm_flags r AND LMOD_CTL_RLD \<noteq> 0 then
       let rl = mvs_be16 m (lm_off r + 6); dat = lm_off r + 16
       in if rl > 0 \<and> dat + rl \<le> length m then fold mark_relo (obj_rld_items (drop dat m) rl) sd else sd
     else sd)"

record seg_st =
  ss_cs :: nat
  ss_segend :: bool
  ss_pend :: "nat option"
  ss_img :: bytes

definition img_item :: "bytes \<Rightarrow> nat \<Rightarrow> nat \<Rightarrow> nat \<Rightarrow> lmod_item \<Rightarrow> seg_st \<Rightarrow> seg_st" where
  "img_item m nseg want imglen r st =
    (if lm_kind r = LMOD_CTL then
       let pend = ctl_addr m r; segend = (lm_flags r AND LMOD_CTL_SEGEND \<noteq> 0 \<and> lm_flags r AND LMOD_CTL_END = 0)
       in if pend = None \<and> segend then st\<lparr>ss_pend := pend, ss_cs := ss_cs st + 1, ss_segend := False\<rparr>
          else st\<lparr>ss_pend := pend, ss_segend := segend\<rparr>
     else if lm_kind r = LMOD_TEXT then
       let img = (case ss_pend st of
                    Some a \<Rightarrow> if (nseg = 0 \<or> ss_cs st = want) \<and> a + lm_len r \<le> imglen
                               then write_at (ss_img st) a (take (lm_len r) (drop (lm_off r) m)) else ss_img st
                  | None \<Rightarrow> ss_img st)
       in st\<lparr>ss_pend := None, ss_img := img, ss_cs := (if ss_segend st then ss_cs st + 1 else ss_cs st), ss_segend := False\<rparr>
     else st)"

definition seg_image :: "bytes \<Rightarrow> nat \<Rightarrow> nat \<Rightarrow> nat \<Rightarrow> bytes" where
  "seg_image m nseg imglen want =
    ss_img (fold (img_item m nseg want imglen) (lmod_records m) \<lparr>ss_cs = 1, ss_segend = False, ss_pend = None, ss_img = replicate imglen 0\<rparr>)"

definition slice_sect :: "nat \<Rightarrow> nat \<Rightarrow> bytes \<Rightarrow> csect \<Rightarrow> csect" where
  "slice_sect want imglen img s =
    (if cs_seg s = want \<and> cs_org s + cs_len s \<le> imglen then s\<lparr>cs_bytes := take (cs_len s) (drop (cs_org s) img)\<rparr> else s)"

definition slice_seg :: "bytes \<Rightarrow> nat \<Rightarrow> nat \<Rightarrow> nat \<Rightarrow> side \<Rightarrow> side" where
  "slice_seg m nseg imglen want sd = sd\<lparr>sd_s := map (slice_sect want imglen (seg_image m nseg imglen want)) (sd_s sd)\<rparr>"

definition load_lmod :: "bytes \<Rightarrow> cm_error + side" where
  "load_lmod m =
    (case fold (on_ok lmod_sect) (lmod_cesd_walk m) (Inr (side_init\<lparr>sd_is_lmod := True, sd_info := lmod_scan m\<rparr>)) of
       Inl e \<Rightarrow> Inl e
     | Inr sd \<Rightarrow>
         let sd = ent_resolve sd; nseg = li_nseg (sd_info sd);
             sd = (if nseg \<ge> 1 then sd\<lparr>sd_s := map (\<lambda>s. if cs_seg s = 0 then s\<lparr>cs_seg := 1\<rparr> else s) (sd_s sd)\<rparr> else sd);
             imglen = image_len m (sd_s sd);
             sd = fold (rld_mark m) (lmod_records m) sd
         in Inr (fold (slice_seg m nseg imglen) [(if nseg \<noteq> 0 then 1 else 0)..<Suc nseg] sd))"

text \<open>Which of the two a file is.\<close>

definition load_side :: "bytes \<Rightarrow> cm_error + side" where
  "load_side b =
    (if length b \<ge> 1 \<and> (byte_at b 0 AND 0xf0 = 0x20 \<or> length b \<ge> 8 \<and> byte_at b 0 AND 0xf0 = 0x40) then load_lmod b
     else if length b \<ge> 4 \<and> obj_card_type b \<noteq> OBJ_OTHER then load_deck b
     else Inl CM_NOT_MODULE)"


subsection \<open>Every array has its section's length\<close>

definition sect_wf :: "csect \<Rightarrow> bool" where
  "sect_wf s \<longleftrightarrow> length (cs_bytes s) = cs_len s \<and> length (cs_relo s) = cs_len s \<and> length (cs_made s) = cs_len s \<and> length (cs_ign s) = cs_len s"

definition side_ok :: "side \<Rightarrow> bool" where
  "side_ok sd \<longleftrightarrow> list_all sect_wf (sd_s sd) \<and> (\<forall>i k. sd_id2sect sd i = Some k \<longrightarrow> k < length (sd_s sd))"

lemma side_okI:
  "list_all sect_wf (sd_s sd') \<Longrightarrow> sd_id2sect sd' = sd_id2sect sd \<Longrightarrow> length (sd_s sd') = length (sd_s sd) \<Longrightarrow> side_ok sd \<Longrightarrow> side_ok sd'"
  by (simp add: side_ok_def)

lemma fold_ok: "(\<And>x sd. side_ok sd \<Longrightarrow> side_ok (f x sd)) \<Longrightarrow> side_ok sd \<Longrightarrow> side_ok (fold f xs sd)"
  by (induction xs arbitrary: sd) auto

lemma upd_sect_ok:
  assumes "side_ok sd" "sect_of sd i = Some k" "\<And>s. sect_wf s \<Longrightarrow> sect_wf (f s)"
  shows "side_ok (upd_sect k f sd)"
proof (rule side_okI [OF _ _ _ assms(1)])
  have "k < length (sd_s sd)" using assms(1,2) by (auto simp: side_ok_def sect_of_def split: if_splits)
  moreover have "list_all sect_wf (sd_s sd)" using assms(1) by (simp add: side_ok_def)
  ultimately have "sect_wf (f (sd_s sd ! k))" using assms(3) by (simp add: list_all_length)
  then show "list_all sect_wf (sd_s (upd_sect k f sd))"
    using \<open>list_all sect_wf (sd_s sd)\<close> by (auto simp: upd_sect_def list_all_iff dest!: set_update_subset_insert [THEN subsetD])
qed (simp_all add: upd_sect_def)

lemma ent_resolve_ok: "side_ok sd \<Longrightarrow> side_ok (ent_resolve sd)"
  unfolding ent_resolve_def
proof (rule fold_ok)
  fix e sd assume "side_ok sd"
  then show "side_ok (ent_resolve1 e sd)"
    by (auto simp: ent_resolve1_def Let_def sect_wf_def split: option.split intro!: upd_sect_ok)
qed

lemma marks_length: "length (fold (\<lambda>i relo. if P i then relo[f i := True] else relo) xs relo) = length relo"
  by (induction xs arbitrary: relo) auto

lemma mark_relo_ok: "side_ok sd \<Longrightarrow> side_ok (mark_relo r sd)"
  unfolding mark_relo_def by (auto simp: Let_def sect_wf_def marks_length split: option.split intro!: upd_sect_ok)

lemma sect_add_ok:
  assumes "side_ok sd" "sect_add nm org len esdid seg sd = Inr sd'" shows "side_ok sd'"
  using assms by (auto simp: sect_add_def Let_def side_ok_def sect_wf_def less_Suc_eq split: if_splits)

lemma on_ok_simps: "on_ok f x (Inl e) = Inl e" "on_ok f x (Inr y) = f x y"
  by (simp_all add: on_ok_def)

lemma fold_on_ok:
  assumes "\<And>x sd sd'. side_ok sd \<Longrightarrow> f x sd = Inr sd' \<Longrightarrow> side_ok sd'" "fold (on_ok f) xs (Inr sd) = Inr sd'" "side_ok sd"
  shows "side_ok sd'"
  using assms(2,3)
proof (induction xs arbitrary: sd)
  case (Cons x xs)
  have stop: "fold (on_ok f) xs (Inl e) = Inl e" for e by (induction xs) (auto simp: on_ok_simps)
  then obtain sd1 where "f x sd = Inr sd1" using Cons.prems(1) by (cases "f x sd") (auto simp: on_ok_simps)
  then show ?case using Cons.IH [of sd1] Cons.prems assms(1) [of sd x sd1] by (simp add: on_ok_simps)
qed simp

lemma ent_note_ok: "side_ok sd \<Longrightarrow> side_ok (ent_note nm o' a sd)"
  by (simp add: ent_note_def side_ok_def)

lemma card_80: "c \<in> set (deck_cards d) \<Longrightarrow> length c = 80"
proof (induction d rule: deck_cards.induct)
  case (1 d)
  show ?case
  proof (cases "80 \<le> length d")
    case True
    then show ?thesis using 1(1) [OF True] 1(2) by (subst (asm) (2) deck_cards.simps) auto
  qed (use 1(2) in \<open>simp add: deck_cards.simps\<close>)
qed

lemma deck_card_ok:
  assumes "side_ok sd" "length c = 80" shows "side_ok (deck_card c sd)"
proof -
  have "side_ok (deck_txt t sd)" if t: "obj_txt_get c = Some t" for t
  proof -
    have "length (ot_data t) = ot_len t" using t assms(2) by (auto simp: obj_txt_get_def Let_def OBJ_CARD_LEN_def split: if_splits)
    then have wf: "sect_wf (s\<lparr>cs_bytes := write_at (cs_bytes s) (nat a) (ot_data t), cs_made := memset1 (cs_made s) (nat a) (ot_len t)\<rparr>)"
      if "sect_wf s" "a \<ge> 0" "a + int (ot_len t) \<le> int (cs_len s)" for s a
      using that by (auto simp: sect_wf_def memset1_def)
    show ?thesis
    proof (cases "sect_of sd (ot_esdid t)")
      case (Some k)
      let ?s = "sd_s sd ! k" and ?a = "int (ot_addr t) - int (cs_org (sd_s sd ! k))"
      show ?thesis
      proof (cases "?a \<ge> 0 \<and> ?a + int (ot_len t) \<le> int (cs_len ?s)")
        case True
        have k: "k < length (sd_s sd)" "sect_wf ?s" using assms(1) Some by (auto simp: side_ok_def sect_of_def list_all_length split: if_splits)
        have "list_all sect_wf ((sd_s sd)[k := ?s\<lparr>cs_bytes := write_at (cs_bytes ?s) (nat ?a) (ot_data t), cs_made := memset1 (cs_made ?s) (nat ?a) (ot_len t)\<rparr>])"
          using wf [OF k(2), of ?a] True assms(1) by (auto simp: side_ok_def list_all_iff dest!: set_update_subset_insert [THEN subsetD])
        then show ?thesis using True Some by (intro side_okI [OF _ _ _ assms(1)]) (auto simp: deck_txt_def upd_sect_def Let_def)
      qed (use Some assms(1) in \<open>auto simp: deck_txt_def Let_def\<close>)
    qed (use assms(1) in \<open>simp add: deck_txt_def\<close>)
  qed
  then show ?thesis using assms(1) by (auto simp: deck_card_def split: option.split intro!: fold_ok mark_relo_ok)
qed


lemma load_deck_ok:
  assumes "load_deck b = Inr sd" shows "side_ok sd"
proof -
  obtain sd0 where sd0: "fold (on_ok deck_esd) (concat (map obj_esd_walk (deck_cards b))) (Inr side_init) = Inr sd0"
    "sd = fold deck_card (deck_cards b) (ent_resolve sd0)" using assms by (auto simp: load_deck_def split: sum.splits)
  have "side_ok sd0"
  proof (rule fold_on_ok [OF _ sd0(1)])
    show "side_ok sd'" if "side_ok sd" "deck_esd e sd = Inr sd'" for e sd sd'
      using that sect_add_ok ent_note_ok by (auto simp: deck_esd_def split: if_splits)
  qed (simp add: side_ok_def side_init_def)
  then have "side_ok (fold deck_card cs (ent_resolve sd0))" if "\<forall>c\<in>set cs. length c = 80" for cs
    using that ent_resolve_ok [of sd0]
  proof (induction cs rule: rev_induct)
    case (snoc c cs)
    then show ?case by (simp add: deck_card_ok)
  qed simp
  then show ?thesis using card_80 unfolding sd0(2) by blast
qed

text \<open>The length of the image a segment pass builds, and of a pass over the segments.\<close>

lemma records_inside: "r \<in> set (lmod_records m) \<Longrightarrow> lm_off r + lm_len r \<le> length m"
proof -
  obtain rs bad it where w: "lmod_walk m lmod_iter_init = (rs, bad, it)" using prod_cases3 by blast
  have "tiles p rs e \<Longrightarrow> r \<in> set rs \<Longrightarrow> lm_off r + lm_len r \<le> e" for p e
  proof (induction rs arbitrary: p)
    case (Cons x rs)
    have "p + lm_len x \<le> e" using Cons.prems(1)
    proof -
      have "tiles q ys e \<Longrightarrow> q \<le> e" for q ys by (induction ys arbitrary: q) (auto intro: add_leD1)
      then show ?thesis using Cons.prems(1) by auto
    qed
    then show ?case using Cons by auto
  qed simp
  moreover have "tiles 0 rs (it_p it)" "it_p it \<le> length m" using lmod_walk_tiles [OF w] by (simp_all add: lmod_iter_init_def)
  ultimately show "r \<in> set (lmod_records m) \<Longrightarrow> lm_off r + lm_len r \<le> length m" by (fastforce simp: lmod_records_def w)
qed

lemma seg_image_length: "length (seg_image m nseg imglen want) = imglen"
proof -
  have "length (ss_img (fold (img_item m nseg want imglen) rs st)) = imglen"
    if "length (ss_img st) = imglen" "\<forall>r\<in>set rs. lm_off r + lm_len r \<le> length m" for rs st
    using that
  proof (induction rs arbitrary: st)
    case (Cons r rs)
    have "length (ss_img (img_item m nseg want imglen r st)) = imglen"
      using Cons.prems by (auto simp: img_item_def Let_def split: option.split)
    then show ?case using Cons by simp
  qed simp
  then show ?thesis using records_inside by (simp add: seg_image_def)
qed

lemma slice_seg_ok:
  assumes "side_ok sd" shows "side_ok (slice_seg m nseg imglen want sd)"
proof (rule side_okI [OF _ _ _ assms])
  show "list_all sect_wf (sd_s (slice_seg m nseg imglen want sd))"
    using assms by (auto simp: side_ok_def slice_seg_def list_all_iff slice_sect_def sect_wf_def seg_image_length)
qed (simp_all add: slice_seg_def)

lemma load_lmod_ok:
  assumes "load_lmod m = Inr sd" shows "side_ok sd"
proof -
  obtain sd0 where sd0: "fold (on_ok lmod_sect) (lmod_cesd_walk m) (Inr (side_init\<lparr>sd_is_lmod := True, sd_info := lmod_scan m\<rparr>)) = Inr sd0"
    using assms by (auto simp: load_lmod_def split: sum.splits)
  have ok0: "side_ok sd0"
  proof (rule fold_on_ok [OF _ sd0])
    show "side_ok sd'" if "side_ok sd" "lmod_sect e sd = Inr sd'" for e sd sd'
      using that sect_add_ok ent_note_ok by (auto simp: lmod_sect_def split: if_splits)
  qed (simp add: side_ok_def side_init_def)
  define sd1 where "sd1 = ent_resolve sd0"
  define sd2 where "sd2 = (if li_nseg (sd_info sd1) \<ge> 1 then sd1\<lparr>sd_s := map (\<lambda>s. if cs_seg s = 0 then s\<lparr>cs_seg := 1\<rparr> else s) (sd_s sd1)\<rparr> else sd1)"
  have ok1: "side_ok sd1" unfolding sd1_def by (rule ent_resolve_ok [OF ok0])
  have ok2: "side_ok sd2"
    by (rule side_okI [OF _ _ _ ok1]) (use ok1 in \<open>auto simp: sd2_def side_ok_def list_all_iff sect_wf_def\<close>)
  have "side_ok (rld_mark m r s)" if "side_ok s" for r s
    using that by (auto simp: rld_mark_def Let_def intro!: fold_ok mark_relo_ok)
  then have ok3: "side_ok (fold (rld_mark m) (lmod_records m) sd2)" by (rule fold_ok [OF _ ok2])
  have "sd = fold (slice_seg m (li_nseg (sd_info sd1)) (image_len m (sd_s sd2))) [(if li_nseg (sd_info sd1) \<noteq> 0 then 1 else 0)..<Suc (li_nseg (sd_info sd1))]
      (fold (rld_mark m) (lmod_records m) sd2)"
    using assms unfolding load_lmod_def sd0 sum.case Let_def sd1_def [symmetric] sd2_def [symmetric] by (simp only: sum.inject)
  then show ?thesis by (simp only:) (rule fold_ok [OF _ ok3], rule slice_seg_ok)
qed

lemma load_side_ok: "load_side b = Inr sd \<Longrightarrow> side_ok sd"
  by (auto simp: load_side_def split: if_splits dest: load_deck_ok load_lmod_ok)

end
