(* ===== verification/Cmp_Compare.thy ===== *)
theory Cmp_Compare
  imports Cmp_Load Fmt370
begin

section \<open>cmplmd370: comparing, suppressing and the verdict\<close>

text \<open>
  The comparison of \<^verbatim>\<open>cmplmd370/src/cmplmd370.c\<close>: two sections byte by byte with clusters of differences, the files
  of \<^verbatim>\<open>--difin\<close> and \<^verbatim>\<open>--difout\<close>, the pairing of sections, and the exit code. Reports to the terminal are not modelled;
  the records of a \<^verbatim>\<open>--difout\<close> file are.
\<close>

subsection \<open>Two sections\<close>

record clu =
  cl_off :: nat
  cl_len :: nat
  cl_hole :: bool

record cmp_result =
  rs_name :: string
  rs_paired :: bool
  rs_length_differs :: bool
  rs_identical :: bool
  rs_len_new :: nat
  rs_len_ref :: nat
  rs_diff :: nat
  rs_nrelo :: nat
  rs_nign :: nat
  rs_in_hole :: nat
  rs_in_text :: nat
  rs_nomade :: bool
  rs_c :: "clu list"
  rs_ic :: "clu list"

definition result_init :: cmp_result where
  "result_init = \<lparr>rs_name = [], rs_paired = False, rs_length_differs = False, rs_identical = False, rs_len_new = 0, rs_len_ref = 0,
     rs_diff = 0, rs_nrelo = 0, rs_nign = 0, rs_in_hole = 0, rs_in_text = 0, rs_nomade = False, rs_c = [], rs_ic = []\<rparr>"

text \<open>Both \<^verbatim>\<open>clu_push\<close> and \<^verbatim>\<open>clu_add\<close>: a new cluster of length 0; and the length of the last one counted up.\<close>

definition clu_push :: "clu list \<Rightarrow> nat \<Rightarrow> bool \<Rightarrow> clu list" where
  "clu_push cs off hole = cs @ [\<lparr>cl_off = off, cl_len = 0, cl_hole = hole\<rparr>]"

definition clu_grow :: "clu list \<Rightarrow> clu list" where
  "clu_grow cs = butlast cs @ [(last cs)\<lparr>cl_len := cl_len (last cs) + 1\<rparr>]"

text \<open>One byte; the state beside the result is \<^verbatim>\<open>inrun\<close> and \<^verbatim>\<open>inign\<close>.\<close>

definition cmp_byte :: "csect \<Rightarrow> csect \<Rightarrow> bool \<Rightarrow> nat \<Rightarrow> cmp_result \<times> bool \<times> bool \<Rightarrow> cmp_result \<times> bool \<times> bool" where
  "cmp_byte a b clearrld i = (\<lambda>(r, inrun, inign).
    if clearrld \<and> (cs_relo a ! i \<or> cs_relo b ! i) then (r\<lparr>rs_nrelo := rs_nrelo r + 1\<rparr>, False, False)
    else if cs_bytes a ! i \<noteq> cs_bytes b ! i then
      if cs_ign a ! i then
        (r\<lparr>rs_nign := rs_nign r + 1, rs_ic := clu_grow (if inign then rs_ic r else clu_push (rs_ic r) i (\<not> cs_made a ! i))\<rparr>, False, True)
      else
        ((if cs_made a ! i then r\<lparr>rs_in_text := rs_in_text r + 1\<rparr> else r\<lparr>rs_in_hole := rs_in_hole r + 1\<rparr>)
           \<lparr>rs_diff := rs_diff r + 1, rs_c := clu_grow (if inrun then rs_c r else clu_push (rs_c r) i (\<not> cs_made a ! i))\<rparr>, True, False)
    else (r, False, False))"

definition compare :: "csect \<Rightarrow> csect \<Rightarrow> bool \<Rightarrow> bool \<Rightarrow> string \<Rightarrow> cmp_result" where
  "compare a b clearrld a_is_lmod label =
    (let r = result_init\<lparr>rs_name := label, rs_paired := True, rs_len_new := cs_len a, rs_len_ref := cs_len b, rs_nomade := a_is_lmod\<rparr> in
     if cs_len a \<noteq> cs_len b then r\<lparr>rs_length_differs := True\<rparr>
     else let r = fst (fold (cmp_byte a b clearrld) [0..<cs_len a] (r, False, False)) in r\<lparr>rs_identical := (rs_diff r = 0)\<rparr>)"

definition verdict :: "cmp_result \<Rightarrow> string" where
  "verdict r =
    (if \<not> rs_paired r then ''unpaired'' else if rs_length_differs r then ''length'' else if rs_identical r then ''identical''
     else if rs_nomade r then ''differs'' else if rs_in_text r = 0 then ''holes'' else if rs_in_hole r = 0 then ''text'' else ''mixed'')"

subsection \<open>The files of ranges\<close>

definition hex_digit :: "char \<Rightarrow> nat option" where
  "hex_digit c = (let n = of_char c in
     if of_char (CHR ''0'') \<le> n \<and> n \<le> of_char (CHR ''9'') then Some (n - 48)
     else if of_char (CHR ''a'') \<le> n \<and> n \<le> of_char (CHR ''f'') then Some (n - 97 + 10)
     else if of_char (CHR ''A'') \<le> n \<and> n \<le> of_char (CHR ''F'') then Some (n - 65 + 10)
     else None)"

fun hexn :: "string \<Rightarrow> nat \<Rightarrow> nat option" where
  "hexn [] v = Some v"
| "hexn (c # cs) v = (case hex_digit c of None \<Rightarrow> None | Some d \<Rightarrow> hexn cs (v * 16 + d))"

text \<open>\<^verbatim>\<open>fgets\<close> into \<open>n + 2\<close> bytes: a line with its newline, or the next \<open>n + 1\<close> characters of it.\<close>

function fgets_lines :: "nat \<Rightarrow> string \<Rightarrow> string list" where
  "fgets_lines n s =
    (if s = [] then []
     else let w = takeWhile (\<lambda>c. c \<noteq> CHR 0x0A) s; k = Suc (min (length w) n) in take k s # fgets_lines n (drop k s))"
  by pat_completeness auto
termination
  by (relation "measure (\<lambda>(n, s). length s)") (auto simp: Let_def)

declare fgets_lines.simps [simp del]

definition chomp :: "string \<Rightarrow> string" where
  "chomp line = rev (dropWhile (\<lambda>c. c = CHR 0x0A \<or> c = CHR 0x0D) (rev (takeWhile (\<lambda>c. c \<noteq> CHR 0x00) line)))"

record dinsect =
  di_name :: string
  di_c :: "(nat \<times> nat) list"
  di_judged :: bool

text \<open>\<^verbatim>\<open>din_for\<close> and the push behind it: a range is noted under its section, whatever happens below.\<close>

definition din_note :: "string \<Rightarrow> nat \<times> nat \<Rightarrow> dinsect list \<Rightarrow> cm_error + dinsect list" where
  "din_note name c din = (case List.find (\<lambda>i. di_name (din ! i) = name) [0..<length din] of
     Some i \<Rightarrow> Inr (din[i := (din ! i)\<lparr>di_c := di_c (din ! i) @ [c]\<rparr>])
   | None \<Rightarrow> if length din \<ge> MAXSECT_cmp then Inl CM_DIFIN_SECTIONS else Inr (din @ [\<lparr>di_name = take 8 name, di_c = [c], di_judged = False\<rparr>]))"

definition mark_ign :: "nat \<Rightarrow> nat \<Rightarrow> csect \<Rightarrow> csect" where
  "mark_ign off len s = s\<lparr>cs_ign := fold (\<lambda>i ign. if off + i < cs_len s then ign[off + i := True] else ign) [0..<len] (cs_ign s)\<rparr>"

record difin_st =
  ds_side :: side
  ds_din :: "dinsect list"
  ds_cur :: string
  ds_lineno :: nat

definition difin_line :: "string \<Rightarrow> difin_st \<Rightarrow> cm_error + difin_st" where
  "difin_line line st =
    (let n = ds_lineno st + 1; st = st\<lparr>ds_lineno := n\<rparr>; p2 = chomp line in
     if p2 = [] then Inr st
     else if hd p2 = CHR ''>'' then Inr (st\<lparr>ds_cur := take 8 (takeWhile (\<lambda>c. c \<noteq> CHR '' '') (tl p2))\<rparr>)
     else if length p2 < 8 then Inl (CM_DIFIN_RECORD n)
     else case (hexn (take 6 p2) 0, hexn (take 2 (drop 6 p2)) 0) of
       (Some off, Some len) \<Rightarrow>
         if ds_cur st = [] then Inl (CM_DIFIN_HEADER n)
         else (case din_note (ds_cur st) (off, len) (ds_din st) of
           Inl e \<Rightarrow> Inl e
         | Inr din \<Rightarrow> Inr (case sect_find (ds_side st) (ds_cur st) of
             None \<Rightarrow> st\<lparr>ds_din := din\<rparr>
           | Some si \<Rightarrow> st\<lparr>ds_din := din, ds_side := upd_sect si (mark_ign off len) (ds_side st)\<rparr>))
     | _ \<Rightarrow> Inl (CM_DIFIN_RECORD n))"

definition difin_load :: "side \<Rightarrow> string \<Rightarrow> cm_error + side \<times> dinsect list" where
  "difin_load sd file = map_sum id (\<lambda>st. (ds_side st, ds_din st))
     (fold (on_ok difin_line) (fgets_lines 254 file) (Inr \<lparr>ds_side = sd, ds_din = [], ds_cur = [], ds_lineno = 0\<rparr>))"

text \<open>\<^verbatim>\<open>%0*lX\<close>.\<close>

definition hex_char :: "nat \<Rightarrow> char" where
  "hex_char d = char_of (if d < 10 then 48 + d else 55 + d)"

fun hex_digits :: "nat \<Rightarrow> string" where
  "hex_digits v = (if v < 16 then [] else hex_digits (v div 16)) @ [hex_char (v mod 16)]"

declare hex_digits.simps [simp del]

definition fmt_0X :: "nat \<Rightarrow> nat \<Rightarrow> string" where
  "fmt_0X w v = (let d = hex_digits v in replicate (w - length d) (CHR ''0'') @ d)"

function emit_range :: "nat \<Rightarrow> nat \<Rightarrow> string list" where
  "emit_range off len =
    (if len > 0 then let chunk = (if len > 255 then 255 else len)
       in (fmt_0X 6 off @ fmt_0X 2 chunk @ [CHR 0x0A]) # emit_range (off + chunk) (len - chunk)
     else [])"
  by pat_completeness auto
termination
  by (relation "measure (\<lambda>(off, len). len)") (auto simp: Let_def)

declare emit_range.simps [simp del]

fun merge_clu :: "clu list \<Rightarrow> clu list \<Rightarrow> clu list" where
  "merge_clu [] ics = ics"
| "merge_clu (c # cs) [] = c # cs"
| "merge_clu (c # cs) (ic # ics) = (if cl_off c \<le> cl_off ic then c # merge_clu cs (ic # ics) else ic # merge_clu (c # cs) ics)"

definition difout_header :: "string \<Rightarrow> string" where
  "difout_header name = CHR ''>'' # name @ [CHR 0x0A]"

definition write_difout :: "cmp_result \<Rightarrow> string list" where
  "write_difout r =
    (if \<not> rs_paired r \<or> rs_length_differs r then []
     else if rs_c r = [] \<and> rs_ic r = [] then []
     else difout_header (rs_name r) # concat (map (\<lambda>c. emit_range (cl_off c) (cl_len c)) (merge_clu (rs_c r) (rs_ic r))))"

definition difout_carry :: "dinsect list \<Rightarrow> string list" where
  "difout_carry din = concat (map (\<lambda>d. if di_judged d \<or> di_c d = [] then []
     else difout_header (di_name d) # concat (map (\<lambda>(off, len). emit_range off len) (di_c d))) din)"

subsection \<open>Pairing\<close>

text \<open>The three loops over the new side's sections; the state is \<^verbatim>\<open>pair[]\<close> and \<^verbatim>\<open>bused[]\<close>.\<close>

definition pair_first :: "(nat \<Rightarrow> bool) \<Rightarrow> nat \<Rightarrow> (nat \<Rightarrow> nat option) \<times> bool list \<Rightarrow> (nat \<Rightarrow> nat option) \<times> bool list" where
  "pair_first P i = (\<lambda>(pair, bused). case List.find (\<lambda>k. \<not> bused ! k \<and> P k) [0..<length bused] of
     Some k \<Rightarrow> (pair(i \<mapsto> k), bused[k := True])
   | None \<Rightarrow> (pair, bused))"

definition pair_name :: "side \<Rightarrow> side \<Rightarrow> nat \<Rightarrow> (nat \<Rightarrow> nat option) \<times> bool list \<Rightarrow> (nat \<Rightarrow> nat option) \<times> bool list" where
  "pair_name A B i st = (let a = sd_s A ! i in
     if cs_name a = [] \<or> cs_len a = 0 then st else pair_first (\<lambda>k. cs_name (sd_s B ! k) = cs_name a) i st)"

definition pair_entry :: "side \<Rightarrow> side \<Rightarrow> nat \<Rightarrow> (nat \<Rightarrow> nat option) \<times> bool list \<Rightarrow> (nat \<Rightarrow> nat option) \<times> bool list" where
  "pair_entry A B i st = (let a = sd_s A ! i in
     if fst st i \<noteq> None \<or> cs_len a = 0 \<or> cs_ent a = [] then st
     else pair_first (\<lambda>k. (cs_name a = [] \<or> cs_name (sd_s B ! k) = []) \<and> cs_ent (sd_s B ! k) = cs_ent a) i st)"

definition pair_left :: "side \<Rightarrow> side \<Rightarrow> nat \<Rightarrow> (nat \<Rightarrow> nat option) \<times> bool list \<Rightarrow> (nat \<Rightarrow> nat option) \<times> bool list" where
  "pair_left A B i st = (let a = sd_s A ! i in
     if fst st i \<noteq> None \<or> cs_name a \<noteq> [] \<or> cs_len a = 0 then st
     else case filter (\<lambda>k. \<not> snd st ! k) [0..<length (snd st)] of
       [k] \<Rightarrow> ((fst st)(i \<mapsto> k), (snd st)[k := True])
     | _ \<Rightarrow> st)"

definition pair_sections :: "side \<Rightarrow> side \<Rightarrow> nat \<Rightarrow> nat option" where
  "pair_sections A B = (let ix = [0..<length (sd_s A)]; st = (Map.empty, map (\<lambda>b. cs_len b = 0) (sd_s B))
     in fst (fold (pair_left A B) ix (fold (pair_entry A B) ix (fold (pair_name A B) ix st))))"

definition sect_label :: "csect \<Rightarrow> csect option \<Rightarrow> string" where
  "sect_label a b =
    (if cs_name a \<noteq> [] then cs_name a
     else if (case b of Some b \<Rightarrow> cs_name b \<noteq> [] | None \<Rightarrow> False) then cs_name (the b)
     else if cs_ent a \<noteq> [] then CHR ''('' # cs_ent a @ '')''
     else ''(private)'')"

definition has_text_section :: "side \<Rightarrow> bool" where
  "has_text_section a \<longleftrightarrow> list_ex (\<lambda>s. cs_len s \<noteq> 0) (sd_s a)"

definition label_at :: "side \<Rightarrow> side \<Rightarrow> (nat \<Rightarrow> nat option) \<Rightarrow> nat \<Rightarrow> string" where
  "label_at A B pair i = sect_label (sd_s A ! i) (map_option (\<lambda>k. sd_s B ! k) (pair i))"

definition csect_named :: "side \<Rightarrow> side \<Rightarrow> (nat \<Rightarrow> nat option) \<Rightarrow> string \<Rightarrow> bool" where
  "csect_named A B pair only \<longleftrightarrow> list_ex (\<lambda>i. cs_len (sd_s A ! i) \<noteq> 0 \<and> label_at A B pair i = only) [0..<length (sd_s A)]"

subsection \<open>The run\<close>

record cmp_opts =
  co_only :: "string option"
  co_clearrld :: bool
  co_allow_incomplete :: bool

definition image_incomplete :: "side \<Rightarrow> bool" where
  "image_incomplete sd \<longleftrightarrow> sd_is_lmod sd \<and> (li_anomalies (sd_info sd) = Some LMOD_ANOM_BADREC \<or> li_anomalies (sd_info sd) = Some LMOD_ANOM_BADLEN)"

definition early_refusal :: "cmp_opts \<Rightarrow> side \<Rightarrow> side \<Rightarrow> cm_error option" where
  "early_refusal co A B =
    (if (image_incomplete B \<or> image_incomplete A) \<and> \<not> co_allow_incomplete co then Some CM_INCOMPLETE
     else case co_only co of
       Some nm \<Rightarrow> if \<not> csect_named A B (pair_sections A B) nm then Some (CM_NO_SECTION nm)
         else if \<not> has_text_section A then Some CM_NOTHING else None
     | None \<Rightarrow> if \<not> has_text_section A then Some CM_NOTHING else None)"

record run_st =
  ru_rc :: nat
  ru_npair :: nat
  ru_results :: "cmp_result list"
  ru_din :: "dinsect list"
  ru_out :: "string list"

text \<open>One section of the new side: the body of the last loop of \<^verbatim>\<open>main\<close>; \<open>difout\<close> says whether a file is written.\<close>

definition judge :: "string \<Rightarrow> dinsect list \<Rightarrow> dinsect list" where
  "judge label din = (case List.find (\<lambda>k. di_name (din ! k) = label) [0..<length din] of
     Some k \<Rightarrow> din[k := (din ! k)\<lparr>di_judged := True\<rparr>] | None \<Rightarrow> din)"

definition cmp_sect :: "cmp_opts \<Rightarrow> bool \<Rightarrow> side \<Rightarrow> side \<Rightarrow> (nat \<Rightarrow> nat option) \<Rightarrow> nat \<Rightarrow> run_st \<Rightarrow> run_st" where
  "cmp_sect co difout A B pair i st =
    (let a = sd_s A ! i; label = label_at A B pair i in
     if cs_len a = 0 then st
     else if co_only co \<noteq> None \<and> co_only co \<noteq> Some label then st
     else case pair i of
       None \<Rightarrow> st\<lparr>ru_rc := 1, ru_results := ru_results st @ [result_init\<lparr>rs_name := label, rs_len_new := cs_len a\<rparr>]\<rparr>
     | Some k \<Rightarrow>
         let r = compare a (sd_s B ! k) (co_clearrld co) (sd_is_lmod A) label;
             st = st\<lparr>ru_npair := ru_npair st + 1, ru_results := ru_results st @ [r], ru_rc := (if \<not> rs_identical r then 1 else ru_rc st)\<rparr>
         in if difout then st\<lparr>ru_din := (if \<not> rs_length_differs r then judge label (ru_din st) else ru_din st),
                              ru_out := ru_out st @ write_difout r\<rparr> else st)"

definition cmp_loop :: "cmp_opts \<Rightarrow> bool \<Rightarrow> side \<Rightarrow> side \<Rightarrow> dinsect list \<Rightarrow> run_st" where
  "cmp_loop co difout A B din = fold (cmp_sect co difout A B (pair_sections A B)) [0..<length (sd_s A)]
     \<lparr>ru_rc = 0, ru_npair = 0, ru_results = [], ru_din = din, ru_out = []\<rparr>"

text \<open>The exit code with what was written to \<^verbatim>\<open>--difout\<close> and the sections' results.\<close>

definition cmp_main :: "cmp_opts \<Rightarrow> bool \<Rightarrow> side \<Rightarrow> side \<Rightarrow> dinsect list \<Rightarrow> nat \<times> string list \<times> cmp_result list" where
  "cmp_main co difout A B din =
    (case early_refusal co A B of
       Some e \<Rightarrow> (2, if difout then difout_carry din else [], [])
     | None \<Rightarrow>
         let st = cmp_loop co difout A B din;
             rc = (if (image_incomplete B \<or> image_incomplete A) \<and> \<not> co_allow_incomplete co then 2
                   else if co_only co \<noteq> None \<and> ru_npair st = 0 then 2
                   else if ru_npair st = 0 \<and> ru_rc st = 0 then 2 else ru_rc st)
         in (rc, if difout then ru_out st @ difout_carry (ru_din st) else [], ru_results st))"


text \<open>The whole program behind its options: the two files and the text of the \<^verbatim>\<open>--difin\<close> file.\<close>

definition cmp_files :: "cmp_opts \<Rightarrow> bool \<Rightarrow> string option \<Rightarrow> bytes \<Rightarrow> bytes \<Rightarrow> cm_error + nat \<times> string list \<times> cmp_result list" where
  "cmp_files co difout difin ba bb =
    (case load_side ba of
       Inl e \<Rightarrow> Inl e
     | Inr A \<Rightarrow> (case load_side bb of
         Inl e \<Rightarrow> Inl e
       | Inr B \<Rightarrow> (case difin of
           None \<Rightarrow> Inr (cmp_main co difout A B [])
         | Some file \<Rightarrow> (case difin_load A file of Inl e \<Rightarrow> Inl e | Inr (A', din) \<Rightarrow> Inr (cmp_main co difout A' B din)))))"

subsection \<open>Clusters are the differing bytes\<close>

definition clu_range :: "clu \<Rightarrow> nat list" where
  "clu_range c = [cl_off c..<cl_off c + cl_len c]"

definition clu_apart :: "clu \<Rightarrow> clu \<Rightarrow> bool" where
  "clu_apart c d \<longleftrightarrow> cl_off c + cl_len c < cl_off d"

text \<open>Collecting the positions below \<open>n\<close> where \<open>P\<close> holds, with the flag for an open run.\<close>

definition runs_of :: "(nat \<Rightarrow> bool) \<Rightarrow> nat \<Rightarrow> clu list \<Rightarrow> bool \<Rightarrow> bool" where
  "runs_of P n cs inrun \<longleftrightarrow> concat (map clu_range cs) = filter P [0..<n] \<and> sorted_wrt clu_apart cs \<and> list_all (\<lambda>c. 0 < cl_len c) cs
    \<and> (if inrun then cs \<noteq> [] \<and> cl_off (last cs) + cl_len (last cs) = n else list_all (\<lambda>c. cl_off c + cl_len c < n) cs)"

lemma runs_start: "runs_of P 0 [] False"
  by (simp add: runs_of_def)

lemma runs_skip: "runs_of P n cs inrun \<Longrightarrow> \<not> P n \<Longrightarrow> runs_of P (Suc n) cs False"
proof -
  assume r: "runs_of P n cs inrun" "\<not> P n"
  have "list_all (\<lambda>c. cl_off c + cl_len c \<le> n) cs"
  proof (cases inrun)
    case True
    then have l: "cs = butlast cs @ [last cs]" "cl_off (last cs) + cl_len (last cs) = n" using r(1) by (auto simp: runs_of_def)
    have "sorted_wrt clu_apart (butlast cs @ [last cs])" using r(1) l(1) by (simp add: runs_of_def)
    then have "\<forall>c\<in>set (butlast cs). clu_apart c (last cs)" by (simp add: sorted_wrt_append)
    then have "\<forall>c\<in>set (butlast cs @ [last cs]). cl_off c + cl_len c \<le> n" using l(2) by (auto simp: clu_apart_def)
    then show ?thesis using l(1) by (simp add: list_all_iff)
  next
    case False
    then show ?thesis using r(1) by (auto simp: runs_of_def list_all_iff)
  qed
  then show ?thesis using r by (auto simp: runs_of_def list_all_iff less_Suc_eq_le)
qed

lemma runs_take: "runs_of P n cs inrun \<Longrightarrow> P n \<Longrightarrow> runs_of P (Suc n) (clu_grow (if inrun then cs else clu_push cs n hole)) True"
proof -
  assume r: "runs_of P n cs inrun" "P n"
  show ?thesis
  proof (cases inrun)
    case True
    define bs l where "bs = butlast cs" and "l = last cs"
    have cs: "cs = bs @ [l]" "cl_off l + cl_len l = n" using r(1) True by (auto simp: runs_of_def bs_def l_def)
    have g: "clu_grow (bs @ [l]) = bs @ [l\<lparr>cl_len := cl_len l + 1\<rparr>]" by (simp add: clu_grow_def)
    have "concat (map clu_range (clu_grow (bs @ [l]))) = concat (map clu_range (bs @ [l])) @ [n]"
      unfolding g using cs(2) by (simp add: clu_range_def)
    moreover have "sorted_wrt clu_apart (clu_grow (bs @ [l]))" using r(1) unfolding g by (auto simp: runs_of_def cs(1) sorted_wrt_append clu_apart_def)
    ultimately show ?thesis using r True cs(2) unfolding runs_of_def cs(1) by (auto simp: g)
  next
    case False
    have g: "clu_grow (clu_push cs n hole) = cs @ [\<lparr>cl_off = n, cl_len = 1, cl_hole = hole\<rparr>]" by (simp add: clu_grow_def clu_push_def)
    have "sorted_wrt clu_apart (cs @ [\<lparr>cl_off = n, cl_len = 1, cl_hole = hole\<rparr>])"
      using r(1) False by (auto simp: runs_of_def sorted_wrt_append clu_apart_def list_all_iff)
    then show ?thesis using r False unfolding runs_of_def by (simp add: g clu_range_def)
  qed
qed

definition byte_differs :: "csect \<Rightarrow> csect \<Rightarrow> bool \<Rightarrow> nat \<Rightarrow> bool" where
  "byte_differs a b clearrld i \<longleftrightarrow> \<not> (clearrld \<and> (cs_relo a ! i \<or> cs_relo b ! i)) \<and> cs_bytes a ! i \<noteq> cs_bytes b ! i"

text \<open>The positions \<open>cmp_byte\<close> reports, and those it notes as masked.\<close>

definition diff_at :: "csect \<Rightarrow> csect \<Rightarrow> bool \<Rightarrow> nat \<Rightarrow> bool" where
  "diff_at a b clearrld i \<longleftrightarrow> byte_differs a b clearrld i \<and> \<not> cs_ign a ! i"

definition mask_at :: "csect \<Rightarrow> csect \<Rightarrow> bool \<Rightarrow> nat \<Rightarrow> bool" where
  "mask_at a b clearrld i \<longleftrightarrow> byte_differs a b clearrld i \<and> cs_ign a ! i"

definition counted :: "csect \<Rightarrow> csect \<Rightarrow> bool \<Rightarrow> nat \<Rightarrow> cmp_result \<Rightarrow> bool" where
  "counted a b cl n r \<longleftrightarrow> rs_diff r = length (filter (diff_at a b cl) [0..<n]) \<and> rs_nign r = length (filter (mask_at a b cl) [0..<n])
    \<and> rs_in_text r = length (filter (\<lambda>i. diff_at a b cl i \<and> cs_made a ! i) [0..<n])
    \<and> rs_in_hole r = length (filter (\<lambda>i. diff_at a b cl i \<and> \<not> cs_made a ! i) [0..<n])"

lemma cmp_byte_inv:
  assumes "fold (cmp_byte a b cl) [0..<n] (r0, False, False) = (r, inrun, inign)" "rs_diff r0 = 0" "rs_nign r0 = 0" "rs_in_text r0 = 0" "rs_in_hole r0 = 0"
    "rs_c r0 = []" "rs_ic r0 = []"
  shows "runs_of (diff_at a b cl) n (rs_c r) inrun \<and> runs_of (mask_at a b cl) n (rs_ic r) inign \<and> counted a b cl n r
    \<and> rs_paired r = rs_paired r0 \<and> rs_length_differs r = rs_length_differs r0 \<and> rs_name r = rs_name r0 \<and> rs_nomade r = rs_nomade r0"
  using assms
proof (induction n arbitrary: r inrun inign)
  case 0
  then show ?case using runs_start by (simp add: counted_def)
next
  case (Suc n)
  obtain q ir ii where q: "fold (cmp_byte a b cl) [0..<n] (r0, False, False) = (q, ir, ii)" using prod_cases3 by blast
  note ih = Suc.IH [OF q Suc.prems(2-7)]
  have st: "cmp_byte a b cl n (q, ir, ii) = (r, inrun, inign)" using Suc.prems(1) q by simp
  consider (same) "\<not> byte_differs a b cl n" | (mask) "mask_at a b cl n" "\<not> diff_at a b cl n" | (diff) "diff_at a b cl n" "\<not> mask_at a b cl n"
    by (auto simp: mask_at_def diff_at_def)
  then show ?case
  proof cases
    case same
    then have n: "\<not> diff_at a b cl n" "\<not> mask_at a b cl n" by (auto simp: mask_at_def diff_at_def)
    have "rs_c r = rs_c q" "rs_ic r = rs_ic q" "\<not> inrun" "\<not> inign" "rs_diff r = rs_diff q" "rs_nign r = rs_nign q" "rs_in_text r = rs_in_text q" "rs_in_hole r = rs_in_hole q"
      "rs_paired r = rs_paired q" "rs_length_differs r = rs_length_differs q" "rs_name r = rs_name q" "rs_nomade r = rs_nomade q"
      using st same by (auto simp: cmp_byte_def byte_differs_def split: if_splits)
    then show ?thesis using ih runs_skip [of "diff_at a b cl" n] runs_skip [of "mask_at a b cl" n] n by (auto simp: counted_def)
  next
    case mask
    then have "rs_c r = rs_c q" "rs_ic r = clu_grow (if ii then rs_ic q else clu_push (rs_ic q) n (\<not> cs_made a ! n))" "\<not> inrun" "inign"
      "rs_diff r = rs_diff q" "rs_nign r = rs_nign q + 1" "rs_in_text r = rs_in_text q" "rs_in_hole r = rs_in_hole q"
      "rs_paired r = rs_paired q" "rs_length_differs r = rs_length_differs q" "rs_name r = rs_name q" "rs_nomade r = rs_nomade q"
      using st by (auto simp: cmp_byte_def mask_at_def byte_differs_def split: if_splits)
    then show ?thesis using ih runs_skip [of "diff_at a b cl" n] runs_take [of "mask_at a b cl" n] mask by (auto simp: counted_def)
  next
    case diff
    then have "rs_ic r = rs_ic q" "rs_c r = clu_grow (if ir then rs_c q else clu_push (rs_c q) n (\<not> cs_made a ! n))" "inrun" "\<not> inign"
      "rs_diff r = rs_diff q + 1" "rs_nign r = rs_nign q" "rs_in_text r = rs_in_text q + (if cs_made a ! n then 1 else 0)"
      "rs_in_hole r = rs_in_hole q + (if cs_made a ! n then 0 else 1)"
      "rs_paired r = rs_paired q" "rs_length_differs r = rs_length_differs q" "rs_name r = rs_name q" "rs_nomade r = rs_nomade q"
      using st by (auto simp: cmp_byte_def diff_at_def byte_differs_def split: if_splits)
    then show ?thesis using ih runs_skip [of "mask_at a b cl" n] runs_take [of "diff_at a b cl" n] diff by (auto simp: counted_def)
  qed
qed


lemma compare_runs:
  assumes "cs_len a = cs_len b"
  obtains ir ii where "runs_of (diff_at a b cl) (cs_len a) (rs_c (compare a b cl lm label)) ir" "runs_of (mask_at a b cl) (cs_len a) (rs_ic (compare a b cl lm label)) ii"
    "counted a b cl (cs_len a) (compare a b cl lm label)" "rs_identical (compare a b cl lm label) \<longleftrightarrow> rs_diff (compare a b cl lm label) = 0"
    "rs_paired (compare a b cl lm label)" "\<not> rs_length_differs (compare a b cl lm label)" "rs_name (compare a b cl lm label) = label"
proof -
  let ?r0 = "result_init\<lparr>rs_name := label, rs_paired := True, rs_len_new := cs_len a, rs_len_ref := cs_len b, rs_nomade := lm\<rparr>"
  obtain r ir ii where f: "fold (cmp_byte a b cl) [0..<cs_len a] (?r0, False, False) = (r, ir, ii)" using prod_cases3 by blast
  have i: "runs_of (diff_at a b cl) (cs_len a) (rs_c r) ir" "runs_of (mask_at a b cl) (cs_len a) (rs_ic r) ii" "counted a b cl (cs_len a) r"
    "rs_paired r" "\<not> rs_length_differs r" "rs_name r = label"
    using cmp_byte_inv [OF f] by (simp_all add: result_init_def)
  have c: "compare a b cl lm label = r\<lparr>rs_identical := (rs_diff r = 0)\<rparr>" using assms f by (simp add: compare_def Let_def)
  show ?thesis by (rule that [of ir ii]) (use i in \<open>simp_all add: c counted_def\<close>)
qed

lemma compare_lengths: "cs_len a \<noteq> cs_len b \<Longrightarrow> rs_length_differs (compare a b cl lm label) \<and> \<not> rs_identical (compare a b cl lm label)"
  by (simp add: compare_def Let_def result_init_def)

definition identical_bytes :: "csect \<Rightarrow> csect \<Rightarrow> bool \<Rightarrow> bool" where
  "identical_bytes a b cl \<longleftrightarrow> cs_len a = cs_len b \<and> list_all (\<lambda>i. \<not> diff_at a b cl i) [0..<cs_len a]"

lemma identical_iff: "rs_identical (compare a b cl lm label) \<longleftrightarrow> identical_bytes a b cl"
proof (cases "cs_len a = cs_len b")
  case True
  have "rs_identical (compare a b cl lm label) \<longleftrightarrow> filter (diff_at a b cl) [0..<cs_len a] = []"
    by (rule compare_runs [OF True, of cl lm label]) (simp add: counted_def)
  then show ?thesis using True by (simp add: identical_bytes_def filter_empty_conv list_all_iff)
qed (simp add: compare_lengths identical_bytes_def)

lemma compare_spec:
  fixes a b :: csect and cl :: bool
  defines "D \<equiv> filter (diff_at a b cl) [0..<cs_len a]" and "M \<equiv> filter (mask_at a b cl) [0..<cs_len a]"
  shows "let r = compare a b cl lm label in
    if cs_len a \<noteq> cs_len b then rs_length_differs r \<and> \<not> rs_identical r
    else concat (map clu_range (rs_c r)) = D \<and> sorted_wrt clu_apart (rs_c r) \<and> concat (map clu_range (rs_ic r)) = M \<and> sorted_wrt clu_apart (rs_ic r)
      \<and> rs_diff r = length D \<and> rs_nign r = length M \<and> rs_in_text r = length (filter (\<lambda>i. cs_made a ! i) D)
      \<and> rs_in_hole r = length (filter (\<lambda>i. \<not> cs_made a ! i) D) \<and> (rs_identical r \<longleftrightarrow> D = [])"
proof (cases "cs_len a = cs_len b")
  case True
  have flt: "filter (\<lambda>i. cs_made a ! i) D = filter (\<lambda>i. diff_at a b cl i \<and> cs_made a ! i) [0..<cs_len a]"
    "filter (\<lambda>i. \<not> cs_made a ! i) D = filter (\<lambda>i. diff_at a b cl i \<and> \<not> cs_made a ! i) [0..<cs_len a]"
    by (simp_all add: D_def conj_commute)
  show ?thesis unfolding Let_def flt
    by (rule compare_runs [OF True, of cl lm label]) (use True in \<open>simp add: runs_of_def counted_def D_def M_def\<close>)
qed (simp add: compare_lengths)

text \<open>
  C25. A comparison reports exactly what differs. The clusters list, in ascending order and as maximal runs, the
  positions whose bytes differ, are not under a cleared address constant of either side and are not suppressed; the
  suppressed differences are listed the same way beside them; the counts are the counts of those positions, split by
  whether the assembler made the byte; and the section is reported identical exactly where the lengths agree and no
  such position exists.
\<close>

theorem compare_exact:
  "let r = compare a b cl lm label; D = filter (diff_at a b cl) [0..<cs_len a]; M = filter (mask_at a b cl) [0..<cs_len a] in
    if cs_len a \<noteq> cs_len b then rs_length_differs r \<and> \<not> rs_identical r
    else concat (map clu_range (rs_c r)) = D \<and> sorted_wrt clu_apart (rs_c r) \<and> concat (map clu_range (rs_ic r)) = M \<and> sorted_wrt clu_apart (rs_ic r)
      \<and> rs_diff r = length D \<and> rs_nign r = length M \<and> rs_in_text r = length (filter (\<lambda>i. cs_made a ! i) D)
      \<and> rs_in_hole r = length (filter (\<lambda>i. \<not> cs_made a ! i) D) \<and> (rs_identical r \<longleftrightarrow> D = [])"
  using compare_spec [of a b cl lm label] by (simp only: Let_def)

subsection \<open>The exit code\<close>

definition selected :: "cmp_opts \<Rightarrow> side \<Rightarrow> side \<Rightarrow> nat list" where
  "selected co A B = filter (\<lambda>i. cs_len (sd_s A ! i) \<noteq> 0 \<and> (co_only co = None \<or> co_only co = Some (label_at A B (pair_sections A B) i))) [0..<length (sd_s A)]"

definition sect_agrees :: "cmp_opts \<Rightarrow> side \<Rightarrow> side \<Rightarrow> nat \<Rightarrow> bool" where
  "sect_agrees co A B i \<longleftrightarrow> (case pair_sections A B i of Some k \<Rightarrow> identical_bytes (sd_s A ! i) (sd_s B ! k) (co_clearrld co) | None \<Rightarrow> False)"

lemma cmp_sect_skip:
  "i \<notin> set (selected co A B) \<Longrightarrow> i < length (sd_s A) \<Longrightarrow> cmp_sect co difout A B (pair_sections A B) i st = st"
  by (auto simp: selected_def cmp_sect_def Let_def)

lemma cmp_sect_rc:
  assumes "i \<in> set (selected co A B)"
  shows "ru_rc (cmp_sect co difout A B (pair_sections A B) i st) = (if sect_agrees co A B i then ru_rc st else 1)"
    "ru_npair (cmp_sect co difout A B (pair_sections A B) i st) = ru_npair st + (if pair_sections A B i = None then 0 else 1)"
proof -
  have "\<not> cs_len (sd_s A ! i) = 0" "\<not> (co_only co \<noteq> None \<and> co_only co \<noteq> Some (label_at A B (pair_sections A B) i))"
    using assms by (auto simp: selected_def)
  note u = this [THEN if_not_P]
  show "ru_rc (cmp_sect co difout A B (pair_sections A B) i st) = (if sect_agrees co A B i then ru_rc st else 1)"
    "ru_npair (cmp_sect co difout A B (pair_sections A B) i st) = ru_npair st + (if pair_sections A B i = None then 0 else 1)"
    unfolding cmp_sect_def Let_def u sect_agrees_def by (auto simp: identical_iff split: option.split)
qed

lemma cmp_loop_rc:
  "ru_rc (cmp_loop co difout A B din) = (if list_all (sect_agrees co A B) (selected co A B) then 0 else 1)
   \<and> (ru_npair (cmp_loop co difout A B din) = 0 \<longleftrightarrow> list_all (\<lambda>i. pair_sections A B i = None) (selected co A B))"
proof -
  let ?f = "cmp_sect co difout A B (pair_sections A B)" and ?s = "\<lambda>n. filter (\<lambda>i. i \<in> set (selected co A B)) [0..<n]"
  have "ru_rc (fold ?f [0..<n] st0) = (if list_all (sect_agrees co A B) (?s n) then 0 else 1)
      \<and> (ru_npair (fold ?f [0..<n] st0) = 0 \<longleftrightarrow> list_all (\<lambda>i. pair_sections A B i = None) (?s n))"
    if "n \<le> length (sd_s A)" "ru_rc st0 = 0" "ru_npair st0 = 0" for n st0
    using that(1)
  proof (induction n)
    case (Suc n)
    then show ?case using cmp_sect_skip [of n co A B] cmp_sect_rc [of n co A B] by (cases "n \<in> set (selected co A B)") auto
  qed (simp add: that)
  moreover have "?s (length (sd_s A)) = selected co A B" unfolding selected_def by (rule filter_cong) auto
  ultimately show ?thesis unfolding cmp_loop_def using order_refl by force
qed

lemma selected_nonempty:
  assumes "early_refusal co A B = None" shows "selected co A B \<noteq> []"
proof (cases "co_only co")
  case None
  then have "has_text_section A" using assms by (auto simp: early_refusal_def split: if_splits)
  then show ?thesis using None by (fastforce simp: has_text_section_def selected_def list_ex_iff filter_empty_conv in_set_conv_nth)
next
  case (Some nm)
  then have "csect_named A B (pair_sections A B) nm" using assms by (auto simp: early_refusal_def split: if_splits)
  then show ?thesis using Some by (auto simp: csect_named_def selected_def list_ex_iff filter_empty_conv)
qed

lemma exit_code:
  "fst (cmp_main co difout A B din) =
    (if early_refusal co A B \<noteq> None then 2
     else if co_only co \<noteq> None \<and> list_all (\<lambda>i. pair_sections A B i = None) (selected co A B) then 2
     else if list_all (sect_agrees co A B) (selected co A B) then 0 else 1)"
proof (cases "early_refusal co A B")
  case None
  note r = cmp_loop_rc [of co difout A B din]
  have inc: "\<not> ((image_incomplete B \<or> image_incomplete A) \<and> \<not> co_allow_incomplete co)" using None by (auto simp: early_refusal_def split: if_splits)
  note selected_nonempty [OF None]
  then have "ru_npair (cmp_loop co difout A B din) = 0 \<Longrightarrow> ru_rc (cmp_loop co difout A B din) \<noteq> 0"
    using r by (cases "selected co A B") (auto simp: sect_agrees_def)
  then show ?thesis using None inc r by (auto simp: cmp_main_def Let_def)
qed (simp add: cmp_main_def)


end
