(* ===== verification/Cmp_Difout.thy ===== *)
theory Cmp_Difout
  imports Cmp_Compare
begin

section \<open>cmplmd370: a difference file suppresses what it lists\<close>

text \<open>
  What \<^verbatim>\<open>--difout\<close> writes and what \<^verbatim>\<open>--difin\<close> makes of it: for named sections a second run with the file of the first
  suppresses exactly the differences found, and ends with exit code 0. For an unnamed section it does not: the file
  has the section under its label, which is no section's name.
\<close>

subsection \<open>Hexadecimal fields\<close>

lemma hexn_append: "hexn (s @ t) v = (case hexn s v of None \<Rightarrow> None | Some u \<Rightarrow> hexn t u)"
  by (induction s arbitrary: v) (auto split: option.split)

lemma hex_chars:
  assumes "d < 16"
  shows "hex_digit (hex_char d) = Some d" "hex_char d \<noteq> CHR 0x0A \<and> hex_char d \<noteq> CHR 0x0D \<and> hex_char d \<noteq> CHR 0x00 \<and> hex_char d \<noteq> CHR ''>''"
proof -
  have n: "of_char (hex_char d) = (if d < 10 then 48 + d else 55 + d)" using assms by (simp add: hex_char_def)
  then show "hex_digit (hex_char d) = Some d" using assms by (simp add: hex_digit_def Let_def)
  have "c \<noteq> hex_char d" if "of_char c < (48 :: nat) \<or> of_char c = (62 :: nat)" for c using n assms that by (auto split: if_splits)
  from this [of "CHR 0x0A"] this [of "CHR 0x0D"] this [of "CHR 0x00"] this [of "CHR ''>''"]
  show "hex_char d \<noteq> CHR 0x0A \<and> hex_char d \<noteq> CHR 0x0D \<and> hex_char d \<noteq> CHR 0x00 \<and> hex_char d \<noteq> CHR ''>''" by auto
qed

lemma hex_digits_value: "hexn (hex_digits v) 0 = Some v"
proof (induction v rule: hex_digits.induct)
  case (1 v)
  have m: "hex_digit (hex_char (v mod 16)) = Some (v mod 16)" by (rule hex_chars) simp
  show ?case
  proof (cases "v < 16")
    case True
    then show ?thesis using m by (subst hex_digits.simps) simp
  next
    case False
    then show ?thesis using 1 [OF False] m by (subst hex_digits.simps) (simp add: hexn_append)
  qed
qed

definition plain :: "string \<Rightarrow> bool" where
  "plain s \<longleftrightarrow> list_all (\<lambda>c. c \<noteq> CHR 0x0A \<and> c \<noteq> CHR 0x0D \<and> c \<noteq> CHR 0x00) s"

lemma hex_digits_shape:
  "hex_digits v \<noteq> [] \<and> plain (hex_digits v) \<and> CHR ''>'' \<notin> set (hex_digits v) \<and> (v < 16 ^ Suc w \<longrightarrow> length (hex_digits v) \<le> Suc w)"
proof (induction v arbitrary: w rule: hex_digits.induct)
  case (1 v)
  have m: "hex_char (v mod 16) \<noteq> CHR 0x0A \<and> hex_char (v mod 16) \<noteq> CHR 0x0D \<and> hex_char (v mod 16) \<noteq> CHR 0x00 \<and> hex_char (v mod 16) \<noteq> CHR ''>''"
    by (rule hex_chars) simp
  show ?case
  proof (cases "v < 16")
    case True
    then show ?thesis using m by (subst (1 2 3 4) hex_digits.simps) (auto simp: plain_def)
  next
    case False
    have ih: "plain (hex_digits (v div 16))" "CHR ''>'' \<notin> set (hex_digits (v div 16))" "v div 16 < 16 ^ Suc u \<Longrightarrow> length (hex_digits (v div 16)) \<le> Suc u" for u
      using 1 [OF False] by blast+
    have "length (hex_digits v) \<le> Suc w" if v: "v < 16 ^ Suc w"
    proof -
      obtain u where u: "w = Suc u" using v False by (cases w) auto
      then have "v div 16 < 16 ^ Suc u" using v by (simp add: div_less_iff_less_mult)
      then show ?thesis using ih(3) [of u] u False by (subst hex_digits.simps) simp
    qed
    then show ?thesis using False m ih(1,2) by (subst (1 2 3) hex_digits.simps) (auto simp: plain_def)
  qed
qed

lemma list_all_replicate: "P x \<Longrightarrow> list_all P (replicate n x)"
  by (simp add: list_all_length)

lemma fmt_0X_field:
  assumes "v < 16 ^ Suc w"
  shows "length (fmt_0X (Suc w) v) = Suc w" "hexn (fmt_0X (Suc w) v) 0 = Some v" "plain (fmt_0X (Suc w) v)" "CHR ''>'' \<notin> set (fmt_0X (Suc w) v)"
proof -
  note d = hex_digits_shape [of v w]
  have z: "hexn (replicate n (CHR ''0'')) 0 = Some 0" for n by (induction n) (simp_all add: hex_digit_def)
  show "length (fmt_0X (Suc w) v) = Suc w" using d assms by (auto simp: fmt_0X_def Let_def)
  show "hexn (fmt_0X (Suc w) v) 0 = Some v" by (simp add: fmt_0X_def Let_def hexn_append z hex_digits_value)
  show "plain (fmt_0X (Suc w) v)" using d by (simp add: fmt_0X_def Let_def plain_def list_all_replicate)
  show "CHR ''>'' \<notin> set (fmt_0X (Suc w) v)" using d by (simp add: fmt_0X_def Let_def)
qed

subsection \<open>Lines\<close>

definition is_line :: "string \<Rightarrow> bool" where
  "is_line l \<longleftrightarrow> (\<exists>b. l = b @ [CHR 0x0A] \<and> CHR 0x0A \<notin> set b \<and> length b \<le> 254)"

lemma fgets_concat: "list_all is_line ls \<Longrightarrow> fgets_lines 254 (concat ls) = ls"
proof (induction ls)
  case Nil
  then show ?case by (subst fgets_lines.simps) simp
next
  case (Cons l ls)
  obtain b where b: "l = b @ [CHR 0x0A]" "CHR 0x0A \<notin> set b" "length b \<le> 254" using Cons(2) by (auto simp: is_line_def)
  have w: "takeWhile (\<lambda>c. c \<noteq> CHR 0x0A) (b @ CHR 0x0A # concat ls) = b"
    using b(2) by (subst takeWhile_append2) auto
  have c: "concat (l # ls) = b @ CHR 0x0A # concat ls" by (simp add: b(1))
  show ?case unfolding c using Cons b(3) by (subst fgets_lines.simps) (simp add: w Let_def b(1) min_def)
qed

lemma chomp_line: "plain b \<Longrightarrow> chomp (b @ [CHR 0x0A]) = b"
proof -
  assume p: "plain b"
  have t: "takeWhile (\<lambda>c. c \<noteq> CHR 0x00) (b @ [CHR 0x0A]) = b @ [CHR 0x0A]"
    using p by (intro takeWhile_eq_all_conv [THEN iffD2]) (auto simp: plain_def list_all_iff)
  have "dropWhile (\<lambda>c. c = CHR 0x0A \<or> c = CHR 0x0D) (rev b) = rev b"
    using p by (cases "rev b") (auto simp: plain_def list_all_iff dest: arg_cong [of _ _ set])
  then show ?thesis by (simp add: chomp_def t)
qed


subsection \<open>Marking a section\<close>

definition ign_by :: "nat set \<Rightarrow> csect \<Rightarrow> csect" where
  "ign_by R s = s\<lparr>cs_ign := map (\<lambda>j. cs_ign s ! j \<or> j \<in> R) [0..<cs_len s]\<rparr>"

lemma ign_by_fields [simp]:
  "cs_name (ign_by R s) = cs_name s" "cs_len (ign_by R s) = cs_len s" "cs_bytes (ign_by R s) = cs_bytes s" "cs_relo (ign_by R s) = cs_relo s"
  "cs_made (ign_by R s) = cs_made s" "cs_ent (ign_by R s) = cs_ent s"
  by (simp_all add: ign_by_def)

lemma ign_by_empty: "sect_wf s \<Longrightarrow> ign_by {} s = s"
proof -
  assume "sect_wf s"
  then have "map (\<lambda>j. cs_ign s ! j \<or> j \<in> {}) [0..<cs_len s] = cs_ign s" using map_nth [of "cs_ign s"] by (simp add: sect_wf_def)
  then show ?thesis unfolding ign_by_def by (simp only:) simp
qed

lemma mark_ign_by: "mark_ign off len (ign_by R s) = ign_by (R \<union> {off..<off + len}) s"
proof -
  have "fold (\<lambda>i ign. if off + i < cs_len s then ign[off + i := True] else ign) [0..<len] (map (\<lambda>j. cs_ign s ! j \<or> j \<in> R) [0..<cs_len s])
      = map (\<lambda>j. cs_ign s ! j \<or> j \<in> R \<union> {off..<off + len}) [0..<cs_len s]"
  proof (induction len)
    case (Suc len)
    let ?f = "\<lambda>R. map (\<lambda>j. cs_ign s ! j \<or> j \<in> R) [0..<cs_len s]"
    have eq: "(if off + len < cs_len s then (?f (R \<union> {off..<off + len}))[off + len := True] else ?f (R \<union> {off..<off + len})) = ?f (R \<union> {off..<off + Suc len})"
      by (rule nth_equalityI) (auto simp: nth_list_update less_Suc_eq_le split: if_splits)
    show ?case by (simp only: upt_Suc_append [OF le0] fold_append comp_apply Suc fold_simps eq)
  qed simp
  then show ?thesis by (simp add: mark_ign_def ign_by_def)
qed

definition label_ok :: "string \<Rightarrow> bool" where
  "label_ok s \<longleftrightarrow> s \<noteq> [] \<and> length s \<le> 8 \<and> plain s \<and> CHR '' '' \<notin> set s"

text \<open>The state of \<^verbatim>\<open>difin_load\<close> in the group of section \<open>si\<close>, which is masked by \<open>R\<close>; at most \<open>n\<close> sections are noted with it.\<close>

definition in_group :: "side \<Rightarrow> nat \<Rightarrow> nat set \<Rightarrow> nat \<Rightarrow> difin_st \<Rightarrow> bool" where
  "in_group sd si R n st \<longleftrightarrow> ds_side st = upd_sect si (ign_by R) sd \<and> ds_cur st = cs_name (sd_s sd ! si)
     \<and> length (ds_din st) \<le> n \<and> (cs_name (sd_s sd ! si) \<in> di_name ` set (ds_din st) \<or> length (ds_din st) < n)"

lemma din_note_room:
  assumes "length din \<le> n" "name \<in> di_name ` set din \<or> length din < n" "n \<le> MAXSECT_cmp" "length name \<le> 8"
  obtains din' where "din_note name c din = Inr din'" "name \<in> di_name ` set din'" "length din' \<le> n"
proof (cases "List.find (\<lambda>i. di_name (din ! i) = name) [0..<length din]")
  case None
  then have "name \<notin> di_name ` set din" by (auto simp: find_None_iff in_set_conv_nth)
  then show ?thesis using that [of "din @ [\<lparr>di_name = take 8 name, di_c = [c], di_judged = False\<rparr>]"] None assms by (simp add: din_note_def)
next
  case (Some i)
  then have i: "i < length din" "di_name (din ! i) = name" by (auto simp: find_Some_iff nth_append)
  let ?d = "din[i := (din ! i)\<lparr>di_c := di_c (din ! i) @ [c]\<rparr>]"
  have "?d ! i \<in> set ?d" using i(1) by (intro nth_mem) simp
  then have "name \<in> di_name ` set ?d" by (rule image_eqI [rotated]) (use i in simp)
  then show ?thesis using that [of ?d] Some i assms(1) by (simp add: din_note_def)
qed

lemma sect_find_upd:
  assumes "si < length (sd_s sd)" "distinct (map cs_name (sd_s sd))" "\<And>s. cs_name (f s) = cs_name s"
  shows "sect_find (upd_sect sj f sd) (cs_name (sd_s sd ! si)) = Some si"
proof -
  have n: "cs_name (sd_s (upd_sect sj f sd) ! k) = cs_name (sd_s sd ! k)" if "k < length (sd_s sd)" for k
    using that assms(3) by (cases "sj < length (sd_s sd)") (auto simp: upd_sect_def nth_list_update list_update_beyond)
  have l: "length (sd_s (upd_sect sj f sd)) = length (sd_s sd)" by (simp add: upd_sect_def)
  have "cs_name (sd_s sd ! j) \<noteq> cs_name (sd_s sd ! si)" if "j < si" for j
    using nth_eq_iff_index_eq [OF assms(2), of j si] assms(1) that by simp
  then show ?thesis unfolding sect_find_def l find_Some_iff using assms(1) n by (intro exI [of _ si]) (auto simp: nth_append)
qed

lemma upd_twice: "si < length (sd_s sd) \<Longrightarrow> upd_sect si f (upd_sect si g sd) = upd_sect si (f \<circ> g) sd"
  by (simp add: upd_sect_def)

lemma range_line:
  assumes g: "in_group sd si R n st" and si: "si < length (sd_s sd)" "distinct (map cs_name (sd_s sd))" and nm: "label_ok (cs_name (sd_s sd ! si))"
    and n: "n \<le> MAXSECT_cmp" and off: "off < 16 ^ 6" and len: "len < 256"
  shows "\<exists>st'. difin_line (fmt_0X 6 off @ fmt_0X 2 len @ [CHR 0x0A]) st = Inr st' \<and> in_group sd si (R \<union> {off..<off + len}) n st'"
proof -
  have o6: "length (fmt_0X 6 off) = 6" "hexn (fmt_0X 6 off) 0 = Some off" "plain (fmt_0X 6 off)" "CHR ''>'' \<notin> set (fmt_0X 6 off)"
    using fmt_0X_field [of off 5] off by simp_all
  have l2: "length (fmt_0X 2 len) = 2" "hexn (fmt_0X 2 len) 0 = Some len" "plain (fmt_0X 2 len)"
    using fmt_0X_field [of len 1] len by (simp_all add: numeral_2_eq_2)
  let ?b = "fmt_0X 6 off @ fmt_0X 2 len" and ?nm = "cs_name (sd_s sd ! si)"
  define bb where "bb = ?b"
  have c: "chomp (fmt_0X 6 off @ fmt_0X 2 len @ [CHR 0x0A]) = bb" using chomp_line [of ?b] o6(3) l2(3) by (simp add: plain_def bb_def)
  have "fmt_0X 6 off \<noteq> []" using o6(1) by auto
  then have h: "hd (fmt_0X 6 off) \<in> set (fmt_0X 6 off)" by (rule hd_in_set)
  have b: "bb \<noteq> []" "hd bb \<noteq> CHR ''>''" "\<not> length bb < 8" "take 6 bb = fmt_0X 6 off" "take 2 (drop 6 bb) = fmt_0X 2 len"
    using h o6(1,4) l2(1) by (auto simp: hd_append bb_def)
  have gg: "ds_side st = upd_sect si (ign_by R) sd" "ds_cur st = ?nm" using g by (simp_all add: in_group_def)
  obtain din' where d: "din_note ?nm (off, len) (ds_din st) = Inr din'" "?nm \<in> di_name ` set din'" "length din' \<le> n"
    by (rule din_note_room [of "ds_din st" n ?nm]) (use g n nm in \<open>auto simp: in_group_def label_ok_def\<close>)
  have f: "sect_find (upd_sect si (ign_by R) sd) ?nm = Some si" by (rule sect_find_upd [OF si]) simp
  have m: "upd_sect si (mark_ign off len) (upd_sect si (ign_by R) sd) = upd_sect si (ign_by (R \<union> {off..<off + len})) sd"
    using si(1) by (simp add: upd_sect_def mark_ign_by)
  let ?st' = "st\<lparr>ds_lineno := ds_lineno st + 1, ds_din := din', ds_side := upd_sect si (ign_by (R \<union> {off..<off + len})) sd\<rparr>"
  have "difin_line (fmt_0X 6 off @ fmt_0X 2 len @ [CHR 0x0A]) st = Inr ?st'"
    unfolding difin_line_def Let_def c using b o6(2) l2(2) nm gg d(1) f m by (simp add: label_ok_def)
  moreover have "in_group sd si (R \<union> {off..<off + len}) n ?st'" using gg d(2,3) by (simp add: in_group_def)
  ultimately show ?thesis by blast
qed

lemma range_lines:
  assumes si: "si < length (sd_s sd)" "distinct (map cs_name (sd_s sd))" and nm: "label_ok (cs_name (sd_s sd ! si))" and n: "n \<le> MAXSECT_cmp"
  shows "in_group sd si R n st \<Longrightarrow> off + len \<le> 16 ^ 6 \<Longrightarrow>
    \<exists>st'. fold (on_ok difin_line) (emit_range off len) (Inr st) = Inr st' \<and> in_group sd si (R \<union> {off..<off + len}) n st'"
proof (induction off len arbitrary: R st rule: emit_range.induct)
  case (1 off len)
  show ?case
  proof (cases "len > 0")
    case True
    define k where "k = (if len > 255 then 255 else len)"
    have k: "k < 256" "k \<le> len" "0 < k" using True by (auto simp: k_def)
    obtain st1 where s1: "difin_line (fmt_0X 6 off @ fmt_0X 2 k @ [CHR 0x0A]) st = Inr st1" "in_group sd si (R \<union> {off..<off + k}) n st1"
      using range_line [OF 1(2) si nm n _ k(1), of off] 1(3) True by auto
    have "off + k + (len - k) \<le> 16 ^ 6" using 1(3) k(2) by simp
    from 1(1) [OF True k_def s1(2) this] obtain st' where s': "fold (on_ok difin_line) (emit_range (off + k) (len - k)) (Inr st1) = Inr st'"
      "in_group sd si (R \<union> {off..<off + k} \<union> {off + k..<off + k + (len - k)}) n st'" by blast
    have "R \<union> {off..<off + k} \<union> {off + k..<off + k + (len - k)} = R \<union> {off..<off + len}" using k(2) by auto
    moreover have "emit_range off len = (fmt_0X 6 off @ fmt_0X 2 k @ [CHR 0x0A]) # emit_range (off + k) (len - k)"
      using True by (subst emit_range.simps) (simp add: Let_def k_def)
    ultimately show ?thesis using s1(1) s' by (simp add: on_ok_simps)
  next
    case False
    then show ?thesis using 1(2) by (subst emit_range.simps) simp
  qed
qed


definition ranges_of :: "clu list \<Rightarrow> nat set" where
  "ranges_of cs = \<Union> ((\<lambda>c. {cl_off c..<cl_off c + cl_len c}) ` set cs)"

lemma cluster_lines:
  assumes si: "si < length (sd_s sd)" "distinct (map cs_name (sd_s sd))" and nm: "label_ok (cs_name (sd_s sd ! si))" and n: "n \<le> MAXSECT_cmp"
  shows "in_group sd si R n st \<Longrightarrow> list_all (\<lambda>c. cl_off c + cl_len c \<le> 16 ^ 6) cs \<Longrightarrow>
    \<exists>st'. fold (on_ok difin_line) (concat (map (\<lambda>c. emit_range (cl_off c) (cl_len c)) cs)) (Inr st) = Inr st' \<and> in_group sd si (R \<union> ranges_of cs) n st'"
proof (induction cs arbitrary: R st)
  case (Cons c cs)
  obtain st1 where s1: "fold (on_ok difin_line) (emit_range (cl_off c) (cl_len c)) (Inr st) = Inr st1" "in_group sd si (R \<union> {cl_off c..<cl_off c + cl_len c}) n st1"
    using range_lines [OF si nm n Cons.prems(1), of "cl_off c" "cl_len c"] Cons.prems(2) by auto
  obtain st' where s': "fold (on_ok difin_line) (concat (map (\<lambda>c. emit_range (cl_off c) (cl_len c)) cs)) (Inr st1) = Inr st'"
    "in_group sd si (R \<union> {cl_off c..<cl_off c + cl_len c} \<union> ranges_of cs) n st'"
    using Cons.IH [OF s1(2)] Cons.prems(2) by auto
  then show ?case using s1(1) by (auto simp: ranges_of_def Un_assoc)
qed (simp add: ranges_of_def)

lemma group_lines:
  assumes si: "si < length (sd_s sd)" "distinct (map cs_name (sd_s sd))" and nm: "label_ok (cs_name (sd_s sd ! si))" and n: "Suc n \<le> MAXSECT_cmp"
    and wf: "sect_wf (sd_s sd ! si)" and st: "ds_side st = sd" "length (ds_din st) \<le> n" and cs: "list_all (\<lambda>c. cl_off c + cl_len c \<le> 16 ^ 6) cs"
  shows "\<exists>st'. fold (on_ok difin_line) (difout_header (cs_name (sd_s sd ! si)) # concat (map (\<lambda>c. emit_range (cl_off c) (cl_len c)) cs)) (Inr st) = Inr st'
    \<and> ds_side st' = upd_sect si (ign_by (ranges_of cs)) sd \<and> length (ds_din st') \<le> Suc n"
proof -
  let ?nm = "cs_name (sd_s sd ! si)"
  have "takeWhile (\<lambda>c. c \<noteq> CHR '' '') ?nm = ?nm" using nm by (auto simp: label_ok_def)
  then have p: "plain (CHR ''>'' # ?nm)" "take 8 (takeWhile (\<lambda>c. c \<noteq> CHR '' '') ?nm) = ?nm"
    using nm by (simp_all only:) (auto simp: label_ok_def plain_def)
  have h: "difin_line (difout_header ?nm) st = Inr (st\<lparr>ds_lineno := ds_lineno st + 1, ds_cur := ?nm\<rparr>)"
    using chomp_line [OF p(1)] p(2) by (simp add: difin_line_def difout_header_def Let_def)
  have "upd_sect si (ign_by {}) sd = sd" using si(1) wf by (simp add: upd_sect_def ign_by_empty)
  then have "in_group sd si {} (Suc n) (st\<lparr>ds_lineno := ds_lineno st + 1, ds_cur := ?nm\<rparr>)" using st by (simp add: in_group_def)
  from cluster_lines [OF si nm n this cs] h show ?thesis by (auto simp: in_group_def on_ok_simps)
qed

lemma merge_set: "set (merge_clu cs ics) = set cs \<union> set ics"
  by (induction cs ics rule: merge_clu.induct) auto

text \<open>All groups, for sections in the order of \<open>is\<close>.\<close>

lemma all_groups:
  assumes "list_all (\<lambda>i. i < length (sd_s sd) \<and> label_ok (cs_name (sd_s sd ! i))) is" "list_all sect_wf (sd_s sd)" "distinct (map cs_name (sd_s sd))"
    "length (ds_din st) + length is \<le> MAXSECT_cmp" "ds_side st = sd" "\<And>i. i \<in> set is \<Longrightarrow> list_all (\<lambda>c. cl_off c + cl_len c \<le> 16 ^ 6) (cs i)"
  shows "\<exists>st'. fold (on_ok difin_line) (concat (map (\<lambda>i. if cs i = [] then [] else difout_header (cs_name (sd_s sd ! i)) # concat (map (\<lambda>c. emit_range (cl_off c) (cl_len c)) (cs i))) is)) (Inr st)
    = Inr st' \<and> ds_side st' = fold (\<lambda>i. upd_sect i (ign_by (ranges_of (cs i)))) is sd"
  using assms
proof (induction "is" arbitrary: sd st)
  case (Cons i "is")
  let ?L = "\<lambda>sd i. if cs i = [] then [] else difout_header (cs_name (sd_s sd ! i)) # concat (map (\<lambda>c. emit_range (cl_off c) (cl_len c)) (cs i))"
  define sd1 where "sd1 = upd_sect i (ign_by (ranges_of (cs i))) sd"
  have i: "i < length (sd_s sd)" "label_ok (cs_name (sd_s sd ! i))" "sect_wf (sd_s sd ! i)" using Cons.prems(1,2) by (auto simp: list_all_length)
  have "\<exists>st1. fold (on_ok difin_line) (?L sd i) (Inr st) = Inr st1 \<and> ds_side st1 = sd1 \<and> length (ds_din st1) \<le> Suc (length (ds_din st))"
  proof (cases "cs i = []")
    case True
    then have "sd1 = sd" using i by (simp add: sd1_def ranges_of_def upd_sect_def ign_by_empty)
    then show ?thesis using True Cons.prems(5) by simp
  next
    case False
    then show ?thesis using group_lines [OF i(1) Cons.prems(3) i(2) _ i(3) Cons.prems(5) order_refl, of "cs i"] Cons.prems(4,6) by (simp add: sd1_def)
  qed
  then obtain st1 where st1: "fold (on_ok difin_line) (?L sd i) (Inr st) = Inr st1" "ds_side st1 = sd1" "length (ds_din st1) \<le> Suc (length (ds_din st))" by blast
  have nm: "map cs_name (sd_s sd1) = map cs_name (sd_s sd)" using list_update_same_conv [of i "map cs_name (sd_s sd)"] i(1) by (simp add: sd1_def upd_sect_def map_update)
  then have len: "length (sd_s sd1) = length (sd_s sd)" using map_eq_imp_length_eq by blast
  have nmi: "cs_name (sd_s sd1 ! k) = cs_name (sd_s sd ! k)" if "k < length (sd_s sd)" for k using nm len that by (metis nth_map)
  have "sect_wf (ign_by R s)" if "sect_wf s" for R s using that by (simp add: sect_wf_def ign_by_def)
  then have wf: "list_all sect_wf (sd_s sd1)" using Cons.prems(2) i(3)
    by (auto simp: sd1_def upd_sect_def list_all_iff dest!: set_update_subset_insert [THEN subsetD])
  have "\<exists>st'. fold (on_ok difin_line) (concat (map (?L sd1) is)) (Inr st1) = Inr st' \<and> ds_side st' = fold (\<lambda>i. upd_sect i (ign_by (ranges_of (cs i)))) is sd1"
    by (rule Cons.IH) (use Cons.prems st1 wf nm nmi len in \<open>auto simp: list_all_iff\<close>)
  moreover have "map (?L sd1) is = map (?L sd) is" using Cons.prems(1) nmi by (auto simp: list_all_iff)
  ultimately show ?case using st1(1) by (auto simp: sd1_def)
qed simp

lemma fold_upd_nth:
  "distinct is \<Longrightarrow> k < length (sd_s sd) \<Longrightarrow> sd_s (fold (\<lambda>i. upd_sect i (f i)) is sd) ! k = (if k \<in> set is then f k (sd_s sd ! k) else sd_s sd ! k)"
proof (induction "is" arbitrary: sd)
  case (Cons i "is")
  have "sd_s (upd_sect i (f i) sd) ! k = (if k = i then f i (sd_s sd ! i) else sd_s sd ! k)"
    using Cons.prems(2) by (simp add: upd_sect_def)
  moreover have "k < length (sd_s (upd_sect i (f i) sd))" using Cons.prems(2) by (simp add: upd_sect_def)
  ultimately show ?case using Cons.IH [of "upd_sect i (f i) sd"] Cons.prems(1) by auto
qed simp

lemma fold_upd_rest:
  "length (sd_s (fold (\<lambda>i. upd_sect i (f i)) is sd)) = length (sd_s sd)" "sd_is_lmod (fold (\<lambda>i. upd_sect i (f i)) is sd) = sd_is_lmod sd"
  "sd_info (fold (\<lambda>i. upd_sect i (f i)) is sd) = sd_info sd"
  by (induction "is" arbitrary: sd) (simp_all add: upd_sect_def)


subsection \<open>The next run\<close>

definition same_keys :: "side \<Rightarrow> side \<Rightarrow> bool" where
  "same_keys A' A \<longleftrightarrow> length (sd_s A') = length (sd_s A) \<and> sd_is_lmod A' = sd_is_lmod A \<and> sd_info A' = sd_info A
    \<and> (\<forall>i<length (sd_s A). cs_name (sd_s A' ! i) = cs_name (sd_s A ! i) \<and> cs_len (sd_s A' ! i) = cs_len (sd_s A ! i) \<and> cs_ent (sd_s A' ! i) = cs_ent (sd_s A ! i))"

lemma same_keys_run:
  assumes "same_keys A' A"
  shows "pair_sections A' B = pair_sections A B" "selected co A' B = selected co A B" "early_refusal co A' B = early_refusal co A B"
proof -
  have k: "cs_name (sd_s A' ! i) = cs_name (sd_s A ! i)" "cs_len (sd_s A' ! i) = cs_len (sd_s A ! i)" "cs_ent (sd_s A' ! i) = cs_ent (sd_s A ! i)"
    if "i \<in> set [0..<length (sd_s A)]" for i using assms that by (auto simp: same_keys_def)
  have n: "length (sd_s A') = length (sd_s A)" using assms by (simp add: same_keys_def)
  have f: "fold (pair_name A' B) [0..<length (sd_s A)] = fold (pair_name A B) [0..<length (sd_s A)]" "fold (pair_entry A' B) [0..<length (sd_s A)] = fold (pair_entry A B) [0..<length (sd_s A)]"
    "fold (pair_left A' B) [0..<length (sd_s A)] = fold (pair_left A B) [0..<length (sd_s A)]"
    by (rule ext, rule fold_cong; simp add: fun_eq_iff pair_name_def pair_entry_def pair_left_def Let_def k)+
  show p: "pair_sections A' B = pair_sections A B" unfolding pair_sections_def n Let_def f ..
  have l: "label_at A' B P i = label_at A B P i" if "i < length (sd_s A)" for P i using k [of i] that by (simp add: label_at_def sect_label_def)
  show "selected co A' B = selected co A B" unfolding selected_def p n by (rule filter_cong) (simp_all add: k l)
  have "has_text_section A' = has_text_section A"
    using n k(2) by (auto simp: has_text_section_def list_ex_length)
  moreover have "csect_named A' B P nm = csect_named A B P nm" for P nm unfolding csect_named_def n using k(2) l by (auto simp: list_ex_iff)
  moreover have "image_incomplete A' = image_incomplete A" using assms by (simp add: image_incomplete_def same_keys_def)
  ultimately show "early_refusal co A' B = early_refusal co A B" by (simp add: early_refusal_def p split: option.split)
qed

definition sect_lines :: "cmp_opts \<Rightarrow> side \<Rightarrow> side \<Rightarrow> nat \<Rightarrow> string list" where
  "sect_lines co A B i = (case pair_sections A B i of None \<Rightarrow> []
     | Some k \<Rightarrow> write_difout (compare (sd_s A ! i) (sd_s B ! k) (co_clearrld co) (sd_is_lmod A) (label_at A B (pair_sections A B) i)))"

lemma loop_out: "ru_out (cmp_loop co True A B []) = concat (map (sect_lines co A B) (selected co A B)) \<and> ru_din (cmp_loop co True A B []) = []"
proof -
  let ?f = "cmp_sect co True A B (pair_sections A B)" and ?s = "\<lambda>n. filter (\<lambda>i. i \<in> set (selected co A B)) [0..<n]"
  have sel: "ru_out (?f i st) = ru_out st @ sect_lines co A B i \<and> ru_din (?f i st) = []" if i: "i \<in> set (selected co A B)" "ru_din st = []" for i st
  proof -
    have "\<not> cs_len (sd_s A ! i) = 0" "\<not> (co_only co \<noteq> None \<and> co_only co \<noteq> Some (label_at A B (pair_sections A B) i))"
      using i(1) by (auto simp: selected_def)
    note u = this [THEN if_not_P]
    show ?thesis unfolding cmp_sect_def Let_def u sect_lines_def using i(2) by (simp add: judge_def split: option.split)
  qed
  have "ru_out (fold ?f [0..<n] st0) = concat (map (sect_lines co A B) (?s n)) \<and> ru_din (fold ?f [0..<n] st0) = []"
    if "n \<le> length (sd_s A)" "ru_out st0 = []" "ru_din st0 = []" for n st0
    using that(1)
  proof (induction n)
    case (Suc n)
    then show ?case using cmp_sect_skip [of n co A B] sel [of n "fold ?f [0..<n] st0"] by (cases "n \<in> set (selected co A B)") auto
  qed (simp add: that)
  moreover have "?s (length (sd_s A)) = selected co A B" unfolding selected_def by (rule filter_cong) auto
  ultimately show ?thesis unfolding cmp_loop_def using order_refl by force
qed

definition all_clusters :: "cmp_opts \<Rightarrow> side \<Rightarrow> side \<Rightarrow> nat \<Rightarrow> clu list" where
  "all_clusters co A B i = (case pair_sections A B i of None \<Rightarrow> []
     | Some k \<Rightarrow> let r = compare (sd_s A ! i) (sd_s B ! k) (co_clearrld co) (sd_is_lmod A) (label_at A B (pair_sections A B) i) in merge_clu (rs_c r) (rs_ic r))"

lemma merge_empty: "merge_clu cs ics = [] \<longleftrightarrow> cs = [] \<and> ics = []"
  by (cases cs; cases ics) auto

lemma ranges_of_runs: "ranges_of cs = set (concat (map clu_range cs))"
  by (auto simp: ranges_of_def clu_range_def)

lemma clusters_cover:
  assumes "pair_sections A B i = Some k" "cs_len (sd_s A ! i) = cs_len (sd_s B ! k)" "label_ok (cs_name (sd_s A ! i))"
  shows "ranges_of (all_clusters co A B i) = {j. j < cs_len (sd_s A ! i) \<and> byte_differs (sd_s A ! i) (sd_s B ! k) (co_clearrld co) j}"
    "sect_lines co A B i = (if all_clusters co A B i = [] then []
      else difout_header (cs_name (sd_s A ! i)) # concat (map (\<lambda>c. emit_range (cl_off c) (cl_len c)) (all_clusters co A B i)))"
proof -
  let ?a = "sd_s A ! i" and ?b = "sd_s B ! k" and ?cl = "co_clearrld co"
  define r where "r = compare ?a ?b ?cl (sd_is_lmod A) (label_at A B (pair_sections A B) i)"
  have lab: "label_at A B (pair_sections A B) i = cs_name ?a" using assms(3) by (simp add: label_at_def sect_label_def label_ok_def)
  obtain ir ii where f: "runs_of (diff_at ?a ?b ?cl) (cs_len ?a) (rs_c r) ir" "runs_of (mask_at ?a ?b ?cl) (cs_len ?a) (rs_ic r) ii"
    "rs_paired r" "\<not> rs_length_differs r" "rs_name r = cs_name ?a"
    by (rule compare_runs [OF assms(2), of ?cl "sd_is_lmod A" "label_at A B (pair_sections A B) i", folded r_def]) (simp add: lab)
  have c: "all_clusters co A B i = merge_clu (rs_c r) (rs_ic r)" using assms(1) by (simp add: all_clusters_def r_def Let_def)
  have "ranges_of (all_clusters co A B i) = ranges_of (rs_c r) \<union> ranges_of (rs_ic r)" by (simp add: c ranges_of_def merge_set)
  also have "\<dots> = set (filter (diff_at ?a ?b ?cl) [0..<cs_len ?a]) \<union> set (filter (mask_at ?a ?b ?cl) [0..<cs_len ?a])"
    using f(1,2) unfolding ranges_of_runs runs_of_def by (simp only:)
  also have "\<dots> = {j. j < cs_len ?a \<and> byte_differs ?a ?b ?cl j}" by (auto simp: diff_at_def mask_at_def)
  finally show "ranges_of (all_clusters co A B i) = {j. j < cs_len ?a \<and> byte_differs ?a ?b ?cl j}" .
  have "sect_lines co A B i = write_difout r" using assms(1) by (simp add: sect_lines_def r_def)
  then show "sect_lines co A B i = (if all_clusters co A B i = [] then []
      else difout_header (cs_name ?a) # concat (map (\<lambda>c. emit_range (cl_off c) (cl_len c)) (all_clusters co A B i)))"
    using f(3-5) by (simp add: write_difout_def c merge_empty)
qed

lemma clusters_inside:
  assumes "pair_sections A B i = Some k" "cs_len (sd_s A ! i) = cs_len (sd_s B ! k)"
  shows "list_all (\<lambda>c. cl_off c + cl_len c \<le> cs_len (sd_s A ! i)) (all_clusters co A B i)"
proof -
  let ?a = "sd_s A ! i" and ?b = "sd_s B ! k" and ?cl = "co_clearrld co"
  have run: "cl_off c + cl_len c \<le> n" if "runs_of P n cs inrun" "c \<in> set cs" for P n cs inrun c
  proof -
    have "0 < cl_len c" using that by (auto simp: runs_of_def list_all_iff)
    then have "cl_off c + cl_len c - 1 \<in> set (clu_range c)" by (auto simp: clu_range_def)
    then have "cl_off c + cl_len c - 1 \<in> set (concat (map clu_range cs))" using that(2) by auto
    then have "cl_off c + cl_len c - 1 < n" using that(1) by (simp only: runs_of_def) auto
    then show ?thesis by simp
  qed
  show ?thesis
    by (rule compare_runs [OF assms(2), of ?cl "sd_is_lmod A" "label_at A B (pair_sections A B) i"])
      (auto simp: all_clusters_def assms(1) Let_def list_all_iff merge_set intro: run)
qed


lemma lines_ok:
  assumes "label_ok nm" "list_all (\<lambda>c. cl_off c + cl_len c \<le> 16 ^ 6) cs"
  shows "list_all is_line (difout_header nm # concat (map (\<lambda>c. emit_range (cl_off c) (cl_len c)) cs))"
proof -
  have "off + len \<le> 16 ^ 6 \<Longrightarrow> list_all is_line (emit_range off len)" for off len
  proof (induction off len rule: emit_range.induct)
    case (1 off len)
    show ?case
    proof (cases "len > 0")
      case True
      define k where "k = (if len > 255 then 255 else len)"
      have k: "k < 256" "k \<le> len" by (auto simp: k_def)
      have "off < 16 ^ 6" using 1(2) True by simp
      then have "is_line (fmt_0X 6 off @ fmt_0X 2 k @ [CHR 0x0A])"
        using fmt_0X_field [of off 5] fmt_0X_field [of k 1] k(1) unfolding is_line_def
        by (intro exI [of _ "fmt_0X 6 off @ fmt_0X 2 k"]) (auto simp: plain_def list_all_iff numeral_2_eq_2)
      moreover have "emit_range off len = (fmt_0X 6 off @ fmt_0X 2 k @ [CHR 0x0A]) # emit_range (off + k) (len - k)"
        using True by (subst emit_range.simps) (simp add: Let_def k_def)
      ultimately show ?thesis using 1(1) [OF True k_def] 1(2) k(2) by simp
    qed (simp add: emit_range.simps)
  qed
  moreover have "is_line (difout_header nm)" using assms(1) unfolding is_line_def difout_header_def
    by (intro exI [of _ "CHR ''>'' # nm"]) (auto simp: label_ok_def plain_def list_all_iff)
  ultimately show ?thesis using assms(2) by (auto simp: list_all_iff)
qed

definition named_sections :: "side \<Rightarrow> bool" where
  "named_sections A \<longleftrightarrow> length (sd_s A) \<le> MAXSECT_cmp \<and> distinct (map cs_name (sd_s A)) \<and> list_all (\<lambda>s. sect_wf s \<and> label_ok (cs_name s) \<and> cs_len s \<le> 16 ^ 6) (sd_s A)"

text \<open>
  C26. A reviewed run seeds the next one: where every section compared is paired with one of its length and the
  sections have names of their own, the file \<^verbatim>\<open>--difout\<close> writes reads back as \<^verbatim>\<open>--difin\<close> without an error, and the
  comparison of the same sides with it exits with 0.
\<close>

theorem difout_converges:
  assumes "named_sections A" "early_refusal co A B = None" "out = fst (snd (cmp_main co True A B []))"
    "list_all (\<lambda>i. case pair_sections A B i of Some k \<Rightarrow> cs_len (sd_s A ! i) = cs_len (sd_s B ! k) | None \<Rightarrow> False) (selected co A B)"
  shows "\<exists>A' din. difin_load A (concat out) = Inr (A', din) \<and> fst (cmp_main co False A' B din) = 0"
proof -
  let ?is = "selected co A B" and ?cs = "all_clusters co A B"
  have A: "length (sd_s A) \<le> MAXSECT_cmp" "distinct (map cs_name (sd_s A))" "list_all sect_wf (sd_s A)"
    using assms(1) by (auto simp: named_sections_def list_all_iff)
  have sel: "i < length (sd_s A) \<and> label_ok (cs_name (sd_s A ! i)) \<and> cs_len (sd_s A ! i) \<le> 16 ^ 6 \<and> (\<exists>k. pair_sections A B i = Some k \<and> cs_len (sd_s A ! i) = cs_len (sd_s B ! k))"
    if "i \<in> set ?is" for i
  proof -
    have "i < length (sd_s A)" using that by (simp add: selected_def)
    then show ?thesis using that assms(1,4) by (auto simp: named_sections_def list_all_iff split: option.splits)
  qed
  have inside: "list_all (\<lambda>c. cl_off c + cl_len c \<le> 16 ^ 6) (?cs i)" if i: "i \<in> set ?is" for i
  proof -
    obtain k where "pair_sections A B i = Some k" "cs_len (sd_s A ! i) = cs_len (sd_s B ! k)" using sel [OF i] by blast
    from clusters_inside [OF this, of co] show ?thesis using sel [OF i] by (auto simp: list_all_iff dest: order_trans)
  qed
  let ?L = "\<lambda>i. if ?cs i = [] then [] else difout_header (cs_name (sd_s A ! i)) # concat (map (\<lambda>c. emit_range (cl_off c) (cl_len c)) (?cs i))"
  have lines: "sect_lines co A B i = ?L i" if "i \<in> set ?is" for i
    using sel [OF that] clusters_cover(2) [of A B i _ co] by blast
  have ml: "map (sect_lines co A B) ?is = map ?L ?is" by (rule map_cong [OF refl lines])
  have out: "out = concat (map ?L ?is)"
    using loop_out [of co A B] assms(2) unfolding ml by (simp add: assms(3) cmp_main_def Let_def difout_carry_def)
  have "list_all is_line out"
    unfolding out using lines_ok [OF _ inside] sel by (fastforce simp: list_all_iff)
  then have fg: "fgets_lines 254 (concat out) = out" by (rule fgets_concat)
  define st0 where "st0 = \<lparr>ds_side = A, ds_din = [], ds_cur = [], ds_lineno = 0\<rparr>"
  have "length ?is \<le> length (sd_s A)" unfolding selected_def using length_filter_le [of _ "[0..<length (sd_s A)]"] by simp
  then have "\<exists>st'. fold (on_ok difin_line) (concat (map ?L ?is)) (Inr st0) = Inr st' \<and> ds_side st' = fold (\<lambda>i. upd_sect i (ign_by (ranges_of (?cs i)))) ?is A"
    using A sel inside by (intro all_groups) (auto simp: list_all_iff st0_def)
  then obtain st' where st': "fold (on_ok difin_line) out (Inr st0) = Inr st'" "ds_side st' = fold (\<lambda>i. upd_sect i (ign_by (ranges_of (?cs i)))) ?is A"
    unfolding out by blast
  let ?A' = "ds_side st'"
  have dis: "distinct ?is" by (simp add: selected_def)
  have nth: "sd_s ?A' ! k = (if k \<in> set ?is then ign_by (ranges_of (?cs k)) (sd_s A ! k) else sd_s A ! k)" if "k < length (sd_s A)" for k
    unfolding st'(2) by (rule fold_upd_nth [OF dis that])
  have same: "same_keys ?A' A" unfolding same_keys_def using nth by (simp add: st'(2) fold_upd_rest)
  note run = same_keys_run [OF same, where B = B]
  have agree: "sect_agrees co ?A' B i" if i: "i \<in> set ?is" for i
  proof -
    obtain k where k: "pair_sections A B i = Some k" "cs_len (sd_s A ! i) = cs_len (sd_s B ! k)" "i < length (sd_s A)" "label_ok (cs_name (sd_s A ! i))" using sel [OF i] by blast
    have a: "sd_s ?A' ! i = ign_by {j. j < cs_len (sd_s A ! i) \<and> byte_differs (sd_s A ! i) (sd_s B ! k) (co_clearrld co) j} (sd_s A ! i)"
      using nth [OF k(3)] i clusters_cover(1) [OF k(1,2,4), of co] by simp
    have "identical_bytes (sd_s ?A' ! i) (sd_s B ! k) (co_clearrld co)"
      unfolding identical_bytes_def a using k(2) by (auto simp: list_all_iff diff_at_def byte_differs_def ign_by_def)
    then show ?thesis using k(1) by (simp add: sect_agrees_def run(1))
  qed
  have all: "list_all (sect_agrees co ?A' B) ?is" using agree by (simp add: list_all_iff)
  have some: "\<not> list_all (\<lambda>i. pair_sections A B i = None) ?is"
    using sel [OF hd_in_set [OF selected_nonempty [OF assms(2)]]] hd_in_set [OF selected_nonempty [OF assms(2)]] by (force simp: list_all_iff)
  have "fst (cmp_main co False ?A' B (ds_din st')) = 0"
    using exit_code [of co False ?A' B "ds_din st'"] assms(2) all some unfolding run by simp
  moreover have "difin_load A (concat out) = Inr (?A', ds_din st')" using st'(1) by (simp add: difin_load_def fg st0_def)
  ultimately show ?thesis by blast
qed


definition ex_sect :: "string \<Rightarrow> string \<Rightarrow> bytes \<Rightarrow> csect" where
  "ex_sect name en b = \<lparr>cs_name = name, cs_org = 0, cs_len = length b, cs_bytes = b, cs_relo = replicate (length b) False, cs_made = replicate (length b) True,
     cs_ign = replicate (length b) False, cs_seg = 0, cs_ent = en, cs_entaddr = 0\<rparr>"

definition ex_side :: "csect list \<Rightarrow> side" where
  "ex_side ss = side_init\<lparr>sd_s := ss\<rparr>"

definition ex_opts :: cmp_opts where
  "ex_opts = \<lparr>co_only = None, co_clearrld = True, co_allow_incomplete = False\<rparr>"

lemma ex_run:
  "early_refusal ex_opts (ex_side [ex_sect ''A'' [] [1, 2]]) (ex_side [ex_sect ''A'' [] [1, 3]]) = None"
  "map (pair_sections (ex_side [ex_sect ''A'' [] [1, 2]]) (ex_side [ex_sect ''A'' [] [1, 3]])) [0] = [Some 0]"
  "selected ex_opts (ex_side [ex_sect ''A'' [] [1, 2]]) (ex_side [ex_sect ''A'' [] [1, 3]]) = [0]"
  "fst (cmp_main ex_opts True (ex_side [ex_sect ''A'' [] [1, 2]]) (ex_side [ex_sect ''A'' [] [1, 3]]) []) = 1"
  by code_simp+

theorem difout_converges_witness:
  "let A = ex_side [ex_sect ''A'' [] [1, 2]]; B = ex_side [ex_sect ''A'' [] [1, 3]] in
   fst (cmp_main ex_opts True A B []) = 1
   \<and> (\<exists>A' din. difin_load A (concat (fst (snd (cmp_main ex_opts True A B [])))) = Inr (A', din) \<and> fst (cmp_main ex_opts False A' B din) = 0)"
proof -
  have "named_sections (ex_side [ex_sect ''A'' [] [1, 2]])"
    by (simp add: named_sections_def ex_side_def ex_sect_def side_init_def MAXSECT_cmp_def sect_wf_def label_ok_def plain_def)
  from difout_converges [OF this ex_run(1) refl] ex_run(2-4) show ?thesis
    by (simp add: Let_def ex_side_def ex_sect_def)
qed


end
