(* ===== verification/Ld_Archive.thy ===== *)
theory Ld_Archive
  imports Ar_Archive
begin

section \<open>ld370: loading archives\<close>

text \<open>
  \<^verbatim>\<open>load_archive\<close>, \<^verbatim>\<open>member_label\<close> and \<^verbatim>\<open>member_bytes\<close> of \<^verbatim>\<open>ld370/src/ld370.c\<close>: the symbol table, the member names and
  the member at a header offset. What \<^verbatim>\<open>ar370 rc\<close> wrote comes back: each input under its name, each exported
  symbol at the header of the member that exports it, each member's bytes.
\<close>

record archive =
  ar_path :: string
  ar_data :: bytes
  ar_sym :: "(string \<times> nat) list"
  ar_mem :: "(string \<times> nat) list"

datatype ld_error =
    LD_MAXAR
  | LD_CANNOT_OPEN string
  | LD_NOT_ARCHIVE string
  | LD_NOT_XMIT string
  | LD_NOT_DECK string deck_reason
  | LD_INCLUDE string
  | LD_COMMON nat
  | LD_UNRESOLVED nat
  | LD_ENTRY string
  | LD_TOO_LONG nat

definition MAXAR :: nat where "MAXAR = 32"

definition load_syms :: "bytes \<Rightarrow> (string \<times> nat) list" where
  "load_syms a =
    (if byte_at a 8 = 0x2F \<and> byte_at a 9 = 0x20 then
       let q = 68; cnt = mvs_be32 a q; names = drop (q + 4 + 4 * cnt) a
       in zip (map (take 63) (sym_names cnt names)) (map (\<lambda>k. mvs_be32 a (q + 4 + 4 * k)) [0..<cnt])
     else [])"

text \<open>One header of the member walk, with the long-name member seen so far.\<close>

definition load_mem :: "bytes \<Rightarrow> nat \<times> int \<Rightarrow> bytes option \<times> (string \<times> nat) list \<Rightarrow> bytes option \<times> (string \<times> nat) list" where
  "load_mem a = (\<lambda>(q, msize) (longnames, mem).
    if byte_at a q = 0x2F \<and> byte_at a (q + 1) = 0x2F then (Some (take (nat msize) (drop (q + 60) a)), mem)
    else if byte_at a q = 0x2F \<and> (byte_at a (q + 1) = 0x20 \<or> byte_at a (q + 1) = 0x60) then (longnames, mem)
    else
      let nm = (case longnames of
            Some l \<Rightarrow>
              if byte_at a q = 0x2F \<and> 0x30 \<le> byte_at a (q + 1) \<and> byte_at a (q + 1) \<le> 0x39 then
                take 63 (takeWhile (\<lambda>b. b \<noteq> 0x2F \<and> b \<noteq> 0x0A) (drop (nat (atol (drop (q + 1) a))) l))
              else take 63 (takeWhile (\<lambda>b. b \<noteq> 0x2F \<and> b \<noteq> 0x20) (take 16 (drop q a)))
          | None \<Rightarrow> take 63 (takeWhile (\<lambda>b. b \<noteq> 0x2F \<and> b \<noteq> 0x20) (take 16 (drop q a))))
      in (longnames, mem @ [(map bchar (takeWhile (\<lambda>b. b \<noteq> 0) nm), q)]))"

definition load_archive :: "archive list \<Rightarrow> string \<Rightarrow> bytes option \<Rightarrow> (ld_error + archive list) option" where
  "load_archive AR path fl =
    (if length AR \<ge> MAXAR then Some (Inl LD_MAXAR)
     else case fl of
       None \<Rightarrow> Some (Inl (LD_CANNOT_OPEN path))
     | Some a \<Rightarrow>
         if length a < 8 \<or> take 8 a \<noteq> ar_magic then Some (Inl (LD_NOT_ARCHIVE path))
         else (case ar_walk size10 a 8 of
                None \<Rightarrow> None
              | Some hs \<Rightarrow> Some (Inr (AR @ [\<lparr>ar_path = path, ar_data = a, ar_sym = load_syms a,
                  ar_mem = snd (fold (load_mem a) hs (None, []))\<rparr>]))))"

definition member_label :: "archive \<Rightarrow> nat \<Rightarrow> string" where
  "member_label ar off = (case List.find (\<lambda>(n, q). q = off) (ar_mem ar) of Some (n, q) \<Rightarrow> n | None \<Rightarrow> ''?'')"

definition ld_member_bytes :: "archive \<Rightarrow> nat \<Rightarrow> bytes" where
  "ld_member_bytes ar off = take (nat (size10 (ar_data ar) off)) (drop (off + 60) (ar_data ar))"

subsection \<open>Names in headers\<close>

definition name_ok :: "string \<Rightarrow> bool" where
  "name_ok s \<longleftrightarrow> s \<noteq> [] \<and> length s \<le> 63 \<and> (\<forall>c\<in>set s. c \<noteq> CHR ''/'' \<and> c \<noteq> CHR '' '' \<and> c \<noteq> char_of (10 :: nat) \<and> c \<noteq> char_of (0 :: nat))"

lemma name_ok_bytes:
  assumes "name_ok s" "b \<in> set (str_bytes s)" shows "b \<noteq> 0x2F" "b \<noteq> 0x20" "b \<noteq> 0x0A" "b \<noteq> 0"
proof -
  obtain c where c: "c \<in> set s" "b = ascii c" using assms(2) by (auto simp: str_bytes_def)
  have "ascii (CHR ''/'') = 0x2F" "ascii (CHR '' '') = 0x20" "ascii (char_of (10 :: nat)) = 0x0A"
    "ascii (char_of (0 :: nat)) = 0"
    by (simp_all add: ascii_def)
  then show "b \<noteq> 0x2F" "b \<noteq> 0x20" "b \<noteq> 0x0A" "b \<noteq> 0"
    using c assms(1) ascii_inject unfolding name_ok_def by metis+
qed

lemma name_ok_cstr: "name_ok s \<Longrightarrow> takeWhile (\<lambda>b. b \<noteq> 0) (str_bytes s) = str_bytes s"
  using name_ok_bytes(4) by (intro takeWhile_eq_all_conv [THEN iffD2]) blast

lemma bchar_str: "map bchar (str_bytes s) = s"
  by (simp add: str_bytes_def o_def)

lemma hdr_bytes:
  assumes "n \<le> AR_SIZE_MAX" "a = pre @ hdr60 nf n @ r"
  shows "take 16 (drop (length pre) a) = str_bytes (fmt_s 16 nf)"
    "i < 16 \<Longrightarrow> byte_at a (length pre + i) = byte_at (str_bytes (fmt_s 16 nf)) i"
    "drop (length pre + 60) a = r"
proof -
  show t: "take 16 (drop (length pre) a) = str_bytes (fmt_s 16 nf)"
    using hdr60_size(3) [OF assms(1), of nf r] by (simp add: assms(2))
  show "drop (length pre + 60) a = r" using hdr60_length [OF assms(1), of nf] by (simp add: assms(2))
  assume "i < 16"
  then show "byte_at a (length pre + i) = byte_at (str_bytes (fmt_s 16 nf)) i"
    using byte_at_take [of i 16 "drop (length pre) a"] unfolding t by (simp add: byte_at_drop)
qed

text \<open>A short name: the name, a slash and blanks.\<close>

lemma load_mem_short:
  assumes "n \<le> AR_SIZE_MAX" "a = pre @ hdr60 (nm @ ''/'') n @ r" "name_ok nm" "length nm \<le> 15"
  shows "load_mem a (length pre, int n) (ln, mem) = (ln, mem @ [(nm, length pre)])"
proof -
  let ?f = "str_bytes (fmt_s 16 (nm @ ''/''))"
  obtain z where f: "?f = str_bytes nm @ 0x2F # z"
    using assms(4) by (simp add: fmt_s_def ascii_def take_Cons')
  obtain b bs where b: "str_bytes nm = b # bs" using assms(3) by (cases nm) (auto simp: name_ok_def)
  then have b2: "b \<noteq> 0x2F" using name_ok_bytes [OF assms(3), of b] by simp
  have h0: "byte_at a (length pre) = b" using hdr_bytes(2) [OF assms(1,2), of 0] by (simp add: f b)
  have "takeWhile (\<lambda>b. b \<noteq> 0x2F \<and> b \<noteq> 0x20) ?f = str_bytes nm"
    unfolding f using name_ok_bytes [OF assms(3)] by (subst takeWhile_append2) auto
  then show ?thesis
    using h0 b2 hdr_bytes(1) [OF assms(1,2)] assms(4) by (simp add: load_mem_def Let_def bchar_str name_ok_cstr [OF assms(3)] split: option.split)
qed

text \<open>A long name: a slash and its offset in the long-name member.\<close>

lemma load_mem_long:
  assumes "n \<le> AR_SIZE_MAX" "a = pre @ hdr60 (CHR ''/'' # dec_digits k) n @ r" "name_ok nm" "k \<le> AR_SIZE_MAX"
    "drop k l = str_bytes nm @ 0x2F # z"
  shows "load_mem a (length pre, int n) (Some l, mem) = (Some l, mem @ [(nm, length pre)])"
proof -
  have dl: "length (dec_digits k) \<le> 10"
    by (rule dec_digits_length) (use assms(4) in \<open>simp_all add: AR_SIZE_MAX_def\<close>)
  let ?f = "str_bytes (fmt_s 16 (CHR ''/'' # dec_digits k))"
  define bl where "bl = replicate (15 - length (dec_digits k)) (0x20 :: byte)"
  have f: "?f = 0x2F # str_bytes (dec_digits k) @ bl"
    using dl by (simp add: fmt_s_def bl_def str_bytes_def ascii_def)
  have blne: "bl \<noteq> []" using dl by (simp add: bl_def)
  obtain d ds where d: "str_bytes (dec_digits k) = d # ds" using dec_digits_nonempty [of k] by (cases "dec_digits k") auto
  then have dd: "is_dec d" using dec_digits_num [of k] by simp
  have d2: "d \<noteq> 0x2F" "d \<noteq> 0x20" "d \<noteq> 0x60" "0x30 \<le> d" "d \<le> 0x39" using dd by (auto simp: is_dec_def)
  have h: "byte_at a (length pre) = 0x2F" "byte_at a (length pre + 1) = d"
    using hdr_bytes(2) [OF assms(1,2), of 0] hdr_bytes(2) [OF assms(1,2), of 1] by (simp_all add: f d)
  have "drop (length pre) a = ?f @ drop 16 (drop (length pre) a)"
    using append_take_drop_id [of 16 "drop (length pre) a"] unfolding hdr_bytes(1) [OF assms(1,2)] by (rule sym)
  then have "drop 1 (drop (length pre) a) = drop 1 (?f @ drop 16 (drop (length pre) a))" by (rule arg_cong)
  then have "drop (length pre + 1) a = str_bytes (dec_digits k) @ bl @ drop (length pre + 16) a"
    by (simp add: f add.commute)
  then have at: "atol (drop (length pre + 1) a) = int k"
    using atol_digits [of "bl @ drop (length pre + 16) a" k] blne by (simp add: bl_def blank_not_num)
  have "takeWhile (\<lambda>b. b \<noteq> 0x2F \<and> b \<noteq> 0x0A) (drop k l) = str_bytes nm"
    unfolding assms(5) using name_ok_bytes [OF assms(3)] by (subst takeWhile_append2) auto
  moreover have "length nm \<le> 63" using assms(3) by (simp add: name_ok_def)
  ultimately show ?thesis
    using h d2 at by (simp add: load_mem_def Let_def bchar_str name_ok_cstr [OF assms(3)])
qed

subsection \<open>Members\<close>

definition mem_ready :: "bytes option \<Rightarrow> objf \<Rightarrow> bool" where
  "mem_ready ln ob \<longleftrightarrow> name_ok (of_member ob) \<and> (case of_lnoff ob of
     None \<Rightarrow> length (of_member ob) \<le> 15
   | Some k \<Rightarrow> k \<le> AR_SIZE_MAX \<and> (\<exists>l z. ln = Some l \<and> drop k l = str_bytes (of_member ob) @ 0x2F # z))"

lemma load_mem_obj:
  assumes "chunk_ok (obj_chunk ob)" "mem_ready ln ob" "a = pre @ ar_chunk (obj_chunk ob) @ r"
  shows "load_mem a (length pre, int (length (of_data ob))) (ln, mem) = (ln, mem @ [(of_member ob, length pre)])"
proof -
  have n: "length (of_data ob) \<le> AR_SIZE_MAX" using assms(1) by (simp add: obj_chunk_simps)
  have a: "a = pre @ hdr60 (member_field ob) (length (of_data ob)) @ (of_data ob @ pad_even (length (of_data ob)) @ r)"
    by (simp add: assms(3) obj_chunk_simps)
  show ?thesis
  proof (cases "of_lnoff ob")
    case None
    then have f: "member_field ob = of_member ob @ ''/''" using assms(2) by (simp add: member_field_def mem_ready_def)
    show ?thesis using load_mem_short [OF n a [unfolded f]] assms(2) None by (simp add: mem_ready_def)
  next
    case (Some k)
    then obtain l z where k: "k \<le> AR_SIZE_MAX" "ln = Some l" "drop k l = str_bytes (of_member ob) @ 0x2F # z" "name_ok (of_member ob)"
      using assms(2) by (auto simp: mem_ready_def)
    have "length (dec_digits k) \<le> 10"
      by (rule dec_digits_length) (use k(1) in \<open>simp_all add: AR_SIZE_MAX_def\<close>)
    then have f: "member_field ob = CHR ''/'' # dec_digits k" by (simp add: member_field_def Some k(1))
    show ?thesis unfolding k(2) by (rule load_mem_long [OF n a [unfolded f] k(4,1,3)])
  qed
qed

lemma obj_offs_chunk: "chunk_ok (obj_chunk ob) \<Longrightarrow> obj_offs p (ob # os) = p # obj_offs (p + length (ar_chunk (obj_chunk ob))) os"
  by (simp add: chunk_length obj_chunk_def add.assoc)

lemma load_members:
  assumes "list_all chunk_ok (map obj_chunk os)" "list_all (mem_ready ln) os" "a = pre @ arc.chain (map obj_chunk os)"
  shows "fold (load_mem a) (chunk_offs (length pre) (map obj_chunk os)) (ln, mem)
    = (ln, mem @ zip (map of_member os) (obj_offs (length pre) os))"
  using assms
proof (induction os arbitrary: pre mem)
  case (Cons ob os)
  have ok: "chunk_ok (obj_chunk ob)" "mem_ready ln ob" using Cons.prems(1,2) by simp_all
  have a: "a = pre @ ar_chunk (obj_chunk ob) @ arc.chain (map obj_chunk os)" using Cons.prems(3) by simp
  have sz: "length (snd (obj_chunk ob)) = length (of_data ob)" by (simp add: obj_chunk_def)
  have "fold (load_mem a) (chunk_offs (length (pre @ ar_chunk (obj_chunk ob))) (map obj_chunk os)) (ln, mem @ [(of_member ob, length pre)])
      = (ln, (mem @ [(of_member ob, length pre)]) @ zip (map of_member os) (obj_offs (length (pre @ ar_chunk (obj_chunk ob))) os))"
    using Cons.prems a by (intro Cons.IH) simp_all
  then show ?case
    using load_mem_obj [OF ok a, of mem] by (simp add: sz obj_offs_chunk [OF ok(1)] del: obj_offs.simps)
qed simp

lemma obj_at:
  assumes "list_all chunk_ok (map obj_chunk os)" "i < length os"
  obtains p s where "arc.chain (map obj_chunk os) = p @ ar_chunk (obj_chunk (os ! i)) @ s" "obj_offs q os ! i = q + length p"
  using assms
proof (induction os arbitrary: i q thesis)
  case (Cons ob os)
  show ?case
  proof (cases i)
    case 0
    show ?thesis by (rule Cons.prems(1) [of "[]" "arc.chain (map obj_chunk os)"]) (simp_all add: 0)
  next
    case (Suc j)
    let ?q = "q + length (ar_chunk (obj_chunk ob))"
    obtain p s where "arc.chain (map obj_chunk os) = p @ ar_chunk (obj_chunk (os ! j)) @ s" "obj_offs ?q os ! j = ?q + length p"
      using Cons.IH [of j ?q] Cons.prems(2,3) Suc by auto
    moreover have "chunk_ok (obj_chunk ob)" using Cons.prems(2) by simp
    ultimately show ?thesis
      by (intro Cons.prems(1) [of "ar_chunk (obj_chunk ob) @ p" s])
        (simp_all add: Suc obj_offs_chunk del: obj_offs.simps)
  qed
qed simp

lemma obj_offs_length: "length (obj_offs q os) = length os"
  by (induction os arbitrary: q) auto

lemma ld_member_bytes_obj:
  assumes "chunk_ok (obj_chunk ob)" "ar_data ar = pre @ ar_chunk (obj_chunk ob) @ r"
  shows "ld_member_bytes ar (length pre) = of_data ob"
proof -
  have n: "length (of_data ob) \<le> AR_SIZE_MAX" using assms(1) by (simp add: obj_chunk_simps)
  have "size10 (ar_data ar) (length pre) = int (length (of_data ob))"
    unfolding assms(2) using chunk_size(1) [OF assms(1), of pre r] by (simp add: obj_chunk_def)
  moreover have "drop (length pre + 60) (ar_data ar) = of_data ob @ pad_even (length (of_data ob)) @ r"
    by (rule hdr_bytes(3) [OF n]) (simp add: assms(2) obj_chunk_simps)
  ultimately show ?thesis by (simp add: ld_member_bytes_def)
qed

subsection \<open>Symbols\<close>

lemma load_syms_read:
  assumes "a = ar_magic @ ar_chunk (''/'', sym_bytes ss offs) @ r" "chunk_ok (''/'', sym_bytes ss offs)"
    "\<forall>s\<in>set ss. length (as_name s) \<le> 63 \<and> 0 \<notin> set (str_bytes (as_name s)) \<and> offs ! as_obj s < 2 ^ 32" "length ss < 2 ^ 32"
  shows "load_syms a = map (\<lambda>s. (as_name s, offs ! as_obj s)) ss"
proof -
  let ?sb = "sym_bytes ss offs"
  define names where "names = concat (map (\<lambda>s. str_bytes (as_name s) @ [0]) ss)"
  define tab where "tab = concat (map (\<lambda>v. mvs_put32 (int v)) (map (\<lambda>s. offs ! as_obj s) ss))"
  have sb: "?sb = mvs_put32 (int (length ss)) @ tab @ names" by (simp add: sym_bytes_def tab_def names_def o_def)
  have m: "length ar_magic = 8" by (simp add: ar_magic_def)
  have n: "length ?sb \<le> AR_SIZE_MAX" using assms(2) by (simp add: chunk_ok_def)
  define r' where "r' = pad_even (length ?sb) @ r"
  have a: "a = ar_magic @ hdr60 ''/'' (length ?sb) @ (?sb @ r')" by (simp add: assms(1) ar_chunk_def r'_def)
  have f: "str_bytes (fmt_s 16 ''/'') = 0x2F # replicate 15 0x20" by (simp add: fmt_s_def str_bytes_def ascii_def)
  have h: "byte_at a 8 = 0x2F" "byte_at a 9 = 0x20"
    using hdr_bytes(2) [OF n a, of 0] hdr_bytes(2) [OF n a, of 1] by (simp_all add: m f byte_at_nth)
  define pre where "pre = ar_magic @ hdr60 ''/'' (length ?sb)"
  have lp: "length pre = 68" by (simp add: pre_def m hdr60_length [OF n])
  have a2: "a = pre @ mvs_put32 (int (length ss)) @ tab @ names @ r'" by (simp add: a pre_def sb)
  have cnt: "mvs_be32 a 68 = length ss"
    using f32.get_put_exact [of "int (length ss)" pre "tab @ names @ r'"] assms(4) by (simp add: a2 lp)
  have lt: "length tab = 4 * length ss" unfolding tab_def by (induction ss) auto
  have "drop (68 + 4 + 4 * length ss) a = names @ r'" by (simp add: a2 lp lt)
  then have nms: "sym_names (length ss) (drop (68 + 4 + 4 * length ss) a) = map as_name ss"
    using sym_names_read [of ss r'] assms(3) by (simp add: names_def)
  have "mvs_be32 a (68 + 4 + 4 * k) = offs ! as_obj (ss ! k)" if "k < length ss" for k
    using put32_table [of "map (\<lambda>s. offs ! as_obj s) ss" k "pre @ mvs_put32 (int (length ss))" "names @ r'", folded tab_def] that assms(3)
    by (simp add: a2 lp)
  then have tb: "map (\<lambda>k. mvs_be32 a (68 + 4 + 4 * k)) [0..<length ss] = map (\<lambda>s. offs ! as_obj s) ss"
    by (intro nth_equalityI) simp_all
  have "map (take 63) (map as_name ss) = map as_name ss" using assms(3) by (auto intro: map_idI)
  then have "load_syms a = zip (map as_name ss) (map (\<lambda>s. offs ! as_obj s) ss)"
    unfolding load_syms_def Let_def using h by (simp only: cnt nms tb if_True simp_thms)
  then show ?thesis by (simp add: zip_map_map zip_same_conv_map)
qed

subsection \<open>What ar370 writes, ld370 loads\<close>

lemma load_mem_symtab:
  assumes "n \<le> AR_SIZE_MAX" "a = pre @ hdr60 ''/'' n @ r"
  shows "load_mem a (length pre, m) st = st"
proof -
  have f: "str_bytes (fmt_s 16 ''/'') = 0x2F # replicate 15 0x20" by (simp add: fmt_s_def str_bytes_def ascii_def)
  have "byte_at a (length pre) = 0x2F" "byte_at a (length pre + 1) = 0x20"
    using hdr_bytes(2) [OF assms, of 0] hdr_bytes(2) [OF assms, of 1] by (simp_all add: f byte_at_nth)
  then show ?thesis by (cases st) (simp add: load_mem_def)
qed

lemma load_mem_longnames:
  assumes "length l \<le> AR_SIZE_MAX" "a = pre @ hdr60 ''//'' (length l) @ l @ r"
  shows "load_mem a (length pre, int (length l)) (ln, mem) = (Some l, mem)"
proof -
  have f: "str_bytes (fmt_s 16 ''//'') = 0x2F # 0x2F # replicate 14 0x20" by (simp add: fmt_s_def str_bytes_def ascii_def)
  have "byte_at a (length pre) = 0x2F" "byte_at a (length pre + 1) = 0x2F"
    using hdr_bytes(2) [OF assms, of 0] hdr_bytes(2) [OF assms, of 1] by (simp_all add: f byte_at_nth)
  then show ?thesis using hdr_bytes(3) [OF assms] by (simp add: load_mem_def)
qed

lemma mem_ready_all:
  assumes "ln_ok os" "\<forall>ob\<in>set os. name_ok (of_member ob)" "length (long_names os) \<le> AR_SIZE_MAX"
    "l = (if long_names os = [] then None else Some (long_names os))"
  shows "list_all (mem_ready l) os"
proof (rule list_all_length [THEN iffD2], intro allI impI)
  fix i assume i: "i < length os"
  have nm: "name_ok (of_member (os ! i))" using assms(2) i by simp
  show "mem_ready l (os ! i)"
  proof (cases "15 < length (of_member (os ! i))")
    case False
    then show ?thesis using assms(1) i nm by (simp add: ln_ok_def mem_ready_def)
  next
    case True
    obtain n r where n: "of_lnoff (os ! i) = Some n" "drop n (long_names os) = str_bytes (of_member (os ! i)) @ 0x2F # r"
      "n \<le> length (long_names os)" by (rule long_name_at [OF assms(1) i True])
    then have "long_names os \<noteq> []" by auto
    then show ?thesis using n nm assms(3,4) by (auto simp: mem_ready_def)
  qed
qed

lemma obj_offs_step: "obj_offs q os ! i < obj_offs q os ! j" if "i < j" "j < length os"
  using that
proof (induction os arbitrary: q i j)
  case (Cons ob os)
  have lb: "q \<le> x" if "x \<in> set (obj_offs q os)" for q x os
    using that by (induction os arbitrary: q) fastforce+
  obtain j' where j: "j = Suc j'" using Cons.prems(1) by (cases j) auto
  show ?case
  proof (cases i)
    case 0
    have "obj_offs (q + 60 + length (of_data ob) + length (of_data ob) mod 2) os ! j'
        \<in> set (obj_offs (q + 60 + length (of_data ob) + length (of_data ob) mod 2) os)"
      using Cons.prems j by (intro nth_mem) (simp add: obj_offs_length)
    from lb [OF this] show ?thesis by (simp add: 0 j)
  next
    case (Suc k)
    then show ?thesis using Cons j by simp
  qed
qed simp

lemma obj_offs_distinct: "distinct (obj_offs q os)"
  unfolding distinct_conv_nth by (metis nat_neq_iff obj_offs_length obj_offs_step)

lemma member_label_nth:
  assumes "distinct (map snd (ar_mem ar))" "i < length (ar_mem ar)"
  shows "member_label ar (snd (ar_mem ar ! i)) = fst (ar_mem ar ! i)"
proof -
  have "List.find (\<lambda>(n, q). q = snd (xs ! i)) xs = Some (xs ! i)"
    if "distinct (map snd xs)" "i < length xs" for xs :: "(string \<times> nat) list" and i
    using that
  proof (induction xs arbitrary: i)
    case (Cons x xs)
    then show ?case by (cases i) (force split: prod.split)+
  qed simp
  from this [OF assms] show ?thesis by (simp add: member_label_def split: prod.split)
qed

lemma ar_chunks_split:
  assumes "list_all chunk_ok (ar_chunks os ss n)" "n = length (long_names os)" "a = ar_magic @ arc.chain (ar_chunks os ss n)"
  obtains pre heads where "a = pre @ arc.chain (map obj_chunk os)" "length pre = first_off ss n"
    "ar_walk size10 a 8 = Some (heads @ chunk_offs (length pre) (map obj_chunk os))"
    "fold (load_mem a) heads (None, []) = (if long_names os = [] then None else Some (long_names os), [])"
proof -
  let ?sb = "sym_bytes ss (obj_offs (first_off ss n) os)"
  have m: "length ar_magic = 8" by (simp add: ar_magic_def)
  have c: "chunk_ok (''/'', ?sb)" using assms(1) by (simp add: ar_chunks_def)
  have sb: "length ?sb \<le> AR_SIZE_MAX" using c by (simp add: chunk_ok_def)
  have w: "ar_walk size10 a 8 = Some (chunk_offs 8 (ar_chunks os ss n))"
    unfolding assms(3) using ar_walk_chain [OF assms(1), of size10 ar_magic] by (simp add: m)
  have s1: "load_mem a (8, int (length ?sb)) st = st" for st
    using load_mem_symtab [OF sb, of a ar_magic] by (simp add: assms(3) ar_chunks_def ar_chunk_def m)
  have l1: "length (ar_chunk (''/'', ?sb)) = 60 + sym_size ss + sym_size ss mod 2"
    using chunk_length [OF c] by (simp add: sym_bytes_length)
  show ?thesis
  proof (cases "n = 0")
    case True
    then have ln: "long_names os = []" using assms(2) by simp
    show ?thesis
    proof (rule that [of "ar_magic @ ar_chunk (''/'', ?sb)" "[(8, int (length ?sb))]"])
      show "a = (ar_magic @ ar_chunk (''/'', ?sb)) @ arc.chain (map obj_chunk os)"
        by (simp add: assms(3) ar_chunks_def True)
      show "length (ar_magic @ ar_chunk (''/'', ?sb)) = first_off ss n"
        by (simp add: m l1) (simp add: first_off_def Let_def True)
      show "ar_walk size10 a 8
          = Some ([(8, int (length ?sb))] @ chunk_offs (length (ar_magic @ ar_chunk (''/'', ?sb))) (map obj_chunk os))"
        using w by (simp add: ar_chunks_def True m)
    qed (simp add: s1 ln)
  next
    case False
    have c2: "chunk_ok (''//'', long_names os)" using assms(1) False by (simp add: ar_chunks_def)
    have l2: "length (ar_chunk (''//'', long_names os)) = 60 + n + n mod 2"
      using chunk_length [OF c2] by (simp add: assms(2))
    let ?p = "ar_magic @ ar_chunk (''/'', ?sb)"
    have s2: "load_mem a (length ?p, int (length (long_names os))) (ln, mem) = (Some (long_names os), mem)" for ln mem
      using c2 False by (intro load_mem_longnames) (simp_all add: chunk_ok_def assms(3) ar_chunks_def ar_chunk_def)
    show ?thesis
    proof (rule that [of "?p @ ar_chunk (''//'', long_names os)"
          "[(8, int (length ?sb)), (length ?p, int (length (long_names os)))]"])
      show "a = (?p @ ar_chunk (''//'', long_names os)) @ arc.chain (map obj_chunk os)"
        using False by (simp add: assms(3) ar_chunks_def)
      show "length (?p @ ar_chunk (''//'', long_names os)) = first_off ss n"
        using False by (simp add: m l1 l2) (simp add: first_off_def Let_def)
      show "ar_walk size10 a 8 = Some ([(8, int (length ?sb)), (length ?p, int (length (long_names os)))]
          @ chunk_offs (length (?p @ ar_chunk (''//'', long_names os))) (map obj_chunk os))"
        using w False by (simp add: ar_chunks_def m add.assoc)
      show "fold (load_mem a) [(8, int (length ?sb)), (length ?p, int (length (long_names os)))] (None, [])
          = (if long_names os = [] then None else Some (long_names os), [])"
        using False assms(2) s1 s2 by auto
    qed
  qed
qed

lemma enumerate_nth: "enumerate 0 xs = map (\<lambda>i. (i, xs ! i)) [0..<length xs]"
  by (rule nth_equalityI) (simp_all add: nth_enumerate_eq)

lemma obj_syms_mem: "s \<in> set (obj_syms 0 os) \<Longrightarrow> as_obj s < length os \<and> as_name s \<in> set (scan_esd (of_data (os ! as_obj s)))"
  by (auto simp: obj_syms_def in_set_enumerate_eq)

lemma load_created:
  assumes "read_inputs ins [] [] 0 = Inr (os, ss, n)" "list_all chunk_ok (ar_chunks os ss n)"
    "a = ar_magic @ arc.chain (ar_chunks os ss n)" "\<forall>ob\<in>set os. name_ok (of_member ob)" "length a < 2 ^ 32"
    "offs = obj_offs (first_off ss n) os"
  shows "load_archive [] p (Some a) = Some (Inr [\<lparr>ar_path = p, ar_data = a,
      ar_sym = map (\<lambda>s. (as_name s, offs ! as_obj s)) (obj_syms 0 os), ar_mem = zip (map of_member os) offs\<rparr>])"
    "i < length os \<Longrightarrow> ar_data ar = a \<Longrightarrow> ld_member_bytes ar (offs ! i) = of_data (os ! i)"
proof -
  have sp: "ss = obj_syms 0 os" "ln_ok os" "n = length (long_names os)"
    using read_inputs_spec [OF assms(1)] by (simp_all add: obj_syms_def ln_ok_def long_names_def)
  obtain pre heads where h: "a = pre @ arc.chain (map obj_chunk os)" "length pre = first_off ss n"
    "ar_walk size10 a 8 = Some (heads @ chunk_offs (length pre) (map obj_chunk os))"
    "fold (load_mem a) heads (None, []) = (if long_names os = [] then None else Some (long_names os), [])"
    by (rule ar_chunks_split [OF assms(2) sp(3) assms(3)])
  have oc: "list_all chunk_ok (map obj_chunk os)" using assms(2) by (simp add: ar_chunks_def)
  have lnn: "length (long_names os) \<le> AR_SIZE_MAX"
    using assms(2) sp(3) by (cases "n = 0") (auto simp: ar_chunks_def chunk_ok_def)
  have mems: "snd (fold (load_mem a) (heads @ chunk_offs (length pre) (map obj_chunk os)) (None, [])) = zip (map of_member os) offs"
    using load_members [OF oc mem_ready_all [OF sp(2) assms(4) lnn refl] h(1)] by (simp add: h(2,4) assms(6))
  have at: "\<exists>q s. a = q @ ar_chunk (obj_chunk (os ! i)) @ s \<and> offs ! i = length q" if il: "i < length os" for i
  proof -
    obtain q s where "arc.chain (map obj_chunk os) = q @ ar_chunk (obj_chunk (os ! i)) @ s"
      "obj_offs (first_off ss n) os ! i = first_off ss n + length q" by (rule obj_at [OF oc il])
    then show ?thesis by (intro exI [of _ "pre @ q"] exI [of _ s]) (simp add: h(1,2) assms(6))
  qed
  show "ld_member_bytes ar (offs ! i) = of_data (os ! i)" if "i < length os" "ar_data ar = a"
    using at [OF that(1)] ld_member_bytes_obj [of "os ! i" ar] oc that by (auto simp: list_all_length)
  have a8: "take 8 a = ar_magic" "\<not> length a < 8" by (simp_all add: assms(3) ar_magic_def)
  let ?sb = "sym_bytes ss offs"
  obtain r where r: "a = ar_magic @ ar_chunk (''/'', ?sb) @ r" by (simp add: assms(3,6) ar_chunks_def)
  have c: "chunk_ok (''/'', ?sb)" using assms(2,6) by (simp add: ar_chunks_def)
  have "4 * length ss \<le> length ?sb" by (simp add: sym_bytes_length sym_size_def)
  also have "\<dots> \<le> length a" by (simp add: r ar_chunk_def)
  finally have ls: "length ss < 2 ^ 32" using assms(5) by simp
  have "\<forall>s\<in>set ss. length (as_name s) \<le> 63 \<and> 0 \<notin> set (str_bytes (as_name s)) \<and> offs ! as_obj s < 2 ^ 32"
  proof
    fix s assume "s \<in> set ss"
    then have s: "as_obj s < length os" "as_name s \<in> set (scan_esd (of_data (os ! as_obj s)))"
      using obj_syms_mem sp(1) by blast+
    obtain q t where "a = q @ ar_chunk (obj_chunk (os ! as_obj s)) @ t" "offs ! as_obj s = length q" using at [OF s(1)] by blast
    then have "offs ! as_obj s \<le> length a" by simp
    then show "length (as_name s) \<le> 63 \<and> 0 \<notin> set (str_bytes (as_name s)) \<and> offs ! as_obj s < 2 ^ 32"
      using exported_name [OF s(2)] assms(5) by simp
  qed
  from load_syms_read [OF r c this ls] have sy: "load_syms a = map (\<lambda>s. (as_name s, offs ! as_obj s)) (obj_syms 0 os)"
    by (simp add: sp(1))
  show "load_archive [] p (Some a) = Some (Inr [\<lparr>ar_path = p, ar_data = a,
      ar_sym = map (\<lambda>s. (as_name s, offs ! as_obj s)) (obj_syms 0 os), ar_mem = zip (map of_member os) offs\<rparr>])"
    unfolding load_archive_def h(3) option.case mems sy using a8 by (simp add: MAXAR_def)
qed


definition ex_deck :: bytes where
  "ex_deck = [0x02, 0xC5, 0xE2, 0xC4] @ replicate 6 0x40 @ [0, 16, 0x40, 0x40, 0, 1]
     @ [0xC1, 0xC2, 0x40, 0x40, 0x40, 0x40, 0x40, 0x40, 0, 0, 0, 0, 0x40, 0, 0, 4] @ replicate 48 0x40
     @ [0x02, 0xC5, 0xD5, 0xC4] @ replicate 76 0x40"

definition ex_ar_inputs :: "(string \<times> bytes option) list" where
  "ex_ar_inputs = [(''d/a.o'', Some ex_deck), (''a_longer_member_name.o'', Some ex_deck)]"

lemma ex_deck_facts: "not_a_deck ex_deck = None" "scan_esd ex_deck = [''AB'']" "length ex_deck = 160"
  by code_simp+

end
