(* ===== verification/Ld_Object.thy ===== *)
theory Ld_Object
  imports Obj_Cards Cp037
begin

section \<open>ld370: reading object decks\<close>

text \<open>
  PASS 1 of \<^verbatim>\<open>ld370/src/ld370.c\<close>: \<^verbatim>\<open>parse_object\<close> and the structures it fills. The deck is the buffer from its
  first byte on with the length the loop is given; a count field is not held to the card it stands on, so
  the model, as the code, goes on reading the buffer behind the card, and a read behind the buffer, which C
  leaves undefined, is a zero. The arrays that grow on demand are lists, \<^verbatim>\<open>loc[]\<close> with its \<^verbatim>\<open>used\<close> flags is a map, and
  \<^verbatim>\<open>text\<close> and \<^verbatim>\<open>defn\<close> are the first \<^verbatim>\<open>textlen\<close> bytes of their buffers.
\<close>

definition MAXESD :: nat where "MAXESD = 512"

definition T_SD :: nat where "T_SD = 0x00"
definition T_LD :: nat where "T_LD = 0x01"
definition T_ER :: nat where "T_ER = 0x02"
definition T_LR :: nat where "T_LR = 0x03"
definition T_PC :: nat where "T_PC = 0x04"
definition T_CM :: nat where "T_CM = 0x05"
definition T_WX :: nat where "T_WX = 0x0A"

lemmas ld_types = T_SD_def T_LD_def T_ER_def T_LR_def T_PC_def T_CM_def T_WX_def

definition is_sect_type :: "nat \<Rightarrow> bool" where
  "is_sect_type t \<longleftrightarrow> t = T_SD \<or> t = T_PC \<or> t = T_CM"

definition is_obj_sect :: "nat \<Rightarrow> bool" where
  "is_obj_sect t \<longleftrightarrow> t = T_SD \<or> t = T_PC"

definition member_name :: "string \<Rightarrow> bytes" where
  "member_name s = map (\<lambda>i. mvs_a2e (ascii (to_upper (if i < length s then s ! i else CHR '' '')))) [0..<8]"

definition iewl_txtsize :: "nat list" where
  "iewl_txtsize = [18432, 13312, 12288, 7680, 6144, 5120, 4096, 3072, 2048, 1024]"

definition pick_maxtext :: "nat \<Rightarrow> nat" where
  "pick_maxtext blksize = (case List.find (\<lambda>t. t \<le> blksize) iewl_txtsize of Some t \<Rightarrow> t | None \<Rightarrow> 1024)"

record lent =
  lc_name :: bytes
  lc_type :: nat
  lc_addr :: nat
  lc_len :: nat
  lc_dropped :: bool
  lc_newaddr :: nat

record ldent =
  ld_name :: bytes
  ld_addr :: nat
  ld_owner_local :: nat

datatype src_kind = SRC_EXPLICIT | SRC_INCLUDE | SRC_AUTOCALL

record lobj =
  lo_loc :: "nat \<Rightarrow> lent option"
  lo_loc_g :: "nat \<Rightarrow> nat"
  lo_sect_local :: "nat option"
  lo_text :: bytes
  lo_defn :: "bool list"
  lo_rld :: "obj_rld list"
  lo_ld :: "ldent list"
  lo_object_base :: nat
  lo_has_drop :: bool
  lo_entry :: "(nat \<times> nat) option"
  lo_autocalled :: bool
  lo_ac :: "nat \<times> nat"
  lo_src_path :: "string option"
  lo_src_kind :: src_kind
  lo_src :: "nat \<times> nat"

definition lobj_init :: lobj where
  "lobj_init = \<lparr>lo_loc = Map.empty, lo_loc_g = (\<lambda>_. 0), lo_sect_local = None, lo_text = [], lo_defn = [], lo_rld = [],
     lo_ld = [], lo_object_base = 0, lo_has_drop = False, lo_entry = None, lo_autocalled = False, lo_ac = (0, 0),
     lo_src_path = None, lo_src_kind = SRC_EXPLICIT, lo_src = (0, 0)\<rparr>"

subsection \<open>The cards\<close>

definition parse_esd_item :: "bytes \<Rightarrow> nat \<Rightarrow> nat \<Rightarrow> nat \<times> lobj \<Rightarrow> nat \<times> lobj" where
  "parse_esd_item buf first e = (\<lambda>(nid, ob).
    let ty = unat (byte_at buf (e + 8)) AND 0x0f; nm = map (\<lambda>i. byte_at buf (e + i)) [0..<8] in
    if ty = T_LD then
      (nid, ob\<lparr>lo_ld := lo_ld ob @ [\<lparr>ld_name = nm, ld_addr = mvs_be24 buf (e + 9), ld_owner_local = mvs_be24 buf (e + 13)\<rparr>]\<rparr>)
    else
      let i = first + nid; nid = nid + 1 in
      if i < 1 \<or> i \<ge> MAXESD then (nid, ob)
      else (nid, ob\<lparr>
        lo_loc := (lo_loc ob)(i \<mapsto> \<lparr>lc_name = nm, lc_type = ty, lc_addr = mvs_be24 buf (e + 9), lc_len = mvs_be24 buf (e + 13),
          lc_dropped = False, lc_newaddr = mvs_be24 buf (e + 9)\<rparr>),
        lo_sect_local := (if is_sect_type ty \<and> lo_sect_local ob = None then Some i else lo_sect_local ob)\<rparr>))"

definition parse_esd :: "bytes \<Rightarrow> nat \<Rightarrow> lobj \<Rightarrow> lobj" where
  "parse_esd buf c ob =
    (let cnt = mvs_be16 buf (c + 10); first = mvs_be16 buf (c + 14)
     in snd (fold (\<lambda>k. parse_esd_item buf first (c + 16 + k * 16)) [0..<cnt div 16] (0, ob)))"

definition grown :: "'a \<Rightarrow> nat \<Rightarrow> 'a list \<Rightarrow> 'a list" where
  "grown z n xs = xs @ replicate (n - length xs) z"

definition parse_txt :: "bytes \<Rightarrow> nat \<Rightarrow> lobj \<Rightarrow> lobj" where
  "parse_txt buf c ob =
    (let addr = mvs_be24 buf (c + 5); cnt = mvs_be16 buf (c + 10); need = addr + cnt in
     if cnt > 0 then
       ob\<lparr>lo_text := write_at (grown 0 need (lo_text ob)) addr (map (\<lambda>i. byte_at buf (c + 16 + i)) [0..<cnt]),
          lo_defn := map (\<lambda>i. (i < length (lo_defn ob) \<and> lo_defn ob ! i) \<or> addr \<le> i \<and> i < need) [0..<max need (length (lo_defn ob))]\<rparr>
     else ob)"

function parse_rld_loop :: "bytes \<Rightarrow> nat \<Rightarrow> nat \<Rightarrow> nat \<Rightarrow> nat \<Rightarrow> nat \<Rightarrow> bool \<Rightarrow> obj_rld list" where
  "parse_rld_loop buf c e p r pp same =
    (if p + 4 \<le> e \<and> p + 4 \<le> 80 then
       let (r, pp, p) = (if \<not> same then (mvs_be16 buf (c + p), mvs_be16 buf (c + p + 2), p + 4) else (r, pp, p)) in
       if p + 4 > e then []
       else \<lparr>or_r = r, or_p = pp, or_flag = byte_at buf (c + p), or_addr = mvs_be24 buf (c + p + 1)\<rparr>
            # parse_rld_loop buf c e (p + 4) r pp (byte_at buf (c + p) AND 0x01 \<noteq> 0)
     else [])"
  by pat_completeness auto
termination
  by (relation "measure (\<lambda>(buf, c, e, p, r, pp, same). e - p)") (auto split: if_splits)

declare parse_rld_loop.simps [simp del]

definition parse_rld :: "bytes \<Rightarrow> nat \<Rightarrow> lobj \<Rightarrow> lobj" where
  "parse_rld buf c ob = ob\<lparr>lo_rld := lo_rld ob @ parse_rld_loop buf c (16 + mvs_be16 buf (c + 10)) 16 0 0 False\<rparr>"

definition parse_end :: "bytes \<Rightarrow> nat \<Rightarrow> lobj \<Rightarrow> lobj" where
  "parse_end buf c ob =
    (if \<not> (byte_at buf (c + 5) = 0x40 \<and> byte_at buf (c + 6) = 0x40 \<and> byte_at buf (c + 7) = 0x40)
     then ob\<lparr>lo_entry := Some (mvs_be16 buf (c + 14), mvs_be24 buf (c + 5))\<rparr> else ob)"

definition parse_card :: "bytes \<Rightarrow> nat \<Rightarrow> lobj \<Rightarrow> lobj" where
  "parse_card buf c ob =
    (let b = (\<lambda>i. byte_at buf (c + i)) in
     if b 0 \<noteq> 0x02 then ob
     else if b 1 = 0xC5 \<and> b 2 = 0xE2 \<and> b 3 = 0xC4 then parse_esd buf c ob
     else if b 1 = 0xE3 \<and> b 2 = 0xE7 \<and> b 3 = 0xE3 then parse_txt buf c ob
     else if b 1 = 0xD9 \<and> b 2 = 0xD3 \<and> b 3 = 0xC4 then parse_rld buf c ob
     else if b 1 = 0xC5 \<and> b 2 = 0xD5 \<and> b 3 = 0xC4 then parse_end buf c ob
     else ob)"

definition parse_object :: "bytes \<Rightarrow> nat \<Rightarrow> lobj" where
  "parse_object buf len = fold (\<lambda>k. parse_card buf (80 * k)) [0..<len div 80] lobj_init"

definition local_to_g :: "lobj \<Rightarrow> nat \<Rightarrow> nat option" where
  "local_to_g ob localid = (if localid < 1 \<or> localid \<ge> MAXESD \<or> lo_loc ob localid = None then None else Some (lo_loc_g ob localid))"

subsection \<open>The shared reader fills the same tables\<close>

text \<open>The tables as the card walks of \<^verbatim>\<open>common/src/obj370.c\<close> give them.\<close>

definition esd_to_loc :: "obj_esd \<Rightarrow> lobj \<Rightarrow> lobj" where
  "esd_to_loc e ob =
    (if oe_type e = OBJ_LD then
       ob\<lparr>lo_ld := lo_ld ob @ [\<lparr>ld_name = oe_name e, ld_addr = oe_addr e, ld_owner_local = oe_len e\<rparr>]\<rparr>
     else if oe_esdid e < 1 \<or> oe_esdid e \<ge> MAXESD then ob
     else ob\<lparr>
       lo_loc := (lo_loc ob)(oe_esdid e \<mapsto> \<lparr>lc_name = oe_name e, lc_type = oe_type e, lc_addr = oe_addr e, lc_len = oe_len e,
         lc_dropped = False, lc_newaddr = oe_addr e\<rparr>),
       lo_sect_local := (if obj_is_section (oe_type e) \<and> lo_sect_local ob = None then Some (oe_esdid e) else lo_sect_local ob)\<rparr>)"

definition txt_to_text :: "obj_txt \<Rightarrow> lobj \<Rightarrow> lobj" where
  "txt_to_text t ob =
    (if ot_len t = 0 then ob
     else ob\<lparr>lo_text := write_at (grown 0 (ot_addr t + ot_len t) (lo_text ob)) (ot_addr t) (ot_data t),
       lo_defn := map (\<lambda>i. (i < length (lo_defn ob) \<and> lo_defn ob ! i) \<or> ot_addr t \<le> i \<and> i < ot_addr t + ot_len t)
         [0..<max (ot_addr t + ot_len t) (length (lo_defn ob))]\<rparr>)"

definition card_tables :: "bytes \<Rightarrow> lobj \<Rightarrow> lobj" where
  "card_tables c ob =
    (let ob = fold esd_to_loc (obj_esd_walk c) ob;
         ob = (case obj_txt_get c of None \<Rightarrow> ob | Some t \<Rightarrow> txt_to_text t ob);
         ob = ob\<lparr>lo_rld := lo_rld ob @ obj_rld_walk c\<rparr>
     in case obj_end_get c of Some e \<Rightarrow> (case oend_entry e of Some x \<Rightarrow> ob\<lparr>lo_entry := Some x\<rparr> | None \<Rightarrow> ob) | None \<Rightarrow> ob)"

text \<open>A card whose count stays on the card: whole ESD items, and at most the 64 bytes from column 17.\<close>

definition card_clean :: "bytes \<Rightarrow> bool" where
  "card_clean c \<longleftrightarrow> length c = 80 \<and> (obj_card_type c \<in> {OBJ_ESD, OBJ_TXT, OBJ_RLD} \<longrightarrow> mvs_be16 c 10 \<le> 64)
     \<and> (obj_card_type c = OBJ_ESD \<longrightarrow> mvs_be16 c 10 mod 16 = 0)"

lemma type_names: "T_SD = OBJ_SD" "T_LD = OBJ_LD" "T_ER = OBJ_ER" "T_PC = OBJ_PC" "T_CM = OBJ_CM" "T_WX = OBJ_WX"
    "is_sect_type t = obj_is_section t"
  by (simp_all add: ld_types obj_types is_sect_type_def obj_is_section_def)

text \<open>Fields of a card inside the buffer.\<close>

lemma in_card:
  assumes "length c = 80" "buf = pre @ c @ r"
  shows "i < 80 \<Longrightarrow> byte_at buf (length pre + i) = byte_at c i"
    "i + 1 < 80 \<Longrightarrow> mvs_be16 buf (length pre + i) = mvs_be16 c i"
    "i + 2 < 80 \<Longrightarrow> mvs_be24 buf (length pre + i) = mvs_be24 c i"
proof -
  show b: "byte_at buf (length pre + i) = byte_at c i" if "i < 80" for i
    using byte_at_inside [of i c pre r] that assms by simp
  show "mvs_be16 buf (length pre + i) = mvs_be16 c i" if "i + 1 < 80"
    using b [of i] b [of "i + 1"] that by (simp add: mvs_be16_def add.assoc)
  show "mvs_be24 buf (length pre + i) = mvs_be24 c i" if "i + 2 < 80"
    using b [of i] b [of "i + 1"] b [of "i + 2"] that by (simp add: mvs_be24_def add.assoc)
qed

lemma bytes_in_card:
  assumes "length c = 80" "buf = pre @ c @ r" "i + n \<le> 80"
  shows "map (\<lambda>j. byte_at buf (length pre + i + j)) [0..<n] = take n (drop i c)"
proof (rule nth_equalityI)
  show "length (map (\<lambda>j. byte_at buf (length pre + i + j)) [0..<n]) = length (take n (drop i c))"
    using assms by simp
  fix j assume "j < length (map (\<lambda>j. byte_at buf (length pre + i + j)) [0..<n])"
  then have j: "j < n" by simp
  then have "byte_at buf (length pre + (i + j)) = byte_at c (i + j)"
    using assms(3) by (intro in_card(1) [OF assms(1,2)]) simp
  then show "map (\<lambda>j. byte_at buf (length pre + i + j)) [0..<n] ! j = take n (drop i c) ! j"
    using j assms by (simp add: byte_at_nth add.assoc)
qed

lemma parse_esd_item_walk:
  assumes "length c = 80" "buf = pre @ c @ r" "i + 16 \<le> 80"
  shows "parse_esd_item buf first (length pre + i) (nid, ob)
    = (let ty = unat (byte_at c (i + 8)) AND 0x0f
       in (if ty = OBJ_LD then nid else nid + 1,
           esd_to_loc \<lparr>oe_name = take 8 (drop i c), oe_type = ty, oe_esdid = (if ty = OBJ_LD then 0 else first + nid),
             oe_addr = mvs_be24 c (i + 9), oe_len = mvs_be24 c (i + 13)\<rparr> ob))"
proof -
  have f: "byte_at buf (length pre + i + 8) = byte_at c (i + 8)" "mvs_be24 buf (length pre + i + 9) = mvs_be24 c (i + 9)"
    "mvs_be24 buf (length pre + i + 13) = mvs_be24 c (i + 13)"
    using in_card(1) [OF assms(1,2), of "i + 8"] in_card(3) [OF assms(1,2), of "i + 9"]
      in_card(3) [OF assms(1,2), of "i + 13"] assms(3) by (simp_all add: add.assoc)
  have nm: "map (\<lambda>j. byte_at buf (length pre + i + j)) [0..<8] = take 8 (drop i c)"
    using assms(3) by (intro bytes_in_card [OF assms(1,2)]) simp
  show ?thesis
    unfolding parse_esd_item_def f nm by (simp add: Let_def esd_to_loc_def type_names)
qed

lemma parse_esd_fold:
  assumes "length c = 80" "buf = pre @ c @ r" "cnt \<le> 64" "cnt mod 16 = 0"
  shows "snd (fold (\<lambda>k. parse_esd_item buf first (length pre + 16 + k * 16)) [k..<cnt div 16] (nid, ob))
    = fold esd_to_loc (esd_loop c cnt first k nid) ob"
  using assms
proof (induction c cnt first k nid arbitrary: ob rule: esd_loop.induct)
  case (1 c cnt first k nid)
  have g: "(k * 16 < cnt \<and> 16 + (k + 1) * 16 \<le> OBJ_CARD_LEN) \<longleftrightarrow> k < cnt div 16"
    using 1(4,5) by (auto simp: OBJ_CARD_LEN_def)
  show ?case
  proof (cases "k < cnt div 16")
    case True
    let ?ty = "unat (byte_at c (16 + k * 16 + 8)) AND 0x0f"
    have i: "16 + k * 16 + 16 \<le> 80" using True 1(4) by simp
    have IH: "snd (fold (\<lambda>k. parse_esd_item buf first (length pre + 16 + k * 16)) [k + 1..<cnt div 16] (if ?ty = OBJ_LD then nid else nid + 1, ob'))
        = fold esd_to_loc (esd_loop c cnt first (k + 1) (if ?ty = OBJ_LD then nid else nid + 1)) ob'" for ob'
      using 1(1) [OF g [THEN iffD2, OF True] refl refl 1(2-5)] .
    have up: "[k..<cnt div 16] = k # [k + 1..<cnt div 16]" using True by (simp add: upt_conv_Cons)
    have loop: "esd_loop c cnt first k nid = \<lparr>oe_name = take 8 (drop (16 + k * 16) c), oe_type = ?ty, oe_esdid = (if ?ty = OBJ_LD then 0 else first + nid),
             oe_addr = mvs_be24 c (16 + k * 16 + 9), oe_len = mvs_be24 c (16 + k * 16 + 13)\<rparr>
         # esd_loop c cnt first (k + 1) (if ?ty = OBJ_LD then nid else nid + 1)"
      using g True by (subst esd_loop.simps) (simp add: Let_def)
    have item: "parse_esd_item buf first (length pre + 16 + k * 16) (nid, ob)
      = (if ?ty = OBJ_LD then nid else nid + 1, esd_to_loc \<lparr>oe_name = take 8 (drop (16 + k * 16) c), oe_type = ?ty,
          oe_esdid = (if ?ty = OBJ_LD then 0 else first + nid),
             oe_addr = mvs_be24 c (16 + k * 16 + 9), oe_len = mvs_be24 c (16 + k * 16 + 13)\<rparr> ob)"
      using parse_esd_item_walk [OF 1(2,3) i, of first nid ob] by (simp add: Let_def add.assoc)
    show ?thesis unfolding up loop fold_simps item IH ..
  next
    case False
    then have "\<not> (k * 16 < cnt \<and> 16 + (k + 1) * 16 \<le> OBJ_CARD_LEN)" using g by simp
    then show ?thesis using False by (subst esd_loop.simps) (simp only: if_False, simp)
  qed
qed

lemma parse_rld_walk:
  assumes "length c = 80" "buf = pre @ c @ r" "len \<le> 64"
  shows "parse_rld_loop buf (length pre) (16 + len) (16 + p) R P same = rld_loop (drop 16 c) len p R P same"
  using assms
proof (induction "drop 16 c" len p R P same rule: rld_loop.induct)
  case (1 len p R P same)
  have g: "(16 + p + 4 \<le> 16 + len \<and> 16 + p + 4 \<le> 80) \<longleftrightarrow> p + 4 \<le> len" using 1(4) by auto
  have be: "mvs_be16 (drop 16 c) i = mvs_be16 c (16 + i)" "mvs_be24 (drop 16 c) i = mvs_be24 c (16 + i)" for i
    by (simp_all add: mvs_be16_def mvs_be24_def byte_at_drop add.assoc)
  show ?case
  proof (cases "p + 4 \<le> len")
    case True
    define t where "t = (if \<not> same then (mvs_be16 (drop 16 c) p, mvs_be16 (drop 16 c) (p + 2), p + 4) else (R, P, p))"
    obtain R' P' p' where t: "t = (R', P', p')" by (cases t)
    have f: "mvs_be16 buf (length pre + (16 + p)) = mvs_be16 (drop 16 c) p" "mvs_be16 buf (length pre + (16 + p) + 2) = mvs_be16 (drop 16 c) (p + 2)"
      using in_card(2) [OF 1(2,3), of "16 + p"] in_card(2) [OF 1(2,3), of "16 + p + 2"] True 1(4) by (simp_all add: be ac_simps)
    have t2: "(if \<not> same then (mvs_be16 buf (length pre + (16 + p)), mvs_be16 buf (length pre + (16 + p) + 2), 16 + p + 4) else (R, P, 16 + p))
        = (R', P', 16 + p')" using t f by (auto simp: t_def split: if_splits)
    show ?thesis
    proof (cases "p' + 4 > len")
      case True
      then show ?thesis using \<open>p + 4 \<le> len\<close> g t2 t unfolding t_def
        by (subst parse_rld_loop.simps, subst rld_loop.simps) (simp only: if_True Let_def prod.case, simp)
    next
      case False
      have b: "byte_at buf (length pre + (16 + p')) = byte_at (drop 16 c) p'" "mvs_be24 buf (length pre + (16 + p') + 1) = mvs_be24 (drop 16 c) (p' + 1)"
        using in_card(1) [OF 1(2,3), of "16 + p'"] in_card(3) [OF 1(2,3), of "16 + p' + 1"] False 1(4) by (simp_all add: be byte_at_drop ac_simps)
      have IH: "parse_rld_loop buf (length pre) (16 + len) (16 + (p' + 4)) R' P' (byte_at (drop 16 c) p' AND 1 \<noteq> 0)
          = rld_loop (drop 16 c) len (p' + 4) R' P' (byte_at (drop 16 c) p' AND 1 \<noteq> 0)"
        using 1(1) [OF True _ refl refl False 1(2-4)] t unfolding t_def by auto
      have l: "rld_loop (drop 16 c) len p R P same = \<lparr>or_r = R', or_p = P', or_flag = byte_at (drop 16 c) p', or_addr = mvs_be24 (drop 16 c) (p' + 1)\<rparr>
          # rld_loop (drop 16 c) len (p' + 4) R' P' (byte_at (drop 16 c) p' AND 1 \<noteq> 0)"
        using True False t unfolding t_def by (subst rld_loop.simps) (simp only: if_True if_False Let_def prod.case)
      have "parse_rld_loop buf (length pre) (16 + len) (16 + p) R P same
          = \<lparr>or_r = R', or_p = P', or_flag = byte_at buf (length pre + (16 + p')), or_addr = mvs_be24 buf (length pre + (16 + p') + 1)\<rparr>
          # parse_rld_loop buf (length pre) (16 + len) (16 + p' + 4) R' P' (byte_at buf (length pre + (16 + p')) AND 1 \<noteq> 0)"
        using g True False t2 by (subst parse_rld_loop.simps) (simp only: if_True if_False Let_def prod.case, simp)
      then show ?thesis unfolding b l using IH by (simp only: add.assoc)
    qed
  next
    case False
    then show ?thesis using g by (subst parse_rld_loop.simps, subst rld_loop.simps) simp
  qed
qed

lemma card_kind:
  "byte_at c 0 \<noteq> 0x02 \<Longrightarrow> obj_card_type c = OBJ_OTHER"
  "obj_card_type c \<noteq> OBJ_ESD \<Longrightarrow> obj_esd_walk c = []"
  "obj_card_type c \<noteq> OBJ_TXT \<Longrightarrow> obj_txt_get c = None"
  "obj_card_type c \<noteq> OBJ_RLD \<Longrightarrow> obj_rld_walk c = []"
  "obj_card_type c \<noteq> OBJ_END \<Longrightarrow> obj_end_get c = None"
  by (simp_all add: obj_card_type_def obj_esd_walk_def obj_txt_get_def obj_rld_walk_def obj_end_get_def)

lemma parse_card_kind:
  assumes "length c = 80" "buf = pre @ c @ r"
  shows "parse_card buf (length pre) ob = (case obj_card_type c of OBJ_ESD \<Rightarrow> parse_esd buf (length pre) ob
    | OBJ_TXT \<Rightarrow> parse_txt buf (length pre) ob | OBJ_RLD \<Rightarrow> parse_rld buf (length pre) ob
    | OBJ_END \<Rightarrow> parse_end buf (length pre) ob | _ \<Rightarrow> ob)"
proof -
  have "byte_at buf (length pre + i) = byte_at c i" if "i < 4" for i using in_card(1) [OF assms, of i] that by simp
  then show ?thesis
    using assms in_card(1) [OF assms, of 0] by (simp add: parse_card_def obj_card_type_def Let_def)
qed

lemma parse_card_walk:
  assumes "card_clean c" "buf = pre @ c @ r"
  shows "parse_card buf (length pre) ob = card_tables c ob"
proof -
  have l: "length c = 80" using assms(1) by (simp add: card_clean_def)
  note ic = in_card [OF l assms(2)]
  have cnt: "mvs_be16 buf (length pre + 10) = mvs_be16 c 10" by (simp add: ic(2))
  have same: "ob\<lparr>lo_rld := lo_rld ob\<rparr> = ob" for ob :: lobj by simp
  show ?thesis
  proof (cases "obj_card_type c")
    case OBJ_ESD
    have "parse_esd buf (length pre) ob = fold esd_to_loc (obj_esd_walk c) ob"
      using parse_esd_fold [OF l assms(2), of "mvs_be16 c 10" "mvs_be16 c 14" 0 0 ob] assms(1) OBJ_ESD ic(2) [of 14]
      by (simp add: parse_esd_def Let_def cnt card_clean_def obj_esd_walk_def)
    then show ?thesis using parse_card_kind [OF l assms(2)] OBJ_ESD by (simp add: card_tables_def card_kind Let_def)
  next
    case OBJ_TXT
    let ?n = "mvs_be16 c 10"
    have n: "?n \<le> 64" using assms(1) OBJ_TXT by (simp add: card_clean_def)
    then have d: "map (\<lambda>i. byte_at buf (length pre + 16 + i)) [0..<?n] = take ?n (drop 16 c)"
      by (intro bytes_in_card [OF l assms(2)]) simp
    have g: "obj_txt_get c = Some \<lparr>ot_addr = mvs_be24 c 5, ot_esdid = mvs_be16 c 14, ot_len = ?n, ot_data = take ?n (drop 16 c)\<rparr>"
      using n OBJ_TXT by (simp add: obj_txt_get_def Let_def OBJ_CARD_LEN_def)
    have "parse_txt buf (length pre) ob
        = txt_to_text \<lparr>ot_addr = mvs_be24 c 5, ot_esdid = mvs_be16 c 14, ot_len = ?n, ot_data = take ?n (drop 16 c)\<rparr> ob"
      unfolding parse_txt_def Let_def cnt d txt_to_text_def by (simp add: ic(3))
    then show ?thesis using parse_card_kind [OF l assms(2)] OBJ_TXT g by (simp add: card_tables_def card_kind Let_def)
  next
    case OBJ_RLD
    have n: "mvs_be16 c 10 \<le> 64" using assms(1) OBJ_RLD by (simp add: card_clean_def)
    have "parse_rld buf (length pre) ob = ob\<lparr>lo_rld := lo_rld ob @ obj_rld_walk c\<rparr>"
      using parse_rld_walk [OF l assms(2) n, of 0 0 0 False] n OBJ_RLD
      by (simp add: parse_rld_def cnt obj_rld_walk_def obj_rld_items_def Let_def OBJ_CARD_LEN_def)
    then show ?thesis using parse_card_kind [OF l assms(2)] OBJ_RLD by (simp add: card_tables_def card_kind Let_def)
  next
    case OBJ_END
    have "parse_end buf (length pre) ob = (case oend_entry (the (obj_end_get c)) of Some x \<Rightarrow> ob\<lparr>lo_entry := Some x\<rparr> | None \<Rightarrow> ob)"
      using OBJ_END ic(1) [of 5] ic(1) [of 6] ic(1) [of 7] ic(2) [of 14] ic(3) [of 5] by (simp add: parse_end_def obj_end_get_def)
    then show ?thesis using parse_card_kind [OF l assms(2)] OBJ_END by (simp add: card_tables_def card_kind Let_def obj_end_get_def)
  qed (use parse_card_kind [OF l assms(2)] in \<open>simp_all add: card_tables_def card_kind\<close>)
qed

lemma parse_cards:
  assumes "list_all card_clean cs" "list_all (\<lambda>c. length c = 80) pre"
  shows "fold (\<lambda>k. parse_card (concat pre @ concat cs @ r) (80 * k)) [length pre..<length pre + length cs] ob = fold card_tables cs ob"
  using assms
proof (induction cs arbitrary: pre ob)
  case (Cons c cs)
  have lp: "length (concat pre) = 80 * length pre" using Cons.prems(2) by (induction pre) auto
  have c: "card_clean c" "length c = 80" using Cons.prems by (simp_all add: card_clean_def)
  have first: "parse_card (concat pre @ c @ concat cs @ r) (80 * length pre) ob = card_tables c ob"
    using parse_card_walk [OF c(1), of _ "concat pre" "concat cs @ r"] by (simp add: lp)
  have "fold (\<lambda>k. parse_card (concat (pre @ [c]) @ concat cs @ r) (80 * k)) [length (pre @ [c])..<length (pre @ [c]) + length cs] (card_tables c ob)
      = fold card_tables cs (card_tables c ob)"
    using Cons.prems c by (intro Cons.IH) simp_all
  then show ?case using first by (simp add: upt_conv_Cons del: upt_Suc)
qed simp

text \<open>
  C30. On a deck whose counts stay on their cards, the linker's own reader and the shared reader agree: the
  tables \<^verbatim>\<open>parse_object\<close> leaves - sections and references by ESDID, labels, text with the bytes some card covered,
  relocation items, entry point - are those built from the card walks, card after card.
\<close>

theorem parse_object_is_walk:
  assumes "list_all card_clean cs"
  shows "parse_object (concat cs @ r) (80 * length cs) = fold card_tables cs lobj_init"
  using parse_cards [OF assms, of "[]" r lobj_init] by (simp add: parse_object_def)

definition ex_cards :: "bytes list" where
  "ex_cards = [[0x02, 0xC5, 0xE2, 0xC4] @ replicate 6 0x40 @ [0, 32, 0x40, 0x40, 0, 1]
       @ [0xC1, 0xC2, 0x40, 0x40, 0x40, 0x40, 0x40, 0x40, 0, 0, 0, 0, 0x40, 0, 0, 4]
       @ [0xC5, 0x40, 0x40, 0x40, 0x40, 0x40, 0x40, 0x40, 1, 0, 0, 2, 0x40, 0, 0, 1] @ replicate 32 0x40,
     [0x02, 0xE3, 0xE7, 0xE3, 0x40, 0, 0, 2, 0x40, 0x40, 0, 2, 0x40, 0x40, 0, 1, 0x47, 0xF0] @ replicate 62 0x40,
     [0x02, 0xC5, 0xD5, 0xC4, 0x40, 0, 0, 2] @ replicate 6 0 @ [0, 1] @ replicate 64 0x40]"

theorem parse_object_is_walk_witness:
  "list_all card_clean ex_cards \<and> lo_text (parse_object (concat ex_cards @ []) 240) = [0, 0, 0x47, 0xF0]
   \<and> lo_defn (parse_object (concat ex_cards @ []) 240) = [False, False, True, True]
   \<and> lo_entry (parse_object (concat ex_cards @ []) 240) = Some (1, 2)"
proof -
  have c: "list_all card_clean ex_cards" by code_simp
  have l: "80 * length ex_cards = 240" by (simp add: ex_cards_def)
  have "lo_text (fold card_tables ex_cards lobj_init) = [0, 0, 0x47, 0xF0]"
    "lo_defn (fold card_tables ex_cards lobj_init) = [False, False, True, True]"
    "lo_entry (fold card_tables ex_cards lobj_init) = Some (1, 2)" by code_simp+
  then show ?thesis using c parse_object_is_walk [OF c, of "[]"] unfolding l by simp
qed

end
