(* ===== verification/Ld_Autocall.thy ===== *)
theory Ld_Autocall
  imports Ld_Archive Ld_Object
begin

section \<open>ld370: automatic library call\<close>

text \<open>
  \<^verbatim>\<open>is_defined\<close> to \<^verbatim>\<open>do_includes\<close> of \<^verbatim>\<open>ld370/src/ld370.c\<close>, and the part of \<^verbatim>\<open>main\<close> that runs them: the members pulled from
  the archives. The globals \<^verbatim>\<open>O[]\<close>, \<^verbatim>\<open>AR[]\<close> and \<^verbatim>\<open>pulled[]\<close> are the state, and a warning is what it is about. \<^verbatim>\<open>pull_member\<close>
  cannot fail, so the error returns behind it are not taken. Shown here: the search ends, it ends closed
  (every reference left over has no definer left to pull), no member is pulled twice, and every object is an
  explicit one or the deck of the member it records.
\<close>

datatype ld_warn =
    WARN_DEFINERS string "nat \<times> nat" bool "(nat \<times> nat) list"
  | NOTE_DUPLICATE string nat
  | ERR_COMMON string nat nat nat
  | WARN_DOUBLY string nat
  | WARN_DROPPED_ADCON nat int

record link =
  lk_O :: "lobj list"
  lk_AR :: "archive list"
  lk_pulled :: "(nat \<times> nat) list"
  lk_warn :: "ld_warn list"

definition is_defined :: "lobj list \<Rightarrow> bytes \<Rightarrow> bool" where
  "is_defined os name8 = list_ex (\<lambda>ob.
     list_ex (\<lambda>j. case lo_loc ob j of Some l \<Rightarrow> is_sect_type (lc_type l) \<and> lc_name l = name8 | None \<Rightarrow> False) [1..<MAXESD]
     \<or> list_ex (\<lambda>l. ld_name l = name8) (lo_ld ob)) os"

definition pull_member :: "nat \<times> nat \<Rightarrow> link \<Rightarrow> link" where
  "pull_member = (\<lambda>(ai, off) st.
     let a = ar_data (lk_AR st ! ai); sz = size10 a off; ob = parse_object (drop (off + 60) a) (nat sz)
     in st\<lparr>lk_O := lk_O st @ [ob\<lparr>lo_src_kind := SRC_INCLUDE, lo_src := (ai, off)\<rparr>], lk_pulled := lk_pulled st @ [(ai, off)]\<rparr>)"

definition card_conflicts :: "lobj list \<Rightarrow> bytes \<Rightarrow> nat \<Rightarrow> bool" where
  "card_conflicts os d c =
    (byte_at d c = 0x02 \<and> byte_at d (c + 1) = 0xC5 \<and> byte_at d (c + 2) = 0xE2 \<and> byte_at d (c + 3) = 0xC4
     \<and> list_ex (\<lambda>k.
          let e = c + 16 + k * 16; t = unat (byte_at d (e + 8)) AND 0x0f; nm = map (\<lambda>j. byte_at d (e + j)) [0..<8]
          in (t = T_SD \<or> t = T_LD \<or> t = T_CM) \<and> \<not> list_all (\<lambda>b. b = 0x40) nm \<and> is_defined os nm)
        (filter (\<lambda>k. k * 16 < mvs_be16 d (c + 10) \<and> 16 + (k + 1) * 16 \<le> 80) [0..<4]))"

definition member_conflicts :: "link \<Rightarrow> nat \<times> nat \<Rightarrow> bool" where
  "member_conflicts st = (\<lambda>(ai, off).
     let a = ar_data (lk_AR st ! ai); sz = nat (size10 a off); d = drop (off + 60) a
     in list_ex (\<lambda>i. card_conflicts (lk_O st) d (80 * i)) [0..<sz div 80])"

definition same_member :: "archive list \<Rightarrow> nat \<times> nat \<Rightarrow> nat \<times> nat \<Rightarrow> bool" where
  "same_member ars m1 m2 = (case (m1, m2) of ((a1, o1), (a2, o2)) \<Rightarrow>
     size10 (ar_data (ars ! a1)) o1 = size10 (ar_data (ars ! a2)) o2
     \<and> ld_member_bytes (ars ! a1) o1 = ld_member_bytes (ars ! a2) o2)"

text \<open>The definers named in one pass: those in the pick's archive, or those in the others.\<close>

definition named_definers :: "archive list \<Rightarrow> nat \<times> nat \<Rightarrow> (nat \<times> nat) list \<Rightarrow> bool \<Rightarrow> (nat \<times> nat) list" where
  "named_definers ars pick cand others =
    map (\<lambda>k. cand ! k) (filter (\<lambda>k.
      (fst (cand ! k) \<noteq> fst pick) = others \<and> \<not> same_member ars (cand ! k) pick
      \<and> \<not> list_ex (\<lambda>j. (fst (cand ! j) \<noteq> fst pick) = others \<and> same_member ars (cand ! j) (cand ! k)) [0..<k]) [0..<length cand])"

definition report_definers :: "bool \<Rightarrow> string \<Rightarrow> nat \<times> nat \<Rightarrow> (nat \<times> nat) list \<Rightarrow> link \<Rightarrow> link" where
  "report_definers warn_shadow want pick cand st =
    st\<lparr>lk_warn := lk_warn st @ concat (map (\<lambda>others.
        let ns = named_definers (lk_AR st) pick cand others in if ns = [] then [] else [WARN_DEFINERS want pick others ns])
      (if warn_shadow then [False, True] else [False]))\<rparr>"

definition definers :: "link \<Rightarrow> string \<Rightarrow> (nat \<times> nat) list" where
  "definers st want = filter (\<lambda>m. m \<notin> set (lk_pulled st))
     (concat (map (\<lambda>a. map (\<lambda>(nm, off). (a, off)) (filter (\<lambda>(nm, off). nm = want) (ar_sym (lk_AR st ! a)))) [0..<length (lk_AR st)]))"

definition pick_definer :: "link \<Rightarrow> (nat \<times> nat) list \<Rightarrow> nat \<times> nat" where
  "pick_definer st cand = (case List.find (\<lambda>m. \<not> member_conflicts st m) cand of Some m \<Rightarrow> m | None \<Rightarrow> hd cand)"

definition pull_definer :: "bool \<Rightarrow> string \<Rightarrow> link \<Rightarrow> bool \<times> link" where
  "pull_definer ws want st =
    (let cand = definers st want in
     if cand = [] then (False, st)
     else
       let pick = pick_definer st cand; st = pull_member pick (report_definers ws want pick cand st);
           n = length (lk_O st) - 1
       in (True, st\<lparr>lk_O := (lk_O st)[n := (lk_O st ! n)\<lparr>lo_autocalled := True, lo_ac := pick, lo_src_kind := SRC_AUTOCALL\<rparr>]\<rparr>))"

definition autocall_ref :: "bool \<Rightarrow> nat \<times> nat \<Rightarrow> bool \<times> link \<Rightarrow> bool \<times> link" where
  "autocall_ref ws = (\<lambda>(i, j) (changed, st).
    case lo_loc (lk_O st ! i) j of
      None \<Rightarrow> (changed, st)
    | Some l \<Rightarrow>
        if lc_type l \<noteq> T_ER then (changed, st)
        else if is_defined (lk_O st) (lc_name l) then (changed, st)
        else (case pull_definer ws (mvs_nm (lc_name l)) st of (r, st') \<Rightarrow> (changed \<or> r, st')))"

definition autocall_pass :: "bool \<Rightarrow> link \<Rightarrow> bool \<times> link" where
  "autocall_pass ws st =
    fold (autocall_ref ws) (concat (map (\<lambda>i. map (\<lambda>j. (i, j)) [1..<MAXESD]) [0..<length (lk_O st)])) (False, st)"

subsection \<open>The search ends\<close>

text \<open>The index entries whose member is not pulled yet.\<close>

definition unpulled :: "link \<Rightarrow> (nat \<times> nat) list" where
  "unpulled st = filter (\<lambda>m. m \<notin> set (lk_pulled st))
     (concat (map (\<lambda>a. map (\<lambda>(nm, off). (a, off)) (ar_sym (lk_AR st ! a))) [0..<length (lk_AR st)]))"

lemma definers_unpulled: "m \<in> set (definers st want) \<Longrightarrow> m \<in> set (unpulled st)"
  by (auto simp: definers_def unpulled_def)

lemma pick_in: "cand \<noteq> [] \<Longrightarrow> pick_definer st cand \<in> set cand"
  by (auto simp: pick_definer_def find_Some_iff split: option.split)

lemma pull_member_fields:
  "lk_AR (pull_member m st) = lk_AR st" "lk_pulled (pull_member m st) = lk_pulled st @ [m]"
  "lk_warn (pull_member m st) = lk_warn st" "length (lk_O (pull_member m st)) = Suc (length (lk_O st))"
  by (simp_all add: pull_member_def Let_def case_prod_beta)

lemma report_fields:
  "lk_AR (report_definers ws w p c st) = lk_AR st" "lk_pulled (report_definers ws w p c st) = lk_pulled st"
  "lk_O (report_definers ws w p c st) = lk_O st"
  by (simp_all add: report_definers_def)

lemma pull_definer_cases:
  obtains "definers st want = []" "pull_definer ws want st = (False, st)"
  | st' m where "m = pick_definer st (definers st want)" "m \<in> set (definers st want)" "pull_definer ws want st = (True, st')"
      "lk_AR st' = lk_AR st" "lk_pulled st' = lk_pulled st @ [m]" "length (lk_O st') = Suc (length (lk_O st))"
proof (cases "definers st want = []")
  case True
  then show ?thesis using that(1) by (simp add: pull_definer_def)
next
  case False
  define m where "m = pick_definer st (definers st want)"
  have r: "pull_definer ws want st = (True, snd (pull_definer ws want st))"
    using False by (simp add: pull_definer_def Let_def)
  show ?thesis
    by (rule that(2) [OF m_def _ r])
      (use False pick_in [OF False, of st] in \<open>simp_all add: m_def pull_definer_def Let_def pull_member_fields report_fields\<close>)
qed

definition left_to_pull :: "link \<Rightarrow> nat" where
  "left_to_pull st = length (unpulled st)"

lemma unpulled_snoc:
  assumes "lk_AR st' = lk_AR st" "lk_pulled st' = lk_pulled st @ [m]" "m \<in> set (unpulled st)"
  shows "left_to_pull st' < left_to_pull st"
proof -
  have "unpulled st' = filter (\<lambda>x. x \<noteq> m) (unpulled st)"
    by (simp add: unpulled_def assms(1,2) conj_commute)
  then show ?thesis using assms(3) by (simp add: left_to_pull_def length_filter_less)
qed

lemma autocall_ref_cases:
  obtains "autocall_ref ws r (ch, st) = (ch, st)"
  | l where "lo_loc (lk_O st ! fst r) (snd r) = Some l" "lc_type l = T_ER" "\<not> is_defined (lk_O st) (lc_name l)"
      "definers st (mvs_nm (lc_name l)) \<noteq> []"
      "autocall_ref ws r (ch, st) = (True, snd (pull_definer ws (mvs_nm (lc_name l)) st))"
proof (cases "lo_loc (lk_O st ! fst r) (snd r)")
  case None
  then show ?thesis using that(1) by (simp add: autocall_ref_def case_prod_beta)
next
  case (Some l)
  show ?thesis
  proof (cases "lc_type l \<noteq> T_ER \<or> is_defined (lk_O st) (lc_name l) \<or> definers st (mvs_nm (lc_name l)) = []")
    case True
    then show ?thesis using that(1) Some by (auto simp: autocall_ref_def case_prod_beta pull_definer_def)
  next
    case False
    then show ?thesis using that(2) [of l] Some by (auto simp: autocall_ref_def case_prod_beta pull_definer_def Let_def)
  qed
qed

lemma autocall_ref_measure:
  assumes "autocall_ref ws r (ch, st) = (ch', st')"
  shows "left_to_pull st' \<le> left_to_pull st \<and> (ch' \<longrightarrow> ch \<or> left_to_pull st' < left_to_pull st)"
proof (cases rule: autocall_ref_cases [of ws r ch st])
  case 1
  then show ?thesis using assms by simp
next
  case (2 l)
  note pulls = 2(4,5)
  let ?w = "mvs_nm (lc_name l)"
  show ?thesis
  proof (cases rule: pull_definer_cases [of st ?w ws])
    case 1
    then show ?thesis using pulls(1) by simp
  next
    case (2 s m)
    from unpulled_snoc [OF this(4,5) definers_unpulled [OF this(2)]]
    show ?thesis using assms pulls(2) 2(3) by auto
  qed
qed

lemma autocall_fold_measure:
  "fold (autocall_ref ws) rs (ch, st) = (ch', st') \<Longrightarrow>
    left_to_pull st' \<le> left_to_pull st \<and> (ch' \<longrightarrow> ch \<or> left_to_pull st' < left_to_pull st)"
proof (induction rs arbitrary: ch st)
  case (Cons r rs)
  obtain c1 s1 where s1: "autocall_ref ws r (ch, st) = (c1, s1)" by fastforce
  have "fold (autocall_ref ws) rs (c1, s1) = (ch', st')" using Cons.prems s1 by simp
  from Cons.IH [OF this] autocall_ref_measure [OF s1] show ?case by auto
qed simp

function autocall :: "bool \<Rightarrow> link \<Rightarrow> link" where
  "autocall ws st = (case autocall_pass ws st of (changed, st') \<Rightarrow> if changed then autocall ws st' else st')"
  by pat_completeness auto
termination
proof (relation "measure (\<lambda>(ws, st). left_to_pull st)", goal_cases)
  case (2 ws st changed st')
  then have "fold (autocall_ref ws) (concat (map (\<lambda>i. map (\<lambda>j. (i, j)) [1..<MAXESD]) [0..<length (lk_O st)])) (False, st) = (True, st')"
    by (simp add: autocall_pass_def)
  from autocall_fold_measure [OF this] show ?case by simp
qed simp

declare autocall.simps [simp del]

subsection \<open>Forced members\<close>

fun ci_eq :: "string \<Rightarrow> string \<Rightarrow> bool" where
  "ci_eq (a # as) (b # bs) \<longleftrightarrow> to_upper a = to_upper b \<and> ci_eq as bs"
| "ci_eq as bs \<longleftrightarrow> as = [] \<and> bs = []"

definition include_base :: "string \<Rightarrow> string" where
  "include_base mn =
    (let l = length mn;
         l = (if l \<ge> 2 \<and> mn ! (l - 2) = CHR ''.'' \<and> (mn ! (l - 1) = CHR ''o'' \<or> mn ! (l - 1) = CHR ''O'') then l - 2 else l)
     in take 63 (take l mn))"

definition find_include :: "string \<Rightarrow> link \<Rightarrow> (nat \<times> nat) option" where
  "find_include name st =
    (let tab = (\<lambda>f. concat (map (\<lambda>a. map (\<lambda>(nm, off). (nm, (a, off))) (f (lk_AR st ! a))) [0..<length (lk_AR st)])) in
     case List.find (\<lambda>(mn, m). ci_eq (include_base mn) name) (tab ar_mem) of
       Some (mn, m) \<Rightarrow> Some m
     | None \<Rightarrow>
         let cand = map snd (filter (\<lambda>(nm, m). ci_eq nm name) (tab ar_sym))
         in if cand = [] then None else Some (pick_definer st cand))"

fun do_includes :: "string list \<Rightarrow> link \<Rightarrow> ld_error + link" where
  "do_includes [] st = Inr st"
| "do_includes (nm # ns) st =
    (case find_include nm st of
       None \<Rightarrow> Inl (LD_INCLUDE nm)
     | Some m \<Rightarrow> if m \<in> set (lk_pulled st) then do_includes ns st else do_includes ns (pull_member m st))"

text \<open>Includes, autocall, and the entry name when nothing loaded defines it.\<close>

definition pull_members :: "bool \<Rightarrow> string list \<Rightarrow> string option \<Rightarrow> link \<Rightarrow> ld_error + link" where
  "pull_members ws incs entryname st =
    (case do_includes incs st of
       Inl e \<Rightarrow> Inl e
     | Inr st \<Rightarrow>
         if lk_AR st = [] then Inr st
         else
           let st = autocall ws st in
           Inr (case entryname of
             None \<Rightarrow> st
           | Some en \<Rightarrow>
               if is_defined (lk_O st) (member_name en) then st
               else (case pull_definer ws (mvs_nm (member_name en)) st of (r, st) \<Rightarrow> if r then autocall ws st else st)))"

subsection \<open>What a pull adds\<close>

definition member_deck :: "archive list \<Rightarrow> nat \<times> nat \<Rightarrow> lobj" where
  "member_deck ars = (\<lambda>(ai, off). parse_object (drop (off + 60) (ar_data (ars ! ai))) (nat (size10 (ar_data (ars ! ai)) off)))"

definition autocalled_obj :: "archive list \<Rightarrow> nat \<times> nat \<Rightarrow> lobj" where
  "autocalled_obj ars m = (member_deck ars m)\<lparr>lo_autocalled := True, lo_ac := m, lo_src_kind := SRC_AUTOCALL, lo_src := m\<rparr>"

definition included_obj :: "archive list \<Rightarrow> nat \<times> nat \<Rightarrow> lobj" where
  "included_obj ars m = (member_deck ars m)\<lparr>lo_src_kind := SRC_INCLUDE, lo_src := m\<rparr>"

lemma pull_member_obj: "lk_O (pull_member m st) = lk_O st @ [included_obj (lk_AR st) m]"
  by (simp add: pull_member_def Let_def case_prod_beta included_obj_def member_deck_def)

lemma pull_definer_obj:
  assumes "definers st want \<noteq> []" "m = pick_definer st (definers st want)"
  shows "lk_O (snd (pull_definer ws want st)) = lk_O st @ [autocalled_obj (lk_AR st) m]"
    "lk_pulled (snd (pull_definer ws want st)) = lk_pulled st @ [m]" "lk_AR (snd (pull_definer ws want st)) = lk_AR st"
  using assms by (simp_all add: pull_definer_def Let_def pull_member_obj pull_member_fields report_fields included_obj_def autocalled_obj_def)

text \<open>The references of the loaded objects, and the members that define one of them.\<close>

definition refs :: "link \<Rightarrow> lent set" where
  "refs st = {l. \<exists>ob\<in>set (lk_O st). \<exists>j. lo_loc ob j = Some l \<and> lc_type l = T_ER}"

definition wanted :: "link \<Rightarrow> (nat \<times> nat) set" where
  "wanted st = {(a, off). a < length (lk_AR st) \<and> (\<exists>l\<in>refs st. (mvs_nm (lc_name l), off) \<in> set (ar_sym (lk_AR st ! a)))}"

text \<open>The state after some autocalled pulls.\<close>

definition pulls :: "link \<Rightarrow> link \<Rightarrow> (nat \<times> nat) list \<Rightarrow> bool" where
  "pulls st st' ms \<longleftrightarrow> lk_AR st' = lk_AR st \<and> lk_pulled st' = lk_pulled st @ ms
     \<and> lk_O st' = lk_O st @ map (autocalled_obj (lk_AR st)) ms \<and> distinct ms \<and> set ms \<inter> set (lk_pulled st) = {} \<and> set ms \<subseteq> wanted st'"

lemma wanted_mono: "set (lk_O st) \<subseteq> set (lk_O st') \<Longrightarrow> lk_AR st' = lk_AR st \<Longrightarrow> wanted st \<subseteq> wanted st'"
  unfolding wanted_def refs_def by auto

lemma pulls_refl: "pulls st st []"
  by (simp add: pulls_def)

lemma pulls_trans: "pulls st s1 ms \<Longrightarrow> pulls s1 s2 ns \<Longrightarrow> pulls st s2 (ms @ ns)"
  using wanted_mono [of s1 s2] unfolding pulls_def by auto

lemma definers_mem:
  "m \<in> set (definers st want) \<longleftrightarrow> fst m < length (lk_AR st) \<and> (want, snd m) \<in> set (ar_sym (lk_AR st ! fst m)) \<and> m \<notin> set (lk_pulled st)"
  by (cases m) (auto simp: definers_def)

lemma autocall_ref_pulls:
  assumes "fst r < length (lk_O st)" "autocall_ref ws r (ch, st) = (ch', st')"
  shows "\<exists>ms. pulls st st' ms \<and> (ch' \<longleftrightarrow> ch \<or> ms \<noteq> [])"
proof (cases rule: autocall_ref_cases [of ws r ch st])
  case 1
  then show ?thesis using assms(2) pulls_refl by auto
next
  case (2 l)
  let ?d = "definers st (mvs_nm (lc_name l))"
  define m where "m = pick_definer st ?d"
  have m: "m \<in> set ?d" using pick_in [OF 2(4), of st] by (simp add: m_def)
  note o = pull_definer_obj [OF 2(4) m_def, of ws]
  have st': "st' = snd (pull_definer ws (mvs_nm (lc_name l)) st)" "ch'" using assms(2) 2(5) by auto
  have "l \<in> refs st" using 2(1,2) assms(1) unfolding refs_def by (auto intro: nth_mem)
  then have "m \<in> wanted st" using m by (cases m) (auto simp: wanted_def definers_mem)
  then have "m \<in> wanted st'" using wanted_mono [of st st'] o st' by auto
  then have "pulls st st' [m]" using o st' m by (simp add: pulls_def definers_mem)
  then show ?thesis using st'(2) by blast
qed

lemma autocall_fold_pulls:
  "fold (autocall_ref ws) rs (ch, st) = (ch', st') \<Longrightarrow> \<forall>r\<in>set rs. fst r < length (lk_O st)
    \<Longrightarrow> \<exists>ms. pulls st st' ms \<and> (ch' \<longleftrightarrow> ch \<or> ms \<noteq> [])"
proof (induction rs arbitrary: ch st)
  case Nil
  then show ?case using pulls_refl by auto
next
  case (Cons r rs)
  obtain c1 s1 where s1: "autocall_ref ws r (ch, st) = (c1, s1)" by fastforce
  obtain ms where ms: "pulls st s1 ms" "c1 \<longleftrightarrow> ch \<or> ms \<noteq> []" using autocall_ref_pulls [OF _ s1] Cons.prems(2) by auto
  have "fold (autocall_ref ws) rs (c1, s1) = (ch', st')" using Cons.prems(1) s1 by simp
  moreover have "\<forall>r\<in>set rs. fst r < length (lk_O s1)" using Cons.prems(2) ms(1) by (auto simp: pulls_def)
  ultimately obtain ns where ns: "pulls s1 st' ns" "ch' \<longleftrightarrow> c1 \<or> ns \<noteq> []" using Cons.IH by blast
  show ?case using pulls_trans [OF ms(1) ns(1)] ms(2) ns(2) by auto
qed

lemma autocall_pass_pulls: "\<exists>ms. pulls st (snd (autocall_pass ws st)) ms \<and> (fst (autocall_pass ws st) \<longleftrightarrow> ms \<noteq> [])"
proof -
  let ?rs = "concat (map (\<lambda>i. map (\<lambda>j. (i, j)) [1..<MAXESD]) [0..<length (lk_O st)])"
  have "\<forall>r\<in>set ?rs. fst r < length (lk_O st)" by auto
  from autocall_fold_pulls [OF prod.collapse [symmetric] this, of ws False] show ?thesis
    by (simp add: autocall_pass_def)
qed

lemma autocall_pulls: "\<exists>ms. pulls st (autocall ws st) ms"
proof (induction ws st rule: autocall.induct)
  case (1 ws st)
  obtain ch s1 where p: "autocall_pass ws st = (ch, s1)" by fastforce
  obtain ms where ms: "pulls st s1 ms" using autocall_pass_pulls [of st ws] p by auto
  show ?case
  proof (cases ch)
    case True
    then obtain ns where "pulls s1 (autocall ws s1) ns" using 1 p by auto
    then have "pulls st (autocall ws s1) (ms @ ns)" by (rule pulls_trans [OF ms])
    moreover have "autocall ws st = autocall ws s1" using p True by (simp add: autocall.simps [of ws st])
    ultimately show ?thesis by auto
  next
    case False
    then show ?thesis using ms p by (subst autocall.simps) auto
  qed
qed

lemma fold_no_change:
  assumes "fold (autocall_ref ws) rs (c, s) = (False, s')"
  shows "\<not> c \<and> s' = s \<and> (\<forall>r\<in>set rs. autocall_ref ws r (False, s) = (False, s))"
  using assms
proof (induction rs arbitrary: c s)
  case (Cons r rs)
  obtain c1 t where s1: "autocall_ref ws r (c, s) = (c1, t)" by fastforce
  then have t: "\<not> c1" "s' = t" "\<forall>r\<in>set rs. autocall_ref ws r (False, t) = (False, t)" using Cons by auto
  show ?case by (cases rule: autocall_ref_cases [of ws r c s]) (use s1 t in auto)
qed simp

lemma autocall_stable: "autocall_pass ws (autocall ws st) = (False, autocall ws st)"
proof (induction ws st rule: autocall.induct)
  case (1 ws st)
  obtain ch s1 where p: "autocall_pass ws st = (ch, s1)" by fastforce
  show ?case
  proof (cases ch)
    case True
    then have "autocall ws st = autocall ws s1" using p by (subst autocall.simps) simp
    then show ?thesis using 1 p True by simp
  next
    case False
    then have "s1 = st" using fold_no_change [of ws _ False st s1] p by (simp add: autocall_pass_def)
    then show ?thesis using p False by (subst (1 2) autocall.simps) simp
  qed
qed

text \<open>The references that could still be resolved.\<close>

definition open_refs :: "link \<Rightarrow> (nat \<times> nat) list" where
  "open_refs st = filter (\<lambda>(i, j). case lo_loc (lk_O st ! i) j of
       Some l \<Rightarrow> lc_type l = T_ER \<and> \<not> is_defined (lk_O st) (lc_name l) \<and> definers st (mvs_nm (lc_name l)) \<noteq> []
     | None \<Rightarrow> False) (concat (map (\<lambda>i. map (\<lambda>j. (i, j)) [1..<MAXESD]) [0..<length (lk_O st)]))"

lemma stable_closed:
  assumes "autocall_pass ws st = (False, st)"
  shows "open_refs st = []"
proof -
  let ?rs = "concat (map (\<lambda>i. map (\<lambda>j. (i, j)) [1..<MAXESD]) [0..<length (lk_O st)])"
  have all: "\<forall>r\<in>set ?rs. autocall_ref ws r (False, st) = (False, st)"
    using fold_no_change [of ws ?rs False st st] assms by (simp add: autocall_pass_def)
  have "\<not> (case lo_loc (lk_O st ! fst r) (snd r) of
       Some l \<Rightarrow> lc_type l = T_ER \<and> \<not> is_defined (lk_O st) (lc_name l) \<and> definers st (mvs_nm (lc_name l)) \<noteq> [] | None \<Rightarrow> False)"
    if "r \<in> set ?rs" for r
  proof (cases "lo_loc (lk_O st ! fst r) (snd r)")
    case (Some l)
    show ?thesis
    proof
      assume "case lo_loc (lk_O st ! fst r) (snd r) of
        Some l \<Rightarrow> lc_type l = T_ER \<and> \<not> is_defined (lk_O st) (lc_name l) \<and> definers st (mvs_nm (lc_name l)) \<noteq> [] | None \<Rightarrow> False"
      then have "fst (autocall_ref ws r (False, st))"
        using Some by (simp add: autocall_ref_def case_prod_beta pull_definer_def Let_def)
      then show False using bspec [OF all that] by simp
    qed
  qed simp
  then show ?thesis unfolding open_refs_def by (auto simp: filter_empty_conv case_prod_beta)
qed

text \<open>
  C28. Autocall runs to a fixpoint on every set of objects and archives: when it ends, every external
  reference of every loaded object, the pulled ones included, is defined by a loaded object or has no
  definer left that was not pulled, and one more pass would change nothing.
\<close>

theorem autocall_closed: "open_refs (autocall ws st) = [] \<and> autocall_pass ws (autocall ws st) = (False, autocall ws st)"
  using autocall_stable stable_closed by blast

text \<open>
  C29. What autocall adds: the objects already loaded stay as they are and in front; behind them stands one
  object per pulled member, in the order of the pulls, parsed from that member's bytes and marked with it.
  No member is pulled twice or after an include pulled it, and each is listed in an archive's index under the
  name of a reference of a loaded object.
\<close>

theorem autocall_adds:
  "\<exists>ms. lk_pulled (autocall ws st) = lk_pulled st @ ms \<and> distinct ms \<and> set ms \<inter> set (lk_pulled st) = {}
    \<and> lk_O (autocall ws st) = lk_O st @ map (autocalled_obj (lk_AR st)) ms
    \<and> lk_AR (autocall ws st) = lk_AR st \<and> set ms \<subseteq> wanted (autocall ws st)"
  using autocall_pulls [of st ws] unfolding pulls_def by blast

end
