(* ===== verification/Ld_Symbols.thy ===== *)
theory Ld_Symbols
  imports Ld_Autocall
begin

section \<open>ld370: the composite symbol table\<close>

text \<open>
  PASS 2 of \<^verbatim>\<open>ld370/src/ld370.c\<close>: the table \<^verbatim>\<open>G[]\<close>, \<^verbatim>\<open>g_find\<close> to \<^verbatim>\<open>g_intern\<close>, and the part of \<^verbatim>\<open>main\<close> that enters every
  object's external symbols, keeps the first of several control sections, merges commons and records labels;
  then the check that every reference is resolved. An index of \<^verbatim>\<open>-1\<close> is \<open>None\<close>. Shown here: a name's references
  all land on one entry, whatever the order of the objects; a kept section is entered with its object, origin
  and length; a link that passes the check has no reference left without a definition.
\<close>

record gsym =
  gs_name :: bytes
  gs_type :: nat
  gs_is_sect :: bool
  gs_gid :: nat
  gs_org :: int
  gs_len :: nat
  gs_def_obj :: "nat option"
  gs_in_addr :: int
  gs_owner :: "nat option"

record comp =
  cp_O :: "lobj list"
  cp_G :: "gsym list"
  cp_ncomerr :: nat
  cp_warn :: "ld_warn list"

definition g_find :: "gsym list \<Rightarrow> bytes \<Rightarrow> nat option" where
  "g_find G name = List.find (\<lambda>i. gs_name (G ! i) = name) [0..<length G]"

definition g_new :: "gsym list \<Rightarrow> bytes \<Rightarrow> nat \<times> gsym list" where
  "g_new G name = (length G, G @ [\<lparr>gs_name = name, gs_type = 0, gs_is_sect = False, gs_gid = 0, gs_org = 0, gs_len = 0,
     gs_def_obj = None, gs_in_addr = 0, gs_owner = None\<rparr>])"

definition g_intern :: "gsym list \<Rightarrow> bytes \<Rightarrow> nat \<Rightarrow> nat \<times> gsym list" where
  "g_intern G name type =
    (case g_find G name of
       Some i \<Rightarrow> (i, if gs_type (G ! i) = T_WX \<and> type \<noteq> T_WX then G[i := (G ! i)\<lparr>gs_type := T_ER\<rparr>] else G)
     | None \<Rightarrow> (case g_new G name of (i, G) \<Rightarrow> (i, G[i := (G ! i)\<lparr>gs_type := type\<rparr>])))"

definition common_too_long :: "nat \<Rightarrow> nat \<Rightarrow> nat \<Rightarrow> nat \<Rightarrow> comp \<Rightarrow> comp" where
  "common_too_long gi comlen sdlen w st =
    st\<lparr>cp_ncomerr := cp_ncomerr st + 1, cp_warn := cp_warn st @ [ERR_COMMON (mvs_nm (gs_name (cp_G st ! gi))) comlen sdlen w]\<rparr>"

definition merge_common :: "nat \<Rightarrow> nat \<Rightarrow> nat \<Rightarrow> comp \<Rightarrow> comp" where
  "merge_common gi len w st =
    (let g = cp_G st ! gi in
     if gs_is_sect g \<and> gs_type g = T_SD then (if len > gs_len g then common_too_long gi len (gs_len g) w st else st)
     else
       let g = (if \<not> (gs_is_sect g \<and> gs_type g = T_CM)
                then g\<lparr>gs_is_sect := True, gs_type := T_CM, gs_len := 0, gs_def_obj := None, gs_in_addr := 0\<rparr> else g);
           g = (if len > gs_len g then g\<lparr>gs_len := len\<rparr> else g)
       in st\<lparr>cp_G := (cp_G st)[gi := g]\<rparr>)"

definition upd_obj :: "nat \<Rightarrow> (lobj \<Rightarrow> lobj) \<Rightarrow> comp \<Rightarrow> comp" where
  "upd_obj i f st = st\<lparr>cp_O := (cp_O st)[i := f (cp_O st ! i)]\<rparr>"

definition enter_sect :: "nat \<Rightarrow> nat \<Rightarrow> lent \<Rightarrow> comp \<Rightarrow> comp" where
  "enter_sect i gi l st =
    (let g = cp_G st ! gi;
         st = (if lc_type l = T_SD \<and> gs_is_sect g \<and> gs_type g = T_CM \<and> gs_len g > lc_len l
               then common_too_long gi (gs_len g) (lc_len l) i st else st)
     in st\<lparr>cp_G := (cp_G st)[gi := g\<lparr>gs_is_sect := True, gs_type := lc_type l, gs_len := lc_len l, gs_def_obj := Some i,
          gs_in_addr := int (lc_addr l)\<rparr>]\<rparr>)"

definition pass2_local :: "nat \<Rightarrow> nat \<Rightarrow> comp \<Rightarrow> comp" where
  "pass2_local i j st =
    (case lo_loc (cp_O st ! i) j of
       None \<Rightarrow> st
     | Some l \<Rightarrow>
         let t = lc_type l;
             (gi, G) = (if t = T_PC then g_new (cp_G st) (lc_name l) else g_intern (cp_G st) (lc_name l) t);
             st = upd_obj i (\<lambda>ob. ob\<lparr>lo_loc_g := (lo_loc_g ob)(j := gi)\<rparr>) (st\<lparr>cp_G := G\<rparr>); g = G ! gi in
         if t = T_SD \<and> gs_is_sect g \<and> gs_type g = T_SD then
           (upd_obj i (\<lambda>ob. ob\<lparr>lo_loc := (lo_loc ob)(j \<mapsto> l\<lparr>lc_dropped := True\<rparr>), lo_has_drop := True\<rparr>) st)
             \<lparr>cp_warn := cp_warn st @ [NOTE_DUPLICATE (mvs_nm (lc_name l)) i]\<rparr>
         else if t = T_CM then merge_common gi (lc_len l) i st
         else if is_sect_type t then enter_sect i gi l st
         else st)"

definition label_owner :: "lobj \<Rightarrow> nat \<Rightarrow> lent option" where
  "label_owner ob ol = (if 1 \<le> ol \<and> ol < MAXESD then lo_loc ob ol else None)"

definition pass2_label :: "nat \<Rightarrow> ldent \<Rightarrow> comp \<Rightarrow> comp" where
  "pass2_label i l st =
    (let ob = cp_O st ! i; ol = ld_owner_local l; own = label_owner ob ol in
     if (case own of Some x \<Rightarrow> lc_dropped x | None \<Rightarrow> False) then st
     else
       let (gi, G) = g_intern (cp_G st) (ld_name l) T_LD; g = G ! gi in
       if gs_type g = T_LR \<and> gs_owner g \<noteq> None then
         st\<lparr>cp_G := G, cp_warn := cp_warn st @ [WARN_DOUBLY (mvs_nm (ld_name l)) i]\<rparr>
       else
         st\<lparr>cp_G := G[gi := g\<lparr>gs_type := T_LR, gs_owner := (case own of Some x \<Rightarrow> Some (lo_loc_g ob ol) | None \<Rightarrow> None),
              gs_in_addr := int (ld_addr l) - (case own of Some x \<Rightarrow> int (lc_addr x) | None \<Rightarrow> 0)\<rparr>]\<rparr>)"

definition pass2_obj :: "nat \<Rightarrow> comp \<Rightarrow> comp" where
  "pass2_obj i st = (let st = fold (pass2_local i) [1..<MAXESD] st in fold (pass2_label i) (lo_ld (cp_O st ! i)) st)"

definition pass2_start :: "lobj list \<Rightarrow> comp" where
  "pass2_start os = \<lparr>cp_O = os, cp_G = [], cp_ncomerr = 0, cp_warn = []\<rparr>"

definition pass2 :: "lobj list \<Rightarrow> comp" where
  "pass2 os = fold pass2_obj [0..<length os] (pass2_start os)"

definition unresolved :: "gsym list \<Rightarrow> gsym list" where
  "unresolved G = filter (\<lambda>g. \<not> gs_is_sect g \<and> gs_type g = T_ER) G"

definition check_resolved :: "bool \<Rightarrow> comp \<Rightarrow> ld_error + comp" where
  "check_resolved allow_unresolved st =
    (let nunres = length (unresolved (cp_G st)) in
     if cp_ncomerr st > 0 then Inl (LD_COMMON (cp_ncomerr st))
     else if nunres > 0 \<and> \<not> allow_unresolved then Inl (LD_UNRESOLVED nunres)
     else Inr st)"

subsection \<open>Entries and names\<close>

text \<open>The table only grows, and an entry keeps its name: the first entry with a name stays the first.\<close>

definition names :: "gsym list \<Rightarrow> bytes list" where
  "names G = map gs_name G"

lemma names_simps [simp]: "length (names G) = length G" "i < length G \<Longrightarrow> names G ! i = gs_name (G ! i)"
  by (simp_all add: names_def)

lemma names_update [simp]: "gs_name g = gs_name (G ! i) \<Longrightarrow> names (G[i := g]) = names G"
  unfolding names_def map_update by (metis list_update_beyond list_update_id length_map linorder_not_le nth_map)

lemma g_find_some:
  "g_find G n = Some i \<longleftrightarrow> i < length G \<and> names G ! i = n \<and> (\<forall>k<i. names G ! k \<noteq> n)"
  by (auto simp: g_find_def find_Some_iff)

lemma g_find_none: "g_find G n = None \<longleftrightarrow> n \<notin> set (names G)"
proof -
  have "n \<in> set (names G) \<longleftrightarrow> (\<exists>i<length G. gs_name (G ! i) = n)"
    unfolding in_set_conv_nth by auto
  then show ?thesis by (auto simp: g_find_def find_None_iff)
qed

lemma g_find_grows:
  assumes "names G' = names G @ xs" "g_find G n = Some i" shows "g_find G' n = Some i"
proof -
  have "length G' = length G + length xs" using arg_cong [OF assms(1), of length] by simp
  then show ?thesis using assms unfolding g_find_some by (auto simp: nth_append)
qed

lemma g_find_snoc: "n \<notin> set (names G) \<Longrightarrow> names G' = names G @ [n] \<Longrightarrow> g_find G' n = Some (length G)"
proof -
  assume n: "n \<notin> set (names G)" and nm: "names G' = names G @ [n]"
  have "length G' = Suc (length G)" using arg_cong [OF nm, of length] by simp
  moreover have "names G ! k \<noteq> n" if "k < length G" for k using n that nth_mem [of k "names G"] by auto
  ultimately show ?thesis using nm unfolding g_find_some by (auto simp: nth_append simp del: names_simps(2))
qed

lemma intern_spec:
  assumes "g_intern G n t = (gi, G')"
  obtains xs where "names G' = names G @ xs" "g_find G' n = Some gi" "gi < length G'"
    "\<And>k. k < length G \<Longrightarrow> G' ! k = G ! k \<or> k = gi \<and> gs_type (G ! k) = T_WX \<and> t \<noteq> T_WX \<and> G' ! k = (G ! k)\<lparr>gs_type := T_ER\<rparr>"
    "gi < length G \<Longrightarrow> gs_name (G ! gi) = n"
    "\<not> gi < length G \<Longrightarrow> gi = length G \<and> length G' = Suc (length G) \<and> gs_type (G' ! gi) = t \<and> \<not> gs_is_sect (G' ! gi) \<and> gs_owner (G' ! gi) = None"
    "gi < length G \<Longrightarrow> length G' = length G" "gs_type (G' ! gi) = T_WX \<Longrightarrow> t = T_WX"
proof (cases "g_find G n")
  case None
  then have g: "gi = length G" "G' = G @ [\<lparr>gs_name = n, gs_type = t, gs_is_sect = False, gs_gid = 0, gs_org = 0, gs_len = 0,
     gs_def_obj = None, gs_in_addr = 0, gs_owner = None\<rparr>]"
    using assms by (simp_all add: g_intern_def g_new_def)
  have nm: "names G' = names G @ [n]" by (simp add: g(2) names_def)
  show ?thesis
    by (rule that [OF nm]) (use None g g_find_snoc [OF _ nm] g_find_none [of G n] in \<open>auto simp: nth_append\<close>)
next
  case (Some i)
  then have i: "i < length G" "gs_name (G ! i) = n" by (auto simp: g_find_some)
  have g: "gi = i" "G' = (if gs_type (G ! i) = T_WX \<and> t \<noteq> T_WX then G[i := (G ! i)\<lparr>gs_type := T_ER\<rparr>] else G)"
    using assms Some by (auto simp: g_intern_def)
  have nm: "names G' = names G @ []" using g by simp
  have ty: "T_ER \<noteq> T_WX" by (simp add: ld_types)
  show ?thesis
    by (rule that [OF nm]) (use g i Some g_find_grows [OF nm Some] ty in \<open>auto simp: nth_list_update split: if_splits\<close>)
qed

lemma new_spec:
  assumes "g_new G n = (gi, G')"
  shows "names G' = names G @ [n]" "gi = length G" "length G' = Suc (length G)" "\<And>k. k < length G \<Longrightarrow> G' ! k = G ! k"
    "gs_name (G' ! gi) = n" "\<not> gs_is_sect (G' ! gi)" "gs_owner (G' ! gi) = None"
  using assms by (auto simp: g_new_def names_def nth_append)

subsection \<open>The effect of a step\<close>

definition common_sym :: "nat \<Rightarrow> gsym \<Rightarrow> gsym" where
  "common_sym len g =
    (if gs_is_sect g \<and> gs_type g = T_SD then g
     else let g = (if \<not> (gs_is_sect g \<and> gs_type g = T_CM)
                then g\<lparr>gs_is_sect := True, gs_type := T_CM, gs_len := 0, gs_def_obj := None, gs_in_addr := 0\<rparr> else g)
          in if len > gs_len g then g\<lparr>gs_len := len\<rparr> else g)"

definition local_sym :: "nat \<Rightarrow> lent \<Rightarrow> gsym \<Rightarrow> gsym" where
  "local_sym i l g =
    (if lc_type l = T_SD \<and> gs_is_sect g \<and> gs_type g = T_SD then g
     else if lc_type l = T_CM then common_sym (lc_len l) g
     else if is_sect_type (lc_type l) then
       g\<lparr>gs_is_sect := True, gs_type := lc_type l, gs_len := lc_len l, gs_def_obj := Some i, gs_in_addr := int (lc_addr l)\<rparr>
     else g)"

definition local_entry :: "gsym list \<Rightarrow> lent \<Rightarrow> nat \<times> gsym list" where
  "local_entry G l = (if lc_type l = T_PC then g_new G (lc_name l) else g_intern G (lc_name l) (lc_type l))"

lemma common_G: "cp_G (merge_common gi len w st) = (cp_G st)[gi := common_sym len (cp_G st ! gi)]"
    "cp_O (merge_common gi len w st) = cp_O st"
  by (simp_all add: merge_common_def common_sym_def common_too_long_def Let_def)

lemma pass2_local_effect:
  assumes "lo_loc (cp_O st ! i) j = Some l" "local_entry (cp_G st) l = (gi, G)" "i < length (cp_O st)"
  shows "cp_G (pass2_local i j st) = G[gi := local_sym i l (G ! gi)]"
    "cp_O (pass2_local i j st) = (cp_O st)[i :=
       (let ob = (cp_O st ! i)\<lparr>lo_loc_g := (lo_loc_g (cp_O st ! i))(j := gi)\<rparr> in
        if lc_type l = T_SD \<and> gs_is_sect (G ! gi) \<and> gs_type (G ! gi) = T_SD
        then ob\<lparr>lo_loc := (lo_loc ob)(j \<mapsto> l\<lparr>lc_dropped := True\<rparr>), lo_has_drop := True\<rparr> else ob)]"
proof -
  note defs = pass2_local_def assms local_entry_def [symmetric] Let_def upd_obj_def local_sym_def common_G enter_sect_def common_too_long_def
  show "cp_G (pass2_local i j st) = G[gi := local_sym i l (G ! gi)]"
    by (simp add: defs)
  show "cp_O (pass2_local i j st) = (cp_O st)[i :=
       (let ob = (cp_O st ! i)\<lparr>lo_loc_g := (lo_loc_g (cp_O st ! i))(j := gi)\<rparr> in
        if lc_type l = T_SD \<and> gs_is_sect (G ! gi) \<and> gs_type (G ! gi) = T_SD
        then ob\<lparr>lo_loc := (lo_loc ob)(j \<mapsto> l\<lparr>lc_dropped := True\<rparr>), lo_has_drop := True\<rparr> else ob)]"
    by (simp add: defs)
qed

lemma local_sym_name [simp]: "gs_name (local_sym i l g) = gs_name g" "gs_owner (local_sym i l g) = gs_owner g"
  by (simp_all add: local_sym_def common_sym_def Let_def)

definition label_sym :: "lobj \<Rightarrow> ldent \<Rightarrow> gsym \<Rightarrow> gsym" where
  "label_sym ob l g =
    (if gs_type g = T_LR \<and> gs_owner g \<noteq> None then g
     else g\<lparr>gs_type := T_LR,
       gs_owner := map_option (\<lambda>x. lo_loc_g ob (ld_owner_local l)) (label_owner ob (ld_owner_local l)),
       gs_in_addr := int (ld_addr l) - (case label_owner ob (ld_owner_local l) of Some x \<Rightarrow> int (lc_addr x) | None \<Rightarrow> 0)\<rparr>)"

lemma pass2_label_effect:
  assumes "g_intern (cp_G st) (ld_name l) T_LD = (gi, G)"
  shows "cp_G (pass2_label i l st) =
      (if (case label_owner (cp_O st ! i) (ld_owner_local l) of Some x \<Rightarrow> lc_dropped x | None \<Rightarrow> False) then cp_G st
       else G[gi := label_sym (cp_O st ! i) l (G ! gi)])"
    "cp_O (pass2_label i l st) = cp_O st"
  by (auto simp: pass2_label_def assms label_sym_def Let_def map_option_case split: option.splits)

lemma label_sym_name [simp]: "gs_name (label_sym ob l g) = gs_name g"
  by (simp add: label_sym_def)

subsection \<open>References by name\<close>

definition strip :: "lent \<Rightarrow> lent" where
  "strip l = l\<lparr>lc_dropped := False\<rparr>"

lemma strip_fields [simp]: "lc_name (strip l) = lc_name l" "lc_type (strip l) = lc_type l" "lc_addr (strip l) = lc_addr l"
    "lc_len (strip l) = lc_len l" "strip (l\<lparr>lc_dropped := b\<rparr>) = strip l"
  by (simp_all add: strip_def)

text \<open>The objects are those read, up to the drop flags and the table indices.\<close>

definition same_objs :: "lobj list \<Rightarrow> lobj list \<Rightarrow> bool" where
  "same_objs os ps \<longleftrightarrow> length ps = length os \<and> (\<forall>i<length os. lo_ld (ps ! i) = lo_ld (os ! i)
     \<and> (\<forall>j. map_option strip (lo_loc (ps ! i) j) = map_option strip (lo_loc (os ! i) j)))"

definition entered :: "gsym list \<Rightarrow> lobj list \<Rightarrow> nat \<times> nat \<Rightarrow> bool" where
  "entered G os = (\<lambda>(i, j). \<forall>l. lo_loc (os ! i) j = Some l \<longrightarrow>
     (let k = lo_loc_g (os ! i) j in k < length G \<and> gs_name (G ! k) = lc_name l
        \<and> (lc_type l \<noteq> T_PC \<longrightarrow> g_find G (lc_name l) = Some k)))"

definition comp_inv :: "lobj list \<Rightarrow> (nat \<times> nat) set \<Rightarrow> comp \<Rightarrow> bool" where
  "comp_inv os D st \<longleftrightarrow> same_objs os (cp_O st) \<and> (\<forall>x\<in>D. fst x < length os \<and> entered (cp_G st) (cp_O st) x)"

lemma entered_grows:
  assumes "entered G os x" "names G' = names G @ xs"
  shows "entered G' os x"
proof -
  have len: "length G \<le> length G'" using arg_cong [OF assms(2), of length] by simp
  have nm: "gs_name (G' ! k) = gs_name (G ! k)" if "k < length G" for k
    using arg_cong [OF assms(2), of "\<lambda>ys. ys ! k"] that len by (simp add: nth_append)
  show ?thesis
    unfolding entered_def case_prod_beta Let_def
  proof (intro allI impI conjI)
    fix l assume l: "lo_loc (os ! fst x) (snd x) = Some l"
    let ?k = "lo_loc_g (os ! fst x) (snd x)"
    have k: "?k < length G" "gs_name (G ! ?k) = lc_name l" "lc_type l \<noteq> T_PC \<Longrightarrow> g_find G (lc_name l) = Some ?k"
      using assms(1) l by (simp_all add: entered_def case_prod_beta Let_def)
    show "?k < length G'" using k(1) len by simp
    show "gs_name (G' ! ?k) = lc_name l" using nm [OF k(1)] k(2) by simp
    show "g_find G' (lc_name l) = Some ?k" if "lc_type l \<noteq> T_PC" by (rule g_find_grows [OF assms(2) k(3) [OF that]])
  qed
qed

lemma strip_eqD: "strip l = strip l' \<Longrightarrow> lc_name l = lc_name l' \<and> lc_type l = lc_type l' \<and> lc_addr l = lc_addr l' \<and> lc_len l = lc_len l'"
  using strip_fields(1-4) by metis

lemma entered_cong:
  assumes "lo_loc_g (ps ! i) j = lo_loc_g (qs ! i) j"
    "map_option strip (lo_loc (ps ! i) j) = map_option strip (lo_loc (qs ! i) j)"
  shows "entered G ps (i, j) \<longleftrightarrow> entered G qs (i, j)"
proof (cases "lo_loc (ps ! i) j")
  case None
  then show ?thesis using assms(2) by (simp add: entered_def)
next
  case (Some l)
  then obtain l' where "lo_loc (qs ! i) j = Some l'" "strip l = strip l'" using assms(2) by (cases "lo_loc (qs ! i) j") auto
  then show ?thesis using Some assms(1) strip_eqD [of l l'] by (simp add: entered_def Let_def)
qed

lemma g_find_names: "names G = names G' \<Longrightarrow> g_find G n = g_find G' n"
proof -
  assume nm: "names G = names G'"
  have len: "length G = length G'" using arg_cong [OF nm, of length] by simp
  have "g_find G n = Some i \<longleftrightarrow> g_find G' n = Some i" for i
    unfolding g_find_some nm len ..
  then show ?thesis by (metis not_Some_eq)
qed

lemma local_entry_spec:
  assumes "local_entry G l = (gi, G')"
  shows "gi < length G'" "gs_name (G' ! gi) = lc_name l" "\<exists>xs. names G' = names G @ xs"
    "lc_type l \<noteq> T_PC \<Longrightarrow> g_find G' (lc_name l) = Some gi"
proof -
  have "gi < length G' \<and> gs_name (G' ! gi) = lc_name l \<and> (\<exists>xs. names G' = names G @ xs)
    \<and> (lc_type l \<noteq> T_PC \<longrightarrow> g_find G' (lc_name l) = Some gi)"
  proof (cases "lc_type l = T_PC")
    case True
    then have "g_new G (lc_name l) = (gi, G')" using assms by (simp add: local_entry_def)
    from new_spec [OF this] True show ?thesis by auto
  next
    case False
    then have "g_intern G (lc_name l) (lc_type l) = (gi, G')" using assms by (simp add: local_entry_def)
    then obtain xs where i: "names G' = names G @ xs" "g_find G' (lc_name l) = Some gi" "gi < length G'"
      by (rule intern_spec) blast
    then have "gs_name (G' ! gi) = lc_name l" unfolding g_find_some by (metis names_simps(2))
    then show ?thesis using i by blast
  qed
  then show "gi < length G'" "gs_name (G' ! gi) = lc_name l" "\<exists>xs. names G' = names G @ xs"
    "lc_type l \<noteq> T_PC \<Longrightarrow> g_find G' (lc_name l) = Some gi" by blast+
qed

lemma inv_local:
  assumes "comp_inv os D st" "i < length os"
  shows "comp_inv os (insert (i, j) D) (pass2_local i j st)"
proof (cases "lo_loc (cp_O st ! i) j")
  case None
  then have st: "pass2_local i j st = st" by (simp add: pass2_local_def)
  have "entered (cp_G st) (cp_O st) (i, j)" using None by (simp add: entered_def)
  then show ?thesis using assms unfolding st comp_inv_def by auto
next
  case (Some l)
  obtain gi G where e: "local_entry (cp_G st) l = (gi, G)" by fastforce
  have len: "length (cp_O st) = length os" and same: "same_objs os (cp_O st)" using assms(1) by (auto simp: comp_inv_def same_objs_def)
  note s = local_entry_spec [OF e] and ef = pass2_local_effect [OF Some e, unfolded len, OF assms(2)]
  let ?st = "pass2_local i j st"
  have nG: "names (cp_G ?st) = names G" by (simp add: ef(1))
  obtain xs where xs: "names (cp_G ?st) = names (cp_G st) @ xs" using s(3) nG by auto
  have oi: "cp_O ?st ! k = cp_O st ! k" if "k \<noteq> i" for k using that by (simp add: ef(2))
  have ob: "lo_loc_g (cp_O ?st ! i) = (lo_loc_g (cp_O st ! i))(j := gi)" "lo_ld (cp_O ?st ! i) = lo_ld (cp_O st ! i)"
    "map_option strip (lo_loc (cp_O ?st ! i) k) = map_option strip (lo_loc (cp_O st ! i) k)" for k
    using len assms(2) Some by (simp_all add: ef(2) Let_def)
  have "same_objs os (cp_O ?st)"
    unfolding same_objs_def
  proof (intro conjI allI impI)
    show "length (cp_O ?st) = length os" by (simp add: ef(2) len)
    fix k assume k: "k < length os"
    have "lo_ld (cp_O ?st ! k) = lo_ld (cp_O st ! k)" using ob(2) oi [of k] by (cases "k = i") simp_all
    then show "lo_ld (cp_O ?st ! k) = lo_ld (os ! k)" using same k by (simp add: same_objs_def)
    have "map_option strip (lo_loc (cp_O ?st ! k) j') = map_option strip (lo_loc (cp_O st ! k) j')" for j'
      using ob(3) oi [of k] by (cases "k = i") simp_all
    then show "map_option strip (lo_loc (cp_O ?st ! k) j') = map_option strip (lo_loc (os ! k) j')" for j'
      using same k unfolding same_objs_def by metis
  qed
  moreover have "entered (cp_G ?st) (cp_O ?st) x" if "x \<in> D" "x \<noteq> (i, j)" for x
  proof -
    have "entered (cp_G st) (cp_O st) x" using assms(1) that(1) by (simp add: comp_inv_def)
    then have "entered (cp_G ?st) (cp_O st) x" by (rule entered_grows [OF _ xs])
    moreover have "lo_loc_g (cp_O ?st ! fst x) (snd x) = lo_loc_g (cp_O st ! fst x) (snd x)"
      using that(2) ob(1) oi [of "fst x"] by (cases "fst x = i") auto
    moreover have "map_option strip (lo_loc (cp_O ?st ! fst x) (snd x)) = map_option strip (lo_loc (cp_O st ! fst x) (snd x))"
      using ob(3) oi [of "fst x"] by (cases "fst x = i") auto
    ultimately show ?thesis
      using entered_cong [of "cp_O ?st" "fst x" "snd x" "cp_O st"] by simp
  qed
  moreover have "entered (cp_G ?st) (cp_O ?st) (i, j)"
  proof -
    have f: "g_find (cp_G ?st) (lc_name l) = g_find G (lc_name l)" by (rule g_find_names [OF nG])
    have g: "gi < length (cp_G ?st)" "gs_name (cp_G ?st ! gi) = lc_name l" using s(1,2) by (simp_all add: ef(1))
    have k: "lo_loc_g (cp_O ?st ! i) j = gi" by (simp add: ob(1))
    show ?thesis
      unfolding entered_def prod.case Let_def k
    proof (intro allI impI conjI)
      fix l' assume "lo_loc (cp_O ?st ! i) j = Some l'"
      then have l': "lc_name l' = lc_name l" "lc_type l' = lc_type l" using ob(3) [of j] Some strip_eqD [of l' l] by simp_all
      show "gi < length (cp_G ?st)" "gs_name (cp_G ?st ! gi) = lc_name l'" using g l'(1) by simp_all
      show "g_find (cp_G ?st) (lc_name l') = Some gi" if "lc_type l' \<noteq> T_PC" using s(4) that unfolding l' f by simp
    qed
  qed
  ultimately show ?thesis using assms unfolding comp_inv_def by auto
qed

lemma inv_label:
  assumes "comp_inv os D st"
  shows "comp_inv os D (pass2_label i l st)"
proof -
  obtain gi G where e: "g_intern (cp_G st) (ld_name l) T_LD = (gi, G)" by fastforce
  obtain xs where "names G = names (cp_G st) @ xs" by (rule intern_spec [OF e]) blast
  then have "\<exists>xs. names (cp_G (pass2_label i l st)) = names (cp_G st) @ xs"
    by (auto simp: pass2_label_effect [OF e])
  then show ?thesis using assms entered_grows unfolding comp_inv_def pass2_label_effect(2) [OF e] by blast
qed

text \<open>A property that every step keeps holds of the whole pass.\<close>

definition before :: "nat \<times> nat \<Rightarrow> nat \<times> nat \<Rightarrow> bool" where
  "before x y \<longleftrightarrow> fst x < fst y \<or> fst x = fst y \<and> snd x < snd y"

locale pass2_steps =
  fixes os :: "lobj list" and J :: "(nat \<times> nat) set \<Rightarrow> comp \<Rightarrow> bool"
  assumes start: "J {} (pass2_start os)"
    and local_step: "comp_inv os D st \<Longrightarrow> J D st \<Longrightarrow> i < length os \<Longrightarrow> \<forall>x\<in>D. before x (i, j)
      \<Longrightarrow> J (insert (i, j) D) (pass2_local i j st)"
    and label_step: "comp_inv os D st \<Longrightarrow> J D st \<Longrightarrow> i < length os \<Longrightarrow> l \<in> set (lo_ld (os ! i)) \<Longrightarrow> J D (pass2_label i l st)"
begin

lemma locals:
  "comp_inv os D st \<Longrightarrow> J D st \<Longrightarrow> i < length os \<Longrightarrow> sorted_wrt (<) js \<Longrightarrow> \<forall>j\<in>set js. \<forall>x\<in>D. before x (i, j)
    \<Longrightarrow> comp_inv os (D \<union> Pair i ` set js) (fold (pass2_local i) js st) \<and> J (D \<union> Pair i ` set js) (fold (pass2_local i) js st)"
proof (induction js arbitrary: D st)
  case (Cons j js)
  have "comp_inv os (insert (i, j) D) (pass2_local i j st)" "J (insert (i, j) D) (pass2_local i j st)"
    using inv_local [OF Cons.prems(1,3)] local_step [OF Cons.prems(1-3)] Cons.prems(5) by simp_all
  from Cons.IH [OF this Cons.prems(3)] show ?case using Cons.prems by (auto simp: insert_commute before_def)
qed simp

lemma labels:
  "comp_inv os D st \<Longrightarrow> J D st \<Longrightarrow> i < length os \<Longrightarrow> set ls \<subseteq> set (lo_ld (os ! i))
    \<Longrightarrow> comp_inv os D (fold (pass2_label i) ls st) \<and> J D (fold (pass2_label i) ls st)"
  by (induction ls arbitrary: st) (simp_all add: inv_label label_step)

lemma obj_step:
  assumes "comp_inv os D st" "J D st" "i < length os" "\<forall>x\<in>D. fst x < i"
  shows "comp_inv os (D \<union> Pair i ` {1..<MAXESD}) (pass2_obj i st) \<and> J (D \<union> Pair i ` {1..<MAXESD}) (pass2_obj i st)"
proof -
  let ?s = "fold (pass2_local i) [1..<MAXESD] st"
  have l: "comp_inv os (D \<union> Pair i ` {1..<MAXESD}) ?s" "J (D \<union> Pair i ` {1..<MAXESD}) ?s"
    using locals [OF assms(1-3), of "[1..<MAXESD]"] assms(4) by (simp_all add: before_def)
  have "lo_ld (cp_O ?s ! i) = lo_ld (os ! i)" using l(1) assms(3) by (simp add: comp_inv_def same_objs_def)
  then show ?thesis using labels [OF l assms(3), of "lo_ld (cp_O ?s ! i)"] by (simp add: pass2_obj_def Let_def)
qed

lemma all_steps: "comp_inv os ({..<length os} \<times> {1..<MAXESD}) (pass2 os) \<and> J ({..<length os} \<times> {1..<MAXESD}) (pass2 os)"
proof -
  have "n \<le> length os \<Longrightarrow> comp_inv os ({..<n} \<times> {1..<MAXESD}) (fold pass2_obj [0..<n] (pass2_start os))
    \<and> J ({..<n} \<times> {1..<MAXESD}) (fold pass2_obj [0..<n] (pass2_start os))" for n
  proof (induction n)
    case 0
    show ?case using start by (simp add: comp_inv_def same_objs_def pass2_start_def)
  next
    case (Suc n)
    have "{..<n} \<times> {1..<MAXESD} \<union> Pair n ` {1..<MAXESD} = {..<Suc n} \<times> {1..<MAXESD}" by (auto simp: less_Suc_eq)
    then show ?case using Suc obj_step [of "{..<n} \<times> {1..<MAXESD}" _ n] by simp
  qed
  then show ?thesis by (simp add: pass2_def)
qed

end

text \<open>The cases of an entry: one that was there, or a fresh one at the end.\<close>

lemma intern_cases:
  assumes "g_intern G n t = (gi, G')"
  obtains (old) "gi < length G" "length G' = length G" "\<And>k. k \<noteq> gi \<Longrightarrow> k < length G \<Longrightarrow> G' ! k = G ! k"
      "gs_name (G ! gi) = n" "G' ! gi = G ! gi \<or> gs_type (G ! gi) = T_WX \<and> t \<noteq> T_WX \<and> G' ! gi = (G ! gi)\<lparr>gs_type := T_ER\<rparr>"
      "gs_type (G' ! gi) = T_WX \<Longrightarrow> t = T_WX"
  | (fresh) "gi = length G" "length G' = Suc (length G)" "\<And>k. k < length G \<Longrightarrow> G' ! k = G ! k" "\<not> gs_is_sect (G' ! gi)"
      "gs_owner (G' ! gi) = None" "gs_type (G' ! gi) = t"
proof (rule intern_spec [OF assms])
  fix xs
  assume *: "\<And>k. k < length G \<Longrightarrow> G' ! k = G ! k \<or> k = gi \<and> gs_type (G ! k) = T_WX \<and> t \<noteq> T_WX \<and> G' ! k = (G ! k)\<lparr>gs_type := T_ER\<rparr>"
    "gi < length G \<Longrightarrow> gs_name (G ! gi) = n"
    "\<not> gi < length G \<Longrightarrow> gi = length G \<and> length G' = Suc (length G) \<and> gs_type (G' ! gi) = t \<and> \<not> gs_is_sect (G' ! gi) \<and> gs_owner (G' ! gi) = None"
    "gi < length G \<Longrightarrow> length G' = length G" "gs_type (G' ! gi) = T_WX \<Longrightarrow> t = T_WX"
  show thesis
  proof (cases "gi < length G")
    case True
    show ?thesis by (rule old) (use * True in auto)
  next
    case False
    show ?thesis by (rule fresh) (use * False in auto)
  qed
qed

lemma local_entry_cases:
  assumes "local_entry G l = (gi, G')"
  obtains (old) "gi < length G" "length G' = length G" "\<And>k. k \<noteq> gi \<Longrightarrow> k < length G \<Longrightarrow> G' ! k = G ! k" "lc_type l \<noteq> T_PC"
      "gs_name (G ! gi) = lc_name l" "G' ! gi = G ! gi \<or> gs_type (G ! gi) = T_WX \<and> lc_type l \<noteq> T_WX \<and> G' ! gi = (G ! gi)\<lparr>gs_type := T_ER\<rparr>"
      "gs_type (G' ! gi) = T_WX \<Longrightarrow> lc_type l = T_WX"
  | (fresh) "gi = length G" "length G' = Suc (length G)" "\<And>k. k < length G \<Longrightarrow> G' ! k = G ! k" "\<not> gs_is_sect (G' ! gi)"
      "gs_owner (G' ! gi) = None" "lc_type l \<noteq> T_PC \<Longrightarrow> gs_type (G' ! gi) = lc_type l"
proof (cases "lc_type l = T_PC")
  case True
  then have "g_new G (lc_name l) = (gi, G')" using assms by (simp add: local_entry_def)
  from new_spec [OF this] True show ?thesis by (intro fresh) auto
next
  case False
  then have i: "g_intern G (lc_name l) (lc_type l) = (gi, G')" using assms by (simp add: local_entry_def)
  show ?thesis by (cases rule: intern_cases [OF i]) (use old fresh False in blast)+
qed

interpretation refs: pass2_steps os "\<lambda>D st. True" for os
  by unfold_locales simp_all

text \<open>
  C20. References bind by name: whatever order the objects come in, every section, common and reference of every
  object ends up at the first entry of its name in the composite table, so equal names share an entry; a
  private section has an entry of its name too.
\<close>

theorem references_by_name:
  assumes "i < length os" "1 \<le> j" "j < MAXESD" "lo_loc (cp_O (pass2 os) ! i) j = Some l"
  shows "gs_name (cp_G (pass2 os) ! lo_loc_g (cp_O (pass2 os) ! i) j) = lc_name l
    \<and> (lc_type l \<noteq> T_PC \<longrightarrow> g_find (cp_G (pass2 os)) (lc_name l) = Some (lo_loc_g (cp_O (pass2 os) ! i) j))"
  using refs.all_steps [of os] assms by (auto simp: comp_inv_def entered_def Let_def)

subsection \<open>Every hard reference is resolved\<close>

definition decks_typed :: "lobj list \<Rightarrow> bool" where
  "decks_typed os \<longleftrightarrow> (\<forall>ob\<in>set os. \<forall>j l. lo_loc ob j = Some l \<longrightarrow> lc_type l \<in> {T_SD, T_ER, T_PC, T_CM, T_WX})"

definition gs_typed :: "gsym \<Rightarrow> bool" where
  "gs_typed g \<longleftrightarrow> gs_is_sect g \<or> gs_type g \<in> {T_ER, T_WX, T_LR}"

definition hard_refs :: "(nat \<times> nat) set \<Rightarrow> comp \<Rightarrow> bool" where
  "hard_refs D st \<longleftrightarrow> (\<forall>(i, j)\<in>D. \<forall>l. lo_loc (cp_O st ! i) j = Some l \<longrightarrow> lc_type l = T_ER
     \<longrightarrow> gs_type (cp_G st ! lo_loc_g (cp_O st ! i) j) \<noteq> T_WX)"

definition types_inv :: "lobj list \<Rightarrow> (nat \<times> nat) set \<Rightarrow> comp \<Rightarrow> bool" where
  "types_inv os D st \<longleftrightarrow> (decks_typed os \<longrightarrow> list_all gs_typed (cp_G st) \<and> hard_refs D st)"

lemma local_lent:
  assumes "comp_inv os D st" "i < length os" "lo_loc (cp_O st ! i) j = Some l"
  obtains l' where "lo_loc (os ! i) j = Some l'" "lc_name l = lc_name l'" "lc_type l = lc_type l'" "lc_addr l = lc_addr l'" "lc_len l = lc_len l'"
proof -
  have "map_option strip (lo_loc (cp_O st ! i) j) = map_option strip (lo_loc (os ! i) j)"
    using assms(1,2) by (simp add: comp_inv_def same_objs_def)
  then have "map_option strip (lo_loc (os ! i) j) = Some (strip l)" using assms(3) by simp
  then obtain l' where "lo_loc (os ! i) j = Some l'" "strip l' = strip l" by auto
  then show ?thesis using that strip_eqD [of l' l] by simp
qed

lemma local_keeps:
  assumes "comp_inv os D st" "i < length os" "(i', j') \<noteq> (i, j)"
  shows "lo_loc (cp_O (pass2_local i j st) ! i') j' = lo_loc (cp_O st ! i') j'"
    "lo_loc_g (cp_O (pass2_local i j st) ! i') j' = lo_loc_g (cp_O st ! i') j'"
proof -
  have len: "i < length (cp_O st)" using assms(1,2) by (simp add: comp_inv_def same_objs_def)
  have "lo_loc (cp_O (pass2_local i j st) ! i') j' = lo_loc (cp_O st ! i') j' \<and> lo_loc_g (cp_O (pass2_local i j st) ! i') j' = lo_loc_g (cp_O st ! i') j'"
  proof (cases "lo_loc (cp_O st ! i) j")
    case None
    then show ?thesis by (simp add: pass2_local_def)
  next
    case (Some l)
    obtain gi G where e: "local_entry (cp_G st) l = (gi, G)" by fastforce
    show ?thesis using assms(3) len by (cases "i' = i") (auto simp: pass2_local_effect [OF Some e len] Let_def)
  qed
  then show "lo_loc (cp_O (pass2_local i j st) ! i') j' = lo_loc (cp_O st ! i') j'"
    "lo_loc_g (cp_O (pass2_local i j st) ! i') j' = lo_loc_g (cp_O st ! i') j'" by simp_all
qed

lemma local_sym_typed:
  assumes "lc_type l \<in> {T_SD, T_ER, T_PC, T_CM, T_WX}" "gs_typed g \<or> (lc_type l \<noteq> T_PC \<longrightarrow> gs_type g = lc_type l)"
  shows "gs_typed (local_sym i l g)"
  using assms by (auto simp: local_sym_def common_sym_def gs_typed_def is_sect_type_def Let_def)

lemma not_wx_local: "gs_type g \<noteq> T_WX \<Longrightarrow> gs_type (local_sym i l g) \<noteq> T_WX"
  by (auto simp: local_sym_def common_sym_def is_sect_type_def Let_def ld_types)

lemma types_local:
  assumes "comp_inv os D st" "types_inv os D st" "i < length os"
  shows "types_inv os (insert (i, j) D) (pass2_local i j st)"
  unfolding types_inv_def
proof
  assume dt: "decks_typed os"
  then have inv: "list_all gs_typed (cp_G st)" "hard_refs D st" using assms(2) by (simp_all add: types_inv_def)
  have len: "i < length (cp_O st)" using assms(1,3) by (simp add: comp_inv_def same_objs_def)
  let ?st = "pass2_local i j st"
  show "list_all gs_typed (cp_G ?st) \<and> hard_refs (insert (i, j) D) ?st"
  proof (cases "lo_loc (cp_O st ! i) j")
    case None
    then have "?st = st" by (simp add: pass2_local_def)
    then show ?thesis using inv None by (simp add: hard_refs_def)
  next
    case (Some l)
    obtain gi G where e: "local_entry (cp_G st) l = (gi, G)" by fastforce
    note ef = pass2_local_effect [OF Some e len]
    have ty: "lc_type l \<in> {T_SD, T_ER, T_PC, T_CM, T_WX}"
      using local_lent [OF assms(1,3) Some] dt assms(3) unfolding decks_typed_def by (metis nth_mem)
    have G: "gi < length G" "\<And>k. k < length (cp_G st) \<Longrightarrow> k \<noteq> gi \<Longrightarrow> G ! k = cp_G st ! k"
        "\<And>k. k < length G \<Longrightarrow> k < length (cp_G st) \<or> k = gi"
        "gs_typed (G ! gi) \<or> (lc_type l \<noteq> T_PC \<longrightarrow> gs_type (G ! gi) = lc_type l)"
        "gs_type (G ! gi) = T_WX \<Longrightarrow> lc_type l = T_WX \<or> lc_type l = T_PC"
        "gi < length (cp_G st) \<Longrightarrow> gs_type (cp_G st ! gi) \<noteq> T_WX \<Longrightarrow> gs_type (G ! gi) \<noteq> T_WX"
      using local_entry_spec(1) [OF e] inv(1) ty
      by (cases rule: local_entry_cases [OF e]; auto simp: list_all_length gs_typed_def)+
    have "list_all gs_typed (cp_G ?st)"
      unfolding ef(1) list_all_length
    proof (intro allI impI)
      fix k assume "k < length (G[gi := local_sym i l (G ! gi)])"
      then show "gs_typed (G[gi := local_sym i l (G ! gi)] ! k)"
        using G(1) G(2) [of k] G(3) [of k] G(4) local_sym_typed [OF ty, of "G ! gi" i] inv(1) by (cases "k = gi") (auto simp: list_all_length)
    qed
    moreover have "hard_refs (insert (i, j) D) ?st"
      unfolding hard_refs_def
    proof (intro ballI, clarify)
      fix i' j' l' assume x: "(i', j') \<in> insert (i, j) D" "lo_loc (cp_O ?st ! i') j' = Some l'" "lc_type l' = T_ER"
        "gs_type (cp_G ?st ! lo_loc_g (cp_O ?st ! i') j') = T_WX"
      show False
      proof (cases "(i', j') = (i, j)")
        case True
        then have "lc_type l = T_ER" using x(2,3) len Some by (auto simp: ef(2) Let_def ld_types split: if_splits)
        moreover have "gs_type (cp_G ?st ! gi) = T_WX" using x(4) True len by (simp add: ef(2) Let_def split: if_splits)
        ultimately show False using G(1,5) not_wx_local [of "G ! gi" i l] by (auto simp: ef(1) ld_types)
      next
        case False
        then have D: "(i', j') \<in> D" using x(1) by auto
        note k = local_keeps [OF assms(1,3) False]
        let ?k = "lo_loc_g (cp_O st ! i') j'"
        have l': "lo_loc (cp_O st ! i') j' = Some l'" using x(2) k(1) by simp
        have "entered (cp_G st) (cp_O st) (i', j')" using assms(1) D by (simp add: comp_inv_def)
        then have kl: "?k < length (cp_G st)" using l' by (simp add: entered_def Let_def)
        have n: "gs_type (cp_G st ! ?k) \<noteq> T_WX" using inv(2) D l' x(3) unfolding hard_refs_def by fastforce
        have "gs_type (cp_G ?st ! ?k) \<noteq> T_WX"
          using G(1) G(2) [of ?k] G(6) kl n not_wx_local [of "G ! gi" i l] by (cases "?k = gi") (auto simp: ef(1))
        then show False using x(4) k(2) by simp
      qed
    qed
    ultimately show ?thesis ..
  qed
qed

lemma label_sym_type: "gs_type (label_sym ob l g) = T_LR"
  by (simp add: label_sym_def)

text \<open>What a label leaves of an entry that is not its own.\<close>

lemma label_keeps:
  assumes "k < length (cp_G st)"
  shows "cp_G (pass2_label i l st) ! k = cp_G st ! k \<or> gs_name (cp_G st ! k) = ld_name l \<and> gs_type (cp_G (pass2_label i l st) ! k) = T_LR"
proof -
  obtain gi G where e: "g_intern (cp_G st) (ld_name l) T_LD = (gi, G)" by fastforce
  from e show ?thesis
  proof (cases rule: intern_cases)
    case old
    then show ?thesis using assms by (cases "k = gi") (simp_all add: pass2_label_effect [OF e] label_sym_type)
  next
    case fresh
    then show ?thesis using assms by (simp add: pass2_label_effect [OF e])
  qed
qed

lemma label_new:
  assumes "k < length (cp_G (pass2_label i l st))" "\<not> k < length (cp_G st)"
  shows "gs_type (cp_G (pass2_label i l st) ! k) = T_LR"
proof -
  obtain gi G where e: "g_intern (cp_G st) (ld_name l) T_LD = (gi, G)" by fastforce
  from e show ?thesis
  proof (cases rule: intern_cases)
    case old
    then show ?thesis using assms by (simp add: pass2_label_effect [OF e] split: if_splits)
  next
    case fresh
    then have "k = gi" "cp_G (pass2_label i l st) = G[gi := label_sym (cp_O st ! i) l (G ! gi)]" "gi < length G"
      using assms by (auto simp: pass2_label_effect [OF e] split: if_splits)
    then show ?thesis by (simp add: label_sym_type)
  qed
qed

lemma label_objs: "cp_O (pass2_label i l st) = cp_O st"
proof -
  obtain gi G where e: "g_intern (cp_G st) (ld_name l) T_LD = (gi, G)" by fastforce
  show ?thesis by (rule pass2_label_effect(2) [OF e])
qed

lemma types_label:
  assumes "comp_inv os D st" "types_inv os D st"
  shows "types_inv os D (pass2_label i l st)"
  unfolding types_inv_def
proof
  assume "decks_typed os"
  then have inv: "list_all gs_typed (cp_G st)" "hard_refs D st" using assms(2) by (simp_all add: types_inv_def)
  let ?st = "pass2_label i l st"
  have "gs_typed (cp_G ?st ! k)" if "k < length (cp_G ?st)" for k
    using label_keeps [of k st i l] label_new [OF that] inv(1) by (cases "k < length (cp_G st)") (auto simp: list_all_length gs_typed_def)
  moreover have "gs_type (cp_G ?st ! k) \<noteq> T_WX" if "k < length (cp_G st)" "gs_type (cp_G st ! k) \<noteq> T_WX" for k
    using label_keeps [OF that(1), of i l] that(2) by (auto simp: ld_types)
  moreover have "lo_loc_g (cp_O st ! i') j' < length (cp_G st)" if "(i', j') \<in> D" "lo_loc (cp_O st ! i') j' = Some l'" for i' j' l'
  proof -
    have "entered (cp_G st) (cp_O st) (i', j')" using assms(1) that(1) by (simp add: comp_inv_def)
    then show ?thesis using that(2) by (simp add: entered_def Let_def)
  qed
  ultimately show "list_all gs_typed (cp_G ?st) \<and> hard_refs D ?st"
    using inv(2) unfolding hard_refs_def label_objs list_all_length by (fastforce split: prod.splits)
qed

interpretation types: pass2_steps os "types_inv os" for os
  by unfold_locales (simp_all add: types_local types_label, simp add: types_inv_def pass2_start_def hard_refs_def)

text \<open>
  C21. A link that passes the check has every hard reference resolved: the entry of each ER item of each object is a
  section or a label, also where another object made the same name a weak reference first.
\<close>

theorem checked_refs_resolved:
  assumes "decks_typed os" "check_resolved False (pass2 os) = Inr st" "i < length os" "1 \<le> j" "j < MAXESD"
    "lo_loc (cp_O st ! i) j = Some l" "lc_type l = T_ER"
  shows "gs_is_sect (cp_G st ! lo_loc_g (cp_O st ! i) j) \<or> gs_type (cp_G st ! lo_loc_g (cp_O st ! i) j) = T_LR"
proof -
  have st: "st = pass2 os" "unresolved (cp_G st) = []"
    using assms(2) by (auto simp: check_resolved_def Let_def split: if_splits)
  let ?k = "lo_loc_g (cp_O st ! i) j"
  note inv = types.all_steps [of os, folded st(1)]
  have "entered (cp_G st) (cp_O st) (i, j)" "hard_refs ({..<length os} \<times> {1..<MAXESD}) st" "list_all gs_typed (cp_G st)"
    using inv assms(1,3-5) by (simp_all add: comp_inv_def types_inv_def)
  then have k: "?k < length (cp_G st)" "gs_type (cp_G st ! ?k) \<noteq> T_WX" "gs_typed (cp_G st ! ?k)"
    using assms(3-7) by (auto simp: entered_def hard_refs_def Let_def list_all_length)
  then have "cp_G st ! ?k \<in> set (cp_G st)" by simp
  then have "\<not> (\<not> gs_is_sect (cp_G st ! ?k) \<and> gs_type (cp_G st ! ?k) = T_ER)"
    using st(2) unfolding unresolved_def filter_empty_conv by blast
  then show ?thesis using k by (auto simp: gs_typed_def)
qed

subsection \<open>Sections\<close>

text \<open>
  Decks whose names do not collide: no label has the name of a section, and private code shares its (blank) name
  with no named section or common. As read, no section is dropped.
\<close>

definition names_clear :: "lobj list \<Rightarrow> bool" where
  "names_clear os \<longleftrightarrow> (\<forall>ob\<in>set os. \<forall>j l. lo_loc ob j = Some l \<longrightarrow> \<not> lc_dropped l \<and> (\<forall>ob'\<in>set os.
     (lc_type l = T_PC \<longrightarrow> (\<forall>j' l'. lo_loc ob' j' = Some l' \<longrightarrow> lc_type l' = T_SD \<or> lc_type l' = T_CM \<longrightarrow> lc_name l' \<noteq> lc_name l))
     \<and> (is_sect_type (lc_type l) \<longrightarrow> (\<forall>e\<in>set (lo_ld ob'). ld_name e \<noteq> lc_name l))))"

definition holds_sect :: "gsym \<Rightarrow> nat \<Rightarrow> lent \<Rightarrow> bool" where
  "holds_sect g i l \<longleftrightarrow> gs_is_sect g \<and> gs_type g = lc_type l \<and> gs_len g = lc_len l \<and> gs_def_obj g = Some i \<and> gs_in_addr g = int (lc_addr l)"

definition kept :: "comp \<Rightarrow> nat \<times> nat \<Rightarrow> lent \<Rightarrow> bool" where
  "kept st x l \<longleftrightarrow> lo_loc (cp_O st ! fst x) (snd x) = Some l \<and> is_obj_sect (lc_type l) \<and> \<not> lc_dropped l"

definition gof :: "comp \<Rightarrow> nat \<times> nat \<Rightarrow> nat" where
  "gof st x = lo_loc_g (cp_O st ! fst x) (snd x)"

text \<open>A local entry, not dropped, that made table entry \<open>k\<close> the section it is.\<close>

definition made_by :: "comp \<Rightarrow> (nat \<times> nat) set \<Rightarrow> nat \<Rightarrow> bool" where
  "made_by st D k \<longleftrightarrow> (\<exists>x\<in>D. \<exists>l. lo_loc (cp_O st ! fst x) (snd x) = Some l \<and> \<not> lc_dropped l \<and> is_sect_type (lc_type l)
     \<and> lc_type l = gs_type (cp_G st ! k) \<and> gof st x = k)"

definition sects_ok :: "lobj list \<Rightarrow> (nat \<times> nat) set \<Rightarrow> comp \<Rightarrow> bool" where
  "sects_ok os D st \<longleftrightarrow>
     (\<forall>i j. i < length os \<longrightarrow> (i, j) \<notin> D \<longrightarrow> lo_loc (cp_O st ! i) j = lo_loc (os ! i) j)
   \<and> (\<forall>x\<in>D. \<forall>l. kept st x l \<longrightarrow> holds_sect (cp_G st ! gof st x) (fst x) l)
   \<and> (\<forall>x\<in>D. \<forall>y\<in>D. \<forall>l l'. kept st x l \<longrightarrow> kept st y l' \<longrightarrow> gof st x = gof st y \<longrightarrow> x = y)
   \<and> (\<forall>x\<in>D. \<forall>l. lo_loc (cp_O st ! fst x) (snd x) = Some l \<longrightarrow> lc_dropped l \<longrightarrow> lc_type l = T_SD \<and>
        (\<exists>y\<in>D. \<exists>l'. before y x \<and> kept st y l' \<and> lc_type l' = T_SD \<and> gof st y = gof st x))
   \<and> (\<forall>k<length (cp_G st). gs_is_sect (cp_G st ! k) \<longrightarrow> made_by st D k)"

definition sects_inv :: "lobj list \<Rightarrow> (nat \<times> nat) set \<Rightarrow> comp \<Rightarrow> bool" where
  "sects_inv os D st \<longleftrightarrow> (names_clear os \<longrightarrow> sects_ok os D st)"

lemma made_byE:
  assumes "made_by st D k"
  obtains x l where "x \<in> D" "lo_loc (cp_O st ! fst x) (snd x) = Some l" "\<not> lc_dropped l" "is_sect_type (lc_type l)"
    "lc_type l = gs_type (cp_G st ! k)" "gof st x = k"
  using assms unfolding made_by_def by blast

lemma entered_gof:
  assumes "comp_inv os D st" "x \<in> D" "lo_loc (cp_O st ! fst x) (snd x) = Some l"
  shows "gof st x < length (cp_G st)" "gs_name (cp_G st ! gof st x) = lc_name l" "fst x < length os"
proof -
  have "fst x < length os \<and> entered (cp_G st) (cp_O st) x" using assms(1,2) by (simp add: comp_inv_def)
  then show "gof st x < length (cp_G st)" "gs_name (cp_G st ! gof st x) = lc_name l" "fst x < length os"
    using assms(3) by (simp_all add: entered_def case_prod_beta Let_def gof_def)
qed

text \<open>Names keep private code apart from named sections, and sections from labels.\<close>

lemma clear_pc:
  assumes "names_clear os" "comp_inv os D st" "i < length os" "i' < length os"
    "lo_loc (cp_O st ! i) j = Some l" "lo_loc (cp_O st ! i') j' = Some l'" "lc_name l = lc_name l'" "lc_type l = T_PC"
  shows "lc_type l' \<noteq> T_SD \<and> lc_type l' \<noteq> T_CM"
proof -
  obtain m where m: "lo_loc (os ! i) j = Some m" "lc_name l = lc_name m" "lc_type l = lc_type m"
    by (rule local_lent [OF assms(2,3,5)])
  obtain m' where m': "lo_loc (os ! i') j' = Some m'" "lc_name l' = lc_name m'" "lc_type l' = lc_type m'"
    by (rule local_lent [OF assms(2,4,6)])
  have "os ! i \<in> set os" "os ! i' \<in> set os" using assms(3,4) by simp_all
  then show ?thesis using assms(1,7,8) m m' unfolding names_clear_def by metis
qed

lemma clear_label:
  assumes "names_clear os" "comp_inv os D st" "i < length os" "i' < length os"
    "lo_loc (cp_O st ! i) j = Some l" "is_sect_type (lc_type l)" "e \<in> set (lo_ld (os ! i'))"
  shows "ld_name e \<noteq> lc_name l"
proof -
  obtain m where m: "lo_loc (os ! i) j = Some m" "lc_name l = lc_name m" "lc_type l = lc_type m"
    by (rule local_lent [OF assms(2,3,5)])
  have "os ! i \<in> set os" "os ! i' \<in> set os" using assms(3,4) by simp_all
  then show ?thesis using assms(1,6,7) m unfolding names_clear_def by metis
qed

lemma sects_label:
  assumes "comp_inv os D st" "sects_inv os D st" "i < length os" "l \<in> set (lo_ld (os ! i))"
  shows "sects_inv os D (pass2_label i l st)"
  unfolding sects_inv_def
proof
  assume nc: "names_clear os"
  then have ok: "sects_ok os D st" using assms(2) by (simp add: sects_inv_def)
  let ?st = "pass2_label i l st"
  have O: "cp_O ?st = cp_O st" by (rule label_objs)
  have keep: "cp_G ?st ! gof st x = cp_G st ! gof st x"
    if "x \<in> D" "lo_loc (cp_O st ! fst x) (snd x) = Some l'" "is_sect_type (lc_type l')" for x l'
    using label_keeps [OF entered_gof(1) [OF assms(1) that(1,2)], of i l] entered_gof(2,3) [OF assms(1) that(1,2)]
      clear_label [OF nc assms(1) _ assms(3) that(2,3) assms(4)] by auto
  have sect: "gs_is_sect (cp_G st ! k)" "k < length (cp_G st)" if "k < length (cp_G ?st)" "gs_is_sect (cp_G ?st ! k)" for k
  proof -
    obtain gi G where e: "g_intern (cp_G st) (ld_name l) T_LD = (gi, G)" by fastforce
    have iss: "gs_is_sect (label_sym ob l g) = gs_is_sect g" for ob g by (simp add: label_sym_def)
    from e have "gs_is_sect (cp_G st ! k) \<and> k < length (cp_G st)"
    proof (cases rule: intern_cases)
      case old
      then show ?thesis using that by (cases "k = gi") (auto simp: pass2_label_effect [OF e] iss split: if_splits)
    next
      case fresh
      then show ?thesis using that
        by (cases "k = gi") (auto simp: pass2_label_effect [OF e] iss less_Suc_eq split: if_splits)
    qed
    then show "gs_is_sect (cp_G st ! k)" "k < length (cp_G st)" by simp_all
  qed
  have k: "kept ?st x l' \<longleftrightarrow> kept st x l'" "gof ?st x = gof st x" for x l' by (simp_all add: kept_def gof_def O)
  have st: "is_sect_type (lc_type l')" if "kept st x l'" for x l' using that by (auto simp: kept_def is_obj_sect_def is_sect_type_def)
  show "sects_ok os D ?st"
    unfolding sects_ok_def k O
  proof (intro conjI)
    show "\<forall>i j. i < length os \<longrightarrow> (i, j) \<notin> D \<longrightarrow> lo_loc (cp_O st ! i) j = lo_loc (os ! i) j"
      using ok by (simp add: sects_ok_def)
    show "\<forall>x\<in>D. \<forall>l. kept st x l \<longrightarrow> holds_sect (cp_G ?st ! gof st x) (fst x) l"
      using ok keep st unfolding sects_ok_def kept_def by metis
    show "\<forall>x\<in>D. \<forall>y\<in>D. \<forall>l l'. kept st x l \<longrightarrow> kept st y l' \<longrightarrow> gof st x = gof st y \<longrightarrow> x = y"
      using ok unfolding sects_ok_def by (elim conjE) assumption
    show "\<forall>x\<in>D. \<forall>l. lo_loc (cp_O st ! fst x) (snd x) = Some l \<longrightarrow> lc_dropped l \<longrightarrow> lc_type l = T_SD \<and>
        (\<exists>y\<in>D. \<exists>l'. before y x \<and> kept st y l' \<and> lc_type l' = T_SD \<and> gof st y = gof st x)"
      using ok unfolding sects_ok_def by (elim conjE) assumption
    show "\<forall>k<length (cp_G ?st). gs_is_sect (cp_G ?st ! k) \<longrightarrow> made_by ?st D k"
    proof (intro allI impI)
      fix k' assume "k' < length (cp_G ?st)" "gs_is_sect (cp_G ?st ! k')"
      from sect [OF this] have "made_by st D k'" using ok by (simp add: sects_ok_def)
      then show "made_by ?st D k'"
        by (rule made_byE) (use keep in \<open>force simp: made_by_def k O\<close>)
    qed
  qed
qed

lemma sects_okD:
  assumes "sects_ok os D st"
  shows "i < length os \<Longrightarrow> (i, j) \<notin> D \<Longrightarrow> lo_loc (cp_O st ! i) j = lo_loc (os ! i) j"
    "x \<in> D \<Longrightarrow> kept st x l \<Longrightarrow> holds_sect (cp_G st ! gof st x) (fst x) l"
    "x \<in> D \<Longrightarrow> y \<in> D \<Longrightarrow> kept st x l \<Longrightarrow> kept st y l' \<Longrightarrow> gof st x = gof st y \<Longrightarrow> x = y"
    "k < length (cp_G st) \<Longrightarrow> gs_is_sect (cp_G st ! k) \<Longrightarrow> made_by st D k"
    "x \<in> D \<Longrightarrow> lo_loc (cp_O st ! fst x) (snd x) = Some l \<Longrightarrow> lc_dropped l \<Longrightarrow> lc_type l = T_SD \<and>
        (\<exists>y\<in>D. \<exists>l'. before y x \<and> kept st y l' \<and> lc_type l' = T_SD \<and> gof st y = gof st x)"
  using assms unfolding sects_ok_def by (elim conjE; blast)+

text \<open>One local entry, seen from the sections entered before it.\<close>

lemma sect_kept_old:
  assumes "sects_ok os D st" "x \<in> D" "kept st x l"
  shows "gs_is_sect (cp_G st ! gof st x)" "gs_type (cp_G st ! gof st x) = lc_type l" "is_sect_type (lc_type l)"
  using assms by (auto simp: sects_ok_def holds_sect_def kept_def is_obj_sect_def is_sect_type_def)

lemma entry_keeps_sect:
  assumes "sects_ok os D st" "local_entry (cp_G st) l = (gi, G)"
  shows "k < length (cp_G st) \<Longrightarrow> gs_is_sect (cp_G st ! k) \<Longrightarrow> G ! k = cp_G st ! k"
    "gs_is_sect (G ! gi) \<Longrightarrow> gi < length (cp_G st) \<and> gs_is_sect (cp_G st ! gi)"
proof -
  have "gs_type (cp_G st ! k) \<noteq> T_WX" if "k < length (cp_G st)" "gs_is_sect (cp_G st ! k)" for k
  proof -
    have "made_by st D k" using assms(1) that by (simp add: sects_ok_def)
    then show ?thesis by (rule made_byE) (auto simp: is_sect_type_def ld_types)
  qed
  with assms(2) show "k < length (cp_G st) \<Longrightarrow> gs_is_sect (cp_G st ! k) \<Longrightarrow> G ! k = cp_G st ! k"
    by (cases rule: local_entry_cases) (cases "k = gi"; auto)+
  from assms(2) show "gs_is_sect (G ! gi) \<Longrightarrow> gi < length (cp_G st) \<and> gs_is_sect (cp_G st ! gi)"
    by (cases rule: local_entry_cases) auto
qed

lemma local_sym_keeps:
  assumes "gs_is_sect g" "gs_type g = T_SD \<or> gs_type g = T_PC \<and> lc_type l \<noteq> T_SD \<and> lc_type l \<noteq> T_CM" "lc_type l \<noteq> T_PC"
  shows "local_sym i l g = g"
  using assms by (auto simp: local_sym_def common_sym_def is_sect_type_def)

lemma sects_keepG:
  assumes "names_clear os" "comp_inv os D st" "sects_ok os D st" "i < length os" "lo_loc (cp_O st ! i) j = Some l"
    "local_entry (cp_G st) l = (gi, G)" "x \<in> D" "kept st x l'"
  shows "cp_G (pass2_local i j st) ! gof st x = cp_G st ! gof st x"
    "gof st x = gi \<Longrightarrow> lc_type l \<noteq> T_PC \<and> (lc_type l' = T_PC \<longrightarrow> lc_type l \<noteq> T_SD \<and> lc_type l \<noteq> T_CM)"
proof -
  have len: "i < length (cp_O st)" using assms(2,4) by (simp add: comp_inv_def same_objs_def)
  have x: "lo_loc (cp_O st ! fst x) (snd x) = Some l'" using assms(8) by (simp add: kept_def)
  note en = entered_gof [OF assms(2,7) x] and sk = sect_kept_old [OF assms(3,7,8)]
  have G: "G ! gof st x = cp_G st ! gof st x" by (rule entry_keeps_sect(1) [OF assms(3,6) en(1) sk(1)])
  show same: "lc_type l \<noteq> T_PC \<and> (lc_type l' = T_PC \<longrightarrow> lc_type l \<noteq> T_SD \<and> lc_type l \<noteq> T_CM)" if "gof st x = gi"
  proof -
    from assms(6) have "lc_type l \<noteq> T_PC \<and> lc_name l' = lc_name l"
      by (cases rule: local_entry_cases) (use en that in auto)
    then show ?thesis using clear_pc [OF assms(1,2) en(3) assms(4) x assms(5)] by auto
  qed
  show "cp_G (pass2_local i j st) ! gof st x = cp_G st ! gof st x"
  proof (cases "gof st x = gi")
    case True
    have "lc_type l' = T_SD \<or> lc_type l' = T_PC" using assms(8) by (simp add: kept_def is_obj_sect_def)
    then have "local_sym i l (G ! gi) = G ! gi"
      using same [OF True] sk(1,2) G True by (intro local_sym_keeps) auto
    then show ?thesis using G True local_entry_spec(1) [OF assms(6)] by (simp add: pass2_local_effect [OF assms(5,6) len])
  next
    case False
    then show ?thesis using G by (simp add: pass2_local_effect [OF assms(5,6) len])
  qed
qed

lemma sects_local_some:
  assumes nc: "names_clear os" and ci: "comp_inv os D st" and ok: "sects_ok os D st" and i: "i < length os"
    and bef: "\<forall>x\<in>D. before x (i, j)" and l: "lo_loc (cp_O st ! i) j = Some l"
  shows "sects_ok os (insert (i, j) D) (pass2_local i j st)"
proof -
  let ?st = "pass2_local i j st"
  have len: "i < length (cp_O st)" using ci i by (simp add: comp_inv_def same_objs_def)
  have new: "(i, j) \<notin> D" using bef by (auto simp: before_def)
  have nd: "\<not> lc_dropped l"
  proof -
    have "lo_loc (os ! i) j = Some l" using ok new i l by (simp add: sects_ok_def)
    then show ?thesis using nc i nth_mem [of i os] unfolding names_clear_def by blast
  qed
  obtain gi G where e: "local_entry (cp_G st) l = (gi, G)" by fastforce
  note ef = pass2_local_effect [OF l e len] and keep = sects_keepG [OF nc ci ok i l e]
  define drop where "drop = (lc_type l = T_SD \<and> gs_is_sect (G ! gi) \<and> gs_type (G ! gi) = T_SD)"
  have old: "lo_loc (cp_O ?st ! fst x) (snd x) = lo_loc (cp_O st ! fst x) (snd x)" "gof ?st x = gof st x"
    "kept ?st x l' \<longleftrightarrow> kept st x l'" if "x \<in> D" for x l'
  proof -
    have "(fst x, snd x) \<noteq> (i, j)" using that new by auto
    note k = local_keeps [OF ci i this]
    show "lo_loc (cp_O ?st ! fst x) (snd x) = lo_loc (cp_O st ! fst x) (snd x)" "gof ?st x = gof st x"
      "kept ?st x l' \<longleftrightarrow> kept st x l'" by (simp_all add: kept_def gof_def k)
  qed
  have here: "gof ?st (i, j) = gi" "lo_loc (cp_O ?st ! i) j = Some (if drop then l\<lparr>lc_dropped := True\<rparr> else l)"
    using len l by (simp_all add: gof_def ef(2) Let_def drop_def)
  then have kh: "kept ?st (i, j) l' \<longleftrightarrow> l' = l \<and> is_obj_sect (lc_type l) \<and> \<not> drop" for l'
    using nd by (auto simp: kept_def)
  have gl: "gi < length G" by (rule local_entry_spec(1) [OF e])
  have made: "made_by ?st (insert (i, j) D) k" if "made_by st D k" "gs_type (cp_G ?st ! k) = gs_type (cp_G st ! k)" for k
    using that(1) by (rule made_byE) (use old that(2) in \<open>force simp: made_by_def\<close>)
  have oldk: "cp_G ?st ! gi = G ! gi \<Longrightarrow> gs_is_sect (G ! gi) \<Longrightarrow> made_by ?st (insert (i, j) D) gi"
  proof -
    assume a: "cp_G ?st ! gi = G ! gi" "gs_is_sect (G ! gi)"
    then have c: "gi < length (cp_G st)" "gs_is_sect (cp_G st ! gi)" using entry_keeps_sect(2) [OF ok e] by blast+
    show "made_by ?st (insert (i, j) D) gi"
      by (rule made [OF sects_okD(4) [OF ok c]]) (use entry_keeps_sect(1) [OF ok e c] a(1) in simp)
  qed
  show ?thesis
    unfolding sects_ok_def
  proof (intro conjI)
    show "\<forall>i' j'. i' < length os \<longrightarrow> (i', j') \<notin> insert (i, j) D \<longrightarrow> lo_loc (cp_O ?st ! i') j' = lo_loc (os ! i') j'"
    proof (intro allI impI)
      fix i' j' assume x: "i' < length os" "(i', j') \<notin> insert (i, j) D"
      then have "(i', j') \<noteq> (i, j)" "(i', j') \<notin> D" by auto
      then show "lo_loc (cp_O ?st ! i') j' = lo_loc (os ! i') j'"
        using local_keeps(1) [OF ci i, of i' j' j] sects_okD(1) [OF ok x(1), of j'] by simp
    qed
    show "\<forall>x\<in>insert (i, j) D. \<forall>l. kept ?st x l \<longrightarrow> holds_sect (cp_G ?st ! gof ?st x) (fst x) l"
    proof (intro ballI allI impI)
      fix x l' assume x: "x \<in> insert (i, j) D" "kept ?st x l'"
      show "holds_sect (cp_G ?st ! gof ?st x) (fst x) l'"
      proof (cases "x = (i, j)")
        case True
        then have "l' = l" "is_obj_sect (lc_type l)" "\<not> drop" using x(2) kh by auto
        then show ?thesis using gl True
          by (auto simp: here ef(1) local_sym_def drop_def holds_sect_def is_obj_sect_def is_sect_type_def ld_types)
      next
        case False
        then show ?thesis using x old keep(1) ok unfolding sects_ok_def by auto
      qed
    qed
    have clash: False if "y \<in> D" "kept st y l'" "gof st y = gi" "is_obj_sect (lc_type l)" "\<not> drop" for y l'
    proof -
      note k = keep(2) [OF that(1-3)] and sk = sect_kept_old [OF ok that(1,2)]
      have "gof st y < length (cp_G st)" using entered_gof(1) [OF ci that(1)] that(2) by (simp add: kept_def)
      then have "G ! gi = cp_G st ! gi" using entry_keeps_sect(1) [OF ok e] sk(1) that(3) by simp
      then show False using k sk that by (auto simp: is_obj_sect_def drop_def kept_def)
    qed
    show "\<forall>x\<in>insert (i, j) D. \<forall>y\<in>insert (i, j) D. \<forall>l l'. kept ?st x l \<longrightarrow> kept ?st y l' \<longrightarrow> gof ?st x = gof ?st y \<longrightarrow> x = y"
    proof (intro ballI allI impI)
      fix x y m m' assume a: "x \<in> insert (i, j) D" "y \<in> insert (i, j) D" "kept ?st x m" "kept ?st y m'" "gof ?st x = gof ?st y"
      have inD: "x = y" if "x \<in> D" "y \<in> D" using sects_okD(3) [OF ok that, of m m'] a(3-5) old that by simp
      show "x = y" using a inD clash [of y m'] clash [of x m] old kh here(1) by (cases "x = (i, j)"; cases "y = (i, j)") auto
    qed
    show "\<forall>x\<in>insert (i, j) D. \<forall>l. lo_loc (cp_O ?st ! fst x) (snd x) = Some l \<longrightarrow> lc_dropped l \<longrightarrow> lc_type l = T_SD \<and>
        (\<exists>y\<in>insert (i, j) D. \<exists>l'. before y x \<and> kept ?st y l' \<and> lc_type l' = T_SD \<and> gof ?st y = gof ?st x)"
    proof (intro ballI allI impI)
      fix x m assume x: "x \<in> insert (i, j) D" "lo_loc (cp_O ?st ! fst x) (snd x) = Some m" "lc_dropped m"
      have ex: "\<exists>y\<in>D. \<exists>l'. before y x \<and> kept st y l' \<and> lc_type l' = T_SD \<and> gof st y = gof ?st x" and ty: "lc_type m = T_SD"
      proof -
        have "lc_type m = T_SD \<and> (\<exists>y\<in>D. \<exists>l'. before y x \<and> kept st y l' \<and> lc_type l' = T_SD \<and> gof st y = gof ?st x)"
        proof (cases "x = (i, j)")
          case True
          then have d: drop "m = l\<lparr>lc_dropped := True\<rparr>" using x(2,3) here(2) nd by (auto split: if_splits)
          then have g: "gi < length (cp_G st)" "gs_is_sect (cp_G st ! gi)" "G ! gi = cp_G st ! gi"
            using entry_keeps_sect [OF ok e] by (auto simp: drop_def)
          then have "made_by st D gi" using ok by (simp add: sects_ok_def)
          then show ?thesis
            by (rule made_byE) (use d g True bef here(1) in \<open>auto simp: drop_def kept_def is_obj_sect_def\<close>)
        next
          case False
          then have "x \<in> D" using x(1) by simp
          then show ?thesis using ok x(2,3) old unfolding sects_ok_def by simp
        qed
        then show "\<exists>y\<in>D. \<exists>l'. before y x \<and> kept st y l' \<and> lc_type l' = T_SD \<and> gof st y = gof ?st x" "lc_type m = T_SD" by blast+
      qed
      from ex obtain y l' where y: "y \<in> D" "before y x" "kept st y l'" "lc_type l' = T_SD" "gof st y = gof ?st x" by blast
      then have "kept ?st y l'" "gof ?st y = gof ?st x" using old [OF y(1)] by simp_all
      then show "lc_type m = T_SD \<and> (\<exists>y\<in>insert (i, j) D. \<exists>l'. before y x \<and> kept ?st y l' \<and> lc_type l' = T_SD \<and> gof ?st y = gof ?st x)"
        using y(1,2,4) ty by blast
    qed
    show "\<forall>k<length (cp_G ?st). gs_is_sect (cp_G ?st ! k) \<longrightarrow> made_by ?st (insert (i, j) D) k"
    proof (intro allI impI)
      fix k assume k: "k < length (cp_G ?st)" "gs_is_sect (cp_G ?st ! k)"
      show "made_by ?st (insert (i, j) D) k"
      proof (cases "k = gi")
        case True
        have g: "cp_G ?st ! gi = local_sym i l (G ! gi)" using gl by (simp add: ef(1))
        show ?thesis
        proof (cases "local_sym i l (G ! gi) = G ! gi")
          case same: True
          then show ?thesis using oldk g k(2) True by simp
        next
          case False
          then have "is_sect_type (lc_type l)" "\<not> drop" "gs_type (local_sym i l (G ! gi)) = lc_type l"
            by (auto simp: local_sym_def common_sym_def drop_def is_sect_type_def Let_def split: if_splits)
          then show ?thesis using True here g nd unfolding made_by_def by auto
        qed
      next
        case False
        from e have "k < length (cp_G st) \<and> G ! k = cp_G st ! k"
          by (cases rule: local_entry_cases) (use False k(1) in \<open>auto simp: ef(1)\<close>)
        then have kk: "k < length (cp_G st)" "G ! k = cp_G st ! k" "cp_G ?st ! k = G ! k" using False by (simp_all add: ef(1))
        then have "made_by st D k" using ok k(2) by (simp add: sects_ok_def)
        then show ?thesis using made kk by simp
      qed
    qed
  qed
qed

lemma sects_local:
  assumes "comp_inv os D st" "sects_inv os D st" "i < length os" "\<forall>x\<in>D. before x (i, j)"
  shows "sects_inv os (insert (i, j) D) (pass2_local i j st)"
proof (cases "lo_loc (cp_O st ! i) j")
  case None
  then have st: "pass2_local i j st = st" by (simp add: pass2_local_def)
  have "sects_ok os (insert (i, j) D) st" if "sects_ok os D st"
    using that None unfolding sects_ok_def made_by_def kept_def by auto
  then show ?thesis using assms(2) unfolding st sects_inv_def by blast
next
  case (Some l)
  then show ?thesis using assms sects_local_some unfolding sects_inv_def by blast
qed

interpretation sects: pass2_steps os "sects_inv os" for os
  by unfold_locales (simp_all add: sects_local sects_label, simp add: sects_inv_def sects_ok_def pass2_start_def)


subsection \<open>Small decks\<close>

lemma fold_idle: "(\<And>j. j \<in> set js \<Longrightarrow> f j s = s) \<Longrightarrow> fold f js s = s"
  by (induction js) simp_all

lemma upt_slots: "1 \<le> n \<Longrightarrow> n \<le> MAXESD \<Longrightarrow> [1..<MAXESD] = [1..<n] @ [n..<MAXESD]"
  using upt_add_eq_append [of 1 n "MAXESD - n"] by simp

text \<open>Decks with no ids from \<open>n\<close> up: the loops over the slots may stop there.\<close>

definition ids_below :: "nat \<Rightarrow> lobj list \<Rightarrow> bool" where
  "ids_below n os \<longleftrightarrow> (\<forall>i<length os. \<forall>j\<ge>n. lo_loc (os ! i) j = None)"

definition pass2_below :: "nat \<Rightarrow> lobj list \<Rightarrow> comp" where
  "pass2_below n os = fold (\<lambda>i st. let st = fold (pass2_local i) [1..<n] st in fold (pass2_label i) (lo_ld (cp_O st ! i)) st)
     [0..<length os] (pass2_start os)"

lemma local_other:
  "(i', j') \<noteq> (i, j) \<Longrightarrow> lo_loc (cp_O (pass2_local i j st) ! i') j' = lo_loc (cp_O st ! i') j'"
  "length (cp_O (pass2_local i j st)) = length (cp_O st)"
proof -
  show len: "length (cp_O (pass2_local i j st)) = length (cp_O st)"
    by (simp add: pass2_local_def upd_obj_def common_G enter_sect_def common_too_long_def Let_def split: option.split prod.split)
  show "lo_loc (cp_O (pass2_local i j st) ! i') j' = lo_loc (cp_O st ! i') j'" if "(i', j') \<noteq> (i, j)"
  proof (cases "lo_loc (cp_O st ! i) j")
    case (Some l)
    obtain gi G where e: "local_entry (cp_G st) l = (gi, G)" by fastforce
    show ?thesis
    proof (cases "i < length (cp_O st)")
      case True
      then show ?thesis using that by (cases "i' = i") (auto simp: pass2_local_effect [OF Some e True] Let_def)
    next
      case False
      then show ?thesis by (simp add: pass2_local_def upd_obj_def common_G enter_sect_def common_too_long_def Let_def list_update_beyond split: option.split prod.split)
    qed
  qed (simp add: pass2_local_def)
qed

lemma ids_below_local: "ids_below n (cp_O st) \<Longrightarrow> j < n \<Longrightarrow> ids_below n (cp_O (pass2_local i j st))"
  unfolding ids_below_def using local_other by (metis linorder_not_le prod.inject)

lemma ids_below_fold:
  "ids_below n (cp_O st) \<Longrightarrow> \<forall>j\<in>set js. j < n \<Longrightarrow> ids_below n (cp_O (fold (pass2_local i) js st))"
  "ids_below n (cp_O st) \<Longrightarrow> ids_below n (cp_O (fold (pass2_label i) ls st))"
  by (induction js arbitrary: st) (simp_all add: ids_below_local, induction ls arbitrary: st, simp_all add: label_objs)

lemma locals_below:
  assumes "ids_below n (cp_O st)" "1 \<le> n" "n \<le> MAXESD" "i < length (cp_O st)"
  shows "fold (pass2_local i) [1..<MAXESD] st = fold (pass2_local i) [1..<n] st"
proof -
  let ?st = "fold (pass2_local i) [1..<n] st"
  have "length (cp_O (fold (pass2_local i) js st)) = length (cp_O st)" for js
    by (induction js arbitrary: st) (simp_all add: local_other(2))
  then have "lo_loc (cp_O ?st ! i) j = None" if "n \<le> j" for j
    using ids_below_fold(1) [OF assms(1), of "[1..<n]" i] assms(4) that unfolding ids_below_def by simp
  then have "fold (pass2_local i) [n..<MAXESD] ?st = ?st" by (intro fold_idle) (simp add: pass2_local_def)
  then show ?thesis unfolding upt_slots [OF assms(2,3)] by simp
qed

lemma pass2_stops:
  assumes "ids_below n os" "1 \<le> n" "n \<le> MAXESD"
  shows "pass2 os = pass2_below n os"
proof -
  have "m \<le> length os \<Longrightarrow> fold pass2_obj [0..<m] (pass2_start os) = fold (\<lambda>i st. let st = fold (pass2_local i) [1..<n] st in fold (pass2_label i) (lo_ld (cp_O st ! i)) st)
     [0..<m] (pass2_start os) \<and> ids_below n (cp_O (fold pass2_obj [0..<m] (pass2_start os))) \<and> length (cp_O (fold pass2_obj [0..<m] (pass2_start os))) = length os" for m
  proof (induction m)
    case 0
    then show ?case using assms(1) by (simp add: pass2_start_def)
  next
    case (Suc m)
    let ?s = "fold pass2_obj [0..<m] (pass2_start os)"
    note ih = Suc.IH [OF Suc_leD [OF Suc.prems]]
    have h: "ids_below n (cp_O ?s)" "length (cp_O ?s) = length os" using ih by blast+
    have e: "pass2_obj m ?s = (let st = fold (pass2_local m) [1..<n] ?s in fold (pass2_label m) (lo_ld (cp_O st ! m)) st)"
      using locals_below [OF h(1) assms(2,3), of m] h(2) Suc.prems by (simp add: pass2_obj_def [of m])
    have "length (cp_O (fold (pass2_local i) js st)) = length (cp_O st)" "length (cp_O (fold (pass2_label i) ls st)) = length (cp_O st)" for i js ls st
      by (induction js arbitrary: st, simp_all add: local_other(2), induction ls arbitrary: st, simp_all add: label_objs)
    moreover have "ids_below n (cp_O (pass2_obj m ?s))"
      unfolding e Let_def by (intro ids_below_fold h) simp
    ultimately have "ids_below n (cp_O (pass2_obj m ?s)) \<and> length (cp_O (pass2_obj m ?s)) = length os" using h(2) by (simp add: e Let_def)
    moreover have "fold pass2_obj [0..<Suc m] (pass2_start os) = pass2_obj m ?s" by simp
    ultimately show ?case using conjunct1 [OF ih] e by simp
  qed
  then show ?thesis by (simp add: pass2_def pass2_below_def)
qed

definition ex_lent :: "bytes \<Rightarrow> nat \<Rightarrow> nat \<Rightarrow> nat \<Rightarrow> lent" where
  "ex_lent n t a len = \<lparr>lc_name = n, lc_type = t, lc_addr = a, lc_len = len, lc_dropped = False, lc_newaddr = a\<rparr>"

definition ex_decks :: "lobj list" where
  "ex_decks = [lobj_init\<lparr>lo_loc := [1 \<mapsto> ex_lent [1] T_SD 0 10, 2 \<mapsto> ex_lent [2] T_ER 0 0]\<rparr>,
     lobj_init\<lparr>lo_loc := [1 \<mapsto> ex_lent [2] T_SD 0 6, 2 \<mapsto> ex_lent [3] T_SD 8 4, 3 \<mapsto> ex_lent [4] T_CM 0 3],
       lo_ld := [\<lparr>ld_name = [5], ld_addr = 10, ld_owner_local = 2\<rparr>]\<rparr>]"

lemma ex_below: "ids_below 5 ex_decks"
  by (auto simp: ids_below_def ex_decks_def lobj_init_def less_Suc_eq)

lemma ex_stops: "pass2 ex_decks = pass2_below 5 ex_decks"
  by (rule pass2_stops [OF ex_below]) (simp_all add: MAXESD_def)


lemma ex_pass2: "cp_G (pass2 ex_decks) = [\<lparr>gs_name = [1], gs_type = T_SD, gs_is_sect = True, gs_gid = 0, gs_org = 0, gs_len = 10, gs_def_obj = Some 0, gs_in_addr = 0, gs_owner = None\<rparr>,
  \<lparr>gs_name = [2], gs_type = T_SD, gs_is_sect = True, gs_gid = 0, gs_org = 0, gs_len = 6, gs_def_obj = Some 1, gs_in_addr = 0, gs_owner = None\<rparr>,
  \<lparr>gs_name = [3], gs_type = T_SD, gs_is_sect = True, gs_gid = 0, gs_org = 0, gs_len = 4, gs_def_obj = Some 1, gs_in_addr = 8, gs_owner = None\<rparr>,
  \<lparr>gs_name = [4], gs_type = T_CM, gs_is_sect = True, gs_gid = 0, gs_org = 0, gs_len = 3, gs_def_obj = None, gs_in_addr = 0, gs_owner = None\<rparr>,
  \<lparr>gs_name = [5], gs_type = T_LR, gs_is_sect = False, gs_gid = 0, gs_org = 0, gs_len = 0, gs_def_obj = None, gs_in_addr = 2, gs_owner = Some 2\<rparr>]"
  unfolding ex_stops by code_simp
lemma ex_clear: "names_clear ex_decks"
  by (auto simp: names_clear_def ex_decks_def lobj_init_def ex_lent_def ld_types split: if_splits)

lemma ex_typed: "decks_typed ex_decks"
  by (auto simp: decks_typed_def ex_decks_def lobj_init_def ex_lent_def split: if_splits)

lemma ex_locals:
  "lo_loc (cp_O (pass2 ex_decks) ! 0) 2 = Some (ex_lent [2] T_ER 0 0)" "lo_loc_g (cp_O (pass2 ex_decks) ! 0) 2 = 1"
  "lo_loc (cp_O (pass2 ex_decks) ! 1) 2 = Some (ex_lent [3] T_SD 8 4)" "lo_loc_g (cp_O (pass2 ex_decks) ! 1) 2 = 2"
  unfolding ex_stops by code_simp+

theorem references_by_name_witness:
  "g_find (cp_G (pass2 ex_decks)) [2] = Some (lo_loc_g (cp_O (pass2 ex_decks) ! 0) 2)"
  using references_by_name [of 0 ex_decks 2 "ex_lent [2] T_ER 0 0"] ex_locals(1)
  by (simp add: MAXESD_def ex_decks_def ex_lent_def ld_types)

theorem checked_refs_resolved_witness:
  "gs_is_sect (cp_G (pass2 ex_decks) ! lo_loc_g (cp_O (pass2 ex_decks) ! 0) 2) \<or> gs_type (cp_G (pass2 ex_decks) ! lo_loc_g (cp_O (pass2 ex_decks) ! 0) 2) = T_LR"
proof -
  have "unresolved (cp_G (pass2 ex_decks)) = []" by (simp add: ex_pass2 unresolved_def ld_types)
  moreover have "cp_ncomerr (pass2 ex_decks) = 0" unfolding ex_stops by code_simp
  ultimately have "check_resolved False (pass2 ex_decks) = Inr (pass2 ex_decks)" by (simp add: check_resolved_def)
  from checked_refs_resolved [OF ex_typed this, of 0 2 "ex_lent [2] T_ER 0 0"] show ?thesis
    using ex_locals(1) by (simp add: MAXESD_def ex_decks_def ex_lent_def)
qed


text \<open>
  C36. A label with the name of a control section takes the section's entry over: the entry stays a section of its
  object, but its type and its origin are now the label's.
\<close>

theorem label_moves_section:
  assumes "g_find (cp_G st) (ld_name e) = Some k" "gs_is_sect (cp_G st ! k)" "gs_type (cp_G st ! k) = T_SD"
    "label_owner (cp_O st ! i) (ld_owner_local e) = Some x" "\<not> lc_dropped x"
  shows "\<exists>g. cp_G (pass2_label i e st) = (cp_G st)[k := g] \<and> gs_is_sect g \<and> gs_type g = T_LR
    \<and> gs_def_obj g = gs_def_obj (cp_G st ! k) \<and> gs_in_addr g = int (ld_addr e) - int (lc_addr x)"
proof -
  have "k < length (cp_G st)" using assms(1) by (simp add: g_find_some)
  then show ?thesis using assms by (auto simp: pass2_label_def g_intern_def Let_def ld_types)
qed

definition ex_clash :: comp where
  "ex_clash = \<lparr>cp_O = [lobj_init\<lparr>lo_loc := [1 \<mapsto> ex_lent [1] T_SD 0 10]\<rparr>],
     cp_G = [\<lparr>gs_name = [1], gs_type = T_SD, gs_is_sect = True, gs_gid = 0, gs_org = 0, gs_len = 10, gs_def_obj = Some 0, gs_in_addr = 0, gs_owner = None\<rparr>],
     cp_ncomerr = 0, cp_warn = []\<rparr>"

theorem label_moves_section_witness:
  "\<exists>g. cp_G (pass2_label 0 \<lparr>ld_name = [1], ld_addr = 6, ld_owner_local = 1\<rparr> ex_clash) = [g] \<and> gs_is_sect g \<and> gs_type g = T_LR \<and> gs_in_addr g = 6"
  using label_moves_section [of ex_clash "\<lparr>ld_name = [1], ld_addr = 6, ld_owner_local = 1\<rparr>" 0 0 "ex_lent [1] T_SD 0 10"]
  by (auto simp: ex_clash_def g_find_def label_owner_def MAXESD_def ex_lent_def)

end
