(* ===== verification/Ld_Layout.thy ===== *)
theory Ld_Layout
  imports Ld_Symbols Shift_Sort
begin

section \<open>ld370: addresses\<close>

text \<open>
  The address assignment in \<^verbatim>\<open>main\<close> of \<^verbatim>\<open>ld370/src/ld370.c\<close>: dropped duplicates are compacted out of their object,
  objects are stacked on doublewords, commons follow, sections get their ESDIDs and origins and are sorted by
  origin, and the entry point is found. Shown here: the layout loop ends, sections of different objects and
  common areas never overlap and lie inside the module, and the sorted index is the stable sort by origin.
\<close>

definition roundup8 :: "nat \<Rightarrow> nat" where
  "roundup8 v = (v + 7) div 8 * 8"

definition sect_at :: "lobj \<Rightarrow> nat \<Rightarrow> lent option" where
  "sect_at ob j = (case lo_loc ob j of Some l \<Rightarrow> if is_obj_sect (lc_type l) then Some l else None | None \<Rightarrow> None)"

text \<open>The first of the sections with the lowest origin above \<^verbatim>\<open>last\<close>.\<close>

definition next_step :: "lobj \<Rightarrow> int \<Rightarrow> nat \<Rightarrow> (nat \<times> lent) option \<Rightarrow> (nat \<times> lent) option" where
  "next_step ob lst j nx = (case sect_at ob j of
     Some l \<Rightarrow> if int (lc_addr l) > lst \<and> (case nx of None \<Rightarrow> True | Some (k, m) \<Rightarrow> lc_addr l < lc_addr m) then Some (j, l) else nx
   | None \<Rightarrow> nx)"

definition next_sect :: "lobj \<Rightarrow> int \<Rightarrow> (nat \<times> lent) option" where
  "next_sect ob lst = fold (next_step ob lst) [1..<MAXESD] None"

definition set_newaddr :: "nat \<Rightarrow> nat \<Rightarrow> lobj \<Rightarrow> lobj" where
  "set_newaddr a n ob = ob\<lparr>lo_loc := (\<lambda>j. case lo_loc ob j of
     Some l \<Rightarrow> Some (if 1 \<le> j \<and> j < MAXESD \<and> is_obj_sect (lc_type l) \<and> lc_addr l = a then l\<lparr>lc_newaddr := n\<rparr> else l) | None \<Rightarrow> None)\<rparr>"

definition sects_above :: "lobj \<Rightarrow> int \<Rightarrow> nat list" where
  "sects_above ob lst = filter (\<lambda>j. case sect_at ob j of Some l \<Rightarrow> int (lc_addr l) > lst | None \<Rightarrow> False) [1..<MAXESD]"

lemma next_fold:
  assumes "fold (next_step ob lst) js nx = Some (k, l)" "\<forall>k l. nx = Some (k, l) \<longrightarrow> k \<in> J \<and> sect_at ob k = Some l \<and> int (lc_addr l) > lst"
  shows "k \<in> J \<union> set js \<and> sect_at ob k = Some l \<and> int (lc_addr l) > lst"
  using assms
proof (induction js arbitrary: nx J)
  case (Cons j js)
  have "\<forall>k l. next_step ob lst j nx = Some (k, l) \<longrightarrow> k \<in> insert j J \<and> sect_at ob k = Some l \<and> int (lc_addr l) > lst"
    using Cons.prems(2) by (auto simp: next_step_def split: option.splits if_splits)
  from Cons.IH [OF _ this] Cons.prems(1) show ?case by auto
qed simp

lemma next_sect_some:
  assumes "next_sect ob lst = Some (k, l)"
  shows "1 \<le> k" "k < MAXESD" "sect_at ob k = Some l" "lst < int (lc_addr l)"
  using next_fold [of ob lst "[1..<MAXESD]" None k l "{}"] assms by (auto simp: next_sect_def)

lemma set_newaddr_sect:
  "sect_at (set_newaddr a n ob) j = map_option (\<lambda>l. if 1 \<le> j \<and> j < MAXESD \<and> lc_addr l = a then l\<lparr>lc_newaddr := n\<rparr> else l) (sect_at ob j)"
  by (auto simp: sect_at_def set_newaddr_def split: option.splits)

lemma sects_above_set: "sects_above (set_newaddr a n ob) lst = sects_above ob lst"
  unfolding sects_above_def by (rule filter_cong) (auto simp: set_newaddr_sect split: option.splits)

lemma next_sect_less:
  assumes "next_sect ob lst = Some (k, l)"
  shows "length (sects_above ob (int (lc_addr l))) < length (sects_above ob lst)"
proof -
  note n = next_sect_some [OF assms]
  have "sects_above ob (int (lc_addr l))
      = filter (\<lambda>j. case sect_at ob j of Some m \<Rightarrow> int (lc_addr m) > int (lc_addr l) | None \<Rightarrow> False) (sects_above ob lst)"
    unfolding sects_above_def filter_filter using n(4) by (intro filter_cong) (auto split: option.splits)
  moreover have "k \<in> set (sects_above ob lst)" using n by (auto simp: sects_above_def)
  ultimately show ?thesis using n(3) by (auto intro!: length_filter_less [of k])
qed

function compact_loop :: "lobj \<Rightarrow> int \<Rightarrow> nat \<Rightarrow> lobj" where
  "compact_loop ob lst removed =
    (case next_sect ob lst of
       None \<Rightarrow> ob
     | Some (nx, l) \<Rightarrow>
         let a = lc_addr l; ob = set_newaddr a (a - removed) ob;
             removed = (if lc_dropped l
               then removed + ((case next_sect ob (int a) of Some (k, m) \<Rightarrow> lc_addr m | None \<Rightarrow> a + lc_len l) - a) else removed)
         in compact_loop ob (int a) removed)"
  by pat_completeness auto
termination
  by (relation "measure (\<lambda>(ob, lst, removed). length (sects_above ob lst))") (auto simp: sects_above_set next_sect_less)

declare compact_loop.simps [simp del]

definition move_sect :: "nat \<Rightarrow> lobj \<Rightarrow> nat \<Rightarrow> gsym list \<Rightarrow> gsym list" where
  "move_sect i ob j G = (case sect_at ob j of
     Some l \<Rightarrow> if \<not> lc_dropped l \<and> gs_def_obj (G ! lo_loc_g ob j) = Some i
       then G[lo_loc_g ob j := (G ! lo_loc_g ob j)\<lparr>gs_in_addr := int (lc_newaddr l)\<rparr>] else G
   | None \<Rightarrow> G)"

definition move_sects :: "nat \<Rightarrow> lobj \<Rightarrow> gsym list \<Rightarrow> gsym list" where
  "move_sects i ob G = fold (move_sect i ob) [1..<MAXESD] G"

definition obj_size :: "lobj \<Rightarrow> nat" where
  "obj_size ob = fold (\<lambda>j osize. case sect_at ob j of
     Some l \<Rightarrow> if \<not> lc_dropped l \<and> lc_newaddr l + lc_len l > osize then lc_newaddr l + lc_len l else osize
   | None \<Rightarrow> osize) [1..<MAXESD] 0"

definition place_obj :: "nat \<Rightarrow> nat \<times> comp \<Rightarrow> nat \<times> comp" where
  "place_obj i = (\<lambda>(running, st).
    let ob = cp_O st ! i; ob = (if lo_has_drop ob then compact_loop ob (-1) 0 else ob);
        G = (if lo_has_drop ob then move_sects i ob (cp_G st) else cp_G st)
    in (running + roundup8 (obj_size ob), st\<lparr>cp_O := (cp_O st)[i := ob\<lparr>lo_object_base := running\<rparr>], cp_G := G\<rparr>))"

definition place_common :: "nat \<Rightarrow> nat \<times> gsym list \<Rightarrow> nat \<times> gsym list" where
  "place_common k = (\<lambda>(running, G).
    if gs_is_sect (G ! k) \<and> gs_type (G ! k) = T_CM
    then (roundup8 running + gs_len (G ! k), G[k := (G ! k)\<lparr>gs_in_addr := int (roundup8 running)\<rparr>]) else (running, G))"

definition sect_gids :: "lobj list \<Rightarrow> nat \<Rightarrow> nat \<times> gsym list \<Rightarrow> nat \<times> gsym list" where
  "sect_gids os k = (\<lambda>(gid, G).
    if gs_is_sect (G ! k)
    then (gid + 1, G[k := (G ! k)\<lparr>gs_gid := gid + 1,
      gs_org := (case gs_def_obj (G ! k) of Some i \<Rightarrow> int (lo_object_base (os ! i)) | None \<Rightarrow> 0) + gs_in_addr (G ! k)\<rparr>]) else (gid, G))"

definition other_gids :: "nat \<Rightarrow> nat \<times> gsym list \<Rightarrow> nat \<times> gsym list" where
  "other_gids k = (\<lambda>(gid, G). if gs_is_sect (G ! k) then (gid, G) else (gid + 1, G[k := (G ! k)\<lparr>gs_gid := gid + 1\<rparr>]))"

record layout =
  ly_st :: comp
  ly_textend :: nat
  ly_modlen :: nat
  ly_nsect :: nat

definition assign_addresses :: "comp \<Rightarrow> layout" where
  "assign_addresses st =
    (let (running, st) = fold place_obj [0..<length (cp_O st)] (0, st); textend = roundup8 running; n = length (cp_G st);
         (running, G) = fold place_common [0..<n] (running, cp_G st); modlen = roundup8 running;
         (nsect, G) = fold (sect_gids (cp_O st)) [0..<n] (0, G); (gid, G) = fold other_gids [0..<n] (nsect, G)
     in \<lparr>ly_st = st\<lparr>cp_G := G\<rparr>, ly_textend = textend, ly_modlen = modlen, ly_nsect = nsect\<rparr>)"

text \<open>The sections in increasing origin: \<^verbatim>\<open>gidx[1..nsect]\<close>.\<close>

definition org_gt :: "gsym list \<Rightarrow> nat \<Rightarrow> nat \<Rightarrow> bool" where
  "org_gt G x t \<longleftrightarrow> gs_org (G ! x) > gs_org (G ! t)"

definition gidx :: "gsym list \<Rightarrow> nat list" where
  "gidx G = shift_sort (org_gt G) (filter (\<lambda>k. gs_is_sect (G ! k)) [0..<length G])"

definition sym_address :: "gsym list \<Rightarrow> gsym \<Rightarrow> int option" where
  "sym_address G g =
    (if gs_is_sect g then Some (gs_org g)
     else if gs_type g = T_LR then (case gs_owner g of
       Some w \<Rightarrow> if gs_is_sect (G ! w) then Some (gs_org (G ! w) + gs_in_addr g) else None | None \<Rightarrow> None)
     else None)"

definition find_symbol :: "gsym list \<Rightarrow> string \<Rightarrow> int option" where
  "find_symbol G name =
    (case List.find (\<lambda>g. gs_name g = member_name name \<and> sym_address G g \<noteq> None) G of Some g \<Rightarrow> sym_address G g | None \<Rightarrow> None)"

definition entry_point :: "string option \<Rightarrow> comp \<Rightarrow> ld_error + int" where
  "entry_point entryname st =
    (case entryname of
       Some en \<Rightarrow> (case find_symbol (cp_G st) en of Some a \<Rightarrow> Inr a | None \<Rightarrow> Inl (LD_ENTRY en))
     | None \<Rightarrow>
         (case List.find (\<lambda>ob. case lo_entry ob of Some (e, off) \<Rightarrow> 1 \<le> e \<and> e < MAXESD \<and> lo_loc ob e \<noteq> None | None \<Rightarrow> False) (cp_O st) of
            Some ob \<Rightarrow> (case lo_entry ob of Some (e, off) \<Rightarrow> Inr (gs_org (cp_G st ! lo_loc_g ob e) + int off) | None \<Rightarrow> Inr 0)
          | None \<Rightarrow> Inr 0))"

subsection \<open>What the layout changes\<close>

lemma roundup8_ge: "v \<le> roundup8 v" "8 dvd roundup8 v"
  by (simp_all add: roundup8_def)

definition unmoved :: "lent \<Rightarrow> lent" where
  "unmoved l = l\<lparr>lc_newaddr := 0\<rparr>"

lemma unmoved_eqD: "unmoved l = unmoved l' \<Longrightarrow> lc_name l = lc_name l' \<and> lc_type l = lc_type l' \<and> lc_addr l = lc_addr l' \<and> lc_len l = lc_len l' \<and> lc_dropped l = lc_dropped l'"
  by (cases l; cases l') (simp add: unmoved_def)

text \<open>Compaction sets new origins and nothing else.\<close>

lemma compact_only:
  "compact_loop ob lst r = ob\<lparr>lo_loc := lo_loc (compact_loop ob lst r)\<rparr>
   \<and> (\<forall>j. map_option unmoved (lo_loc (compact_loop ob lst r) j) = map_option unmoved (lo_loc ob j))"
proof (induction ob lst r rule: compact_loop.induct)
  case (1 ob lst r)
  show ?case
  proof (cases "next_sect ob lst")
    case None
    then show ?thesis by (simp add: compact_loop.simps [of ob])
  next
    case (Some p)
    obtain nx l where p: "p = (nx, l)" by fastforce
    let ?ob = "set_newaddr (lc_addr l) (lc_addr l - r) ob"
    let ?r = "if lc_dropped l then r + ((case next_sect ?ob (int (lc_addr l)) of Some (k, m) \<Rightarrow> lc_addr m | None \<Rightarrow> lc_addr l + lc_len l) - lc_addr l) else r"
    have step: "compact_loop ob lst r = compact_loop ?ob (int (lc_addr l)) ?r"
      using Some p by (subst compact_loop.simps) (simp add: Let_def)
    have "?ob = ob\<lparr>lo_loc := lo_loc ?ob\<rparr>" "map_option unmoved (lo_loc ?ob j) = map_option unmoved (lo_loc ob j)" for j
      by (auto simp: set_newaddr_def unmoved_def split: option.split)
    moreover have "compact_loop ?ob (int (lc_addr l)) ?r = ?ob\<lparr>lo_loc := lo_loc (compact_loop ?ob (int (lc_addr l)) ?r)\<rparr>
        \<and> (\<forall>j. map_option unmoved (lo_loc (compact_loop ?ob (int (lc_addr l)) ?r) j) = map_option unmoved (lo_loc ?ob j))"
      using 1 [OF Some p [symmetric] refl refl refl] by simp
    ultimately show ?thesis unfolding step by (metis (no_types, lifting) lobj.update_convs(1) lobj.surjective)
  qed
qed

definition compacted :: "lobj \<Rightarrow> lobj" where
  "compacted ob = (if lo_has_drop ob then compact_loop ob (-1) 0 else ob)"

lemma compacted_fields [simp]:
  "lo_loc_g (compacted ob) = lo_loc_g ob" "lo_has_drop (compacted ob) = lo_has_drop ob" "lo_text (compacted ob) = lo_text ob"
  "lo_rld (compacted ob) = lo_rld ob" "lo_defn (compacted ob) = lo_defn ob" "lo_entry (compacted ob) = lo_entry ob"
proof -
  have c: "compact_loop ob (-1) 0 = ob\<lparr>lo_loc := lo_loc (compact_loop ob (-1) 0)\<rparr>" using compact_only by blast
  define f where "f = lo_loc (compact_loop ob (-1) 0)"
  have c: "compact_loop ob (-1) 0 = ob\<lparr>lo_loc := f\<rparr>" using c by (simp add: f_def)
  show "lo_loc_g (compacted ob) = lo_loc_g ob" "lo_has_drop (compacted ob) = lo_has_drop ob" "lo_text (compacted ob) = lo_text ob"
    "lo_rld (compacted ob) = lo_rld ob" "lo_defn (compacted ob) = lo_defn ob" "lo_entry (compacted ob) = lo_entry ob"
    by (simp_all add: compacted_def c)
qed

lemma compacted_loc: "map_option unmoved (lo_loc (compacted ob) j) = map_option unmoved (lo_loc ob j)"
  using compact_only by (simp add: compacted_def)

lemma compacted_sect:
  assumes "lo_loc ob j = Some l"
  obtains l' where "lo_loc (compacted ob) j = Some l'" "lc_type l' = lc_type l" "lc_len l' = lc_len l" "lc_dropped l' = lc_dropped l"
    "lc_addr l' = lc_addr l" "lc_name l' = lc_name l" "\<not> lo_has_drop ob \<Longrightarrow> l' = l"
proof -
  have "map_option unmoved (lo_loc (compacted ob) j) = Some (unmoved l)" using compacted_loc [of ob j] assms by simp
  then obtain l' where l': "lo_loc (compacted ob) j = Some l'" "unmoved l' = unmoved l" by auto
  show ?thesis by (rule that [OF l'(1)]) (use unmoved_eqD [OF l'(2)] l'(1) assms in \<open>simp_all add: compacted_def\<close>)
qed

subsection \<open>Objects are stacked\<close>

definition base_of :: "lobj list \<Rightarrow> nat \<Rightarrow> nat" where
  "base_of os i = (\<Sum>k<i. roundup8 (obj_size (compacted (os ! k))))"

lemma base_of_mono: "i \<le> i' \<Longrightarrow> base_of os i \<le> base_of os i'"
  unfolding base_of_def by (intro sum_mono2) auto

lemma base_of_Suc: "base_of os (Suc i) = base_of os i + roundup8 (obj_size (compacted (os ! i)))"
  by (simp add: base_of_def)

lemma base_of_aligned: "8 dvd base_of os i"
  unfolding base_of_def by (intro dvd_sum) (simp add: roundup8_ge)

definition same_but_addr :: "gsym \<Rightarrow> gsym \<Rightarrow> bool" where
  "same_but_addr g g' \<longleftrightarrow> g\<lparr>gs_in_addr := 0\<rparr> = g'\<lparr>gs_in_addr := 0\<rparr>"

lemma same_but_addr_refl [simp]: "same_but_addr g g" "same_but_addr (g\<lparr>gs_in_addr := a\<rparr>) h = same_but_addr g h"
    "same_but_addr h (g\<lparr>gs_in_addr := a\<rparr>) = same_but_addr h g"
  by (simp_all add: same_but_addr_def)

lemma same_but_addrD: "same_but_addr g h \<Longrightarrow> gs_is_sect g = gs_is_sect h \<and> gs_type g = gs_type h \<and> gs_len g = gs_len h
    \<and> gs_def_obj g = gs_def_obj h \<and> gs_name g = gs_name h \<and> gs_owner g = gs_owner h"
  by (cases g; cases h) (simp add: same_but_addr_def)

lemma obj_size_ge:
  assumes "sect_at ob j = Some l" "\<not> lc_dropped l" "1 \<le> j" "j < MAXESD"
  shows "lc_newaddr l + lc_len l \<le> obj_size ob"
proof -
  let ?f = "\<lambda>j osize. case sect_at ob j of
     Some l \<Rightarrow> if \<not> lc_dropped l \<and> lc_newaddr l + lc_len l > osize then lc_newaddr l + lc_len l else osize | None \<Rightarrow> osize"
  have up: "z \<le> fold ?f js z" for js z
  proof (induction js arbitrary: z)
    case (Cons k js)
    have "z \<le> ?f k z" by (auto split: option.split)
    then show ?case using Cons [of "?f k z"] by simp
  qed simp
  have "j \<in> set js \<Longrightarrow> lc_newaddr l + lc_len l \<le> fold ?f js z" for js z
  proof (induction js arbitrary: z)
    case (Cons k js)
    show ?case
    proof (cases "k = j")
      case True
      have "lc_newaddr l + lc_len l \<le> ?f j z" using assms(1,2) by simp
      then show ?thesis using up [of "?f j z" js] True by simp
    next
      case False
      then show ?thesis using Cons by simp
    qed
  qed simp
  then show ?thesis using assms(3,4) by (simp add: obj_size_def)
qed

text \<open>The kept sections of an object, and that they have entries of their own.\<close>

definition keeps :: "lobj \<Rightarrow> nat \<Rightarrow> lent \<Rightarrow> bool" where
  "keeps ob j l \<longleftrightarrow> 1 \<le> j \<and> j < MAXESD \<and> sect_at ob j = Some l \<and> \<not> lc_dropped l"

definition own_entries :: "lobj \<Rightarrow> bool" where
  "own_entries ob \<longleftrightarrow> (\<forall>j j' l l'. keeps ob j l \<longrightarrow> keeps ob j' l' \<longrightarrow> lo_loc_g ob j = lo_loc_g ob j' \<longrightarrow> j = j')"

lemma move_sect_one:
  "length (move_sect i ob j G) = length G"
  "same_but_addr (move_sect i ob j G ! k) (G ! k)"
  "gs_def_obj (G ! k) \<noteq> Some i \<or> k \<noteq> lo_loc_g ob j \<Longrightarrow> move_sect i ob j G ! k = G ! k"
proof -
  have "length (move_sect i ob j G) = length G \<and> same_but_addr (move_sect i ob j G ! k) (G ! k)
    \<and> (gs_def_obj (G ! k) \<noteq> Some i \<or> k \<noteq> lo_loc_g ob j \<longrightarrow> move_sect i ob j G ! k = G ! k)"
  proof (cases "sect_at ob j")
    case (Some l)
    show ?thesis
    proof (cases "k = lo_loc_g ob j \<and> k < length G")
      case True
      then show ?thesis using Some by (simp add: move_sect_def)
    next
      case False
      then have "move_sect i ob j G ! k = G ! k" using Some by (cases "k = lo_loc_g ob j") (simp_all add: move_sect_def list_update_beyond)
      then show ?thesis using Some by (simp add: move_sect_def)
    qed
  qed (simp add: move_sect_def)
  then show "length (move_sect i ob j G) = length G" "same_but_addr (move_sect i ob j G ! k) (G ! k)"
    "gs_def_obj (G ! k) \<noteq> Some i \<or> k \<noteq> lo_loc_g ob j \<Longrightarrow> move_sect i ob j G ! k = G ! k" by blast+
qed

lemma same_but_addr_trans: "same_but_addr f g \<Longrightarrow> same_but_addr g h \<Longrightarrow> same_but_addr f h"
  by (simp add: same_but_addr_def)

lemma move_fold:
  "length (fold (move_sect i ob) js G) = length G \<and> same_but_addr (fold (move_sect i ob) js G ! k) (G ! k)
   \<and> (gs_def_obj (G ! k) \<noteq> Some i \<longrightarrow> fold (move_sect i ob) js G ! k = G ! k)"
proof (induction js arbitrary: G)
  case (Cons j js)
  note o = move_sect_one [where i = i and ob = ob and j = j and G = G]
  have d: "gs_def_obj (move_sect i ob j G ! k) = gs_def_obj (G ! k)" using same_but_addrD [OF o(2) [of k]] by simp
  from Cons [of "move_sect i ob j G"] o(1) o(2) [of k] o(3) [of k] d show ?case by (auto intro: same_but_addr_trans)
qed simp

lemma move_sects_spec:
  assumes "own_entries ob"
  shows "length (move_sects i ob G) = length G" "same_but_addr (move_sects i ob G ! k) (G ! k)"
    "gs_def_obj (G ! k) \<noteq> Some i \<Longrightarrow> move_sects i ob G ! k = G ! k"
    "keeps ob j l \<Longrightarrow> lo_loc_g ob j < length G \<Longrightarrow> gs_def_obj (G ! lo_loc_g ob j) = Some i
      \<Longrightarrow> gs_in_addr (move_sects i ob G ! lo_loc_g ob j) = int (lc_newaddr l)"
proof -
  show "length (move_sects i ob G) = length G" "same_but_addr (move_sects i ob G ! k) (G ! k)"
    "gs_def_obj (G ! k) \<noteq> Some i \<Longrightarrow> move_sects i ob G ! k = G ! k"
    using move_fold [of i ob "[1..<MAXESD]" G k] unfolding move_sects_def by blast+
  show "gs_in_addr (move_sects i ob G ! lo_loc_g ob j) = int (lc_newaddr l)"
    if k: "keeps ob j l" "lo_loc_g ob j < length G" "gs_def_obj (G ! lo_loc_g ob j) = Some i"
  proof -
    let ?k = "lo_loc_g ob j"
    have stay: "\<forall>j'\<in>set js. 1 \<le> j' \<and> j' < MAXESD \<and> j' \<noteq> j \<Longrightarrow> fold (move_sect i ob) js G ! ?k = G ! ?k" for js G
    proof (induction js arbitrary: G)
      case (Cons j' js)
      have j': "1 \<le> j'" "j' < MAXESD" "j' \<noteq> j" using Cons.prems by simp_all
      have "move_sect i ob j' G ! ?k = G ! ?k"
      proof (cases "\<exists>l'. keeps ob j' l'")
        case True
        then have "lo_loc_g ob j' \<noteq> ?k" using assms k(1) j' unfolding own_entries_def by metis
        then show ?thesis by (intro move_sect_one(3)) auto
      next
        case False
        then show ?thesis using j' by (auto simp: move_sect_def keeps_def split: option.split)
      qed
      then show ?case using Cons by simp
    qed simp
    have j: "1 \<le> j" "j < MAXESD" "sect_at ob j = Some l" "\<not> lc_dropped l" using k(1) by (simp_all add: keeps_def)
    have up: "[1..<MAXESD] = [1..<j] @ j # [Suc j..<MAXESD]"
      using j upt_add_eq_append [of 1 j "MAXESD - j"] upt_conv_Cons [of j MAXESD] by simp
    let ?G = "fold (move_sect i ob) [1..<j] G"
    have m: "length ?G = length G" "same_but_addr (?G ! ?k) (G ! ?k)" using move_fold [of i ob "[1..<j]" G ?k] by auto
    have "gs_def_obj (?G ! ?k) = Some i" using same_but_addrD [OF m(2)] k(3) by simp
    then have "gs_in_addr (move_sect i ob j ?G ! ?k) = int (lc_newaddr l)" using j m(1) k(2) by (simp add: move_sect_def)
    then have "gs_in_addr (fold (move_sect i ob) [Suc j..<MAXESD] (move_sect i ob j ?G) ! ?k) = int (lc_newaddr l)"
      using stay [of "[Suc j..<MAXESD]" "move_sect i ob j ?G"] by simp
    then show ?thesis unfolding move_sects_def up by simp
  qed
qed


text \<open>The objects and the table after the first \<open>n\<close> objects.\<close>

definition placed :: "comp \<Rightarrow> nat \<Rightarrow> nat \<times> comp \<Rightarrow> bool" where
  "placed st n = (\<lambda>(run, st'). run = base_of (cp_O st) n \<and> length (cp_O st') = length (cp_O st) \<and> length (cp_G st') = length (cp_G st)
     \<and> (\<forall>i<length (cp_O st). cp_O st' ! i = (if i < n then (compacted (cp_O st ! i))\<lparr>lo_object_base := base_of (cp_O st) i\<rparr> else cp_O st ! i))
     \<and> (\<forall>k. same_but_addr (cp_G st' ! k) (cp_G st ! k))
     \<and> (\<forall>k. (\<forall>i<n. gs_def_obj (cp_G st ! k) \<noteq> Some i) \<longrightarrow> cp_G st' ! k = cp_G st ! k)
     \<and> (\<forall>i j l. i < n \<longrightarrow> keeps (compacted (cp_O st ! i)) j l \<longrightarrow> lo_loc_g (cp_O st ! i) j < length (cp_G st)
          \<longrightarrow> gs_def_obj (cp_G st ! lo_loc_g (cp_O st ! i) j) = Some i
          \<longrightarrow> gs_in_addr (cp_G st' ! lo_loc_g (cp_O st ! i) j)
              = (if lo_has_drop (cp_O st ! i) then int (lc_newaddr l) else gs_in_addr (cp_G st ! lo_loc_g (cp_O st ! i) j))))"

lemma place_obj_unfold:
  "place_obj i (run, st) = (run + roundup8 (obj_size (compacted (cp_O st ! i))),
     st\<lparr>cp_O := (cp_O st)[i := (compacted (cp_O st ! i))\<lparr>lo_object_base := run\<rparr>],
        cp_G := if lo_has_drop (cp_O st ! i) then move_sects i (compacted (cp_O st ! i)) (cp_G st) else cp_G st\<rparr>)"
  using compacted_fields(2) [of "cp_O st ! i"] by (simp add: place_obj_def Let_def compacted_def)

lemma placedD:
  assumes "placed st n (run, st')"
  shows "run = base_of (cp_O st) n" "length (cp_O st') = length (cp_O st)" "length (cp_G st') = length (cp_G st)"
    "i < length (cp_O st) \<Longrightarrow> cp_O st' ! i = (if i < n then (compacted (cp_O st ! i))\<lparr>lo_object_base := base_of (cp_O st) i\<rparr> else cp_O st ! i)"
    "same_but_addr (cp_G st' ! k) (cp_G st ! k)"
    "\<forall>i<n. gs_def_obj (cp_G st ! k) \<noteq> Some i \<Longrightarrow> cp_G st' ! k = cp_G st ! k"
    "i < n \<Longrightarrow> keeps (compacted (cp_O st ! i)) j l \<Longrightarrow> lo_loc_g (cp_O st ! i) j < length (cp_G st)
      \<Longrightarrow> gs_def_obj (cp_G st ! lo_loc_g (cp_O st ! i) j) = Some i
      \<Longrightarrow> gs_in_addr (cp_G st' ! lo_loc_g (cp_O st ! i) j)
          = (if lo_has_drop (cp_O st ! i) then int (lc_newaddr l) else gs_in_addr (cp_G st ! lo_loc_g (cp_O st ! i) j))"
  using assms unfolding placed_def prod.case by (elim conjE; blast)+

lemma place_obj_placed:
  assumes p: "placed st n (run, st')" and n: "n < length (cp_O st)" and own: "own_entries (compacted (cp_O st ! n))"
  shows "placed st (Suc n) (place_obj n (run, st'))"
proof -
  note d = placedD [OF p]
  let ?ob = "cp_O st ! n" and ?ob' = "compacted (cp_O st ! n)"
  define G where "G = (if lo_has_drop ?ob then move_sects n ?ob' (cp_G st') else cp_G st')"
  have on: "cp_O st' ! n = ?ob" using d(4) [OF n] by simp
  have step: "place_obj n (run, st') = (base_of (cp_O st) (Suc n),
      st'\<lparr>cp_O := (cp_O st')[n := ?ob'\<lparr>lo_object_base := base_of (cp_O st) n\<rparr>], cp_G := G\<rparr>)"
    by (simp add: place_obj_unfold on base_of_Suc G_def d(1))
  note m = move_sects_spec [OF own, where i = n and G = "cp_G st'"]
  have len: "length G = length (cp_G st)" using m(1) d(3) by (simp add: G_def)
  have same: "same_but_addr (G ! k) (cp_G st ! k)" for k
    using same_but_addr_trans [OF m(2) [of k] d(5) [of k]] d(5) [of k] by (simp add: G_def)
  have dob: "gs_def_obj (cp_G st' ! k) = gs_def_obj (cp_G st ! k)" for k using same_but_addrD [OF d(5) [of k]] by simp
  have other: "G ! k = cp_G st' ! k" if "gs_def_obj (cp_G st ! k) \<noteq> Some n" for k
    using m(3) [of k] that dob by (simp add: G_def)
  have at: "gs_in_addr (G ! lo_loc_g (cp_O st ! i) j)
      = (if lo_has_drop (cp_O st ! i) then int (lc_newaddr l) else gs_in_addr (cp_G st ! lo_loc_g (cp_O st ! i) j))"
    if h: "i < Suc n" "keeps (compacted (cp_O st ! i)) j l" "lo_loc_g (cp_O st ! i) j < length (cp_G st)"
      "gs_def_obj (cp_G st ! lo_loc_g (cp_O st ! i) j) = Some i" for i j l
  proof (cases "i = n")
    case False
    then show ?thesis using d(7) [of i j l] h other [of "lo_loc_g (cp_O st ! i) j"] by simp
  next
    case True
    have "cp_G st' ! lo_loc_g ?ob j = cp_G st ! lo_loc_g ?ob j" by (rule d(6)) (use h(4) True in auto)
    then show ?thesis using m(4) [of j l] h True d(3) dob by (simp add: G_def)
  qed
  show ?thesis
    unfolding step placed_def prod.case using len same at d(2,3)
    by (intro conjI) (auto simp: nth_list_update d(4) less_Suc_eq other d(6) intro!: d(4) split: if_splits)
qed

lemma placed_all:
  assumes "\<forall>i<length (cp_O st). own_entries (compacted (cp_O st ! i))" "n \<le> length (cp_O st)"
  shows "placed st n (fold place_obj [0..<n] (0, st))"
  using assms(2)
proof (induction n)
  case 0
  show ?case by (simp add: placed_def base_of_def)
next
  case (Suc n)
  obtain run st' where "fold place_obj [0..<n] (0, st) = (run, st')" by fastforce
  then show ?case using Suc place_obj_placed [of st n run st'] assms(1) by simp
qed

subsection \<open>Commons\<close>

definition is_common :: "gsym \<Rightarrow> bool" where
  "is_common g \<longleftrightarrow> gs_is_sect g \<and> gs_type g = T_CM"

lemma same_common: "same_but_addr g h \<Longrightarrow> is_common g = is_common h"
  using same_but_addrD by (auto simp: is_common_def)

definition commons_placed :: "nat \<Rightarrow> gsym list \<Rightarrow> nat \<Rightarrow> nat \<times> gsym list \<Rightarrow> bool" where
  "commons_placed run G n = (\<lambda>(run', G'). run \<le> run' \<and> length G' = length G \<and> (\<forall>k. same_but_addr (G' ! k) (G ! k))
     \<and> (\<forall>k. n \<le> k \<or> \<not> is_common (G ! k) \<longrightarrow> G' ! k = G ! k)
     \<and> (\<forall>k<n. is_common (G ! k) \<longrightarrow> int (roundup8 run) \<le> gs_in_addr (G' ! k) \<and> gs_in_addr (G' ! k) + int (gs_len (G ! k)) \<le> int run'
          \<and> (8::int) dvd gs_in_addr (G' ! k))
     \<and> (\<forall>k k'. k < k' \<longrightarrow> k' < n \<longrightarrow> is_common (G ! k) \<longrightarrow> is_common (G ! k')
          \<longrightarrow> gs_in_addr (G' ! k) + int (gs_len (G ! k)) \<le> gs_in_addr (G' ! k')))"

lemma roundup8_mono: "a \<le> b \<Longrightarrow> roundup8 a \<le> roundup8 b"
  unfolding roundup8_def by (intro mult_le_mono1 div_le_mono) simp

lemma place_common_placed:
  assumes p: "commons_placed run G n (run', G')" and n: "n < length G"
  shows "commons_placed run G (Suc n) (place_common n (run', G'))"
proof -
  have d: "run \<le> run'" "length G' = length G" "\<And>k. same_but_addr (G' ! k) (G ! k)" "G' ! n = G ! n"
    "\<And>k. n \<le> k \<or> \<not> is_common (G ! k) \<Longrightarrow> G' ! k = G ! k"
    "\<And>k. k < n \<Longrightarrow> is_common (G ! k) \<Longrightarrow> int (roundup8 run) \<le> gs_in_addr (G' ! k) \<and> gs_in_addr (G' ! k) + int (gs_len (G ! k)) \<le> int run'
      \<and> (8::int) dvd gs_in_addr (G' ! k)"
    "\<And>k k'. k < k' \<Longrightarrow> k' < n \<Longrightarrow> is_common (G ! k) \<Longrightarrow> is_common (G ! k') \<Longrightarrow> gs_in_addr (G' ! k) + int (gs_len (G ! k)) \<le> gs_in_addr (G' ! k')"
    using p unfolding commons_placed_def prod.case by auto
  show ?thesis
  proof (cases "is_common (G ! n)")
    case False
    have "place_common n (run', G') = (run', G')" using False d(4) by (auto simp: place_common_def is_common_def)
    moreover have "commons_placed run G (Suc n) (run', G')"
      unfolding commons_placed_def prod.case using d(1-3,5-7) False by (auto simp: less_Suc_eq)
    ultimately show ?thesis by simp
  next
    case True
    define G'' where "G'' = G'[n := (G ! n)\<lparr>gs_in_addr := int (roundup8 run')\<rparr>]"
    have step: "place_common n (run', G') = (roundup8 run' + gs_len (G ! n), G'')"
      using True d(4) by (simp add: place_common_def is_common_def G''_def)
    have g: "G'' ! n = (G ! n)\<lparr>gs_in_addr := int (roundup8 run')\<rparr>" "\<And>k. k \<noteq> n \<Longrightarrow> G'' ! k = G' ! k"
      using n d(2) by (simp_all add: G''_def)
    have up: "run' \<le> roundup8 run'" "(8::int) dvd int (roundup8 run')" "roundup8 run \<le> roundup8 run'"
      using roundup8_ge [of run'] roundup8_mono [OF d(1)] by (simp_all add: int_dvd_int_iff [of 8, simplified])
    have "same_but_addr (G'' ! k) (G ! k)" for k using g d(3) by (cases "k = n") simp_all
    moreover have "int (roundup8 run) \<le> gs_in_addr (G'' ! k) \<and> gs_in_addr (G'' ! k) + int (gs_len (G ! k)) \<le> int (roundup8 run' + gs_len (G ! n))
        \<and> (8::int) dvd gs_in_addr (G'' ! k)" if "k < Suc n" "is_common (G ! k)" for k
      using g up d(6) [of k] that by (cases "k = n") auto
    moreover have "gs_in_addr (G'' ! k) + int (gs_len (G ! k)) \<le> gs_in_addr (G'' ! k')"
      if "k < k'" "k' < Suc n" "is_common (G ! k)" "is_common (G ! k')" for k k'
      using g up d(6) [of k] d(7) [of k k'] that by (cases "k' = n") auto
    moreover have "G'' ! k = G ! k" if "Suc n \<le> k \<or> \<not> is_common (G ! k)" for k
      using that g(2) [of k] d(5) [of k] True by (cases "k = n") auto
    moreover have "length G'' = length G" by (simp add: G''_def d(2))
    ultimately show ?thesis
      unfolding step commons_placed_def prod.case using d(1) up by auto
  qed
qed

lemma commons_all: "n \<le> length G \<Longrightarrow> commons_placed run G n (fold place_common [0..<n] (run, G))"
proof (induction n)
  case 0
  show ?case by (simp add: commons_placed_def)
next
  case (Suc n)
  obtain run' G' where "fold place_common [0..<n] (run, G) = (run', G')" by fastforce
  then show ?case using Suc place_common_placed [of run G n run' G'] by simp
qed

subsection \<open>ESDIDs and origins\<close>

definition origin_of :: "lobj list \<Rightarrow> gsym \<Rightarrow> int" where
  "origin_of os g = (case gs_def_obj g of Some i \<Rightarrow> int (lo_object_base (os ! i)) | None \<Rightarrow> 0) + gs_in_addr g"

definition rank_of :: "(gsym \<Rightarrow> bool) \<Rightarrow> gsym list \<Rightarrow> nat \<Rightarrow> nat" where
  "rank_of P G k = length (filter P (take k G))"

lemma rank_of_Suc: "k < length G \<Longrightarrow> rank_of P G (Suc k) = rank_of P G k + (if P (G ! k) then 1 else 0)"
  by (simp add: rank_of_def take_Suc_conv_app_nth)

lemma sect_gids_all:
  "n \<le> length G \<Longrightarrow> fold (sect_gids os) [0..<n] (0, G) = (rank_of gs_is_sect G n,
     map (\<lambda>k. if k < n \<and> gs_is_sect (G ! k) then (G ! k)\<lparr>gs_gid := rank_of gs_is_sect G (Suc k), gs_org := origin_of os (G ! k)\<rparr> else G ! k) [0..<length G])"
proof (induction n)
  case 0
  show ?case by (simp add: rank_of_def map_nth)
next
  case (Suc n)
  then show ?case by (auto simp: sect_gids_def rank_of_Suc origin_of_def less_Suc_eq nth_list_update intro!: nth_equalityI)
qed

lemma other_gids_all:
  "n \<le> length G \<Longrightarrow> fold other_gids [0..<n] (m, G) = (m + rank_of (\<lambda>g. \<not> gs_is_sect g) G n,
     map (\<lambda>k. if k < n \<and> \<not> gs_is_sect (G ! k) then (G ! k)\<lparr>gs_gid := m + rank_of (\<lambda>g. \<not> gs_is_sect g) G (Suc k)\<rparr> else G ! k) [0..<length G])"
proof (induction n)
  case 0
  show ?case by (simp add: rank_of_def map_nth)
next
  case (Suc n)
  then show ?case by (auto simp: other_gids_def rank_of_Suc less_Suc_eq nth_list_update intro!: nth_equalityI)
qed

text \<open>
  The table at the end of the layout, from the table and the objects after the symbol pass: \<open>Gc\<close> is the table once
  the commons are placed, the text ends at \<open>run\<close> and the module at \<open>run'\<close>, both before rounding.
\<close>

definition laid_out :: "comp \<Rightarrow> gsym list \<Rightarrow> nat \<Rightarrow> nat \<Rightarrow> bool" where
  "laid_out st Gc run run' \<longleftrightarrow> (let ly = assign_addresses st; os = cp_O (ly_st ly); G = cp_G (ly_st ly) in
     length os = length (cp_O st) \<and> length G = length (cp_G st) \<and> length Gc = length G
   \<and> run = base_of (cp_O st) (length (cp_O st)) \<and> ly_textend ly = roundup8 run \<and> ly_modlen ly = roundup8 run' \<and> run \<le> run'
   \<and> ly_nsect ly = rank_of gs_is_sect Gc (length Gc)
   \<and> (\<forall>i<length os. os ! i = (compacted (cp_O st ! i))\<lparr>lo_object_base := base_of (cp_O st) i\<rparr>)
   \<and> (\<forall>k. same_but_addr (Gc ! k) (cp_G st ! k))
   \<and> (\<forall>k<length G. G ! k = (if gs_is_sect (Gc ! k) then (Gc ! k)\<lparr>gs_gid := rank_of gs_is_sect Gc (Suc k), gs_org := origin_of os (Gc ! k)\<rparr>
        else (Gc ! k)\<lparr>gs_gid := ly_nsect ly + rank_of (\<lambda>g. \<not> gs_is_sect g) Gc (Suc k)\<rparr>))
   \<and> (\<forall>k<length G. is_common (cp_G st ! k) \<longrightarrow> int (roundup8 run) \<le> gs_in_addr (Gc ! k)
        \<and> gs_in_addr (Gc ! k) + int (gs_len (cp_G st ! k)) \<le> int run' \<and> (8::int) dvd gs_in_addr (Gc ! k))
   \<and> (\<forall>k k'. k < k' \<longrightarrow> k' < length G \<longrightarrow> is_common (cp_G st ! k) \<longrightarrow> is_common (cp_G st ! k')
        \<longrightarrow> gs_in_addr (Gc ! k) + int (gs_len (cp_G st ! k)) \<le> gs_in_addr (Gc ! k'))
   \<and> (\<forall>i j l. i < length os \<longrightarrow> keeps (compacted (cp_O st ! i)) j l \<longrightarrow> lo_loc_g (cp_O st ! i) j < length (cp_G st)
        \<longrightarrow> gs_def_obj (cp_G st ! lo_loc_g (cp_O st ! i) j) = Some i \<longrightarrow> \<not> is_common (cp_G st ! lo_loc_g (cp_O st ! i) j)
        \<longrightarrow> gs_in_addr (Gc ! lo_loc_g (cp_O st ! i) j)
            = (if lo_has_drop (cp_O st ! i) then int (lc_newaddr l) else gs_in_addr (cp_G st ! lo_loc_g (cp_O st ! i) j))))"

lemma laid_outD:
  assumes "laid_out st Gc run run'"
  defines "ly \<equiv> assign_addresses st" and "os \<equiv> cp_O (ly_st (assign_addresses st))" and "G \<equiv> cp_G (ly_st (assign_addresses st))"
  shows "length os = length (cp_O st)" "length G = length (cp_G st)" "length Gc = length G"
    "run = base_of (cp_O st) (length (cp_O st))" "ly_textend ly = roundup8 run" "ly_modlen ly = roundup8 run'" "run \<le> run'"
    "ly_nsect ly = rank_of gs_is_sect Gc (length Gc)"
    "i < length os \<Longrightarrow> os ! i = (compacted (cp_O st ! i))\<lparr>lo_object_base := base_of (cp_O st) i\<rparr>"
    "same_but_addr (Gc ! k) (cp_G st ! k)"
    "k < length G \<Longrightarrow> G ! k = (if gs_is_sect (Gc ! k) then (Gc ! k)\<lparr>gs_gid := rank_of gs_is_sect Gc (Suc k), gs_org := origin_of os (Gc ! k)\<rparr>
      else (Gc ! k)\<lparr>gs_gid := ly_nsect ly + rank_of (\<lambda>g. \<not> gs_is_sect g) Gc (Suc k)\<rparr>)"
    "k < length G \<Longrightarrow> is_common (cp_G st ! k) \<Longrightarrow> int (roundup8 run) \<le> gs_in_addr (Gc ! k)
      \<and> gs_in_addr (Gc ! k) + int (gs_len (cp_G st ! k)) \<le> int run' \<and> (8::int) dvd gs_in_addr (Gc ! k)"
    "k < k' \<Longrightarrow> k' < length G \<Longrightarrow> is_common (cp_G st ! k) \<Longrightarrow> is_common (cp_G st ! k')
      \<Longrightarrow> gs_in_addr (Gc ! k) + int (gs_len (cp_G st ! k)) \<le> gs_in_addr (Gc ! k')"
    "i < length os \<Longrightarrow> keeps (compacted (cp_O st ! i)) j l \<Longrightarrow> lo_loc_g (cp_O st ! i) j < length (cp_G st)
      \<Longrightarrow> gs_def_obj (cp_G st ! lo_loc_g (cp_O st ! i) j) = Some i \<Longrightarrow> \<not> is_common (cp_G st ! lo_loc_g (cp_O st ! i) j)
      \<Longrightarrow> gs_in_addr (Gc ! lo_loc_g (cp_O st ! i) j)
          = (if lo_has_drop (cp_O st ! i) then int (lc_newaddr l) else gs_in_addr (cp_G st ! lo_loc_g (cp_O st ! i) j))"
  using assms(1) unfolding laid_out_def Let_def ly_def os_def G_def by (elim conjE; blast)+

lemma assign_spec:
  assumes own: "\<forall>i<length (cp_O st). own_entries (compacted (cp_O st ! i))"
  obtains Gc run run' where "laid_out st Gc run run'"
proof -
  obtain run st1 where p: "fold place_obj [0..<length (cp_O st)] (0, st) = (run, st1)" by fastforce
  note d = placedD [OF placed_all [OF own order_refl, unfolded p]]
  let ?n = "length (cp_G st)"
  obtain run' Gc where c: "fold place_common [0..<?n] (run, cp_G st1) = (run', Gc)" by fastforce
  have "commons_placed run (cp_G st1) ?n (run', Gc)" using commons_all [of ?n "cp_G st1" run] c d(3) by simp
  then have e: "run \<le> run'" "length Gc = ?n" "\<And>k. same_but_addr (Gc ! k) (cp_G st1 ! k)"
    "\<And>k. \<not> is_common (cp_G st1 ! k) \<Longrightarrow> Gc ! k = cp_G st1 ! k"
    "\<And>k. k < ?n \<Longrightarrow> is_common (cp_G st1 ! k) \<Longrightarrow> int (roundup8 run) \<le> gs_in_addr (Gc ! k)
       \<and> gs_in_addr (Gc ! k) + int (gs_len (cp_G st1 ! k)) \<le> int run' \<and> (8::int) dvd gs_in_addr (Gc ! k)"
    "\<And>k k'. k < k' \<Longrightarrow> k' < ?n \<Longrightarrow> is_common (cp_G st1 ! k) \<Longrightarrow> is_common (cp_G st1 ! k') \<Longrightarrow> gs_in_addr (Gc ! k) + int (gs_len (cp_G st1 ! k)) \<le> gs_in_addr (Gc ! k')"
    using d(3) unfolding commons_placed_def prod.case by auto
  define Gs where "Gs = map (\<lambda>k. if k < ?n \<and> gs_is_sect (Gc ! k) then (Gc ! k)\<lparr>gs_gid := rank_of gs_is_sect Gc (Suc k), gs_org := origin_of (cp_O st1) (Gc ! k)\<rparr> else Gc ! k) [0..<?n]"
  have s: "fold (sect_gids (cp_O st1)) [0..<?n] (0, Gc) = (rank_of gs_is_sect Gc ?n, Gs)"
    using sect_gids_all [of ?n Gc] e(2) by (simp add: Gs_def)
  define Go where "Go = map (\<lambda>k. if k < ?n \<and> \<not> gs_is_sect (Gs ! k) then (Gs ! k)\<lparr>gs_gid := rank_of gs_is_sect Gc ?n + rank_of (\<lambda>g. \<not> gs_is_sect g) Gs (Suc k)\<rparr> else Gs ! k) [0..<?n]"
  have o: "fold other_gids [0..<?n] (rank_of gs_is_sect Gc ?n, Gs) = (rank_of gs_is_sect Gc ?n + rank_of (\<lambda>g. \<not> gs_is_sect g) Gs ?n, Go)"
    using other_gids_all [of ?n Gs] by (simp add: Go_def Gs_def)
  have ly: "assign_addresses st = \<lparr>ly_st = st1\<lparr>cp_G := Go\<rparr>, ly_textend = roundup8 run, ly_modlen = roundup8 run', ly_nsect = rank_of gs_is_sect Gc ?n\<rparr>"
    unfolding assign_addresses_def by (simp add: p d(3) c s o Let_def)
  have "map gs_is_sect Gs = map gs_is_sect Gc" using e(2) by (intro nth_equalityI) (simp_all add: Gs_def)
  then have r: "rank_of (\<lambda>g. \<not> gs_is_sect g) Gs k = rank_of (\<lambda>g. \<not> gs_is_sect g) Gc k" for k
    unfolding rank_of_def by (metis (mono_tags, lifting) comp_apply filter_cong length_map filter_map take_map)
  have cm: "is_common (cp_G st1 ! k) = is_common (cp_G st ! k)" "gs_len (cp_G st1 ! k) = gs_len (cp_G st ! k)" for k
    using same_common [OF d(5)] same_but_addrD [OF d(5) [of k]] by simp_all
  have Go: "Go ! k = (if gs_is_sect (Gc ! k) then (Gc ! k)\<lparr>gs_gid := rank_of gs_is_sect Gc (Suc k), gs_org := origin_of (cp_O st1) (Gc ! k)\<rparr>
      else (Gc ! k)\<lparr>gs_gid := rank_of gs_is_sect Gc ?n + rank_of (\<lambda>g. \<not> gs_is_sect g) Gc (Suc k)\<rparr>)" if "k < ?n" for k
    using that r [of "Suc k"] by (simp add: Go_def Gs_def)
  have lG: "length Go = ?n" by (simp add: Go_def)
  have sel: "ly_st (assign_addresses st) = st1\<lparr>cp_G := Go\<rparr>" "cp_O (st1\<lparr>cp_G := Go\<rparr>) = cp_O st1" "cp_G (st1\<lparr>cp_G := Go\<rparr>) = Go"
    "ly_textend (assign_addresses st) = roundup8 run" "ly_modlen (assign_addresses st) = roundup8 run'"
    "ly_nsect (assign_addresses st) = rank_of gs_is_sect Gc ?n" by (simp_all add: ly)
  have tr: "same_but_addr (Gc ! k) (cp_G st ! k)" for k using e(3) d(5) same_but_addr_trans by blast
  have "laid_out st Gc run run'"
    unfolding laid_out_def Let_def sel lG
  proof (intro conjI allI impI)
    show "cp_O st1 ! i = (compacted (cp_O st ! i))\<lparr>lo_object_base := base_of (cp_O st) i\<rparr>" if "i < length (cp_O st1)" for i
      using d(4) [of i] that d(2) by simp
    show "int (roundup8 run) \<le> gs_in_addr (Gc ! k)" "gs_in_addr (Gc ! k) + int (gs_len (cp_G st ! k)) \<le> int run'" "(8::int) dvd gs_in_addr (Gc ! k)"
      if "k < ?n" "is_common (cp_G st ! k)" for k using e(5) [of k] that cm by simp_all
    show "gs_in_addr (Gc ! k) + int (gs_len (cp_G st ! k)) \<le> gs_in_addr (Gc ! k')"
      if "k < k'" "k' < ?n" "is_common (cp_G st ! k)" "is_common (cp_G st ! k')" for k k'
      using e(6) [of k k'] that cm by simp
    show "gs_in_addr (Gc ! lo_loc_g (cp_O st ! i) j) = (if lo_has_drop (cp_O st ! i) then int (lc_newaddr l) else gs_in_addr (cp_G st ! lo_loc_g (cp_O st ! i) j))"
      if "i < length (cp_O st1)" "keeps (compacted (cp_O st ! i)) j l" "lo_loc_g (cp_O st ! i) j < ?n" "gs_def_obj (cp_G st ! lo_loc_g (cp_O st ! i) j) = Some i"
        "\<not> is_common (cp_G st ! lo_loc_g (cp_O st ! i) j)" for i j l
      using d(7) [of i j l] e(4) [of "lo_loc_g (cp_O st ! i) j"] that cm d(2) by simp
    show "Go ! k = (if gs_is_sect (Gc ! k) then (Gc ! k)\<lparr>gs_gid := rank_of gs_is_sect Gc (Suc k), gs_org := origin_of (cp_O st1) (Gc ! k)\<rparr>
      else (Gc ! k)\<lparr>gs_gid := rank_of gs_is_sect Gc ?n + rank_of (\<lambda>g. \<not> gs_is_sect g) Gc (Suc k)\<rparr>)" if "k < ?n" for k using Go [OF that] .
  qed (use d(1-3) e(1,2) tr in simp_all)
  then show ?thesis by (rule that)
qed

subsection \<open>From the symbol pass\<close>

definition commons_unowned :: "gsym list \<Rightarrow> bool" where
  "commons_unowned G \<longleftrightarrow> list_all (\<lambda>g. is_common g \<longrightarrow> gs_def_obj g = None) G"

lemma unowned_local_sym: "(is_common g \<Longrightarrow> gs_def_obj g = None) \<Longrightarrow> is_common (local_sym i l g) \<Longrightarrow> gs_def_obj (local_sym i l g) = None"
  by (auto simp: local_sym_def common_sym_def is_common_def is_sect_type_def Let_def split: if_splits)

lemma unowned_local:
  assumes "comp_inv os D st" "commons_unowned (cp_G st)" "i < length os"
  shows "commons_unowned (cp_G (pass2_local i j st))"
proof (cases "lo_loc (cp_O st ! i) j")
  case None
  then show ?thesis using assms(2) by (simp add: pass2_local_def)
next
  case (Some l)
  have len: "i < length (cp_O st)" using assms(1,3) by (simp add: comp_inv_def same_objs_def)
  obtain gi G where e: "local_entry (cp_G st) l = (gi, G)" by fastforce
  have "is_common (G ! k) \<longrightarrow> gs_def_obj (G ! k) = None" if "k < length G" for k
    using e
  proof (cases rule: local_entry_cases)
    case old
    then show ?thesis using assms(2) that by (cases "k = gi") (auto simp: commons_unowned_def list_all_length is_common_def ld_types)
  next
    case fresh
    then show ?thesis using assms(2) that by (cases "k = gi") (auto simp: commons_unowned_def list_all_length is_common_def)
  qed
  then have "is_common (G[gi := local_sym i l (G ! gi)] ! k) \<longrightarrow> gs_def_obj (G[gi := local_sym i l (G ! gi)] ! k) = None" if "k < length G" for k
    using unowned_local_sym [of "G ! gi" i l] that local_entry_spec(1) [OF e] by (cases "k = gi") auto
  then show ?thesis by (simp add: commons_unowned_def list_all_length pass2_local_effect [OF Some e len])
qed

lemma unowned_label:
  assumes "commons_unowned (cp_G st)" shows "commons_unowned (cp_G (pass2_label i l st))"
  unfolding commons_unowned_def list_all_length
proof (intro allI impI)
  fix k assume k: "k < length (cp_G (pass2_label i l st))" "is_common (cp_G (pass2_label i l st) ! k)"
  then have t: "gs_type (cp_G (pass2_label i l st) ! k) \<noteq> T_LR" by (simp add: is_common_def ld_types)
  then have kl: "k < length (cp_G st)" using label_new [OF k(1)] by blast
  then have "cp_G (pass2_label i l st) ! k = cp_G st ! k" using label_keeps [OF kl, of i l] t by blast
  then show "gs_def_obj (cp_G (pass2_label i l st) ! k) = None" using assms k(2) kl by (simp add: commons_unowned_def list_all_length)
qed

interpretation commons: pass2_steps os "\<lambda>D st. commons_unowned (cp_G st)" for os
  by unfold_locales (simp add: commons_unowned_def pass2_start_def, rule unowned_local, assumption+, rule unowned_label)

text \<open>As read, a section's new origin is its origin.\<close>

definition decks_fresh :: "lobj list \<Rightarrow> bool" where
  "decks_fresh os \<longleftrightarrow> (\<forall>ob\<in>set os. \<forall>j l. lo_loc ob j = Some l \<longrightarrow> lc_newaddr l = lc_addr l)"

lemma sect_entry:
  assumes "names_clear os" "k < length (cp_G (pass2 os))" "gs_is_sect (cp_G (pass2 os) ! k)" "\<not> is_common (cp_G (pass2 os) ! k)"
  obtains i j l where "i < length os" "1 \<le> j" "j < MAXESD" "kept (pass2 os) (i, j) l" "gof (pass2 os) (i, j) = k"
    "holds_sect (cp_G (pass2 os) ! k) i l"
proof -
  let ?D = "{..<length os} \<times> {1..<MAXESD}"
  have ok: "sects_ok os ?D (pass2 os)" using sects.all_steps [of os] assms(1) by (simp add: sects_inv_def)
  have "made_by (pass2 os) ?D k" by (rule sects_okD(4) [OF ok assms(2,3)])
  then obtain x l where x: "x \<in> ?D" "lo_loc (cp_O (pass2 os) ! fst x) (snd x) = Some l" "\<not> lc_dropped l" "is_sect_type (lc_type l)"
    "lc_type l = gs_type (cp_G (pass2 os) ! k)" "gof (pass2 os) x = k" by (rule made_byE)
  have kp: "kept (pass2 os) x l"
    using x assms(3,4) by (auto simp: kept_def is_common_def is_sect_type_def is_obj_sect_def)
  show ?thesis
    by (rule that [of "fst x" "snd x" l]) (use x kp sects_okD(2) [OF ok x(1) kp] in auto)
qed

lemma keeps_compacted:
  assumes "keeps (compacted ob) j l"
  obtains l' where "lo_loc ob j = Some l'" "is_obj_sect (lc_type l')" "\<not> lc_dropped l'" "lc_len l' = lc_len l" "lc_addr l' = lc_addr l" "1 \<le> j" "j < MAXESD"
    "lc_type l' = lc_type l"
proof -
  have l: "lo_loc (compacted ob) j = Some l" "is_obj_sect (lc_type l)" "\<not> lc_dropped l" "1 \<le> j" "j < MAXESD"
    using assms by (auto simp: keeps_def sect_at_def split: option.splits if_splits)
  then have "map_option unmoved (lo_loc ob j) = Some (unmoved l)" using compacted_loc [of ob j] by simp
  then obtain l' where l': "lo_loc ob j = Some l'" "unmoved l' = unmoved l" by auto
  show ?thesis by (rule that [OF l'(1)]) (use l unmoved_eqD [OF l'(2)] in simp_all)
qed

lemma compacted_keeps:
  assumes "lo_loc ob j = Some l'" "is_obj_sect (lc_type l')" "\<not> lc_dropped l'" "1 \<le> j" "j < MAXESD"
  obtains l where "keeps (compacted ob) j l" "lc_len l = lc_len l'" "\<not> lo_has_drop ob \<Longrightarrow> l = l'"
  by (rule compacted_sect [OF assms(1)]) (use that assms in \<open>auto simp: keeps_def sect_at_def\<close>)

lemma own_entries_pass2:
  assumes "names_clear os" "i < length os"
  shows "own_entries (compacted (cp_O (pass2 os) ! i))"
  unfolding own_entries_def compacted_fields
proof (intro allI impI)
  let ?D = "{..<length os} \<times> {1..<MAXESD}"
  have ok: "sects_ok os ?D (pass2 os)" using sects.all_steps [of os] assms(1) by (simp add: sects_inv_def)
  fix j j' l l' assume k: "keeps (compacted (cp_O (pass2 os) ! i)) j l" "keeps (compacted (cp_O (pass2 os) ! i)) j' l'"
    "lo_loc_g (cp_O (pass2 os) ! i) j = lo_loc_g (cp_O (pass2 os) ! i) j'"
  obtain m where m: "kept (pass2 os) (i, j) m" "1 \<le> j" "j < MAXESD"
    by (rule keeps_compacted [OF k(1)]) (simp add: kept_def)
  obtain m' where m': "kept (pass2 os) (i, j') m'" "1 \<le> j'" "j' < MAXESD"
    by (rule keeps_compacted [OF k(2)]) (simp add: kept_def)
  show "j = j'" using sects_okD(3) [OF ok _ _ m(1) m'(1)] m m' k(3) assms(2) by (simp add: gof_def)
qed

lemma pass2_length: "length (cp_O (pass2 os)) = length os"
  using refs.all_steps [of os] by (simp add: comp_inv_def same_objs_def)

lemma pass2_newaddr:
  assumes "decks_fresh os" "i < length os" "lo_loc (cp_O (pass2 os) ! i) j = Some l"
  shows "lc_newaddr l = lc_addr l"
proof -
  have "map_option strip (lo_loc (cp_O (pass2 os) ! i) j) = map_option strip (lo_loc (os ! i) j)"
    using refs.all_steps [of os] assms(2) by (simp add: comp_inv_def same_objs_def)
  then have "map_option strip (lo_loc (os ! i) j) = Some (strip l)" using assms(3) by simp
  then obtain l' where l': "lo_loc (os ! i) j = Some l'" "strip l' = strip l" by auto
  then have "lc_newaddr l' = lc_addr l'" using assms(1,2) nth_mem [of i os] unfolding decks_fresh_def by blast
  then show ?thesis using l'(2) by (cases l; cases l') (simp add: strip_def)
qed

subsection \<open>Compaction\<close>

lemma next_min:
  "case fold (next_step ob lst) js nx of
     None \<Rightarrow> nx = None \<and> (\<forall>j\<in>set js. \<forall>l. sect_at ob j = Some l \<longrightarrow> int (lc_addr l) \<le> lst)
   | Some (k, m) \<Rightarrow> (\<forall>k' m'. nx = Some (k', m') \<longrightarrow> lc_addr m \<le> lc_addr m')
       \<and> (\<forall>j\<in>set js. \<forall>l. sect_at ob j = Some l \<longrightarrow> int (lc_addr l) > lst \<longrightarrow> lc_addr m \<le> lc_addr l)"
proof (induction js arbitrary: nx)
  case (Cons j js)
  have "case next_step ob lst j nx of None \<Rightarrow> nx = None \<and> (\<forall>l. sect_at ob j = Some l \<longrightarrow> int (lc_addr l) \<le> lst)
    | Some (k, m) \<Rightarrow> (\<forall>k' m'. nx = Some (k', m') \<longrightarrow> lc_addr m \<le> lc_addr m') \<and> (\<forall>l. sect_at ob j = Some l \<longrightarrow> int (lc_addr l) > lst \<longrightarrow> lc_addr m \<le> lc_addr l)"
    by (auto simp: next_step_def split: option.splits)
  then show ?case using Cons.IH [of "next_step ob lst j nx"]
    by (cases "next_step ob lst j nx"; cases "fold (next_step ob lst) js (next_step ob lst j nx)") force+
qed (simp split: option.split)

lemma next_sect_min:
  assumes "sect_at ob j = Some l" "1 \<le> j" "j < MAXESD" "lst < int (lc_addr l)"
  obtains k m where "next_sect ob lst = Some (k, m)" "lc_addr m \<le> lc_addr l"
  using next_min [where js = "[1..<MAXESD]" and nx = None and ob = ob and lst = lst] assms that by (cases "next_sect ob lst") (force simp: next_sect_def)+

definition sects_apart :: "lobj \<Rightarrow> bool" where
  "sects_apart ob \<longleftrightarrow> (\<forall>j j' l l'. j \<noteq> j' \<longrightarrow> sect_at ob j = Some l \<longrightarrow> sect_at ob j' = Some l'
     \<longrightarrow> lc_addr l \<noteq> lc_addr l' \<and> (lc_addr l < lc_addr l' \<longrightarrow> lc_addr l + lc_len l \<le> lc_addr l'))"

lemma set_sectE:
  assumes "sect_at (set_newaddr a n ob) j = Some l'"
  obtains l where "sect_at ob j = Some l" "lc_addr l' = lc_addr l" "lc_len l' = lc_len l" "lc_dropped l' = lc_dropped l"
    "l' = (if 1 \<le> j \<and> j < MAXESD \<and> lc_addr l = a then l\<lparr>lc_newaddr := n\<rparr> else l)"
proof -
  obtain l where "sect_at ob j = Some l" "l' = (if 1 \<le> j \<and> j < MAXESD \<and> lc_addr l = a then l\<lparr>lc_newaddr := n\<rparr> else l)"
    using assms unfolding set_newaddr_sect map_option_eq_Some by metis
  then show ?thesis using that [of l] by (simp split: if_splits)
qed

lemma sects_apart_set: "sects_apart ob \<Longrightarrow> sects_apart (set_newaddr a n ob)"
  unfolding sects_apart_def by (intro allI impI; elim set_sectE) metis

text \<open>Sections move down together, each at least as far from the one before it as it was from that one's end.\<close>

definition moved_down :: "lobj \<Rightarrow> int \<Rightarrow> nat \<Rightarrow> lobj \<Rightarrow> bool" where
  "moved_down ob lst r ob' \<longleftrightarrow>
     (\<forall>j l. sect_at ob j = Some l \<longrightarrow> int (lc_addr l) \<le> lst \<longrightarrow> sect_at ob' j = Some l)
   \<and> (\<forall>j l k m. 1 \<le> j \<longrightarrow> j < MAXESD \<longrightarrow> sect_at ob j = Some l \<longrightarrow> lst < int (lc_addr l) \<longrightarrow> next_sect ob lst = Some (k, m)
        \<longrightarrow> (\<exists>l'. sect_at ob' j = Some l' \<and> lc_addr m - r \<le> lc_newaddr l'))
   \<and> (\<forall>i j l m l' m'. 1 \<le> i \<longrightarrow> i < MAXESD \<longrightarrow> 1 \<le> j \<longrightarrow> j < MAXESD \<longrightarrow> sect_at ob i = Some l \<longrightarrow> sect_at ob j = Some m
        \<longrightarrow> lst < int (lc_addr l) \<longrightarrow> lc_addr l < lc_addr m \<longrightarrow> \<not> lc_dropped l \<longrightarrow> sect_at ob' i = Some l' \<longrightarrow> sect_at ob' j = Some m'
        \<longrightarrow> lc_newaddr l' + lc_len l \<le> lc_newaddr m')"

lemma compact_moves:
  "sects_apart ob \<Longrightarrow> \<forall>j l. 1 \<le> j \<longrightarrow> j < MAXESD \<longrightarrow> sect_at ob j = Some l \<longrightarrow> lst < int (lc_addr l) \<longrightarrow> r \<le> lc_addr l
    \<Longrightarrow> moved_down ob lst r (compact_loop ob lst r)"
proof (induction ob lst r rule: compact_loop.induct)
  case (1 ob lst r)
  show ?case
  proof (cases "next_sect ob lst")
    case None
    then have "False" if "1 \<le> j" "j < MAXESD" "sect_at ob j = Some l" "lst < int (lc_addr l)" for j l
      using next_sect_min [OF that(3,1,2,4)] by simp
    then show ?thesis using None by (auto simp: moved_down_def compact_loop.simps [of ob])
  next
    case (Some p)
    obtain nx l0 where p: "p = (nx, l0)" by fastforce
    define a where "a = lc_addr l0"
    define ob1 where "ob1 = set_newaddr a (a - r) ob"
    define r1 where "r1 = (if lc_dropped l0 then r + ((case next_sect ob1 (int a) of Some (k, m) \<Rightarrow> lc_addr m | None \<Rightarrow> a + lc_len l0) - a) else r)"
    have step: "compact_loop ob lst r = compact_loop ob1 (int a) r1"
      unfolding r1_def ob1_def a_def using Some p by (subst compact_loop.simps [of ob]) (simp add: Let_def)
    note n = next_sect_some [OF Some [unfolded p]]
    have ra: "r \<le> a" using 1(3) n by (simp add: a_def)
    have low: "a \<le> lc_addr l" if "1 \<le> j" "j < MAXESD" "sect_at ob j = Some l" "lst < int (lc_addr l)" for j l
      using next_sect_min [OF that(3,1,2,4)] Some p by (auto simp: a_def)
    have r1: "r1 \<le> lc_addr l \<and> (\<exists>k m. next_sect ob1 (int a) = Some (k, m) \<and> a - r \<le> lc_addr m - r1 \<and> (\<not> lc_dropped l0 \<longrightarrow> r1 = r))"
      if h: "1 \<le> j" "j < MAXESD" "sect_at ob1 j = Some l" "int a < int (lc_addr l)" for j l
    proof -
      obtain k m where m: "next_sect ob1 (int a) = Some (k, m)" "lc_addr m \<le> lc_addr l" by (rule next_sect_min [OF h(3,1,2,4)])
      have "a < lc_addr m" using next_sect_some(4) [OF m(1)] by simp
      then show ?thesis using m ra h(4) by (auto simp: r1_def)
    qed
    have sa: "sects_apart ob1" unfolding ob1_def by (rule sects_apart_set [OF 1(2)])
    have ih: "moved_down ob1 (int a) r1 (compact_loop ob1 (int a) r1)"
      using 1(1) [OF Some p [symmetric] a_def ob1_def refl] sa r1 unfolding r1_def by simp
    let ?ob' = "compact_loop ob1 (int a) r1"
    have at1: "sect_at ob1 j = Some (if 1 \<le> j \<and> j < MAXESD \<and> lc_addr l = a then l\<lparr>lc_newaddr := a - r\<rparr> else l)" if "sect_at ob j = Some l" for j l
      using that by (simp add: ob1_def set_newaddr_sect)
    show ?thesis
      unfolding step moved_down_def
    proof (intro conjI allI impI)
      fix j l assume h: "sect_at ob j = Some l" "int (lc_addr l) \<le> lst"
      then have "sect_at ob1 j = Some l" using at1 [OF h(1)] n(4) by (simp add: a_def)
      then show "sect_at ?ob' j = Some l" using ih h(2) n(4) unfolding moved_down_def a_def by force
    next
      fix j l k m assume h: "1 \<le> j" "j < MAXESD" "sect_at ob j = Some l" "lst < int (lc_addr l)" "next_sect ob lst = Some (k, m)"
      have m: "lc_addr m = a" using h(5) Some p by (simp add: a_def)
      show "\<exists>l'. sect_at ?ob' j = Some l' \<and> lc_addr m - r \<le> lc_newaddr l'"
      proof (cases "lc_addr l = a")
        case True
        then have "sect_at ?ob' j = Some (l\<lparr>lc_newaddr := a - r\<rparr>)" using at1 [OF h(3)] h(1,2) ih unfolding moved_down_def by simp
        then show ?thesis by (simp add: m)
      next
        case False
        then have g: "sect_at ob1 j = Some l" "int a < int (lc_addr l)" using at1 [OF h(3)] low [OF h(1-4)] by simp_all
        from r1 [OF h(1,2) g] obtain k' m' where m': "next_sect ob1 (int a) = Some (k', m')" "a - r \<le> lc_addr m' - r1" by blast
        then obtain l' where "sect_at ?ob' j = Some l'" "lc_addr m' - r1 \<le> lc_newaddr l'" using ih h(1,2) g unfolding moved_down_def by blast
        then show ?thesis using m' m by auto
      qed
    next
      fix i j l m l' m'
      assume h: "1 \<le> i" "i < MAXESD" "1 \<le> j" "j < MAXESD" "sect_at ob i = Some l" "sect_at ob j = Some m" "lst < int (lc_addr l)"
        "lc_addr l < lc_addr m" "\<not> lc_dropped l" "sect_at ?ob' i = Some l'" "sect_at ?ob' j = Some m'"
      have am: "a \<le> lc_addr l" "a < lc_addr m" using low [OF h(1,2,5,7)] h(8) by simp_all
      have m1: "sect_at ob1 j = Some m" using at1 [OF h(6)] am by simp
      show "lc_newaddr l' + lc_len l \<le> lc_newaddr m'"
      proof (cases "lc_addr l = a")
        case True
        have "i = nx" using 1(2) h(5) n(3) True unfolding sects_apart_def a_def by metis
        then have nd: "\<not> lc_dropped l0" using n(3) h(5,9) by simp
        have "sect_at ?ob' i = Some (l\<lparr>lc_newaddr := a - r\<rparr>)" using at1 [OF h(5)] h(1,2) True ih unfolding moved_down_def by simp
        then have l': "lc_newaddr l' = a - r" using h(10) by simp
        from r1 [OF h(3,4) m1] am obtain k q where q: "next_sect ob1 (int a) = Some (k, q)" "r1 = r" using nd by auto
        have mq: "lc_addr q - r \<le> lc_newaddr m'" using ih h(3,4,11) m1 am q unfolding moved_down_def by fastforce
        obtain q0 where q0: "sect_at ob k = Some q0" "lc_addr q = lc_addr q0" "a < lc_addr q0"
          using next_sect_some [OF q(1)] unfolding ob1_def by (auto elim!: set_sectE)
        have "k \<noteq> i" using q0 h(5) True by auto
        then have "a + lc_len l \<le> lc_addr q0" using 1(2) h(5) q0 True unfolding sects_apart_def by metis
        then show ?thesis using l' mq q0(2) ra by simp
      next
        case False
        then have "sect_at ob1 i = Some l" "int a < int (lc_addr l)" using at1 [OF h(5)] am by simp_all
        then show ?thesis using ih h m1 unfolding moved_down_def by blast
      qed
    qed
  qed
qed

lemma compacted_apart:
  assumes "sects_apart ob" "keeps (compacted ob) i l" "keeps (compacted ob) j m" "i \<noteq> j" "\<forall>j l. lo_loc ob j = Some l \<longrightarrow> lc_newaddr l = lc_addr l"
  shows "lc_newaddr l + lc_len l \<le> lc_newaddr m \<or> lc_newaddr m + lc_len m \<le> lc_newaddr l"
proof -
  have s: "sect_at ob i' = Some l' \<Longrightarrow> lo_loc ob i' = Some l'" for i' l' by (auto simp: sect_at_def split: option.splits if_splits)
  obtain l0 where l0: "lo_loc ob i = Some l0" "is_obj_sect (lc_type l0)" "\<not> lc_dropped l0" "lc_len l0 = lc_len l" "lc_addr l0 = lc_addr l" "1 \<le> i" "i < MAXESD"
    by (rule keeps_compacted [OF assms(2)])
  obtain m0 where m0: "lo_loc ob j = Some m0" "is_obj_sect (lc_type m0)" "\<not> lc_dropped m0" "lc_len m0 = lc_len m" "lc_addr m0 = lc_addr m" "1 \<le> j" "j < MAXESD"
    by (rule keeps_compacted [OF assms(3)])
  have at: "sect_at ob i = Some l0" "sect_at ob j = Some m0" "sect_at (compacted ob) i = Some l" "sect_at (compacted ob) j = Some m"
    using l0 m0 assms(2,3) by (simp_all add: sect_at_def keeps_def)
  have ap: "lc_addr l0 \<noteq> lc_addr m0" "lc_addr l0 < lc_addr m0 \<Longrightarrow> lc_addr l0 + lc_len l0 \<le> lc_addr m0" "lc_addr m0 < lc_addr l0 \<Longrightarrow> lc_addr m0 + lc_len m0 \<le> lc_addr l0"
    using assms(1,4) at unfolding sects_apart_def by metis+
  show ?thesis
  proof (cases "lo_has_drop ob")
    case True
    have md: "moved_down ob (-1) 0 (compacted ob)"
      using compact_moves [of ob "-1" 0] assms(1) True by (simp add: compacted_def)
    have up: "lc_newaddr l' + lc_len l1 \<le> lc_newaddr m'"
      if "1 \<le> i'" "i' < MAXESD" "1 \<le> j'" "j' < MAXESD" "sect_at ob i' = Some l1" "sect_at ob j' = Some m1" "lc_addr l1 < lc_addr m1" "\<not> lc_dropped l1"
        "sect_at (compacted ob) i' = Some l'" "sect_at (compacted ob) j' = Some m'" for i' j' l1 m1 l' m'
      using md that unfolding moved_down_def by (elim conjE) force
    show ?thesis
      using up [OF l0(6,7) m0(6,7) at(1,2) _ l0(3) at(3,4)] up [OF m0(6,7) l0(6,7) at(2,1) _ m0(3) at(4,3)] ap(1) l0(4) m0(4)
      by (cases "lc_addr l0 < lc_addr m0") auto
  next
    case False
    then have "l = l0" "m = m0" using at s by (auto simp: compacted_def)
    then show ?thesis using ap assms(5) l0(1) m0(1) by (metis linorder_neqE_nat)
  qed
qed

lemma sects_apart_pass2:
  assumes "i < length os" "sects_apart (os ! i)"
  shows "sects_apart (cp_O (pass2 os) ! i)"
proof -
  have c: "comp_inv os ({..<length os} \<times> {1..<MAXESD}) (pass2 os)" using refs.all_steps [of os] by simp
  have ex: "\<exists>m. sect_at (os ! i) j = Some m \<and> lc_addr l = lc_addr m \<and> lc_len l = lc_len m" if "sect_at (cp_O (pass2 os) ! i) j = Some l" for j l
  proof -
    have l: "lo_loc (cp_O (pass2 os) ! i) j = Some l" "is_obj_sect (lc_type l)" using that by (auto simp: sect_at_def split: option.splits if_splits)
    obtain m where "lo_loc (os ! i) j = Some m" "lc_type l = lc_type m" "lc_addr l = lc_addr m" "lc_len l = lc_len m"
      by (rule local_lent [OF c assms(1) l(1)])
    then show ?thesis using l(2) by (simp add: sect_at_def)
  qed
  show ?thesis
    unfolding sects_apart_def
  proof (intro allI impI)
    fix j j' l l' assume h: "j \<noteq> j'" "sect_at (cp_O (pass2 os) ! i) j = Some l" "sect_at (cp_O (pass2 os) ! i) j' = Some l'"
    obtain m m' where "sect_at (os ! i) j = Some m" "sect_at (os ! i) j' = Some m'" "lc_addr l = lc_addr m" "lc_len l = lc_len m" "lc_addr l' = lc_addr m'"
      using ex [OF h(2)] ex [OF h(3)] by blast
    then show "lc_addr l \<noteq> lc_addr l' \<and> (lc_addr l < lc_addr l' \<longrightarrow> lc_addr l + lc_len l \<le> lc_addr l')"
      using assms(2) h(1) unfolding sects_apart_def by simp
  qed
qed

lemma sect_place:
  assumes nc: "names_clear os" and fr: "decks_fresh os"
  defines "ly \<equiv> assign_addresses (pass2 os)" and "G \<equiv> cp_G (ly_st (assign_addresses (pass2 os)))" and "bs \<equiv> base_of (cp_O (pass2 os))"
  assumes k: "k < length G" "gs_is_sect (G ! k)" "gs_type (G ! k) \<noteq> T_CM"
  obtains i j l where "i < length os" "gs_def_obj (G ! k) = Some i" "int (bs i) \<le> gs_org (G ! k)" "gs_org (G ! k) + int (gs_len (G ! k)) \<le> int (bs (Suc i))"
    "bs (Suc i) \<le> ly_textend ly" "keeps (compacted (cp_O (pass2 os) ! i)) j l" "gof (pass2 os) (i, j) = k"
    "gs_org (G ! k) = int (bs i) + int (lc_newaddr l)" "gs_len (G ! k) = lc_len l"
proof -
  let ?st = "pass2 os"
  have own: "\<forall>i<length (cp_O ?st). own_entries (compacted (cp_O ?st ! i))" using own_entries_pass2 [OF nc] pass2_length by simp
  obtain Gc run run' where "laid_out ?st Gc run run'" by (rule assign_spec [OF own])
  note a = laid_outD [OF this, unfolded pass2_length, folded ly_def G_def bs_def]
  have c: "gs_is_sect (Gc ! k)" "G ! k = (Gc ! k)\<lparr>gs_gid := rank_of gs_is_sect Gc (Suc k), gs_org := origin_of (cp_O (ly_st ly)) (Gc ! k)\<rparr>"
    using a(11) [OF k(1)] k(2) by (auto split: if_splits)
  note same = same_but_addrD [OF a(10) [of k]]
  have ty: "gs_is_sect (cp_G ?st ! k)" "\<not> is_common (cp_G ?st ! k)" using same c k(3) by (auto simp: is_common_def)
  obtain i j l where x: "i < length os" "1 \<le> j" "j < MAXESD" "kept ?st (i, j) l" "gof ?st (i, j) = k" "holds_sect (cp_G ?st ! k) i l"
    using k(1) a(2) ty by (auto intro: sect_entry [OF nc])
  have lk: "lo_loc (cp_O ?st ! i) j = Some l" "is_obj_sect (lc_type l)" "\<not> lc_dropped l" using x(4) by (auto simp: kept_def)
  obtain l' where l': "keeps (compacted (cp_O ?st ! i)) j l'" "lc_len l' = lc_len l" "\<not> lo_has_drop (cp_O ?st ! i) \<Longrightarrow> l' = l"
    by (rule compacted_keeps [OF lk x(2,3)]) blast
  have h: "gs_def_obj (cp_G ?st ! k) = Some i" "gs_len (cp_G ?st ! k) = lc_len l" "gs_in_addr (cp_G ?st ! k) = int (lc_addr l)"
    using x(6) by (simp_all add: holds_sect_def)
  have "gs_in_addr (Gc ! k) = int (lc_newaddr l')"
    using a(14) [OF _ l'(1)] a(1) x(1) h k(1) a(2) x(5) ty(2) l'(3) pass2_newaddr [OF fr x(1) lk(1)] by (auto simp: gof_def)
  then have org: "gs_org (G ! k) = int (bs i) + int (lc_newaddr l')" and d: "gs_def_obj (G ! k) = Some i" "gs_len (G ! k) = lc_len l"
    using c(2) same h x(1) by (simp_all add: origin_of_def a(1,9))
  have "lc_newaddr l' + lc_len l' \<le> obj_size (compacted (cp_O ?st ! i))"
    using l'(1) by (intro obj_size_ge [of _ j]) (simp_all add: keeps_def)
  also have "\<dots> \<le> roundup8 (obj_size (compacted (cp_O ?st ! i)))" by (rule roundup8_ge)
  finally have "int (bs i) + int (lc_newaddr l') + int (lc_len l) \<le> int (bs (Suc i))" using l'(2) by (simp add: bs_def base_of_Suc)
  moreover have "bs (Suc i) \<le> ly_textend ly"
    using base_of_mono [of "Suc i" "length os" "cp_O ?st"] x(1) roundup8_ge(1) [of run] by (simp add: a(4,5) bs_def)
  ultimately show ?thesis using that [of i j l'] x(1,5) d org l'(1,2) by simp
qed

lemma common_place:
  assumes nc: "names_clear os"
  defines "ly \<equiv> assign_addresses (pass2 os)" and "G \<equiv> cp_G (ly_st (assign_addresses (pass2 os)))"
  assumes k: "k < length G" "gs_is_sect (G ! k)" "gs_type (G ! k) = T_CM"
  shows "int (ly_textend ly) \<le> gs_org (G ! k)" "gs_org (G ! k) + int (gs_len (G ! k)) \<le> int (ly_modlen ly)" "8 dvd gs_org (G ! k)" "gs_def_obj (G ! k) = None"
    "k < k' \<Longrightarrow> k' < length G \<Longrightarrow> gs_is_sect (G ! k') \<Longrightarrow> gs_type (G ! k') = T_CM \<Longrightarrow> gs_org (G ! k) + int (gs_len (G ! k)) \<le> gs_org (G ! k')"
proof -
  let ?st = "pass2 os"
  have own: "\<forall>i<length (cp_O ?st). own_entries (compacted (cp_O ?st ! i))" using own_entries_pass2 [OF nc] pass2_length by simp
  obtain Gc run run' where "laid_out ?st Gc run run'" by (rule assign_spec [OF own])
  note a = laid_outD [OF this, unfolded pass2_length, folded ly_def G_def]
  have c: "is_common (cp_G ?st ! m) \<and> gs_org (G ! m) = gs_in_addr (Gc ! m) \<and> gs_len (G ! m) = gs_len (cp_G ?st ! m) \<and> gs_def_obj (G ! m) = None"
    if "m < length G" "gs_is_sect (G ! m)" "gs_type (G ! m) = T_CM" for m
  proof -
    note same = same_but_addrD [OF a(10) [of m]]
    have g: "gs_is_sect (Gc ! m)" "G ! m = (Gc ! m)\<lparr>gs_gid := rank_of gs_is_sect Gc (Suc m), gs_org := origin_of (cp_O (ly_st ly)) (Gc ! m)\<rparr>"
      using a(11) [OF that(1)] that(2) by (auto split: if_splits)
    have cm: "is_common (cp_G ?st ! m)" using same g that(3) by (simp add: is_common_def)
    then have "gs_def_obj (cp_G ?st ! m) = None"
      using commons.all_steps [of os] that(1) a(2) by (simp add: commons_unowned_def list_all_length)
    then show ?thesis using cm g same by (simp add: origin_of_def)
  qed
  have k': "is_common (cp_G ?st ! k)" "gs_org (G ! k) = gs_in_addr (Gc ! k)" "gs_len (G ! k) = gs_len (cp_G ?st ! k)" using c [OF k] by simp_all
  show "int (ly_textend ly) \<le> gs_org (G ! k)" "gs_org (G ! k) + int (gs_len (G ! k)) \<le> int (ly_modlen ly)" "8 dvd gs_org (G ! k)" "gs_def_obj (G ! k) = None"
    using c [OF k] a(12) [OF k(1) k'(1)] k'(2,3) roundup8_ge(1) [of run'] by (simp_all add: a(5,6))
  show "gs_org (G ! k) + int (gs_len (G ! k)) \<le> gs_org (G ! k')"
    if "k < k'" "k' < length G" "gs_is_sect (G ! k')" "gs_type (G ! k') = T_CM"
    using a(13) [OF that(1,2) k'(1)] c [OF that(2-4)] k'(2,3) by simp
qed

lemma text_sects_apart:
  fixes os :: "lobj list"
  defines "G \<equiv> cp_G (ly_st (assign_addresses (pass2 os)))"
  assumes nc: "names_clear os" and fr: "decks_fresh os" and ne: "k' \<noteq> k"
    and k: "k < length G" "gs_is_sect (G ! k)" "gs_type (G ! k) \<noteq> T_CM" and k': "k' < length G" "gs_is_sect (G ! k')" "gs_type (G ! k') \<noteq> T_CM"
    and ap: "\<forall>i. gs_def_obj (G ! k) = Some i \<and> gs_def_obj (G ! k') = Some i \<longrightarrow> sects_apart (os ! i)"
  shows "gs_org (G ! k) + int (gs_len (G ! k)) \<le> gs_org (G ! k') \<or> gs_org (G ! k') + int (gs_len (G ! k')) \<le> gs_org (G ! k)"
proof -
  note sp = sect_place [OF nc fr, folded G_def]
  let ?bs = "base_of (cp_O (pass2 os))"
  obtain i j l where i: "i < length os" "gs_def_obj (G ! k) = Some i" "int (?bs i) \<le> gs_org (G ! k)" "gs_org (G ! k) + int (gs_len (G ! k)) \<le> int (?bs (Suc i))"
    "keeps (compacted (cp_O (pass2 os) ! i)) j l" "gof (pass2 os) (i, j) = k"
    "gs_org (G ! k) = int (?bs i) + int (lc_newaddr l)" "gs_len (G ! k) = lc_len l" by (rule sp [OF k])
  obtain i' j' l' where i': "gs_def_obj (G ! k') = Some i'" "int (?bs i') \<le> gs_org (G ! k')" "gs_org (G ! k') + int (gs_len (G ! k')) \<le> int (?bs (Suc i'))"
    "keeps (compacted (cp_O (pass2 os) ! i')) j' l'" "gof (pass2 os) (i', j') = k'"
    "gs_org (G ! k') = int (?bs i') + int (lc_newaddr l')" "gs_len (G ! k') = lc_len l'" by (rule sp [OF k'])
  consider "i < i'" | "i' < i" | "i = i'" by linarith
  then show ?thesis
  proof cases
    case 3
    then have "sects_apart (os ! i)" using ap i(2) i'(1) by simp
    then have "sects_apart (cp_O (pass2 os) ! i)" by (rule sects_apart_pass2 [OF i(1)])
    moreover have "j \<noteq> j'" using i(6) i'(5) ne 3 by auto
    ultimately show ?thesis
      using compacted_apart [of "cp_O (pass2 os) ! i" j l j' l'] i(5,7,8) i'(4,6,7) 3 pass2_newaddr [OF fr i(1)] by auto
  qed (use base_of_mono [of "Suc i" i' "cp_O (pass2 os)"] base_of_mono [of "Suc i'" i "cp_O (pass2 os)"] i(3,4) i'(2,3) in auto)
qed


subsection \<open>ESDIDs and order\<close>

lemma rank_of_mono: "k \<le> k' \<Longrightarrow> rank_of P G k \<le> rank_of P G k'"
proof (induction rule: dec_induct)
  case (step n)
  then show ?case by (cases "n < length G") (auto simp: rank_of_Suc, simp add: rank_of_def)
qed simp

lemma rank_of_less: "k < k' \<Longrightarrow> k' < length G \<Longrightarrow> P (G ! k') \<Longrightarrow> rank_of P G (Suc k) < rank_of P G (Suc k')"
  using rank_of_mono [of "Suc k" k' P G] by (simp add: rank_of_Suc)

lemma rank_of_split: "k \<le> length G \<Longrightarrow> rank_of P G k + rank_of (\<lambda>g. \<not> P g) G k = k"
  using sum_length_filter_compl [of P "take k G"] by (simp add: rank_of_def)

lemma move_sects_length: "length (move_sects i ob G) = length G"
  using move_fold [of i ob "[1..<MAXESD]" G] by (simp add: move_sects_def)

lemma assign_gid:
  fixes st :: comp
  defines "ly \<equiv> assign_addresses st"
  obtains Gc where "length (cp_G (ly_st ly)) = length Gc" "ly_nsect ly = rank_of gs_is_sect Gc (length Gc)"
    "\<And>k. k < length Gc \<Longrightarrow> gs_is_sect (cp_G (ly_st ly) ! k) = gs_is_sect (Gc ! k) \<and> gs_gid (cp_G (ly_st ly) ! k) =
      (if gs_is_sect (Gc ! k) then rank_of gs_is_sect Gc (Suc k) else ly_nsect ly + rank_of (\<lambda>g. \<not> gs_is_sect g) Gc (Suc k))"
proof -
  obtain run st1 where p: "fold place_obj [0..<length (cp_O st)] (0, st) = (run, st1)" by fastforce
  let ?n = "length (cp_G st1)"
  obtain run' Gc where c: "fold place_common [0..<?n] (run, cp_G st1) = (run', Gc)" by fastforce
  have n: "length Gc = ?n" using commons_all [of ?n "cp_G st1" run] c by (simp add: commons_placed_def)
  obtain m Gs where s: "fold (sect_gids (cp_O st1)) [0..<?n] (0, Gc) = (m, Gs)" by fastforce
  have sG: "m = rank_of gs_is_sect Gc ?n" "length Gs = ?n" "k < ?n \<Longrightarrow> Gs ! k = (if gs_is_sect (Gc ! k)
      then (Gc ! k)\<lparr>gs_gid := rank_of gs_is_sect Gc (Suc k), gs_org := origin_of (cp_O st1) (Gc ! k)\<rparr> else Gc ! k)" for k
    using sect_gids_all [of ?n Gc "cp_O st1"] n s by auto
  obtain m' Go where o: "fold other_gids [0..<?n] (m, Gs) = (m', Go)" by fastforce
  have oG: "length Go = ?n" "k < ?n \<Longrightarrow> Go ! k = (if \<not> gs_is_sect (Gs ! k)
      then (Gs ! k)\<lparr>gs_gid := m + rank_of (\<lambda>g. \<not> gs_is_sect g) Gs (Suc k)\<rparr> else Gs ! k)" for k
    using other_gids_all [of ?n Gs m] sG(2) o by auto
  have "map gs_is_sect Gs = map gs_is_sect Gc" using n sG(2,3) by (intro nth_equalityI) auto
  then have r: "rank_of (\<lambda>g. \<not> gs_is_sect g) Gs k = rank_of (\<lambda>g. \<not> gs_is_sect g) Gc k" for k
    unfolding rank_of_def by (metis (mono_tags, lifting) comp_apply filter_cong length_map filter_map take_map)
  have ly: "cp_G (ly_st ly) = Go" "ly_nsect ly = m"
    unfolding ly_def assign_addresses_def by (simp_all add: p c s o Let_def)
  show ?thesis by (rule that [of Gc]) (use ly n sG oG r in auto)
qed

lemma gids_dense:
  fixes st :: comp
  defines "ly \<equiv> assign_addresses st"
  shows "bij_betw (\<lambda>k. gs_gid (cp_G (ly_st ly) ! k)) {..<length (cp_G (ly_st ly))} {1..length (cp_G (ly_st ly))}
    \<and> list_all (\<lambda>g. gs_is_sect g \<longleftrightarrow> gs_gid g \<le> ly_nsect ly) (cp_G (ly_st ly))"
proof -
  obtain Gc where g: "length (cp_G (ly_st ly)) = length Gc" "ly_nsect ly = rank_of gs_is_sect Gc (length Gc)"
    "\<And>k. k < length Gc \<Longrightarrow> gs_is_sect (cp_G (ly_st ly) ! k) = gs_is_sect (Gc ! k) \<and> gs_gid (cp_G (ly_st ly) ! k) =
      (if gs_is_sect (Gc ! k) then rank_of gs_is_sect Gc (Suc k) else ly_nsect ly + rank_of (\<lambda>g. \<not> gs_is_sect g) Gc (Suc k))"
    unfolding ly_def by (rule assign_gid [of st]) blast
  let ?n = "length Gc" and ?id = "\<lambda>k. gs_gid (cp_G (ly_st ly) ! k)"
  have b: "gs_is_sect (Gc ! k) \<Longrightarrow> 1 \<le> ?id k \<and> ?id k \<le> ly_nsect ly"
    "\<not> gs_is_sect (Gc ! k) \<Longrightarrow> ly_nsect ly < ?id k \<and> ?id k \<le> ?n" if "k < ?n" for k
    using that g(2) g(3) [OF that] rank_of_Suc [of k Gc gs_is_sect] rank_of_Suc [of k Gc "\<lambda>g. \<not> gs_is_sect g"]
      rank_of_mono [of "Suc k" ?n gs_is_sect Gc] rank_of_mono [of "Suc k" ?n "\<lambda>g. \<not> gs_is_sect g" Gc] rank_of_split [of ?n Gc gs_is_sect]
    by auto
  have inj: "?id k \<noteq> ?id k'" if "k < k'" "k' < ?n" for k k'
    using b [of k] b [of k'] that g(3) [of k] g(3) [of k'] rank_of_less [of k k' Gc gs_is_sect] rank_of_less [of k k' Gc "\<lambda>g. \<not> gs_is_sect g"]
    by (cases "gs_is_sect (Gc ! k)"; cases "gs_is_sect (Gc ! k')") auto
  then have i: "inj_on ?id {..<?n}" unfolding inj_on_def by (metis lessThan_iff linorder_neqE_nat)
  have r: "?id ` {..<?n} \<subseteq> {1..?n}"
    using b rank_of_split [of ?n Gc gs_is_sect] g(2) by (force dest: order_trans)
  have "?id ` {..<?n} = {1..?n}" using i r by (intro card_subset_eq) (simp_all add: card_image)
  then have "bij_betw ?id {..<?n} {1..?n}" using i by (simp add: bij_betw_def)
  moreover have "list_all (\<lambda>g. gs_is_sect g \<longleftrightarrow> gs_gid g \<le> ly_nsect ly) (cp_G (ly_st ly))"
    unfolding list_all_length using b g(1,3) by (metis linorder_not_le)
  ultimately show ?thesis by (simp add: g(1))
qed

text \<open>
  C23. External symbol ids: after the layout the entries of the composite table carry the ids from 1 to their number,
  each once, and the control sections and commons have the first ones.
\<close>

theorem esdids_dense:
  fixes st :: comp
  defines "ly \<equiv> assign_addresses st"
  shows "bij_betw (\<lambda>k. gs_gid (cp_G (ly_st ly) ! k)) {..<length (cp_G (ly_st ly))} {1..length (cp_G (ly_st ly))}
    \<and> list_all (\<lambda>g. gs_is_sect g \<longleftrightarrow> gs_gid g \<le> ly_nsect ly) (cp_G (ly_st ly))"
  unfolding ly_def by (rule gids_dense)

interpretation by_org: keyed_order "org_gt G" "\<lambda>k. gs_org (G ! k)" for G
  by unfold_locales (simp add: org_gt_def)

lemma gidx_sort: "gidx G = sort_key (\<lambda>k. gs_org (G ! k)) (filter (\<lambda>k. gs_is_sect (G ! k)) [0..<length G])"
  unfolding gidx_def by (rule by_org.sort_is_sort_key)

lemma gidx_sorted: "sorted (map (\<lambda>k. gs_org (G ! k)) (gidx G))" "set (gidx G) = {k. k < length G \<and> gs_is_sect (G ! k)}" "distinct (gidx G)"
  unfolding gidx_sort by auto

lemma layout_keeps:
  assumes "names_clear os"
  defines "G \<equiv> cp_G (ly_st (assign_addresses (pass2 os)))"
  shows "length G = length (cp_G (pass2 os))"
    "k < length (cp_G (pass2 os)) \<Longrightarrow> gs_is_sect (G ! k) = gs_is_sect (cp_G (pass2 os) ! k) \<and> gs_type (G ! k) = gs_type (cp_G (pass2 os) ! k)
      \<and> gs_len (G ! k) = gs_len (cp_G (pass2 os) ! k) \<and> gs_def_obj (G ! k) = gs_def_obj (cp_G (pass2 os) ! k) \<and> gs_name (G ! k) = gs_name (cp_G (pass2 os) ! k)
      \<and> gs_owner (G ! k) = gs_owner (cp_G (pass2 os) ! k)"
proof -
  have own: "\<forall>i<length (cp_O (pass2 os)). own_entries (compacted (cp_O (pass2 os) ! i))" using own_entries_pass2 [OF assms(1)] pass2_length by simp
  obtain Gc run run' where "laid_out (pass2 os) Gc run run'" by (rule assign_spec [OF own])
  note a = laid_outD [OF this, folded G_def]
  show "length G = length (cp_G (pass2 os))" by (rule a(2))
  show "gs_is_sect (G ! k) = gs_is_sect (cp_G (pass2 os) ! k) \<and> gs_type (G ! k) = gs_type (cp_G (pass2 os) ! k)
      \<and> gs_len (G ! k) = gs_len (cp_G (pass2 os) ! k) \<and> gs_def_obj (G ! k) = gs_def_obj (cp_G (pass2 os) ! k) \<and> gs_name (G ! k) = gs_name (cp_G (pass2 os) ! k)
      \<and> gs_owner (G ! k) = gs_owner (cp_G (pass2 os) ! k)" if "k < length (cp_G (pass2 os))"
    using a(11) [of k] a(2) same_but_addrD [OF a(10) [of k]] that by simp
qed

lemma ex_fresh: "decks_fresh ex_decks"
  by (auto simp: decks_fresh_def ex_decks_def lobj_init_def ex_lent_def split: if_splits)


definition ex_empty :: lobj where
  "ex_empty = lobj_init\<lparr>lo_loc := [1 \<mapsto> (ex_lent [1] T_SD 0 0)\<lparr>lc_dropped := True\<rparr>, 2 \<mapsto> ex_lent [2] T_SD 0 16, 3 \<mapsto> ex_lent [3] T_SD 16 16], lo_has_drop := True\<rparr>"

lemma next_below:
  assumes "\<forall>j\<ge>n. lo_loc ob j = None" "1 \<le> n" "n \<le> MAXESD"
  shows "next_sect ob lst = fold (next_step ob lst) [1..<n] None"
proof -
  have "fold (next_step ob lst) [n..<MAXESD] nx = nx" for nx
    using assms(1) by (intro fold_idle) (simp add: next_step_def sect_at_def)
  then show ?thesis unfolding next_sect_def upt_slots [OF assms(2,3)] by simp
qed


end
