(* ===== verification/Ld_Image.thy ===== *)
theory Ld_Image
  imports Ld_Layout
begin

section \<open>ld370: the module image\<close>

text \<open>
  The text image and its relocation, in \<^verbatim>\<open>main\<close> of \<^verbatim>\<open>ld370/src/ld370.c\<close>: the text of the objects is copied to their bases,
  of an object with dropped sections only the kept ones, each to its new origin; then every address constant
  is moved by the distance its target moved. A copy or a field outside the image, which the C code does not
  check for, is \<open>None\<close>. Shown here: the image holds the text of every kept section, and every address constant
  ends as its input value plus the distance its target moved.
\<close>

definition MOD_ARCH_MAX :: nat where "MOD_ARCH_MAX = 2 ^ 24"

definition memcpy :: "nat \<times> 'a list \<Rightarrow> 'a list option \<Rightarrow> 'a list option" where
  "memcpy = (\<lambda>(p, v) m. case m of None \<Rightarrow> None
     | Some b \<Rightarrow> if p + length v \<le> length b then Some (take p b @ v @ drop (p + length v) b) else None)"

definition sect_copy :: "(lobj \<Rightarrow> 'a list) \<Rightarrow> lobj \<Rightarrow> nat \<Rightarrow> (nat \<times> 'a list) list" where
  "sect_copy sel ob jj = (case lo_loc ob jj of None \<Rightarrow> [] | Some l \<Rightarrow>
    let a = lc_addr l; n = lc_len l; textlen = length (lo_text ob) in
    if \<not> is_sect_type (lc_type l) \<or> lc_dropped l then []
    else if a \<ge> textlen then []
    else let n = (if a + n > textlen then textlen - a else n)
         in [(lo_object_base ob + lc_newaddr l, take n (drop a (sel ob)))])"

definition obj_copies :: "(lobj \<Rightarrow> 'a list) \<Rightarrow> lobj \<Rightarrow> (nat \<times> 'a list) list" where
  "obj_copies sel ob =
    (if lo_text ob = [] then []
     else if \<not> lo_has_drop ob then [(lo_object_base ob, sel ob)]
     else concat (map (sect_copy sel ob) [1..<MAXESD]))"

definition build_image :: "(lobj \<Rightarrow> 'a list) \<Rightarrow> 'a \<Rightarrow> nat \<Rightarrow> lobj list \<Rightarrow> 'a list option" where
  "build_image sel z modlen os = fold memcpy (concat (map (obj_copies sel) os)) (Some (replicate modlen z))"

definition rld_dropped :: "lobj \<Rightarrow> obj_rld \<Rightarrow> bool" where
  "rld_dropped ob r = (let P = or_p r in 1 \<le> P \<and> P < MAXESD \<and> (case lo_loc ob P of Some l \<Rightarrow> lc_dropped l | None \<Rightarrow> False))"

definition rld_modaddr :: "lobj \<Rightarrow> obj_rld \<Rightarrow> int" where
  "rld_modaddr ob r = (let P = or_p r; a = int (or_addr r);
     a = (case if 1 \<le> P \<and> P < MAXESD then lo_loc ob P else None of Some l \<Rightarrow> a + (int (lc_newaddr l) - int (lc_addr l)) | None \<Rightarrow> a)
     in int (lo_object_base ob) + a)"

definition rld_len :: "obj_rld \<Rightarrow> nat" where
  "rld_len r = unat (drop_bit 2 (or_flag r) AND 3) + 1"

text \<open>The resolved address of an item's target; \<open>-1\<close> for none.\<close>

definition rld_base :: "gsym list \<Rightarrow> lobj \<Rightarrow> obj_rld \<Rightarrow> int" where
  "rld_base G ob r = (case local_to_g ob (or_r r) of
     Some Rg \<Rightarrow>
       if gs_is_sect (G ! Rg) then gs_org (G ! Rg)
       else if gs_type (G ! Rg) = T_LR then (case gs_owner (G ! Rg) of
         Some w \<Rightarrow> if gs_is_sect (G ! w) then gs_org (G ! w) + gs_in_addr (G ! Rg) else -1 | None \<Rightarrow> -1)
       else -1
   | None \<Rightarrow> -1)"

definition rd_mod :: "bytes \<Rightarrow> int \<Rightarrow> nat \<Rightarrow> int option" where
  "rd_mod m loc n = (if 0 \<le> loc \<and> loc + int n \<le> int (length m) then Some (int (unat (mvs_rdval m (nat loc) n))) else None)"

record image =
  im_mod :: bytes
  im_warn :: "ld_warn list"

definition warn_dropped :: "lobj \<Rightarrow> obj_rld \<Rightarrow> image \<Rightarrow> image option" where
  "warn_dropped ob r im =
    (let R = or_r r in case if 1 \<le> R \<and> R < MAXESD then lo_loc ob R else None of
       Some l \<Rightarrow>
         if lc_dropped l then (case rd_mod (im_mod im) (rld_modaddr ob r) (rld_len r) of
           None \<Rightarrow> None
         | Some v \<Rightarrow> let off = v - int (lc_addr l)
             in Some (if off \<noteq> 0 then im\<lparr>im_warn := im_warn im @ [WARN_DROPPED_ADCON (nat (rld_modaddr ob r)) off]\<rparr> else im))
         else Some im
     | None \<Rightarrow> Some im)"

definition local_addr :: "lobj \<Rightarrow> nat \<Rightarrow> nat" where
  "local_addr ob R = (case lo_loc ob R of Some l \<Rightarrow> lc_addr l | None \<Rightarrow> 0)"

definition reloc_item :: "gsym list \<Rightarrow> lobj \<times> obj_rld \<Rightarrow> image option \<Rightarrow> image option" where
  "reloc_item G = (\<lambda>(ob, r) im. case im of None \<Rightarrow> None | Some im \<Rightarrow>
    let loc = rld_modaddr ob r; len = rld_len r in
    if rld_dropped ob r then Some im
    else (case warn_dropped ob r im of
      None \<Rightarrow> None
    | Some im \<Rightarrow>
        let base = rld_base G ob r in
        if base \<ge> 0 then
          let delta = base - int (local_addr ob (or_r r)) in
          (case rd_mod (im_mod im) loc len of
             None \<Rightarrow> None
           | Some v \<Rightarrow> Some (im\<lparr>im_mod := write_at (im_mod im) (nat loc) (mvs_wrval (v + delta) len)\<rparr>))
        else Some im))"

definition rld_items :: "lobj list \<Rightarrow> (lobj \<times> obj_rld) list" where
  "rld_items os = concat (map (\<lambda>ob. map (Pair ob) (lo_rld ob)) os)"

definition link_image :: "layout \<Rightarrow> ld_error + image option" where
  "link_image ly =
    (if ly_modlen ly > MOD_ARCH_MAX then Inl (LD_TOO_LONG (ly_modlen ly))
     else let os = cp_O (ly_st ly); G = cp_G (ly_st ly) in
       Inr (case build_image lo_text 0 (ly_modlen ly) os of
         None \<Rightarrow> None
       | Some m \<Rightarrow> fold (reloc_item G) (rld_items os) (Some \<lparr>im_mod = m, im_warn = []\<rparr>)))"

definition def_map :: "layout \<Rightarrow> bool list option" where
  "def_map ly = build_image lo_defn False (ly_modlen ly) (cp_O (ly_st ly))"

subsection \<open>Copies that do not overlap\<close>

definition copies_apart :: "nat \<times> 'a list \<Rightarrow> nat \<times> 'a list \<Rightarrow> bool" where
  "copies_apart = (\<lambda>(p, v) (q, w). p + length v \<le> q \<or> q + length w \<le> p)"

lemma memcpy_copies:
  assumes "\<forall>(p, v)\<in>set ws. p + length v \<le> length b" "sorted_wrt copies_apart ws"
  shows "\<exists>b'. fold memcpy ws (Some b) = Some b' \<and> length b' = length b
    \<and> (\<forall>p v x. (p, v) \<in> set ws \<longrightarrow> p \<le> x \<longrightarrow> x < p + length v \<longrightarrow> b' ! x = v ! (x - p))
    \<and> (\<forall>x<length b. (\<forall>p v. (p, v) \<in> set ws \<longrightarrow> x < p \<or> p + length v \<le> x) \<longrightarrow> b' ! x = b ! x)"
  using assms
proof (induction ws arbitrary: b)
  case Nil
  then show ?case by simp
next
  case (Cons pv ws)
  obtain p v where pv: "pv = (p, v)" by fastforce
  have le: "p + length v \<le> length b" using Cons.prems(1) by (simp add: pv)
  define b1 where "b1 = take p b @ v @ drop (p + length v) b"
  have b1: "length b1 = length b" "\<And>x. x < length b \<Longrightarrow> b1 ! x = (if p \<le> x \<and> x < p + length v then v ! (x - p) else b ! x)"
    using le by (auto simp: b1_def nth_append min_def)
  have step: "fold memcpy (pv # ws) (Some b) = fold memcpy ws (Some b1)" using le by (simp add: pv memcpy_def b1_def)
  have "\<forall>(p, v)\<in>set ws. p + length v \<le> length b1" "sorted_wrt copies_apart ws" using Cons.prems b1(1) by simp_all
  from Cons.IH [OF this] obtain b' where b': "fold memcpy ws (Some b1) = Some b'" "length b' = length b1"
    "\<And>p v x. (p, v) \<in> set ws \<Longrightarrow> p \<le> x \<Longrightarrow> x < p + length v \<Longrightarrow> b' ! x = v ! (x - p)"
    "\<And>x. x < length b1 \<Longrightarrow> (\<And>p v. (p, v) \<in> set ws \<Longrightarrow> x < p \<or> p + length v \<le> x) \<Longrightarrow> b' ! x = b1 ! x"
    by blast
  have ap: "(q, w) \<in> set ws \<Longrightarrow> p + length v \<le> q \<or> q + length w \<le> p" for q w using Cons.prems(2) by (auto simp: pv copies_apart_def)
  have here: "b' ! x = v ! (x - p)" if "p \<le> x" "x < p + length v" for x
  proof -
    have "b' ! x = b1 ! x" by (rule b'(4)) (use ap that le b1(1) in force)+
    then show ?thesis using b1(2) [of x] that le by simp
  qed
  have "b' ! x = b ! x" if "x < length b" "\<forall>q w. (q, w) \<in> set (pv # ws) \<longrightarrow> x < q \<or> q + length w \<le> x" for x
  proof -
    have "x < p \<or> p + length v \<le> x" using that(2) by (auto simp: pv)
    then have "b1 ! x = b ! x" using b1(2) [OF that(1)] by auto
    moreover have "b' ! x = b1 ! x" by (rule b'(4)) (use that b1(1) in auto)
    ultimately show ?thesis by simp
  qed
  then show ?case
    using step b'(1-3) b1(1) here by (intro exI [of _ b']) (auto simp: pv)
qed

lemma sorted_wrt_concat_map:
  assumes "sorted_wrt (\<lambda>x y. \<forall>a\<in>set (f x). \<forall>b\<in>set (f y). P a b) xs" "\<forall>x\<in>set xs. sorted_wrt P (f x)"
  shows "sorted_wrt P (concat (map f xs))"
  using assms by (induction xs) (auto simp: sorted_wrt_append)

subsection \<open>Address constants\<close>

lemma rld_len_le: "rld_len r \<le> 4" "1 \<le> rld_len r"
proof -
  have "unat (drop_bit 2 (or_flag r) AND 3) \<le> 3" using word_and_le1 [of "drop_bit 2 (or_flag r)" 3] unat_mono [of 3] by (simp add: word_le_nat_alt)
  then show "rld_len r \<le> 4" "1 \<le> rld_len r" by (simp_all add: rld_len_def)
qed

lemma rdval_cong:
  assumes "\<And>i. i < n \<Longrightarrow> byte_at a (p + i) = byte_at b (p + i)"
  shows "mvs_rdval a p n = mvs_rdval b p n"
  unfolding mvs_rdval_def using assms by (intro fold_cong) auto

text \<open>What a field holds, and what an address constant is to hold.\<close>

definition field_at :: "bytes \<Rightarrow> lobj \<times> obj_rld \<Rightarrow> int" where
  "field_at m = (\<lambda>(ob, r). int (unat (mvs_rdval m (nat (rld_modaddr ob r)) (rld_len r))))"

definition relocated :: "gsym list \<Rightarrow> lobj \<times> obj_rld \<Rightarrow> int \<Rightarrow> int" where
  "relocated G = (\<lambda>(ob, r) v. if rld_base G ob r \<ge> 0 then (v + rld_base G ob r - int (local_addr ob (or_r r))) mod 256 ^ rld_len r else v)"

definition active :: "lobj \<times> obj_rld \<Rightarrow> bool" where
  "active = (\<lambda>(ob, r). \<not> rld_dropped ob r)"

definition in_field :: "lobj \<times> obj_rld \<Rightarrow> nat \<Rightarrow> bool" where
  "in_field = (\<lambda>(ob, r) x. rld_modaddr ob r \<le> int x \<and> int x < rld_modaddr ob r + int (rld_len r))"

definition field_fits :: "nat \<Rightarrow> lobj \<times> obj_rld \<Rightarrow> bool" where
  "field_fits n = (\<lambda>(ob, r). 0 \<le> rld_modaddr ob r \<and> rld_modaddr ob r + int (rld_len r) \<le> int n)"

definition fields_apart :: "lobj \<times> obj_rld \<Rightarrow> lobj \<times> obj_rld \<Rightarrow> bool" where
  "fields_apart y z \<longleftrightarrow> active y \<longrightarrow> active z \<longrightarrow> (\<forall>x. \<not> (in_field y x \<and> in_field z x))"

lemma field_cong:
  assumes "field_fits n y" "length a = n" "length b = n" "\<And>x. x < n \<Longrightarrow> in_field y x \<Longrightarrow> a ! x = b ! x"
  shows "field_at a y = field_at b y"
proof -
  obtain ob r where y: "y = (ob, r)" by fastforce
  have "mvs_rdval a (nat (rld_modaddr ob r)) (rld_len r) = mvs_rdval b (nat (rld_modaddr ob r)) (rld_len r)"
  proof (rule rdval_cong)
    fix i assume "i < rld_len r"
    then have "nat (rld_modaddr ob r) + i < n" "in_field y (nat (rld_modaddr ob r) + i)"
      using assms(1) by (auto simp: y field_fits_def in_field_def)
    then show "byte_at a (nat (rld_modaddr ob r) + i) = byte_at b (nat (rld_modaddr ob r) + i)"
      using assms(2-4) by (simp add: byte_at_nth)
  qed
  then show ?thesis by (simp add: field_at_def y)
qed

lemma warn_dropped_keeps:
  assumes "field_fits (length (im_mod im)) (ob, r)"
  obtains im' where "warn_dropped ob r im = Some im'" "im_mod im' = im_mod im"
proof -
  have "rd_mod (im_mod im) (rld_modaddr ob r) (rld_len r) \<noteq> None" using assms by (simp add: rd_mod_def field_fits_def)
  then have "\<exists>im'. warn_dropped ob r im = Some im' \<and> im_mod im' = im_mod im"
    by (auto simp: warn_dropped_def Let_def split: option.split)
  then show ?thesis using that by blast
qed

lemma reloc_one:
  assumes "active y" "field_fits (length (im_mod im)) y"
  shows "\<exists>im'. reloc_item G y (Some im) = Some im' \<and> length (im_mod im') = length (im_mod im)
    \<and> field_at (im_mod im') y = relocated G y (field_at (im_mod im) y)
    \<and> (\<forall>x<length (im_mod im). \<not> in_field y x \<longrightarrow> im_mod im' ! x = im_mod im ! x)"
proof -
  obtain ob r where y: "y = (ob, r)" by fastforce
  obtain im1 where w: "warn_dropped ob r im = Some im1" "im_mod im1 = im_mod im" using warn_dropped_keeps assms(2) y by blast
  let ?m = "im_mod im" and ?p = "nat (rld_modaddr ob r)" and ?n = "rld_len r"
  have fit: "0 \<le> rld_modaddr ob r" "?p + ?n \<le> length ?m" using assms(2) by (auto simp: y field_fits_def)
  show ?thesis
  proof (cases "rld_base G ob r \<ge> 0")
    case False
    then have "reloc_item G y (Some im) = Some im1" using assms(1) w by (simp add: y reloc_item_def active_def)
    then show ?thesis using w(2) False by (simp add: y relocated_def)
  next
    case True
    define v where "v = int (unat (mvs_rdval ?m ?p ?n)) + (rld_base G ob r - int (local_addr ob (or_r r)))"
    define m' where "m' = write_at ?m ?p (mvs_wrval v ?n)"
    have s: "reloc_item G y (Some im) = Some (im1\<lparr>im_mod := m'\<rparr>)"
      using assms w fit True by (simp add: y reloc_item_def active_def rd_mod_def Let_def m'_def v_def field_fits_def)
    have n8: "?n \<le> 8" using rld_len_le(1) [of r] by simp
    have "unat (mvs_rdval m' ?p ?n) = nat (v mod 256 ^ ?n)"
      unfolding m'_def using field_codec.get_write [OF wrval_codec [OF n8], of ?p ?m v] fit(2) by simp
    then have "field_at m' y = int (nat (v mod 256 ^ ?n))" by (simp only: y field_at_def prod.case)
    then have "field_at m' y = v mod 256 ^ ?n" by simp
    then have f: "field_at m' y = relocated G y (field_at ?m y)"
      using True by (simp add: y field_at_def relocated_def v_def algebra_simps)
    have "m' ! x = ?m ! x" if "x < length ?m" "\<not> in_field y x" for x
    proof -
      have "x < ?p \<or> ?p + ?n \<le> x" using that(2) fit(1) by (auto simp: y in_field_def)
      then show ?thesis using that(1) fit(2) by (auto simp: m'_def write_at_def nth_append min_def)
    qed
    moreover have "length m' = length ?m" using fit(2) by (simp add: m'_def)
    ultimately show ?thesis using s f by simp
  qed
qed

lemma reloc_all:
  assumes "\<forall>y\<in>set ys. active y \<longrightarrow> field_fits (length (im_mod im)) y" "sorted_wrt fields_apart ys"
  shows "\<exists>im'. fold (reloc_item G) ys (Some im) = Some im' \<and> length (im_mod im') = length (im_mod im)
    \<and> (\<forall>y\<in>set ys. active y \<longrightarrow> field_at (im_mod im') y = relocated G y (field_at (im_mod im) y))
    \<and> (\<forall>x<length (im_mod im). (\<forall>y\<in>set ys. active y \<longrightarrow> \<not> in_field y x) \<longrightarrow> im_mod im' ! x = im_mod im ! x)"
  using assms
proof (induction ys arbitrary: im)
  case Nil
  then show ?case by simp
next
  case (Cons y ys)
  show ?case
  proof (cases "active y")
    case False
    then have "reloc_item G y (Some im) = Some im" by (cases y) (simp add: reloc_item_def active_def)
    then show ?thesis using Cons False by simp
  next
    case True
    have fy: "field_fits (length (im_mod im)) y" using Cons.prems(1) True by simp
    obtain im1 where s: "reloc_item G y (Some im) = Some im1" "length (im_mod im1) = length (im_mod im)"
      "field_at (im_mod im1) y = relocated G y (field_at (im_mod im) y)"
      "\<And>x. x < length (im_mod im) \<Longrightarrow> \<not> in_field y x \<Longrightarrow> im_mod im1 ! x = im_mod im ! x"
      using reloc_one [OF True fy, of G] by blast
    have fit: "\<forall>y\<in>set ys. active y \<longrightarrow> field_fits (length (im_mod im1)) y" "sorted_wrt fields_apart ys" using Cons.prems s(2) by simp_all
    obtain im' where i: "fold (reloc_item G) ys (Some im1) = Some im'" "length (im_mod im') = length (im_mod im1)"
      "\<And>y. y \<in> set ys \<Longrightarrow> active y \<Longrightarrow> field_at (im_mod im') y = relocated G y (field_at (im_mod im1) y)"
      "\<And>x. x < length (im_mod im1) \<Longrightarrow> (\<And>y. y \<in> set ys \<Longrightarrow> active y \<Longrightarrow> \<not> in_field y x) \<Longrightarrow> im_mod im' ! x = im_mod im1 ! x"
      using Cons.IH [OF fit] by blast
    have ap: "\<not> (in_field y x \<and> in_field z x)" if "z \<in> set ys" "active z" for z x
      using Cons.prems(2) that True by (simp add: fields_apart_def)
    have later: "field_at (im_mod im1) z = field_at (im_mod im) z" if "z \<in> set ys" "active z" for z
    proof (rule field_cong)
      show "field_fits (length (im_mod im)) z" using Cons.prems(1) that by simp
      show "im_mod im1 ! x = im_mod im ! x" if "x < length (im_mod im)" "in_field z x" for x
        by (rule s(4)) (use ap [of z x] \<open>z \<in> set ys\<close> \<open>active z\<close> that in auto)
    qed (use s(2) in simp_all)
    have "field_at (im_mod im') y = field_at (im_mod im1) y"
    proof (rule field_cong [OF fy])
      show "im_mod im' ! x = im_mod im1 ! x" if "x < length (im_mod im)" "in_field y x" for x
        by (rule i(4)) (use ap that s(2) in auto)
    qed (use i(2) s(2) in simp_all)
    moreover have "im_mod im' ! x = im_mod im ! x" if "x < length (im_mod im)" "\<forall>z\<in>set (y # ys). active z \<longrightarrow> \<not> in_field z x" for x
    proof -
      have "im_mod im' ! x = im_mod im1 ! x" by (rule i(4)) (use that s(2) in auto)
      moreover have "im_mod im1 ! x = im_mod im ! x" by (rule s(4)) (use that True in auto)
      ultimately show ?thesis by simp
    qed
    ultimately show ?thesis using i(1-3) s(1-3) later by (intro exI [of _ im']) auto
  qed
qed

subsection \<open>Decks\<close>

text \<open>The symbol pass keeps an object's contents, and marks the object of a dropped section.\<close>

definition contents :: "lobj \<Rightarrow> bytes \<times> bool list \<times> obj_rld list \<times> (nat \<times> nat) option" where
  "contents ob = (lo_text ob, lo_defn ob, lo_rld ob, lo_entry ob)"

definition drop_marked :: "lobj \<Rightarrow> bool" where
  "drop_marked ob \<longleftrightarrow> (\<forall>j l. lo_loc ob j = Some l \<longrightarrow> lc_dropped l \<longrightarrow> lo_has_drop ob)"

definition contents_inv :: "lobj list \<Rightarrow> comp \<Rightarrow> bool" where
  "contents_inv os st \<longleftrightarrow> (\<forall>i<length os. contents (cp_O st ! i) = contents (os ! i) \<and> (names_clear os \<longrightarrow> drop_marked (cp_O st ! i)))"

lemma contents_local:
  assumes "comp_inv os D st" "contents_inv os st" "i < length os"
  shows "contents_inv os (pass2_local i j st)"
proof (cases "lo_loc (cp_O st ! i) j")
  case None
  then show ?thesis using assms(2) by (simp add: pass2_local_def)
next
  case (Some l)
  have len: "length (cp_O st) = length os" using assms(1) by (simp add: comp_inv_def same_objs_def)
  then have il: "i < length (cp_O st)" using assms(3) by simp
  obtain gi G where e: "local_entry (cp_G st) l = (gi, G)" by fastforce
  note ef = pass2_local_effect(2) [OF Some e il]
  show ?thesis
    unfolding contents_inv_def
  proof (intro allI impI)
    fix k assume k: "k < length os"
    have h: "contents (cp_O st ! k) = contents (os ! k)" "names_clear os \<longrightarrow> drop_marked (cp_O st ! k)" using assms(2) k by (auto simp: contents_inv_def)
    show "contents (cp_O (pass2_local i j st) ! k) = contents (os ! k) \<and> (names_clear os \<longrightarrow> drop_marked (cp_O (pass2_local i j st) ! k))"
      using h il by (cases "k = i") (auto simp: ef Let_def contents_def drop_marked_def)
  qed
qed

interpretation texts: pass2_steps os "\<lambda>D st. contents_inv os st" for os
proof
  show "contents_inv os (pass2_start os)"
    unfolding contents_inv_def pass2_start_def drop_marked_def names_clear_def by (auto simp: Ball_def dest: nth_mem)
  show "contents_inv os (pass2_local i j st)" if "comp_inv os D st" "contents_inv os st" "i < length os" for D st i j
    using that by (rule contents_local)
  show "contents_inv os (pass2_label i l st)" if "contents_inv os st" for st i l
    using that by (simp add: contents_inv_def label_objs)
qed

definition adcon_ok :: "lobj \<Rightarrow> obj_rld \<Rightarrow> bool" where
  "adcon_ok ob r \<longleftrightarrow> 1 \<le> or_p r \<and> or_p r < MAXESD \<and> (case sect_at ob (or_p r) of Some l \<Rightarrow>
     lc_addr l \<le> or_addr r \<and> or_addr r + rld_len r \<le> lc_addr l + lc_len l \<and> or_addr r + rld_len r \<le> length (lo_text ob) | None \<Rightarrow> False)"

definition adcons_apart :: "obj_rld \<Rightarrow> obj_rld \<Rightarrow> bool" where
  "adcons_apart r r' \<longleftrightarrow> or_addr r + rld_len r \<le> or_addr r' \<or> or_addr r' + rld_len r' \<le> or_addr r"

text \<open>
  A sound deck: sections apart and at different origins, every address constant inside its section and the text
  and apart from the others, and no text behind the last section.
\<close>

definition deck_sound :: "lobj \<Rightarrow> bool" where
  "deck_sound ob \<longleftrightarrow> sects_apart ob \<and> list_all (adcon_ok ob) (lo_rld ob) \<and> sorted_wrt adcons_apart (lo_rld ob)
     \<and> (lo_text ob \<noteq> [] \<longrightarrow> (\<exists>j l. 1 \<le> j \<and> j < MAXESD \<and> sect_at ob j = Some l \<and> length (lo_text ob) \<le> lc_addr l + lc_len l))"

definition no_commons :: "lobj \<Rightarrow> bool" where
  "no_commons ob \<longleftrightarrow> (\<forall>j l. lo_loc ob j = Some l \<longrightarrow> lc_type l \<noteq> T_CM)"

definition linkable :: "lobj list \<Rightarrow> bool" where
  "linkable os \<longleftrightarrow> names_clear os \<and> decks_fresh os \<and> list_all deck_sound os
     \<and> (\<forall>i<length os. lo_has_drop (cp_O (pass2 os) ! i) \<longrightarrow> no_commons (os ! i))"

text \<open>An object as the layout leaves it.\<close>

definition laid_obj :: "lobj list \<Rightarrow> nat \<Rightarrow> lobj" where
  "laid_obj os i = (compacted (cp_O (pass2 os) ! i))\<lparr>lo_object_base := base_of (cp_O (pass2 os)) i\<rparr>"

lemma laid_objs:
  assumes "names_clear os"
  shows "cp_O (ly_st (assign_addresses (pass2 os))) = map (laid_obj os) [0..<length os]"
    "base_of (cp_O (pass2 os)) (length os) \<le> ly_modlen (assign_addresses (pass2 os))"
proof -
  have own: "\<forall>i<length (cp_O (pass2 os)). own_entries (compacted (cp_O (pass2 os) ! i))" using own_entries_pass2 [OF assms] pass2_length by simp
  obtain Gc run run' where "laid_out (pass2 os) Gc run run'" by (rule assign_spec [OF own])
  note a = laid_outD [OF this, unfolded pass2_length]
  show "cp_O (ly_st (assign_addresses (pass2 os))) = map (laid_obj os) [0..<length os]"
    by (rule nth_equalityI) (simp_all add: a(1,9) laid_obj_def)
  show "base_of (cp_O (pass2 os)) (length os) \<le> ly_modlen (assign_addresses (pass2 os))"
    using a(4,6,7) roundup8_ge(1) [of run'] by simp
qed

lemma laid_fields [simp]:
  assumes "i < length os"
  shows "lo_text (laid_obj os i) = lo_text (os ! i)" "lo_rld (laid_obj os i) = lo_rld (os ! i)" "lo_object_base (laid_obj os i) = base_of (cp_O (pass2 os)) i"
    "lo_has_drop (laid_obj os i) = lo_has_drop (cp_O (pass2 os) ! i)"
  using texts.all_steps [of os] assms by (simp_all add: laid_obj_def contents_inv_def contents_def)

lemma base_sect [simp]: "sect_at (ob\<lparr>lo_object_base := b\<rparr>) j = sect_at ob j" "keeps (ob\<lparr>lo_object_base := b\<rparr>) j l = keeps ob j l"
  by (simp_all add: sect_at_def keeps_def)

lemma laid_loc:
  assumes "i < length os" "lo_loc (laid_obj os i) j = Some l"
  obtains l0 where "lo_loc (os ! i) j = Some l0" "lc_type l = lc_type l0" "lc_addr l = lc_addr l0" "lc_len l = lc_len l0" "lc_name l = lc_name l0"
proof -
  have c: "comp_inv os ({..<length os} \<times> {1..<MAXESD}) (pass2 os)" using refs.all_steps [of os] by simp
  have "map_option unmoved (lo_loc (cp_O (pass2 os) ! i) j) = Some (unmoved l)"
    using compacted_loc [of "cp_O (pass2 os) ! i" j] assms(2) by (simp add: laid_obj_def)
  then obtain l1 where l1: "lo_loc (cp_O (pass2 os) ! i) j = Some l1" "unmoved l1 = unmoved l" by auto
  obtain l0 where "lo_loc (os ! i) j = Some l0" "lc_name l1 = lc_name l0" "lc_type l1 = lc_type l0" "lc_addr l1 = lc_addr l0" "lc_len l1 = lc_len l0"
    by (rule local_lent [OF c assms(1) l1(1)])
  then show ?thesis using that unmoved_eqD [OF l1(2)] by simp
qed

lemma laid_sect:
  assumes "i < length os" "sect_at (os ! i) j = Some l0"
  obtains l where "sect_at (laid_obj os i) j = Some l" "lc_addr l = lc_addr l0" "lc_len l = lc_len l0"
proof -
  have l0: "lo_loc (os ! i) j = Some l0" "is_obj_sect (lc_type l0)" using assms(2) by (auto simp: sect_at_def split: option.splits if_splits)
  have "map_option strip (lo_loc (cp_O (pass2 os) ! i) j) = Some (strip l0)"
    using refs.all_steps [of os] assms(1) l0(1) by (simp add: comp_inv_def same_objs_def)
  then obtain l1 where l1: "lo_loc (cp_O (pass2 os) ! i) j = Some l1" "strip l1 = strip l0" by auto
  obtain l where "lo_loc (compacted (cp_O (pass2 os) ! i)) j = Some l" "lc_type l = lc_type l1" "lc_len l = lc_len l1" "lc_addr l = lc_addr l1"
    by (rule compacted_sect [OF l1(1)])
  then show ?thesis using that [of l] strip_eqD [OF l1(2)] l0(2) by (simp add: laid_obj_def sect_at_def)
qed

lemma laid_undropped:
  assumes "names_clear os" "decks_fresh os" "i < length os" "\<not> lo_has_drop (cp_O (pass2 os) ! i)" "lo_loc (laid_obj os i) j = Some l"
  shows "\<not> lc_dropped l" "lc_newaddr l = lc_addr l"
proof -
  have l: "lo_loc (cp_O (pass2 os) ! i) j = Some l" using assms(4,5) by (simp add: laid_obj_def compacted_def)
  have "drop_marked (cp_O (pass2 os) ! i)" using texts.all_steps [of os] assms(1,3) by (simp add: contents_inv_def)
  then show "\<not> lc_dropped l" using l assms(4) by (auto simp: drop_marked_def)
  show "lc_newaddr l = lc_addr l" by (rule pass2_newaddr [OF assms(2,3) l])
qed

lemma laid_inside:
  assumes "i < length os" "keeps (laid_obj os i) j l"
  shows "base_of (cp_O (pass2 os)) i + lc_newaddr l + lc_len l \<le> base_of (cp_O (pass2 os)) (Suc i)"
proof -
  have "lc_newaddr l + lc_len l \<le> obj_size (compacted (cp_O (pass2 os) ! i))"
    using assms(2) by (intro obj_size_ge [of _ j]) (simp_all add: laid_obj_def keeps_def)
  then show ?thesis using roundup8_ge(1) [of "obj_size (compacted (cp_O (pass2 os) ! i))"] by (simp add: base_of_Suc)
qed

lemma laid_apart:
  assumes "decks_fresh os" "i < length os" "sects_apart (os ! i)" "keeps (laid_obj os i) j l" "keeps (laid_obj os i) j' l'" "j \<noteq> j'"
  shows "lc_newaddr l + lc_len l \<le> lc_newaddr l' \<or> lc_newaddr l' + lc_len l' \<le> lc_newaddr l"
  using compacted_apart [of "cp_O (pass2 os) ! i" j l j' l'] sects_apart_pass2 [OF assms(2,3)] pass2_newaddr [OF assms(1,2)] assms(4-6)
  by (simp add: laid_obj_def)

subsection \<open>The image holds the text\<close>

lemma linkableD:
  assumes "linkable os"
  shows "names_clear os" "decks_fresh os" "i < length os \<Longrightarrow> deck_sound (os ! i)"
    "i < length os \<Longrightarrow> lo_has_drop (cp_O (pass2 os) ! i) \<Longrightarrow> no_commons (os ! i)"
  using assms by (auto simp: linkable_def list_all_length)

lemma sect_copy_kept:
  assumes "linkable os" "i < length os" "lo_has_drop (cp_O (pass2 os) ! i)" "1 \<le> j" "j < MAXESD" "(p, v) \<in> set (sect_copy lo_text (laid_obj os i) j)"
  obtains l where "keeps (laid_obj os i) j l" "p = base_of (cp_O (pass2 os)) i + lc_newaddr l" "length v \<le> lc_len l"
proof -
  obtain l where l: "lo_loc (laid_obj os i) j = Some l" using assms(6) by (cases "lo_loc (laid_obj os i) j") (auto simp: sect_copy_def)
  obtain l0 where l0: "lo_loc (os ! i) j = Some l0" "lc_type l = lc_type l0" by (rule laid_loc [OF assms(2) l])
  have "lc_type l \<noteq> T_CM" using linkableD(4) [OF assms(1-3)] l0 by (auto simp: no_commons_def)
  then have "keeps (laid_obj os i) j l"
    using assms(4-6) l by (auto simp: sect_copy_def keeps_def sect_at_def is_sect_type_def is_obj_sect_def Let_def split: if_splits)
  then show ?thesis using that [of l] assms(2,6) l by (auto simp: sect_copy_def Let_def split: if_splits)
qed

lemma text_inside:
  assumes "linkable os" "i < length os" "\<not> lo_has_drop (cp_O (pass2 os) ! i)"
  shows "base_of (cp_O (pass2 os)) i + length (lo_text (os ! i)) \<le> base_of (cp_O (pass2 os)) (Suc i)"
proof (cases "lo_text (os ! i) = []")
  case True
  then show ?thesis using base_of_mono [of i "Suc i"] by simp
next
  case False
  then obtain j l0 where j: "1 \<le> j" "j < MAXESD" "sect_at (os ! i) j = Some l0" "length (lo_text (os ! i)) \<le> lc_addr l0 + lc_len l0"
    using linkableD(3) [OF assms(1,2)] unfolding deck_sound_def by blast
  obtain l where l: "sect_at (laid_obj os i) j = Some l" "lc_addr l = lc_addr l0" "lc_len l = lc_len l0" by (rule laid_sect [OF assms(2) j(3)])
  have ll: "lo_loc (laid_obj os i) j = Some l" using l(1) by (auto simp: sect_at_def split: option.splits if_splits)
  note u = laid_undropped [OF linkableD(1,2) [OF assms(1)] assms(2,3) ll]
  have "keeps (laid_obj os i) j l" using l(1) u(1) j(1,2) by (simp add: keeps_def)
  from laid_inside [OF assms(2) this] show ?thesis using u(2) l j(4) by simp
qed

lemma copies_inside:
  assumes "linkable os" "i < length os" "(p, v) \<in> set (obj_copies lo_text (laid_obj os i))"
  shows "base_of (cp_O (pass2 os)) i \<le> p \<and> p + length v \<le> base_of (cp_O (pass2 os)) (Suc i)"
proof (cases "lo_has_drop (cp_O (pass2 os) ! i)")
  case True
  then obtain j where j: "1 \<le> j" "j < MAXESD" "(p, v) \<in> set (sect_copy lo_text (laid_obj os i) j)"
    using assms(2,3) by (auto simp: obj_copies_def split: if_splits)
  obtain l where l: "keeps (laid_obj os i) j l" "p = base_of (cp_O (pass2 os)) i + lc_newaddr l" "length v \<le> lc_len l"
    by (rule sect_copy_kept [OF assms(1,2) True j])
  show ?thesis using laid_inside [OF assms(2) l(1)] l(2,3) by simp
next
  case False
  then have "p = base_of (cp_O (pass2 os)) i" "v = lo_text (os ! i)" using assms(2,3) by (auto simp: obj_copies_def split: if_splits)
  then show ?thesis using text_inside [OF assms(1,2) False] by simp
qed

lemma obj_copies_apart:
  assumes "linkable os" "i < length os"
  shows "sorted_wrt copies_apart (obj_copies lo_text (laid_obj os i))"
proof (cases "lo_has_drop (cp_O (pass2 os) ! i)")
  case True
  have sa: "sects_apart (os ! i)" using linkableD(3) [OF assms] by (simp add: deck_sound_def)
  have ap: "copies_apart a b" if h: "1 \<le> j" "j < MAXESD" "1 \<le> j'" "j' < MAXESD" "j \<noteq> j'" "a \<in> set (sect_copy lo_text (laid_obj os i) j)" "b \<in> set (sect_copy lo_text (laid_obj os i) j')" for a b j j'
  proof -
    obtain p v q w where ab: "a = (p, v)" "b = (q, w)" by fastforce
    obtain l where l: "keeps (laid_obj os i) j l" "p = base_of (cp_O (pass2 os)) i + lc_newaddr l" "length v \<le> lc_len l"
      by (rule sect_copy_kept [OF assms True h(1,2)]) (use h(6) ab in auto)
    obtain l' where l': "keeps (laid_obj os i) j' l'" "q = base_of (cp_O (pass2 os)) i + lc_newaddr l'" "length w \<le> lc_len l'"
      by (rule sect_copy_kept [OF assms True h(3,4)]) (use h(7) ab in auto)
    show ?thesis using laid_apart [OF linkableD(2) [OF assms(1)] assms(2) sa l(1) l'(1) h(5)] l(2,3) l'(2,3) by (auto simp: copies_apart_def ab)
  qed
  have "sorted_wrt (\<lambda>j j'. \<forall>a\<in>set (sect_copy lo_text (laid_obj os i) j). \<forall>b\<in>set (sect_copy lo_text (laid_obj os i) j'). copies_apart a b) [1..<MAXESD]"
  proof (rule sorted_wrt_mono_rel [OF _ sorted_wrt_upt])
    fix j j' :: nat assume "j \<in> set [1..<MAXESD]" "j' \<in> set [1..<MAXESD]" "j < j'"
    then show "\<forall>a\<in>set (sect_copy lo_text (laid_obj os i) j). \<forall>b\<in>set (sect_copy lo_text (laid_obj os i) j'). copies_apart a b"
      using ap [of j j'] by auto
  qed
  moreover have "sorted_wrt copies_apart (sect_copy lo_text (laid_obj os i) j)" for j
    by (auto simp: sect_copy_def Let_def split: option.split)
  ultimately have "sorted_wrt copies_apart (concat (map (sect_copy lo_text (laid_obj os i)) [1..<MAXESD]))"
    by (intro sorted_wrt_concat_map) blast+
  then show ?thesis by (simp add: obj_copies_def)
qed (use assms in \<open>simp add: obj_copies_def\<close>)

lemma all_copies_apart:
  assumes lk: "linkable os"
  shows "sorted_wrt copies_apart (concat (map (obj_copies lo_text) (map (laid_obj os) [0..<length os])))"
proof -
  have "sorted_wrt (\<lambda>i i'. \<forall>a\<in>set (obj_copies lo_text (laid_obj os i)). \<forall>b\<in>set (obj_copies lo_text (laid_obj os i')). copies_apart a b) [0..<length os]"
  proof (rule sorted_wrt_mono_rel [OF _ sorted_wrt_upt])
    fix i i' :: nat assume "i \<in> set [0..<length os]" "i' \<in> set [0..<length os]" "i < i'"
    then have i: "i < length os" "i' < length os" "base_of (cp_O (pass2 os)) (Suc i) \<le> base_of (cp_O (pass2 os)) i'" using base_of_mono [of "Suc i" i'] by simp_all
    then show "\<forall>a\<in>set (obj_copies lo_text (laid_obj os i)). \<forall>b\<in>set (obj_copies lo_text (laid_obj os i')). copies_apart a b"
      using copies_inside [OF lk i(1)] copies_inside [OF lk i(2)] by (fastforce simp: copies_apart_def)
  qed
  then have "sorted_wrt copies_apart (concat (map (\<lambda>i. obj_copies lo_text (laid_obj os i)) [0..<length os]))"
    by (rule sorted_wrt_concat_map) (use obj_copies_apart [OF lk] in simp)
  then show ?thesis by (simp add: comp_def)
qed

text \<open>A byte of a kept section is in one of its object's copies.\<close>

lemma copied_byte:
  assumes lk: "linkable os" and h: "i < length os" "keeps (laid_obj os i) j l" "d < lc_len l" "lc_addr l + d < length (lo_text (os ! i))"
  defines "x \<equiv> base_of (cp_O (pass2 os)) i + lc_newaddr l + d"
  shows "\<exists>p v. (p, v) \<in> set (obj_copies lo_text (laid_obj os i)) \<and> p \<le> x \<and> x < p + length v \<and> v ! (x - p) = lo_text (os ! i) ! (lc_addr l + d)"
proof -
  let ?b = "base_of (cp_O (pass2 os)) i"
  have l: "lo_loc (laid_obj os i) j = Some l" "is_obj_sect (lc_type l)" "\<not> lc_dropped l" "1 \<le> j" "j < MAXESD"
    using h(2) by (auto simp: keeps_def sect_at_def split: option.splits if_splits)
  show ?thesis
  proof (cases "lo_has_drop (cp_O (pass2 os) ! i)")
    case True
    let ?n = "if lc_addr l + lc_len l > length (lo_text (os ! i)) then length (lo_text (os ! i)) - lc_addr l else lc_len l"
    have "(?b + lc_newaddr l, take ?n (drop (lc_addr l) (lo_text (os ! i)))) \<in> set (sect_copy lo_text (laid_obj os i) j)"
      using l h by (auto simp: sect_copy_def is_obj_sect_def is_sect_type_def)
    then have "(?b + lc_newaddr l, take ?n (drop (lc_addr l) (lo_text (os ! i)))) \<in> set (obj_copies lo_text (laid_obj os i))"
      using True l(4,5) h(1,4) by (auto simp: obj_copies_def)
    then show ?thesis using h(3,4) by (intro exI conjI) (assumption, auto simp: x_def)
  next
    case False
    have "lc_newaddr l = lc_addr l" by (rule laid_undropped [OF linkableD(1,2) [OF lk] h(1) False l(1)])
    then show ?thesis using False h(1,4) by (intro exI [of _ ?b] exI [of _ "lo_text (os ! i)"]) (auto simp: obj_copies_def x_def)
  qed
qed

lemma image_text:
  assumes lk: "linkable os"
  defines "ly \<equiv> assign_addresses (pass2 os)"
  obtains m where "build_image lo_text 0 (ly_modlen ly) (cp_O (ly_st ly)) = Some m" "length m = ly_modlen ly"
    "\<And>i j l d. i < length os \<Longrightarrow> keeps (laid_obj os i) j l \<Longrightarrow> d < lc_len l \<Longrightarrow> lc_addr l + d < length (lo_text (os ! i))
      \<Longrightarrow> m ! (base_of (cp_O (pass2 os)) i + lc_newaddr l + d) = lo_text (os ! i) ! (lc_addr l + d)"
proof -
  let ?bs = "base_of (cp_O (pass2 os))" and ?ws = "concat (map (obj_copies lo_text) (map (laid_obj os) [0..<length os]))"
  note lo = laid_objs [OF linkableD(1) [OF lk], folded ly_def]
  have "\<forall>(p, v)\<in>set ?ws. p + length v \<le> length (replicate (ly_modlen ly) (0 :: byte))"
  proof (clarify)
    fix p v assume "(p, v) \<in> set ?ws"
    then obtain i where i: "i < length os" "(p, v) \<in> set (obj_copies lo_text (laid_obj os i))" by auto
    show "p + length v \<le> length (replicate (ly_modlen ly) (0 :: byte))"
      using copies_inside [OF lk i] base_of_mono [of "Suc i" "length os" "cp_O (pass2 os)"] lo(2) i(1) by simp
  qed
  with all_copies_apart [OF lk] obtain m where m: "fold memcpy ?ws (Some (replicate (ly_modlen ly) 0)) = Some m" "length m = ly_modlen ly"
    "\<And>p v x. (p, v) \<in> set ?ws \<Longrightarrow> p \<le> x \<Longrightarrow> x < p + length v \<Longrightarrow> m ! x = v ! (x - p)"
    using memcpy_copies [of ?ws "replicate (ly_modlen ly) 0"] by auto
  show ?thesis
  proof (rule that [of m])
    show "build_image lo_text 0 (ly_modlen ly) (cp_O (ly_st ly)) = Some m" using m(1) by (simp add: build_image_def lo(1))
    show "m ! (?bs i + lc_newaddr l + d) = lo_text (os ! i) ! (lc_addr l + d)"
      if "i < length os" "keeps (laid_obj os i) j l" "d < lc_len l" "lc_addr l + d < length (lo_text (os ! i))" for i j l d
      using copied_byte [OF lk that] m(3) that(1) by fastforce
  qed (use m(2) in simp)
qed

subsection \<open>Relocation\<close>

lemma adcon_place:
  assumes "linkable os" "i < length os" "r \<in> set (lo_rld (os ! i))" "active (laid_obj os i, r)"
  obtains l where "keeps (laid_obj os i) (or_p r) l" "lc_addr l \<le> or_addr r" "or_addr r + rld_len r \<le> lc_addr l + lc_len l"
    "or_addr r + rld_len r \<le> length (lo_text (os ! i))"
    "rld_modaddr (laid_obj os i) r = int (base_of (cp_O (pass2 os)) i + lc_newaddr l + (or_addr r - lc_addr l))"
proof -
  have ok: "adcon_ok (os ! i) r" using linkableD(3) [OF assms(1,2)] assms(3) by (simp add: deck_sound_def list_all_iff)
  then obtain l0 where l0: "sect_at (os ! i) (or_p r) = Some l0" "lc_addr l0 \<le> or_addr r" "or_addr r + rld_len r \<le> lc_addr l0 + lc_len l0"
    "or_addr r + rld_len r \<le> length (lo_text (os ! i))" "1 \<le> or_p r" "or_p r < MAXESD"
    by (auto simp: adcon_ok_def split: option.splits)
  obtain l where l: "sect_at (laid_obj os i) (or_p r) = Some l" "lc_addr l = lc_addr l0" "lc_len l = lc_len l0" by (rule laid_sect [OF assms(2) l0(1)])
  have ll: "lo_loc (laid_obj os i) (or_p r) = Some l" using l(1) by (auto simp: sect_at_def split: option.splits if_splits)
  have "\<not> lc_dropped l" using assms(4) l0(5,6) ll by (auto simp: active_def rld_dropped_def Let_def)
  then have k: "keeps (laid_obj os i) (or_p r) l" using l(1) l0(5,6) by (simp add: keeps_def)
  have "rld_modaddr (laid_obj os i) r = int (base_of (cp_O (pass2 os)) i + lc_newaddr l + (or_addr r - lc_addr l))"
    using l0(2,5,6) l(2) ll assms(2) by (simp add: rld_modaddr_def Let_def)
  then show ?thesis using that [of l] k l0 l by simp
qed

lemma adcon_fits:
  assumes "linkable os" "i < length os" "r \<in> set (lo_rld (os ! i))" "active (laid_obj os i, r)" "in_field (laid_obj os i, r) x"
  shows "base_of (cp_O (pass2 os)) i \<le> x" "x < base_of (cp_O (pass2 os)) (Suc i)"
proof -
  obtain l where l: "keeps (laid_obj os i) (or_p r) l" "lc_addr l \<le> or_addr r" "or_addr r + rld_len r \<le> lc_addr l + lc_len l"
    "rld_modaddr (laid_obj os i) r = int (base_of (cp_O (pass2 os)) i + lc_newaddr l + (or_addr r - lc_addr l))"
    by (rule adcon_place [OF assms(1-4)])
  show "base_of (cp_O (pass2 os)) i \<le> x" "x < base_of (cp_O (pass2 os)) (Suc i)"
    using assms(5) l(2-4) laid_inside [OF assms(2) l(1)] by (auto simp: in_field_def)
qed

lemma adcon_fields_apart:
  assumes lk: "linkable os" and i: "i < length os" and r: "r \<in> set (lo_rld (os ! i))" "r' \<in> set (lo_rld (os ! i))" "adcons_apart r r'"
  shows "fields_apart (laid_obj os i, r) (laid_obj os i, r')"
  unfolding fields_apart_def
proof (intro impI allI notI)
  fix x assume a: "active (laid_obj os i, r)" "active (laid_obj os i, r')" and x: "in_field (laid_obj os i, r) x \<and> in_field (laid_obj os i, r') x"
  obtain l where l: "keeps (laid_obj os i) (or_p r) l" "lc_addr l \<le> or_addr r" "or_addr r + rld_len r \<le> lc_addr l + lc_len l"
    "rld_modaddr (laid_obj os i) r = int (base_of (cp_O (pass2 os)) i + lc_newaddr l + (or_addr r - lc_addr l))"
    by (rule adcon_place [OF lk i r(1) a(1)])
  obtain l' where l': "keeps (laid_obj os i) (or_p r') l'" "lc_addr l' \<le> or_addr r'" "or_addr r' + rld_len r' \<le> lc_addr l' + lc_len l'"
    "rld_modaddr (laid_obj os i) r' = int (base_of (cp_O (pass2 os)) i + lc_newaddr l' + (or_addr r' - lc_addr l'))"
    by (rule adcon_place [OF lk i r(2) a(2)])
  show False
  proof (cases "or_p r = or_p r'")
    case True
    then have "l = l'" using l(1) l'(1) by (simp add: keeps_def)
    then show False using x l l' r(3) by (auto simp: in_field_def adcons_apart_def)
  next
    case False
    have sa: "sects_apart (os ! i)" using linkableD(3) [OF lk i] by (simp add: deck_sound_def)
    show False using laid_apart [OF linkableD(2) [OF lk] i sa l(1) l'(1) False] x l l' by (auto simp: in_field_def)
  qed
qed

lemma all_fields_apart:
  assumes lk: "linkable os"
  shows "sorted_wrt fields_apart (rld_items (map (laid_obj os) [0..<length os]))"
proof -
  let ?f = "\<lambda>i. map (Pair (laid_obj os i)) (lo_rld (laid_obj os i))"
  have "sorted_wrt (\<lambda>i i'. \<forall>y\<in>set (?f i). \<forall>z\<in>set (?f i'). fields_apart y z) [0..<length os]"
  proof (rule sorted_wrt_mono_rel [OF _ sorted_wrt_upt])
    fix i i' :: nat assume "i \<in> set [0..<length os]" "i' \<in> set [0..<length os]" "i < i'"
    then have i: "i < length os" "i' < length os" "base_of (cp_O (pass2 os)) (Suc i) \<le> base_of (cp_O (pass2 os)) i'" using base_of_mono [of "Suc i" i'] by simp_all
    show "\<forall>y\<in>set (?f i). \<forall>z\<in>set (?f i'). fields_apart y z"
    proof (intro ballI)
      fix y z assume "y \<in> set (?f i)" "z \<in> set (?f i')"
      then obtain r r' where y: "y = (laid_obj os i, r)" "r \<in> set (lo_rld (os ! i))" and z: "z = (laid_obj os i', r')" "r' \<in> set (lo_rld (os ! i'))"
        using i by auto
      show "fields_apart y z"
        unfolding fields_apart_def
      proof (intro impI allI notI)
        fix x assume "active y" "active z" "in_field y x \<and> in_field z x"
        then have "x < base_of (cp_O (pass2 os)) (Suc i)" "base_of (cp_O (pass2 os)) i' \<le> x"
          using adcon_fits(2) [OF lk i(1) y(2)] adcon_fits(1) [OF lk i(2) z(2)] y(1) z(1) by auto
        then show False using i(3) by simp
      qed
    qed
  qed
  moreover have "\<forall>i\<in>set [0..<length os]. sorted_wrt fields_apart (?f i)"
  proof
    fix i assume "i \<in> set [0..<length os]"
    then have i: "i < length os" by simp
    have "sorted_wrt adcons_apart (lo_rld (os ! i))" using linkableD(3) [OF lk i] by (simp add: deck_sound_def)
    then show "sorted_wrt fields_apart (?f i)" unfolding sorted_wrt_map laid_fields(2) [OF i]
      by (rule sorted_wrt_mono_rel [rotated]) (rule adcon_fields_apart [OF lk i])
  qed
  ultimately have "sorted_wrt fields_apart (concat (map ?f [0..<length os]))" by (rule sorted_wrt_concat_map)
  then show ?thesis by (simp add: rld_items_def comp_def)
qed

lemma rdval_move:
  assumes "\<And>d. d < n \<Longrightarrow> byte_at a (p + d) = byte_at b (q + d)"
  shows "mvs_rdval a p n = mvs_rdval b q n"
  unfolding mvs_rdval_def using assms by (intro fold_cong) auto

lemma adcon_field_fits:
  assumes "linkable os" "i < length os" "r \<in> set (lo_rld (os ! i))" "active (laid_obj os i, r)" "base_of (cp_O (pass2 os)) (Suc i) \<le> n"
  shows "field_fits n (laid_obj os i, r)"
proof -
  obtain l where l: "keeps (laid_obj os i) (or_p r) l" "lc_addr l \<le> or_addr r" "or_addr r + rld_len r \<le> lc_addr l + lc_len l"
    "rld_modaddr (laid_obj os i) r = int (base_of (cp_O (pass2 os)) i + lc_newaddr l + (or_addr r - lc_addr l))" by (rule adcon_place [OF assms(1-4)])
  show ?thesis using laid_inside [OF assms(2) l(1)] l(2-4) assms(5) by (simp add: field_fits_def)
qed

lemma adcon_input:
  assumes h: "linkable os" "i < length os" "r \<in> set (lo_rld (os ! i))" "active (laid_obj os i, r)" and n: "base_of (cp_O (pass2 os)) (Suc i) \<le> length m"
    and m: "\<And>j l d. keeps (laid_obj os i) j l \<Longrightarrow> d < lc_len l \<Longrightarrow> lc_addr l + d < length (lo_text (os ! i))
      \<Longrightarrow> m ! (base_of (cp_O (pass2 os)) i + lc_newaddr l + d) = lo_text (os ! i) ! (lc_addr l + d)"
  shows "field_at m (laid_obj os i, r) = int (unat (mvs_rdval (lo_text (os ! i)) (or_addr r) (rld_len r)))"
proof -
  let ?b = "base_of (cp_O (pass2 os)) i"
  obtain l where l: "keeps (laid_obj os i) (or_p r) l" "lc_addr l \<le> or_addr r" "or_addr r + rld_len r \<le> lc_addr l + lc_len l"
    "or_addr r + rld_len r \<le> length (lo_text (os ! i))" "rld_modaddr (laid_obj os i) r = int (?b + lc_newaddr l + (or_addr r - lc_addr l))"
    by (rule adcon_place [OF h])
  have p: "nat (rld_modaddr (laid_obj os i) r) = ?b + lc_newaddr l + (or_addr r - lc_addr l)" unfolding l(5) by (rule nat_int)
  have "mvs_rdval m (nat (rld_modaddr (laid_obj os i) r)) (rld_len r) = mvs_rdval (lo_text (os ! i)) (or_addr r) (rld_len r)"
  proof (rule rdval_move)
    fix d assume d: "d < rld_len r"
    have "m ! (?b + lc_newaddr l + (or_addr r - lc_addr l + d)) = lo_text (os ! i) ! (lc_addr l + (or_addr r - lc_addr l + d))"
      by (rule m [OF l(1)]) (use l(2-4) d in simp_all)
    then show "byte_at m (nat (rld_modaddr (laid_obj os i) r) + d) = byte_at (lo_text (os ! i)) (or_addr r + d)"
      using l(2-4) d laid_inside [OF h(2) l(1)] n unfolding p by (simp add: byte_at_nth add.assoc)
  qed
  then show ?thesis by (simp add: field_at_def)
qed

lemma reloc_image:
  assumes "\<forall>y\<in>set ys. active y \<longrightarrow> field_fits (length m) y" "sorted_wrt fields_apart ys"
  obtains im where "fold (reloc_item G) ys (Some \<lparr>im_mod = m, im_warn = []\<rparr>) = Some im" "length (im_mod im) = length m"
    "\<And>y. y \<in> set ys \<Longrightarrow> active y \<Longrightarrow> field_at (im_mod im) y = relocated G y (field_at m y)"
    "\<And>x. x < length m \<Longrightarrow> (\<And>y. y \<in> set ys \<Longrightarrow> active y \<Longrightarrow> \<not> in_field y x) \<Longrightarrow> im_mod im ! x = m ! x"
  using reloc_all [of ys "\<lparr>im_mod = m, im_warn = []\<rparr>" G, unfolded image.select_convs, OF assms] by blast


definition ex_adcon :: obj_rld where
  "ex_adcon = \<lparr>or_r = 2, or_p = 1, or_flag = 0x0C, or_addr = 4\<rparr>"

definition ex_nm :: "byte \<Rightarrow> bytes" where
  "ex_nm c = c # replicate 7 0x40"

definition ex_link :: "lobj list" where
  "ex_link = [lobj_init\<lparr>lo_loc := [1 \<mapsto> ex_lent (ex_nm 0xC1) T_SD 0 8, 2 \<mapsto> ex_lent (ex_nm 0xC2) T_ER 0 0], lo_text := [7, 7, 7, 7, 0, 0, 0, 2], lo_rld := [ex_adcon]\<rparr>,
     lobj_init\<lparr>lo_loc := [1 \<mapsto> ex_lent (ex_nm 0xC2) T_SD 0 3], lo_text := [9, 9, 9]\<rparr>]"

lemma ex_link_stops: "pass2 ex_link = pass2_below 3 ex_link"
  by (rule pass2_stops) (auto simp: MAXESD_def ids_below_def ex_link_def lobj_init_def less_Suc_eq)

lemma ex_link_drop: "\<not> lo_has_drop (cp_O (pass2 ex_link) ! 0)" "\<not> lo_has_drop (cp_O (pass2 ex_link) ! 1)"
  unfolding ex_link_stops by code_simp+

lemma ex_linkable: "linkable ex_link"
proof -
  have len: "rld_len ex_adcon = 4" "or_p ex_adcon = 1" "or_addr ex_adcon = 4" by code_simp+
  have s: "sect_at (ex_link ! 0) j = (if j = 1 then Some (ex_lent (ex_nm 0xC1) T_SD 0 8) else None)" "sect_at (ex_link ! 1) j = (if j = 1 then Some (ex_lent (ex_nm 0xC2) T_SD 0 3) else None)" for j
    by (auto simp: sect_at_def ex_link_def lobj_init_def ex_lent_def is_obj_sect_def ld_types)
  have "deck_sound (ex_link ! 0)"
    unfolding deck_sound_def sects_apart_def s adcon_ok_def
    by (auto simp: len ex_link_def lobj_init_def ex_lent_def MAXESD_def split: if_splits intro!: exI [of _ 1])
  moreover have "deck_sound (ex_link ! 1)"
    unfolding deck_sound_def sects_apart_def s by (auto simp: ex_link_def lobj_init_def ex_lent_def MAXESD_def split: if_splits intro!: exI [of _ 1])
  ultimately have "list_all deck_sound ex_link" by (simp add: ex_link_def)
  moreover have "names_clear ex_link" "decks_fresh ex_link"
    by (auto simp: names_clear_def decks_fresh_def ex_link_def lobj_init_def ex_lent_def ld_types split: if_splits)
  moreover have "\<forall>i<length ex_link. lo_has_drop (cp_O (pass2 ex_link) ! i) \<longrightarrow> no_commons (ex_link ! i)"
    using ex_link_drop by (auto simp: ex_link_def less_Suc_eq)
  ultimately show ?thesis by (simp add: linkable_def)
qed

lemma obj_size_below:
  assumes "\<forall>j\<ge>n. lo_loc ob j = None" "1 \<le> n" "n \<le> MAXESD"
  shows "obj_size ob = fold (\<lambda>j osize. case sect_at ob j of
     Some l \<Rightarrow> if \<not> lc_dropped l \<and> lc_newaddr l + lc_len l > osize then lc_newaddr l + lc_len l else osize
   | None \<Rightarrow> osize) [1..<n] 0"
proof -
  let ?f = "\<lambda>j osize. case sect_at ob j of
     Some l \<Rightarrow> if \<not> lc_dropped l \<and> lc_newaddr l + lc_len l > osize then lc_newaddr l + lc_len l else osize | None \<Rightarrow> osize"
  have "fold ?f [n..<MAXESD] z = z" for z using assms(1) by (intro fold_idle) (simp add: sect_at_def)
  then show ?thesis unfolding obj_size_def upt_slots [OF assms(2,3)] by simp
qed

lemma ex_link_size: "obj_size (cp_O (pass2 ex_link) ! 0) = 8" "obj_size (cp_O (pass2 ex_link) ! 1) = 3"
proof -
  have b: "\<forall>j\<ge>3. lo_loc (cp_O (pass2 ex_link) ! i) j = None" if "i < 2" for i
  proof (intro allI impI)
    fix j :: nat assume "3 \<le> j"
    then have "lo_loc (ex_link ! i) j = None" using that by (auto simp: ex_link_def lobj_init_def less_Suc_eq numeral_2_eq_2)
    moreover have "map_option strip (lo_loc (cp_O (pass2 ex_link) ! i) j) = map_option strip (lo_loc (ex_link ! i) j)"
      using refs.all_steps [of ex_link] that by (simp add: comp_inv_def same_objs_def ex_link_def)
    ultimately show "lo_loc (cp_O (pass2 ex_link) ! i) j = None" by simp
  qed
  have z: "obj_size (cp_O (pass2 ex_link) ! i) = fold (\<lambda>j osize. case sect_at (cp_O (pass2 ex_link) ! i) j of
      Some l \<Rightarrow> if \<not> lc_dropped l \<and> lc_newaddr l + lc_len l > osize then lc_newaddr l + lc_len l else osize | None \<Rightarrow> osize) [1..<3] 0" if "i < 2" for i
    by (rule obj_size_below [OF b [OF that]]) (simp_all add: MAXESD_def)
  have "obj_size (cp_O (pass2 ex_link) ! 0) = 8" by (subst z, simp, unfold ex_link_stops, code_simp)
  moreover have "obj_size (cp_O (pass2 ex_link) ! 1) = 3" by (subst z, simp, unfold ex_link_stops, code_simp)
  ultimately show "obj_size (cp_O (pass2 ex_link) ! 0) = 8" "obj_size (cp_O (pass2 ex_link) ! 1) = 3" by simp_all
qed

definition ex_sym :: "byte \<Rightarrow> nat \<Rightarrow> nat \<Rightarrow> nat \<Rightarrow> int \<Rightarrow> gsym" where
  "ex_sym c i len gid org = \<lparr>gs_name = ex_nm c, gs_type = T_SD, gs_is_sect = True, gs_gid = gid, gs_org = org, gs_len = len,
     gs_def_obj = Some i, gs_in_addr = 0, gs_owner = None\<rparr>"

lemma ex_link_G: "cp_G (pass2 ex_link) = [ex_sym 0xC1 0 8 0 0, ex_sym 0xC2 1 3 0 0]"
  unfolding ex_link_stops by code_simp

lemma ex_link_laid:
  "ly_modlen (assign_addresses (pass2 ex_link)) = 16" "cp_G (ly_st (assign_addresses (pass2 ex_link))) = [ex_sym 0xC1 0 8 1 0, ex_sym 0xC2 1 3 2 8]"
proof -
  let ?st = "pass2 ex_link"
  have len: "length (cp_O ?st) = 2" by (simp add: pass2_length ex_link_def)
  have c: "compacted (cp_O ?st ! 0) = cp_O ?st ! 0" "compacted (cp_O ?st ! 1) = cp_O ?st ! 1" using ex_link_drop by (simp_all add: compacted_def)
  have "\<exists>st. fold place_obj [0..<length (cp_O ?st)] (0, ?st) = (16, st) \<and> cp_G st = cp_G ?st \<and> lo_object_base (cp_O st ! 0) = 0 \<and> lo_object_base (cp_O st ! 1) = 8"
    using len ex_link_drop c ex_link_size by (simp add: numeral_2_eq_2 place_obj_unfold roundup8_def)
  then obtain st where st: "fold place_obj [0..<length (cp_O ?st)] (0, ?st) = (16, st)" "cp_G st = [ex_sym 0xC1 0 8 0 0, ex_sym 0xC2 1 3 0 0]"
    "lo_object_base (cp_O st ! 0) = 0" "lo_object_base (cp_O st ! 1) = 8" unfolding ex_link_G by blast
  have n: "length (cp_G st) = 2" by (simp add: st(2))
  have "fold place_common [0..<2] (16, cp_G st) = (16, cp_G st)"
    "fold (sect_gids (cp_O st)) [0..<2] (0, cp_G st) = (2, [ex_sym 0xC1 0 8 1 0, ex_sym 0xC2 1 3 2 8])"
    "fold other_gids [0..<2] (2, [ex_sym 0xC1 0 8 1 0, ex_sym 0xC2 1 3 2 8]) = (2, [ex_sym 0xC1 0 8 1 0, ex_sym 0xC2 1 3 2 8])"
    using st(3,4) by (simp_all add: st(2) upt_rec place_common_def sect_gids_def other_gids_def ex_sym_def ld_types)
  then have "assign_addresses ?st = \<lparr>ly_st = st\<lparr>cp_G := [ex_sym 0xC1 0 8 1 0, ex_sym 0xC2 1 3 2 8]\<rparr>, ly_textend = 16, ly_modlen = 16, ly_nsect = 2\<rparr>"
    unfolding assign_addresses_def st(1) Let_def prod.case n by (simp only: prod.case) (simp add: roundup8_def)
  then show "ly_modlen (assign_addresses ?st) = 16" "cp_G (ly_st (assign_addresses ?st)) = [ex_sym 0xC1 0 8 1 0, ex_sym 0xC2 1 3 2 8]" by simp_all
qed

lemmas ex_link_modlen = ex_link_laid(1)


end
