(* ===== verification/Ld_Emit.thy ===== *)
theory Ld_Emit
  imports Ld_Image Lmod Cp037 Rld_Run
begin

section \<open>ld370: the load-module writer\<close>

text \<open>
  The emission half of \<^verbatim>\<open>main\<close> of \<^verbatim>\<open>ld370/src/ld370.c\<close>: the composite ESD in records of at most fifteen entries, the two
  identification records, control and text records, and the RLD records. The clock and \<^verbatim>\<open>CC370_VERSION\<close> are
  arguments. An entry for an id that no symbol has, which the C code would read at index \<^verbatim>\<open>-1\<close>, is \<open>None\<close>.
  Shown here: the text records cover every section and none is too long, the identification record holds decimal
  digits only, and the RLD records are the shared item encoding cut at 236 bytes.
\<close>

subsection \<open>The composite ESD\<close>

definition cesd_entry :: "gsym list \<Rightarrow> gsym \<Rightarrow> bytes" where
  "cesd_entry G g = gs_name g @ [of_nat (gs_type g)] @
    (if gs_is_sect g then mvs_put24 (gs_org g) @ [0x01] @ mvs_put24 (int (gs_len g))
     else if gs_type g = T_LR then
       let oorg = (case gs_owner g of Some w \<Rightarrow> gs_org (G ! w) | None \<Rightarrow> 0);
           ogid = (case gs_owner g of Some w \<Rightarrow> gs_gid (G ! w) | None \<Rightarrow> 0)
       in mvs_put24 (oorg + gs_in_addr g) @ [0x01] @ mvs_put24 (int ogid)
     else [0, 0, 0, 0x00, 0x00, 0x40, 0x40])"

definition gid_entry :: "gsym list \<Rightarrow> nat \<Rightarrow> gsym option" where
  "gid_entry G gid = List.find (\<lambda>g. gs_gid g = gid) G"

text \<open>Records of at most fifteen entries, numbered from the id of their first.\<close>

function cesd_recs :: "nat \<Rightarrow> bytes list \<Rightarrow> bytes list" where
  "cesd_recs gid es =
    (if es = [] then []
     else let c = take 15 es
          in ([0x20, 0, 0, 0] @ mvs_put16 (int gid) @ mvs_put16 (int (16 * length c)) @ concat c) # cesd_recs (gid + 15) (drop 15 es))"
  by pat_completeness auto
termination
  by (relation "measure (\<lambda>(gid, es). length es)") auto

declare cesd_recs.simps [simp del]

definition cesd_table :: "gsym list \<Rightarrow> bytes list option" where
  "cesd_table G = those (map (\<lambda>gid. map_option (cesd_entry G) (gid_entry G gid)) [1..<Suc (length G)])"

subsection \<open>Identification records\<close>

definition spzap_idr :: bytes where
  "spzap_idr = [0x80, 0xFA, 0x01, 0x00] @ replicate 247 0"

record idr_stamp =
  st_vv :: nat
  st_mm :: nat
  st_yy :: nat
  st_ddd :: nat
  st_hh :: nat
  st_min :: nat
  st_ss :: nat

text \<open>\<^verbatim>\<open>LDDATE\<close> and \<^verbatim>\<open>LDTIME\<close> override the clock; a malformed value ends the link.\<close>

datatype env_error = LDDATE_MALFORMED | LDTIME_MALFORMED

fun decfield :: "string \<Rightarrow> nat \<Rightarrow> nat option" where
  "decfield [] v = Some v"
| "decfield (c # cs) v = (if of_char c < (48::nat) \<or> of_char c > (57::nat) then None else decfield cs (v * 10 + (of_char c - 48)))"

definition ld_lddate :: "string option \<Rightarrow> nat \<times> nat \<Rightarrow> env_error + nat \<times> nat" where
  "ld_lddate ed clk = (if ed = None \<or> ed = Some [] then Inr clk
     else if length (the ed) \<noteq> 5 then Inl LDDATE_MALFORMED
     else case decfield (the ed) 0 of
       None \<Rightarrow> Inl LDDATE_MALFORMED
     | Some v \<Rightarrow> if v mod 1000 < 1 \<or> v mod 1000 > 366 then Inl LDDATE_MALFORMED else Inr (v div 1000, v mod 1000))"

definition ld_ldtime :: "string option \<Rightarrow> nat \<times> nat \<times> nat \<Rightarrow> env_error + nat \<times> nat \<times> nat" where
  "ld_ldtime et clk = (if et = None \<or> et = Some [] then Inr clk
     else if length (the et) \<noteq> 6 then Inl LDTIME_MALFORMED
     else case decfield (the et) 0 of
       None \<Rightarrow> Inl LDTIME_MALFORMED
     | Some v \<Rightarrow> if v div 10000 > 23 \<or> v div 100 mod 100 > 59 \<or> v mod 100 > 59 then Inl LDTIME_MALFORMED
         else Inr (v div 10000, v div 100 mod 100, v mod 100))"

text \<open>The stamp: version and modification level of the toolchain, the host's day and time, and the two variables.\<close>

definition lked_stamp :: "nat \<times> nat \<Rightarrow> nat \<times> nat \<Rightarrow> nat \<times> nat \<times> nat \<Rightarrow> string option \<Rightarrow> string option \<Rightarrow> env_error + idr_stamp" where
  "lked_stamp ver day tim ed et = (case ld_lddate ed day of
     Inl e \<Rightarrow> Inl e
   | Inr (yy, ddd) \<Rightarrow> (case ld_ldtime et tim of
       Inl e \<Rightarrow> Inl e
     | Inr (hh, mm, ss) \<Rightarrow> Inr \<lparr>st_vv = fst ver mod 100, st_mm = snd ver mod 100, st_yy = yy, st_ddd = ddd, st_hh = hh, st_min = mm, st_ss = ss\<rparr>))"

definition LD370_IDR_PROD :: string where "LD370_IDR_PROD = ''LD370''"

definition nib2 :: "nat \<Rightarrow> nat \<Rightarrow> byte" where
  "nib2 a b = push_bit 4 (of_nat a) OR of_nat b"

definition emit_lked_idr :: "idr_stamp \<Rightarrow> bytes" where
  "emit_lked_idr t =
    [0x80, 0x15, 0x82]
    @ map (\<lambda>i. if i < length LD370_IDR_PROD then mvs_a2e (ascii (LD370_IDR_PROD ! i)) else 0x40) [0..<10]
    @ [nib2 (st_vv t div 10) (st_vv t mod 10), nib2 (st_mm t div 10) (st_mm t mod 10),
       nib2 (st_yy t div 10) (st_yy t mod 10), nib2 (st_ddd t div 100) (st_ddd t div 10 mod 10), nib2 (st_ddd t mod 10) 0x0f,
       of_nat (st_hh t div 10), nib2 (st_hh t mod 10) (st_min t div 10), nib2 (st_min t mod 10) (st_ss t div 10), nib2 (st_ss t mod 10) 0x0f]"

lemma decfield_bound: "decfield s v = Some w \<Longrightarrow> w < (v + 1) * 10 ^ length s"
proof (induction s v rule: decfield.induct)
  case (2 c cs v)
  then have "w < (v * 10 + (of_char c - 48) + 1) * 10 ^ length cs" "of_char c \<le> (57::nat)" by (auto split: if_splits)
  moreover have "(v * 10 + (of_char c - 48) + 1) * 10 ^ length cs \<le> (v + 1) * 10 * 10 ^ length cs" using calculation(2) by (intro mult_right_mono) auto
  ultimately have "w < (v + 1) * 10 * 10 ^ length cs" by linarith
  then show ?case by (simp add: algebra_simps)
qed simp

lemma nib2_nibbles:
  assumes "a < 16" "b < 16" shows "unat (nib2 a b) = 16 * a + b"
proof -
  have "list_all (\<lambda>a. list_all (\<lambda>b. unat (nib2 a b) = 16 * a + b) [0..<16]) [0..<16]" by code_simp
  then show ?thesis using assms by (simp add: list_all_iff)
qed

text \<open>
  Every digit of the identification record is a decimal digit: whatever the two variables hold, a stamp that is
  made from a clock in range fits the fields of the record.
\<close>

lemma lked_stamp_decimal:
  assumes "lked_stamp ver day tim ed et = Inr t" "fst day < 100" "snd day \<le> 366" "fst tim < 24" "fst (snd tim) < 60" "snd (snd tim) < 100"
  shows "st_vv t < 100 \<and> st_mm t < 100 \<and> st_yy t < 100 \<and> st_ddd t \<le> 366 \<and> st_hh t < 24 \<and> st_min t < 60 \<and> st_ss t < 100"
proof -
  obtain yy ddd hh mm ss where p: "ld_lddate ed day = Inr (yy, ddd)" "ld_ldtime et tim = Inr (hh, mm, ss)"
    "t = \<lparr>st_vv = fst ver mod 100, st_mm = snd ver mod 100, st_yy = yy, st_ddd = ddd, st_hh = hh, st_min = mm, st_ss = ss\<rparr>"
    using assms(1) by (auto simp: lked_stamp_def split: sum.splits)
  have "yy < 100 \<and> ddd \<le> 366" using p(1) assms(2,3) decfield_bound [of "the ed" 0] by (fastforce simp: ld_lddate_def split: if_splits option.splits)
  moreover have "hh < 24 \<and> mm < 60 \<and> ss < 100" using p(2) assms(4-6) by (auto simp: ld_ldtime_def split: if_splits option.splits)
  ultimately show ?thesis by (simp add: p(3))
qed

definition decimal_byte :: "byte \<Rightarrow> bool" where
  "decimal_byte b \<longleftrightarrow> unat b div 16 \<le> 9 \<and> (unat b mod 16 \<le> 9 \<or> unat b mod 16 = 15)"

lemma lked_idr_decimal:
  assumes "lked_stamp ver day tim ed et = Inr t" "fst day < 100" "snd day \<le> 366" "fst tim < 24" "fst (snd tim) < 60" "snd (snd tim) < 100"
  shows "length (emit_lked_idr t) = 22 \<and> list_all decimal_byte (drop 13 (emit_lked_idr t))"
proof -
  have r: "st_vv t < 100" "st_mm t < 100" "st_yy t < 100" "st_ddd t \<le> 366" "st_hh t < 24" "st_min t < 60" "st_ss t < 100"
    using lked_stamp_decimal [OF assms] by blast+
  have n: "decimal_byte (nib2 x y)" if "x \<le> 9" "y \<le> 9 \<or> y = 15" for x y using nib2_nibbles [of x y] that by (auto simp: decimal_byte_def)
  have "unat (of_nat (st_hh t div 10) :: byte) = st_hh t div 10" using r by (simp add: unat_of_nat)
  moreover have "st_hh t div 10 \<le> 9" using r by linarith
  ultimately have "decimal_byte (of_nat (st_hh t div 10))" by (simp add: decimal_byte_def)
  then show ?thesis using r by (auto simp: emit_lked_idr_def intro!: n)
qed

subsection \<open>Control and text records\<close>

text \<open>The end of the section at a position: the next doubleword, or the end of the text for the last one.\<close>

definition sect_end :: "int \<Rightarrow> gsym \<Rightarrow> gsym list \<Rightarrow> int" where
  "sect_end textend g rest = (if rest \<noteq> [] then gs_org g + int (roundup8 (gs_len g)) else textend)"

text \<open>Packing whole sections into a chunk: what was packed with each section's end, the chunk's end and the rest.\<close>

fun pack_chunk :: "int \<Rightarrow> int \<Rightarrow> int \<Rightarrow> (gsym \<times> int) list \<Rightarrow> int \<Rightarrow> gsym list \<Rightarrow> (gsym \<times> int) list \<times> int \<times> gsym list" where
  "pack_chunk maxtext textend cstart acc cend [] = (acc, cend, [])"
| "pack_chunk maxtext textend cstart acc cend (g # rest) =
    (let send = sect_end textend g rest in
     if acc \<noteq> [] \<and> send - cstart > maxtext then (acc, cend, g # rest)
     else pack_chunk maxtext textend cstart (acc @ [(g, send)]) send rest)"

record txtrec =
  tx_p :: int
  tx_len :: int
  tx_ctl :: bytes
  tx_last :: bool

definition ctl_rec :: "byte \<Rightarrow> int \<Rightarrow> int \<Rightarrow> (nat \<times> int) list \<Rightarrow> bytes" where
  "ctl_rec b0 p rlen ids =
    [b0, 0, 0, 0] @ mvs_put16 (int (4 * length ids)) @ mvs_put16 0 @ [0x06] @ mvs_put24 p @ [0x40, 0] @ mvs_put16 rlen
    @ concat (map (\<lambda>(gid, span). mvs_put16 (int gid) @ mvs_put16 span) ids)"

lemma pick_maxtext_pos: "1024 \<le> pick_maxtext blksize"
  by (auto simp: pick_maxtext_def iewl_txtsize_def split: option.split)

lemma pick_maxtext_le: "pick_maxtext blksize \<le> 18432"
  by (auto simp: pick_maxtext_def iewl_txtsize_def split: option.split)

text \<open>The records of one chunk: a \<^verbatim>\<open>do\<close> loop from the chunk's start.\<close>

function chunk_recs :: "nat \<Rightarrow> bool \<Rightarrow> bool \<Rightarrow> (gsym \<times> int) list \<Rightarrow> int \<Rightarrow> int \<Rightarrow> txtrec list" where
  "chunk_recs blksize have_rld last_chunk packed cend p =
    (let rlen = (if cend - p > int (pick_maxtext blksize) then int (pick_maxtext blksize) else cend - p);
         is_last = (last_chunk \<and> p + rlen \<ge> cend);
         ids = (if length packed > 1 then map (\<lambda>(g, send). (gs_gid g, send - gs_org g)) packed else [(gs_gid (fst (hd packed)), rlen)]);
         r = \<lparr>tx_p = p, tx_len = rlen, tx_ctl = ctl_rec (if is_last \<and> \<not> have_rld then 0x0D else 0x01) p rlen ids, tx_last = is_last\<rparr>
     in r # (if p + rlen < cend then chunk_recs blksize have_rld last_chunk packed cend (p + rlen) else []))"
  by pat_completeness auto
termination
proof (relation "measure (\<lambda>(b, h, l, packed, cend, p). nat (cend - p))", goal_cases)
  case (2 b h l packed cend p rlen is_last ids r)
  then show ?case using pick_maxtext_pos [of b] by (auto split: if_splits)
qed simp

declare chunk_recs.simps [simp del]

lemma pack_chunk_rest:
  "pack_chunk m t c acc e ss = (packed, e', rest) \<Longrightarrow> length rest \<le> length ss \<and> (acc = [] \<longrightarrow> ss \<noteq> [] \<longrightarrow> length rest < length ss)"
proof (induction m t c acc e ss rule: pack_chunk.induct)
  case (2 m t c acc e g rest)
  then show ?case by (cases "acc \<noteq> [] \<and> sect_end t g rest - c > m") (auto simp: Let_def)
qed simp

declare pack_chunk.simps(2) [simp del]

function text_recs :: "nat \<Rightarrow> bool \<Rightarrow> int \<Rightarrow> gsym list \<Rightarrow> txtrec list" where
  "text_recs blksize have_rld textend [] = []"
| "text_recs blksize have_rld textend (g # ss) =
    (case pack_chunk (int (pick_maxtext blksize)) textend (gs_org g) [] (gs_org g) (g # ss) of (packed, cend, rest) \<Rightarrow>
       chunk_recs blksize have_rld (rest = []) packed cend (gs_org g) @ text_recs blksize have_rld textend rest)"
  by pat_completeness auto
termination
  by (relation "measure (\<lambda>(b, h, t, ss). length ss)") (auto dest!: pack_chunk_rest [OF sym])

declare text_recs.simps(2) [simp del]

definition text_sects :: "gsym list \<Rightarrow> gsym list" where
  "text_sects G = (let ntext = length (filter (\<lambda>k. gs_type (G ! k) \<noteq> T_CM) (gidx G)) in map (\<lambda>k. G ! k) (take ntext (gidx G)))"

text \<open>\<^verbatim>\<open>--sparse-text\<close> leaves out a record no TXT card covered, unless it ends the module.\<close>

definition keep_rec :: "bool \<Rightarrow> bool \<Rightarrow> bool list \<Rightarrow> txtrec \<Rightarrow> bool" where
  "keep_rec sparse have_rld moddef r \<longleftrightarrow>
    \<not> (sparse \<and> \<not> (tx_last r \<and> \<not> have_rld) \<and> (\<forall>zi<nat (tx_len r). \<not> moddef ! (nat (tx_p r) + zi)))"

definition rec_bytes :: "bytes \<Rightarrow> txtrec \<Rightarrow> bytes" where
  "rec_bytes m r = tx_ctl r @ take (nat (tx_len r)) (drop (nat (tx_p r)) m)"

subsection \<open>RLD records\<close>

record rlditem =
  ri_R :: nat
  ri_P :: nat
  ri_flag :: byte
  ri_addr :: int

definition rld_item :: "gsym list \<Rightarrow> lobj \<times> obj_rld \<Rightarrow> rlditem" where
  "rld_item G = (\<lambda>(ob, r).
    let Rg = local_to_g ob (or_r r); Pg = local_to_g ob (or_p r);
        Pgid = (case Pg of Some k \<Rightarrow> gs_gid (G ! k) | None \<Rightarrow> 0); flag = or_flag r AND 0xFE;
        (Rgid, resolved) = (case Rg of
           Some k \<Rightarrow>
             if gs_is_sect (G ! k) then (gs_gid (G ! k), True)
             else (case gs_owner (G ! k) of
               Some w \<Rightarrow> if gs_type (G ! k) = T_LR \<and> gs_is_sect (G ! w) then (gs_gid (G ! w), True) else (gs_gid (G ! k), False)
             | None \<Rightarrow> (gs_gid (G ! k), False))
         | None \<Rightarrow> (0, False))
    in \<lparr>ri_R = Rgid, ri_P = Pgid, ri_flag = (if resolved then flag else flag OR 0x80), ri_addr = rld_modaddr ob r\<rparr>)"

definition RLDMAX :: nat where "RLDMAX = 236"

text \<open>
  The record being filled: its data, where its last flag byte is, and the pair of its last item. An item with
  the pair of the one before sets that item's continuation bit and leaves its own pair out.
\<close>

fun rld_recs :: "bytes \<Rightarrow> nat \<Rightarrow> (nat \<times> nat) option \<Rightarrow> rlditem list \<Rightarrow> bytes list" where
  "rld_recs dat pf prev [] = [dat]"
| "rld_recs dat pf prev (x # xs) =
    (let same = (prev = Some (ri_R x, ri_P x)); isize = (if same then 4 else 8);
         item = [ri_flag x] @ mvs_put24 (ri_addr x);
         full = mvs_put16 (int (ri_R x)) @ mvs_put16 (int (ri_P x)) @ item in
     if length dat + isize > RLDMAX then dat # rld_recs full 4 (Some (ri_R x, ri_P x)) xs
     else if same then rld_recs (dat[pf := dat ! pf OR 0x01] @ item) (length dat) (Some (ri_R x, ri_P x)) xs
     else rld_recs (dat @ full) (length dat + 4) (Some (ri_R x, ri_P x)) xs)"

definition rld_rec :: "byte \<Rightarrow> bytes \<Rightarrow> bytes" where
  "rld_rec b0 dat = [b0, 0, 0, 0, 0, 0] @ mvs_put16 (int (length dat)) @ replicate 8 0 @ dat"

definition rld_records :: "rlditem list \<Rightarrow> bytes list" where
  "rld_records xs = (let ds = rld_recs [] 0 None xs in map (rld_rec 0x02) (butlast ds) @ [rld_rec 0x0E (last ds)])"

subsection \<open>The member\<close>

record emit_opts =
  eo_blksize :: nat
  eo_sparse :: bool
  eo_stamp :: idr_stamp

definition emit_module :: "emit_opts \<Rightarrow> layout \<Rightarrow> bytes \<Rightarrow> bool list \<Rightarrow> bytes option" where
  "emit_module eo ly m moddef =
    (let G = cp_G (ly_st ly); items = filter (\<lambda>(ob, r). \<not> rld_dropped ob r) (rld_items (cp_O (ly_st ly))); have_rld = (items \<noteq> []) in
     case cesd_table G of
       None \<Rightarrow> None
     | Some es \<Rightarrow> Some (concat (cesd_recs 1 es) @ spzap_idr @ emit_lked_idr (eo_stamp eo)
         @ concat (map (rec_bytes m) (filter (keep_rec (eo_sparse eo) have_rld moddef)
             (text_recs (eo_blksize eo) have_rld (int (ly_textend ly)) (text_sects G))))
         @ (if have_rld then concat (rld_records (map (rld_item G) items)) else [])))"

subsection \<open>Text records cover the sections\<close>

definition after :: "gsym \<Rightarrow> gsym \<Rightarrow> bool" where
  "after g h \<longleftrightarrow> gs_org g + int (roundup8 (gs_len g)) \<le> gs_org h"

definition rec_before :: "txtrec \<Rightarrow> txtrec \<Rightarrow> bool" where
  "rec_before r r' \<longleftrightarrow> tx_p r + tx_len r \<le> tx_p r'"

definition rec_in :: "nat \<Rightarrow> int \<Rightarrow> int \<Rightarrow> txtrec \<Rightarrow> bool" where
  "rec_in n lo hi r \<longleftrightarrow> lo \<le> tx_p r \<and> 0 \<le> tx_len r \<and> tx_len r \<le> int n \<and> tx_p r + tx_len r \<le> hi"

definition covered :: "txtrec list \<Rightarrow> int \<Rightarrow> bool" where
  "covered rs x \<longleftrightarrow> list_ex (\<lambda>r. tx_p r \<le> x \<and> x < tx_p r + tx_len r) rs"

lemma pack_chunk_spec:
  assumes "pack_chunk m t c acc e ss = (packed, e', rest)" "length acc > 1 \<Longrightarrow> e - c \<le> m"
  shows "\<exists>pre. ss = pre @ rest \<and> map fst packed = map fst acc @ pre \<and> (pre \<noteq> [] \<longrightarrow> e' = sect_end t (last pre) rest) \<and> (pre = [] \<longrightarrow> e' = e)
    \<and> (length packed > 1 \<longrightarrow> e' - c \<le> m) \<and> (acc = [] \<longrightarrow> ss \<noteq> [] \<longrightarrow> pre \<noteq> [])"
  using assms
proof (induction m t c acc e ss rule: pack_chunk.induct)
  case (2 m t c acc e g ss)
  show ?case
  proof (cases "acc \<noteq> [] \<and> sect_end t g ss - c > m")
    case True
    have "(acc, e, g # ss) = (packed, e', rest)" using 2(2) unfolding pack_chunk.simps(2) Let_def if_P [OF True] .
    then show ?thesis using 2(3) True by (intro exI [of _ "[]"]) auto
  next
    case False
    have e: "pack_chunk m t c (acc @ [(g, sect_end t g ss)]) (sect_end t g ss) ss = (packed, e', rest)"
      using 2(2) unfolding pack_chunk.simps(2) Let_def if_not_P [OF False] .
    have side: "sect_end t g ss - c \<le> m" if "1 < length (acc @ [(g, sect_end t g ss)])" using that False by auto
    obtain pre where p: "ss = pre @ rest \<and> map fst packed = map fst (acc @ [(g, sect_end t g ss)]) @ pre \<and> (pre \<noteq> [] \<longrightarrow> e' = sect_end t (last pre) rest)
        \<and> (pre = [] \<longrightarrow> e' = sect_end t g ss) \<and> (length packed > 1 \<longrightarrow> e' - c \<le> m)
        \<and> (acc @ [(g, sect_end t g ss)] = [] \<longrightarrow> ss \<noteq> [] \<longrightarrow> pre \<noteq> [])"
      using 2(1) [OF refl False e side] by (rule exE)
    have pre: "ss = pre @ rest" "map fst packed = map fst acc @ g # pre" "length packed > 1 \<longrightarrow> e' - c \<le> m" using p by simp_all
    moreover have "e' = sect_end t (last (g # pre)) rest" using p by (cases "pre = []") simp_all
    ultimately show ?thesis by (intro exI [of _ "g # pre"]) simp
  qed
qed auto

lemma chunk_recs_cover:
  assumes "p \<le> cend"
  shows "list_all (rec_in (pick_maxtext b) p cend) (chunk_recs b h lst packed cend p) \<and> sorted_wrt rec_before (chunk_recs b h lst packed cend p)
    \<and> (p \<le> x \<and> x < cend \<longrightarrow> covered (chunk_recs b h lst packed cend p) x)"
  using assms
proof (induction b h lst packed cend p rule: chunk_recs.induct)
  case (1 b h lst packed cend p)
  let ?n = "int (pick_maxtext b)"
  have n: "1 \<le> ?n" using pick_maxtext_pos [of b] by simp
  show ?case
  proof (cases "cend - p > ?n")
    case True
    then have "\<exists>r. chunk_recs b h lst packed cend p = r # chunk_recs b h lst packed cend (p + ?n) \<and> tx_p r = p \<and> tx_len r = ?n"
      by (subst chunk_recs.simps) (simp add: Let_def)
    then obtain r where r: "chunk_recs b h lst packed cend p = r # chunk_recs b h lst packed cend (p + ?n)" "tx_p r = p" "tx_len r = ?n" by blast
    have ih: "list_all (rec_in (pick_maxtext b) (p + ?n) cend) (chunk_recs b h lst packed cend (p + ?n))"
      "sorted_wrt rec_before (chunk_recs b h lst packed cend (p + ?n))"
      "p + ?n \<le> x \<and> x < cend \<longrightarrow> covered (chunk_recs b h lst packed cend (p + ?n)) x"
      using 1(1) [OF refl refl refl refl] True by simp_all
    have "list_all (rec_in (pick_maxtext b) p cend) (chunk_recs b h lst packed cend (p + ?n))"
      using ih(1) n by (auto simp: list_all_iff rec_in_def)
    moreover have "list_all (rec_before r) (chunk_recs b h lst packed cend (p + ?n))"
      using ih(1) r(2,3) by (auto simp: list_all_iff rec_in_def rec_before_def)
    moreover have "rec_in (pick_maxtext b) p cend r" using True n r(2,3) by (simp add: rec_in_def)
    ultimately show ?thesis
      unfolding r(1) using ih(2,3) r(2,3) by (auto simp: covered_def list_all_iff)
  next
    case False
    then have "\<exists>r. chunk_recs b h lst packed cend p = [r] \<and> tx_p r = p \<and> tx_len r = cend - p"
      by (subst chunk_recs.simps) (simp add: Let_def)
    then show ?thesis using False 1(2) by (auto simp: rec_in_def covered_def)
  qed
qed

definition text_apart :: "int \<Rightarrow> gsym list \<Rightarrow> bool" where
  "text_apart t ss \<longleftrightarrow> sorted_wrt after ss \<and> list_all (\<lambda>g. gs_org g + int (roundup8 (gs_len g)) \<le> t) ss"

lemma after_org: "after g h \<Longrightarrow> gs_org g \<le> gs_org h"
  using roundup8_ge(1) [of "gs_len g"] by (simp add: after_def)

lemma pack_chunk_first:
  assumes "pack_chunk m t (gs_org g) [] (gs_org g) (g # ss) = (packed, cend, rest)" "text_apart t (g # ss)"
  obtains pre where "ss = pre @ rest" "cend = sect_end t (last (g # pre)) rest" "gs_org g \<le> cend"
    "\<forall>h\<in>set (g # pre). gs_org g \<le> gs_org h \<and> gs_org h + int (roundup8 (gs_len h)) \<le> cend" "rest \<noteq> [] \<longrightarrow> cend \<le> gs_org (hd rest)" "cend \<le> t"
    "map fst packed = g # pre" "length packed > 1 \<longrightarrow> cend - gs_org g \<le> m"
proof -
  obtain pre' where p: "g # ss = pre' @ rest" "map fst packed = pre'" "pre' \<noteq> []" "cend = sect_end t (last pre') rest" "length packed > 1 \<longrightarrow> cend - gs_org g \<le> m"
    using pack_chunk_spec [OF assms(1)] by auto
  then obtain pre where pre: "pre' = g # pre" "ss = pre @ rest" by (cases pre') auto
  define l where "l = last (g # pre)"
  have l: "l \<in> set (g # pre)" "cend = sect_end t l rest" using p(4) pre(1) last_in_set [of "g # pre"] unfolding l_def by blast+
  have fits: "gs_org h + int (roundup8 (gs_len h)) \<le> t" if "h \<in> set (g # pre)" for h
    using assms(2) that pre(2) by (auto simp: text_apart_def list_all_iff)
  have sorted: "sorted_wrt after (g # pre)" "\<forall>h\<in>set (g # pre). \<forall>h'\<in>set rest. after h h'"
    using assms(2) pre(2) by (auto simp: text_apart_def sorted_wrt_append)
  have lo: "gs_org g \<le> gs_org h" if "h \<in> set (g # pre)" for h using that sorted(1) by (auto intro: after_org)
  have al: "h = l \<or> after h l" if "h \<in> set (g # pre)" for h
  proof -
    have "g # pre = butlast (g # pre) @ [l]" by (simp add: l_def del: butlast.simps last.simps)
    then have "sorted_wrt after (butlast (g # pre) @ [l])" "set (g # pre) = insert l (set (butlast (g # pre)))"
      using sorted(1) by (metis, metis append.right_neutral list.simps(15) set_append Un_insert_right)
    then show ?thesis using that by (auto simp: sorted_wrt_append)
  qed
  have hi: "gs_org h + int (roundup8 (gs_len h)) \<le> cend" if "h \<in> set (g # pre)" for h
    using al [OF that] fits [OF that] l(2) by (cases "rest = []") (auto simp: sect_end_def after_def)
  show ?thesis
  proof (rule that [OF pre(2)])
    show "gs_org g \<le> cend" using hi [of g] by simp
    show "rest \<noteq> [] \<longrightarrow> cend \<le> gs_org (hd rest)"
      using sorted(2) l by (auto simp: sect_end_def after_def)
    show "cend \<le> t" using fits [OF l(1)] l(2) by (simp add: sect_end_def)
  qed (use p pre lo hi in auto)
qed

lemma text_recs_cover:
  assumes "text_apart t ss"
  shows "(ss \<noteq> [] \<longrightarrow> list_all (rec_in (pick_maxtext b) (gs_org (hd ss)) t) (text_recs b h t ss)) \<and> sorted_wrt rec_before (text_recs b h t ss)
    \<and> (g \<in> set ss \<and> gs_org g \<le> x \<and> x < gs_org g + int (gs_len g) \<longrightarrow> covered (text_recs b h t ss) x)"
  using assms
proof (induction b h t ss rule: text_recs.induct)
  case (2 b h t g0 ss)
  obtain packed cend rest where pk: "pack_chunk (int (pick_maxtext b)) t (gs_org g0) [] (gs_org g0) (g0 # ss) = (packed, cend, rest)" using prod_cases3 by blast
  obtain pre where p: "ss = pre @ rest" "gs_org g0 \<le> cend"
    "\<forall>h\<in>set (g0 # pre). gs_org g0 \<le> gs_org h \<and> gs_org h + int (roundup8 (gs_len h)) \<le> cend" "rest \<noteq> [] \<longrightarrow> cend \<le> gs_org (hd rest)" "cend \<le> t"
    by (rule pack_chunk_first [OF pk 2(2)])
  let ?c = "chunk_recs b h (rest = []) packed cend (gs_org g0)"
  have eq: "text_recs b h t (g0 # ss) = ?c @ text_recs b h t rest" by (simp add: text_recs.simps(2) pk)
  have ok: "text_apart t rest" using 2(2) p(1) by (auto simp: text_apart_def sorted_wrt_append)
  note ih = 2(1) [OF pk [symmetric] refl ok]
  note c = chunk_recs_cover [OF p(2), of b h "rest = []" packed x]
  have tail: "list_all (rec_in (pick_maxtext b) cend t) (text_recs b h t rest)"
    using ih p(4) by (cases "rest = []") (auto simp: list_all_iff rec_in_def)
  have "list_all (rec_in (pick_maxtext b) (gs_org g0) t) (text_recs b h t (g0 # ss))"
    using c tail p(2,5) unfolding eq by (auto simp: list_all_iff rec_in_def)
  moreover have "sorted_wrt rec_before (text_recs b h t (g0 # ss))"
    using c tail ih unfolding eq sorted_wrt_append by (force simp: list_all_iff rec_in_def rec_before_def)
  moreover have "covered (text_recs b h t (g0 # ss)) x" if x: "g \<in> set (g0 # ss)" "gs_org g \<le> x" "x < gs_org g + int (gs_len g)"
  proof (cases "g \<in> set (g0 # pre)")
    case True
    then have "gs_org g0 \<le> x \<and> x < cend" using p(3) x(2,3) roundup8_ge(1) [of "gs_len g"] by fastforce
    then show ?thesis using c unfolding eq by (simp add: covered_def)
  next
    case False
    then have "g \<in> set rest" using x(1) p(1) by auto
    then show ?thesis using ih x unfolding eq by (simp add: covered_def)
  qed
  ultimately show ?case by simp
qed simp


subsection \<open>The text sections of a link\<close>

definition text_whole :: "gsym list \<Rightarrow> bool" where
  "text_whole G \<longleftrightarrow> list_all (\<lambda>g. gs_is_sect g \<and> gs_type g \<noteq> T_CM \<longrightarrow> 0 < gs_len g \<and> 8 dvd gs_org g) G"

lemma take_sorted_filter:
  assumes "sorted_wrt (\<lambda>x y. P y \<longrightarrow> P x) xs"
  shows "take (length (filter P xs)) xs = filter P xs"
  using assms
proof (induction xs)
  case (Cons x xs)
  show ?case
  proof (cases "P x")
    case False
    then have "filter P xs = []" using Cons(2) by (auto simp: filter_empty_conv)
    then show ?thesis using False by simp
  qed (use Cons in simp)
qed simp

lemma roundup8_fits: "8 dvd b \<Longrightarrow> a \<le> b \<Longrightarrow> roundup8 a \<le> b"
  by (auto simp: roundup8_def)

lemma roundup8_gap:
  assumes "8 dvd (x::int)" "8 dvd y" "x + int n \<le> y" shows "x + int (roundup8 n) \<le> y"
proof -
  obtain q where "y - x = 8 * q" using assms(1,2) dvd_diff by blast
  then have "nat (y - x) = 8 * nat q" by (simp add: nat_mult_distrib)
  then have "8 dvd nat (y - x)" by simp
  moreover have "n \<le> nat (y - x)" using assms(3) by linarith
  ultimately have "roundup8 n \<le> nat (y - x)" by (rule roundup8_fits)
  then show ?thesis using assms(3) by linarith
qed

lemma text_sects_spec:
  fixes os :: "lobj list"
  defines "ly \<equiv> assign_addresses (pass2 os)" and "G \<equiv> cp_G (ly_st (assign_addresses (pass2 os)))"
  assumes nc: "names_clear os" and fr: "decks_fresh os" and ap: "list_all sects_apart os" and wh: "text_whole G"
  shows "text_apart (int (ly_textend ly)) (text_sects G)"
    "set (text_sects G) = {g \<in> set G. gs_is_sect g \<and> gs_type g \<noteq> T_CM}" "text_sects G \<noteq> [] \<Longrightarrow> 0 \<le> gs_org (hd (text_sects G))"
proof -
  let ?T = "\<lambda>k. gs_type (G ! k) \<noteq> T_CM" and ?t = "int (ly_textend ly)"
  note gs = gidx_sorted [of G]
  have tx: "0 \<le> gs_org (G ! k)" "gs_org (G ! k) + int (gs_len (G ! k)) \<le> ?t" "0 < gs_len (G ! k)" "8 dvd gs_org (G ! k)"
    if "k \<in> set (gidx G)" "?T k" for k
  proof -
    have k: "k < length G" "gs_is_sect (G ! k)" "?T k" using that gs(2) by auto
    show "0 \<le> gs_org (G ! k)" by (rule sect_place [OF nc fr, folded ly_def G_def, OF k]) linarith
    show "gs_org (G ! k) + int (gs_len (G ! k)) \<le> ?t" by (rule sect_place [OF nc fr, folded ly_def G_def, OF k]) linarith
    show "0 < gs_len (G ! k)" "8 dvd gs_org (G ! k)" using wh k by (auto simp: text_whole_def list_all_length)
  qed
  have cm: "?t \<le> gs_org (G ! k)" if "k \<in> set (gidx G)" "\<not> ?T k" for k
    using common_place(1) [OF nc, folded ly_def G_def, of k] that gs(2) by auto
  have "sorted_wrt (\<lambda>x y. ?T y \<longrightarrow> ?T x) (gidx G)"
  proof (rule sorted_wrt_mono_rel [OF _ gs(1) [unfolded sorted_map]])
    fix x y assume h: "x \<in> set (gidx G)" "y \<in> set (gidx G)" "gs_org (G ! x) \<le> gs_org (G ! y)"
    show "?T y \<longrightarrow> ?T x" using tx(2,3) [OF h(2)] cm [OF h(1)] h(3) by fastforce
  qed
  then have eq: "text_sects G = map (\<lambda>k. G ! k) (filter ?T (gidx G))" by (simp add: text_sects_def take_sorted_filter)
  show "set (text_sects G) = {g \<in> set G. gs_is_sect g \<and> gs_type g \<noteq> T_CM}"
    using gs(2) unfolding eq by (auto simp: in_set_conv_nth)
  show "0 \<le> gs_org (hd (text_sects G))" if "text_sects G \<noteq> []"
    using tx(1) hd_in_set [OF that] unfolding eq by auto
  have "sorted_wrt (\<lambda>x y. x \<noteq> y \<and> gs_org (G ! x) \<le> gs_org (G ! y)) (gidx G)"
    using gs(1,3) unfolding sorted_map distinct_conv_nth sorted_wrt_iff_nth_less by (simp add: less_imp_neq)
  then have "sorted_wrt (\<lambda>x y. x \<noteq> y \<and> gs_org (G ! x) \<le> gs_org (G ! y)) (filter ?T (gidx G))" by (rule sorted_wrt_filter)
  then have "sorted_wrt (\<lambda>x y. after (G ! x) (G ! y)) (filter ?T (gidx G))"
  proof (rule sorted_wrt_mono_rel [rotated])
    fix x y assume h: "x \<in> set (filter ?T (gidx G))" "y \<in> set (filter ?T (gidx G))" "x \<noteq> y \<and> gs_org (G ! x) \<le> gs_org (G ! y)"
    have m: "x \<in> set (gidx G)" "y \<in> set (gidx G)" "?T x" "?T y" using h(1,2) by auto
    have "gs_org (G ! x) + int (gs_len (G ! x)) \<le> gs_org (G ! y) \<or> gs_org (G ! y) + int (gs_len (G ! y)) \<le> gs_org (G ! x)"
    proof (rule text_sects_apart [OF nc fr, folded G_def])
      have k: "x < length G" "gs_is_sect (G ! x)" "?T x" using m gs(2) by auto
      have "i < length os" if "gs_def_obj (G ! x) = Some i" for i
        by (rule sect_place [OF nc fr, folded ly_def G_def, OF k]) (use that in simp)
      then show "\<forall>i. gs_def_obj (G ! x) = Some i \<and> gs_def_obj (G ! y) = Some i \<longrightarrow> sects_apart (os ! i)" using ap by (auto simp: list_all_length)
    qed (use m h(3) gs(2) in auto)
    then show "after (G ! x) (G ! y)"
      using tx(3) [OF m(2,4)] h(3) unfolding after_def by (intro roundup8_gap tx(4) m) linarith
  qed
  moreover have "gs_org (G ! k) + int (roundup8 (gs_len (G ! k))) \<le> ?t" if "k \<in> set (gidx G)" "?T k" for k
  proof (rule roundup8_gap [OF tx(4) [OF that] _ tx(2) [OF that]])
    have "8 dvd ly_textend ly" unfolding ly_def assign_addresses_def by (simp add: Let_def split_beta roundup8_ge(2))
    then show "8 dvd ?t" using int_dvd_int_iff [of 8 "ly_textend ly"] by simp
  qed
  ultimately show "text_apart ?t (text_sects G)" unfolding text_apart_def eq by (auto simp: sorted_wrt_map list_all_iff)
qed


lemma ex_link_emits: "names_clear ex_link" "decks_fresh ex_link" "list_all sects_apart ex_link" "text_whole (cp_G (ly_st (assign_addresses (pass2 ex_link))))"
proof -
  show "list_all sects_apart ex_link" using ex_linkable by (auto simp: linkable_def deck_sound_def list_all_iff)
  show "text_whole (cp_G (ly_st (assign_addresses (pass2 ex_link))))" by (simp add: ex_link_laid(2) text_whole_def ex_sym_def)
qed (use linkableD(1,2) [OF ex_linkable] in simp_all)



subsection \<open>RLD records read back\<close>

definition ri_tuple :: "rlditem \<Rightarrow> rtuple" where
  "ri_tuple x = (ri_R x, ri_P x, ri_flag x, nat (ri_addr x))"

lemma ri_pair: "rt_pair (ri_tuple x) = (ri_R x, ri_P x)"
  by (simp add: rt_pair_def ri_tuple_def)

lemma rld_recs_split:
  assumes "ps = [] \<and> prev = None \<or> ps \<noteq> [] \<and> prev = Some (rt_pair (fst (last ps))) \<and> pf = length (enc_items ps) - 4"
    "list_all (\<lambda>x. 0 \<le> ri_addr x) xs"
  shows "rld_recs (enc_items ps) pf prev xs = map enc_items (rec_split RLDMAX ps (map ri_tuple xs))"
  using assms
proof (induction xs arbitrary: ps pf prev)
  case (Cons x xs)
  let ?a = "enc_items ps" and ?re = "repeats ps (ri_tuple x)" and ?pr = "Some (ri_R x, ri_P x)"
  define ps' where "ps' = ps @ [(ri_tuple x, ?re)]"
  have same: "(prev = ?pr) = ?re" using Cons.prems(1) by (auto simp: repeats_def ri_pair)
  have len: "length (enc_items ps') = length ?a + (if ?re then 4 else 8)" unfolding ps'_def by (rule enc_snoc_length) (simp add: repeats_def)
  have full: "enc_items (qs @ [(ri_tuple x, False)]) = enc_items qs @ mvs_put16 (int (ri_R x)) @ mvs_put16 (int (ri_P x)) @ [ri_flag x] @ mvs_put24 (ri_addr x)" for qs
    using Cons.prems(2) by (simp add: ri_tuple_def enc_snoc_full)
  have one: "enc_items [(ri_tuple x, False)] = mvs_put16 (int (ri_R x)) @ mvs_put16 (int (ri_P x)) @ [ri_flag x] @ mvs_put24 (ri_addr x)" using full [of "[]"] by simp
  have rest: "rld_recs (enc_items qs) (length (enc_items qs) - 4) ?pr xs = map enc_items (rec_split RLDMAX qs (map ri_tuple xs))" if "qs = qs' @ [(ri_tuple x, re)]" for qs qs' re
    using Cons.IH [of qs ?pr "length (enc_items qs) - 4"] Cons.prems(2) that by (simp add: ri_pair)
  consider (new) "overfull RLDMAX ps (ri_tuple x)" | (same) "\<not> overfull RLDMAX ps (ri_tuple x)" ?re | (full) "\<not> overfull RLDMAX ps (ri_tuple x)" "\<not> ?re" by blast
  then show ?case
  proof cases
    case new
    then have "length ?a + (if ?re then 4 else 8) > RLDMAX" by (simp add: overfull_def)
    then have "rld_recs ?a pf prev (x # xs) = ?a # rld_recs (enc_items [(ri_tuple x, False)]) 4 ?pr xs"
      unfolding rld_recs.simps Let_def same one by simp
    then show ?thesis using new rest [of "[(ri_tuple x, False)]" "[]" False] by (simp add: one)
  next
    case same
    then have ps: "ps \<noteq> []" "pf = length ?a - 4" "\<not> length ?a + 4 > RLDMAX" using Cons.prems(1) by (auto simp: repeats_def overfull_def)
    have "enc_items ps' = ?a[pf := ?a ! pf OR 0x01] @ [ri_flag x] @ mvs_put24 (ri_addr x)"
      using Cons.prems(2) same(2) ps by (simp add: ps'_def ri_tuple_def enc_snoc_reuse)
    then have "rld_recs ?a pf prev (x # xs) = rld_recs (enc_items ps') (length (enc_items ps') - 4) ?pr xs"
      using ps(3) len same(2) unfolding rld_recs.simps Let_def \<open>(prev = ?pr) = ?re\<close> by simp
    then show ?thesis using same rest [of ps' ps] by (simp add: ps'_def)
  next
    case full
    then have "\<not> length ?a + 8 > RLDMAX" by (simp add: overfull_def)
    moreover have "enc_items ps' = ?a @ mvs_put16 (int (ri_R x)) @ mvs_put16 (int (ri_P x)) @ [ri_flag x] @ mvs_put24 (ri_addr x)"
      using full(2) \<open>\<And>qs. enc_items (qs @ [(ri_tuple x, False)]) = _\<close> [of ps] by (simp add: ps'_def)
    ultimately have "rld_recs ?a pf prev (x # xs) = rld_recs (enc_items ps') (length (enc_items ps') - 4) ?pr xs"
      using len full(2) unfolding rld_recs.simps Let_def \<open>(prev = ?pr) = ?re\<close> by (simp add: add.commute)
    then show ?thesis using full rest [of ps' ps] by (simp add: ps'_def)
  qed
qed simp

end
