(* ===== verification/Ld_Reload.thy ===== *)
theory Ld_Reload
  imports Ld_Emit Lmod_Segs
begin

section \<open>ld370's members read back\<close>

text \<open>
  The member \<open>emit_module\<close> writes, taken apart again by the record walk the other tools share: the walk ends at the
  record that ends the module with every byte accounted for, the composite table has the entries of the link in
  the order of their ids, and the text and RLD records are where the walk says.
\<close>

subsection \<open>The composite table\<close>

lemma those_map_Some: "those (map Some xs) = Some xs"
  by (induction xs) auto

lemma those_SomeD: "those xs = Some ys \<Longrightarrow> xs = map Some ys"
proof (induction xs arbitrary: ys)
  case (Cons x xs)
  then show ?case by (cases x; cases "those xs") auto
qed simp

lemma table_total:
  assumes "G = cp_G (ly_st (assign_addresses st))"
  obtains es where "cesd_table G = Some es" "length es = length G" "\<forall>g\<in>set G. 1 \<le> gs_gid g \<and> gs_gid g \<le> length G \<and> es ! (gs_gid g - 1) = cesd_entry G g"
proof -
  let ?id = "\<lambda>k. gs_gid (G ! k)"
  have b: "bij_betw ?id {..<length G} {1..length G}" using gids_dense [of st] unfolding assms by blast
  have uniq: "gid_entry G (gs_gid g) = Some g" if g: "g \<in> set G" for g
  proof -
    obtain k where k: "k < length G" "g = G ! k" using g by (auto simp: in_set_conv_nth)
    have "gid_entry G (gs_gid g) \<noteq> None" using g by (auto simp: gid_entry_def find_None_iff)
    then obtain h where h: "gid_entry G (gs_gid g) = Some h" by blast
    then obtain j where j: "j < length G" "?id j = gs_gid g" "h = G ! j" by (auto simp: gid_entry_def find_Some_iff)
    have "j = k" using b j k by (auto simp: bij_betw_def dest: inj_onD)
    then show ?thesis using h j k by simp
  qed
  have ex: "\<exists>g\<in>set G. gs_gid g = i" if "1 \<le> i" "i \<le> length G" for i
  proof -
    have "i \<in> ?id ` {..<length G}" using b that by (simp add: bij_betw_def)
    then show ?thesis by auto
  qed
  define es where "es = map (\<lambda>i. cesd_entry G (the (gid_entry G i))) [1..<Suc (length G)]"
  have "map (\<lambda>i. map_option (cesd_entry G) (gid_entry G i)) [1..<Suc (length G)] = map Some es"
  proof (unfold es_def map_map, rule map_cong [OF refl])
    fix i assume "i \<in> set [1..<Suc (length G)]"
    then obtain g where "g \<in> set G" "gs_gid g = i" using ex [of i] by auto
    then show "map_option (cesd_entry G) (gid_entry G i) = (Some \<circ> (\<lambda>i. cesd_entry G (the (gid_entry G i)))) i" using uniq [of g] by auto
  qed
  then have t: "cesd_table G = Some es" unfolding cesd_table_def by (simp add: those_map_Some)
  have e: "1 \<le> gs_gid g \<and> gs_gid g \<le> length G \<and> es ! (gs_gid g - 1) = cesd_entry G g" if g: "g \<in> set G" for g
  proof -
    have "gs_gid g \<in> {1..length G}" using b g by (auto simp: bij_betw_def in_set_conv_nth)
    moreover from this have "gs_gid g - 1 < length [1..<Suc (length G)]" "[1..<Suc (length G)] ! (gs_gid g - 1) = gs_gid g" by (auto simp del: upt_Suc)
    ultimately show ?thesis using uniq [OF g] unfolding es_def by (simp del: upt_Suc)
  qed
  have "length es = length G" unfolding es_def length_map length_upt by simp
  then show ?thesis by (rule that [OF t]) (use e in blast)
qed

lemma field_put:
  "length pre = i \<Longrightarrow> 0 \<le> v \<Longrightarrow> v < 65536 \<Longrightarrow> mvs_be16 (pre @ mvs_put16 v @ suf) i = nat v"
  "length pre = i \<Longrightarrow> mvs_be24 (pre @ mvs_put24 v @ suf) i = nat (v mod 2 ^ 24)"
  using f16.get_put_exact [of v pre suf] f24.get_put [of pre v suf] by auto

lemma cesd_entry_length: "length (gs_name g) = 8 \<Longrightarrow> length (cesd_entry G g) = 16"
  by (simp add: cesd_entry_def Let_def)

lemma cesd_seg_ok:
  assumes "list_all (\<lambda>e. length e = 16) c" "length c \<le> 15"
  shows "seg_ok (cesd_seg ([0x20, 0, 0, 0] @ mvs_put16 (int gid) @ mvs_put16 (int (16 * length c))) c)"
proof -
  have len: "length (concat c) = 16 * length c" using assms(1) by (induction c) auto
  let ?h = "[0x20, 0, 0, 0] @ mvs_put16 (int gid) @ mvs_put16 (int (16 * length c))"
  have "mvs_be16 (?h @ concat c) 6 = 16 * length c"
    using field_put(1) [of "[0x20, 0, 0, 0] @ mvs_put16 (int gid)" 6 "int (16 * length c)" "concat c"] assms(2) by simp
  then have "lmod_frame (?h @ concat c) 0 = Some (LMOD_CESD, 0, 8 + 16 * length c, 0, False)"
    by (simp add: lmod_frame_def Let_def)
  then show ?thesis using len by (simp add: seg_ok_def cesd_seg_def seg_end_def)
qed

lemma cesd_recs_segs:
  assumes "list_all (\<lambda>e. length e = 16) es"
  shows "\<exists>cs. cesd_recs gid es = map (\<lambda>(h, c). seg_bytes (cesd_seg h c)) cs \<and> concat (map snd cs) = es
    \<and> list_all (\<lambda>(h, c). length h = 8 \<and> list_all (\<lambda>e. length e = 16) c \<and> seg_ok (cesd_seg h c)) cs"
  using assms
proof (induction gid es rule: cesd_recs.induct)
  case (1 gid es)
  show ?case
  proof (cases "es = []")
    case True
    then show ?thesis by (intro exI [of _ "[]"]) (simp add: cesd_recs.simps)
  next
    case False
    let ?c = "take 15 es" and ?h = "[0x20, 0, 0, 0] @ mvs_put16 (int gid) @ mvs_put16 (int (16 * length (take 15 es)))"
    have c: "list_all (\<lambda>e. length e = 16) ?c" "list_all (\<lambda>e. length e = 16) (drop 15 es)"
      using 1(2) by (auto simp: list_all_iff dest: in_set_takeD in_set_dropD)
    obtain cs where cs: "cesd_recs (gid + 15) (drop 15 es) = map (\<lambda>(h, c). seg_bytes (cesd_seg h c)) cs" "concat (map snd cs) = drop 15 es"
      "list_all (\<lambda>(h, c). length h = 8 \<and> list_all (\<lambda>e. length e = 16) c \<and> seg_ok (cesd_seg h c)) cs"
      using 1(1) [OF False refl c(2)] by blast
    have "cesd_recs gid es = (?h @ concat ?c) # cesd_recs (gid + 15) (drop 15 es)"
      using False by (subst cesd_recs.simps) (simp add: Let_def)
    moreover have "?h @ concat ?c = seg_bytes (cesd_seg ?h ?c)" by (simp add: seg_bytes_def cesd_seg_def)
    moreover have "seg_ok (cesd_seg ?h ?c)" by (rule cesd_seg_ok [OF c(1)]) simp
    ultimately show ?thesis using cs c(1) by (intro exI [of _ "(?h, ?c) # cs"]) simp
  qed
qed


subsection \<open>Control and text records\<close>

lemma ctl_rec_length [simp]: "length (ctl_rec b0 p n ids) = 16 + 4 * length ids"
proof -
  have "length (concat (map (\<lambda>(gid, span). mvs_put16 (int gid) @ mvs_put16 span) ids)) = 4 * length ids" by (induction ids) auto
  then show ?thesis by (simp add: ctl_rec_def)
qed

lemma ctl_rec_fields:
  assumes "length ids < 16384" "0 \<le> n" "n < 65536"
  shows "byte_at (ctl_rec b0 p n ids) 0 = b0" "mvs_be16 (ctl_rec b0 p n ids) 4 = 4 * length ids" "mvs_be16 (ctl_rec b0 p n ids) 6 = 0"
    "mvs_be16 (ctl_rec b0 p n ids) 14 = nat n" "mvs_be24 (ctl_rec b0 p n ids) 9 = nat (p mod 2 ^ 24)"
proof -
  define tl where "tl = concat (map (\<lambda>(gid, span). mvs_put16 (int gid) @ mvs_put16 span) ids)"
  let ?a = "[b0, 0, 0, 0]" and ?b = "[b0, 0, 0, 0] @ mvs_put16 (int (4 * length ids))"
  let ?c = "?b @ mvs_put16 0 @ [0x06]" and ?d = "?b @ mvs_put16 0 @ [0x06] @ mvs_put24 p @ [0x40, 0]"
  have c: "ctl_rec b0 p n ids = ?a @ mvs_put16 (int (4 * length ids)) @ mvs_put16 0 @ [0x06] @ mvs_put24 p @ [0x40, 0] @ mvs_put16 n @ tl"
    by (simp add: ctl_rec_def tl_def)
  show "byte_at (ctl_rec b0 p n ids) 0 = b0" by (simp add: c)
  show "mvs_be16 (ctl_rec b0 p n ids) 4 = 4 * length ids" unfolding c
    using field_put(1) [of ?a 4 "int (4 * length ids)" "mvs_put16 0 @ [0x06] @ mvs_put24 p @ [0x40, 0] @ mvs_put16 n @ tl"] assms(1) by simp
  show "mvs_be16 (ctl_rec b0 p n ids) 6 = 0" unfolding c
    using field_put(1) [of ?b 6 0 "[0x06] @ mvs_put24 p @ [0x40, 0] @ mvs_put16 n @ tl"] by simp
  show "mvs_be16 (ctl_rec b0 p n ids) 14 = nat n" unfolding c
    using field_put(1) [of ?d 14 n tl] assms(2,3) by simp
  show "mvs_be24 (ctl_rec b0 p n ids) 9 = nat (p mod 2 ^ 24)" unfolding c
    using field_put(2) [of ?c 9 p "[0x40, 0] @ mvs_put16 n @ tl"] by simp
qed

text \<open>A text record's control record: as the writer made it, with a list of few enough ids.\<close>

definition rec_wf :: "bool \<Rightarrow> txtrec \<Rightarrow> bool" where
  "rec_wf h r \<longleftrightarrow> (\<exists>ids. length ids < 16384 \<and> tx_ctl r = ctl_rec (if tx_last r \<and> \<not> h then 0x0D else 0x01) (tx_p r) (tx_len r) ids)"

definition text_seg :: "bytes \<Rightarrow> bool \<Rightarrow> txtrec \<Rightarrow> seg" where
  "text_seg m h r = \<lparr>sg_kind = LMOD_CTL, sg_flags = (if tx_last r \<and> \<not> h then 0x0D else 0x01), sg_rec = tx_ctl r,
     sg_text = take (nat (tx_len r)) (drop (nat (tx_p r)) m)\<rparr>"

lemma text_seg_bytes: "seg_bytes (text_seg m h r) = rec_bytes m r"
  by (simp add: seg_bytes_def text_seg_def rec_bytes_def)

lemma text_seg_end: "seg_end (text_seg m h r) \<longleftrightarrow> tx_last r \<and> \<not> h"
  by (simp add: seg_end_def text_seg_def LMOD_CTL_END_def)

lemma text_seg_ok:
  assumes "rec_wf h r" "rec_in n 0 (int (length m)) r" "n < 65536"
  shows "seg_ok (text_seg m h r)"
proof -
  obtain ids where ids: "length ids < 16384" "tx_ctl r = ctl_rec (if tx_last r \<and> \<not> h then 0x0D else 0x01) (tx_p r) (tx_len r) ids"
    using assms(1) by (auto simp: rec_wf_def)
  have b: "0 \<le> tx_len r" "tx_len r < 65536" "nat (tx_p r) + nat (tx_len r) \<le> length m" using assms(2,3) by (auto simp: rec_in_def)
  note f = ctl_rec_fields [OF ids(1) b(1,2)]
  have "lmod_frame (ctl_rec b0 (tx_p r) (tx_len r) ids) 0 = Some (LMOD_CTL, b0, 16 + 4 * length ids, nat (tx_len r), b0 AND LMOD_CTL_END \<noteq> 0)"
    if "b0 = 0x0D \<or> b0 = 0x01" for b0
    using that f by (auto simp: lmod_frame_def Let_def LMOD_CTL_TEXT_def)
  then show ?thesis using b(3) by (simp add: seg_ok_def text_seg_def ids(2) seg_end_def)
qed

subsection \<open>RLD records\<close>

definition rld_seg :: "byte \<Rightarrow> bytes \<Rightarrow> seg" where
  "rld_seg b0 dat = \<lparr>sg_kind = LMOD_CTL, sg_flags = b0, sg_rec = rld_rec b0 dat, sg_text = []\<rparr>"

lemma rld_seg_bytes: "seg_bytes (rld_seg b0 dat) = rld_rec b0 dat"
  by (simp add: seg_bytes_def rld_seg_def)

lemma rld_seg_ok:
  assumes "length dat < 65536" "b0 = 0x02 \<or> b0 = 0x0E"
  shows "seg_ok (rld_seg b0 dat)" "seg_end (rld_seg b0 dat) \<longleftrightarrow> b0 = 0x0E"
proof -
  have "mvs_be16 (rld_rec b0 dat) 6 = length dat"
    unfolding rld_rec_def using field_put(1) [of "[b0, 0, 0, 0, 0, 0]" 6 "int (length dat)"] assms(1) by simp
  moreover have "mvs_be16 (rld_rec b0 dat) 4 = 0" "byte_at (rld_rec b0 dat) 0 = b0" "length (rld_rec b0 dat) = 16 + length dat"
    by (simp_all add: rld_rec_def mvs_be16_sum)
  ultimately have "lmod_frame (rld_rec b0 dat) 0 = Some (LMOD_CTL, b0, 16 + length dat, 0, b0 AND LMOD_CTL_END \<noteq> 0)"
    using assms(2) by (auto simp: lmod_frame_def Let_def LMOD_CTL_TEXT_def)
  then show "seg_ok (rld_seg b0 dat)" by (simp add: seg_ok_def rld_seg_def seg_end_def rld_rec_def)
  show "seg_end (rld_seg b0 dat) \<longleftrightarrow> b0 = 0x0E" using assms(2) by (auto simp: seg_end_def rld_seg_def LMOD_CTL_END_def)
qed


subsection \<open>The records of the text\<close>

lemma chunk_recs_wf:
  assumes "length packed < 16384"
  shows "list_all (rec_wf h) (chunk_recs b h lst packed cend p)
    \<and> (\<exists>rs r. chunk_recs b h lst packed cend p = rs @ [r] \<and> tx_last r = lst \<and> list_all (\<lambda>r. \<not> tx_last r) rs)"
  using assms
proof (induction b h lst packed cend p rule: chunk_recs.induct)
  case (1 b h lst packed cend p)
  let ?n = "int (pick_maxtext b)"
  define rlen where "rlen = (if cend - p > ?n then ?n else cend - p)"
  define is_last where "is_last = (lst \<and> p + rlen \<ge> cend)"
  define ids where "ids = (if length packed > 1 then map (\<lambda>(g, send). (gs_gid g, send - gs_org g)) packed else [(gs_gid (fst (hd packed)), rlen)])"
  define r where "r = \<lparr>tx_p = p, tx_len = rlen, tx_ctl = ctl_rec (if is_last \<and> \<not> h then 0x0D else 0x01) p rlen ids, tx_last = is_last\<rparr>"
  have eq: "chunk_recs b h lst packed cend p = r # (if p + rlen < cend then chunk_recs b h lst packed cend (p + rlen) else [])"
    by (subst chunk_recs.simps) (simp add: Let_def rlen_def is_last_def ids_def r_def)
  have "length ids < 16384" using 1(2) by (simp add: ids_def)
  then have wf: "rec_wf h r" unfolding rec_wf_def by (intro exI [of _ ids]) (simp add: r_def)
  show ?case
  proof (cases "p + rlen < cend")
    case True
    have "list_all (rec_wf h) (chunk_recs b h lst packed cend (p + rlen))
        \<and> (\<exists>rs r. chunk_recs b h lst packed cend (p + rlen) = rs @ [r] \<and> tx_last r = lst \<and> list_all (\<lambda>r. \<not> tx_last r) rs)"
      using 1(1) [OF rlen_def is_last_def ids_def r_def True 1(2)] .
    then obtain rs r' where "list_all (rec_wf h) (chunk_recs b h lst packed cend (p + rlen))" "chunk_recs b h lst packed cend (p + rlen) = rs @ [r']"
      "tx_last r' = lst" "list_all (\<lambda>r. \<not> tx_last r) rs" by blast
    moreover have "\<not> tx_last r" using True by (simp add: r_def is_last_def)
    ultimately show ?thesis using True wf unfolding eq by (intro conjI exI [of _ "r # rs"] exI [of _ r']) simp_all
  next
    case False
    then show ?thesis using wf unfolding eq by (intro conjI exI [of _ "[]"] exI [of _ r]) (simp_all add: r_def is_last_def)
  qed
qed

lemma roundup8_pos: "0 < n \<Longrightarrow> 8 \<le> roundup8 n"
  unfolding roundup8_def by presburger

lemma sections_width:
  assumes "sorted_wrt after (g # ss)" "list_all (\<lambda>g. 0 < gs_len g) (g # ss)" "\<forall>h\<in>set (g # ss). gs_org h + int (roundup8 (gs_len h)) \<le> cend"
  shows "8 * int (length (g # ss)) \<le> cend - gs_org g"
  using assms
proof (induction ss arbitrary: g)
  case Nil
  have "8 \<le> roundup8 (gs_len g)" using Nil(2) by (simp add: roundup8_pos)
  then show ?case using Nil(3) by simp
next
  case (Cons h ss)
  have "8 * int (length (h # ss)) \<le> cend - gs_org h" using Cons(1) [of h] Cons(2-4) by simp
  moreover have "8 \<le> roundup8 (gs_len g)" using Cons(3) by (simp add: roundup8_pos)
  moreover have "gs_org g + int (roundup8 (gs_len g)) \<le> gs_org h" using Cons(2) by (simp add: after_def)
  ultimately show ?case by simp
qed

lemma text_recs_wf:
  assumes "text_apart t ss" "list_all (\<lambda>g. 0 < gs_len g) ss"
  shows "list_all (rec_wf h) (text_recs b h t ss)
    \<and> (ss \<noteq> [] \<longrightarrow> (\<exists>rs r. text_recs b h t ss = rs @ [r] \<and> tx_last r \<and> list_all (\<lambda>r. \<not> tx_last r) rs))"
  using assms
proof (induction b h t ss rule: text_recs.induct)
  case (2 b h t g0 ss)
  obtain packed cend rest where pk: "pack_chunk (int (pick_maxtext b)) t (gs_org g0) [] (gs_org g0) (g0 # ss) = (packed, cend, rest)" using prod_cases3 by blast
  obtain pre where p: "ss = pre @ rest" "\<forall>h\<in>set (g0 # pre). gs_org g0 \<le> gs_org h \<and> gs_org h + int (roundup8 (gs_len h)) \<le> cend"
    "map fst packed = g0 # pre" "length packed > 1 \<longrightarrow> cend - gs_org g0 \<le> int (pick_maxtext b)"
    by (rule pack_chunk_first [OF pk 2(2)])
  have len: "length packed = length (g0 # pre)" using arg_cong [OF p(3), of length] by simp
  have "8 * int (length (g0 # pre)) \<le> cend - gs_org g0"
    by (rule sections_width) (use 2(2,3) p(1,2) in \<open>auto simp: text_apart_def sorted_wrt_append\<close>)
  then have "length packed < 16384" using p(4) len pick_maxtext_le [of b] by (cases "length packed > 1") auto
  note c = chunk_recs_wf [OF this, of h b "rest = []" cend "gs_org g0"]
  have eq: "text_recs b h t (g0 # ss) = chunk_recs b h (rest = []) packed cend (gs_org g0) @ text_recs b h t rest" by (simp add: text_recs.simps(2) pk)
  have ok: "text_apart t rest" "list_all (\<lambda>g. 0 < gs_len g) rest" using 2(2,3) p(1) by (auto simp: text_apart_def sorted_wrt_append)
  note ih = 2(1) [OF pk [symmetric] refl ok]
  obtain rs r where r: "chunk_recs b h (rest = []) packed cend (gs_org g0) = rs @ [r]" "tx_last r = (rest = [])" "list_all (\<lambda>r. \<not> tx_last r) rs" using c by blast
  have "\<exists>rs r. text_recs b h t (g0 # ss) = rs @ [r] \<and> tx_last r \<and> list_all (\<lambda>r. \<not> tx_last r) rs"
  proof (cases "rest = []")
    case True
    then show ?thesis using r unfolding eq by auto
  next
    case False
    then obtain rs' r' where "text_recs b h t rest = rs' @ [r']" "tx_last r'" "list_all (\<lambda>r. \<not> tx_last r) rs'" using ih by blast
    then show ?thesis using r False unfolding eq by (intro exI [of _ "rs @ [r] @ rs'"] exI [of _ r']) simp
  qed
  then show ?case using c ih unfolding eq by simp
qed simp


subsection \<open>The member as segments\<close>

definition emittable :: "lobj list \<Rightarrow> bool" where
  "emittable os \<longleftrightarrow> names_clear os \<and> decks_fresh os \<and> list_all sects_apart os
    \<and> (let G = cp_G (ly_st (assign_addresses (pass2 os))) in
        text_whole G \<and> list_all (\<lambda>g. length (gs_name g) = 8) G \<and> list_ex (\<lambda>g. gs_is_sect g \<and> gs_type g \<noteq> T_CM) G)"

definition idr_seg :: "bytes \<Rightarrow> seg" where
  "idr_seg r = \<lparr>sg_kind = LMOD_IDR, sg_flags = 0, sg_rec = r, sg_text = []\<rparr>"

lemma idr_segs:
  "seg_ok (idr_seg spzap_idr)" "seg_ok (idr_seg (emit_lked_idr t))" "\<not> seg_end (idr_seg r)" "seg_bytes (idr_seg r) = r"
proof -
  have "length (emit_lked_idr t) = 22" "byte_at (emit_lked_idr t) 0 = 0x80" "byte_at (emit_lked_idr t) 1 = 0x15"
    by (simp_all add: emit_lked_idr_def)
  then show "seg_ok (idr_seg (emit_lked_idr t))" by (simp add: seg_ok_def idr_seg_def lmod_frame_def Let_def seg_end_def)
  have "length spzap_idr = 251" "byte_at spzap_idr 0 = 0x80" "byte_at spzap_idr 1 = 0xFA" by (simp_all add: spzap_idr_def)
  then show "seg_ok (idr_seg spzap_idr)" by (simp add: seg_ok_def idr_seg_def lmod_frame_def Let_def seg_end_def)
qed (simp_all add: seg_end_def idr_seg_def seg_bytes_def)

definition live_items :: "layout \<Rightarrow> (lobj \<times> obj_rld) list" where
  "live_items ly = filter (\<lambda>(ob, r). \<not> rld_dropped ob r) (rld_items (cp_O (ly_st ly)))"

definition kept_recs :: "emit_opts \<Rightarrow> layout \<Rightarrow> bool list \<Rightarrow> txtrec list" where
  "kept_recs eo ly moddef = (let h = (live_items ly \<noteq> []) in filter (keep_rec (eo_sparse eo) h moddef)
     (text_recs (eo_blksize eo) h (int (ly_textend ly)) (text_sects (cp_G (ly_st ly)))))"

definition rld_areas :: "layout \<Rightarrow> bytes list" where
  "rld_areas ly = rld_recs [] 0 None (map (rld_item (cp_G (ly_st ly))) (live_items ly))"

definition tail_segs :: "emit_opts \<Rightarrow> layout \<Rightarrow> bytes \<Rightarrow> bool list \<Rightarrow> seg list" where
  "tail_segs eo ly m moddef = map (text_seg m (live_items ly \<noteq> [])) (kept_recs eo ly moddef)
    @ (if live_items ly \<noteq> [] then map (rld_seg 0x02) (butlast (rld_areas ly)) @ [rld_seg 0x0E (last (rld_areas ly))] else [])"

lemma rld_recs_le: "length dat \<le> RLDMAX \<Longrightarrow> list_all (\<lambda>d. length d \<le> RLDMAX) (rld_recs dat pf prev xs)"
  by (induction dat pf prev xs rule: rld_recs.induct) (auto simp: Let_def RLDMAX_def)

lemma rld_recs_ne: "rld_recs dat pf prev xs \<noteq> []"
  by (induction dat pf prev xs rule: rld_recs.induct) (auto simp: Let_def)

lemma textend_le:
  assumes "names_clear os" shows "ly_textend (assign_addresses (pass2 os)) \<le> ly_modlen (assign_addresses (pass2 os))"
proof -
  have own: "\<forall>i<length (cp_O (pass2 os)). own_entries (compacted (cp_O (pass2 os) ! i))" using own_entries_pass2 [OF assms] pass2_length by simp
  obtain Gc run run' where "laid_out (pass2 os) Gc run run'" by (rule assign_spec [OF own])
  note a = laid_outD [OF this]
  show ?thesis unfolding a(5,6) by (rule roundup8_mono [OF a(7)])
qed

lemma tail_ended:
  assumes em: "emittable os" and ly: "ly = assign_addresses (pass2 os)" and m: "length m = ly_modlen ly"
  shows "ended (tail_segs eo ly m moddef)" "list_all (rec_wf (live_items ly \<noteq> [])) (kept_recs eo ly moddef)"
    "list_all (rec_in (pick_maxtext (eo_blksize eo)) 0 (int (length m))) (kept_recs eo ly moddef)"
proof -
  let ?G = "cp_G (ly_st ly)" and ?h = "live_items ly \<noteq> []" and ?n = "pick_maxtext (eo_blksize eo)"
  have e: "names_clear os" "decks_fresh os" "list_all sects_apart os" "text_whole ?G" "list_ex (\<lambda>g. gs_is_sect g \<and> gs_type g \<noteq> T_CM) ?G"
    using em by (simp_all add: emittable_def Let_def ly)
  note s = text_sects_spec [OF e(1-3) e(4) [unfolded ly], folded ly]
  have ne: "text_sects ?G \<noteq> []" using s(2) e(5) by (auto simp: list_ex_iff)
  have len: "list_all (\<lambda>g. 0 < gs_len g) (text_sects ?G)" using s(2) e(4) by (auto simp: list_all_iff text_whole_def)
  define recs where "recs = text_recs (eo_blksize eo) ?h (int (ly_textend ly)) (text_sects ?G)"
  have kept: "kept_recs eo ly moddef = filter (keep_rec (eo_sparse eo) ?h moddef) recs" by (simp add: kept_recs_def recs_def Let_def)
  note w = text_recs_wf [OF s(1) len, of ?h "eo_blksize eo", folded recs_def]
  note c = text_recs_cover [OF s(1), of "eo_blksize eo" ?h, folded recs_def]
  have all: "list_all (rec_in ?n 0 (int (length m))) recs"
    using c s(3) [OF ne] ne textend_le [OF e(1), folded ly] by (fastforce simp: list_all_iff rec_in_def m)
  show wf: "list_all (rec_wf ?h) (kept_recs eo ly moddef)" using w by (auto simp: kept list_all_iff)
  show in': "list_all (rec_in ?n 0 (int (length m))) (kept_recs eo ly moddef)" using all by (auto simp: kept list_all_iff)
  have ok: "seg_ok (text_seg m ?h r)" if "r \<in> set (kept_recs eo ly moddef)" for r
    using wf in' that pick_maxtext_le [of "eo_blksize eo"] by (intro text_seg_ok [of _ _ ?n]) (auto simp: list_all_iff)
  obtain rs r where r: "recs = rs @ [r]" "tx_last r" "list_all (\<lambda>r. \<not> tx_last r) rs" using w ne by blast
  show "ended (tail_segs eo ly m moddef)"
  proof (cases ?h)
    case True
    have "list_all (\<lambda>d. length d < 65536) (rld_areas ly)" using rld_recs_le [of "[]"] by (fastforce simp: rld_areas_def list_all_iff RLDMAX_def)
    moreover have "rld_areas ly \<noteq> []" by (simp add: rld_areas_def rld_recs_ne)
    ultimately have "list_all (\<lambda>d. length d < 65536) (butlast (rld_areas ly))" "length (last (rld_areas ly)) < 65536"
      by (auto simp: list_all_iff dest: in_set_butlastD)
    then show ?thesis using True ok
      by (simp add: tail_segs_def ended_append rld_seg_ok) (auto simp: list_all_iff rld_seg_ok text_seg_end)
  next
    case False
    define ks where "ks = filter (keep_rec (eo_sparse eo) ?h moddef) rs"
    have k: "kept_recs eo ly moddef = ks @ [r]" using False r(2) by (simp add: kept r(1) ks_def keep_rec_def)
    have "\<not> tx_last x" if "x \<in> set ks" for x using that r(3) by (auto simp: ks_def list_all_iff)
    then have "list_all (\<lambda>s. seg_ok s \<and> \<not> seg_end s) (map (text_seg m ?h) ks)" using ok by (simp add: list_all_iff k text_seg_end)
    moreover have "ended [text_seg m ?h r]" using ok [of r] False r(2) by (simp add: k text_seg_end)
    ultimately have "ended (map (text_seg m ?h) ks @ [text_seg m ?h r])" by (simp add: ended_append)
    then show ?thesis using False by (simp add: tail_segs_def k)
  qed
qed


definition member_segs :: "emit_opts \<Rightarrow> layout \<Rightarrow> bytes \<Rightarrow> bool list \<Rightarrow> (bytes \<times> bytes list) list \<Rightarrow> seg list" where
  "member_segs eo ly m moddef cs = map (\<lambda>(h, c). cesd_seg h c) cs @ idr_seg spzap_idr # idr_seg (emit_lked_idr (eo_stamp eo)) # tail_segs eo ly m moddef"

lemma emit_segs:
  assumes em: "emittable os" and ly: "ly = assign_addresses (pass2 os)" and m: "length m = ly_modlen ly"
  obtains es cs where "cesd_table (cp_G (ly_st ly)) = Some es" "concat (map snd cs) = es"
    "list_all (\<lambda>(h, c). length h = 8 \<and> list_all (\<lambda>e. length e = 16) c \<and> seg_ok (cesd_seg h c)) cs"
    "emit_module eo ly m moddef = Some (concat (map seg_bytes (member_segs eo ly m moddef cs)))" "ended (member_segs eo ly m moddef cs)"
    "length es = length (cp_G (ly_st ly))" "\<forall>g\<in>set (cp_G (ly_st ly)). 1 \<le> gs_gid g \<and> gs_gid g \<le> length es \<and> es ! (gs_gid g - 1) = cesd_entry (cp_G (ly_st ly)) g"
    "\<forall>e\<in>set es. \<exists>g\<in>set (cp_G (ly_st ly)). e = cesd_entry (cp_G (ly_st ly)) g"
proof -
  let ?G = "cp_G (ly_st ly)"
  have G: "?G = cp_G (ly_st (assign_addresses (pass2 os)))" by (simp add: ly)
  obtain es where es: "cesd_table ?G = Some es" "length es = length ?G" "\<forall>g\<in>set ?G. 1 \<le> gs_gid g \<and> gs_gid g \<le> length ?G \<and> es ! (gs_gid g - 1) = cesd_entry ?G g"
    by (rule table_total [OF G])
  have ent: "\<exists>g\<in>set ?G. e = cesd_entry ?G g" if "e \<in> set es" for e
  proof -
    have "map Some es = map (\<lambda>gid. map_option (cesd_entry ?G) (gid_entry ?G gid)) [1..<Suc (length ?G)]"
      using those_SomeD [OF es(1) [unfolded cesd_table_def]] by (rule sym)
    then have "Some e \<in> set (map (\<lambda>gid. map_option (cesd_entry ?G) (gid_entry ?G gid)) [1..<Suc (length ?G)])" using that by (metis image_eqI list.set_map)
    then obtain gid where "Some e = map_option (cesd_entry ?G) (gid_entry ?G gid)" unfolding set_map by (rule imageE)
    then have "map_option (cesd_entry ?G) (gid_entry ?G gid) = Some e" by (rule sym)
    then obtain g where "gid_entry ?G gid = Some g" "e = cesd_entry ?G g" by auto
    then show ?thesis by (auto simp: gid_entry_def find_Some_iff)
  qed
  have names: "list_all (\<lambda>g. length (gs_name g) = 8) ?G" using em by (simp add: emittable_def Let_def ly)
  have "list_all (\<lambda>e. length e = 16) es" using ent names by (force simp: list_all_iff cesd_entry_length)
  from cesd_recs_segs [OF this, of 1] obtain cs where cs: "cesd_recs 1 es = map (\<lambda>(h, c). seg_bytes (cesd_seg h c)) cs" "concat (map snd cs) = es"
    "list_all (\<lambda>(h, c). length h = 8 \<and> list_all (\<lambda>e. length e = 16) c \<and> seg_ok (cesd_seg h c)) cs" by blast
  note t = tail_ended [OF em ly m, of eo moddef]
  have "list_all (\<lambda>s. seg_ok s \<and> \<not> seg_end s) (map (\<lambda>(h, c). cesd_seg h c) cs)"
    using cs(3) by (auto simp: list_all_iff seg_end_def cesd_seg_def)
  moreover have ne: "tail_segs eo ly m moddef \<noteq> []" using t(1) by auto
  moreover have "ended (idr_seg spzap_idr # idr_seg (emit_lked_idr (eo_stamp eo)) # tail_segs eo ly m moddef)" using t(1) ne idr_segs by simp
  ultimately have e: "ended (member_segs eo ly m moddef cs)" by (simp add: member_segs_def ended_append)
  have rs: "rld_records (map (rld_item ?G) (live_items ly)) = map (rld_rec 0x02) (butlast (rld_areas ly)) @ [rld_rec 0x0E (last (rld_areas ly))]"
    by (simp add: rld_records_def rld_areas_def Let_def)
  have tb: "concat (map seg_bytes (tail_segs eo ly m moddef)) = concat (map (rec_bytes m) (kept_recs eo ly moddef))
      @ (if live_items ly \<noteq> [] then concat (rld_records (map (rld_item ?G) (live_items ly))) else [])"
    unfolding tail_segs_def rs by (simp add: o_def text_seg_bytes rld_seg_bytes)
  have cb: "concat (map seg_bytes (map (\<lambda>(h, c). cesd_seg h c) cs)) = concat (cesd_recs 1 es)" unfolding cs(1) by (simp add: o_def split_beta')
  have "concat (map seg_bytes (member_segs eo ly m moddef cs)) = concat (cesd_recs 1 es) @ spzap_idr @ emit_lked_idr (eo_stamp eo)
      @ concat (map (rec_bytes m) (kept_recs eo ly moddef)) @ (if live_items ly \<noteq> [] then concat (rld_records (map (rld_item ?G) (live_items ly))) else [])"
    unfolding member_segs_def map_append concat_append cb by (simp add: tb idr_segs(4))
  then have "emit_module eo ly m moddef = Some (concat (map seg_bytes (member_segs eo ly m moddef cs)))"
    by (simp only: emit_module_def Let_def es(1) option.case live_items_def [symmetric] kept_recs_def)
  then show ?thesis using that es cs e ent by simp
qed


lemma emitted_cesd:
  assumes "list_all (\<lambda>(h, c). length h = 8 \<and> list_all (\<lambda>e. length e = 16) c \<and> seg_ok (cesd_seg h c)) cs"
    "ended (member_segs eo ly m moddef cs)" "mem = concat (map seg_bytes (member_segs eo ly m moddef cs))"
  shows "lmod_cesd_walk mem = dec_list 0 (concat (map snd cs))"
proof -
  have "list_all (\<lambda>(h, c). length h = 8 \<and> list_all (\<lambda>e. length e = 16) c) cs" using assms(1) by (auto simp: list_all_iff)
  from collect_cesd [OF this, of "idr_seg spzap_idr" "[]" "idr_seg (emit_lked_idr (eo_stamp eo)) # tail_segs eo ly m moddef" 0]
  show ?thesis unfolding lmod_cesd_walk_def scan_segs(1) [OF assms(2,3)] by (simp add: assms(3) member_segs_def idr_seg_def)
qed

lemma cesd_entry_decode:
  assumes "length (gs_name g) = 8"
  shows "le_name (dec_esd i (cesd_entry G g)) = gs_name g" "le_typebyte (dec_esd i (cesd_entry G g)) = of_nat (gs_type g)" "le_esdid (dec_esd i (cesd_entry G g)) = i"
    "le_seg (dec_esd i (cesd_entry G g)) \<le> 1" "gs_is_sect g \<Longrightarrow> le_seg (dec_esd i (cesd_entry G g)) = 1"
    "gs_is_sect g \<Longrightarrow> le_addr (dec_esd i (cesd_entry G g)) = nat (gs_org g mod 2 ^ 24)" "gs_is_sect g \<Longrightarrow> le_len (dec_esd i (cesd_entry G g)) = gs_len g mod 2 ^ 24"
proof -
  let ?e = "cesd_entry G g"
  have b: "byte_at ?e 8 = of_nat (gs_type g)" "byte_at ?e 12 = (if gs_is_sect g \<or> gs_type g = T_LR then 1 else 0)"
    using assms by (simp_all add: cesd_entry_def byte_at_append Let_def)
  then show "le_typebyte (dec_esd i ?e) = of_nat (gs_type g)" "le_seg (dec_esd i ?e) \<le> 1" "gs_is_sect g \<Longrightarrow> le_seg (dec_esd i ?e) = 1"
    by (simp_all add: dec_esd_def)
  show "le_name (dec_esd i ?e) = gs_name g" "le_esdid (dec_esd i ?e) = i" using assms by (simp_all add: dec_esd_def cesd_entry_def)
  show "le_addr (dec_esd i ?e) = nat (gs_org g mod 2 ^ 24)" if "gs_is_sect g"
    using that assms field_put(2) [of "gs_name g @ [of_nat (gs_type g)]" 9 "gs_org g" "[0x01] @ mvs_put24 (int (gs_len g))"] by (simp add: dec_esd_def cesd_entry_def)
  show "le_len (dec_esd i ?e) = gs_len g mod 2 ^ 24" if "gs_is_sect g"
    using that assms field_put(2) [of "gs_name g @ [of_nat (gs_type g)] @ mvs_put24 (gs_org g) @ [0x01]" 13 "int (gs_len g)" "[]"]
    by (simp add: dec_esd_def cesd_entry_def nat_mod_distrib)
qed

lemma section_bounds:
  assumes "names_clear os" "decks_fresh os" "ly = assign_addresses (pass2 os)" "g \<in> set (cp_G (ly_st ly))" "gs_is_sect g"
  shows "0 \<le> gs_org g" "gs_org g + int (gs_len g) \<le> int (ly_modlen ly)"
proof -
  obtain k where k: "k < length (cp_G (ly_st ly))" "g = cp_G (ly_st ly) ! k" using assms(4) by (auto simp: in_set_conv_nth)
  have te: "ly_textend ly \<le> ly_modlen ly" using textend_le [OF assms(1)] by (simp add: assms(3))
  have "0 \<le> gs_org g \<and> gs_org g + int (gs_len g) \<le> int (ly_modlen ly)"
  proof (cases "gs_type g = T_CM")
    case True
    then show ?thesis using common_place(1,2) [OF assms(1), of k] k assms(3,5) by auto
  next
    case False
    have "0 \<le> gs_org (cp_G (ly_st ly) ! k) \<and> gs_org (cp_G (ly_st ly) ! k) + int (gs_len (cp_G (ly_st ly) ! k)) \<le> int (ly_textend ly)"
      unfolding assms(3) by (rule sect_place [OF assms(1,2), of k]) (use False k assms(3,5) in auto)
    then show ?thesis using te k by simp
  qed
  then show "0 \<le> gs_org g" "gs_org g + int (gs_len g) \<le> int (ly_modlen ly)" by simp_all
qed


lemma ex_link_emittable: "emittable ex_link"
  using ex_link_emits unfolding emittable_def ex_link_laid(2) by (simp add: ex_sym_def ex_nm_def ld_types)

definition ex_eo :: emit_opts where
  "ex_eo = \<lparr>eo_blksize = 6144, eo_sparse = False, eo_stamp = \<lparr>st_vv = 1, st_mm = 0, st_yy = 26, st_ddd = 100, st_hh = 1, st_min = 2, st_ss = 3\<rparr>\<rparr>"


end
