(* ===== verification/Cmp_Reload.thy ===== *)
theory Cmp_Reload
  imports Ld_Reload Cmp_Compare
begin

section \<open>cmplmd370 on what ld370 wrote\<close>

text \<open>
  The two programs together: the load-module reader of cmplmd370 applied to the member ld370 emits finds every text
  section of the link under its name, at its origin, with its length and the bytes of the linked image.
\<close>

subsection \<open>The image from the segments\<close>

definition seg_addr :: "seg \<Rightarrow> nat" where
  "seg_addr s = mvs_be24 (sg_rec s) 9"

lemma seg_text_ctl:
  assumes "seg_ok s"
  shows "sg_kind s \<noteq> LMOD_TEXT" "sg_text s \<noteq> [] \<Longrightarrow> sg_kind s = LMOD_CTL \<and> sg_flags s AND LMOD_CTL_TEXT \<noteq> 0 \<and> 16 \<le> length (sg_rec s)"
  using assms by (auto simp: seg_ok_def lmod_frame_def Let_def split: if_splits)

lemma ext_seg:
  assumes "seg_ok s" "mem = pre @ seg_bytes s @ post"
  shows "\<exists>pa'. fold (ext_item mem) (seg_items (length pre) s) (pa, n) = (pa', if sg_text s = [] then n else max n (seg_addr s + length (sg_text s)))"
proof (cases "sg_text s = []")
  case True
  then show ?thesis using seg_text_ctl(1) [OF assms(1)] by (simp add: seg_items_def ext_item_def)
next
  case False
  note t = seg_text_ctl(2) [OF assms(1) False]
  have "mvs_be24 mem (length pre + 9) = seg_addr s"
    using be_inside(2) [of 9 "sg_rec s" pre "sg_text s @ post"] t by (simp add: assms(2) seg_bytes_def seg_addr_def)
  then show ?thesis using False t by (simp add: seg_items_def ext_item_def ctl_addr_def max_def)
qed

lemma ext_segs:
  assumes "list_all seg_ok ss" "mem = pre @ concat (map seg_bytes ss) @ post"
  shows "n \<le> snd (fold (ext_item mem) (seg_walk (length pre) ss) (pa, n))
    \<and> (\<forall>s\<in>set ss. sg_text s \<noteq> [] \<longrightarrow> seg_addr s + length (sg_text s) \<le> snd (fold (ext_item mem) (seg_walk (length pre) ss) (pa, n)))"
  using assms
proof (induction ss arbitrary: pre pa n)
  case (Cons s ss)
  have m: "mem = pre @ seg_bytes s @ (concat (map seg_bytes ss) @ post)" "mem = (pre @ seg_bytes s) @ concat (map seg_bytes ss) @ post" using Cons.prems(2) by simp_all
  obtain pa' where e: "fold (ext_item mem) (seg_items (length pre) s) (pa, n) = (pa', if sg_text s = [] then n else max n (seg_addr s + length (sg_text s)))"
    using ext_seg [OF _ m(1)] Cons.prems(1) by auto
  show ?case using Cons.IH [OF _ m(2), of "if sg_text s = [] then n else max n (seg_addr s + length (sg_text s))" pa'] Cons.prems(1) by (auto simp: e split: if_splits)
qed simp

definition no_segend :: "seg \<Rightarrow> bool" where
  "no_segend s \<longleftrightarrow> \<not> (sg_kind s = LMOD_CTL \<and> sg_flags s AND LMOD_CTL_SEGEND \<noteq> 0 \<and> sg_flags s AND LMOD_CTL_END = 0)"

definition put_seg :: "seg \<Rightarrow> bytes \<Rightarrow> bytes" where
  "put_seg s img = (if sg_text s = [] then img else write_at img (seg_addr s) (sg_text s))"

lemma img_seg:
  assumes "seg_ok s" "no_segend s" "mem = pre @ seg_bytes s @ post" "\<not> ss_segend st" "ss_cs st = want" "sg_text s \<noteq> [] \<Longrightarrow> seg_addr s + length (sg_text s) \<le> imglen"
  shows "let st' = fold (img_item mem nseg want imglen) (seg_items (length pre) s) st in
    \<not> ss_segend st' \<and> ss_cs st' = want \<and> ss_img st' = put_seg s (ss_img st)"
proof (cases "sg_text s = []")
  case True
  then show ?thesis using seg_text_ctl(1) [OF assms(1)] assms(2,4,5) by (auto simp: seg_items_def img_item_def Let_def no_segend_def put_seg_def)
next
  case False
  note t = seg_text_ctl(2) [OF assms(1) False]
  have a: "mvs_be24 mem (length pre + 9) = seg_addr s"
    using be_inside(2) [of 9 "sg_rec s" pre "sg_text s @ post"] t by (simp add: assms(3) seg_bytes_def seg_addr_def)
  have tx: "take (length (sg_text s)) (drop (length pre + length (sg_rec s)) mem) = sg_text s" by (simp add: assms(3) seg_bytes_def)
  have c: "img_item mem nseg want imglen \<lparr>lm_kind = sg_kind s, lm_off = length pre, lm_len = length (sg_rec s), lm_flags = sg_flags s\<rparr> st
      = st\<lparr>ss_pend := Some (seg_addr s), ss_segend := False\<rparr>"
    using t a assms(2) by (auto simp: img_item_def ctl_addr_def Let_def no_segend_def)
  show ?thesis using False assms(5) assms(6) [OF False] tx by (simp add: seg_items_def c) (simp add: img_item_def Let_def put_seg_def)
qed

lemma img_segs:
  assumes "list_all seg_ok ss" "list_all no_segend ss" "mem = pre @ concat (map seg_bytes ss) @ post" "\<not> ss_segend st" "ss_cs st = want"
    "\<And>s. s \<in> set ss \<Longrightarrow> sg_text s \<noteq> [] \<Longrightarrow> seg_addr s + length (sg_text s) \<le> imglen"
  shows "ss_img (fold (img_item mem nseg want imglen) (seg_walk (length pre) ss) st) = fold put_seg ss (ss_img st)"
  using assms
proof (induction ss arbitrary: pre st)
  case (Cons s ss)
  have m: "mem = pre @ seg_bytes s @ (concat (map seg_bytes ss) @ post)" "mem = (pre @ seg_bytes s) @ concat (map seg_bytes ss) @ post" using Cons.prems(3) by simp_all
  define st' where "st' = fold (img_item mem nseg want imglen) (seg_items (length pre) s) st"
  have s: "\<not> ss_segend st'" "ss_cs st' = want" "ss_img st' = put_seg s (ss_img st)"
    using img_seg [OF _ _ m(1) Cons.prems(4,5), of imglen nseg] Cons.prems(1,2,6) by (simp_all add: Let_def st'_def)
  show ?case using Cons.IH [OF _ _ m(2) s(1,2)] Cons.prems(1,2,6) by (simp add: st'_def [symmetric] s(3))
qed simp

text \<open>Segments whose text is the image's, laid over each other, give the image wherever one of them lies.\<close>

lemma puts_agree:
  assumes "list_all (\<lambda>s. sg_text s = [] \<or> seg_addr s + length (sg_text s) \<le> length img \<and> sg_text s = take (length (sg_text s)) (drop (seg_addr s) m) \<and> seg_addr s + length (sg_text s) \<le> length m) ss"
  shows "length (fold put_seg ss img) = length img
    \<and> (\<forall>x. (img ! x = m ! x \<or> list_ex (\<lambda>s. seg_addr s \<le> x \<and> x < seg_addr s + length (sg_text s)) ss) \<and> x < length img \<longrightarrow> fold put_seg ss img ! x = m ! x)"
  using assms
proof (induction ss arbitrary: img)
  case (Cons s ss)
  have len: "length (put_seg s img) = length img" using Cons.prems by (auto simp: put_seg_def)
  have at: "put_seg s img ! x = m ! x" if "img ! x = m ! x \<or> seg_addr s \<le> x \<and> x < seg_addr s + length (sg_text s)" "x < length img" for x
  proof (cases "seg_addr s \<le> x \<and> x < seg_addr s + length (sg_text s)")
    case True
    then have "sg_text s ! (x - seg_addr s) = m ! x" using Cons.prems by (auto dest: arg_cong [of _ _ "\<lambda>t. t ! (x - seg_addr s)"])
    then show ?thesis using True Cons.prems that(2) by (auto simp: put_seg_def write_at_def nth_append)
  next
    case False
    then show ?thesis using Cons.prems that by (auto simp: put_seg_def write_at_def nth_append min_def)
  qed
  show ?case using Cons.IH [of "put_seg s img"] Cons.prems len at by auto
qed simp


subsection \<open>The sections from the composite table\<close>

definition new_sect :: "lmod_esd \<Rightarrow> csect" where
  "new_sect e = \<lparr>cs_name = take 8 (mvs_nm (le_name e)), cs_org = le_addr e, cs_len = le_len e, cs_bytes = replicate (le_len e) 0, cs_relo = replicate (le_len e) False,
     cs_made = replicate (le_len e) False, cs_ign = replicate (le_len e) False, cs_seg = le_seg e, cs_ent = [], cs_entaddr = 0\<rparr>"

lemma sects_added:
  assumes "length (sd_s sd) + length (filter (obj_is_section \<circ> le_type) es) \<le> MAXSECT_cmp"
  shows "\<exists>sd'. fold (on_ok lmod_sect) es (Inr sd) = Inr sd' \<and> sd_s sd' = sd_s sd @ map new_sect (filter (obj_is_section \<circ> le_type) es)
    \<and> sd_info sd' = sd_info sd \<and> sd_is_lmod sd' = sd_is_lmod sd"
  using assms
proof (induction es arbitrary: sd)
  case (Cons e es)
  have "\<exists>sd1. lmod_sect e sd = Inr sd1 \<and> sd_s sd1 = sd_s sd @ (if obj_is_section (le_type e) then [new_sect e] else []) \<and> sd_info sd1 = sd_info sd \<and> sd_is_lmod sd1 = sd_is_lmod sd"
    using Cons.prems by (auto simp: lmod_sect_def sect_add_def Let_def new_sect_def ent_note_def)
  then obtain sd1 where "lmod_sect e sd = Inr sd1" "sd_s sd1 = sd_s sd @ (if obj_is_section (le_type e) then [new_sect e] else [])"
    "sd_info sd1 = sd_info sd" "sd_is_lmod sd1 = sd_is_lmod sd" by blast
  then show ?case using Cons.IH [of sd1] Cons.prems by (auto simp: on_ok_simps split: if_splits)
qed simp

definition shape :: "csect \<Rightarrow> string \<times> nat \<times> nat \<times> nat" where
  "shape s = (cs_name s, cs_org s, cs_len s, cs_seg s)"

definition same_shape :: "side \<Rightarrow> side \<Rightarrow> bool" where
  "same_shape sd' sd \<longleftrightarrow> map shape (sd_s sd') = map shape (sd_s sd) \<and> sd_info sd' = sd_info sd \<and> sd_is_lmod sd' = sd_is_lmod sd"

lemma same_shape_trans: "same_shape c b \<Longrightarrow> same_shape b a \<Longrightarrow> same_shape c a" and same_shape_refl: "same_shape a a"
  by (simp_all add: same_shape_def)

lemma same_shape_fold: "(\<And>x sd. same_shape (f x sd) sd) \<Longrightarrow> same_shape (fold f xs sd) sd"
  by (induction xs arbitrary: sd) (auto intro: same_shape_refl same_shape_trans)

lemma same_shape_upd: "(\<And>s. shape (f s) = shape s) \<Longrightarrow> same_shape (upd_sect i f sd) sd"
  by (cases "i < length (sd_s sd)") (auto simp: same_shape_def upd_sect_def map_update list_update_beyond intro: nth_equalityI simp: nth_list_update)

lemma resolve_shape: "same_shape (ent_resolve sd) sd"
  unfolding ent_resolve_def by (rule same_shape_fold) (auto simp: ent_resolve1_def Let_def shape_def split: option.split intro!: same_shape_upd same_shape_refl)

lemma mark_shape: "same_shape (mark_relo r sd) sd"
  by (auto simp: mark_relo_def Let_def shape_def split: option.split intro!: same_shape_upd same_shape_refl)

lemma rld_mark_shape: "same_shape (rld_mark m r sd) sd"
  by (auto simp: rld_mark_def Let_def intro!: same_shape_fold mark_shape same_shape_refl)

lemma extent_up:
  fixes ss :: "csect list"
  defines "f \<equiv> \<lambda>s n. if cs_org s + cs_len s > n then cs_org s + cs_len s else n"
  shows "n \<le> fold f ss n \<and> (\<forall>s\<in>set ss. cs_org s + cs_len s \<le> fold f ss n)"
proof (induction ss arbitrary: n)
  case (Cons s ss)
  have "n \<le> f s n" "cs_org s + cs_len s \<le> f s n" by (simp_all add: f_def)
  then show ?case using Cons [of "f s n"] by (auto intro: order_trans)
qed simp

lemma ext_mono: "n \<le> snd (fold (ext_item mem) rs (pa, n))"
proof (induction rs arbitrary: pa n)
  case (Cons r rs)
  obtain pa' n' where e: "ext_item mem r (pa, n) = (pa', n')" by fastforce
  then have "n \<le> n'" by (auto simp: ext_item_def split: if_splits option.splits)
  then show ?case using Cons [of n' pa'] e by simp
qed simp

text \<open>Loading a member of one segment.\<close>

lemma load_one_segment:
  assumes "length (filter (obj_is_section \<circ> le_type) (lmod_cesd_walk mem)) \<le> MAXSECT_cmp" "li_nseg (lmod_scan mem) = 1"
    "list_all (\<lambda>e. le_seg e = 1) (filter (obj_is_section \<circ> le_type) (lmod_cesd_walk mem))"
  obtains sd imglen where "load_lmod mem = Inr sd" "map (\<lambda>s. (shape s, cs_bytes s)) (sd_s sd)
      = map (\<lambda>e. (shape (new_sect e), take (le_len e) (drop (le_addr e) (seg_image mem 1 imglen 1)))) (filter (obj_is_section \<circ> le_type) (lmod_cesd_walk mem))"
    "imglen = snd (fold (ext_item mem) (lmod_records mem) (None, fold (\<lambda>s n. if cs_org s + cs_len s > n then cs_org s + cs_len s else n) (map new_sect (filter (obj_is_section \<circ> le_type) (lmod_cesd_walk mem))) 0))"
    "sd_info sd = lmod_scan mem" "sd_is_lmod sd"
proof -
  let ?es = "filter (obj_is_section \<circ> le_type) (lmod_cesd_walk mem)" and ?sd = "side_init\<lparr>sd_is_lmod := True, sd_info := lmod_scan mem\<rparr>"
  obtain sd0 where sd0: "fold (on_ok lmod_sect) (lmod_cesd_walk mem) (Inr ?sd) = Inr sd0" "sd_s sd0 = map new_sect ?es" "sd_info sd0 = lmod_scan mem" "sd_is_lmod sd0"
    using sects_added [of ?sd "lmod_cesd_walk mem"] assms(1) by (auto simp: side_init_def)
  define sd1 where "sd1 = ent_resolve sd0"
  have s1: "same_shape sd1 sd0" unfolding sd1_def by (rule resolve_shape)
  have sh1: "map shape (sd_s sd1) = map shape (map new_sect ?es)" "sd_info sd1 = lmod_scan mem" using s1 sd0(2,3) by (simp_all add: same_shape_def)
  have seg1: "list_all (\<lambda>s. cs_seg s = 1) (sd_s sd1)"
  proof -
    have "map cs_seg (sd_s sd1) = map (snd \<circ> snd \<circ> snd) (map shape (sd_s sd1))" by (simp add: shape_def)
    also have "\<dots> = map le_seg ?es" unfolding sh1 by (simp add: shape_def new_sect_def)
    finally have "list_all (\<lambda>n. n = 1) (map cs_seg (sd_s sd1))" using assms(3) by (simp add: list_all_iff)
    then show ?thesis by (simp add: list_all_iff)
  qed
  have id: "map (\<lambda>s. if cs_seg s = 0 then s\<lparr>cs_seg := 1\<rparr> else s) (sd_s sd1) = sd_s sd1" using seg1 by (induction "sd_s sd1") (auto simp: list_all_iff intro: map_idI)
  define imglen where "imglen = image_len mem (sd_s sd1)"
  define sd2 where "sd2 = fold (rld_mark mem) (lmod_records mem) sd1"
  have s2: "same_shape sd2 sd1" unfolding sd2_def by (rule same_shape_fold) (rule rld_mark_shape)
  have load: "load_lmod mem = Inr (slice_seg mem 1 imglen 1 sd2)"
    unfolding load_lmod_def sd0(1) sum.case Let_def sd1_def [symmetric] sh1(2) assms(2) id
    by (simp add: imglen_def sd2_def)
  have il: "imglen = snd (fold (ext_item mem) (lmod_records mem) (None, fold (\<lambda>s n. if cs_org s + cs_len s > n then cs_org s + cs_len s else n) (map new_sect ?es) 0))"
  proof -
    have "fold (\<lambda>s n. if cs_org s + cs_len s > n then cs_org s + cs_len s else n) ss k
        = fold (\<lambda>t n. if fst (snd t) + fst (snd (snd t)) > n then fst (snd t) + fst (snd (snd t)) else n) (map shape ss) k" for ss k
      by (induction ss arbitrary: k) (simp_all add: shape_def)
    then show ?thesis unfolding imglen_def image_len_def by (simp only: sh1)
  qed
  have sh2: "map shape (sd_s sd2) = map shape (map new_sect ?es)" using s2 sh1 by (simp add: same_shape_def)
  have fits: "cs_org s + cs_len s \<le> imglen" if "s \<in> set (sd_s sd1)" for s
  proof -
    have "cs_org s + cs_len s \<le> fold (\<lambda>s n. if cs_org s + cs_len s > n then cs_org s + cs_len s else n) (sd_s sd1) 0"
      using extent_up [of 0 "sd_s sd1"] that by blast
    also have "\<dots> \<le> imglen" unfolding imglen_def image_len_def by (rule ext_mono)
    finally show ?thesis .
  qed
  have "map (\<lambda>s. (shape s, cs_bytes s)) (sd_s (slice_seg mem 1 imglen 1 sd2))
      = map (\<lambda>(n, org, len, sg). ((n, org, len, sg), take len (drop org (seg_image mem 1 imglen 1)))) (map shape (sd_s sd2))"
  proof -
    have "(shape (slice_sect 1 imglen img s), cs_bytes (slice_sect 1 imglen img s)) = (shape s, take (cs_len s) (drop (cs_org s) img))" if s: "s \<in> set (sd_s sd2)" for s img
    proof -
      have "shape s \<in> set (map shape (sd_s sd1))" using s s2 by (metis same_shape_def image_eqI list.set_map)
      then obtain s' where "s' \<in> set (sd_s sd1)" "shape s = shape s'" by auto
      then have "cs_seg s = 1 \<and> cs_org s + cs_len s \<le> imglen" using seg1 fits [of s'] by (auto simp: shape_def list_all_iff)
      then show ?thesis by (simp add: slice_sect_def shape_def)
    qed
    then show ?thesis by (simp add: slice_seg_def shape_def)
  qed
  also have "\<dots> = map (\<lambda>e. (shape (new_sect e), take (le_len e) (drop (le_addr e) (seg_image mem 1 imglen 1)))) ?es"
    unfolding sh2 by (simp add: shape_def new_sect_def)
  finally show ?thesis using s1 s2 sd0(3,4) by (intro that [OF load _ il]) (simp_all add: slice_seg_def same_shape_def)
qed


lemma scan_nseg: "li_nseg (lmod_scan mem) = fold scan_seg (lmod_cesd_walk mem) 0"
proof -
  have "li_nseg (fold scan_rec rs z) = li_nseg z" for rs z by (induction rs arbitrary: z) (auto simp: scan_rec_def Let_def)
  then show ?thesis by (simp add: lmod_scan_def Let_def split: prod.split)
qed

lemma one_segment:
  assumes "list_all (\<lambda>e. le_seg e \<le> 1) es" "list_ex (\<lambda>e. le_seg e = 1) es"
  shows "fold scan_seg es 0 = 1"
proof -
  have "fold scan_seg es n = (if n = 1 \<or> list_ex (\<lambda>e. le_seg e = 1) es then 1 else 0)" if "n \<le> 1" for n
    using assms(1) that
  proof (induction es arbitrary: n)
    case (Cons e es)
    have "n = 0 \<or> n = 1" "le_seg e = 0 \<or> le_seg e = 1" using Cons.prems by auto
    then show ?case using Cons.IH [of "scan_seg e n"] Cons.prems(1) by (auto simp: scan_seg_def)
  qed auto
  then show ?thesis using assms(2) by simp
qed

definition sections_typed :: "gsym list \<Rightarrow> bool" where
  "sections_typed G \<longleftrightarrow> list_all (\<lambda>g. gs_type g < 16 \<and> (gs_is_sect g \<longleftrightarrow> obj_is_section (gs_type g))) G \<and> length (filter gs_is_sect G) \<le> MAXSECT_cmp"

lemma low_type: "n < 16 \<Longrightarrow> unat (of_nat n :: byte) AND 0x0f = n"
proof -
  assume n: "n < 16"
  have "n AND 15 = n AND mask 4" by (simp add: mask_eq_exp_minus_1)
  also have "\<dots> = take_bit 4 n" by (rule take_bit_eq_mask [symmetric])
  also have "\<dots> = n" using n by (simp add: take_bit_eq_mod)
  finally show ?thesis using n by (simp add: unat_of_nat)
qed

lemma entries_of:
  assumes "sections_typed G" "list_all (\<lambda>g. length (gs_name g) = 8) G" "length es = length G"
    "\<forall>g\<in>set G. 1 \<le> gs_gid g \<and> gs_gid g \<le> length es \<and> es ! (gs_gid g - 1) = cesd_entry G g" "bij_betw (\<lambda>k. gs_gid (G ! k)) {..<length G} {1..length G}"
  shows "length (filter (obj_is_section \<circ> le_type) (dec_list 0 es)) \<le> MAXSECT_cmp"
    "list_all (\<lambda>e. le_seg e \<le> 1) (dec_list 0 es)" "list_all (\<lambda>e. le_seg e = 1) (filter (obj_is_section \<circ> le_type) (dec_list 0 es))"
    "g \<in> set G \<Longrightarrow> gs_is_sect g \<Longrightarrow> dec_esd (gs_gid g) (cesd_entry G g) \<in> set (filter (obj_is_section \<circ> le_type) (dec_list 0 es))"
proof -
  have G: "gs_type g < 16" "gs_is_sect g \<longleftrightarrow> obj_is_section (gs_type g)" "length (gs_name g) = 8" if "g \<in> set G" for g
    using assms(1,2) that by (auto simp: sections_typed_def list_all_iff)
  have ty: "le_type (dec_esd i (cesd_entry G g)) = gs_type g" if "g \<in> set G" for g i
    using cesd_entry_decode(2) [OF G(3) [OF that], of i G] low_type [OF G(1) [OF that]] by (simp add: dec_esd_def)
  have at: "\<exists>k<length G. i + 1 = gs_gid (G ! k) \<and> dec_list 0 es ! i = dec_esd (i + 1) (cesd_entry G (G ! k))" if i: "i < length es" for i
  proof -
    have "i + 1 \<in> (\<lambda>k. gs_gid (G ! k)) ` {..<length G}" using assms(3,5) i by (simp add: bij_betw_def)
    then obtain k where k: "k < length G" "i + 1 = gs_gid (G ! k)" by auto
    have "es ! (gs_gid (G ! k) - 1) = cesd_entry G (G ! k)" using assms(4) k(1) by simp
    then have "es ! i = cesd_entry G (G ! k)" by (simp add: k(2) [symmetric])
    then show ?thesis using dec_list_nth [OF i, of 0] k by auto
  qed
  have "length (filter (obj_is_section \<circ> le_type) (dec_list 0 es)) = card {i. i < length es \<and> obj_is_section (le_type (dec_list 0 es ! i))}"
    by (simp add: length_filter_conv_card)
  also have "\<dots> \<le> card ((\<lambda>k. gs_gid (G ! k) - 1) ` {k. k < length G \<and> gs_is_sect (G ! k)})"
  proof (rule card_mono)
    show "{i. i < length es \<and> obj_is_section (le_type (dec_list 0 es ! i))} \<subseteq> (\<lambda>k. gs_gid (G ! k) - 1) ` {k. k < length G \<and> gs_is_sect (G ! k)}"
    proof
      fix i assume i: "i \<in> {i. i < length es \<and> obj_is_section (le_type (dec_list 0 es ! i))}"
      then obtain k where k: "k < length G" "i + 1 = gs_gid (G ! k)" "dec_list 0 es ! i = dec_esd (i + 1) (cesd_entry G (G ! k))" using at [of i] by auto
      then have "gs_is_sect (G ! k)" using i G(2) [of "G ! k"] ty [of "G ! k" "i + 1"] by auto
      then show "i \<in> (\<lambda>k. gs_gid (G ! k) - 1) ` {k. k < length G \<and> gs_is_sect (G ! k)}" using k(1,2) by (intro image_eqI [of _ _ k]) (simp_all add: k(2) [symmetric])
    qed
  qed simp
  also have "\<dots> \<le> card {k. k < length G \<and> gs_is_sect (G ! k)}" by (rule card_image_le) simp
  also have "\<dots> \<le> MAXSECT_cmp" using assms(1) by (simp add: sections_typed_def length_filter_conv_card)
  finally show "length (filter (obj_is_section \<circ> le_type) (dec_list 0 es)) \<le> MAXSECT_cmp" .
  have in': "\<exists>g\<in>set G. e = dec_esd (gs_gid g) (cesd_entry G g)" if "e \<in> set (dec_list 0 es)" for e
    using that at by (auto simp: in_set_conv_nth) (metis nth_mem)
  show "list_all (\<lambda>e. le_seg e \<le> 1) (dec_list 0 es)" using in' cesd_entry_decode(4) G(3) by (fastforce simp: list_all_iff)
  show "list_all (\<lambda>e. le_seg e = 1) (filter (obj_is_section \<circ> le_type) (dec_list 0 es))"
    using in' cesd_entry_decode(5) G ty by (fastforce simp: list_all_iff)
  show "dec_esd (gs_gid g) (cesd_entry G g) \<in> set (filter (obj_is_section \<circ> le_type) (dec_list 0 es))" if "g \<in> set G" "gs_is_sect g"
  proof -
    have g: "1 \<le> gs_gid g" "gs_gid g \<le> length es" "es ! (gs_gid g - 1) = cesd_entry G g" using assms(4) that(1) by auto
    then have "dec_list 0 es ! (gs_gid g - 1) = dec_esd (gs_gid g) (cesd_entry G g)" using dec_list_nth [of "gs_gid g - 1" es 0] by simp
    then have "dec_esd (gs_gid g) (cesd_entry G g) \<in> set (dec_list 0 es)" using g nth_mem [of "gs_gid g - 1" "dec_list 0 es"] by simp
    then show ?thesis using G(2) [OF that(1)] ty [OF that(1)] that(2) by simp
  qed
qed


lemma tail_seg_facts:
  assumes em: "emittable os" and ly: "ly = assign_addresses (pass2 os)" and m: "length m = ly_modlen ly" "ly_modlen ly < 2 ^ 24"
    and s: "s \<in> set (member_segs eo ly m moddef cs)"
  shows "no_segend s" "sg_text s = [] \<or> seg_addr s + length (sg_text s) \<le> length m \<and> sg_text s = take (length (sg_text s)) (drop (seg_addr s) m)"
proof -
  note t = tail_ended [OF em ly m(1), of eo moddef]
  let ?h = "live_items ly \<noteq> []"
  have seg: "seg_addr (text_seg m ?h r) = nat (tx_p r) \<and> sg_text (text_seg m ?h r) = take (nat (tx_len r)) (drop (nat (tx_p r)) m) \<and> nat (tx_p r) + nat (tx_len r) \<le> length m"
    if r: "r \<in> set (kept_recs eo ly moddef)" for r
  proof -
    have b: "0 \<le> tx_p r" "0 \<le> tx_len r" "tx_p r + tx_len r \<le> int (length m)" "tx_len r \<le> int (pick_maxtext (eo_blksize eo))" using t(3) r by (auto simp: list_all_iff rec_in_def)
    obtain ids where ids: "length ids < 16384" "tx_ctl r = ctl_rec (if tx_last r \<and> \<not> ?h then 0x0D else 0x01) (tx_p r) (tx_len r) ids"
      using t(2) r by (auto simp: list_all_iff rec_wf_def)
    have l: "tx_len r < 65536" using b(4) pick_maxtext_le [of "eo_blksize eo"] by simp
    have "tx_p r mod 2 ^ 24 = tx_p r" using b m by simp
    then show ?thesis using ctl_rec_fields(5) [OF ids(1) b(2) l] ids(2) b by (simp add: seg_addr_def text_seg_def)
  qed
  consider (cesd) h c where "s = cesd_seg h c" | (idr) b where "s = idr_seg b" | (trec) r where "r \<in> set (kept_recs eo ly moddef)" "s = text_seg m ?h r" | (rld) d where "s = rld_seg 0x02 d" | (rld_end) d where "s = rld_seg 0x0E d"
    using s by (auto simp: member_segs_def tail_segs_def split: if_splits)
  then have "no_segend s \<and> (sg_text s = [] \<or> seg_addr s + length (sg_text s) \<le> length m \<and> sg_text s = take (length (sg_text s)) (drop (seg_addr s) m))"
  proof cases
    case trec
    have "no_segend s" by (simp add: trec(2) no_segend_def text_seg_def LMOD_CTL_SEGEND_def LMOD_CTL_END_def)
    then show ?thesis using seg [OF trec(1)] trec(2) by (simp add: min_def)
  qed (auto simp: no_segend_def cesd_seg_def idr_seg_def rld_seg_def LMOD_CTL_SEGEND_def LMOD_CTL_END_def)
  then show "no_segend s" "sg_text s = [] \<or> seg_addr s + length (sg_text s) \<le> length m \<and> sg_text s = take (length (sg_text s)) (drop (seg_addr s) m)" by simp_all
qed

lemma section_covered:
  assumes em: "emittable os" and ly: "ly = assign_addresses (pass2 os)" and m: "length m = ly_modlen ly" "ly_modlen ly < 2 ^ 24" and sp: "\<not> eo_sparse eo"
    and g: "g \<in> set (cp_G (ly_st ly))" "gs_is_sect g" "gs_type g \<noteq> T_CM" and x: "gs_org g \<le> int x" "int x < gs_org g + int (gs_len g)"
  shows "\<exists>s\<in>set (member_segs eo ly m moddef cs). seg_addr s \<le> x \<and> x < seg_addr s + length (sg_text s)"
proof -
  let ?G = "cp_G (ly_st ly)" and ?h = "live_items ly \<noteq> []"
  have e: "names_clear os" "decks_fresh os" "list_all sects_apart os" "text_whole ?G" using em by (simp_all add: emittable_def Let_def ly)
  note s = text_sects_spec [OF e(1-3) e(4) [unfolded ly], folded ly]
  have kept: "kept_recs eo ly moddef = text_recs (eo_blksize eo) ?h (int (ly_textend ly)) (text_sects ?G)"
    using sp by (simp add: kept_recs_def Let_def keep_rec_def)
  have "g \<in> set (text_sects ?G)" using s(2) g by auto
  then have "covered (kept_recs eo ly moddef) (int x)" using text_recs_cover [OF s(1), of "eo_blksize eo" ?h g "int x"] x unfolding kept by blast
  then obtain r where r: "r \<in> set (kept_recs eo ly moddef)" "tx_p r \<le> int x" "int x < tx_p r + tx_len r" by (auto simp: covered_def list_ex_iff)
  note t = tail_ended [OF em ly m(1), of eo moddef]
  have b: "0 \<le> tx_p r" "0 \<le> tx_len r" "tx_p r + tx_len r \<le> int (length m)" "tx_len r \<le> int (pick_maxtext (eo_blksize eo))" using t(3) r(1) by (auto simp: list_all_iff rec_in_def)
  obtain ids where ids: "length ids < 16384" "tx_ctl r = ctl_rec (if tx_last r \<and> \<not> ?h then 0x0D else 0x01) (tx_p r) (tx_len r) ids"
    using t(2) r(1) by (auto simp: list_all_iff rec_wf_def)
  have l: "tx_len r < 65536" using b(4) pick_maxtext_le [of "eo_blksize eo"] by simp
  have "tx_p r mod 2 ^ 24 = tx_p r" using b m by simp
  then have "seg_addr (text_seg m ?h r) = nat (tx_p r)" "length (sg_text (text_seg m ?h r)) = nat (tx_len r)"
    using ctl_rec_fields(5) [OF ids(1) b(2) l] ids(2) b by (simp_all add: seg_addr_def text_seg_def)
  moreover have "text_seg m ?h r \<in> set (member_segs eo ly m moddef cs)" using r(1) by (simp add: member_segs_def tail_segs_def)
  ultimately show ?thesis using r(2,3) b by (intro bexI [of _ "text_seg m ?h r"]) auto
qed

lemma list_all_ended: "ended ss \<Longrightarrow> list_all seg_ok ss"
  by (induction ss) (auto split: if_splits)

text \<open>A member that starts with a symbol record is loaded as a load module.\<close>

lemma cesd_first_load:
  assumes "cs \<noteq> []" "list_all (\<lambda>(h, c). length h = 8 \<and> list_all (\<lambda>e. length e = 16) c \<and> seg_ok (cesd_seg h c)) cs"
  shows "load_side (concat (map seg_bytes (member_segs eo ly m moddef cs))) = load_lmod (concat (map seg_bytes (member_segs eo ly m moddef cs)))"
proof -
  let ?mem = "concat (map seg_bytes (member_segs eo ly m moddef cs))"
  obtain h c cs' where cs: "cs = (h, c) # cs'" using assms(1) by (cases cs) auto
  then have "lmod_frame (h @ concat c) 0 = Some (LMOD_CESD, 0, length (h @ concat c), 0, False)" "length h = 8"
    using assms(2) by (auto simp: seg_ok_def cesd_seg_def seg_end_def)
  then have "byte_at h 0 AND 0xf0 = 0x20" by (auto simp: lmod_frame_def Let_def split: if_splits)
  moreover have "?mem = h @ concat c @ concat (map seg_bytes (member_segs eo ly m moddef cs'))"
    by (simp add: member_segs_def cs seg_bytes_def cesd_seg_def)
  ultimately show ?thesis using \<open>length h = 8\<close> by (simp add: load_side_def)
qed

text \<open>The image built from text segments that fit it: each byte a segment covers is the module's.\<close>

lemma image_of_segs:
  assumes ok: "list_all seg_ok segs" and mem: "mem = concat (map seg_bytes segs)" and sc: "lmod_records mem = seg_walk 0 segs"
    and fit: "\<And>s. s \<in> set segs \<Longrightarrow> sg_text s \<noteq> [] \<Longrightarrow> seg_addr s + length (sg_text s) \<le> imglen"
    and f: "\<And>s. s \<in> set segs \<Longrightarrow> no_segend s"
      "\<And>s. s \<in> set segs \<Longrightarrow> sg_text s = [] \<or> seg_addr s + length (sg_text s) \<le> length m \<and> sg_text s = take (length (sg_text s)) (drop (seg_addr s) m)"
  shows "length (seg_image mem 1 imglen 1) = imglen"
    "s \<in> set segs \<Longrightarrow> seg_addr s \<le> x \<Longrightarrow> x < seg_addr s + length (sg_text s) \<Longrightarrow> x < imglen \<and> seg_image mem 1 imglen 1 ! x = m ! x"
proof -
  have whole: "mem = [] @ concat (map seg_bytes segs) @ []" by (simp add: mem)
  have "list_all no_segend segs" using f(1) by (simp add: list_all_iff)
  then have i: "seg_image mem 1 imglen 1 = fold put_seg segs (replicate imglen 0)"
    using img_segs [OF ok _ whole, of "\<lparr>ss_cs = 1, ss_segend = False, ss_pend = None, ss_img = replicate imglen 0\<rparr>" 1 imglen 1] fit
    unfolding seg_image_def sc by simp
  have "list_all (\<lambda>s. sg_text s = [] \<or> seg_addr s + length (sg_text s) \<le> length (replicate imglen (0::byte)) \<and> sg_text s = take (length (sg_text s)) (drop (seg_addr s) m)
      \<and> seg_addr s + length (sg_text s) \<le> length m) segs" using f(2) fit by (auto simp: list_all_iff)
  note a = puts_agree [OF this]
  show "length (seg_image mem 1 imglen 1) = imglen" using a i by simp
  assume s: "s \<in> set segs" "seg_addr s \<le> x" "x < seg_addr s + length (sg_text s)"
  then have "x < imglen" using fit [of s] by fastforce
  then show "x < imglen \<and> seg_image mem 1 imglen 1 ! x = m ! x" using a i s by (auto simp: list_ex_iff)
qed

lemma slice_agrees:
  assumes "\<And>x. k \<le> x \<Longrightarrow> x < k + n \<Longrightarrow> x < length a \<and> a ! x = b ! x" "0 < n" "k + n \<le> length b"
  shows "take n (drop k a) = take n (drop k b)"
proof -
  have "k + n \<le> length a" using assms(1) [of "k + n - 1"] assms(2) by linarith
  then show ?thesis using assms(1,3) by (intro nth_equalityI) auto
qed



end
