(* ===== verification/Spec2Isabelle.thy ===== *)
theory Spec2Isabelle
  imports Runtime_Dw Runtime_Arith Runtime_Bits Runtime_Trapv Runtime_Hfp Xmit_Create As_Emit As_Expr_Sem As_Using Cmp_Difout Cmp_Reload
begin

text \<open>
  A verification library for cc370, the cross toolchain for MVS 3.8j: a C compiler (a fork of GCC 3.4), and, in
  C, its runtime helpers, an assembler, an archiver, a linkage editor, a comparison of modules and a packager for TSO transmissions. The
  library models the toolchain's own C code: what each tool reads and writes is a list of bytes, a file that
  cannot be read is \<open>None\<close>, an error exit is a value of a sum type, what is printed is returned, and a growing
  array is a list. Machine integers are words where they wrap (runtime helpers, fields) and numbers where
  the code bounds them.

  The parts, in the order in which a program passes through them, with the theories that model them:

  \<^item> \<^bold>\<open>Runtime helpers\<close>, \<^verbatim>\<open>src/runtime/src\<close>, which compiled programs call. \<open>Runtime_Dw\<close> has the double-word values and
    the locale of the 64-bit operations, \<open>Runtime_Arith\<close> multiplication and division, \<open>Runtime_Bits\<close> comparison,
    negation and bit counting, \<open>Runtime_Trapv\<close> the trapping arithmetic, \<open>Runtime_Hfp\<close> the conversions between
    integers and hexadecimal floating point. Shown: each helper computes its arithmetic function on all inputs,
    its loops end, and the trapping ones abort exactly on overflow.
  \<^item> \<^bold>\<open>Common code\<close>, \<^verbatim>\<open>src/common\<close>. \<open>Mvs_Bytes\<close> has the big-endian fields (locale \<open>field_codec\<close>), \<open>Cp037\<close> the EBCDIC
    tables and names, \<open>Netdata\<close> the segmented records of a transmission, \<open>Ckd\<close> the track geometry and the
    chained records of an unload, \<open>Obj_Cards\<close> the object-card walks, \<open>Lmod\<close> the load-module record walk.
    \<open>Lmod_Segs\<close> has the lemmas on walking a member that is laid down segment by segment. \<open>Rec_Chain\<close>, \<open>Shift_Sort\<close>,
    \<open>Rld_Run\<close> and \<open>Fmt370\<close> hold what several tools share: a chain of length-prefixed records, the insertion sort
    written out in several tools, the run encoding of RLD items, and the parts of \<^verbatim>\<open>printf\<close> and \<^verbatim>\<open>atol\<close> in use.
  \<^item> \<^bold>\<open>as370\<close>, \<^verbatim>\<open>src/as370/src/as370.c\<close>. \<open>As_State\<close> has the tables behind an object deck and the operations on them
    (text and its log, ESDIDs, section origins, literal pool, relocations), \<open>As_Deck\<close> and \<open>As_Emit\<close> the deck
    writer. Shown: the deck reads back, through the walks of \<open>Obj_Cards\<close>, as the symbols, the text log and the
    sorted relocations it was made from. \<open>As_Expr\<close> is the expression evaluator, \<open>As_Expr_Sem\<close> what it computes: the
    value of the expression tree behind a text, and a relocation class that says truly how the value moves with the sections.
    \<open>As_Using\<close> has the statements that establish and end base registers: the table stays keyed by register, the exported
    events replay to it, and the base chosen for an address is the best one and addresses it.
  \<^item> \<^bold>\<open>ar370\<close>, \<^verbatim>\<open>src/ar370/src/ar370.c\<close>: \<open>Ar_Archive\<close>, the archive writer and the listing.
  \<^item> \<^bold>\<open>ld370\<close>, \<^verbatim>\<open>src/ld370/src/ld370.c\<close>. \<open>Ld_Archive\<close> loads archives: what ar370 wrote comes back. \<open>Ld_Object\<close> reads decks:
    its tables are those of the shared reader. \<open>Ld_Autocall\<close> pulls members: the search ends and ends closed. \<open>Ld_Symbols\<close> builds the composite symbol
    table: references bind by name, the first section of a name is kept. \<open>Ld_Layout\<close> assigns addresses and ids: no
    two sections overlap. \<open>Ld_Image\<close> builds the text image and relocates it: every address constant ends as its
    target's final address plus its offset. \<open>Ld_Emit\<close> writes the member: its text records hold every byte of every
    section and none is too long. \<open>Ld_Reload\<close>: the member scans without an anomaly and its composite ESD is the
    symbol table.
  \<^item> \<^bold>\<open>cmplmd370\<close>, \<^verbatim>\<open>src/cmplmd370/src/cmplmd370.c\<close>. \<open>Cmp_Load\<close> loads a deck or a member, \<open>Cmp_Compare\<close> pairs and
    compares: clusters are exactly the differing bytes, and exit code 0 means agreement of every section looked
    at. \<open>Cmp_Difout\<close>: the list of differences a run writes makes the next run agree. \<open>Cmp_Reload\<close> puts the two tools
    together: what ld370 linked is what cmplmd370 loads.
  \<^item> \<^bold>\<open>xmit370\<close>, \<^verbatim>\<open>src/xmit370/src/xmit370.c\<close>. \<open>Xmit_Text\<close> converts text, \<open>Xmit_Unload\<close> builds the IEBCOPY unload image,
    \<open>Xmit_Emit\<close> the transmission around it, \<open>Xmit_Read\<close> reads one back, \<open>Xmit_Create\<close> is the create command. Shown:
    what create packs, extract returns; every record has its own place on a track that holds it; sizes
    computed beforehand are the sizes written.

  Interfaces are locales, interpreted on the code's own operations: \<open>field_codec\<close> (a fixed-width field),
  \<open>rec_chain\<close> (records laid end to end, walked by their length fields: the NETDATA stream, the unload and the
  archive), \<open>keyed_order\<close> (the insertion sort is the stable sort by a key).

  No bound stands for a loop that could run on: loops are functions with a measure, or carry fuel that a
  lemma shows to be enough (\<open>txt_event\<close>, one unit per byte of the event and one more;
  \<open>x_fuel\<close>, one per character of the expression and one more). Where C leaves a read
  undefined - behind the end of a buffer - the model reads a zero, and the theorems either exclude it or the
  findings name it.

  Not modelled: the compiler (third-party code); command lines, \<^verbatim>\<open>--list\<close> printing and file I/O of the tools;
  in as370 the macro layer, the statements other than USING, DROP, PUSH and POP, constants and instruction encoding; in ld370 the
  writers of maps, unloads and transmissions; in cmplmd370 the reports; file370, dasm370 and idrdump370.
\<close>

end
